(* ===== verification/Prelude.thy ===== *)
theory Prelude
  imports Main "HOL-Library.Word" "HOL-Library.Monad_Syntax"
begin

text \<open>
  What the component theories share: the widths of the C integer types, the crash
  convention, facts that move word arithmetic to natural numbers where it does not
  wrap, and spans of addresses.

  A C function that can end the process (a failed \<^verbatim>\<open>assert\<close>, \<^verbatim>\<open>abort\<close>,
  \<^verbatim>\<open>std::terminate\<close>) or run into undefined behaviour (a read or write outside an
  array) has a result of type \<open>'a run\<close>: \<open>None\<close> is that end, \<open>Some r\<close> an ordinary
  return. A C \<^verbatim>\<open>NULL\<close> is a \<open>None\<close> inside the returned value.
\<close>

type_synonym u8 = "8 word"
type_synonym u16 = "16 word"
type_synonym u32 = "32 word"
type_synonym u64 = "64 word"

type_synonym 'a run = "'a option"

text \<open>\<open>check b\<close> is the C \<^verbatim>\<open>assert(b)\<close>.\<close>

definition check :: "bool \<Rightarrow> unit run" where
  "check b = (if b then Some () else None)"

lemma check_simps [simp]:
  "check True = Some ()" "check False = None" "check b = Some u \<longleftrightarrow> b" "check b = None \<longleftrightarrow> \<not> b"
  by (simp_all add: check_def)

lemma check_bind [simp]: "(check b \<bind> f) = (if b then f () else None)"
  by (simp add: check_def)

named_theorems unat_nowrap \<open>word operations that agree with the natural-number ones\<close>

subsection \<open>Words without wrap-around\<close>

lemma unat_lt64 [simp]: "unat (x :: u64) < 18446744073709551616"
  using unsigned_less [of x] by simp

lemma unat_le64 [simp]: "unat (x :: u64) \<le> 18446744073709551615"
  using unat_lt64 [of x] by linarith

lemma unat_add64 [unat_nowrap]:
  "unat (x :: u64) + unat y < 2 ^ 64 \<Longrightarrow> unat (x + y) = unat x + unat y"
  using unat_add_lem [of x y] by simp

lemma unat_mult64 [unat_nowrap]:
  "unat (x :: u64) * unat y < 2 ^ 64 \<Longrightarrow> unat (x * y) = unat x * unat y"
  using unat_mult_lem [of x y] by simp

lemma unat_sub64 [unat_nowrap]: "(y :: u64) \<le> x \<Longrightarrow> unat (x - y) = unat x - unat y"
  by (simp add: unat_sub_if' word_le_nat_alt)

lemma unat_sub64' [unat_nowrap]:
  "unat y \<le> unat x \<Longrightarrow> unat ((x :: u64) - y) = unat x - unat y"
  by (rule unat_sub64) (simp add: word_le_nat_alt)

lemma unat_of_nat64 [unat_nowrap]: "n < 2 ^ 64 \<Longrightarrow> unat (of_nat n :: u64) = n"
  by (simp add: unat_of_nat take_bit_eq_mod)

lemma unat_div64: "unat ((x :: u64) div y) = unat x div unat y"
  by (rule unat_div)

lemma unat_mod64: "unat ((x :: u64) mod y) = unat x mod unat y"
  by (rule unat_mod)

lemma unat_drop_bit64: "unat (drop_bit n (x :: u64)) = unat x div 2 ^ n"
  by (subst unat_drop_bit_eq) (rule drop_bit_eq_div)

lemma unat_take_bit64: "unat (take_bit n (x :: u64)) = unat x mod 2 ^ n"
  by (subst unsigned_take_bit_eq) (rule take_bit_eq_mod)

lemma unat_push_bit64 [unat_nowrap]:
  "unat (x :: u64) * 2 ^ n < 2 ^ 64 \<Longrightarrow> unat (push_bit n x) = unat x * 2 ^ n"
  unfolding unsigned_push_bit_eq by (simp add: push_bit_eq_mult take_bit_eq_mod)

lemma word_eq_nat_iff: "(x = (y :: u64)) \<longleftrightarrow> unat x = unat y"
  by (simp add: word_unat_eq_iff)

lemma mod_eq_0_nat_iff: "((x :: u64) mod y = 0) \<longleftrightarrow> unat y dvd unat x"
  by (simp add: word_eq_nat_iff unat_mod64 mod_eq_0_iff_dvd)

subsection \<open>Spans of addresses\<close>

text \<open>The \<open>n\<close> byte addresses from \<open>p\<close> on, as natural numbers.\<close>

definition span :: "u64 \<Rightarrow> u64 \<Rightarrow> nat set" where
  "span p n = {unat p ..< unat p + unat n}"

lemma span_zero [simp]: "span p 0 = {}"
  by (simp add: span_def)

lemma in_span: "x \<in> span p n \<longleftrightarrow> unat p \<le> x \<and> x < unat p + unat n"
  by (simp add: span_def)

lemma finite_span [simp]: "finite (span p n)"
  by (simp add: span_def)

subsection \<open>Multiples and intervals\<close>

lemma shift_interval:
  "(b :: nat) \<le> k \<Longrightarrow> b \<le> y \<Longrightarrow> (k - b \<le> y - b \<and> y - b < k - b + m) \<longleftrightarrow> (k \<le> y \<and> y < k + m)"
  by arith

lemma div_le_div_iff_dvd:
  fixes a b c :: nat
  assumes "0 < c" "c dvd a" "c dvd b"
  shows "a div c \<le> b div c \<longleftrightarrow> a \<le> b"
  using assms by (auto elim!: dvdE)

lemma dvd_next_multiple:
  fixes a b c :: nat
  assumes "c dvd a" "c dvd b" "a < b"
  shows "a + c \<le> b"
proof -
  from assms obtain k m where "a = c * k" and "b = c * m" by (auto elim!: dvdE)
  with \<open>a < b\<close> have "k < m" by simp
  then have "c * (k + 1) \<le> c * m" by (intro mult_le_mono2) simp
  with \<open>a = c * k\<close> \<open>b = c * m\<close> show ?thesis by simp
qed

subsection \<open>Removing the element at an index\<close>

lemma set_remove_nth:
  assumes "distinct xs" "i < length xs"
  shows "set (take i xs @ drop (Suc i) xs) = set xs - {xs ! i}"
    "distinct (take i xs @ drop (Suc i) xs)"
proof -
  have "distinct (take i xs @ xs ! i # drop (Suc i) xs)"
    "set xs = set (take i xs @ xs ! i # drop (Suc i) xs)"
    using assms by (simp_all flip: id_take_nth_drop)
  then show "set (take i xs @ drop (Suc i) xs) = set xs - {xs ! i}"
    "distinct (take i xs @ drop (Suc i) xs)" by auto
qed

lemma option_eq_Some: "(\<And>v. x = Some v \<longleftrightarrow> y = Some v) \<Longrightarrow> x = y"
  by (cases x; cases y) auto

end
