(* ===== verification/SpaceAlloc.thy ===== *)
theory SpaceAlloc
  imports Prelude
begin

text \<open>
  The contract of an allocator of address space, which \<^verbatim>\<open>core/extalloc.c\<close> and
  \<^verbatim>\<open>core/boxmap.c\<close> both offer: \<open>alloc\<close> hands out a fresh span or returns 0, \<open>free\<close>
  gives a span back. \<open>used\<close> is the set of addresses handed out, \<open>inv\<close> the
  well-formedness of the allocator, \<open>fits\<close> the sizes that may be asked for and \<open>slot\<close>
  the spans the allocator can have handed out.

  The client lemma is the isolation property the engine relies on: along any sequence
  of allocations and releases, the live spans are pairwise disjoint and exactly cover
  the used addresses.
\<close>

text \<open>A client's request: allocate a size, or release the live span with an index.\<close>

datatype space_req = Take u64 | Give nat

fun space_run ::
  "('a \<Rightarrow> u64 \<Rightarrow> (u64 \<times> 'a) run) \<Rightarrow> ('a \<Rightarrow> u64 \<Rightarrow> u64 \<Rightarrow> 'a run) \<Rightarrow>
   space_req list \<Rightarrow> 'a \<times> (u64 \<times> u64) list \<Rightarrow> ('a \<times> (u64 \<times> u64) list) run" where
  "space_run alloc free [] st = Some st"
| "space_run alloc free (Take n # rs) (a, live) =
     (alloc a n \<bind> (\<lambda>(p, a').
        space_run alloc free rs (a', if p = 0 then live else (p, n) # live)))"
| "space_run alloc free (Give i # rs) (a, live) =
     (if i < length live then
        (case live ! i of (p, n) \<Rightarrow>
           free a p n \<bind> (\<lambda>a'. space_run alloc free rs (a', take i live @ drop (Suc i) live)))
      else space_run alloc free rs (a, live))"

text \<open>The live spans are disjoint and cover the used addresses.\<close>

definition live_ok :: "(u64 \<times> u64) list \<Rightarrow> nat set \<Rightarrow> bool" where
  "live_ok live U \<longleftrightarrow>
     sorted_wrt (\<lambda>x y. span (fst x) (snd x) \<inter> span (fst y) (snd y) = {}) live \<and>
     (\<Union>x \<in> set live. span (fst x) (snd x)) = U"

lemma live_ok_Nil [simp]: "live_ok [] U \<longleftrightarrow> U = {}"
  by (auto simp: live_ok_def)

lemma live_ok_Cons:
  "live_ok ((p, n) # live) U \<longleftrightarrow>
     (\<exists>V. live_ok live V \<and> span p n \<inter> V = {} \<and> U = V \<union> span p n)"
proof -
  have "(\<forall>y \<in> set live. span p n \<inter> span (fst y) (snd y) = {}) \<longleftrightarrow>
      span p n \<inter> (\<Union>x \<in> set live. span (fst x) (snd x)) = {}" by blast
  then show ?thesis by (auto simp: live_ok_def)
qed

lemma live_ok_remove:
  assumes "live_ok live U" "i < length live" "live ! i = (p, n)"
  shows "live_ok (take i live @ drop (Suc i) live) (U - span p n)" "span p n \<subseteq> U"
proof -
  show "span p n \<subseteq> U"
    using assms nth_mem [OF assms(2)] by (force simp: live_ok_def)
  show "live_ok (take i live @ drop (Suc i) live) (U - span p n)"
    using assms
  proof (induction live arbitrary: i U)
    case Nil
    then show ?case by simp
  next
    case (Cons x live)
    obtain q m where x: "x = (q, m)" by (cases x)
    with Cons.prems(1) obtain V where V: "live_ok live V" "span q m \<inter> V = {}" "U = V \<union> span q m"
      by (auto simp: live_ok_Cons)
    show ?case
    proof (cases i)
      case 0
      with Cons.prems x V have "U - span p n = V" by auto
      with 0 V show ?thesis by simp
    next
      case (Suc i')
      with Cons.prems have i': "i' < length live" "live ! i' = (p, n)" by auto
      then have "span p n \<subseteq> V"
        using V(1) nth_mem [OF i'(1)] by (force simp: live_ok_def)
      with V have "U - span p n = (V - span p n) \<union> span q m" "span q m \<inter> (V - span p n) = {}"
        by auto
      with Suc x Cons.IH [OF V(1) i'] show ?thesis by (auto simp: live_ok_Cons)
    qed
  qed
qed

locale space_alloc =
  fixes alloc :: "'a \<Rightarrow> u64 \<Rightarrow> (u64 \<times> 'a) run"
    and free :: "'a \<Rightarrow> u64 \<Rightarrow> u64 \<Rightarrow> 'a run"
    and used :: "'a \<Rightarrow> nat set"
    and inv :: "'a \<Rightarrow> bool"
    and fits :: "'a \<Rightarrow> u64 \<Rightarrow> bool"
    and slot :: "'a \<Rightarrow> u64 \<Rightarrow> u64 \<Rightarrow> bool"
  assumes alloc_law: "inv a \<Longrightarrow> fits a n \<Longrightarrow>
      \<exists>p a'. alloc a n = Some (p, a') \<and> inv a' \<and> fits a' = fits a \<and> slot a' = slot a \<and>
        (if p = 0 then used a' = used a
         else slot a p n \<and> span p n \<inter> used a = {} \<and> used a' = used a \<union> span p n)"
    and free_law: "inv a \<Longrightarrow> slot a p n \<Longrightarrow> span p n \<subseteq> used a \<Longrightarrow>
      \<exists>a'. free a p n = Some a' \<and> inv a' \<and> fits a' = fits a \<and> slot a' = slot a \<and>
        used a' = used a - span p n"
begin

text \<open>
  A client whose requests fit never crashes the allocator, and its live spans stay
  disjoint.
\<close>

lemma run_live:
  assumes "inv a" "live_ok live (used a)" "\<forall>(p, n) \<in> set live. slot a p n"
    "\<forall>n. Take n \<in> set rs \<longrightarrow> fits a n"
  shows "\<exists>a' live'. space_run alloc free rs (a, live) = Some (a', live') \<and> inv a' \<and>
    fits a' = fits a \<and> live_ok live' (used a') \<and> (\<forall>(p, n) \<in> set live'. slot a' p n)"
  using assms
proof (induction rs arbitrary: a live)
  case Nil
  then show ?case by auto
next
  case (Cons r rs)
  show ?case
  proof (cases r)
    case (Take n)
    with Cons.prems have "fits a n" by simp
    from alloc_law [OF Cons.prems(1) this] obtain p a' where a': "alloc a n = Some (p, a')"
      "inv a'" "fits a' = fits a" "slot a' = slot a"
      "if p = 0 then used a' = used a
       else slot a p n \<and> span p n \<inter> used a = {} \<and> used a' = used a \<union> span p n" by blast
    let ?live = "if p = 0 then live else (p, n) # live"
    have "live_ok ?live (used a')" using a'(5) Cons.prems(2) by (auto simp: live_ok_Cons)
    moreover have "\<forall>(p, n) \<in> set ?live. slot a' p n" using a'(4,5) Cons.prems(3) by auto
    moreover have "\<forall>n. Take n \<in> set rs \<longrightarrow> fits a' n" using a'(3) Cons.prems(4) by simp
    ultimately show ?thesis using Cons.IH [OF a'(2)] a' Take by auto
  next
    case (Give i)
    show ?thesis
    proof (cases "i < length live")
      case True
      obtain p n where pn: "live ! i = (p, n)" by (cases "live ! i")
      with True Cons.prems(3) have s: "slot a p n" by (metis case_prodD nth_mem)
      note rem = live_ok_remove [OF Cons.prems(2) True pn]
      from free_law [OF Cons.prems(1) s rem(2)] obtain a' where a': "free a p n = Some a'"
        "inv a'" "fits a' = fits a" "slot a' = slot a" "used a' = used a - span p n" by blast
      have "\<forall>(p, n) \<in> set (take i live @ drop (Suc i) live). slot a' p n"
        using a'(4) Cons.prems(3) by (auto dest: in_set_takeD in_set_dropD)
      then show ?thesis
        using Cons.IH [OF a'(2), of "take i live @ drop (Suc i) live"] a' rem(1) Cons.prems(4)
          Give True pn by auto
    next
      case False
      then show ?thesis using Give Cons by auto
    qed
  qed
qed

text \<open>From an allocator with nothing handed out.\<close>

corollary run_from_empty:
  assumes "inv a" "used a = {}" "\<forall>n. Take n \<in> set rs \<longrightarrow> fits a n"
  shows "\<exists>a' live. space_run alloc free rs (a, []) = Some (a', live) \<and>
    live_ok live (used a')"
  using run_live [of a "[]" rs] assms by auto

text \<open>Allocating and releasing at once changes no address.\<close>

lemma alloc_free_used:
  assumes "inv a" "fits a n" "alloc a n = Some (p, a1)" "p \<noteq> 0"
  shows "\<exists>a2. free a1 p n = Some a2 \<and> used a2 = used a"
proof -
  from alloc_law [OF assms(1,2)] assms(3,4) have a1: "inv a1" "slot a1 p n"
    "span p n \<inter> used a = {}" "used a1 = used a \<union> span p n" by auto
  then have "span p n \<subseteq> used a1" by blast
  from free_law [OF a1(1,2) this] a1(3,4) show ?thesis by auto
qed

end

end
