(* ===== verification/ExtAlloc.thy ===== *)
theory ExtAlloc
  imports SpaceAlloc
begin

text \<open>
  The extent allocator of \<^verbatim>\<open>core/extalloc.c\<close>: a region of address space cut into
  chunks, one bit of \<^verbatim>\<open>bitvec\<close> per chunk (the most significant bit of a byte is its
  first chunk). Definitions first, then the abstraction of the bit vector to the set of
  used chunks and of the allocator to the set of used addresses.
\<close>

unbundle bit_operations_syntax

record extalloc =
  ea_base :: u64
  ea_size :: u64
  ea_chunksize :: u64
  ea_bitvec :: "u8 list"

text \<open>
  \<open>extalloc_new ok1 ok2\<close>: \<open>ok1\<close> and \<open>ok2\<close> say whether \<^verbatim>\<open>malloc\<close> and \<^verbatim>\<open>calloc\<close>
  succeed; \<open>Some None\<close> is a returned \<^verbatim>\<open>NULL\<close>.
\<close>

definition extalloc_new ::
  "bool \<Rightarrow> bool \<Rightarrow> u64 \<Rightarrow> u64 \<Rightarrow> u64 \<Rightarrow> extalloc option run" where
  "extalloc_new ok1 ok2 base sz chunksize = do {
     check (base mod chunksize = 0);
     check (sz mod chunksize = 0);
     let base = base div chunksize;
     let sz = sz div chunksize;
     if \<not> ok1 then Some None
     else if \<not> ok2 then Some None
     else Some (Some \<lparr>ea_base = base, ea_size = sz, ea_chunksize = chunksize,
                      ea_bitvec = replicate (unat (sz div 8 + 1)) 0\<rparr>)
   }"

text \<open>\<^verbatim>\<open>bit\<close>; a read outside the vector is \<open>None\<close>.\<close>

definition bitvec_bit :: "u8 list \<Rightarrow> nat \<Rightarrow> u8 run" where
  "bitvec_bit bv i =
     (let byte = i div 8; bit_off = 7 - i mod 8
      in if byte < length bv then Some (drop_bit bit_off (bv ! byte) AND 1) else None)"

text \<open>
  The loop of \<^verbatim>\<open>bitvec_find_zeroes\<close> from index \<open>i\<close> with \<open>count\<close> zeroes just seen;
  \<open>Inl ()\<close> is the returned \<open>-1\<close>. Indices are below \<open>nbits\<close>, so they do not wrap and are
  natural numbers here.
\<close>

function find_zeroes_loop ::
  "u8 list \<Rightarrow> nat \<Rightarrow> nat \<Rightarrow> nat \<Rightarrow> nat \<Rightarrow> (unit + nat) run" where
  "find_zeroes_loop bv nbits n i count =
     (if i < nbits then
        bitvec_bit bv i \<bind> (\<lambda>b.
          if b = 0 then
            (if count + 1 = n then Some (Inr (i + 1 - n))
             else find_zeroes_loop bv nbits n (i + 1) (count + 1))
          else find_zeroes_loop bv nbits n (i + 1) 0)
      else Some (Inl ()))"
  by pat_completeness auto
termination
  by (relation "measure (\<lambda>(bv, nbits, n, i, count). nbits - i)") auto

declare find_zeroes_loop.simps [simp del]

definition bitvec_find_zeroes :: "u8 list \<Rightarrow> nat \<Rightarrow> nat \<Rightarrow> (unit + nat) run" where
  "bitvec_find_zeroes bv nbits n =
     (if n = 0 \<or> nbits = 0 then Some (Inl ()) else find_zeroes_loop bv nbits n 0 0)"

text \<open>One iteration of \<^verbatim>\<open>bitvec_set\<close>; a write outside the vector is \<open>None\<close>.\<close>

definition bitvec_set1 :: "u8 list \<Rightarrow> nat \<Rightarrow> bool \<Rightarrow> u8 list run" where
  "bitvec_set1 bv i v =
     (let byte = i div 8; bit_off = 7 - i mod 8
      in if byte < length bv then
           Some (bv[byte := (if v then bv ! byte OR push_bit bit_off 1
                             else bv ! byte AND NOT (push_bit bit_off 1))])
         else None)"

text \<open>\<^verbatim>\<open>bitvec_set\<close>: the index \<^verbatim>\<open>start + i\<close> is computed at its width.\<close>

fun bitvec_set_loop :: "u8 list \<Rightarrow> u64 \<Rightarrow> nat \<Rightarrow> nat \<Rightarrow> bool \<Rightarrow> u8 list run" where
  "bitvec_set_loop bv start i 0 v = Some bv"
| "bitvec_set_loop bv start i (Suc m) v =
     bitvec_set1 bv (unat (start + of_nat i)) v \<bind>
       (\<lambda>bv'. bitvec_set_loop bv' start (Suc i) m v)"

definition bitvec_set :: "u8 list \<Rightarrow> u64 \<Rightarrow> u64 \<Rightarrow> bool \<Rightarrow> u8 list run" where
  "bitvec_set bv start len v = bitvec_set_loop bv start 0 (unat len) v"

definition chunks_ceil :: "u64 \<Rightarrow> u64 \<Rightarrow> u64" where
  "chunks_ceil n chunksize = (n + chunksize - 1) div chunksize"

function is_full_loop :: "u8 list \<Rightarrow> nat \<Rightarrow> nat \<Rightarrow> bool run" where
  "is_full_loop bv sz i =
     (if i < sz then
        bitvec_bit bv i \<bind> (\<lambda>b. if b \<noteq> 1 then Some False else is_full_loop bv sz (i + 1))
      else Some True)"
  by pat_completeness auto
termination
  by (relation "measure (\<lambda>(bv, sz, i). sz - i)") auto

declare is_full_loop.simps [simp del]

definition extalloc_is_full :: "extalloc \<Rightarrow> bool run" where
  "extalloc_is_full a = is_full_loop (ea_bitvec a) (unat (ea_size a)) 0"

definition extalloc_alloc :: "extalloc \<Rightarrow> u64 \<Rightarrow> (u64 \<times> extalloc) run" where
  "extalloc_alloc a n = do {
     check (n mod ea_chunksize a = 0);
     let n = chunks_ceil n (ea_chunksize a);
     r \<leftarrow> bitvec_find_zeroes (ea_bitvec a) (unat (ea_size a)) (unat n);
     case r of
       Inl _ \<Rightarrow> Some (0, a)
     | Inr idx \<Rightarrow> do {
         bv \<leftarrow> bitvec_set (ea_bitvec a) (of_nat idx) n True;
         Some ((ea_base a + of_nat idx) * ea_chunksize a, a\<lparr>ea_bitvec := bv\<rparr>)
       }
   }"

definition extalloc_allocat :: "extalloc \<Rightarrow> u64 \<Rightarrow> u64 \<Rightarrow> extalloc run" where
  "extalloc_allocat a at n = do {
     check (at mod ea_chunksize a = 0);
     check (n mod ea_chunksize a = 0);
     let at = at div ea_chunksize a;
     let n = chunks_ceil n (ea_chunksize a);
     bv \<leftarrow> bitvec_set (ea_bitvec a) (at - ea_base a) n True;
     Some (a\<lparr>ea_bitvec := bv\<rparr>)
   }"

definition extalloc_free :: "extalloc \<Rightarrow> u64 \<Rightarrow> u64 \<Rightarrow> extalloc run" where
  "extalloc_free a at n = do {
     check (at mod ea_chunksize a = 0);
     check (n mod ea_chunksize a = 0);
     let at = at div ea_chunksize a;
     let n = chunks_ceil n (ea_chunksize a);
     bv \<leftarrow> bitvec_set (ea_bitvec a) (at - ea_base a) n False;
     Some (a\<lparr>ea_bitvec := bv\<rparr>)
   }"

subsection \<open>The bit vector as a set of indices\<close>

text \<open>
  \<open>bv_bit bv i\<close> is the mathematical bit: bit \<open>7 - i mod 8\<close> of byte \<open>i div 8\<close>. Reading
  and writing agree with it.
\<close>

definition bv_bit :: "u8 list \<Rightarrow> nat \<Rightarrow> bool" where
  "bv_bit bv i \<longleftrightarrow> i div 8 < length bv \<and> bit (bv ! (i div 8)) (7 - i mod 8)"

lemma bitvec_bit_eq:
  "i div 8 < length bv \<Longrightarrow> bitvec_bit bv i = Some (if bv_bit bv i then 1 else 0)"
proof -
  assume i: "i div 8 < length bv"
  have "(drop_bit k w AND 1) = (if bit w k then 1 else 0)" for k and w :: u8
    by (simp add: and_one_eq mod2_eq_if bit_iff_odd_drop_bit)
  with i show ?thesis by (simp add: bitvec_bit_def bv_bit_def)
qed

lemma byte_off_eq_iff:
  "i div 8 = j div 8 \<Longrightarrow> (7 - i mod 8 = 7 - j mod 8) \<longleftrightarrow> i = (j :: nat)"
proof
  assume d: "i div 8 = j div 8" and o: "7 - i mod 8 = 7 - j mod 8"
  have "i mod 8 < 8" and "j mod 8 < 8" by simp_all
  with o have "i mod 8 = j mod 8" by linarith
  with d show "i = j" by (metis div_mult_mod_eq)
qed auto

lemma bit_set_clear8:
  fixes w :: u8
  assumes "k < 8"
  shows "bit (w OR 2 ^ k) j \<longleftrightarrow> bit w j \<or> j = k"
    and "bit (w AND NOT (2 ^ k)) j \<longleftrightarrow> bit w j \<and> j \<noteq> k"
  using assms by (auto simp: bit_simps dest: bit_imp_le_length)

lemma bitvec_set1_eq:
  assumes "i div 8 < length bv"
  obtains bv' where "bitvec_set1 bv i v = Some bv'" "length bv' = length bv"
    "\<And>j. bv_bit bv' j = (if j = i then v else bv_bit bv j)"
proof
  let ?byte = "i div 8" and ?off = "7 - i mod 8"
  let ?w = "if v then bv ! ?byte OR push_bit ?off 1 else bv ! ?byte AND NOT (push_bit ?off 1)"
  show "bitvec_set1 bv i v = Some (bv[?byte := ?w])"
    using assms by (simp add: bitvec_set1_def Let_def)
  show "length (bv[?byte := ?w]) = length bv" by simp
  fix j
  show "bv_bit (bv[?byte := ?w]) j = (if j = i then v else bv_bit bv j)"
  proof (cases "j div 8 = ?byte")
    case True
    then show ?thesis
      using assms byte_off_eq_iff [OF True] by (auto simp: bv_bit_def bit_set_clear8)
  next
    case False
    then show ?thesis by (auto simp: bv_bit_def)
  qed
qed

text \<open>The write loop sets exactly the indices of its range.\<close>

lemma bitvec_set_loop_eq:
  assumes "unat start + i + m \<le> 8 * length bv" and "unat start + i + m < 2 ^ 64"
  shows "\<exists>bv'. bitvec_set_loop bv start i m v = Some bv' \<and> length bv' = length bv \<and>
    (\<forall>j. bv_bit bv' j =
      (if unat start + i \<le> j \<and> j < unat start + i + m then v else bv_bit bv j))"
  using assms
proof (induction m arbitrary: bv i)
  case 0
  then show ?case by auto
next
  case (Suc m)
  have n: "unat (start + of_nat i) = unat start + i"
    using Suc.prems by (simp add: unat_nowrap)
  have "(unat start + i) div 8 < length bv" using Suc.prems by linarith
  then obtain bv1 where 1: "bitvec_set1 bv (unat start + i) v = Some bv1"
      "length bv1 = length bv"
      "\<And>j. bv_bit bv1 j = (if j = unat start + i then v else bv_bit bv j)"
    by (rule bitvec_set1_eq [where v = v]) blast
  from Suc.IH [of "Suc i" bv1] Suc.prems 1(2) obtain bv2 where
    2: "bitvec_set_loop bv1 start (Suc i) m v = Some bv2" "length bv2 = length bv1"
      "\<forall>j. bv_bit bv2 j = (if unat start + Suc i \<le> j \<and> j < unat start + Suc i + m
         then v else bv_bit bv1 j)"
    by auto
  from 1 2 n show ?case by auto
qed

lemma bitvec_set_eq:
  assumes "unat start + unat len \<le> 8 * length bv" and "unat start + unat len < 2 ^ 64"
  obtains bv' where "bitvec_set bv start len v = Some bv'" "length bv' = length bv"
    "\<And>j. bv_bit bv' j =
      (if unat start \<le> j \<and> j < unat start + unat len then v else bv_bit bv j)"
  using bitvec_set_loop_eq [of start 0 "unat len" bv v] assms
  by (auto simp: bitvec_set_def)

text \<open>
  The search: \<open>zero_run bv i n\<close> is a run of \<open>n\<close> zero bits from \<open>i\<close> on. The loop returns
  the first run that fits, and \<open>-1\<close> only when there is none.
\<close>

definition zero_run :: "u8 list \<Rightarrow> nat \<Rightarrow> nat \<Rightarrow> bool" where
  "zero_run bv i n \<longleftrightarrow> (\<forall>j. i \<le> j \<and> j < i + n \<longrightarrow> \<not> bv_bit bv j)"

lemma find_zeroes_loop_eq:
  assumes "nbits \<le> 8 * length bv" "count < n" "count \<le> i" "i \<le> nbits"
    "zero_run bv (i - count) count"
    "\<forall>k. k + n \<le> nbits \<and> k < i - count \<longrightarrow> \<not> zero_run bv k n"
  shows "(\<exists>k. find_zeroes_loop bv nbits n i count = Some (Inr k) \<and> k + n \<le> nbits \<and>
            zero_run bv k n \<and> (\<forall>k' < k. \<not> zero_run bv k' n))
       \<or> (find_zeroes_loop bv nbits n i count = Some (Inl ()) \<and>
            (\<forall>k. k + n \<le> nbits \<longrightarrow> \<not> zero_run bv k n))"
  using assms
proof (induction bv nbits n i count rule: find_zeroes_loop.induct)
  case (1 bv nbits n i count)
  note prems = "1.prems"
  show ?case
  proof (cases "i < nbits")
    case False
    have "\<not> zero_run bv k n" if "k + n \<le> nbits" for k
    proof -
      have "k < i - count" using that False prems by linarith
      then show ?thesis using prems(6) that by blast
    qed
    then show ?thesis using False by (simp add: find_zeroes_loop.simps [of bv nbits])
  next
    case True
    then have len: "i div 8 < length bv" using prems(1) by linarith
    note rd = bitvec_bit_eq [OF len]
    show ?thesis
    proof (cases "bv_bit bv i")
      case set: True
      have none: "\<not> zero_run bv k n" if "k + n \<le> nbits" "k < i + 1" for k
      proof (cases "k < i - count")
        case True
        then show ?thesis using prems(6) that by blast
      next
        case False
        then have "k \<le> i" "i < k + n" using that prems(2) by linarith+
        then show ?thesis using set by (auto simp: zero_run_def)
      qed
      have "zero_run bv (i + 1 - 0) 0" unfolding zero_run_def by linarith
      then have "(\<exists>k. find_zeroes_loop bv nbits n (i + 1) 0 = Some (Inr k) \<and> k + n \<le> nbits \<and>
            zero_run bv k n \<and> (\<forall>k' < k. \<not> zero_run bv k' n))
         \<or> (find_zeroes_loop bv nbits n (i + 1) 0 = Some (Inl ()) \<and>
            (\<forall>k. k + n \<le> nbits \<longrightarrow> \<not> zero_run bv k n))"
        using prems True set none
        by (intro "1.IH"(2) [OF True, of 1]) (auto simp: rd)
      then show ?thesis using True set by (simp add: find_zeroes_loop.simps [of bv nbits n i] rd)
    next
      case clear: False
      have run: "zero_run bv (i - count) (count + 1)"
        using prems(3,5) clear by (auto simp: zero_run_def less_Suc_eq)
      show ?thesis
      proof (cases "count + 1 = n")
        case full: True
        have "\<not> zero_run bv k' n" if "k' < i + 1 - n" for k'
        proof -
          have "k' + n \<le> nbits" "k' < i - count" using that full True prems(3) by linarith+
          then show ?thesis using prems(6) by blast
        qed
        then have "find_zeroes_loop bv nbits n i count = Some (Inr (i + 1 - n)) \<and>
            i + 1 - n + n \<le> nbits \<and> zero_run bv (i + 1 - n) n \<and>
            (\<forall>k' < i + 1 - n. \<not> zero_run bv k' n)"
          using True clear full run prems(3)
          by (auto simp: find_zeroes_loop.simps [of bv nbits n i] rd)
        then show ?thesis by blast
      next
        case more: False
        have "(\<exists>k. find_zeroes_loop bv nbits n (i + 1) (count + 1) = Some (Inr k) \<and>
              k + n \<le> nbits \<and> zero_run bv k n \<and> (\<forall>k' < k. \<not> zero_run bv k' n))
           \<or> (find_zeroes_loop bv nbits n (i + 1) (count + 1) = Some (Inl ()) \<and>
              (\<forall>k. k + n \<le> nbits \<longrightarrow> \<not> zero_run bv k n))"
          using prems True clear more run
          by (intro "1.IH"(1) [OF True, of 0]) (auto simp: rd)
        then show ?thesis
          using True clear more by (simp add: find_zeroes_loop.simps [of bv nbits n i] rd)
      qed
    qed
  qed
qed

lemma bitvec_find_zeroes_cases:
  assumes "nbits \<le> 8 * length bv" "0 < n"
  obtains
    (found) k where "bitvec_find_zeroes bv nbits n = Some (Inr k)" "k + n \<le> nbits"
      "zero_run bv k n" "\<And>k'. k' < k \<Longrightarrow> \<not> zero_run bv k' n"
  | (none) "bitvec_find_zeroes bv nbits n = Some (Inl ())"
      "\<And>k. k + n \<le> nbits \<Longrightarrow> \<not> zero_run bv k n"
proof (cases "nbits = 0")
  case True
  then show ?thesis using none assms by (simp add: bitvec_find_zeroes_def)
next
  case False
  have "zero_run bv (0 - 0) 0" by (simp add: zero_run_def)
  with find_zeroes_loop_eq [of nbits bv 0 n 0] assms False show ?thesis
    using found none by (auto simp: bitvec_find_zeroes_def)
qed

subsection \<open>The allocator as a set of used addresses\<close>

definition ea_inv :: "extalloc \<Rightarrow> bool" where
  "ea_inv a \<longleftrightarrow> 0 < unat (ea_chunksize a) \<and> 0 < unat (ea_base a) \<and>
     (unat (ea_base a) + unat (ea_size a)) * unat (ea_chunksize a) < 2 ^ 64 \<and>
     length (ea_bitvec a) = unat (ea_size a) div 8 + 1"

definition ea_used :: "extalloc \<Rightarrow> nat set" where
  "ea_used a = {x. unat (ea_base a) \<le> x div unat (ea_chunksize a) \<and>
     x div unat (ea_chunksize a) < unat (ea_base a) + unat (ea_size a) \<and>
     bv_bit (ea_bitvec a) (x div unat (ea_chunksize a) - unat (ea_base a))}"

text \<open>The sizes that may be asked for: whole chunks, rounding up without wrap-around.\<close>

definition ea_fits :: "extalloc \<Rightarrow> u64 \<Rightarrow> bool" where
  "ea_fits a n \<longleftrightarrow> unat (ea_chunksize a) dvd unat n \<and> unat n + unat (ea_chunksize a) \<le> 2 ^ 64"

text \<open>The spans of whole chunks inside the region.\<close>

definition ea_slot :: "extalloc \<Rightarrow> u64 \<Rightarrow> u64 \<Rightarrow> bool" where
  "ea_slot a p n \<longleftrightarrow>
     unat (ea_chunksize a) dvd unat p \<and> unat (ea_chunksize a) dvd unat n \<and>
     unat (ea_base a) * unat (ea_chunksize a) \<le> unat p \<and>
     unat p + unat n \<le> (unat (ea_base a) + unat (ea_size a)) * unat (ea_chunksize a)"

lemma ea_inv_size: "ea_inv a \<Longrightarrow> unat (ea_base a) + unat (ea_size a) < 2 ^ 64"
  unfolding ea_inv_def
  by (metis One_nat_def Suc_leI le_less_trans mult.right_neutral mult_le_mono2)

lemma unat_chunks_ceil:
  assumes "0 < unat c" "unat c dvd unat n" "unat n + unat c \<le> 2 ^ 64"
  shows "unat (chunks_ceil n c) = unat n div unat c"
proof -
  have c1: "unat (c - 1) = unat c - 1" using assms(1) by (simp add: unat_nowrap)
  have "unat (n + c - 1) = unat (n + (c - 1))" by (simp add: algebra_simps)
  also have "\<dots> = unat n + (unat c - 1)" using assms c1 by (subst unat_add64) auto
  finally have "unat (n + c - 1) = unat n + (unat c - 1)" .
  moreover from assms(2) obtain k where "unat n = unat c * k" by (auto elim: dvdE)
  moreover note assms(1)
  ultimately have "unat (n + c - 1) = (unat c - 1) + unat c * k" by simp
  moreover have "((unat c - 1) + unat c * k) div unat c = k"
    using assms(1) by (subst div_mult_self2) auto
  ultimately show ?thesis
    using \<open>unat n = unat c * k\<close> assms(1) by (simp add: chunks_ceil_def unat_div64)
qed

lemma span_div:
  assumes "0 < (c :: nat)" "c dvd unat p" "c dvd unat n"
  shows "x \<in> span p n \<longleftrightarrow> unat p div c \<le> x div c \<and> x div c < unat p div c + unat n div c"
proof -
  from assms obtain k m where "unat p = c * k" "unat n = c * m" by (auto elim!: dvdE)
  moreover have "c * k \<le> x \<longleftrightarrow> k \<le> x div c"
    using assms(1) by (simp add: less_eq_div_iff_mult_less_eq mult.commute)
  moreover have "x < c * k + c * m \<longleftrightarrow> x div c < k + m"
    using assms(1) by (simp add: div_less_iff_less_mult mult.commute distrib_left)
  ultimately show ?thesis using assms(1) by (simp add: in_span)
qed

text \<open>Setting the bits of a slot to \<open>v\<close>.\<close>

lemma bitvec_set_slot:
  assumes inv: "ea_inv a" and slot: "ea_slot a p n"
  obtains bv where
    "bitvec_set (ea_bitvec a) (p div ea_chunksize a - ea_base a)
       (chunks_ceil n (ea_chunksize a)) v = Some bv"
    "ea_inv (a\<lparr>ea_bitvec := bv\<rparr>)"
    "ea_used (a\<lparr>ea_bitvec := bv\<rparr>) =
       (if v then ea_used a \<union> span p n else ea_used a - span p n)"
proof -
  let ?C = "unat (ea_chunksize a)" and ?B = "unat (ea_base a)" and ?S = "unat (ea_size a)"
  have C: "0 < ?C" and B: "0 < ?B" and len: "length (ea_bitvec a) = ?S div 8 + 1"
    and top: "(?B + ?S) * ?C < 2 ^ 64"
    using inv by (auto simp: ea_inv_def)
  have d: "?C dvd unat p" "?C dvd unat n" "?B * ?C \<le> unat p" "unat p + unat n \<le> (?B + ?S) * ?C"
    using slot by (auto simp: ea_slot_def)
  then obtain k m where km: "unat p = ?C * k" "unat n = ?C * m" by (auto elim!: dvdE)
  have "?C * ?B \<le> ?C * k" using d(3) km by (simp add: mult.commute)
  moreover have "?C * (k + m) \<le> ?C * (?B + ?S)"
    using d(4) km by (metis distrib_left mult.commute)
  ultimately have k: "?B \<le> k" "k + m \<le> ?B + ?S" using C by simp_all
  have "?C \<le> unat p" using d(3) B by (metis One_nat_def Suc_leI le_trans mult_1 mult_le_mono1)
  then have "unat n + ?C \<le> 2 ^ 64" using d(4) top by linarith
  then have m: "unat (chunks_ceil n (ea_chunksize a)) = m"
    using unat_chunks_ceil [OF C d(2)] km C by simp
  have pk: "unat (p div ea_chunksize a) = k" using km C by (simp add: unat_div64)
  then have st: "unat (p div ea_chunksize a - ea_base a) = k - ?B"
    using k(1) by (simp add: unat_sub64')
  have "k - ?B + m \<le> 8 * length (ea_bitvec a)" "k - ?B + m < 2 ^ 64"
    using k len ea_inv_size [OF inv] by linarith+
  then obtain bv where bv: "bitvec_set (ea_bitvec a) (p div ea_chunksize a - ea_base a)
       (chunks_ceil n (ea_chunksize a)) v = Some bv" "length bv = length (ea_bitvec a)"
     "\<And>j. bv_bit bv j = (if k - ?B \<le> j \<and> j < k - ?B + m then v else bv_bit (ea_bitvec a) j)"
    using bitvec_set_eq [of "p div ea_chunksize a - ea_base a" "chunks_ceil n (ea_chunksize a)"
      "ea_bitvec a" v] m st by metis
  have "x \<in> ea_used (a\<lparr>ea_bitvec := bv\<rparr>) \<longleftrightarrow>
      x \<in> (if v then ea_used a \<union> span p n else ea_used a - span p n)" for x
  proof -
    let ?y = "x div ?C"
    have sp: "x \<in> span p n \<longleftrightarrow> k \<le> ?y \<and> ?y < k + m"
      using span_div [OF C d(1,2), of x] km C by simp
    have "bv_bit bv (?y - ?B) =
        (if k \<le> ?y \<and> ?y < k + m then v else bv_bit (ea_bitvec a) (?y - ?B))" if "?B \<le> ?y"
      using bv(3) [of "?y - ?B"] shift_interval [OF k(1) that] by presburger
    then have "x \<in> ea_used (a\<lparr>ea_bitvec := bv\<rparr>) \<longleftrightarrow> ?B \<le> ?y \<and> ?y < ?B + ?S \<and>
        (if k \<le> ?y \<and> ?y < k + m then v else bv_bit (ea_bitvec a) (?y - ?B))"
      by (auto simp: ea_used_def)
    moreover have "k \<le> ?y \<and> ?y < k + m \<Longrightarrow> ?B \<le> ?y \<and> ?y < ?B + ?S" using k by linarith
    ultimately show ?thesis unfolding sp Un_iff Diff_iff if_split_mem2
      by (auto simp: ea_used_def sp)
  qed
  then have "ea_used (a\<lparr>ea_bitvec := bv\<rparr>) =
       (if v then ea_used a \<union> span p n else ea_used a - span p n)" by blast
  moreover have "ea_inv (a\<lparr>ea_bitvec := bv\<rparr>)" using inv bv(2) by (simp add: ea_inv_def)
  ultimately show thesis using that bv(1) by blast
qed

subsection \<open>What the operations do\<close>

text \<open>A run of zero bits is a free slot.\<close>

lemma zero_run_iff_free:
  assumes "ea_inv a" "unat (ea_base a) * unat (ea_chunksize a) + k * unat (ea_chunksize a) = unat p"
    "unat n = m * unat (ea_chunksize a)" "k + m \<le> unat (ea_size a)"
  shows "zero_run (ea_bitvec a) k m \<longleftrightarrow> span p n \<inter> ea_used a = {}"
proof -
  let ?C = "unat (ea_chunksize a)" and ?B = "unat (ea_base a)" and ?S = "unat (ea_size a)"
  have C: "0 < ?C" using assms(1) by (simp add: ea_inv_def)
  have p: "unat p = ?C * (?B + k)" using assms(2) by (simp add: algebra_simps)
  have sp: "x \<in> span p n \<longleftrightarrow> ?B + k \<le> x div ?C \<and> x div ?C < ?B + k + m" for x
    using span_div [of ?C p n x] C p assms(3) by simp
  show ?thesis
  proof
    assume z: "zero_run (ea_bitvec a) k m"
    have "x \<notin> ea_used a" if "x \<in> span p n" for x
    proof -
      from that have "?B + k \<le> x div ?C \<and> x div ?C < ?B + k + m" by (simp add: sp)
      then have "k \<le> x div ?C - ?B" "x div ?C - ?B < k + m" by linarith+
      then show ?thesis using z by (auto simp: zero_run_def ea_used_def)
    qed
    then show "span p n \<inter> ea_used a = {}" by blast
  next
    assume free: "span p n \<inter> ea_used a = {}"
    show "zero_run (ea_bitvec a) k m"
      unfolding zero_run_def
    proof (intro allI impI notI)
      fix j
      assume j: "k \<le> j \<and> j < k + m" and b: "bv_bit (ea_bitvec a) j"
      have q: "(?C * (?B + j)) div ?C = ?B + j" using C by simp
      have "?C * (?B + j) \<in> span p n" using j by (simp add: sp q)
      moreover have "?C * (?B + j) \<in> ea_used a" using j b assms(4) by (simp add: ea_used_def q)
      ultimately show False using free by blast
    qed
  qed
qed

lemma extalloc_alloc_cases:
  assumes inv: "ea_inv a" and fits: "ea_fits a n" and n0: "n \<noteq> 0"
  obtains
    (fresh) p a' where "extalloc_alloc a n = Some (p, a')" "p \<noteq> 0" "ea_inv a'"
      "ea_slot a p n" "a'\<lparr>ea_bitvec := ea_bitvec a\<rparr> = a" "span p n \<inter> ea_used a = {}"
      "ea_used a' = ea_used a \<union> span p n"
      "\<And>q. ea_slot a q n \<Longrightarrow> q < p \<Longrightarrow> span q n \<inter> ea_used a \<noteq> {}"
  | (full) "extalloc_alloc a n = Some (0, a)"
      "\<And>q. ea_slot a q n \<Longrightarrow> span q n \<inter> ea_used a \<noteq> {}"
proof -
  let ?C = "unat (ea_chunksize a)" and ?B = "unat (ea_base a)" and ?S = "unat (ea_size a)"
  have C: "0 < ?C" and B: "0 < ?B" and top: "(?B + ?S) * ?C < 2 ^ 64"
    and len: "?S \<le> 8 * length (ea_bitvec a)"
    using inv by (auto simp: ea_inv_def)
  have dvd: "?C dvd unat n" and nC: "unat n + ?C \<le> 2 ^ 64" using fits by (auto simp: ea_fits_def)
  from dvd obtain m where m: "unat n = m * ?C" by (metis dvdE mult.commute)
  have m0: "0 < m" using m n0 by (cases m) (auto simp: unat_0_iff)
  have m_eq: "unat (chunks_ceil n (ea_chunksize a)) = m"
    using unat_chunks_ceil [OF C dvd nC] m C by simp
  have chk: "n mod ea_chunksize a = 0" using dvd by (simp add: mod_eq_0_nat_iff)
  have slot_k: "\<exists>k. unat q = (?B + k) * ?C \<and> k + m \<le> ?S" if "ea_slot a q n" for q
  proof -
    from that have "?C dvd unat q" by (simp add: ea_slot_def)
    then obtain j where j: "unat q = j * ?C" by (metis dvdE mult.commute)
    with that have "?B * ?C \<le> j * ?C" "(j + m) * ?C \<le> (?B + ?S) * ?C"
      using m by (auto simp: ea_slot_def distrib_right)
    then have "?B \<le> j" "j + m \<le> ?B + ?S" using C by simp_all
    with j show ?thesis by (intro exI [of _ "j - ?B"]) simp
  qed
  have run_k: "zero_run (ea_bitvec a) k m \<longleftrightarrow> span q n \<inter> ea_used a = {}"
    if "unat q = (?B + k) * ?C" "k + m \<le> ?S" for q k
    using zero_run_iff_free [OF inv _ m that(2), of q] that(1) by (simp add: distrib_right)
  from len m0 show thesis
  proof (cases rule: bitvec_find_zeroes_cases)
    case (found k)
    let ?p = "(ea_base a + of_nat k) * ea_chunksize a"
    have "(?B + k) * ?C \<le> (?B + ?S) * ?C" using found(2) by (intro mult_le_mono1) simp
    then have pk: "(?B + k) * ?C < 2 ^ 64" using top by linarith
    have "k < 2 ^ 64" "?B + k < 2 ^ 64" using found(2) ea_inv_size [OF inv] by linarith+
    then have p: "unat ?p = (?B + k) * ?C" using pk by (simp add: unat_nowrap)
    have "(?B + k + m) * ?C \<le> (?B + ?S) * ?C" using found(2) by (intro mult_le_mono1) simp
    then have slot: "ea_slot a ?p n" using p m by (auto simp: ea_slot_def distrib_right)
    have "?p div ea_chunksize a = ea_base a + of_nat k"
      using p C \<open>k < 2 ^ 64\<close> \<open>?B + k < 2 ^ 64\<close> by (simp add: word_eq_nat_iff unat_div64 unat_nowrap)
    then have st: "?p div ea_chunksize a - ea_base a = of_nat k" by simp
    obtain bv where bv: "bitvec_set (ea_bitvec a) (of_nat k)
         (chunks_ceil n (ea_chunksize a)) True = Some bv"
       "ea_inv (a\<lparr>ea_bitvec := bv\<rparr>)" "ea_used (a\<lparr>ea_bitvec := bv\<rparr>) = ea_used a \<union> span ?p n"
      using bitvec_set_slot [OF inv slot, of True] st by auto
    show thesis
    proof (rule fresh)
      show "extalloc_alloc a n = Some (?p, a\<lparr>ea_bitvec := bv\<rparr>)"
        using chk found(1) bv(1) by (simp add: extalloc_alloc_def m_eq Let_def)
      have "0 < (?B + k) * ?C" using B C by simp
      with p show "?p \<noteq> 0" by (metis unat_0 less_numeral_extra(3))
      show "span ?p n \<inter> ea_used a = {}" using run_k [OF p found(2)] found(3) by simp
      fix q
      assume q: "ea_slot a q n" "q < ?p"
      then obtain j where j: "unat q = (?B + j) * ?C" "j + m \<le> ?S" using slot_k by blast
      with q(2) p have "j < k" by (simp add: word_less_nat_alt)
      with found(4) run_k [OF j] show "span q n \<inter> ea_used a \<noteq> {}" by blast
    qed (use bv slot in simp_all)
  next
    case none
    show thesis
    proof (rule full)
      show "extalloc_alloc a n = Some (0, a)"
        using chk none(1) by (simp add: extalloc_alloc_def m_eq Let_def)
      show "span q n \<inter> ea_used a \<noteq> {}" if "ea_slot a q n" for q
        using slot_k [OF that] run_k none(2) by blast
    qed
  qed
qed

lemma extalloc_alloc_0: "extalloc_alloc a 0 = Some (0, a)" if "0 < unat (ea_chunksize a)"
proof -
  have "unat (chunks_ceil 0 (ea_chunksize a)) = 0"
    using unat_chunks_ceil [of "ea_chunksize a" 0] that unat_lt64 [of "ea_chunksize a"]
    by (simp del: unat_lt64)
  then show ?thesis by (simp add: extalloc_alloc_def bitvec_find_zeroes_def Let_def)
qed

lemma extalloc_free_eq:
  assumes inv: "ea_inv a" and slot: "ea_slot a p n"
  obtains bv where "extalloc_free a p n = Some (a\<lparr>ea_bitvec := bv\<rparr>)" "ea_inv (a\<lparr>ea_bitvec := bv\<rparr>)"
    "ea_used (a\<lparr>ea_bitvec := bv\<rparr>) = ea_used a - span p n"
proof -
  from bitvec_set_slot [OF inv slot, of False] obtain bv where
    "bitvec_set (ea_bitvec a) (p div ea_chunksize a - ea_base a)
       (chunks_ceil n (ea_chunksize a)) False = Some bv"
    "ea_inv (a\<lparr>ea_bitvec := bv\<rparr>)" "ea_used (a\<lparr>ea_bitvec := bv\<rparr>) = ea_used a - span p n"
    by auto
  moreover have "p mod ea_chunksize a = 0" "n mod ea_chunksize a = 0"
    using slot by (auto simp: mod_eq_0_nat_iff ea_slot_def)
  ultimately show thesis by (intro that) (simp_all add: extalloc_free_def Let_def)
qed

lemma extalloc_allocat_eq:
  assumes inv: "ea_inv a" and slot: "ea_slot a p n"
  obtains bv where "extalloc_allocat a p n = Some (a\<lparr>ea_bitvec := bv\<rparr>)"
    "ea_inv (a\<lparr>ea_bitvec := bv\<rparr>)" "ea_used (a\<lparr>ea_bitvec := bv\<rparr>) = ea_used a \<union> span p n"
proof -
  from bitvec_set_slot [OF inv slot, of True] obtain bv where
    "bitvec_set (ea_bitvec a) (p div ea_chunksize a - ea_base a)
       (chunks_ceil n (ea_chunksize a)) True = Some bv"
    "ea_inv (a\<lparr>ea_bitvec := bv\<rparr>)" "ea_used (a\<lparr>ea_bitvec := bv\<rparr>) = ea_used a \<union> span p n"
    by auto
  moreover have "p mod ea_chunksize a = 0" "n mod ea_chunksize a = 0"
    using slot by (auto simp: mod_eq_0_nat_iff ea_slot_def)
  ultimately show thesis by (intro that) (simp_all add: extalloc_allocat_def Let_def)
qed

lemma ea_slot_update [simp]: "ea_slot (a\<lparr>ea_bitvec := bv\<rparr>) = ea_slot a"
  by (simp add: fun_eq_iff ea_slot_def)

lemma ea_fits_update [simp]: "ea_fits (a\<lparr>ea_bitvec := bv\<rparr>) = ea_fits a"
  by (simp add: fun_eq_iff ea_fits_def)

interpretation ea: space_alloc extalloc_alloc extalloc_free ea_used ea_inv ea_fits ea_slot
proof
  fix a n
  assume inv: "ea_inv a" and fits: "ea_fits a n"
  show "\<exists>p a'. extalloc_alloc a n = Some (p, a') \<and> ea_inv a' \<and> ea_fits a' = ea_fits a \<and>
      ea_slot a' = ea_slot a \<and>
      (if p = 0 then ea_used a' = ea_used a
       else ea_slot a p n \<and> span p n \<inter> ea_used a = {} \<and> ea_used a' = ea_used a \<union> span p n)"
  proof (cases "n = 0")
    case True
    then show ?thesis using inv extalloc_alloc_0 [of a] by (simp add: ea_inv_def)
  next
    case False
    with inv fits show ?thesis
    proof (cases rule: extalloc_alloc_cases)
      case (fresh p a')
      then have "ea_slot a' = ea_slot a" "ea_fits a' = ea_fits a"
        by (metis ea_slot_update) (metis fresh(5) ea_fits_update)
      with fresh show ?thesis by auto
    next
      case full
      with inv show ?thesis by auto
    qed
  qed
next
  fix a p n
  assume "ea_inv a" "ea_slot a p n"
  then obtain bv where "extalloc_free a p n = Some (a\<lparr>ea_bitvec := bv\<rparr>)"
    "ea_inv (a\<lparr>ea_bitvec := bv\<rparr>)" "ea_used (a\<lparr>ea_bitvec := bv\<rparr>) = ea_used a - span p n"
    by (rule extalloc_free_eq)
  then show "\<exists>a'. extalloc_free a p n = Some a' \<and> ea_inv a' \<and> ea_fits a' = ea_fits a \<and>
      ea_slot a' = ea_slot a \<and> ea_used a' = ea_used a - span p n" by simp
qed


subsection \<open>Fullness\<close>

lemma is_full_loop_eq:
  assumes "sz \<le> 8 * length bv"
  shows "is_full_loop bv sz i = Some (\<forall>j. i \<le> j \<and> j < sz \<longrightarrow> bv_bit bv j)"
  using assms
proof (induction bv sz i rule: is_full_loop.induct)
  case (1 bv sz i)
  show ?case
  proof (cases "i < sz")
    case False
    then show ?thesis by (auto simp: is_full_loop.simps [of bv sz i])
  next
    case True
    then have "i div 8 < length bv" using "1.prems" by linarith
    note rd = bitvec_bit_eq [OF this]
    show ?thesis
    proof (cases "bv_bit bv i")
      case False
      then show ?thesis using True by (auto simp: is_full_loop.simps [of bv sz i] rd)
    next
      case set: True
      have "is_full_loop bv sz (i + 1) = Some (\<forall>j. i + 1 \<le> j \<and> j < sz \<longrightarrow> bv_bit bv j)"
        using "1.prems" by (intro "1.IH" [OF True, of 1]) (simp_all add: rd set)
      moreover have "(\<forall>j. i + 1 \<le> j \<and> j < sz \<longrightarrow> bv_bit bv j) \<longleftrightarrow>
          (\<forall>j. i \<le> j \<and> j < sz \<longrightarrow> bv_bit bv j)"
        using set by (metis Suc_eq_plus1 Suc_leI Suc_le_lessD le_eq_less_or_eq)
      ultimately show ?thesis
        using True set by (simp add: is_full_loop.simps [of bv sz i] rd)
    qed
  qed
qed

subsection \<open>The allocator's contract\<close>

text \<open>C30: the address-space allocator is a complete first fit. Asked for a positive whole
  number of chunks, it never reads or writes outside its bit vector; it returns the lowest
  chunk-aligned span of that size in its region that is entirely free and marks exactly that
  span used, or it returns 0, leaves its state alone, and then no free span of that size
  exists in the region.\<close>

theorem extalloc_first_fit:
  assumes "ea_inv a" "ea_fits a n" "n \<noteq> 0"
  shows "\<exists>p a'. extalloc_alloc a n = Some (p, a') \<and>
    (if p = 0 then a' = a \<and> (\<forall>q. ea_slot a q n \<longrightarrow> span q n \<inter> ea_used a \<noteq> {})
     else ea_slot a p n \<and> span p n \<inter> ea_used a = {} \<and> ea_used a' = ea_used a \<union> span p n \<and>
       ea_inv a' \<and> (\<forall>q. ea_slot a q n \<and> q < p \<longrightarrow> span q n \<inter> ea_used a \<noteq> {}))"
  using assms
proof (cases rule: extalloc_alloc_cases)
  case (fresh p a')
  then show ?thesis by (intro exI [of _ p] exI [of _ a']) simp
next
  case full
  then show ?thesis by simp
qed

theorem extalloc_first_fit_witness:
  "\<exists>p a'. extalloc_alloc \<lparr>ea_base = 1, ea_size = 4, ea_chunksize = 4096, ea_bitvec = [0x40]\<rparr> 8192
     = Some (p, a') \<and> (p \<noteq> 0 \<longrightarrow> span p 8192 \<inter>
       ea_used \<lparr>ea_base = 1, ea_size = 4, ea_chunksize = 4096, ea_bitvec = [0x40]\<rparr> = {})"
  using extalloc_first_fit [of "\<lparr>ea_base = 1, ea_size = 4, ea_chunksize = 4096, ea_bitvec = [0x40]\<rparr>" 8192]
  by (auto simp: ea_inv_def ea_fits_def split: if_splits)

text \<open>Along any sequence of allocations and releases on a new allocator (each of whole
  chunks), no assertion fails and no memory outside the bit vector is touched, the spans
  handed out and not yet released are pairwise disjoint, and the used addresses are exactly
  theirs.\<close>

theorem extalloc_new_isolates:
  assumes "extalloc_new True True base sz c = Some (Some a)"
    and "0 < base" "0 < c" "unat base + unat sz < 2 ^ 64"
    and "\<forall>n. Take n \<in> set rs \<longrightarrow> ea_fits a n"
  shows "\<exists>a' live. space_run extalloc_alloc extalloc_free rs (a, []) = Some (a', live) \<and>
    live_ok live (ea_used a')"
proof (rule ea.run_from_empty)
  have d: "unat c dvd unat base" "unat c dvd unat sz" and a: "a = \<lparr>ea_base = base div c,
      ea_size = sz div c, ea_chunksize = c, ea_bitvec = replicate (unat (sz div c div 8 + 1)) 0\<rparr>"
    using assms(1) by (auto simp: extalloc_new_def mod_eq_0_nat_iff Let_def split: if_splits)
  have c: "0 < unat c" "0 < unat base" using assms(2,3) by (simp_all add: unat_gt_0 word_gt_0)
  have "unat (sz div c div 8 + 1) = unat (sz div c) div 8 + 1"
    using unat_lt64 [of "sz div c"] by (subst unat_add64) (simp_all add: unat_div64)
  moreover have "unat (base div c) * unat c = unat base" "unat (sz div c) * unat c = unat sz"
    using d by (simp_all add: unat_div64)
  moreover have "0 < unat (base div c)" using d(1) c by (simp add: unat_div64 dvd_imp_le div_greater_zero_iff)
  ultimately show "ea_inv a" using c assms(4) by (simp add: a ea_inv_def distrib_right)
  show "ea_used a = {}" by (auto simp: a ea_used_def bv_bit_def)
qed (use assms(5) in simp)

theorem extalloc_new_isolates_witness:
  "\<exists>a' live. space_run extalloc_alloc extalloc_free [Take 8192, Take 4096, Give 1, Take 4096]
      (\<lparr>ea_base = 16, ea_size = 4, ea_chunksize = 4096, ea_bitvec = [0]\<rparr>, []) = Some (a', live) \<and>
    live_ok live (ea_used a')"
  by (rule extalloc_new_isolates [where base = 65536 and sz = 16384 and c = 4096])
    (auto simp: extalloc_new_def ea_fits_def)

text \<open>Asked whether it is full, \<^verbatim>\<open>extalloc_is_full\<close> answers true exactly when every address of the region is in
  use.\<close>

theorem extalloc_is_full_correct:
  assumes "ea_inv a"
  shows "extalloc_is_full a = Some (\<forall>x. unat (ea_base a) * unat (ea_chunksize a) \<le> x \<and>
    x < (unat (ea_base a) + unat (ea_size a)) * unat (ea_chunksize a) \<longrightarrow> x \<in> ea_used a)"
proof -
  let ?C = "unat (ea_chunksize a)" and ?B = "unat (ea_base a)" and ?S = "unat (ea_size a)"
  have C: "0 < ?C" and len: "?S \<le> 8 * length (ea_bitvec a)" using assms by (auto simp: ea_inv_def)
  have rng: "?B * ?C \<le> x \<and> x < (?B + ?S) * ?C \<longleftrightarrow> ?B \<le> x div ?C \<and> x div ?C < ?B + ?S" for x
    using C by (simp add: less_eq_div_iff_mult_less_eq div_less_iff_less_mult)
  have "(\<forall>j < ?S. bv_bit (ea_bitvec a) j) \<longleftrightarrow>
      (\<forall>x. ?B \<le> x div ?C \<and> x div ?C < ?B + ?S \<longrightarrow> x \<in> ea_used a)"
  proof (intro iffI allI impI)
    fix j
    assume full: "\<forall>x. ?B \<le> x div ?C \<and> x div ?C < ?B + ?S \<longrightarrow> x \<in> ea_used a" and j: "j < ?S"
    have "((?B + j) * ?C) div ?C = ?B + j" using C by simp
    then show "bv_bit (ea_bitvec a) j" using full [rule_format, of "(?B + j) * ?C"] j
      by (simp add: ea_used_def)
  next
    fix x
    assume "\<forall>j < ?S. bv_bit (ea_bitvec a) j" and x: "?B \<le> x div ?C \<and> x div ?C < ?B + ?S"
    moreover from x have "x div ?C - ?B < ?S" by linarith
    ultimately show "x \<in> ea_used a" by (simp add: ea_used_def)
  qed
  then show ?thesis by (simp add: extalloc_is_full_def is_full_loop_eq [OF len] rng)
qed

theorem extalloc_is_full_correct_witness:
  "extalloc_is_full \<lparr>ea_base = 1, ea_size = 2, ea_chunksize = 4096, ea_bitvec = [0xC0]\<rparr> = Some
     (\<forall>x. 4096 \<le> x \<and> x < 12288 \<longrightarrow>
        x \<in> ea_used \<lparr>ea_base = 1, ea_size = 2, ea_chunksize = 4096, ea_bitvec = [0xC0]\<rparr>)"
  using extalloc_is_full_correct [of "\<lparr>ea_base = 1, ea_size = 2, ea_chunksize = 4096, ea_bitvec = [0xC0]\<rparr>"]
  by (simp add: ea_inv_def)

end
