(* ===== verification/Align.thy ===== *)
theory Align
  imports Prelude
begin

text \<open>
  Rounding addresses to an alignment. \<^verbatim>\<open>linux/align.h\<close> masks bits (right for powers of
  two only), \<^verbatim>\<open>core/boxmap.c\<close> uses the remainder (right for any alignment); on powers
  of two they agree.
\<close>

unbundle bit_operations_syntax

text \<open>\<^verbatim>\<open>linux/align.h\<close>\<close>

definition truncp :: "u64 \<Rightarrow> u64 \<Rightarrow> u64" where
  "truncp addr align = (let align_mask = align - 1 in addr AND NOT align_mask)"

definition ceilp :: "u64 \<Rightarrow> u64 \<Rightarrow> u64" where
  "ceilp addr align = (let align_mask = align - 1 in (addr + align_mask) AND NOT align_mask)"

text \<open>\<^verbatim>\<open>core/boxmap.c\<close>\<close>

definition bm_truncp :: "u64 \<Rightarrow> u64 \<Rightarrow> u64" where
  "bm_truncp addr align = addr - addr mod align"

definition bm_ceilp :: "u64 \<Rightarrow> u64 \<Rightarrow> u64" where
  "bm_ceilp addr align =
     (let rem = addr mod align in if rem = 0 then addr else addr + (align - rem))"

subsection \<open>The remainder versions on natural numbers\<close>

lemma unat_bm_truncp: "unat (bm_truncp x c) = unat x - unat x mod unat c"
  by (simp add: bm_truncp_def unat_sub64' unat_mod64)

lemma unat_bm_ceilp:
  assumes "0 < unat c" "unat x + unat c \<le> 2 ^ 64"
  shows "unat (bm_ceilp x c) =
    (if unat x mod unat c = 0 then unat x else unat x + (unat c - unat x mod unat c))"
proof (cases "unat x mod unat c = 0")
  case True
  then show ?thesis by (simp add: bm_ceilp_def Let_def word_eq_nat_iff unat_mod64)
next
  case False
  have m: "unat x mod unat c < unat c" using assms(1) by simp
  then have "unat (c - x mod c) = unat c - unat x mod unat c"
    by (subst unat_sub64') (auto simp: unat_mod64)
  moreover have "unat x + (unat c - unat x mod unat c) < 2 ^ 64" using False assms(2) m by linarith
  ultimately have "unat (x + (c - x mod c)) = unat x + (unat c - unat x mod unat c)"
    by (simp add: unat_nowrap)
  then show ?thesis using False by (simp add: bm_ceilp_def Let_def word_eq_nat_iff unat_mod64)
qed

lemma bm_truncp_bounds:
  assumes "0 < unat c"
  shows "unat c dvd unat (bm_truncp x c)" "unat (bm_truncp x c) \<le> unat x"
    "unat x < unat (bm_truncp x c) + unat c"
proof -
  have "unat x mod unat c < unat c" using assms by simp
  then show "unat (bm_truncp x c) \<le> unat x" "unat x < unat (bm_truncp x c) + unat c"
    by (simp_all add: unat_bm_truncp)
  show "unat c dvd unat (bm_truncp x c)" by (simp add: unat_bm_truncp minus_mod_eq_mult_div)
qed

lemma bm_ceilp_bounds:
  assumes "0 < unat c" "unat x + unat c \<le> 2 ^ 64"
  shows "unat c dvd unat (bm_ceilp x c)" "unat x \<le> unat (bm_ceilp x c)"
    "unat (bm_ceilp x c) < unat x + unat c"
proof -
  have m: "unat x mod unat c < unat c" using assms(1) by simp
  have e: "unat (bm_ceilp x c) =
      (if unat x mod unat c = 0 then unat x else unat x + (unat c - unat x mod unat c))"
    using assms by (rule unat_bm_ceilp)
  show "unat x \<le> unat (bm_ceilp x c)" unfolding e by simp
  show "unat (bm_ceilp x c) < unat x + unat c" unfolding e using m by auto
  show "unat c dvd unat (bm_ceilp x c)"
  proof (cases "unat x mod unat c = 0")
    case True
    then show ?thesis using assms by (simp add: unat_bm_ceilp mod_eq_0_iff_dvd)
  next
    case False
    have "unat x + (unat c - unat x mod unat c) = unat c * (unat x div unat c) + unat c"
      using m mult_div_mod_eq [of "unat c" "unat x"] by linarith
    then show ?thesis using False assms by (simp add: unat_bm_ceilp)
  qed
qed

subsection \<open>Masks are remainders on powers of two\<close>

lemma and_not_pow2:
  assumes "k < 64"
  shows "(x :: u64) AND NOT (2 ^ k - 1) = x - x mod 2 ^ k"
proof -
  have "(x AND NOT (mask k)) + (x AND mask k) = x"
    by (subst disjunctive_add) (auto simp: bit_eq_iff bit_simps)
  moreover have "x AND mask k = x mod 2 ^ k"
    by (simp flip: take_bit_eq_mask take_bit_eq_mod)
  ultimately have "(x AND NOT (mask k)) + x mod 2 ^ k = x" by simp
  then have "x AND NOT (mask k) = x - x mod 2 ^ k" by (simp add: eq_diff_eq)
  then show ?thesis by (simp add: mask_eq_decr_exp)
qed

lemma truncp_pow2: "k < 64 \<Longrightarrow> truncp x (2 ^ k) = bm_truncp x (2 ^ k)"
  by (simp add: truncp_def bm_truncp_def and_not_pow2)

lemma unat_pow2: "k < 64 \<Longrightarrow> unat (2 ^ k :: u64) = 2 ^ k"
  using unat_of_nat64 [of "2 ^ k"] power_strict_increasing [of k 64 "2 :: nat"] by simp

lemma ceilp_pow2:
  assumes k: "k < 64" and x: "unat x + 2 ^ k \<le> 2 ^ 64"
  shows "ceilp x (2 ^ k) = bm_ceilp x (2 ^ k)"
proof -
  let ?c = "2 ^ k :: u64" and ?n = "2 ^ k :: nat"
  have c: "unat ?c = ?n" "0 < ?n" using k by (simp_all add: unat_pow2)
  have c1: "unat (?c - 1) = ?n - 1" using c by (simp add: unat_nowrap)
  have s: "unat (x + (?c - 1)) = unat x + (?n - 1)"
    using x c1 c(2) by (subst unat_add64) auto
  have "unat (ceilp x ?c) = unat x + (?n - 1) - (unat x + (?n - 1)) mod ?n"
    unfolding ceilp_def Let_def and_not_pow2 [OF k] by (simp only: unat_sub64' unat_mod64 s c mod_less_eq_dividend)
  also have "\<dots> = (if unat x mod ?n = 0 then unat x else unat x + (?n - unat x mod ?n))"
  proof (cases "unat x mod ?n = 0")
    case True
    then have "(unat x + (?n - 1)) mod ?n = ?n - 1"
      using c(2) by (metis add_cancel_left_left diff_less less_numeral_extra(1) mod_add_left_eq mod_less)
    then show ?thesis using True by simp
  next
    case False
    have m: "unat x mod ?n < ?n" using c(2) by simp
    have "unat x + (?n - 1) = (unat x div ?n + 1) * ?n + (unat x mod ?n - 1)"
    proof -
      have "unat x = (unat x div ?n) * ?n + unat x mod ?n" by (simp only: div_mult_mod_eq)
      moreover have "(unat x div ?n + 1) * ?n = (unat x div ?n) * ?n + ?n" by simp
      ultimately show ?thesis using False m by linarith
    qed
    then have "(unat x + (?n - 1)) mod ?n = unat x mod ?n - 1"
      using m by (metis less_imp_diff_less mod_less mod_mult_self3)
    then show ?thesis using False m by simp
  qed
  also have "\<dots> = unat (bm_ceilp x ?c)" using unat_bm_ceilp [of ?c x] c x by simp
  finally show ?thesis by (simp add: word_eq_nat_iff)
qed


text \<open>At the top of the address space both wrap to 0.\<close>

lemma ceilp_pow2_wrap:
  assumes k: "k < 64" and x: "2 ^ 64 < unat x + 2 ^ k"
  shows "ceilp x (2 ^ k) = 0" "bm_ceilp x (2 ^ k) = 0"
proof -
  let ?c = "2 ^ k :: u64" and ?n = "2 ^ k :: nat"
  have c: "unat ?c = ?n" "0 < ?n" using k by (simp_all add: unat_pow2)
  have dvdN: "?n dvd 2 ^ 64" using k by (intro le_imp_power_dvd) simp
  then have dvd: "?n dvd 2 ^ 64 - ?n" by (rule dvd_diff_nat) simp
  define s where "s = unat x - (2 ^ 64 - ?n)"
  have le: "?n \<le> 2 ^ 64" using dvdN by (rule dvd_imp_le) simp
  moreover have "unat x < 2 ^ 64" by simp
  ultimately have xs: "unat x = (2 ^ 64 - ?n) + s" and s: "0 < s" "s < ?n"
    using x unfolding s_def by linarith+
  have "unat x mod ?n = ((2 ^ 64 - ?n) mod ?n + s mod ?n) mod ?n" unfolding xs by (simp add: mod_add_eq)
  then have m: "unat x mod ?n = s" using dvd s by (simp add: dvd_eq_mod_eq_0)
  have um: "unat (x mod ?c) = s" using m c by (simp add: unat_mod64)
  have "unat (?c - x mod ?c) = ?n - s" using um c(1) s by (subst unat_sub64') simp_all
  then have "unat (x + (?c - x mod ?c)) = (unat x + (?n - s)) mod 2 ^ 64"
    by (simp add: unat_word_ariths)
  also have "unat x + (?n - s) = 2 ^ 64" using xs le s by linarith
  finally have "unat (x + (?c - x mod ?c)) = 0" by simp
  moreover have "x mod ?c \<noteq> 0" unfolding word_eq_nat_iff um using s by simp
  ultimately show "bm_ceilp x ?c = 0" by (simp add: bm_ceilp_def word_eq_nat_iff)
  have c1: "unat (?c - 1) = ?n - 1" using c by (simp add: unat_nowrap)
  have "unat (x + (?c - 1)) = (unat x + (?n - 1)) mod 2 ^ 64" using c1 by (simp add: unat_word_ariths)
  also have "unat x + (?n - 1) = 2 ^ 64 + (s - 1)" using xs le s by linarith
  also have "(2 ^ 64 + (s - 1)) mod 2 ^ 64 = s - 1"
    unfolding mod_add_self1 using s le by (intro mod_less) linarith
  finally have "unat (x + (?c - 1)) = s - 1" .
  then have "unat (ceilp x ?c) = 0"
    unfolding ceilp_def Let_def and_not_pow2 [OF k] using s c by (simp add: unat_sub64' unat_mod64)
  then show "ceilp x ?c = 0" by (simp add: word_eq_nat_iff)
qed

subsection \<open>Both versions agree\<close>

text \<open>The mask arithmetic of \<^verbatim>\<open>linux/align.h\<close> and the remainder arithmetic of
  \<^verbatim>\<open>core/boxmap.c\<close> compute the same roundings for every power of two, wrap-around at the
  top of the address space included.\<close>

theorem align_versions_agree:
  assumes "k < 64"
  shows "truncp x (2 ^ k) = bm_truncp x (2 ^ k) \<and> ceilp x (2 ^ k) = bm_ceilp x (2 ^ k)"
proof (cases "unat x + 2 ^ k \<le> 2 ^ 64")
  case True
  then show ?thesis using truncp_pow2 [OF assms] ceilp_pow2 [OF assms] by simp
next
  case False
  then show ?thesis using truncp_pow2 [OF assms] ceilp_pow2_wrap [OF assms] by simp
qed

theorem align_versions_agree_witness:
  "ceilp 0xFFFFFFFFFFFFF001 4096 = bm_ceilp 0xFFFFFFFFFFFFF001 4096 \<and>
   ceilp 0xFFFFFFFFFFFFF001 4096 = 0"
  using align_versions_agree [of 12 "0xFFFFFFFFFFFFF001"] by (simp add: bm_ceilp_def)

end
