(* ===== verification/BoxMap.thy ===== *)
theory BoxMap
  imports ExtAlloc Align
begin

text \<open>
  The pool of address space of \<^verbatim>\<open>core/boxmap.c\<close>: regions reserved from the host, each
  with an extent allocator, from which sandboxes are cut.

  The host kernel is not code of this repository. What \<^verbatim>\<open>boxmap.c\<close> uses of it is the
  parameter \<open>bm_env\<close>: where \<^verbatim>\<open>mmap(NULL, size)\<close> places a mapping given the mappings
  that exist (or that it fails), whether a fixed remapping succeeds, and whether the two
  allocations of \<^verbatim>\<open>extalloc_new\<close> succeed. The process's mappings are the list \<open>host\<close>.
\<close>

type_synonym host = "(u64 \<times> u64) list"

record bm_env =
  env_mmap :: "host \<Rightarrow> u64 \<Rightarrow> u64 option"
  env_fixed :: "u64 \<Rightarrow> u64 \<Rightarrow> bool"
  env_malloc :: "u64 \<Rightarrow> bool"
  env_calloc :: "u64 \<Rightarrow> bool"

text \<open>
  The documented behaviour of \<^verbatim>\<open>mmap\<close>: a mapping is never placed at 0, lies below the
  top of the (user) address space and does not overlap an existing mapping.
\<close>

definition env_ok :: "bm_env \<Rightarrow> bool" where
  "env_ok e \<longleftrightarrow> (\<forall>h sz p. env_mmap e h sz = Some p \<longrightarrow>
     p \<noteq> 0 \<and> sz \<noteq> 0 \<and> unat p + unat sz \<le> 2 ^ 63 \<and>
     (\<forall>x \<in> set h. span p sz \<inter> span (fst x) (snd x) = {}))"

definition host_mmap :: "bm_env \<Rightarrow> host \<Rightarrow> u64 \<Rightarrow> host \<times> u64 option" where
  "host_mmap e h sz =
     (case env_mmap e h sz of None \<Rightarrow> (h, None) | Some p \<Rightarrow> ((p, sz) # h, Some p))"

definition host_munmap :: "host \<Rightarrow> u64 \<Rightarrow> u64 \<Rightarrow> host" where
  "host_munmap h p sz = removeAll (p, sz) h"

record region =
  rg_base :: u64
  rg_size :: u64
  rg_active :: u64
  rg_alloc :: extalloc
  rg_mapbase :: u64
  rg_mapsize :: u64

text \<open>The array \<^verbatim>\<open>regions\<close> with its fill \<^verbatim>\<open>nregions\<close> is a list.\<close>

record boxmap =
  bm_regions :: "region list"
  bm_chunksize :: u64
  bm_guardsize :: u64

definition ADDR_REGION_MAX :: nat where "ADDR_REGION_MAX = 16"

definition bm_gb :: "u64 \<Rightarrow> u64" where "bm_gb x = x * 1024 * 1024 * 1024"
definition bm_tb :: "u64 \<Rightarrow> u64" where "bm_tb x = x * 1024 * 1024 * 1024 * 1024"

definition boxmap_new :: "bool \<Rightarrow> u64 \<Rightarrow> u64 \<Rightarrow> boxmap option" where
  "boxmap_new ok chunksize guardsize =
     (if \<not> ok then None
      else Some \<lparr>bm_regions = [], bm_chunksize = chunksize, bm_guardsize = guardsize\<rparr>)"

definition boxmap_delete :: "host \<Rightarrow> boxmap \<Rightarrow> host" where
  "boxmap_delete h m = fold (\<lambda>r h. host_munmap h (rg_mapbase r) (rg_mapsize r)) (bm_regions m) h"

definition boxmap_size :: "boxmap \<Rightarrow> u64" where
  "boxmap_size m = sum_list (map rg_size (bm_regions m))"

definition boxmap_active :: "boxmap \<Rightarrow> u64" where
  "boxmap_active m = sum_list (map rg_active (bm_regions m))"

text \<open>
  \<^verbatim>\<open>reserve\<close>: halve the size until \<^verbatim>\<open>mmap\<close> succeeds or the size is below the threshold.
  The result is the host, the size got (0 for failure) and the base. With a threshold of
  0 the loop need not end, so the function is partial.
\<close>

partial_function (option) reserve ::
  "bm_env \<Rightarrow> host \<Rightarrow> u64 \<Rightarrow> u64 \<Rightarrow> (host \<times> u64 \<times> u64) option" where
  "reserve e h sz threshold =
     (case host_mmap e h sz of
        (h', Some p) \<Rightarrow> if sz < threshold then Some (h', 0, 0) else Some (h', sz, p)
      | (h', None) \<Rightarrow>
          if sz div 2 < threshold then Some (h', 0, 0) else reserve e h' (sz div 2) threshold)"

definition addregion :: "bm_env \<Rightarrow> boxmap \<Rightarrow> u64 \<Rightarrow> u64 \<Rightarrow> (bool \<times> boxmap) run" where
  "addregion e m base sz =
     (if ADDR_REGION_MAX \<le> length (bm_regions m) then Some (False, m)
      else do {
        let start = base + bm_guardsize m;
        let fin = base + sz - bm_guardsize m;
        let alignbase = bm_ceilp start (bm_chunksize m);
        let alignsize = bm_truncp fin (bm_chunksize m) - alignbase;
        alloc \<leftarrow> extalloc_new (env_malloc e alignbase) (env_calloc e alignbase)
                   alignbase alignsize (bm_chunksize m);
        case alloc of
          None \<Rightarrow> Some (False, m)
        | Some a \<Rightarrow>
            if \<not> env_fixed e alignbase alignsize then Some (False, m)
            else Some (True, m\<lparr>bm_regions := bm_regions m @
                   [\<lparr>rg_base = alignbase, rg_size = alignsize, rg_active = 0, rg_alloc = a,
                     rg_mapbase = base, rg_mapsize = sz\<rparr>]\<rparr>)
      })"

text \<open>
  The loop of \<^verbatim>\<open>boxmap_reserve\<close>: \<open>i\<close> iterations left. The result is \<open>None\<close> inside the
  pair for the early \<^verbatim>\<open>return false\<close>, otherwise the total got when the loop is left.
\<close>

primrec reserve_loop ::
  "nat \<Rightarrow> bm_env \<Rightarrow> u64 \<Rightarrow> u64 \<Rightarrow> host \<Rightarrow> boxmap \<Rightarrow> u64 \<Rightarrow> u64 \<Rightarrow> u64 \<Rightarrow>
   (host \<times> boxmap \<times> u64 option) run" where
  "reserve_loop 0 e want lo h m tot sz got_all = Some (h, m, Some got_all)"
| "reserve_loop (Suc i) e want lo h m tot sz got_all = do {
     (h, got, base) \<leftarrow> reserve e h sz lo;
     if got = 0 then Some (h, m, Some got_all)
     else do {
       let got_all = got_all + got;
       let tot = tot - got;
       let sz = tot;
       (ok, m) \<leftarrow> addregion e m base got;
       if \<not> ok then Some (host_munmap h base got, m, None)
       else if got_all \<ge> want then Some (h, m, Some got_all)
       else reserve_loop i e want lo h m tot sz got_all
     }
   }"

definition boxmap_reserve :: "bm_env \<Rightarrow> host \<Rightarrow> boxmap \<Rightarrow> u64 \<Rightarrow> (host \<times> boxmap \<times> bool) run" where
  "boxmap_reserve e h m sz0 = do {
     let (tot, sz, lo, want, need) =
       (if sz0 = 0 then (bm_tb 256, bm_tb 255, bm_gb 32, bm_tb 255, bm_gb 32)
        else (sz0, sz0, sz0, sz0, sz0));
     (h, m, r) \<leftarrow> reserve_loop ADDR_REGION_MAX e want lo h m tot sz 0;
     case r of None \<Rightarrow> Some (h, m, False) | Some got_all \<Rightarrow> Some (h, m, got_all \<ge> need)
   }"

fun allocslot :: "region list \<Rightarrow> u64 \<Rightarrow> (u64 \<times> region list) run" where
  "allocslot [] sz = Some (0, [])"
| "allocslot (r # rs) sz = do {
     (p, a) \<leftarrow> extalloc_alloc (rg_alloc r) sz;
     if p \<noteq> 0 then Some (p, r\<lparr>rg_alloc := a, rg_active := rg_active r + 1\<rparr> # rs)
     else do {
       (q, rs') \<leftarrow> allocslot rs sz;
       Some (q, r\<lparr>rg_alloc := a\<rparr> # rs')
     }
   }"

fun deleteslot :: "region list \<Rightarrow> u64 \<Rightarrow> u64 \<Rightarrow> region list run" where
  "deleteslot [] base sz = Some []"
| "deleteslot (r # rs) base sz =
     (if rg_base r \<le> base \<and> base < rg_base r + rg_size r then do {
        a \<leftarrow> extalloc_free (rg_alloc r) base sz;
        rs' \<leftarrow> deleteslot rs base sz;
        Some (r\<lparr>rg_alloc := a, rg_active := rg_active r - 1\<rparr> # rs')
      } else do {
        rs' \<leftarrow> deleteslot rs base sz;
        Some (r # rs')
      })"

definition boxmap_addspace :: "boxmap \<Rightarrow> u64 \<Rightarrow> (u64 \<times> boxmap) run" where
  "boxmap_addspace m sz = do {
     (p, rs) \<leftarrow> allocslot (bm_regions m) sz;
     Some (p, m\<lparr>bm_regions := rs\<rparr>)
   }"

definition boxmap_rmspace :: "boxmap \<Rightarrow> u64 \<Rightarrow> u64 \<Rightarrow> boxmap run" where
  "boxmap_rmspace m base sz = do {
     rs \<leftarrow> deleteslot (bm_regions m) base sz;
     Some (m\<lparr>bm_regions := rs\<rparr>)
   }"

subsection \<open>Well-formed pools\<close>

definition region_ok :: "u64 \<Rightarrow> region \<Rightarrow> bool" where
  "region_ok c r \<longleftrightarrow> ea_inv (rg_alloc r) \<and> ea_chunksize (rg_alloc r) = c \<and>
     unat (ea_base (rg_alloc r)) * unat c = unat (rg_base r) \<and>
     unat (ea_size (rg_alloc r)) * unat c = unat (rg_size r)"

definition regions_apart :: "region list \<Rightarrow> bool" where
  "regions_apart =
     sorted_wrt (\<lambda>r r'. span (rg_base r) (rg_size r) \<inter> span (rg_base r') (rg_size r') = {})"

definition regions_used :: "region list \<Rightarrow> nat set" where
  "regions_used rs = (\<Union>r \<in> set rs. ea_used (rg_alloc r))"

definition bm_inv :: "boxmap \<Rightarrow> bool" where
  "bm_inv m \<longleftrightarrow> 0 < unat (bm_chunksize m) \<and>
     (\<forall>r \<in> set (bm_regions m). region_ok (bm_chunksize m) r) \<and> regions_apart (bm_regions m)"

definition bm_used :: "boxmap \<Rightarrow> nat set" where
  "bm_used m = regions_used (bm_regions m)"

definition chunk_fits :: "u64 \<Rightarrow> u64 \<Rightarrow> bool" where
  "chunk_fits c n \<longleftrightarrow> unat c dvd unat n \<and> unat n + unat c \<le> 2 ^ 64"

definition bm_fits :: "boxmap \<Rightarrow> u64 \<Rightarrow> bool" where
  "bm_fits m n \<longleftrightarrow> chunk_fits (bm_chunksize m) n"

definition bm_slot :: "boxmap \<Rightarrow> u64 \<Rightarrow> u64 \<Rightarrow> bool" where
  "bm_slot m p n \<longleftrightarrow> n \<noteq> 0 \<and> (\<exists>r \<in> set (bm_regions m). ea_slot (rg_alloc r) p n)"

text \<open>What no operation on a region changes.\<close>

definition rg_cfg where
  "rg_cfg r = (rg_base r, rg_size r, rg_mapbase r, rg_mapsize r,
     ea_base (rg_alloc r), ea_size (rg_alloc r), ea_chunksize (rg_alloc r))"

lemma regions_used_simps [simp]:
  "regions_used [] = {}"
  "regions_used (r # rs) = ea_used (rg_alloc r) \<union> regions_used rs"
  by (simp_all add: regions_used_def)

lemma regions_apart_simps [simp]:
  "regions_apart []"
  "regions_apart (r # rs) \<longleftrightarrow>
     (\<forall>r' \<in> set rs. span (rg_base r) (rg_size r) \<inter> span (rg_base r') (rg_size r') = {}) \<and>
     regions_apart rs"
  by (simp_all add: regions_apart_def)

lemma ea_slot_cfg: "rg_cfg r = rg_cfg r' \<Longrightarrow> ea_slot (rg_alloc r) = ea_slot (rg_alloc r')"
  by (simp add: fun_eq_iff ea_slot_def rg_cfg_def)

lemma region_ok_cfg:
  "region_ok c r \<Longrightarrow> rg_cfg r' = rg_cfg r \<Longrightarrow> ea_inv (rg_alloc r') \<Longrightarrow> region_ok c r'"
  by (simp add: region_ok_def rg_cfg_def)

lemma map_cfg_setD:
  assumes "map rg_cfg rs' = map rg_cfg rs" "r' \<in> set rs'"
  shows "\<exists>r \<in> set rs. rg_cfg r' = rg_cfg r"
proof -
  have "rg_cfg r' \<in> set (map rg_cfg rs')" using assms(2) by simp
  then have "rg_cfg r' \<in> set (map rg_cfg rs)" by (simp only: assms(1))
  then show ?thesis by auto
qed

lemma regions_apart_conv:
  "regions_apart rs = sorted_wrt (\<lambda>a b. span (fst a) (fst (snd a)) \<inter>
     span (fst b) (fst (snd b)) = {}) (map rg_cfg rs)"
  unfolding regions_apart_def sorted_wrt_map by (simp add: rg_cfg_def)

lemma regions_apart_cfg:
  assumes "map rg_cfg rs' = map rg_cfg rs"
  shows "regions_apart rs' = regions_apart rs"
  unfolding regions_apart_conv assms by (rule refl)

lemma region_span:
  assumes "region_ok c r"
  shows "unat (rg_base r) + unat (rg_size r) < 2 ^ 64"
    "unat (rg_base r) = unat (ea_base (rg_alloc r)) * unat c"
    "unat (rg_base r) + unat (rg_size r) =
       (unat (ea_base (rg_alloc r)) + unat (ea_size (rg_alloc r))) * unat c"
  using assms by (auto simp: region_ok_def ea_inv_def distrib_right)

lemma ea_used_region:
  assumes "region_ok c r"
  shows "ea_used (rg_alloc r) \<subseteq> span (rg_base r) (rg_size r)"
proof
  fix x
  assume x: "x \<in> ea_used (rg_alloc r)"
  let ?C = "unat c" and ?B = "unat (ea_base (rg_alloc r))" and ?S = "unat (ea_size (rg_alloc r))"
  have C: "0 < ?C" using assms by (auto simp: region_ok_def ea_inv_def)
  have "?B \<le> x div ?C" "x div ?C < ?B + ?S" using x assms by (auto simp: ea_used_def region_ok_def)
  then have "?B * ?C \<le> x" "x < (?B + ?S) * ?C"
    using C by (simp_all add: less_eq_div_iff_mult_less_eq div_less_iff_less_mult)
  then show "x \<in> span (rg_base r) (rg_size r)"
    using region_span [OF assms] by (simp add: in_span)
qed

lemma ea_slot_region:
  assumes "region_ok c r" "ea_slot (rg_alloc r) p n"
  shows "span p n \<subseteq> span (rg_base r) (rg_size r)"
proof -
  have "unat (rg_base r) \<le> unat p \<and> unat p + unat n \<le> unat (rg_base r) + unat (rg_size r)"
    using assms region_span [OF assms(1)] by (simp add: ea_slot_def region_ok_def)
  then show ?thesis by (auto simp: in_span)
qed

lemma ea_used_apart:
  assumes "region_ok c r" "region_ok c r'" "ea_slot (rg_alloc r) p n"
    "span (rg_base r) (rg_size r) \<inter> span (rg_base r') (rg_size r') = {}"
  shows "span p n \<inter> ea_used (rg_alloc r') = {}"
  using ea_slot_region [OF assms(1,3)] ea_used_region [OF assms(2)] assms(4) by blast

subsection \<open>Allocation and release\<close>

lemma ea_alloc_step:
  assumes ok: "region_ok c r" and fits: "chunk_fits c n"
  obtains
    (fresh) p a where "extalloc_alloc (rg_alloc r) n = Some (p, a)" "p \<noteq> 0" "n \<noteq> 0" "ea_inv a"
      "ea_base a = ea_base (rg_alloc r)" "ea_size a = ea_size (rg_alloc r)"
      "ea_chunksize a = ea_chunksize (rg_alloc r)" "ea_slot (rg_alloc r) p n"
      "span p n \<inter> ea_used (rg_alloc r) = {}" "ea_used a = ea_used (rg_alloc r) \<union> span p n"
  | (full) "extalloc_alloc (rg_alloc r) n = Some (0, rg_alloc r)"
      "n \<noteq> 0 \<Longrightarrow> \<forall>q. ea_slot (rg_alloc r) q n \<longrightarrow> span q n \<inter> ea_used (rg_alloc r) \<noteq> {}"
proof (cases "n = 0")
  case True
  have "0 < unat (ea_chunksize (rg_alloc r))" using ok by (auto simp: region_ok_def ea_inv_def)
  then show ?thesis using full True extalloc_alloc_0 by auto
next
  case False
  have inv: "ea_inv (rg_alloc r)" and f: "ea_fits (rg_alloc r) n"
    using ok fits by (auto simp: region_ok_def ea_fits_def chunk_fits_def)
  from inv f False show ?thesis
  proof (cases rule: extalloc_alloc_cases)
    case fresh': (fresh p a)
    from fresh'(5) have "ea_base a = ea_base (rg_alloc r)" "ea_size a = ea_size (rg_alloc r)"
      "ea_chunksize a = ea_chunksize (rg_alloc r)"
      by (metis extalloc.ext_inject extalloc.surjective extalloc.update_convs(4))+
    then show ?thesis using fresh fresh' False by blast
  next
    case full': full
    then show ?thesis using full by blast
  qed
qed

lemma allocslot_spec:
  assumes "\<forall>r \<in> set rs. region_ok c r" "regions_apart rs" "chunk_fits c n"
  shows "\<exists>p rs'. allocslot rs n = Some (p, rs') \<and> map rg_cfg rs' = map rg_cfg rs \<and>
    (\<forall>r \<in> set rs'. ea_inv (rg_alloc r)) \<and>
    (if p = 0 then regions_used rs' = regions_used rs \<and>
       (n \<noteq> 0 \<longrightarrow> (\<forall>r \<in> set rs. \<forall>q. ea_slot (rg_alloc r) q n \<longrightarrow>
          span q n \<inter> ea_used (rg_alloc r) \<noteq> {}))
     else n \<noteq> 0 \<and> (\<exists>r \<in> set rs. ea_slot (rg_alloc r) p n) \<and> span p n \<inter> regions_used rs = {} \<and>
       regions_used rs' = regions_used rs \<union> span p n)"
  using assms
proof (induction rs)
  case Nil
  then show ?case by simp
next
  case (Cons r rs)
  have r: "region_ok c r" and rs: "\<forall>r \<in> set rs. region_ok c r" "regions_apart rs"
    using Cons.prems by auto
  from r Cons.prems(3) show ?case
  proof (cases rule: ea_alloc_step)
    case (fresh p a)
    have "span p n \<inter> ea_used (rg_alloc r') = {}" if "r' \<in> set rs" for r'
      using ea_used_apart [OF r _ fresh(8)] rs that Cons.prems(2) by auto
    then have apart: "span p n \<inter> regions_used rs = {}" by (auto simp: regions_used_def)
    let ?r = "r\<lparr>rg_alloc := a, rg_active := rg_active r + 1\<rparr>"
    have "allocslot (r # rs) n = Some (p, ?r # rs)" using fresh by simp
    moreover have "rg_cfg ?r = rg_cfg r" using fresh by (simp add: rg_cfg_def)
    moreover have "\<forall>r' \<in> set (?r # rs). ea_inv (rg_alloc r')"
      using fresh rs by (auto simp: region_ok_def)
    moreover have "regions_used (?r # rs) = regions_used (r # rs) \<union> span p n"
      using fresh by auto
    moreover have "span p n \<inter> regions_used (r # rs) = {}" using fresh(9) apart by auto
    ultimately show ?thesis using fresh(2,3,8) by (intro exI [of _ p] exI [of _ "?r # rs"]) auto
  next
    case full
    from Cons.IH [OF rs Cons.prems(3)] obtain p rs' where rs':
      "allocslot rs n = Some (p, rs')" "map rg_cfg rs' = map rg_cfg rs"
      "\<forall>r \<in> set rs'. ea_inv (rg_alloc r)"
      "if p = 0 then regions_used rs' = regions_used rs \<and>
         (n \<noteq> 0 \<longrightarrow> (\<forall>r \<in> set rs. \<forall>q. ea_slot (rg_alloc r) q n \<longrightarrow>
            span q n \<inter> ea_used (rg_alloc r) \<noteq> {}))
       else n \<noteq> 0 \<and> (\<exists>r \<in> set rs. ea_slot (rg_alloc r) p n) \<and> span p n \<inter> regions_used rs = {} \<and>
         regions_used rs' = regions_used rs \<union> span p n" by blast
    have "allocslot (r # rs) n = Some (p, r # rs')" using full rs'(1) by simp
    moreover have "\<forall>r' \<in> set (r # rs'). ea_inv (rg_alloc r')"
      using rs'(3) r by (auto simp: region_ok_def)
    moreover have "span p n \<inter> ea_used (rg_alloc r) = {}" if "p \<noteq> 0"
    proof -
      from rs'(4) that obtain r1 where r1: "r1 \<in> set rs" "ea_slot (rg_alloc r1) p n" by auto
      then have "region_ok c r1" using rs by blast
      then show ?thesis using ea_used_apart [OF _ r r1(2)] Cons.prems(2) r1(1) by auto
    qed
    ultimately show ?thesis using rs'(2,4) full(2)
      by (intro exI [of _ p] exI [of _ "r # rs'"]) (auto split: if_splits)
  qed
qed

lemma in_region_iff:
  assumes "region_ok c r"
  shows "(rg_base r \<le> p \<and> p < rg_base r + rg_size r) \<longleftrightarrow> unat p \<in> span (rg_base r) (rg_size r)"
  using region_span(1) [OF assms]
  by (simp add: in_span word_le_nat_alt word_less_nat_alt unat_nowrap)

lemma deleteslot_outside:
  assumes "\<forall>r \<in> set rs. region_ok c r \<and> unat p \<notin> span (rg_base r) (rg_size r)"
  shows "deleteslot rs p n = Some rs"
  using assms
proof (induction rs)
  case (Cons r rs)
  then show ?case using in_region_iff [of c r p] by auto
qed simp

lemma deleteslot_spec:
  assumes "\<forall>r \<in> set rs. region_ok c r" "regions_apart rs" "n \<noteq> 0"
    "\<exists>r \<in> set rs. ea_slot (rg_alloc r) p n"
  shows "\<exists>rs'. deleteslot rs p n = Some rs' \<and> map rg_cfg rs' = map rg_cfg rs \<and>
    (\<forall>r \<in> set rs'. ea_inv (rg_alloc r)) \<and> regions_used rs' = regions_used rs - span p n"
  using assms
proof (induction rs)
  case Nil
  then show ?case by simp
next
  case (Cons r rs)
  have r: "region_ok c r" and rs: "\<forall>r \<in> set rs. region_ok c r" "regions_apart rs"
    using Cons.prems by auto
  have p: "unat p \<in> span p n" using Cons.prems(3) by (simp add: in_span unat_gt_0)
  show ?case
  proof (cases "ea_slot (rg_alloc r) p n")
    case True
    have inv: "ea_inv (rg_alloc r)" using r by (simp add: region_ok_def)
    obtain bv where bv: "extalloc_free (rg_alloc r) p n = Some ((rg_alloc r)\<lparr>ea_bitvec := bv\<rparr>)"
      "ea_inv ((rg_alloc r)\<lparr>ea_bitvec := bv\<rparr>)"
      "ea_used ((rg_alloc r)\<lparr>ea_bitvec := bv\<rparr>) = ea_used (rg_alloc r) - span p n"
      by (rule extalloc_free_eq [OF inv True])
    have sub: "span p n \<subseteq> span (rg_base r) (rg_size r)" by (rule ea_slot_region [OF r True])
    have "\<forall>r' \<in> set rs. region_ok c r' \<and> unat p \<notin> span (rg_base r') (rg_size r')"
      using rs sub p Cons.prems(2) by auto
    then have "deleteslot rs p n = Some rs" by (rule deleteslot_outside)
    moreover have "rg_base r \<le> p \<and> p < rg_base r + rg_size r"
      using in_region_iff [OF r] sub p by blast
    moreover have "span p n \<inter> regions_used rs = {}"
      using ea_used_apart [OF r _ True] rs Cons.prems(2) by (auto simp: regions_used_def)
    ultimately show ?thesis using bv rs by (auto simp: rg_cfg_def region_ok_def)
  next
    case False
    then obtain r1 where r1: "r1 \<in> set rs" "ea_slot (rg_alloc r1) p n" using Cons.prems(4) by auto
    have r1ok: "region_ok c r1" using rs r1 by blast
    have "unat p \<notin> span (rg_base r) (rg_size r)"
      using ea_slot_region [OF r1ok r1(2)] p Cons.prems(2) r1(1) by auto
    then have out: "\<not> (rg_base r \<le> p \<and> p < rg_base r + rg_size r)" using in_region_iff [OF r] by blast
    from Cons.IH [OF rs Cons.prems(3)] r1 obtain rs' where
      "deleteslot rs p n = Some rs'" "map rg_cfg rs' = map rg_cfg rs"
      "\<forall>r \<in> set rs'. ea_inv (rg_alloc r)" "regions_used rs' = regions_used rs - span p n" by blast
    moreover have "span p n \<inter> ea_used (rg_alloc r) = {}"
      using ea_used_apart [OF r1ok r r1(2)] Cons.prems(2) r1(1) by auto
    ultimately show ?thesis using out r by (auto simp: region_ok_def)
  qed
qed

lemma slot_cfg:
  assumes "map rg_cfg rs' = map rg_cfg rs" "\<exists>r \<in> set rs. ea_slot (rg_alloc r) p n"
  shows "\<exists>r \<in> set rs'. ea_slot (rg_alloc r) p n"
proof -
  from assms(2) obtain r where r: "r \<in> set rs" "ea_slot (rg_alloc r) p n" by blast
  from map_cfg_setD [OF assms(1) [symmetric] r(1)] obtain r' where
    "r' \<in> set rs'" "rg_cfg r = rg_cfg r'" by blast
  with r(2) ea_slot_cfg [of r r'] show ?thesis by auto
qed

lemma bm_inv_cfg:
  assumes "bm_inv m" "map rg_cfg rs' = map rg_cfg (bm_regions m)" "\<forall>r \<in> set rs'. ea_inv (rg_alloc r)"
  shows "bm_inv (m\<lparr>bm_regions := rs'\<rparr>)" "bm_slot (m\<lparr>bm_regions := rs'\<rparr>) = bm_slot m"
proof -
  have "region_ok (bm_chunksize m) r" if "r \<in> set rs'" for r
    using map_cfg_setD [OF assms(2) that] assms(1,3) that
    by (auto simp: bm_inv_def intro: region_ok_cfg)
  then show "bm_inv (m\<lparr>bm_regions := rs'\<rparr>)"
    using assms(1) regions_apart_cfg [OF assms(2)] by (simp add: bm_inv_def)
  show "bm_slot (m\<lparr>bm_regions := rs'\<rparr>) = bm_slot m"
    using slot_cfg [OF assms(2)] slot_cfg [OF assms(2) [symmetric]]
    by (simp add: fun_eq_iff bm_slot_def) blast
qed

interpretation bm: space_alloc boxmap_addspace boxmap_rmspace bm_used bm_inv bm_fits bm_slot
proof
  fix m n
  assume inv: "bm_inv m" and fits: "bm_fits m n"
  have pre: "\<forall>r \<in> set (bm_regions m). region_ok (bm_chunksize m) r" "regions_apart (bm_regions m)"
    "chunk_fits (bm_chunksize m) n"
    using inv fits by (simp_all add: bm_inv_def bm_fits_def)
  from allocslot_spec [OF pre] obtain p rs' where rs': "allocslot (bm_regions m) n = Some (p, rs')"
    "map rg_cfg rs' = map rg_cfg (bm_regions m)" "\<forall>r \<in> set rs'. ea_inv (rg_alloc r)"
    and eff: "if p = 0 then regions_used rs' = regions_used (bm_regions m) \<and>
         (n \<noteq> 0 \<longrightarrow> (\<forall>r \<in> set (bm_regions m). \<forall>q. ea_slot (rg_alloc r) q n \<longrightarrow>
            span q n \<inter> ea_used (rg_alloc r) \<noteq> {})) else
       n \<noteq> 0 \<and> (\<exists>r \<in> set (bm_regions m). ea_slot (rg_alloc r) p n) \<and>
       span p n \<inter> regions_used (bm_regions m) = {} \<and>
       regions_used rs' = regions_used (bm_regions m) \<union> span p n" by blast
  have "boxmap_addspace m n = Some (p, m\<lparr>bm_regions := rs'\<rparr>)"
    using rs'(1) by (simp add: boxmap_addspace_def)
  moreover have "bm_fits (m\<lparr>bm_regions := rs'\<rparr>) = bm_fits m" by (simp add: fun_eq_iff bm_fits_def)
  ultimately show "\<exists>p m'. boxmap_addspace m n = Some (p, m') \<and> bm_inv m' \<and> bm_fits m' = bm_fits m \<and>
      bm_slot m' = bm_slot m \<and>
      (if p = 0 then bm_used m' = bm_used m
       else bm_slot m p n \<and> span p n \<inter> bm_used m = {} \<and> bm_used m' = bm_used m \<union> span p n)"
    using eff bm_inv_cfg [OF inv rs'(2,3)]
    by (intro exI [of _ p] exI [of _ "m\<lparr>bm_regions := rs'\<rparr>"])
      (simp add: bm_used_def bm_slot_def split: if_splits)
next
  fix m p n
  assume inv: "bm_inv m" and slot: "bm_slot m p n"
  then obtain rs' where rs': "deleteslot (bm_regions m) p n = Some rs'"
    "map rg_cfg rs' = map rg_cfg (bm_regions m)" "\<forall>r \<in> set rs'. ea_inv (rg_alloc r)"
    "regions_used rs' = regions_used (bm_regions m) - span p n"
    using deleteslot_spec [of "bm_regions m" "bm_chunksize m" n p]
    by (auto simp: bm_inv_def bm_slot_def)
  moreover have "bm_fits (m\<lparr>bm_regions := rs'\<rparr>) = bm_fits m" by (simp add: fun_eq_iff bm_fits_def)
  ultimately show "\<exists>m'. boxmap_rmspace m p n = Some m' \<and> bm_inv m' \<and> bm_fits m' = bm_fits m \<and>
      bm_slot m' = bm_slot m \<and> bm_used m' = bm_used m - span p n"
    using bm_inv_cfg [OF inv rs'(2,3)] by (auto simp: bm_used_def boxmap_rmspace_def)
qed

end
