(* ===== verification/PoolCapacity.thy ===== *)
theory PoolCapacity
  imports BoxMap
begin

text \<open>
  Reservation and capacity of the pool. First what \<^verbatim>\<open>reserve\<close>, \<^verbatim>\<open>addregion\<close> and
  \<^verbatim>\<open>boxmap_reserve\<close> return; then the allocator under requests of one size, as the engine
  makes them (every sandbox has the same footprint): the used part of the region is a set
  of cells of that size, so no fragmentation can make a request fail while a cell is free.
\<close>

subsection \<open>Reservation\<close>

lemma reserve_returns:
  assumes "threshold \<noteq> 0"
  shows "\<exists>r. reserve e h sz threshold = Some r"
proof (induction "unat sz" arbitrary: sz rule: less_induct)
  case less
  show ?case
  proof (cases "host_mmap e h sz")
    case (Pair h' r)
    then have h': "r = None \<Longrightarrow> h' = h" by (auto simp: host_mmap_def split: option.splits)
    show ?thesis
    proof (cases r)
      case (Some p)
      then show ?thesis using Pair by (simp add: reserve.simps [of e h sz])
    next
      case None
      show ?thesis
      proof (cases "sz div 2 < threshold")
        case True
        then show ?thesis using Pair None by (simp add: reserve.simps [of e h sz])
      next
        case False
        moreover have "unat threshold \<noteq> 0" using assms by (simp add: unat_0_iff)
        ultimately have "unat (sz div 2) \<noteq> 0" by (simp add: word_less_nat_alt)
        then have "unat (sz div 2) < unat sz" by (auto simp: unat_div64)
        from less [OF this] show ?thesis
          using Pair None h' False by (simp add: reserve.simps [of e h sz])
      qed
    qed
  qed
qed

text \<open>Whatever is got is at least the threshold, and at most what was asked for.\<close>

lemma reserve_got:
  assumes "reserve e h sz threshold = Some (h', got, base)" "got \<noteq> 0" "threshold \<noteq> 0"
  shows "threshold \<le> got \<and> got \<le> sz \<and> env_mmap e h got = Some base \<and> h' = (base, got) # h"
  using assms(1,2)
proof (induction "unat sz" arbitrary: sz rule: less_induct)
  case less
  note r = less.prems(1) [unfolded reserve.simps [of e h sz]]
  show ?case
  proof (cases "env_mmap e h sz")
    case (Some p)
    then show ?thesis using r less.prems(2) by (auto simp: host_mmap_def split: if_splits)
  next
    case None
    then have r': "reserve e h (sz div 2) threshold = Some (h', got, base)"
      and le: "threshold \<le> sz div 2"
      using r less.prems(2) by (auto simp: host_mmap_def split: if_splits)
    have "unat threshold \<noteq> 0" using assms(3) by (simp add: unat_0_iff)
    then have "unat (sz div 2) < unat sz" using le by (simp add: word_le_nat_alt unat_div64)
    from less.hyps [OF this r' less.prems(2)] this show ?thesis
      by (auto simp: word_le_nat_alt)
  qed
qed

text \<open>Asking for exactly the threshold succeeds at once or not at all.\<close>

lemma reserve_exact:
  assumes "sz \<noteq> 0"
  shows "reserve e h sz sz =
    Some (case env_mmap e h sz of None \<Rightarrow> (h, 0, 0) | Some p \<Rightarrow> ((p, sz) # h, sz, p))"
proof -
  have "sz div 2 < sz"
    using assms by (simp add: word_less_nat_alt unat_div64 unat_gt_0)
  then show ?thesis
    by (simp add: reserve.simps [of e h sz] host_mmap_def split: option.split)
qed

text \<open>
  A region of at least a chunk between its guards: the allocator's region is aligned,
  keeps the guards on both sides and is empty.
\<close>

definition region_within :: "u64 \<Rightarrow> region \<Rightarrow> bool" where
  "region_within g r \<longleftrightarrow>
     unat (rg_mapbase r) + unat g \<le> unat (rg_base r) \<and>
     unat (rg_base r) + unat (rg_size r) + unat g \<le> unat (rg_mapbase r) + unat (rg_mapsize r)"

lemma addregion_layout:
  fixes base sz g c :: u64
  assumes c: "0 < unat c" and b: "base \<noteq> 0" and top: "unat base + unat sz \<le> 2 ^ 63"
    and room: "2 * unat g + unat c \<le> unat sz"
  defines "ab \<equiv> bm_ceilp (base + g) c" and "as \<equiv> bm_truncp (base + sz - g) c - bm_ceilp (base + g) c"
  shows "unat c dvd unat ab" "unat c dvd unat as" "0 < unat ab"
    "unat base + unat g \<le> unat ab" "unat ab + unat as + unat g \<le> unat base + unat sz"
    "\<And>k. unat c dvd k \<Longrightarrow> k + 2 * unat g + unat c \<le> unat sz \<Longrightarrow> k \<le> unat as"
proof -
  have start: "unat (base + g) = unat base + unat g" using top room by (subst unat_add64) auto
  have fin: "unat (base + sz - g) = unat base + unat sz - unat g"
    using top room by (simp add: unat_nowrap)
  have "unat (base + g) + unat c \<le> 2 ^ 64" using start top room by simp
  note ce = bm_ceilp_bounds [OF c this]
  note tr = bm_truncp_bounds [OF c, of "base + sz - g"]
  show 1: "unat c dvd unat ab" using ce(1) by (simp add: ab_def)
  show base: "unat base + unat g \<le> unat ab" using ce(2) start by (simp add: ab_def)
  have "0 < unat base" using b by (simp add: unat_gt_0)
  then show "0 < unat ab" using base by linarith
  have fits: "unat ab + k \<le> unat (bm_truncp (base + sz - g) c)"
    if "unat c dvd k" "k + 2 * unat g + unat c \<le> unat sz" for k
  proof (rule ccontr)
    assume "\<not> ?thesis"
    then have "unat (bm_truncp (base + sz - g) c) < unat ab + k" by simp
    with dvd_next_multiple [OF tr(1) dvd_add [OF 1 that(1)]]
    have "unat (bm_truncp (base + sz - g) c) + unat c \<le> unat ab + k" .
    moreover have "unat ab < unat base + unat g + unat c" using ce(3) start by (simp add: ab_def)
    ultimately show False using tr(3) fin that(2) room by linarith
  qed
  have as: "unat as = unat (bm_truncp (base + sz - g) c) - unat ab"
    using fits [of 0] room by (simp add: as_def ab_def unat_sub64')
  show "unat c dvd unat as" unfolding as using tr(1) 1 by (rule dvd_diff_nat)
  show "unat ab + unat as + unat g \<le> unat base + unat sz"
    using as fits [of 0] room tr(2) fin by simp
  show "k \<le> unat as" if "unat c dvd k" "k + 2 * unat g + unat c \<le> unat sz" for k
    using fits [OF that] as by linarith
qed

lemma bv_bit_replicate [simp]: "\<not> bv_bit (replicate k 0) i"
  by (simp add: bv_bit_def)

lemma addregion_spec:
  assumes m: "bm_inv m" "bm_regions m = []"
    and b: "base \<noteq> 0" and top: "unat base + unat sz \<le> 2 ^ 63"
    and room: "2 * unat (bm_guardsize m) + unat (bm_chunksize m) \<le> unat sz"
  obtains (failed) "addregion e m base sz = Some (False, m)"
  | (added) r where "addregion e m base sz = Some (True, m\<lparr>bm_regions := [r]\<rparr>)"
      "region_ok (bm_chunksize m) r" "ea_used (rg_alloc r) = {}" "region_within (bm_guardsize m) r"
      "rg_mapbase r = base" "rg_mapsize r = sz"
      "\<And>k. unat (bm_chunksize m) dvd k \<Longrightarrow>
         k + 2 * unat (bm_guardsize m) + unat (bm_chunksize m) \<le> unat sz \<Longrightarrow> k \<le> unat (rg_size r)"
proof -
  let ?c = "bm_chunksize m" and ?g = "bm_guardsize m"
  let ?ab = "bm_ceilp (base + ?g) ?c"
  let ?as = "bm_truncp (base + sz - ?g) ?c - ?ab"
  let ?a = "\<lparr>ea_base = ?ab div ?c, ea_size = ?as div ?c, ea_chunksize = ?c,
      ea_bitvec = replicate (unat (?as div ?c div 8 + 1)) 0\<rparr>"
  let ?r = "\<lparr>rg_base = ?ab, rg_size = ?as, rg_active = 0, rg_alloc = ?a,
      rg_mapbase = base, rg_mapsize = sz\<rparr>"
  have c: "0 < unat ?c" using m(1) by (simp add: bm_inv_def)
  note L = addregion_layout [OF c b top room]
  have n: "extalloc_new ok1 ok2 ?ab ?as ?c =
      Some (if ok1 \<and> ok2 then Some ?a else None)" for ok1 ok2
    using L(1,2) by (simp add: extalloc_new_def mod_eq_0_nat_iff Let_def)
  have ba: "unat (?ab div ?c) * unat ?c = unat ?ab" "unat (?as div ?c) * unat ?c = unat ?as"
    using L(1,2) by (simp_all add: unat_div64)
  have "unat (?as div ?c div 8 + 1) = unat (?as div ?c) div 8 + 1"
    using unat_lt64 [of "?as div ?c"] by (subst unat_add64) (simp_all add: unat_div64)
  moreover have "0 < unat (?ab div ?c)" using L(3) ba(1) by (metis gr0I mult_0)
  moreover have "(unat (?ab div ?c) + unat (?as div ?c)) * unat ?c < 2 ^ 64"
    using ba L(5) top by (simp add: distrib_right)
  ultimately have inv: "ea_inv ?a" using c by (simp add: ea_inv_def)
  then have ok: "region_ok ?c ?r" using ba by (simp add: region_ok_def)
  have used: "ea_used ?a = {}" by (auto simp: ea_used_def)
  have within: "region_within ?g ?r" using L(4,5) by (simp add: region_within_def)
  have "addregion e m base sz = Some (if env_malloc e ?ab \<and> env_calloc e ?ab \<and> env_fixed e ?ab ?as
      then (True, m\<lparr>bm_regions := [?r]\<rparr>) else (False, m))"
    using m(2) by (simp add: addregion_def n ADDR_REGION_MAX_def Let_def)
  then show thesis
    using failed added [of ?r] ok used within L(6) by (auto split: if_splits)
qed

lemma reserve_loop_first:
  "reserve_loop ADDR_REGION_MAX e want lo h m tot sz got_all = do {
     (h, got, base) \<leftarrow> reserve e h sz lo;
     if got = 0 then Some (h, m, Some got_all)
     else do {
       (ok, m) \<leftarrow> addregion e m base got;
       if \<not> ok then Some (host_munmap h base got, m, None)
       else if got_all + got \<ge> want then Some (h, m, Some (got_all + got))
       else reserve_loop 15 e want lo h m (tot - got) (tot - got) (got_all + got)
     }
   }"
proof -
  have "reserve_loop ADDR_REGION_MAX = reserve_loop (Suc 15)" by (simp add: ADDR_REGION_MAX_def)
  then show ?thesis by (simp only: reserve_loop.simps Let_def)
qed

text \<open>A reservation of a given size: one region or nothing.\<close>

text \<open>A mapping just made is a new one, so that unmapping it restores the host.\<close>

lemma host_munmap_new:
  assumes "env_ok e" "env_mmap e h sz = Some p"
  shows "host_munmap ((p, sz) # h) p sz = h"
proof -
  have "sz \<noteq> 0" "\<forall>x \<in> set h. span p sz \<inter> span (fst x) (snd x) = {}"
    using assms by (auto simp: env_ok_def)
  moreover from \<open>sz \<noteq> 0\<close> have "unat p \<in> span p sz" by (simp add: in_span unat_gt_0)
  ultimately have "(p, sz) \<notin> set h" by force
  then show ?thesis by (simp add: host_munmap_def)
qed

lemma boxmap_reserve_spec:
  assumes e: "env_ok e" and m: "bm_inv m" "bm_regions m = []"
    and room: "2 * unat (bm_guardsize m) + unat (bm_chunksize m) \<le> unat sz"
  obtains (failed) h' where "boxmap_reserve e h m sz = Some (h', m, False)" "h' = h"
  | (reserved) p r where "boxmap_reserve e h m sz = Some ((p, sz) # h, m\<lparr>bm_regions := [r]\<rparr>, True)"
      "region_ok (bm_chunksize m) r" "ea_used (rg_alloc r) = {}" "region_within (bm_guardsize m) r"
      "rg_mapbase r = p" "rg_mapsize r = sz"
      "\<And>k. unat (bm_chunksize m) dvd k \<Longrightarrow>
         k + 2 * unat (bm_guardsize m) + unat (bm_chunksize m) \<le> unat sz \<Longrightarrow> k \<le> unat (rg_size r)"
proof -
  have c: "0 < unat (bm_chunksize m)" using m(1) by (simp add: bm_inv_def)
  have sz: "sz \<noteq> 0" using room c by auto
  show thesis
  proof (cases "env_mmap e h sz")
    case None
    have "boxmap_reserve e h m sz = Some (h, m, False)"
      using sz None by (simp add: boxmap_reserve_def reserve_loop_first reserve_exact)
    then show thesis by (rule failed) (rule refl)
  next
    case (Some p)
    then have p: "p \<noteq> 0" "unat p + unat sz \<le> 2 ^ 63" using e by (auto simp: env_ok_def)
    show thesis
    proof (cases rule: addregion_spec [OF m p room, of e, case_names failed added])
      case failed': failed
      have "boxmap_reserve e h m sz = Some (host_munmap ((p, sz) # h) p sz, m, False)"
        using sz Some failed' by (simp add: boxmap_reserve_def reserve_loop_first reserve_exact)
      moreover have "host_munmap ((p, sz) # h) p sz = h"
        using host_munmap_new [OF e Some] .
      ultimately show thesis by (rule failed)
    next
      case (added r)
      have "boxmap_reserve e h m sz = Some ((p, sz) # h, m\<lparr>bm_regions := [r]\<rparr>, True)"
        using sz Some added(1) by (simp add: boxmap_reserve_def reserve_loop_first reserve_exact)
      then show thesis by (rule reserved) (use added in auto)
    qed
  qed
qed


subsection \<open>Requests of one size\<close>

text \<open>The addresses of the cells \<open>J\<close> of size \<open>f\<close> from \<open>b\<close> on.\<close>

definition cells :: "nat \<Rightarrow> nat \<Rightarrow> nat set \<Rightarrow> nat set" where
  "cells b f J = {x. b \<le> x \<and> (x - b) div f \<in> J}"

lemma cells_empty [simp]: "cells b f {} = {}"
  by (simp add: cells_def)

lemma span_cell:
  assumes "0 < unat f" "unat p = b + j * unat f"
  shows "x \<in> span p f \<longleftrightarrow> b \<le> x \<and> (x - b) div unat f = j"
proof -
  have "(x - b) div unat f = j \<longleftrightarrow> j \<le> (x - b) div unat f \<and> (x - b) div unat f < Suc j"
    by auto
  also have "\<dots> \<longleftrightarrow> j * unat f \<le> x - b \<and> x - b < Suc j * unat f"
    using assms(1) by (simp only: less_eq_div_iff_mult_less_eq div_less_iff_less_mult)
  finally show ?thesis unfolding in_span assms(2) mult_Suc by arith
qed

lemma cells_insert:
  assumes "0 < unat f" "unat p = b + j * unat f"
  shows "cells b (unat f) (insert j J) = cells b (unat f) J \<union> span p f"
    "cells b (unat f) (J - {j}) = cells b (unat f) J - span p f"
    "j \<notin> J \<Longrightarrow> span p f \<inter> cells b (unat f) J = {}"
  by (auto simp: cells_def span_cell [OF assms])

text \<open>With a cell free, first fit takes the first free cell, so cells stay aligned.\<close>

lemma extalloc_alloc_cell:
  assumes inv: "ea_inv a" and fits: "ea_fits a f" "f \<noteq> 0"
    and used: "ea_used a = cells b (unat f) J"
    and b: "b = unat (ea_base a) * unat (ea_chunksize a)"
    and room: "b + N * unat f \<le> (unat (ea_base a) + unat (ea_size a)) * unat (ea_chunksize a)"
    and free: "j0 < N" "j0 \<notin> J"
  obtains p a' j where "extalloc_alloc a f = Some (p, a')" "p \<noteq> 0" "unat p = b + j * unat f"
    "j < N" "j \<notin> J" "ea_used a' = cells b (unat f) (insert j J)" "ea_slot a p f"
proof -
  let ?F = "unat f"
  define j where "j = (LEAST j. j \<notin> J)"
  have j: "j \<notin> J" "j \<le> j0" "\<And>i. i < j \<Longrightarrow> i \<in> J"
    unfolding j_def using free(2) LeastI [of "\<lambda>j. j \<notin> J"]
    by (blast, simp add: Least_le, blast dest: not_less_Least)
  have F: "0 < ?F" using fits(2) by (simp add: unat_gt_0)
  have top: "(unat (ea_base a) + unat (ea_size a)) * unat (ea_chunksize a) < 2 ^ 64"
    using inv by (simp add: ea_inv_def)
  have "(j + 1) * ?F \<le> N * ?F" using j(2) free(1) by (intro mult_le_mono1) simp
  then have jN: "b + j * ?F + ?F \<le> (unat (ea_base a) + unat (ea_size a)) * unat (ea_chunksize a)"
    using room by (simp add: distrib_right)
  define q :: u64 where "q = of_nat (b + j * ?F)"
  have q: "unat q = b + j * ?F" using jN top unfolding q_def by (intro unat_of_nat64) linarith
  have dvd: "unat (ea_chunksize a) dvd ?F" using fits(1) by (simp add: ea_fits_def)
  have slot: "ea_slot a q f" using jN q dvd b by (simp add: ea_slot_def)
  have qfree: "span q f \<inter> ea_used a = {}" using cells_insert(3) [OF F q j(1)] used by simp
  from inv fits show thesis
  proof (cases rule: extalloc_alloc_cases)
    case full
    then show thesis using slot qfree by blast
  next
    case (fresh p a')
    have "\<not> q < p" using fresh(8) [OF slot] qfree by blast
    then have le: "unat p \<le> b + j * ?F" using q by (simp add: word_less_nat_alt)
    have bp: "b \<le> unat p" using fresh(4) b by (simp add: ea_slot_def)
    have "unat p \<in> span p f" using F by (simp add: in_span)
    then have "unat p \<notin> cells b ?F J" using fresh(6) used by blast
    then have "(unat p - b) div ?F \<notin> J" using bp by (simp add: cells_def)
    then have "j \<le> (unat p - b) div ?F" using j(3) by (meson linorder_not_le)
    then have "j * ?F \<le> unat p - b" using F by (simp add: less_eq_div_iff_mult_less_eq)
    then have p: "unat p = b + j * ?F" using le bp by linarith
    have "ea_used a' = cells b ?F (insert j J)"
      using fresh(7) used cells_insert(1) [OF F p] by simp
    then show thesis using that [OF fresh(1,2) p] j free(1) fresh(4) by simp
  qed
qed


lemma extalloc_alloc_no_cell:
  assumes inv: "ea_inv a" and fits: "ea_fits a f" "f \<noteq> 0"
    and used: "ea_used a = cells b (unat f) J" "{..<N} \<subseteq> J"
    and b: "b = unat (ea_base a) * unat (ea_chunksize a)"
    and room: "(unat (ea_base a) + unat (ea_size a)) * unat (ea_chunksize a) < b + Suc N * unat f"
  shows "extalloc_alloc a f = Some (0, a)"
  using inv fits
proof (cases rule: extalloc_alloc_cases)
  case (fresh p a')
  have F: "0 < unat f" using fits(2) by (simp add: unat_gt_0)
  have p: "b \<le> unat p" "unat p + unat f < b + Suc N * unat f"
    using fresh(4) b room by (auto simp: ea_slot_def)
  then have "unat p - b < N * unat f" by simp
  then have "(unat p - b) div unat f < N" using F by (simp add: div_less_iff_less_mult)
  then have "unat p \<in> ea_used a" using used p(1) by (auto simp: cells_def)
  moreover have "unat p \<in> span p f" using F by (simp add: in_span)
  ultimately show ?thesis using fresh(6) by blast
qed

text \<open>
  A pool of one region used for spans of size \<open>f\<close> only: the live spans are distinct cells
  among the first \<open>N\<close>, the whole cells the region has room for.
\<close>

definition pool_cells :: "u64 \<Rightarrow> nat \<Rightarrow> boxmap \<Rightarrow> (u64 \<times> u64) list \<Rightarrow> bool" where
  "pool_cells f N m live \<longleftrightarrow> bm_inv m \<and> bm_fits m f \<and> f \<noteq> 0 \<and>
     (\<exists>r js. bm_regions m = [r] \<and> N = unat (rg_size r) div unat f \<and>
        distinct js \<and> set js \<subseteq> {..<N} \<and>
        ea_used (rg_alloc r) = cells (unat (rg_base r)) (unat f) (set js) \<and>
        list_all2 (\<lambda>(p, n) j. n = f \<and> unat p = unat (rg_base r) + j * unat f) live js)"

lemma pool_cells_length: "pool_cells f N m live \<Longrightarrow> length live \<le> N"
proof -
  assume "pool_cells f N m live"
  then obtain js where js: "distinct js" "set js \<subseteq> {..<N}" "length live = length js"
    unfolding pool_cells_def by (auto dest: list_all2_lengthD)
  then have "length js \<le> card {..<N}" by (metis card_mono distinct_card finite_lessThan)
  then show ?thesis using js by simp
qed

lemma pool_cells_Take:
  assumes "pool_cells f N m live"
  shows "\<exists>p m'. boxmap_addspace m f = Some (p, m') \<and> (p = 0 \<longleftrightarrow> length live = N) \<and>
    pool_cells f N m' (if p = 0 then live else (p, f) # live)"
proof -
  from assms obtain r js where r: "bm_inv m" "bm_fits m f" "f \<noteq> 0" "bm_regions m = [r]"
    "N = unat (rg_size r) div unat f" "distinct js" "set js \<subseteq> {..<N}"
    "ea_used (rg_alloc r) = cells (unat (rg_base r)) (unat f) (set js)"
    "list_all2 (\<lambda>(p, n) j. n = f \<and> unat p = unat (rg_base r) + j * unat f) live js"
    unfolding pool_cells_def by blast
  let ?a = "rg_alloc r"
  have F: "0 < unat f" using r(3) by (simp add: unat_gt_0)
  have ok: "region_ok (bm_chunksize m) r" using r(1,4) by (simp add: bm_inv_def)
  then have a: "ea_inv ?a" "ea_fits ?a f" "unat (rg_base r) = unat (ea_base ?a) * unat (ea_chunksize ?a)"
    "(unat (ea_base ?a) + unat (ea_size ?a)) * unat (ea_chunksize ?a)
       = unat (rg_base r) + unat (rg_size r)"
    using r(2) by (auto simp: region_ok_def bm_fits_def chunk_fits_def ea_fits_def distrib_right)
  have len: "length live = length js" using r(9) by (rule list_all2_lengthD)
  show ?thesis
  proof (cases "{..<N} \<subseteq> set js")
    case True
    have "unat (rg_size r) < Suc N * unat f"
      using F r(5) by (simp add: dividend_less_div_times add.commute)
    then have "extalloc_alloc ?a f = Some (0, ?a)"
      using extalloc_alloc_no_cell [OF a(1,2) r(3,8) True a(3)] a(4) by simp
    then have "boxmap_addspace m f = Some (0, m)"
      using r(4) by (simp add: boxmap_addspace_def)
    moreover have "length js = N"
      using True r(6,7) by (metis card_lessThan distinct_card subset_antisym)
    ultimately show ?thesis using assms len by simp
  next
    case False
    then obtain j0 where j0: "j0 < N" "j0 \<notin> set js" by auto
    have room: "unat (rg_base r) + N * unat f
        \<le> (unat (ea_base ?a) + unat (ea_size ?a)) * unat (ea_chunksize ?a)"
      using a(4) r(5) by simp
    obtain p a' j where al: "extalloc_alloc ?a f = Some (p, a')" "p \<noteq> 0"
      "unat p = unat (rg_base r) + j * unat f" "j < N" "j \<notin> set js"
      "ea_used a' = cells (unat (rg_base r)) (unat f) (insert j (set js))"
      by (rule extalloc_alloc_cell [OF a(1,2) r(3,8) a(3) room j0])
    let ?r = "r\<lparr>rg_alloc := a', rg_active := rg_active r + 1\<rparr>"
    let ?m = "m\<lparr>bm_regions := [?r]\<rparr>"
    have add: "boxmap_addspace m f = Some (p, ?m)"
      using r(4) al(1,2) by (simp add: boxmap_addspace_def)
    from bm.alloc_law [OF r(1,2)] add have m': "bm_inv ?m" "bm_fits ?m = bm_fits m" by auto
    have "length js < N"
      using j0 r(6,7) by (metis card_lessThan card_mono card_subset_eq distinct_card finite_lessThan
        lessThan_iff order_le_less)
    then have "length live \<noteq> N" using len by simp
    moreover have "pool_cells f N ?m ((p, f) # live)"
      unfolding pool_cells_def
      using m' r al by (intro conjI exI [of _ ?r] exI [of _ "j # js"]; force)
    ultimately show ?thesis using add al(2) by simp
  qed
qed


lemma pool_cells_Give:
  assumes "pool_cells f N m live" "i < length live" "live ! i = (p, n)"
  shows "\<exists>m'. boxmap_rmspace m p n = Some m' \<and> pool_cells f N m' (take i live @ drop (Suc i) live)"
proof -
  from assms(1) obtain r js where r: "bm_inv m" "bm_fits m f" "f \<noteq> 0" "bm_regions m = [r]"
    "N = unat (rg_size r) div unat f" "distinct js" "set js \<subseteq> {..<N}"
    "ea_used (rg_alloc r) = cells (unat (rg_base r)) (unat f) (set js)"
    and live: "list_all2 (\<lambda>(p, n) j. n = f \<and> unat p = unat (rg_base r) + j * unat f) live js"
    unfolding pool_cells_def by blast
  let ?a = "rg_alloc r" and ?C = "unat (bm_chunksize m)"
  have F: "0 < unat f" using r(3) by (simp add: unat_gt_0)
  have ok: "region_ok (bm_chunksize m) r" using r(1,4) by (simp add: bm_inv_def)
  have i: "i < length js" using assms(2) list_all2_lengthD [OF live] by simp
  have p: "n = f" "unat p = unat (rg_base r) + js ! i * unat f"
    using list_all2_nthD [OF live assms(2)] assms(3) by simp_all
  have "js ! i < N" using r(7) i nth_mem by blast
  then have "(js ! i + 1) * unat f \<le> N * unat f" by (intro mult_le_mono1) simp
  also have "\<dots> \<le> unat (rg_size r)" using r(5) by simp
  finally have fin: "js ! i * unat f + unat f \<le> unat (rg_size r)" by (simp add: distrib_right)
  have dvd: "?C dvd unat f" using r(2) by (simp add: bm_fits_def chunk_fits_def)
  have rg: "unat (ea_base ?a) * ?C = unat (rg_base r)"
    "(unat (ea_base ?a) + unat (ea_size ?a)) * ?C = unat (rg_base r) + unat (rg_size r)"
    "ea_chunksize ?a = bm_chunksize m" "?C dvd unat (rg_base r)"
    using region_span [OF ok] ok by (auto simp: region_ok_def)
  have "?C dvd unat p" unfolding p(2) using rg(4) dvd by (intro dvd_add dvd_mult)
  then have "ea_slot ?a p n"
    unfolding ea_slot_def rg p using dvd fin by (intro conjI; simp)
  then have slot: "bm_slot m p n" using r(3,4) p(1) by (auto simp: bm_slot_def)
  have "\<exists>bv. extalloc_free ?a p n = Some (?a\<lparr>ea_bitvec := bv\<rparr>) \<and>
      ea_used (?a\<lparr>ea_bitvec := bv\<rparr>) = ea_used ?a - span p n"
    using extalloc_free_eq [of ?a p n] ok \<open>ea_slot ?a p n\<close> unfolding region_ok_def by blast
  then obtain bv where bv: "extalloc_free ?a p n = Some (?a\<lparr>ea_bitvec := bv\<rparr>)"
    "ea_used (?a\<lparr>ea_bitvec := bv\<rparr>) = ea_used ?a - span p n" by blast
  have "span p f \<subseteq> cells (unat (rg_base r)) (unat f) (set js)"
    using span_cell [OF F p(2)] i by (auto simp: cells_def)
  then have sub: "span p n \<subseteq> bm_used m" using r(4,8) p(1) by (simp add: bm_used_def)
  have pin: "unat p \<in> span (rg_base r) (rg_size r)" using p(2) fin F by (simp add: in_span)
  let ?r = "r\<lparr>rg_alloc := ?a\<lparr>ea_bitvec := bv\<rparr>, rg_active := rg_active r - 1\<rparr>"
  let ?m = "m\<lparr>bm_regions := [?r]\<rparr>"
  have rm: "boxmap_rmspace m p n = Some ?m"
    using r(4) bv(1) in_region_iff [OF ok, of p] pin by (simp add: boxmap_rmspace_def)
  from bm.free_law [OF r(1) slot sub] rm have m': "bm_inv ?m" "bm_fits ?m = bm_fits m" by auto
  let ?js = "take i js @ drop (Suc i) js"
  have "set ?js = set js - {js ! i}" "distinct ?js" by (rule set_remove_nth [OF r(6) i])+
  moreover have "list_all2 (\<lambda>(p, n) j. n = f \<and> unat p = unat (rg_base r) + j * unat f)
      (take i live @ drop (Suc i) live) ?js"
    using live by (intro list_all2_appendI list_all2_takeI list_all2_dropI)
  moreover have "ea_used (?a\<lparr>ea_bitvec := bv\<rparr>)
      = cells (unat (rg_base r)) (unat f) (set js - {js ! i})"
    using bv(2) r(8) cells_insert(2) [OF F p(2)] p(1) by simp
  ultimately have "pool_cells f N ?m (take i live @ drop (Suc i) live)"
    unfolding pool_cells_def
    using m' r(2,3,5,7) by (intro conjI exI [of _ ?r] exI [of _ ?js]; force)
  then show ?thesis using rm by blast
qed

lemma pool_cells_run:
  assumes "pool_cells f N m live" "\<forall>x. Take x \<in> set rs \<longrightarrow> x = f"
  shows "\<exists>m' live'. space_run boxmap_addspace boxmap_rmspace rs (m, live) = Some (m', live') \<and>
    pool_cells f N m' live'"
  using assms
proof (induction rs arbitrary: m live)
  case (Cons r rs)
  then have rs: "\<forall>x. Take x \<in> set rs \<longrightarrow> x = f" by simp
  show ?case
  proof (cases r)
    case (Take x)
    then have "x = f" using Cons.prems(2) by simp
    moreover obtain p m' where "boxmap_addspace m f = Some (p, m')"
      "pool_cells f N m' (if p = 0 then live else (p, f) # live)"
      using pool_cells_Take [OF Cons.prems(1)] by blast
    ultimately show ?thesis using Cons.IH [OF _ rs] Take by simp
  next
    case (Give i)
    show ?thesis
    proof (cases "i < length live")
      case True
      obtain p n where pn: "live ! i = (p, n)" by (cases "live ! i")
      from pool_cells_Give [OF Cons.prems(1) True pn] obtain m' where
        "boxmap_rmspace m p n = Some m'" "pool_cells f N m' (take i live @ drop (Suc i) live)"
        by blast
      then show ?thesis using Cons.IH [OF _ rs] Give True pn by simp
    next
      case False
      then show ?thesis using Cons.IH [OF Cons.prems(1) rs] Give by simp
    qed
  qed
qed auto

text \<open>A reserved pool starts with no cell in use and room for every whole cell.\<close>

lemma reserved_pool_cells:
  assumes e: "env_ok e" and m: "bm_inv m" "bm_regions m = []"
    and f: "bm_fits m f" "f \<noteq> 0"
    and room: "n * unat f + 2 * unat (bm_guardsize m) + unat (bm_chunksize m) \<le> unat sz"
    and r: "boxmap_reserve e h m sz = Some (h', m', True)"
  shows "\<exists>N \<ge> n. pool_cells f N m' []"
proof -
  have rm: "2 * unat (bm_guardsize m) + unat (bm_chunksize m) \<le> unat sz" using room by simp
  have F: "0 < unat f" using f(2) by (simp add: unat_gt_0)
  show ?thesis
  proof (cases rule: boxmap_reserve_spec [OF e m rm, of h, case_names failed reserved])
    case (failed h')
    then show ?thesis using r by simp
  next
    case (reserved p rg)
    have "n * unat f \<le> unat (rg_size rg)"
      using reserved(7) [of "n * unat f"] f(1) room by (simp add: bm_fits_def chunk_fits_def)
    then have "n \<le> unat (rg_size rg) div unat f" using F by (simp add: less_eq_div_iff_mult_less_eq)
    moreover have "pool_cells f (unat (rg_size rg) div unat f) m' []"
      using r reserved(1,2,3) m(1) f
      by (auto simp: pool_cells_def bm_inv_def bm_fits_def)
    ultimately show ?thesis by blast
  qed
qed


subsection \<open>The pool's contract\<close>

text \<open>C32: \<^verbatim>\<open>reserve\<close> ends for every positive threshold, and what it returns is either 0 or a
  mapping it made, no smaller than the threshold and no larger than what was asked for.\<close>

theorem reserve_ends:
  assumes "threshold \<noteq> 0"
  shows "\<exists>h' got base. reserve e h sz threshold = Some (h', got, base) \<and>
    (got \<noteq> 0 \<longrightarrow> threshold \<le> got \<and> got \<le> sz \<and> h' = (base, got) # h)"
proof -
  from reserve_returns [OF assms] obtain h' got base where
    r: "reserve e h sz threshold = Some (h', got, base)" by (metis prod_cases3)
  with reserve_got [OF r _ assms] show ?thesis by blast
qed

definition small_env :: bm_env where
  "small_env = \<lparr>env_mmap = (\<lambda>h sz. if h = [] \<and> 0 < sz \<and> sz \<le> 0x100000 then Some 0x10000 else None),
     env_fixed = (\<lambda>p n. True), env_malloc = (\<lambda>p. True), env_calloc = (\<lambda>p. True)\<rparr>"

lemma small_env_ok: "env_ok small_env"
  by (auto simp: env_ok_def small_env_def word_le_nat_alt)

theorem reserve_ends_witness:
  "\<exists>h' got base. reserve small_env [] 0x400000 0x1000 = Some (h', got, base) \<and>
    (got \<noteq> 0 \<longrightarrow> 0x1000 \<le> got \<and> got \<le> 0x400000 \<and> h' = [(base, got)])"
  using reserve_ends [of "0x1000" small_env "[]" "0x400000"] by simp

text \<open>C31: reserving a given size in an empty pool either fails and leaves the pool alone or adds
  one region that is aligned to chunks, lies inside the new host mapping with a whole guard
  zone on each side of it, has no address in use, and is as large as the guards and one
  chunk of alignment allow.\<close>

theorem boxmap_reserve_guarded:
  assumes "env_ok e" "bm_inv m" "bm_regions m = []"
    and "2 * unat (bm_guardsize m) + unat (bm_chunksize m) \<le> unat sz"
  shows "\<exists>h' m' ok. boxmap_reserve e h m sz = Some (h', m', ok) \<and>
    (if ok then \<exists>p r. h' = (p, sz) # h \<and> m' = m\<lparr>bm_regions := [r]\<rparr> \<and> bm_inv m' \<and> bm_used m' = {} \<and>
         unat p + unat (bm_guardsize m) \<le> unat (rg_base r) \<and>
         unat (rg_base r) + unat (rg_size r) + unat (bm_guardsize m) \<le> unat p + unat sz \<and>
         (\<forall>k. unat (bm_chunksize m) dvd k \<and>
              k + 2 * unat (bm_guardsize m) + unat (bm_chunksize m) \<le> unat sz \<longrightarrow>
              k \<le> unat (rg_size r))
     else m' = m)"
proof (cases rule: boxmap_reserve_spec [OF assms, of h, case_names failed reserved])
  case (failed h')
  then show ?thesis by (intro exI [of _ h'] exI [of _ m] exI [of _ False]) simp
next
  case (reserved p r)
  have "bm_inv (m\<lparr>bm_regions := [r]\<rparr>)" using reserved(2) assms(2) by (simp add: bm_inv_def)
  moreover have "bm_used (m\<lparr>bm_regions := [r]\<rparr>) = {}" using reserved(3) by (simp add: bm_used_def)
  ultimately show ?thesis using reserved(1,4-7) by (auto simp: region_within_def)
qed

definition small_map :: boxmap where
  "small_map = \<lparr>bm_regions = [], bm_chunksize = 4096, bm_guardsize = 8192\<rparr>"

lemma small_map_inv: "bm_inv small_map" "bm_regions small_map = []"
  by (simp_all add: bm_inv_def small_map_def)

theorem boxmap_reserve_guarded_witness:
  "\<exists>h' m' ok. boxmap_reserve small_env [] small_map 65536 = Some (h', m', ok) \<and>
    (ok \<longrightarrow> bm_used m' = {})"
proof -
  have "2 * unat (bm_guardsize small_map) + unat (bm_chunksize small_map) \<le> unat (65536 :: u64)"
    by (simp add: small_map_def)
  from boxmap_reserve_guarded [OF small_env_ok small_map_inv this, of "[]"] show ?thesis by auto
qed

text \<open>C12: sandboxes get separate address space. From a well-formed pool with nothing handed
  out, along any sequence of \<^verbatim>\<open>boxmap_addspace\<close> and \<^verbatim>\<open>boxmap_rmspace\<close> of whole chunks over
  any number of regions, no assertion fails, the spans handed out and not given back are
  pairwise disjoint, and exactly their addresses are in use.\<close>

theorem boxmap_isolates:
  assumes "bm_inv m" "bm_used m = {}" "\<forall>n. Take n \<in> set rs \<longrightarrow> bm_fits m n"
  shows "\<exists>m' live. space_run boxmap_addspace boxmap_rmspace rs (m, []) = Some (m', live) \<and>
    live_ok live (bm_used m')"
  using assms by (rule bm.run_from_empty)

definition two_regions :: boxmap where
  "two_regions = \<lparr>bm_regions =
     [\<lparr>rg_base = 0x10000, rg_size = 0x4000, rg_active = 0,
       rg_alloc = \<lparr>ea_base = 16, ea_size = 4, ea_chunksize = 4096, ea_bitvec = [0]\<rparr>,
       rg_mapbase = 0xE000, rg_mapsize = 0x8000\<rparr>,
      \<lparr>rg_base = 0x40000, rg_size = 0x2000, rg_active = 0,
       rg_alloc = \<lparr>ea_base = 64, ea_size = 2, ea_chunksize = 4096, ea_bitvec = [0]\<rparr>,
       rg_mapbase = 0x3E000, rg_mapsize = 0x6000\<rparr>],
     bm_chunksize = 4096, bm_guardsize = 8192\<rparr>"

theorem boxmap_isolates_witness:
  "\<exists>m' live. space_run boxmap_addspace boxmap_rmspace
      [Take 8192, Take 12288, Take 8192, Give 1, Take 4096] (two_regions, []) = Some (m', live) \<and>
    live_ok live (bm_used m')"
  by (rule boxmap_isolates)
    (auto simp: two_regions_def bm_inv_def region_ok_def ea_inv_def bm_used_def ea_used_def
      bv_bit_def bm_fits_def chunk_fits_def in_span)

text \<open>C15: a pool reserved for \<open>n\<close> sandboxes has room for \<open>n\<close>. If the reservation of
  \<open>n\<close> footprints, the guards and a chunk succeeded, then after any sequence of requests of
  one footprint and releases, an allocation made while fewer than \<open>n\<close> spans are live
  succeeds: releases in any order leave no fragmentation that could refuse it.\<close>

theorem boxmap_capacity:
  assumes "env_ok e" "bm_inv m" "bm_regions m = []" "bm_fits m f" "f \<noteq> 0"
    and "n * unat f + 2 * unat (bm_guardsize m) + unat (bm_chunksize m) \<le> unat sz"
    and "boxmap_reserve e h m sz = Some (h', m0, True)"
    and "\<forall>x. Take x \<in> set rs \<longrightarrow> x = f"
  shows "\<exists>m1 live. space_run boxmap_addspace boxmap_rmspace rs (m0, []) = Some (m1, live) \<and>
    (length live < n \<longrightarrow> (\<exists>p m2. boxmap_addspace m1 f = Some (p, m2) \<and> p \<noteq> 0))"
proof -
  from reserved_pool_cells [OF assms(1-7)] obtain N where N: "n \<le> N" "pool_cells f N m0 []" by blast
  from pool_cells_run [OF N(2) assms(8)] obtain m1 live where
    run: "space_run boxmap_addspace boxmap_rmspace rs (m0, []) = Some (m1, live)"
    "pool_cells f N m1 live" by blast
  with pool_cells_Take [OF run(2)] N(1) show ?thesis by (metis leD)
qed

theorem boxmap_capacity_witness:
  "\<exists>m0 m1 live. space_run boxmap_addspace boxmap_rmspace
      [Take 8192, Take 8192, Give 1] (m0, []) = Some (m1, live) \<and>
    (length live < 2 \<longrightarrow> (\<exists>p m2. boxmap_addspace m1 8192 = Some (p, m2) \<and> p \<noteq> 0))"
proof -
  obtain m0 h' where r: "boxmap_reserve small_env [] small_map 65536 = Some (h', m0, True)"
    unfolding boxmap_reserve_def reserve_loop_first
    by (simp add: reserve_exact small_env_def small_map_def addregion_def ADDR_REGION_MAX_def
        extalloc_new_def bm_truncp_def bm_ceilp_def)
  have "bm_fits small_map 8192" "(8192 :: u64) \<noteq> 0" "2 * unat (8192 :: u64) +
      2 * unat (bm_guardsize small_map) + unat (bm_chunksize small_map) \<le> unat (65536 :: u64)"
    by (simp_all add: bm_fits_def chunk_fits_def small_map_def)
  moreover have "\<forall>x. Take x \<in> set [Take 8192, Take 8192, Give 1] \<longrightarrow> x = 8192" by simp
  ultimately show ?thesis
    by (intro exI [of _ m0] boxmap_capacity [OF small_env_ok small_map_inv _ _ _ r])
qed

end
