(* ===== verification/RangeMap.thy ===== *)
theory RangeMap
  imports Prelude
begin

text \<open>
  The range map of \<^verbatim>\<open>core/mmap/range_map.h\<close>: a \<^verbatim>\<open>std::map\<close> from the start of a range to
  its end and value, here the list of its entries in key order. Definitions first, then
  the set of points with their values that a map stands for, and the locale of what the
  address-space tracker relies on.
\<close>

type_synonym ('k, 'v) entry = "'k \<times> 'k \<times> 'v"
type_synonym ('k, 'v) rmap = "('k, 'v) entry list"

subsection \<open>Operations\<close>

text \<open>
  An iterator is a split of the list into the entries before it and the entries from it
  on. \<^verbatim>\<open>lower_bound\<close> and \<^verbatim>\<open>upper_bound\<close> split at a key, \<open>std_insert\<close> is
  \<^verbatim>\<open>std::map::insert\<close>, which keeps an entry that is there.
\<close>

definition lower_bound :: "'k::linorder \<Rightarrow> ('k, 'v) rmap \<Rightarrow> ('k, 'v) rmap \<times> ('k, 'v) rmap" where
  "lower_bound key m = (takeWhile (\<lambda>x. fst x < key) m, dropWhile (\<lambda>x. fst x < key) m)"

definition upper_bound :: "'k::linorder \<Rightarrow> ('k, 'v) rmap \<Rightarrow> ('k, 'v) rmap \<times> ('k, 'v) rmap" where
  "upper_bound key m = (takeWhile (\<lambda>x. fst x \<le> key) m, dropWhile (\<lambda>x. fst x \<le> key) m)"

fun std_insert :: "('k::linorder, 'v) entry \<Rightarrow> ('k, 'v) rmap \<Rightarrow> ('k, 'v) rmap" where
  "std_insert x [] = [x]"
| "std_insert x (y # m) =
     (if fst x < fst y then x # y # m else if fst x = fst y then y # m else y # std_insert x m)"

definition rm_find :: "'k::linorder \<Rightarrow> ('k, 'v) rmap \<Rightarrow> ('k, 'v) entry option" where
  "rm_find key m =
     (let (before, _) = upper_bound key m
      in if before = [] then None
         else if key < fst (snd (last before)) then Some (last before) else None)"

definition overlap_begin ::
  "'k::linorder \<Rightarrow> ('k, 'v) rmap \<Rightarrow> ('k, 'v) rmap \<times> ('k, 'v) rmap" where
  "overlap_begin start m =
     (let (before, rest) = lower_bound start m
      in if before = [] then (before, rest)
         else if fst (snd (last before)) \<le> start then (before, rest)
         else (butlast before, last before # rest))"

text \<open>The erasing loop of \<^verbatim>\<open>insert\<close> and \<^verbatim>\<open>remove\<close>: stubs found so far, entries left.\<close>

fun erase_loop ::
  "'k::linorder \<Rightarrow> 'k \<Rightarrow> ('k, 'v) rmap \<Rightarrow> ('k, 'v) entry option \<Rightarrow> ('k, 'v) entry option \<Rightarrow>
   ('k, 'v) entry option \<times> ('k, 'v) entry option \<times> ('k, 'v) rmap" where
  "erase_loop start fin [] left right = (left, right, [])"
| "erase_loop start fin ((es, ee, ev) # m) left right =
     (if es < fin then
        erase_loop start fin m
          (if es < start then Some (es, start, ev) else left)
          (if fin < ee then Some (fin, ee, ev) else right)
      else (left, right, (es, ee, ev) # m))"

definition insert_stub :: "('k::linorder, 'v) entry option \<Rightarrow> ('k, 'v) rmap \<Rightarrow> ('k, 'v) rmap" where
  "insert_stub stub m = (case stub of None \<Rightarrow> m | Some x \<Rightarrow> std_insert x m)"

definition rm_remove :: "'k::linorder \<Rightarrow> 'k \<Rightarrow> ('k, 'v) rmap \<Rightarrow> ('k, 'v) rmap" where
  "rm_remove start fin m =
     (if fin \<le> start then m
      else let (before, rest) = overlap_begin start m;
               (left, right, rest) = erase_loop start fin rest None None
           in insert_stub right (insert_stub left (before @ rest)))"

text \<open>\<^verbatim>\<open>coalesce\<close> at the entry whose key is \<open>key\<close>.\<close>

definition coalesce :: "'k::linorder \<Rightarrow> ('k, 'v) rmap \<Rightarrow> ('k, 'v) rmap" where
  "coalesce key m =
     (case lower_bound key m of
        (before, (s, e, v) # rest) \<Rightarrow>
          (let (e, rest) =
             (case rest of
                (rs, re, rv) # rest' \<Rightarrow> if e = rs \<and> v = rv then (re, rest') else (e, rest)
              | [] \<Rightarrow> (e, rest))
           in if before = [] then (s, e, v) # rest
              else case last before of (ls, le, lv) \<Rightarrow>
                if le = s \<and> lv = v then butlast before @ (ls, e, lv) # rest
                else before @ (s, e, v) # rest)
      | (before, []) \<Rightarrow> m)"

definition rm_insert :: "'k::linorder \<Rightarrow> 'k \<Rightarrow> 'v \<Rightarrow> ('k, 'v) rmap \<Rightarrow> ('k, 'v) rmap" where
  "rm_insert start fin val m =
     (if fin \<le> start then m
      else let (before, rest) = overlap_begin start m;
               (left, right, rest) = erase_loop start fin rest None None;
               m = insert_stub right (insert_stub left (before @ rest))
           in coalesce start (std_insert (start, fin, val) m))"

definition rm_overlaps :: "'k::linorder \<Rightarrow> 'k \<Rightarrow> ('k, 'v) rmap \<Rightarrow> bool" where
  "rm_overlaps start fin m =
     (if fin \<le> start then False
      else case overlap_begin start m of (_, []) \<Rightarrow> False | (_, x # _) \<Rightarrow> fst x < fin)"

definition get_overlapping :: "'k::linorder \<Rightarrow> 'k \<Rightarrow> ('k, 'v) rmap \<Rightarrow> ('k, 'v) rmap" where
  "get_overlapping start fin m =
     (if fin \<le> start then []
      else takeWhile (\<lambda>x. fst x < fin) (snd (overlap_begin start m)))"

fun gaps_loop :: "'k::linorder \<Rightarrow> 'k \<Rightarrow> ('k, 'v) rmap \<Rightarrow> ('k \<times> 'k) list" where
  "gaps_loop fin cursor [] = (if cursor < fin then [(cursor, fin)] else [])"
| "gaps_loop fin cursor ((es, ee, ev) # m) =
     (if es < fin then
        (if cursor < es then [(cursor, es)] else []) @
        gaps_loop fin (if cursor < ee then ee else cursor) m
      else if cursor < fin then [(cursor, fin)] else [])"

definition get_gaps :: "'k::linorder \<Rightarrow> 'k \<Rightarrow> ('k, 'v) rmap \<Rightarrow> ('k \<times> 'k) list" where
  "get_gaps start fin m =
     (if fin \<le> start then [] else gaps_loop fin start (snd (overlap_begin start m)))"

subsection \<open>Points\<close>

text \<open>The points of a map with their values; entries are non-empty, in order and disjoint.\<close>

definition pts :: "('k::linorder, 'v) rmap \<Rightarrow> ('k \<times> 'v) set" where
  "pts m = {(k, v). \<exists>s e. (s, e, v) \<in> set m \<and> s \<le> k \<and> k < e}"

definition rm_inv :: "('k::linorder, 'v) rmap \<Rightarrow> bool" where
  "rm_inv m \<longleftrightarrow> (\<forall>x \<in> set m. fst x < fst (snd x)) \<and> sorted_wrt (\<lambda>x y. fst (snd x) \<le> fst y) m"

lemma pts_simps [simp]:
  "pts [] = {}" "pts ((s, e, v) # m) = {s ..< e} \<times> {v} \<union> pts m" "pts (m @ m') = pts m \<union> pts m'"
  unfolding pts_def by (auto, blast+)

lemma rm_inv_Nil [simp]: "rm_inv []"
  by (simp add: rm_inv_def)

lemma rm_inv_Cons [simp]:
  "rm_inv ((s, e, v) # m) \<longleftrightarrow> s < e \<and> (\<forall>x \<in> set m. e \<le> fst x) \<and> rm_inv m"
  by (auto simp: rm_inv_def)

lemma rm_inv_append [simp]:
  "rm_inv (m @ m') \<longleftrightarrow> rm_inv m \<and> rm_inv m' \<and> (\<forall>x \<in> set m. \<forall>y \<in> set m'. fst (snd x) \<le> fst y)"
  by (auto simp: rm_inv_def sorted_wrt_append)

lemma rm_inv_nonempty: "rm_inv m \<Longrightarrow> x \<in> set m \<Longrightarrow> fst x < fst (snd x)"
  by (auto simp: rm_inv_def)

lemma rm_inv_append_less:
  assumes "rm_inv (m @ m')" "x \<in> set m" "y \<in> set m'"
  shows "fst x < fst y"
proof -
  have "fst x < fst (snd x)" using rm_inv_nonempty [OF assms(1), of x] assms(2) by simp
  also have "\<dots> \<le> fst y" using assms by simp
  finally show ?thesis .
qed

lemma pts_unique: "rm_inv m \<Longrightarrow> (k, v) \<in> pts m \<Longrightarrow> (k, v') \<in> pts m \<Longrightarrow> v = v'"
proof (induction m)
  case (Cons x m)
  obtain s e w where x: "x = (s, e, w)" by (cases x)
  have "(k, u) \<notin> pts m" if "k < e" for u
    using Cons.prems(1) that x by (force simp: pts_def)
  with Cons x show ?case by auto
qed simp

lemma last_mem_pts: "m \<noteq> [] \<Longrightarrow> last m \<in> set m"
  by simp

subsection \<open>Splits\<close>

text \<open>From \<^verbatim>\<open>overlap_begin\<close> on the entries end after \<open>start\<close>; those before do not.\<close>

lemma lower_bound_split:
  "lower_bound key m = (before, rest) \<Longrightarrow> m = before @ rest \<and> (\<forall>x \<in> set before. fst x < key)"
  by (auto simp: lower_bound_def dest: set_takeWhileD)

lemma lower_bound_rest:
  assumes "lower_bound key m = (before, rest)" "rm_inv m" "x \<in> set rest"
  shows "key \<le> fst x"
proof -
  have "rest \<noteq> []" and r: "rest = dropWhile (\<lambda>x. fst x < key) m"
    using assms(1,3) by (auto simp: lower_bound_def)
  then have h: "key \<le> fst (hd rest)" using hd_dropWhile [of "\<lambda>x. fst x < key" m] by simp
  have "rm_inv rest" using assms(1,2) lower_bound_split [of key m before rest] by auto
  moreover obtain s e v rest' where "rest = (s, e, v) # rest'" using \<open>rest \<noteq> []\<close> by (cases rest) auto
  ultimately show ?thesis using h assms(3) by (auto intro: order_trans less_imp_le)
qed

lemma overlap_begin_split:
  assumes "rm_inv m"
  obtains before rest where "overlap_begin start m = (before, rest)" "m = before @ rest"
    "\<forall>x \<in> set before. fst (snd x) \<le> start" "\<forall>x \<in> set rest. start < fst (snd x)"
proof -
  obtain l r where lr: "lower_bound start m = (l, r)" by (cases "lower_bound start m")
  from lower_bound_split [OF this] have m: "m = l @ r" and l: "\<forall>x \<in> set l. fst x < start" by auto
  have r: "\<forall>x \<in> set r. start < fst (snd x)"
  proof
    fix x
    assume x: "x \<in> set r"
    have "fst x < fst (snd x)" using assms m x by (intro rm_inv_nonempty [of m]) auto
    with lower_bound_rest [OF lr assms x] show "start < fst (snd x)" by (rule le_less_trans)
  qed
  show thesis
  proof (cases "l = []")
    case True
    then show thesis using that [of l r] lr m r by (simp add: overlap_begin_def)
  next
    case False
    then obtain l' x where l': "l = l' @ [x]" by (metis append_butlast_last_id)
    have "\<forall>y \<in> set l'. fst (snd y) \<le> fst x" using assms m l' by auto
    then have b: "\<forall>y \<in> set l'. fst (snd y) \<le> start" using l l' by (auto intro: order_trans less_imp_le)
    show thesis
    proof (cases "fst (snd x) \<le> start")
      case True
      then show thesis using that [of l r] lr m r b l' by (simp add: overlap_begin_def)
    next
      case False
      then show thesis using that [of l' "x # r"] lr m r b l' by (simp add: overlap_begin_def)
    qed
  qed
qed


subsection \<open>Erasing a range\<close>

definition stub :: "('k, 'v) entry option \<Rightarrow> ('k, 'v) rmap" where
  "stub x = (case x of None \<Rightarrow> [] | Some y \<Rightarrow> [y])"

lemma stub_simps [simp]: "stub None = []" "stub (Some x) = [x]"
  by (simp_all add: stub_def)

lemma std_insert_mid:
  "\<forall>x \<in> set m. fst x < fst y \<Longrightarrow> \<forall>x \<in> set m'. fst y < fst x \<Longrightarrow>
     std_insert y (m @ m') = m @ y # m'"
proof (induction m)
  case Nil
  then show ?case by (cases m') auto
next
  case (Cons x m)
  then have "\<not> fst y < fst x" "fst y \<noteq> fst x" by auto
  with Cons show ?case by simp
qed

lemma insert_stub_mid:
  "\<forall>y \<in> set (stub x). (\<forall>z \<in> set m. fst z < fst y) \<and> (\<forall>z \<in> set m'. fst y < fst z) \<Longrightarrow>
     insert_stub x (m @ m') = m @ stub x @ m'"
  by (cases x) (simp_all add: insert_stub_def std_insert_mid)

lemma pts_ge: "rm_inv m \<Longrightarrow> \<forall>x \<in> set m. c \<le> fst x \<Longrightarrow> (k, v) \<in> pts m \<Longrightarrow> c \<le> k"
  by (force simp: pts_def intro: order_trans)

lemma pts_lt: "\<forall>x \<in> set m. fst (snd x) \<le> c \<Longrightarrow> (k, v) \<in> pts m \<Longrightarrow> k < c"
  by (force simp: pts_def intro: less_le_trans)

lemma sep_Un: "{x \<in> A \<union> B. P x} = {x \<in> A. P x} \<union> {x \<in> B. P x}"
  by blast

lemma sep_block:
  "s \<le> fin \<Longrightarrow> {x \<in> {s ..< e :: 'k :: linorder} \<times> {v}. fin \<le> fst x} = {fin ..< e} \<times> {v}"
  by (auto intro: order_trans)

lemma erase_loop_past:
  "\<forall>x \<in> set m. fin \<le> fst x \<Longrightarrow> erase_loop start fin m left right = (left, right, m)"
  by (cases m) auto

lemma erase_loop_inside:
  assumes "rm_inv m" "\<forall>x \<in> set m. start \<le> fst x"
  shows "\<exists>right rest. erase_loop start fin m left None = (left, right, rest) \<and>
    rm_inv (stub right @ rest) \<and> pts (stub right @ rest) = {x \<in> pts m. fin \<le> fst x} \<and>
    (\<forall>x \<in> set (stub right @ rest). fin \<le> fst x)"
  using assms
proof (induction m)
  case (Cons x m)
  obtain s e v where x: "x = (s, e, v)" by (cases x)
  have m: "rm_inv m" "\<forall>y \<in> set m. e \<le> fst y" "s < e" "start \<le> s" using Cons.prems x by auto
  show ?case
  proof (cases "s < fin")
    case out: False
    then have past: "\<forall>y \<in> set (x # m). fin \<le> fst y"
      using m x by (auto intro: order_trans less_imp_le)
    have "{y \<in> pts (x # m). fin \<le> fst y} = pts (x # m)"
      using pts_ge [OF Cons.prems(1) past] by fastforce
    then show ?thesis using Cons.prems(1) past erase_loop_past [OF past, of start left None]
      by (intro exI [of _ None] exI [of _ "x # m"]) simp
  next
    case True
    show ?thesis
    proof (cases "fin < e")
      case cut: True
      then have past: "\<forall>y \<in> set m. fin \<le> fst y" using m(2) by (auto intro: order_trans less_imp_le)
      have "{y \<in> pts m. fin \<le> fst y} = pts m" using pts_ge [OF m(1) past] by fastforce
      then have "pts ((fin, e, v) # m) = {y \<in> pts (x # m). fin \<le> fst y}"
        by (simp only: x pts_simps sep_Un sep_block [OF less_imp_le [OF True]])
      then show ?thesis using True cut x m past
        by (intro exI [of _ "Some (fin, e, v)"] exI [of _ m]) (auto simp: erase_loop_past)
    next
      case False
      have "\<forall>y \<in> set m. start \<le> fst y" using Cons.prems(2) by simp
      from Cons.IH [OF m(1) this] obtain right rest where
        "erase_loop start fin m left None = (left, right, rest)" "rm_inv (stub right @ rest)"
        "pts (stub right @ rest) = {y \<in> pts m. fin \<le> fst y}"
        "\<forall>y \<in> set (stub right @ rest). fin \<le> fst y" by blast
      moreover have "{y \<in> pts (x # m). fin \<le> fst y} = {y \<in> pts m. fin \<le> fst y}"
        using False x by auto
      ultimately show ?thesis using True False x m(4)
        by (intro exI [of _ right] exI [of _ rest]) (simp add: leD)
    qed
  qed
qed auto

lemma erase_loop_eq:
  assumes "rm_inv m" "\<forall>x \<in> set m. start < fst (snd x)" "start < fin"
  obtains left right rest where "erase_loop start fin m None None = (left, right, rest)"
    "rm_inv (stub left @ stub right @ rest)"
    "pts (stub left @ stub right @ rest) = {x \<in> pts m. fst x < start \<or> fin \<le> fst x}"
    "\<forall>x \<in> set (stub left). fst (snd x) = start \<and> (\<exists>y \<in> set m. fst y = fst x)"
    "\<forall>x \<in> set (stub right @ rest). fin \<le> fst x"
proof (cases m)
  case Nil
  then show thesis by (intro that [of None None "[]"]) simp_all
next
  case (Cons x m')
  obtain s e v where x: "x = (s, e, v)" by (cases x)
  have m': "rm_inv m'" "\<forall>y \<in> set m'. e \<le> fst y" "s < e" "start < e" using assms Cons x by auto
  then have ge: "\<forall>y \<in> set m'. start \<le> fst y" by (auto intro: order_trans less_imp_le)
  show thesis
  proof (cases "s < start")
    case False
    then have "\<forall>y \<in> set m. start \<le> fst y" using Cons x ge by simp
    from erase_loop_inside [OF assms(1) this, of fin None] obtain right rest where
      r: "erase_loop start fin m None None = (None, right, rest)" "rm_inv (stub right @ rest)"
      "pts (stub right @ rest) = {y \<in> pts m. fin \<le> fst y}"
      "\<forall>y \<in> set (stub right @ rest). fin \<le> fst y" by blast
    have "{y \<in> pts m. fin \<le> fst y} = {y \<in> pts m. fst y < start \<or> fin \<le> fst y}"
      using pts_ge [OF assms(1) \<open>\<forall>y \<in> set m. start \<le> fst y\<close>] by fastforce
    with r show thesis by (intro that [of None right rest]) simp_all
  next
    case True
    then have sf: "s < fin" using assms(3) by simp
    have low: "{y \<in> pts m. fst y < start} = pts [(s, start, v)]"
      using pts_ge [OF m'(1) ge] Cons x m'(4) by fastforce
    show thesis
    proof (cases "fin < e")
      case cut: True
      then have past: "\<forall>y \<in> set m'. fin \<le> fst y" using m'(2) by (auto intro: order_trans less_imp_le)
      have "{y \<in> pts m'. fin \<le> fst y} = pts m'" using pts_ge [OF m'(1) past] by fastforce
      then have "{y \<in> pts m. fin \<le> fst y} = pts ((fin, e, v) # m')"
        by (simp only: Cons x pts_simps sep_Un sep_block [OF less_imp_le [OF sf]])
      then have "pts (stub (Some (s, start, v)) @ stub (Some (fin, e, v)) @ m')
          = {y \<in> pts m. fst y < start \<or> fin \<le> fst y}"
        using low by (simp add: Collect_disj_eq conj_disj_distribL)
      then show thesis
        using that [of "Some (s, start, v)" "Some (fin, e, v)" m'] Cons x True sf cut m' past ge
          assms(3) by (simp add: erase_loop_past less_imp_le)
    next
      case False
      from erase_loop_inside [OF m'(1) ge, of fin "Some (s, start, v)"] obtain right rest where
        r: "erase_loop start fin m' (Some (s, start, v)) None = (Some (s, start, v), right, rest)"
        "rm_inv (stub right @ rest)" "pts (stub right @ rest) = {y \<in> pts m'. fin \<le> fst y}"
        "\<forall>y \<in> set (stub right @ rest). fin \<le> fst y" by blast
      have "{y \<in> pts m. fin \<le> fst y} = {y \<in> pts m'. fin \<le> fst y}" using Cons x False by auto
      then have "pts (stub (Some (s, start, v)) @ stub right @ rest)
          = {y \<in> pts m. fst y < start \<or> fin \<le> fst y}"
        using r(3) low by (simp add: Collect_disj_eq conj_disj_distribL)
      moreover have "rm_inv (stub (Some (s, start, v)) @ stub right @ rest)"
        using r(2,4) True assms(3) by (auto intro: order_trans less_imp_le)
      ultimately show thesis
        using that [of "Some (s, start, v)" right rest] r Cons x True sf False by simp
    qed
  qed
qed


text \<open>Erasing and putting the stubs back leaves the points outside the range.\<close>

lemma cut_eq:
  assumes inv: "rm_inv m" and se: "start < fin"
  obtains before rest0 left right rest where "overlap_begin start m = (before, rest0)"
    "erase_loop start fin rest0 None None = (left, right, rest)"
    "insert_stub right (insert_stub left (before @ rest)) =
       (before @ stub left) @ (stub right @ rest)"
    "rm_inv ((before @ stub left) @ (stub right @ rest))"
    "pts ((before @ stub left) @ (stub right @ rest)) =
       {x \<in> pts m. fst x < start \<or> fin \<le> fst x}"
    "\<forall>x \<in> set (before @ stub left). fst (snd x) \<le> start"
    "\<forall>x \<in> set (stub right @ rest). fin \<le> fst x"
proof -
  obtain before rest0 where b: "overlap_begin start m = (before, rest0)" "m = before @ rest0"
    "\<forall>x \<in> set before. fst (snd x) \<le> start" "\<forall>x \<in> set rest0. start < fst (snd x)"
    by (rule overlap_begin_split [OF inv])
  have inv0: "rm_inv rest0" "rm_inv before" using inv b(2) by auto
  obtain left right rest where e: "erase_loop start fin rest0 None None = (left, right, rest)"
    "rm_inv (stub left @ stub right @ rest)"
    "pts (stub left @ stub right @ rest) = {x \<in> pts rest0. fst x < start \<or> fin \<le> fst x}"
    "\<forall>x \<in> set (stub left). fst (snd x) = start \<and> (\<exists>y \<in> set rest0. fst y = fst x)"
    "\<forall>x \<in> set (stub right @ rest). fin \<le> fst x"
    by (rule erase_loop_eq [OF inv0(1) b(4) se])
  have bl: "\<forall>x \<in> set before. \<forall>y \<in> set (stub left). fst (snd x) \<le> fst y"
    using e(4) inv b(2) by (fastforce)
  have full: "rm_inv ((before @ stub left) @ (stub right @ rest))"
    using inv0(2) e(2,5) bl b(3) se
    by (auto dest!: bspec intro: order_trans [OF _ less_imp_le [OF se]] order_trans)
  have low: "{x \<in> pts before. fst x < start \<or> fin \<le> fst x} = pts before"
    using pts_lt [OF b(3)] by fastforce
  have "pts ((before @ stub left) @ (stub right @ rest)) =
      {x \<in> pts m. fst x < start \<or> fin \<le> fst x}"
    using e(3) low by (simp only: b(2) pts_simps sep_Un Un_assoc append_assoc)
  moreover have "insert_stub left (before @ rest) = before @ stub left @ rest"
  proof (rule insert_stub_mid, intro ballI conjI)
    fix y z
    assume y: "y \<in> set (stub left)"
    have ys: "fst y < start" using rm_inv_nonempty [OF full, of y] e(4) y by auto
    show "fst z < fst y" if "z \<in> set before"
      using rm_inv_nonempty [OF inv0(2) that] bl that y by (blast intro: less_le_trans)
    show "fst y < fst z" if "z \<in> set rest" using e(5) that ys se
      by (auto dest!: bspec intro: less_trans less_le_trans)
  qed
  moreover have "insert_stub right ((before @ stub left) @ rest) =
      (before @ stub left) @ stub right @ rest"
  proof (rule insert_stub_mid, intro ballI conjI)
    fix y z
    assume y: "y \<in> set (stub right)"
    show "fst z < fst y" if "z \<in> set (before @ stub left)"
      using rm_inv_append_less [OF full that] y by simp
    have "rm_inv (stub right @ rest)" using full by simp
    then show "fst y < fst z" if "z \<in> set rest"
      using y that by (rule rm_inv_append_less)
  qed
  moreover have "\<forall>x \<in> set (before @ stub left). fst (snd x) \<le> start" using b(3) e(4) by auto
  ultimately show thesis using that [OF b(1) e(1)] full e(5) by simp
qed

lemma rm_remove_eq:
  assumes "rm_inv m"
  shows "rm_inv (rm_remove start fin m)"
    "pts (rm_remove start fin m) = {x \<in> pts m. fst x < start \<or> fin \<le> fst x}"
proof -
  have "rm_inv (rm_remove start fin m) \<and>
    pts (rm_remove start fin m) = {x \<in> pts m. fst x < start \<or> fin \<le> fst x}"
  proof (cases "start < fin")
    case True
    show ?thesis
      by (rule cut_eq [OF assms True]) (use True [folded not_le] in \<open>simp only: rm_remove_def Let_def split if_False simp_thms\<close>)
  next
    case False
    then have "{x \<in> pts m. fst x < start \<or> fin \<le> fst x} = pts m" by auto
    then show ?thesis using False assms by (simp add: rm_remove_def leI)
  qed
  then show "rm_inv (rm_remove start fin m)"
    "pts (rm_remove start fin m) = {x \<in> pts m. fst x < start \<or> fin \<le> fst x}" by auto
qed

lemma block_Un: "s \<le> e \<Longrightarrow> e \<le> f \<Longrightarrow> {s ..< e} \<times> {v} \<union> {e ..< f} \<times> {v} = {s ..< f :: 'k :: linorder} \<times> {v}"
  by (auto dest: leI)

lemma coalesce_eq:
  assumes "rm_inv (a @ (s, e, v) # b)"
  shows "rm_inv (coalesce s (a @ (s, e, v) # b)) \<and>
    pts (coalesce s (a @ (s, e, v) # b)) = pts (a @ (s, e, v) # b)"
proof -
  have "\<forall>x \<in> set a. fst x < s" using assms by (fastforce dest: rm_inv_nonempty)
  then have lb: "lower_bound s (a @ (s, e, v) # b) = (a, (s, e, v) # b)"
    by (simp add: lower_bound_def takeWhile_append2 dropWhile_append2)
  obtain e' b' where r: "(case b of (rs, re, rv) # rest' \<Rightarrow>
      if e = rs \<and> v = rv then (re, rest') else (e, b) | [] \<Rightarrow> (e, b)) = (e', b')" by fastforce
  have r': "rm_inv (a @ (s, e', v) # b') \<and> pts (a @ (s, e', v) # b') = pts (a @ (s, e, v) # b)"
  proof (cases b)
    case Nil
    then show ?thesis using r assms by auto
  next
    case (Cons y b2)
    obtain rs re rv where y: "y = (rs, re, rv)" by (cases y)
    show ?thesis
    proof (cases "e = rs \<and> v = rv")
      case True
      then have eq: "e' = re" "b' = b2" using r Cons y by auto
      have "{s..<e} \<times> {v} \<union> {e..<re} \<times> {v} = {s..<re} \<times> {v}"
        using assms Cons y True by (intro block_Un) auto
      then have "pts (a @ (s, e', v) # b') = pts (a @ (s, e, v) # b)"
        using True by (simp add: eq Cons y Un_assoc [symmetric])
      moreover have "rm_inv (a @ (s, e', v) # b')"
        using assms True Cons y eq by (auto intro: less_trans order_trans less_imp_le)
      ultimately show ?thesis by simp
    next
      case False
      then have "e' = e" "b' = b" using r Cons y by (auto split: if_splits)
      then show ?thesis using assms by simp
    qed
  qed
  show ?thesis
  proof (cases "a = []")
    case True
    then show ?thesis using r' r lb by (simp add: coalesce_def)
  next
    case False
    then obtain a2 z where a: "a = a2 @ [z]" by (metis append_butlast_last_id)
    obtain ls le lv where z: "z = (ls, le, lv)" by (cases z)
    show ?thesis
    proof (cases "le = s \<and> lv = v")
      case True
      then have "coalesce s (a @ (s, e, v) # b) = a2 @ (ls, e', v) # b'"
        using r lb a z by (simp add: coalesce_def)
      moreover have "{ls..<s} \<times> {v} \<union> {s..<e'} \<times> {v} = {ls..<e'} \<times> {v}"
        using r' a z True by (intro block_Un) auto
      then have "pts (a2 @ (ls, e', v) # b') = pts (a @ (s, e', v) # b')"
        using True by (simp add: a z Un_assoc [symmetric])
      moreover have "rm_inv (a2 @ (ls, e', v) # b')"
        using r' a z True by (auto intro: less_trans order_trans less_imp_le)
      ultimately show ?thesis using r' by simp
    next
      case False
      then have "coalesce s (a @ (s, e, v) # b) = a @ (s, e', v) # b'"
        using r lb a z by (auto simp: coalesce_def)
      then show ?thesis using r' by simp
    qed
  qed
qed

lemma rm_insert_eq:
  assumes "rm_inv m"
  shows "rm_inv (rm_insert start fin val m)"
    "pts (rm_insert start fin val m) =
       {x \<in> pts m. fst x < start \<or> fin \<le> fst x} \<union> {start ..< fin} \<times> {val}"
proof -
  have "rm_inv (rm_insert start fin val m) \<and> pts (rm_insert start fin val m) =
       {x \<in> pts m. fst x < start \<or> fin \<le> fst x} \<union> {start ..< fin} \<times> {val}"
  proof (cases "start < fin")
    case False
    then have "{x \<in> pts m. fst x < start \<or> fin \<le> fst x} = pts m" by auto
    then show ?thesis using False assms by (simp add: rm_insert_def leI)
  next
    case True
    show ?thesis
    proof (rule cut_eq [OF assms True])
      fix before rest0 left right rest
      assume c: "overlap_begin start m = (before, rest0)"
        "erase_loop start fin rest0 None None = (left, right, rest)"
        "insert_stub right (insert_stub left (before @ rest)) =
          (before @ stub left) @ (stub right @ rest)"
        "rm_inv ((before @ stub left) @ (stub right @ rest))"
        "pts ((before @ stub left) @ (stub right @ rest)) =
          {x \<in> pts m. fst x < start \<or> fin \<le> fst x}"
        "\<forall>x \<in> set (before @ stub left). fst (snd x) \<le> start"
        "\<forall>x \<in> set (stub right @ rest). fin \<le> fst x"
      let ?l = "before @ stub left" and ?r = "stub right @ rest"
      have "\<forall>x \<in> set ?l. fst x < start"
      proof
        fix x
        assume x: "x \<in> set ?l"
        then have "x \<in> set (?l @ ?r)" by (simp only: set_append Un_iff) blast
        then have "fst x < fst (snd x)" by (rule rm_inv_nonempty [OF c(4)])
        also have "\<dots> \<le> start" using c(6) x by blast
        finally show "fst x < start" .
      qed
      moreover have "\<forall>x \<in> set ?r. start < fst x" using c(7) True by (auto intro: less_le_trans)
      ultimately have ins: "std_insert (start, fin, val) (?l @ ?r) = ?l @ (start, fin, val) # ?r"
        by (intro std_insert_mid) simp_all
      have inv: "rm_inv (?l @ (start, fin, val) # ?r)"
        using c(4,6,7) True by (auto intro: order_trans less_imp_le)
      have "rm_insert start fin val m = coalesce start (?l @ (start, fin, val) # ?r)"
        using True [folded not_le] c(1-3) ins
        by (simp only: rm_insert_def Let_def split if_False simp_thms)
      moreover have "pts (?l @ (start, fin, val) # ?r) =
          {x \<in> pts m. fst x < start \<or> fin \<le> fst x} \<union> {start ..< fin} \<times> {val}"
        unfolding c(5) [symmetric] by auto
      ultimately show ?thesis using coalesce_eq [OF inv] by simp
    qed
  qed
  then show "rm_inv (rm_insert start fin val m)" "pts (rm_insert start fin val m) =
       {x \<in> pts m. fst x < start \<or> fin \<le> fst x} \<union> {start ..< fin} \<times> {val}" by auto
qed


subsection \<open>Queries\<close>

lemma rm_find_eq:
  assumes "rm_inv m"
  shows "map_option (\<lambda>x. snd (snd x)) (rm_find key m) = Some v \<longleftrightarrow> (key, v) \<in> pts m"
proof -
  let ?b = "takeWhile (\<lambda>x. fst x \<le> key) m" and ?r = "dropWhile (\<lambda>x. fst x \<le> key) m"
  have m: "m = ?b @ ?r" by simp
  then have inv: "rm_inv (?b @ ?r)" using assms by simp
  have r: "(key, v) \<notin> pts ?r"
  proof (cases ?r)
    case (Cons x r')
    then have "\<not> fst x \<le> key" by (metis hd_dropWhile list.distinct(1) list.sel(1))
    moreover have "\<forall>y \<in> set ?r. fst x \<le> fst y"
      using inv Cons by (cases x) (auto intro: order_trans less_imp_le)
    moreover have "rm_inv ?r" using inv by (simp only: rm_inv_append)
    ultimately show ?thesis using pts_ge [of ?r "fst x" key v] by blast
  next
    case Nil
    show ?thesis unfolding Nil by simp
  qed
  have p: "(key, v) \<in> pts m \<longleftrightarrow> (key, v) \<in> pts ?b" by (subst m) (simp only: pts_simps Un_iff r simp_thms)
  show ?thesis
  proof (cases "?b = []")
    case True
    then show ?thesis unfolding p by (simp add: rm_find_def upper_bound_def)
  next
    case False
    then obtain b x where b: "?b = b @ [x]" by (metis append_butlast_last_id)
    have "x \<in> set ?b" unfolding b by simp
    then have x: "fst x \<le> key" by (rule set_takeWhileD [THEN conjunct2])
    have "\<forall>y \<in> set b. fst (snd y) \<le> fst x" using inv unfolding b by simp
    then have "\<forall>y \<in> set b. fst (snd y) \<le> key" using x by (meson order_trans)
    then have "(key, v) \<notin> pts b" using pts_lt [of b key key v] by (metis less_irrefl)
    moreover have "(key, v) \<in> pts [x] \<longleftrightarrow> key < fst (snd x) \<and> v = snd (snd x)"
      using x by (cases x) auto
    ultimately have pb: "(key, v) \<in> pts ?b \<longleftrightarrow> key < fst (snd x) \<and> v = snd (snd x)"
      by (simp only: b pts_simps(3) Un_iff simp_thms)
    moreover have "rm_find key m = (if key < fst (snd x) then Some x else None)"
      by (simp add: rm_find_def upper_bound_def b)
    ultimately show ?thesis unfolding p pb by (cases x) auto
  qed
qed

lemma rm_find_None: "rm_inv m \<Longrightarrow> rm_find key m = None \<longleftrightarrow> key \<notin> fst ` pts m"
proof -
  assume m: "rm_inv m"
  have "rm_find key m = None \<longleftrightarrow> (\<forall>v. map_option (\<lambda>x. snd (snd x)) (rm_find key m) \<noteq> Some v)"
    by (cases "rm_find key m") auto
  then show ?thesis unfolding rm_find_eq [OF m] by force
qed

lemma takeWhile_sorted:
  "rm_inv m \<Longrightarrow> takeWhile (\<lambda>x. fst x < fin) m = filter (\<lambda>x. fst x < fin) m"
proof (induction m)
  case (Cons x m)
  have "filter (\<lambda>x. fst x < fin) m = []" if "\<not> fst x < fin"
    using Cons.prems that by (cases x) (fastforce simp: filter_empty_conv)
  with Cons show ?case by (cases x) auto
qed simp

lemma get_overlapping_eq:
  assumes "rm_inv m"
  shows "get_overlapping start fin m =
    (if start < fin then filter (\<lambda>x. fst x < fin \<and> start < fst (snd x)) m else [])"
proof -
  obtain before rest where b: "overlap_begin start m = (before, rest)" "m = before @ rest"
    "\<forall>x \<in> set before. fst (snd x) \<le> start" "\<forall>x \<in> set rest. start < fst (snd x)"
    by (rule overlap_begin_split [OF assms])
  have "filter (\<lambda>x. fst x < fin \<and> start < fst (snd x)) m = filter (\<lambda>x. fst x < fin) rest"
    using b(3,4) by (auto simp: b(2) filter_empty_conv cong: filter_cong)
  moreover have "rm_inv rest" using assms b(2) by simp
  ultimately show ?thesis using b(1) by (auto simp: get_overlapping_def takeWhile_sorted not_less)
qed

lemma rm_overlaps_eq:
  assumes "rm_inv m"
  shows "rm_overlaps start fin m \<longleftrightarrow> (\<exists>x \<in> pts m. start \<le> fst x \<and> fst x < fin)"
proof (cases "start < fin")
  case False
  then show ?thesis by (auto simp: rm_overlaps_def)
next
  case True
  have 1: "rm_overlaps start fin m \<longleftrightarrow> get_overlapping start fin m \<noteq> []"
    using True by (auto simp: rm_overlaps_def get_overlapping_def split: prod.splits list.splits)
  have "get_overlapping start fin m \<noteq> [] \<longleftrightarrow> (\<exists>x \<in> set m. fst x < fin \<and> start < fst (snd x))"
    using True by (simp add: get_overlapping_eq [OF assms] filter_empty_conv)
  also have "\<dots> \<longleftrightarrow> (\<exists>x \<in> pts m. start \<le> fst x \<and> fst x < fin)"
  proof
    assume "\<exists>x \<in> set m. fst x < fin \<and> start < fst (snd x)"
    then obtain s e v where x: "(s, e, v) \<in> set m" "s < fin" "start < e" by auto
    then have "(max s start, v) \<in> pts m"
      using rm_inv_nonempty [OF assms x(1)] by (auto simp: pts_def max_def)
    then show "\<exists>x \<in> pts m. start \<le> fst x \<and> fst x < fin"
      using x(2) True by (intro bexI [of _ "(max s start, v)"]) auto
  next
    assume "\<exists>x \<in> pts m. start \<le> fst x \<and> fst x < fin"
    then obtain k s e v where "(s, e, v) \<in> set m" "s \<le> k" "k < e" "start \<le> k" "k < fin"
      by (auto simp: pts_def)
    then show "\<exists>x \<in> set m. fst x < fin \<and> start < fst (snd x)"
      by (intro bexI [of _ "(s, e, v)"]) auto
  qed
  finally show ?thesis using 1 by simp
qed

lemma gaps_loop_eq:
  assumes "rm_inv m" "\<forall>x \<in> set m. cursor < fst (snd x)"
  shows "((\<exists>(a, b) \<in> set (gaps_loop fin cursor m). a \<le> k \<and> k < b) \<longleftrightarrow>
      cursor \<le> k \<and> k < fin \<and> k \<notin> fst ` pts m) \<and>
    (\<forall>(a, b) \<in> set (gaps_loop fin cursor m). cursor \<le> a \<and> a < b \<and> b \<le> fin)"
  using assms
proof (induction m arbitrary: cursor)
  case (Cons x m)
  obtain s e v where x: "x = (s, e, v)" by (cases x)
  have m: "rm_inv m" "\<forall>y \<in> set m. e \<le> fst y" "s < e" "cursor < e" using Cons.prems x by auto
  have "\<forall>y \<in> set m. e < fst (snd y)"
    using m(2) rm_inv_nonempty [OF m(1)] by (auto intro: le_less_trans)
  note ih = Cons.IH [OF m(1) this]
  show ?case
  proof (cases "s < fin")
    case True
    have ge: "k \<in> fst ` pts m \<Longrightarrow> e \<le> k" using pts_ge [OF m(1,2)] by force
    have "(\<exists>(a, b) \<in> set (gaps_loop fin cursor (x # m)). a \<le> k \<and> k < b) \<longleftrightarrow>
        (cursor \<le> k \<and> k < s) \<or> (e \<le> k \<and> k < fin \<and> k \<notin> fst ` pts m)"
      using True m(3,4) ih x by auto
    also have "\<dots> \<longleftrightarrow> cursor \<le> k \<and> k < fin \<and> \<not> (s \<le> k \<and> k < e) \<and> k \<notin> fst ` pts m"
    proof (cases "k \<in> fst ` pts m")
      case out: True
      with ge have "\<not> k < s" using m(3) by auto
      with out show ?thesis by blast
    next
      case out: False
      then show ?thesis using True m(3,4) by (simp only: simp_thms) (auto dest: leD)
    qed
    also have "\<dots> \<longleftrightarrow> cursor \<le> k \<and> k < fin \<and> k \<notin> fst ` pts (x # m)"
      using x by (auto simp: image_Un)
    finally have "(\<exists>(a, b) \<in> set (gaps_loop fin cursor (x # m)). a \<le> k \<and> k < b) \<longleftrightarrow>
        cursor \<le> k \<and> k < fin \<and> k \<notin> fst ` pts (x # m)" .
    moreover have "\<forall>(a, b) \<in> set (gaps_loop fin e m). cursor \<le> a \<and> a < b \<and> b \<le> fin"
    proof
      fix y
      assume "y \<in> set (gaps_loop fin e m)"
      with ih have "case y of (a, b) \<Rightarrow> e \<le> a \<and> a < b \<and> b \<le> fin" by blast
      with m(4) show "case y of (a, b) \<Rightarrow> cursor \<le> a \<and> a < b \<and> b \<le> fin"
        by (cases y) (simp, meson less_imp_le order_trans)
    qed
    then have "\<forall>(a, b) \<in> set (gaps_loop fin cursor (x # m)). cursor \<le> a \<and> a < b \<and> b \<le> fin"
      using True m(4) x by (auto simp: less_imp_le)
    ultimately show ?thesis by blast
  next
    case False
    have "fin \<le> k" if "k \<in> fst ` pts (x # m)"
    proof -
      have "s \<le> fst y" if "y \<in> set m" for y using m(2,3) that by (meson less_imp_le order_trans)
      then have "\<forall>y \<in> set (x # m). s \<le> fst y" using x by simp
      note ge = pts_ge [OF Cons.prems(1) this]
      from that obtain z where "k = fst z" "z \<in> pts (x # m)" by (rule imageE)
      then have "s \<le> k" using ge [of "fst z" "snd z"] by (simp only: prod.collapse)
      with False show ?thesis by simp
    qed
    then show ?thesis using False x by (auto dest: leD)
  qed
qed auto

lemma get_gaps_eq:
  assumes "rm_inv m"
  shows "(\<exists>(a, b) \<in> set (get_gaps start fin m). a \<le> k \<and> k < b) \<longleftrightarrow>
      start \<le> k \<and> k < fin \<and> k \<notin> fst ` pts m"
    "\<forall>(a, b) \<in> set (get_gaps start fin m). start \<le> a \<and> a < b \<and> b \<le> fin"
proof -
  obtain before rest where b: "overlap_begin start m = (before, rest)" "m = before @ rest"
    "\<forall>x \<in> set before. fst (snd x) \<le> start" "\<forall>x \<in> set rest. start < fst (snd x)"
    by (rule overlap_begin_split [OF assms])
  have inv: "rm_inv rest" using assms b(2) by simp
  have "start \<le> k \<Longrightarrow> k \<in> fst ` pts m \<longleftrightarrow> k \<in> fst ` pts rest"
    using pts_lt [OF b(3)] by (auto simp: b(2) image_Un dest: leD)
  then show "(\<exists>(a, b) \<in> set (get_gaps start fin m). a \<le> k \<and> k < b) \<longleftrightarrow>
      start \<le> k \<and> k < fin \<and> k \<notin> fst ` pts m"
    using gaps_loop_eq [OF inv b(4), of fin k] b(1) by (auto simp: get_gaps_def)
  show "\<forall>(a, b) \<in> set (get_gaps start fin m). start \<le> a \<and> a < b \<and> b \<le> fin"
    using gaps_loop_eq [OF inv b(4), of fin] b(1) by (auto simp: get_gaps_def)
qed


text \<open>A gap ends at the window's end or at an entry.\<close>

lemma gaps_loop_end: "(a, b) \<in> set (gaps_loop fin c m) \<Longrightarrow> b = fin \<or> b \<in> fst ` set m"
proof (induction m arbitrary: c)
  case (Cons x m)
  obtain s e v where "x = (s, e, v)" by (cases x)
  with Cons.prems Cons.IH show ?case by (fastforce split: if_splits)
qed (simp split: if_splits)

lemma get_gaps_end:
  assumes "rm_inv m" "(a, b) \<in> set (get_gaps start fin m)"
  shows "b = fin \<or> b \<in> fst ` pts m"
proof -
  obtain before rest where b: "overlap_begin start m = (before, rest)" "m = before @ rest"
    by (rule overlap_begin_split [OF assms(1)])
  from assms(2) b have "b = fin \<or> b \<in> fst ` set m"
    using gaps_loop_end [of a b fin start rest] by (auto simp: get_gaps_def split: if_splits)
  moreover have "b \<in> fst ` pts m" if bm: "b \<in> fst ` set m"
  proof -
    from bm obtain e v where "(b, e, v) \<in> set m" by auto
    then have "(b, v) \<in> pts m"
      using rm_inv_nonempty [OF assms(1), of "(b, e, v)"] by (auto simp: pts_def)
    then show ?thesis by (rule image_eqI [rotated]) simp
  qed
  ultimately show ?thesis by blast
qed

subsection \<open>What a client relies on\<close>

locale range_map =
  fixes ins :: "'k::linorder \<Rightarrow> 'k \<Rightarrow> 'v \<Rightarrow> 'm \<Rightarrow> 'm"
    and rem :: "'k \<Rightarrow> 'k \<Rightarrow> 'm \<Rightarrow> 'm"
    and points :: "'m \<Rightarrow> ('k \<times> 'v) set"
    and inv :: "'m \<Rightarrow> bool"
  assumes ins_inv: "inv m \<Longrightarrow> inv (ins s e v m)"
    and ins_points: "inv m \<Longrightarrow>
      points (ins s e v m) = {x \<in> points m. fst x < s \<or> e \<le> fst x} \<union> {s ..< e} \<times> {v}"
    and rem_inv: "inv m \<Longrightarrow> inv (rem s e m)"
    and rem_points: "inv m \<Longrightarrow> points (rem s e m) = {x \<in> points m. fst x < s \<or> e \<le> fst x}"
begin

text \<open>Removing each of a list of ranges and inserting it with a new value.\<close>

lemma relabel_points:
  assumes "inv m"
  shows "inv (fold (\<lambda>(s, e, v) m. ins s e (f v) (rem s e m)) xs m) \<and>
    (sorted_wrt (\<lambda>x y. fst (snd x) \<le> fst y) xs \<longrightarrow>
     points (fold (\<lambda>(s, e, v) m. ins s e (f v) (rem s e m)) xs m) =
      {x \<in> points m. \<forall>(s, e, v) \<in> set xs. fst x < s \<or> e \<le> fst x} \<union>
      (\<Union>(s, e, v) \<in> set xs. {s ..< e} \<times> {f v}))"
  using assms
proof (induction xs arbitrary: m)
  case (Cons x xs)
  obtain s e v where x: "x = (s, e, v)" by (cases x)
  let ?m = "ins s e (f v) (rem s e m)"
  have inv: "inv ?m" using Cons.prems by (simp add: rem_inv ins_inv)
  have pm: "points ?m = {x \<in> points m. fst x < s \<or> e \<le> fst x} \<union> {s ..< e} \<times> {f v}"
    using Cons.prems by (auto simp: rem_inv ins_points rem_points)
  have step: "fold (\<lambda>(s, e, v) m. ins s e (f v) (rem s e m)) (x # xs) m =
      fold (\<lambda>(s, e, v) m. ins s e (f v) (rem s e m)) xs ?m" by (simp add: x)
  show ?case
  proof (intro conjI impI)
    assume sorted: "sorted_wrt (\<lambda>x y. fst (snd x) \<le> fst y) (x # xs)"
    then have "\<forall>(s', e', v') \<in> set xs. e \<le> s'" by (auto simp: x)
    then have "{y \<in> {s ..< e} \<times> {f v}. \<forall>(s', e', v') \<in> set xs. fst y < s' \<or> e' \<le> fst y} =
        {s ..< e} \<times> {f v}" by (fastforce intro: less_le_trans)
    moreover have "points (fold (\<lambda>(s, e, v) m. ins s e (f v) (rem s e m)) xs ?m) =
        {x \<in> points ?m. \<forall>(s, e, v) \<in> set xs. fst x < s \<or> e \<le> fst x} \<union>
        (\<Union>(s, e, v) \<in> set xs. {s ..< e} \<times> {f v})"
      using Cons.IH [OF inv] sorted by simp
    ultimately show "points (fold (\<lambda>(s, e, v) m. ins s e (f v) (rem s e m)) (x # xs) m) =
        {y \<in> points m. \<forall>(s, e, v) \<in> set (x # xs). fst y < s \<or> e \<le> fst y} \<union>
        (\<Union>(s, e, v) \<in> set (x # xs). {s ..< e} \<times> {f v})"
      unfolding step pm sep_Un by (auto simp: x)
  qed (use Cons.IH [OF inv] step in simp)
qed auto

text \<open>Inserting twice keeps the later value only; removing what was just inserted leaves the rest.\<close>

lemma rem_ins: "inv m \<Longrightarrow> points (rem s e (ins s e v m)) = points (rem s e m)"
  by (auto simp: ins_inv ins_points rem_points)

end

interpretation rm: range_map rm_insert rm_remove pts rm_inv
  by unfold_locales (simp_all only: rm_insert_eq rm_remove_eq)

subsection \<open>The range map's contract\<close>

text \<open>Sequences of operations, on the map and on the finite map it stands for.\<close>

datatype ('k, 'v) rm_op = RIns 'k 'k 'v | RRem 'k 'k

fun rm_step :: "('k::linorder, 'v) rm_op \<Rightarrow> ('k, 'v) rmap \<Rightarrow> ('k, 'v) rmap" where
  "rm_step (RIns s e v) m = rm_insert s e v m"
| "rm_step (RRem s e) m = rm_remove s e m"

fun fn_step :: "('k::linorder, 'v) rm_op \<Rightarrow> ('k \<Rightarrow> 'v option) \<Rightarrow> 'k \<Rightarrow> 'v option" where
  "fn_step (RIns s e v) f k = (if s \<le> k \<and> k < e then Some v else f k)"
| "fn_step (RRem s e) f k = (if s \<le> k \<and> k < e then None else f k)"

lemma rm_steps_fn:
  "rm_inv m \<Longrightarrow> \<forall>k v. (k, v) \<in> pts m \<longleftrightarrow> f k = Some v \<Longrightarrow>
     rm_inv (fold rm_step ops m) \<and>
     (\<forall>k v. (k, v) \<in> pts (fold rm_step ops m) \<longleftrightarrow> fold fn_step ops f k = Some v)"
proof (induction ops arbitrary: m f)
  case (Cons x ops)
  have "rm_inv (rm_step x m)" using Cons.prems(1) by (cases x) (simp_all add: rm_insert_eq rm_remove_eq)
  moreover have "\<forall>k v. (k, v) \<in> pts (rm_step x m) \<longleftrightarrow> fn_step x f k = Some v"
    using Cons.prems by (cases x) (auto simp: rm_insert_eq rm_remove_eq not_less not_le)
  ultimately show ?case using Cons.IH [of "rm_step x m" "fn_step x f"] by simp
qed simp

text \<open>C21: the range map is the partial function it stands for. After any sequence of \<^verbatim>\<open>insert\<close>
  and \<^verbatim>\<open>remove\<close> (ranges may overlap, touch or be empty), \<^verbatim>\<open>find\<close> at a key gives the value of
  the last operation whose range holds the key: the inserted value, or nothing after a
  removal. Splitting and coalescing are not observable.\<close>

theorem range_map_is_function:
  fixes ops :: "('k::linorder, 'v) rm_op list"
  shows "map_option (\<lambda>x. snd (snd x)) (rm_find k (fold rm_step ops [])) =
    fold fn_step ops (\<lambda>_. None) k"
proof -
  have "rm_inv (fold rm_step ops []) \<and>
     (\<forall>k v. (k, v) \<in> pts (fold rm_step ops []) \<longleftrightarrow> fold fn_step ops (\<lambda>_. None) k = Some v)"
    by (rule rm_steps_fn) simp_all
  then show ?thesis
    using rm_find_eq [of "fold rm_step ops []" k] by (intro option_eq_Some) simp
qed

text \<open>\<^verbatim>\<open>get_gaps\<close> is exact. The gaps it returns for a window are non-empty, lie in the window,
  and together hold exactly the keys of the window that no entry covers.\<close>

theorem get_gaps_exact:
  assumes "rm_inv m"
  shows "(\<Union>(a, b) \<in> set (get_gaps start fin m). {a ..< b}) = {start ..< fin} - fst ` pts m \<and>
    (\<forall>(a, b) \<in> set (get_gaps start fin m). a < b)"
proof -
  have "x \<in> (\<Union>(a, b) \<in> set (get_gaps start fin m). {a ..< b}) \<longleftrightarrow>
      x \<in> {start ..< fin} - fst ` pts m" for x
    using get_gaps_eq(1) [OF assms, of start fin x] by (simp add: split_beta)
  moreover have "\<forall>(a, b) \<in> set (get_gaps start fin m). a < b"
    using get_gaps_eq(2) [OF assms, of start fin] by auto
  ultimately show ?thesis by blast
qed

theorem get_gaps_exact_witness:
  "(\<Union>(a, b) \<in> set (get_gaps (0::nat) 20 [(2, 5, ''r''), (5, 9, ''w''), (12, 30, ''r'')]). {a ..< b}) =
     {0 ..< 20} - fst ` pts [(2, 5, ''r''), (5, 9, ''w''), (12, 30, ''r'')]"
  using get_gaps_exact [of "[(2, 5, ''r''), (5, 9, ''w''), (12, 30, ''r'')]" "0::nat" 20] by simp

end
