(* ===== verification/AddrSpace.thy ===== *)
theory AddrSpace
  imports RangeMap
begin

text \<open>
  The tracker of a sandbox's mappings, \<^verbatim>\<open>core/mmap/mmap.cpp\<close> and \<^verbatim>\<open>addr_space.h\<close>: which
  pages of the sandbox are mapped, with which protection, and where the next mapping goes.
  Page numbers are 64-bit words. An update callback of the C++ code is the list of the
  calls made to it, in order, returned beside the result.
\<close>

unbundle bit_operations_syntax

record map_info =
  mi_prot :: u32
  mi_flags :: u32
  mi_fd :: u32
  mi_offset :: u64

datatype mm_error = MMAP_OK | MMAP_INVAL | MMAP_NOMEM

type_synonym update_call = "u64 \<times> u64 \<times> map_info"

record addr_space =
  as_base :: u64
  as_len :: u64
  as_p2 :: nat
  as_aslr :: bool
  as_rand :: u64
  as_regions :: "(u64, map_info) rmap"

definition to_page :: "addr_space \<Rightarrow> u64 \<Rightarrow> u64" where
  "to_page a addr = drop_bit (as_p2 a) addr"

definition page_mask :: "nat \<Rightarrow> u64" where
  "page_mask p2 = push_bit p2 1 - 1"

definition to_page_ceil :: "addr_space \<Rightarrow> u64 \<Rightarrow> u64" where
  "to_page_ceil a n =
     (let pages = drop_bit (as_p2 a) n
      in if n AND page_mask (as_p2 a) \<noteq> 0 then pages + 1 else pages)"

definition to_addr :: "addr_space \<Rightarrow> u64 \<Rightarrow> u64" where
  "to_addr a page = push_bit (as_p2 a) page"

definition as_is_valid :: "addr_space \<Rightarrow> u64 \<Rightarrow> u64 \<Rightarrow> bool" where
  "as_is_valid a start n =
     (if start < as_base a then False
      else let off = start - as_base a
           in if as_len a < off then False else n \<le> as_len a - off)"

text \<open>\<^verbatim>\<open>std::terminate\<close> ends the process.\<close>

definition check_in_region :: "addr_space \<Rightarrow> u64 \<Rightarrow> u64 \<Rightarrow> unit run" where
  "check_in_region a addr n = check (as_is_valid a (to_page a addr) (to_page_ceil a n))"

text \<open>The loop \<^verbatim>\<open>while (p >>= 1)\<close> of \<^verbatim>\<open>init\<close>.\<close>

lemma half_less: "drop_bit 1 (p :: u64) \<noteq> 0 \<Longrightarrow> unat (drop_bit 1 p) < unat p"
proof -
  assume "drop_bit 1 p \<noteq> 0"
  then have "0 < unat (drop_bit 1 p)" by (simp add: unat_gt_0)
  moreover have "unat (drop_bit 1 p) = unat p div 2"
    by (simp only: unat_drop_bit64 power_one_right)
  ultimately show ?thesis by linarith
qed

function p2_loop :: "u64 \<Rightarrow> nat \<Rightarrow> nat" where
  "p2_loop p n = (let p = drop_bit 1 p in if p = 0 then n else p2_loop p (n + 1))"
  by pat_completeness auto
termination
  by (relation "measure (\<lambda>(p, n). unat p)") (use half_less in auto)

declare p2_loop.simps [simp del]

definition as_init :: "u64 \<Rightarrow> u64 \<Rightarrow> u64 \<Rightarrow> addr_space option" where
  "as_init start n pagesize =
     (if pagesize = 0 \<or> pagesize AND (pagesize - 1) \<noteq> 0 then None
      else let a = \<lparr>as_base = 0, as_len = 0, as_p2 = p2_loop pagesize 0, as_aslr = False,
                    as_rand = 0, as_regions = []\<rparr>
           in Some (a\<lparr>as_base := to_page a start, as_len := to_page_ceil a n\<rparr>))"

definition as_reset :: "addr_space \<Rightarrow> addr_space" where
  "as_reset a = a\<lparr>as_regions := []\<rparr>"

definition enable_aslr :: "u64 \<Rightarrow> addr_space \<Rightarrow> addr_space" where
  "enable_aslr seed a = a\<lparr>as_aslr := True, as_rand := seed\<rparr>"

definition next_rand :: "addr_space \<Rightarrow> u64 \<times> addr_space" where
  "next_rand a =
     (let st = as_rand a + 0x9E3779B97F4A7C15;
          z = (st XOR drop_bit 30 st) * 0xBF58476D1CE4E5B9;
          z = (z XOR drop_bit 27 z) * 0x94D049BB133111EB
      in (z XOR drop_bit 31 z, a\<lparr>as_rand := st\<rparr>))"

definition rand_below :: "u64 \<Rightarrow> addr_space \<Rightarrow> u64 \<times> addr_space" where
  "rand_below n a = (let (r, a) = next_rand a in (r mod n, a))"

text \<open>The loops of \<^verbatim>\<open>find_free\<close>: first gap, sum of positions, gap of the chosen position.\<close>

fun first_gap :: "u64 \<Rightarrow> (u64 \<times> u64) list \<Rightarrow> u64 option" where
  "first_gap pages [] = None"
| "first_gap pages ((s, e) # gs) = (if pages \<le> e - s then Some s else first_gap pages gs)"

fun gap_total :: "u64 \<Rightarrow> u64 \<Rightarrow> (u64 \<times> u64) list \<Rightarrow> u64" where
  "gap_total pages tot [] = tot"
| "gap_total pages tot ((s, e) # gs) =
     gap_total pages (if pages \<le> e - s then tot + (e - s - pages + 1) else tot) gs"

fun pick_gap :: "u64 \<Rightarrow> u64 \<Rightarrow> (u64 \<times> u64) list \<Rightarrow> u64 option" where
  "pick_gap pages idx [] = None"
| "pick_gap pages idx ((s, e) # gs) =
     (if e - s < pages then pick_gap pages idx gs
      else let positions = e - s - pages + 1
           in if idx < positions then Some (s + idx) else pick_gap pages (idx - positions) gs)"

definition find_free :: "addr_space \<Rightarrow> u64 \<Rightarrow> u64 option \<times> addr_space" where
  "find_free a pages =
     (let gaps = get_gaps (as_base a) (as_base a + as_len a) (as_regions a)
      in if \<not> as_aslr a then (first_gap pages gaps, a)
         else let tot = gap_total pages 0 gaps
              in if tot = 0 then (None, a)
                 else let (idx, a) = rand_below tot a in (pick_gap pages idx gaps, a))"

definition MM_FAIL :: u64 where "MM_FAIL = -1"

definition map_any ::
  "u64 \<Rightarrow> u64 \<Rightarrow> map_info \<Rightarrow> addr_space \<Rightarrow> (u64 \<times> addr_space) run" where
  "map_any hint n info a =
     (if n = 0 then Some (MM_FAIL, a)
      else let pages = to_page_ceil a n
           in if pages = 0 then Some (MM_FAIL, a)
      else if hint \<noteq> 0 \<and> hint mod push_bit (as_p2 a) 1 = 0 \<and>
              as_is_valid a (to_page a hint) pages \<and>
              \<not> rm_overlaps (to_page a hint) (to_page a hint + pages) (as_regions a) then
        (let start = to_page a hint;
             a = a\<lparr>as_regions := rm_insert start (start + pages) info (as_regions a)\<rparr>
         in check_in_region a (to_addr a start) n \<bind> (\<lambda>_. Some (to_addr a start, a)))
      else case find_free a pages of
             (None, a) \<Rightarrow> Some (MM_FAIL, a)
           | (Some start, a) \<Rightarrow>
               (let a = a\<lparr>as_regions := rm_insert start (start + pages) info (as_regions a)\<rparr>
                in check_in_region a (to_addr a start) n \<bind> (\<lambda>_. Some (to_addr a start, a))))"

text \<open>The part of an entry in \<open>[start, fin)\<close>, and the callback's arguments for it.\<close>

definition clip :: "u64 \<Rightarrow> u64 \<Rightarrow> (u64, map_info) entry \<Rightarrow> (u64, map_info) entry" where
  "clip start fin x = (case x of (s, e, v) \<Rightarrow> (max s start, min e fin, v))"

definition clip_call :: "addr_space \<Rightarrow> (u64, map_info) entry \<Rightarrow> update_call" where
  "clip_call a x = (case x of (cs, ce, v) \<Rightarrow> (to_addr a cs, to_addr a ce - to_addr a cs, v))"

text \<open>The argument checks that \<^verbatim>\<open>map_at\<close>, \<^verbatim>\<open>unmap\<close> and \<^verbatim>\<open>protect\<close> make in the same way.\<close>

definition args_ok :: "addr_space \<Rightarrow> u64 \<Rightarrow> u64 \<Rightarrow> bool" where
  "args_ok a addr n \<longleftrightarrow> \<not> (addr mod push_bit (as_p2 a) 1 \<noteq> 0 \<or> n = 0) \<and>
     to_page_ceil a n \<noteq> 0 \<and> as_is_valid a (to_page a addr) (to_page_ceil a n)"

definition as_unmap ::
  "bool \<Rightarrow> u64 \<Rightarrow> u64 \<Rightarrow> addr_space \<Rightarrow> mm_error \<times> update_call list \<times> addr_space" where
  "as_unmap ufn addr n a =
     (if \<not> args_ok a addr n then (MMAP_INVAL, [], a)
      else let start = to_page a addr; fin = start + to_page_ceil a n;
               calls = (if ufn then
                          map (clip_call a \<circ> clip start fin) (get_overlapping start fin (as_regions a))
                        else [])
           in (MMAP_OK, calls, a\<lparr>as_regions := rm_remove start fin (as_regions a)\<rparr>))"

definition map_at ::
  "bool \<Rightarrow> u64 \<Rightarrow> u64 \<Rightarrow> map_info \<Rightarrow> addr_space \<Rightarrow>
   (u64 \<times> update_call list \<times> addr_space) run" where
  "map_at ufn addr n info a =
     (if \<not> args_ok a addr n then Some (MM_FAIL, [], a)
      else let start = to_page a addr;
               (_, calls, a) = as_unmap ufn addr n a;
               a = a\<lparr>as_regions := rm_insert start (start + to_page_ceil a n) info (as_regions a)\<rparr>
           in check_in_region a addr n \<bind> (\<lambda>_. Some (addr, calls, a)))"

definition query_page :: "u64 \<Rightarrow> addr_space \<Rightarrow> map_info option" where
  "query_page addr a = map_option (\<lambda>x. snd (snd x)) (rm_find (to_page a addr) (as_regions a))"

definition as_protect ::
  "bool \<Rightarrow> u64 \<Rightarrow> u64 \<Rightarrow> u32 \<Rightarrow> addr_space \<Rightarrow> mm_error \<times> update_call list \<times> addr_space" where
  "as_protect ufn addr n prot a =
     (if \<not> args_ok a addr n then (MMAP_INVAL, [], a)
      else let start = to_page a addr; fin = start + to_page_ceil a n;
               clips = map (clip start fin) (get_overlapping start fin (as_regions a));
               calls = (if ufn then map (clip_call a) clips else [])
           in (MMAP_OK, calls,
               a\<lparr>as_regions := fold (\<lambda>(cs, ce, v) m.
                    rm_insert cs ce (v\<lparr>mi_prot := prot\<rparr>) (rm_remove cs ce m)) clips (as_regions a)\<rparr>))"


subsection \<open>Pages\<close>

lemma unat_to_page: "unat (to_page a x) = unat x div 2 ^ as_p2 a"
  by (simp only: to_page_def unat_drop_bit64)

lemma unat_push1: "p2 < 64 \<Longrightarrow> unat (push_bit p2 1 :: u64) = 2 ^ p2"
  using unat_of_nat64 [of "2 ^ p2"] power_strict_increasing [of p2 64 "2 :: nat"] by simp

lemma page_mask_eq: "page_mask p2 = mask p2"
  by (simp add: page_mask_def mask_eq_exp_minus_1)

lemma unat_to_page_ceil:
  assumes "0 < as_p2 a"
  shows "unat (to_page_ceil a n) = unat n div 2 ^ as_p2 a + (if unat n mod 2 ^ as_p2 a = 0 then 0 else 1)"
proof -
  have m: "n AND page_mask (as_p2 a) = 0 \<longleftrightarrow> unat n mod 2 ^ as_p2 a = 0"
  proof -
    have "n AND page_mask (as_p2 a) = take_bit (as_p2 a) n"
      by (simp add: page_mask_eq take_bit_eq_mask)
    then show ?thesis by (simp only: word_eq_nat_iff unat_take_bit64 unat_0)
  qed
  have "unat n div 2 ^ as_p2 a \<le> unat n div 2 ^ 1"
    using assms by (intro div_le_mono2 power_increasing) auto
  also have "\<dots> < 2 ^ 63" using unat_lt64 [of n] by (simp del: unat_lt64)
  finally have "unat (drop_bit (as_p2 a) n + 1) = unat n div 2 ^ as_p2 a + 1"
    by (subst unat_add64) (simp_all add: unat_drop_bit64 del: drop_bit_eq_div)
  then show ?thesis by (simp add: to_page_ceil_def m unat_drop_bit64 Let_def)
qed

lemma unat_to_addr:
  assumes "unat k * 2 ^ as_p2 a < 2 ^ 64"
  shows "unat (to_addr a k) = unat k * 2 ^ as_p2 a"
  using assms by (simp only: to_addr_def unat_push_bit64)

text \<open>
  A well-formed tracker: its region ends within the address space, and the mapped pages
  lie in it.
\<close>

definition as_inv :: "addr_space \<Rightarrow> bool" where
  "as_inv a \<longleftrightarrow> 0 < as_p2 a \<and> as_p2 a < 64 \<and>
     (unat (as_base a) + unat (as_len a)) * 2 ^ as_p2 a < 2 ^ 64 \<and>
     rm_inv (as_regions a) \<and>
     (\<forall>x \<in> pts (as_regions a). as_base a \<le> fst x \<and> fst x < as_base a + as_len a)"

text \<open>The mapped pages.\<close>

definition as_mapped :: "addr_space \<Rightarrow> u64 set" where
  "as_mapped a = fst ` pts (as_regions a)"

lemma as_inv_top:
  assumes "as_inv a"
  shows "unat (as_base a) + unat (as_len a) < 2 ^ 63"
    "unat (as_base a + as_len a) = unat (as_base a) + unat (as_len a)"
proof -
  have "(unat (as_base a) + unat (as_len a)) * 2 ^ 1 \<le> (unat (as_base a) + unat (as_len a)) * 2 ^ as_p2 a"
    using assms by (intro mult_le_mono2 power_increasing) (auto simp: as_inv_def)
  then show 1: "unat (as_base a) + unat (as_len a) < 2 ^ 63" using assms by (simp add: as_inv_def)
  then show "unat (as_base a + as_len a) = unat (as_base a) + unat (as_len a)"
    by (simp add: unat_nowrap)
qed

lemma as_is_valid_iff:
  assumes "as_inv a"
  shows "as_is_valid a s n \<longleftrightarrow>
    unat (as_base a) \<le> unat s \<and> unat s + unat n \<le> unat (as_base a) + unat (as_len a)"
proof (cases "as_base a \<le> s")
  case True
  then have b: "unat (as_base a) \<le> unat s" by (simp add: word_le_nat_alt)
  then have off: "unat (s - as_base a) = unat s - unat (as_base a)" by (rule unat_sub64')
  show ?thesis
  proof (cases "as_len a < s - as_base a")
    case out: True
    then show ?thesis using True b off by (auto simp: as_is_valid_def word_less_nat_alt)
  next
    case False
    then have "unat (as_len a - (s - as_base a)) = unat (as_len a) - unat (s - as_base a)"
      by (simp add: unat_sub64 not_less)
    then show ?thesis using True False b off
      by (auto simp: as_is_valid_def word_le_nat_alt word_less_nat_alt not_less)
  qed
next
  case False
  then show ?thesis by (auto simp: as_is_valid_def word_le_nat_alt not_le word_less_nat_alt)
qed

text \<open>A valid run of pages does not wrap.\<close>

lemma run_eq:
  assumes "as_inv a" "as_is_valid a s n"
  shows "unat (s + n) = unat s + unat n"
    "k \<in> {s ..< s + n} \<longleftrightarrow> unat s \<le> unat k \<and> unat k < unat s + unat n"
proof -
  show 1: "unat (s + n) = unat s + unat n"
    using as_is_valid_iff [OF assms(1)] assms(2) as_inv_top [OF assms(1)] by (simp add: unat_nowrap)
  show "k \<in> {s ..< s + n} \<longleftrightarrow> unat s \<le> unat k \<and> unat k < unat s + unat n"
    by (simp add: word_le_nat_alt word_less_nat_alt 1)
qed

lemma run_in_region:
  assumes "as_inv a" "as_is_valid a s n" "k \<in> {s ..< s + n}"
  shows "as_base a \<le> k" "k < as_base a + as_len a"
  using run_eq(2) [OF assms(1,2), of k] assms(3) as_is_valid_iff [OF assms(1)] assms(2)
    as_inv_top [OF assms(1)] by (auto simp: word_le_nat_alt word_less_nat_alt)

subsection \<open>Placement\<close>

text \<open>A free run of pages.\<close>

definition free_run :: "addr_space \<Rightarrow> u64 \<Rightarrow> u64 \<Rightarrow> bool" where
  "free_run a s n \<longleftrightarrow> as_is_valid a s n \<and> {s ..< s + n} \<inter> as_mapped a = {}"

definition as_gaps :: "addr_space \<Rightarrow> (u64 \<times> u64) list" where
  "as_gaps a = get_gaps (as_base a) (as_base a + as_len a) (as_regions a)"

lemma gap_free_run:
  assumes inv: "as_inv a" and g: "(x, y) \<in> set (as_gaps a)" and s: "x \<le> s" and n: "unat s + unat n \<le> unat y"
  shows "free_run a s n"
proof -
  have rm: "rm_inv (as_regions a)" using inv by (simp add: as_inv_def)
  from get_gaps_eq(2) [OF rm, of "as_base a" "as_base a + as_len a"] g
  have b: "as_base a \<le> x" "y \<le> as_base a + as_len a"
    by (auto simp: as_gaps_def)
  have v: "as_is_valid a s n"
    using b s n as_inv_top [OF inv] by (simp add: as_is_valid_iff [OF inv] word_le_nat_alt)
  have "k \<notin> as_mapped a" if k: "k \<in> {s ..< s + n}" for k
  proof -
    have "x \<le> k \<and> k < y" using k run_eq(2) [OF inv v] s n by (auto simp: word_le_nat_alt word_less_nat_alt)
    then have "\<exists>(x, y) \<in> set (as_gaps a). x \<le> k \<and> k < y" using g by blast
    then show ?thesis using get_gaps_eq(1) [OF rm] by (simp add: as_gaps_def as_mapped_def)
  qed
  then show ?thesis using v by (auto simp: free_run_def)
qed

lemma free_run_gap:
  assumes inv: "as_inv a" and r: "free_run a s n" and n: "n \<noteq> 0"
  obtains x y where "(x, y) \<in> set (as_gaps a)" "x \<le> s" "unat s + unat n \<le> unat y"
proof -
  have rm: "rm_inv (as_regions a)" using inv by (simp add: as_inv_def)
  have v: "as_is_valid a s n" and free: "{s ..< s + n} \<inter> as_mapped a = {}"
    using r by (auto simp: free_run_def)
  have "s \<in> {s ..< s + n}" unfolding run_eq(2) [OF inv v] using n by (simp add: unat_gt_0)
  then have "as_base a \<le> s \<and> s < as_base a + as_len a \<and> s \<notin> fst ` pts (as_regions a)"
    using run_in_region [OF inv v] free by (auto simp: as_mapped_def)
  then obtain x y where g: "(x, y) \<in> set (as_gaps a)" "x \<le> s" "s < y"
    using get_gaps_eq(1) [OF rm, of "as_base a" "as_base a + as_len a" s] by (auto simp: as_gaps_def)
  have "unat s + unat n \<le> unat y"
  proof (rule ccontr)
    assume "\<not> ?thesis"
    then have "y \<in> {s ..< s + n}" using g(3) run_eq(2) [OF inv v] by (simp add: word_less_nat_alt)
    then have "y \<notin> fst ` pts (as_regions a)" "y < as_base a + as_len a"
      using free run_in_region(2) [OF inv v] unfolding as_mapped_def by blast+
    with get_gaps_end [OF rm] g(1) show False unfolding as_gaps_def by blast
  qed
  with g show thesis using that by blast
qed


text \<open>The number of positions at which a run of \<open>n\<close> pages fits in the gaps.\<close>

definition gap_len :: "u64 \<times> u64 \<Rightarrow> nat" where
  "gap_len g = unat (snd g) - unat (fst g)"

definition positions :: "nat \<Rightarrow> u64 \<times> u64 \<Rightarrow> nat" where
  "positions n g = (if n \<le> gap_len g then gap_len g - n + 1 else 0)"

lemma gap_sub:
  "fst g < snd g \<Longrightarrow> unat (snd g - fst g) = gap_len g"
  by (simp add: gap_len_def unat_sub64 less_imp_le)

lemma first_gap_eq:
  assumes "\<forall>g \<in> set gs. fst g < snd g"
  shows "case first_gap pages gs of
      None \<Rightarrow> \<forall>g \<in> set gs. gap_len g < unat pages
    | Some s \<Rightarrow> \<exists>e. (s, e) \<in> set gs \<and> unat pages \<le> gap_len (s, e)"
  using assms
proof (induction gs)
  case (Cons g gs)
  obtain s e where g: "g = (s, e)" by (cases g)
  have len: "unat (e - s) = gap_len (s, e)" using Cons.prems g gap_sub [of g] by simp
  show ?case
  proof (cases "pages \<le> e - s")
    case True
    then show ?thesis using len g by (auto simp: word_le_nat_alt)
  next
    case False
    then show ?thesis using Cons len g
      by (auto simp: word_le_nat_alt not_le split: option.splits)
  qed
qed simp

lemma positions_word:
  assumes "fst g < snd g" "unat pages \<le> gap_len g" "pages \<noteq> 0"
  shows "unat (snd g - fst g - pages + 1) = positions (unat pages) g"
proof -
  have l: "unat (snd g - fst g) = gap_len g" by (rule gap_sub [OF assms(1)])
  then have "unat (snd g - fst g - pages) = gap_len g - unat pages"
    using assms(2) by (simp add: unat_sub64')
  moreover have "0 < unat pages" "gap_len g < 2 ^ 64"
    using assms(3) l unat_lt64 [of "snd g - fst g"] by (simp_all add: unat_gt_0)
  ultimately show ?thesis using assms(2) by (subst unat_add64) (auto simp: positions_def)
qed

lemma gap_total_eq:
  assumes "\<forall>g \<in> set gs. fst g < snd g" "pages \<noteq> 0"
  shows "gap_total pages tot gs = tot + of_nat (sum_list (map (positions (unat pages)) gs))"
  using assms(1)
proof (induction gs arbitrary: tot)
  case (Cons g gs)
  obtain s e where g: "g = (s, e)" by (cases g)
  have len: "unat (e - s) = gap_len (s, e)" using Cons.prems g gap_sub [of g] by simp
  show ?case
  proof (cases "pages \<le> e - s")
    case True
    then have fits: "unat pages \<le> gap_len g" using len g by (simp add: word_le_nat_alt)
    have pw: "positions (unat pages) g = unat (e - s - pages + 1)"
      using positions_word [OF _ fits assms(2)] Cons.prems g by simp
    have "e - s - pages + 1 = of_nat (positions (unat pages) g)" unfolding pw by simp
    then show ?thesis using Cons True g by (simp add: algebra_simps)
  next
    case False
    then have "positions (unat pages) g = 0" using len g by (simp add: positions_def word_le_nat_alt)
    then show ?thesis using Cons False g by simp
  qed
qed simp

lemma pick_gap_eq:
  assumes "\<forall>g \<in> set gs. fst g < snd g" "pages \<noteq> 0"
    "unat idx < sum_list (map (positions (unat pages)) gs)"
  shows "\<exists>g \<in> set gs. \<exists>i. unat i + unat pages \<le> gap_len g \<and> pick_gap pages idx gs = Some (fst g + i)"
  using assms(1,3)
proof (induction gs arbitrary: idx)
  case (Cons g gs)
  obtain s e where g: "g = (s, e)" by (cases g)
  have len: "unat (e - s) = gap_len g" using Cons.prems g gap_sub [of g] by simp
  show ?case
  proof (cases "pages \<le> e - s")
    case False
    then have "positions (unat pages) g = 0" using len g by (simp add: positions_def word_le_nat_alt)
    then show ?thesis using Cons.IH [of idx] Cons.prems False g by (auto simp: not_le)
  next
    case True
    then have fits: "unat pages \<le> gap_len g" using len g by (simp add: word_le_nat_alt)
    have pos: "unat (e - s - pages + 1) = positions (unat pages) g"
      using positions_word [of g pages] fits assms(2) Cons.prems g by simp
    show ?thesis
    proof (cases "idx < e - s - pages + 1")
      case here: True
      then have "unat idx < gap_len g - unat pages + 1"
        using pos fits by (simp add: word_less_nat_alt positions_def)
      then have "unat idx + unat pages \<le> gap_len g" using fits by linarith
      then show ?thesis using True here g by (intro bexI [of _ g] exI [of _ idx]) (auto simp: not_less)
    next
      case False
      then have le: "positions (unat pages) g \<le> unat idx" using pos by (simp add: word_less_nat_alt)
      then have sub: "unat (idx - (e - s - pages + 1)) = unat idx - positions (unat pages) g"
        using pos by (simp add: unat_sub64')
      have "unat (idx - (e - s - pages + 1)) < sum_list (map (positions (unat pages)) gs)"
        unfolding sub using Cons.prems(2) le by simp
      then show ?thesis using Cons.IH [of "idx - (e - s - pages + 1)"] Cons.prems(1) True False g
        by (auto simp: not_less Let_def)
    qed
  qed
qed simp

lemma gaps_loop_past: "fin \<le> c \<Longrightarrow> \<forall>x \<in> set m. c \<le> fst x \<Longrightarrow> gaps_loop fin c m = []"
  by (cases m) auto

lemma gaps_loop_sum:
  fixes fin :: u64
  assumes "rm_inv m" "\<forall>x \<in> set m. cursor < fst (snd x)" "cursor \<le> fin"
  shows "sum_list (map gap_len (gaps_loop fin cursor m)) \<le> unat fin - unat cursor"
  using assms
proof (induction m arbitrary: cursor)
  case (Cons x m)
  obtain s e v where x: "x = (s, e, v)" by (cases x)
  have m: "rm_inv m" "\<forall>y \<in> set m. e \<le> fst y" "s < e" "cursor < e" using Cons.prems x by auto
  have nxt: "\<forall>y \<in> set m. e < fst (snd y)"
  proof
    fix y
    assume "y \<in> set m"
    with m(2) rm_inv_nonempty [OF m(1), of y] show "e < fst (snd y)" by auto
  qed
  show ?case
  proof (cases "s < fin")
    case False
    then show ?thesis using x by (simp add: gap_len_def)
  next
    case True
    have "sum_list (map gap_len (gaps_loop fin e m)) \<le> unat fin - unat e"
      using Cons.IH [OF m(1) nxt] gaps_loop_past [of fin e m] m(2) by (cases "e \<le> fin") auto
    moreover have "gap_len (cursor, s) = unat s - unat cursor" by (simp add: gap_len_def)
    ultimately show ?thesis using True m(3,4) x
      by (auto simp: word_less_nat_alt word_le_nat_alt)
  qed
qed (simp add: gap_len_def)

lemma get_gaps_sum:
  fixes fin :: u64
  assumes "rm_inv m"
  shows "sum_list (map gap_len (get_gaps start fin m)) \<le> unat fin - unat start"
proof (cases "start < fin")
  case True
  obtain before rest where b: "overlap_begin start m = (before, rest)" "m = before @ rest"
    "\<forall>x \<in> set rest. start < fst (snd x)"
    by (rule overlap_begin_split [OF assms])
  then have "rm_inv rest" using assms by simp
  from gaps_loop_sum [OF this b(3) less_imp_le [OF True]] show ?thesis
    using True b(1) by (simp add: get_gaps_def leD)
qed (simp add: get_gaps_def leI)

lemma positions_le: "0 < n \<Longrightarrow> sum_list (map (positions n) gs) \<le> sum_list (map gap_len gs)"
  by (induction gs) (auto simp: positions_def)

lemma find_free_eq:
  assumes inv: "as_inv a" and n: "pages \<noteq> 0"
  shows "\<exists>r rnd. find_free a pages = (r, a\<lparr>as_rand := rnd\<rparr>) \<and>
    (case r of None \<Rightarrow> \<forall>s. \<not> free_run a s pages | Some s \<Rightarrow> free_run a s pages)"
proof -
  have rm: "rm_inv (as_regions a)" using inv by (simp add: as_inv_def)
  let ?gs = "as_gaps a"
  have ne: "\<forall>g \<in> set ?gs. fst g < snd g"
    using get_gaps_eq(2) [OF rm, of "as_base a" "as_base a + as_len a"]
    by (auto simp: as_gaps_def split_beta)
  have fit: "free_run a s pages" if "(x, y) \<in> set ?gs" "s = x + i" "unat i + unat pages \<le> gap_len (x, y)" for x y s i
  proof (rule gap_free_run [OF inv that(1)])
    have "unat i + unat pages \<le> unat y - unat x" using that(3) by (simp add: gap_len_def)
    moreover have "0 < unat pages" using n by (simp add: unat_gt_0)
    ultimately have "unat x + unat i + unat pages \<le> unat y" by linarith
    moreover from this have "unat x + unat i < 18446744073709551616"
      using unat_lt64 [of y] by linarith
    then have "unat (x + i) = unat x + unat i" by (intro unat_add64) simp
    ultimately show "unat s + unat pages \<le> unat y" "x \<le> s" by (simp_all add: that(2) word_le_nat_alt)
  qed
  have none: "\<not> free_run a s pages" if "\<forall>g \<in> set ?gs. gap_len g < unat pages" for s
  proof
    assume "free_run a s pages"
    then obtain x y where "(x, y) \<in> set ?gs" "x \<le> s" "unat s + unat pages \<le> unat y"
      using free_run_gap [OF inv _ n] by blast
    with that show False by (fastforce simp: gap_len_def word_le_nat_alt)
  qed
  let ?sum = "sum_list (map (positions (unat pages)) ?gs)"
  have "?sum \<le> sum_list (map gap_len ?gs)" using n by (intro positions_le) (simp add: unat_gt_0)
  also have "\<dots> \<le> unat (as_base a + as_len a) - unat (as_base a)"
    unfolding as_gaps_def by (rule get_gaps_sum [OF rm])
  finally have "?sum < 18446744073709551616"
    using unat_lt64 [of "as_base a + as_len a"] by linarith
  then have sum: "?sum < 2 ^ 64" by simp
  have tot: "unat (gap_total pages 0 ?gs) = ?sum"
    unfolding gap_total_eq [OF ne n] using sum by (simp add: unat_of_nat64)
  show ?thesis
  proof (cases "as_aslr a")
    case False
    have "case first_gap pages ?gs of None \<Rightarrow> \<forall>s. \<not> free_run a s pages | Some s \<Rightarrow> free_run a s pages"
      using first_gap_eq [OF ne, of pages] none fit [of _ _ _ 0] by (auto split: option.splits)
    moreover have "find_free a pages = (first_gap pages ?gs, a\<lparr>as_rand := as_rand a\<rparr>)"
      using False by (simp add: find_free_def as_gaps_def)
    ultimately show ?thesis by blast
  next
    case True
    show ?thesis
    proof (cases "?sum = 0")
      case zero: True
      with tot have "unat (gap_total pages 0 ?gs) = unat (0 :: u64)" by (simp only: unat_0)
      then have "gap_total pages 0 ?gs = 0" by (simp only: word_eq_nat_iff)
      then have "find_free a pages = (None, a\<lparr>as_rand := as_rand a\<rparr>)"
        using True by (simp add: find_free_def as_gaps_def)
      moreover have "\<forall>g \<in> set ?gs. gap_len g < unat pages"
      proof
        fix g
        assume "g \<in> set ?gs"
        then have "positions (unat pages) g = 0" using zero by simp
        then show "gap_len g < unat pages" by (simp add: positions_def split: if_splits)
      qed
      ultimately show ?thesis using none by (intro exI [of _ None] exI [of _ "as_rand a"]) simp
    next
      case pos: False
      then have tot0: "gap_total pages 0 ?gs \<noteq> 0" using tot by auto
      obtain r a' where nr: "next_rand a = (r, a')" by (cases "next_rand a")
      then have a': "a' = a\<lparr>as_rand := as_rand a'\<rparr>" by (auto simp: next_rand_def Let_def)
      let ?idx = "r mod gap_total pages 0 ?gs"
      have "0 < ?sum" using pos by (simp only: neq0_conv)
      then have "unat ?idx < ?sum" by (simp only: unat_mod64 tot mod_less_divisor)
      from pick_gap_eq [OF ne n this] obtain x y i where
        p: "(x, y) \<in> set ?gs" "unat i + unat pages \<le> gap_len (x, y)"
        "pick_gap pages ?idx ?gs = Some (x + i)" by auto
      have "find_free a pages = (Some (x + i), a\<lparr>as_rand := as_rand a'\<rparr>)"
        using True tot0 nr p(3) a' by (simp add: find_free_def as_gaps_def rand_below_def)
      then show ?thesis using fit [OF p(1) refl p(2)] by auto
    qed
  qed
qed


subsection \<open>Mapping, unmapping, protecting\<close>

text \<open>Operations change the set of mapped pages only; \<open>same_region\<close> keeps the geometry.\<close>

definition same_region :: "addr_space \<Rightarrow> addr_space \<Rightarrow> bool" where
  "same_region a b \<longleftrightarrow> as_base a = as_base b \<and> as_len a = as_len b \<and> as_p2 a = as_p2 b"

lemma same_region_simps [simp]:
  "same_region a a" "same_region (a\<lparr>as_regions := m\<rparr>) b = same_region a b"
  "same_region (a\<lparr>as_rand := r\<rparr>) b = same_region a b"
  by (simp_all add: same_region_def)

lemma same_region_pages:
  assumes "same_region a b"
  shows "to_page a = to_page b" "to_page_ceil a = to_page_ceil b" "to_addr a = to_addr b"
    "as_is_valid a = as_is_valid b"
  using assms by (auto simp: fun_eq_iff same_region_def to_page_def to_page_ceil_def to_addr_def
      as_is_valid_def)

lemma update_pages [simp]:
  "to_page (a\<lparr>as_regions := m\<rparr>) = to_page a" "to_page_ceil (a\<lparr>as_regions := m\<rparr>) = to_page_ceil a"
  "to_addr (a\<lparr>as_regions := m\<rparr>) = to_addr a" "as_is_valid (a\<lparr>as_regions := m\<rparr>) = as_is_valid a"
  "to_page (a\<lparr>as_rand := r\<rparr>) = to_page a" "to_page_ceil (a\<lparr>as_rand := r\<rparr>) = to_page_ceil a"
  "to_addr (a\<lparr>as_rand := r\<rparr>) = to_addr a" "as_is_valid (a\<lparr>as_rand := r\<rparr>) = as_is_valid a"
  by (rule same_region_pages; simp)+

text \<open>A page back and forth.\<close>

lemma to_page_to_addr:
  assumes inv: "as_inv a" and v: "as_is_valid a s n" "n \<noteq> 0"
  shows "to_page a (to_addr a s) = s" "unat (to_addr a s) = unat s * 2 ^ as_p2 a"
    "unat (to_addr a s) + unat n * 2 ^ as_p2 a < 2 ^ 64"
proof -
  have "unat s + unat n \<le> unat (as_base a) + unat (as_len a)"
    using v(1) as_is_valid_iff [OF inv] by simp
  then have "(unat s + unat n) * 2 ^ as_p2 a \<le> (unat (as_base a) + unat (as_len a)) * 2 ^ as_p2 a"
    by (rule mult_le_mono1)
  then have le: "unat s * 2 ^ as_p2 a + unat n * 2 ^ as_p2 a < 2 ^ 64"
    using inv unfolding as_inv_def by (metis add_mult_distrib le_less_trans)
  then have "unat s * 2 ^ as_p2 a < 2 ^ 64" by linarith
  then show 1: "unat (to_addr a s) = unat s * 2 ^ as_p2 a" by (rule unat_to_addr)
  show "to_page a (to_addr a s) = s" by (simp only: word_eq_nat_iff unat_to_page 1) simp
  show "unat (to_addr a s) + unat n * 2 ^ as_p2 a < 2 ^ 64" using le by (simp only: 1)
qed

lemma to_page_ceil_0: "0 < as_p2 a \<Longrightarrow> to_page_ceil a n = 0 \<longleftrightarrow> n = 0"
proof -
  assume p: "0 < as_p2 a"
  define d r where "d = unat n div 2 ^ as_p2 a" and "r = unat n mod 2 ^ as_p2 a"
  have "unat n = 2 ^ as_p2 a * d + r" by (simp add: d_def r_def)
  then have "unat n = 0 \<longleftrightarrow> d = 0 \<and> r = 0" by simp
  also have "\<dots> \<longleftrightarrow> d + (if r = 0 then 0 else 1) = 0" by simp
  finally have "unat (to_page_ceil a n) = 0 \<longleftrightarrow> unat n = 0"
    unfolding unat_to_page_ceil [OF p] d_def r_def by (rule sym)
  then show ?thesis by (simp only: word_eq_nat_iff unat_0)
qed

lemma as_inv_insert:
  assumes inv: "as_inv a" and v: "as_is_valid a s n"
  shows "as_inv (a\<lparr>as_regions := rm_insert s (s + n) info (as_regions a)\<rparr>)"
    "pts (rm_insert s (s + n) info (as_regions a)) =
       {x \<in> pts (as_regions a). fst x \<notin> {s ..< s + n}} \<union> {s ..< s + n} \<times> {info}"
proof -
  have rm: "rm_inv (as_regions a)" using inv by (simp add: as_inv_def)
  show p: "pts (rm_insert s (s + n) info (as_regions a)) =
       {x \<in> pts (as_regions a). fst x \<notin> {s ..< s + n}} \<union> {s ..< s + n} \<times> {info}"
    by (auto simp: rm_insert_eq [OF rm] not_less not_le)
  have "as_base a \<le> fst x \<and> fst x < as_base a + as_len a"
    if "x \<in> pts (rm_insert s (s + n) info (as_regions a))" for x
    using that run_in_region [OF inv v, of "fst x"] inv unfolding p as_inv_def by auto
  then show "as_inv (a\<lparr>as_regions := rm_insert s (s + n) info (as_regions a)\<rparr>)"
    using inv rm_insert_eq(1) [OF rm] by (simp add: as_inv_def)
qed

lemma map_any_cases:
  assumes inv: "as_inv a" and n: "n \<noteq> 0"
  obtains
    (mapped) s a' where "map_any hint n info a = Some (to_addr a s, a')"
      "free_run a s (to_page_ceil a n)" "as_inv a'" "same_region a' a"
      "pts (as_regions a') = pts (as_regions a) \<union> {s ..< s + to_page_ceil a n} \<times> {info}"
  | (full) a' where "map_any hint n info a = Some (MM_FAIL, a')" "as_inv a'" "same_region a' a"
      "as_regions a' = as_regions a" "\<forall>s. \<not> free_run a s (to_page_ceil a n)"
proof -
  let ?n = "to_page_ceil a n"
  have rm: "rm_inv (as_regions a)" and n0: "?n \<noteq> 0"
    using inv n by (auto simp: as_inv_def to_page_ceil_0)
  have step: "check_in_region (b\<lparr>as_regions := m\<rparr>) (to_addr a s) n = Some ()"
    if "free_run a s ?n" "same_region b a" for s b m
    using to_page_to_addr(1) [OF inv, of s ?n] that n0 same_region_pages [OF that(2)]
    by (simp add: check_in_region_def free_run_def)
  have upd: "as_inv (b\<lparr>as_regions := rm_insert s (s + ?n) info (as_regions b)\<rparr>)"
    "same_region (b\<lparr>as_regions := rm_insert s (s + ?n) info (as_regions b)\<rparr>) a"
    "pts (rm_insert s (s + ?n) info (as_regions b)) =
       pts (as_regions a) \<union> {s ..< s + ?n} \<times> {info}"
    if "free_run a s ?n" "as_inv b" "same_region b a" "as_regions b = as_regions a" for s b
  proof -
    have v: "as_is_valid b s ?n" using that same_region_pages [OF that(3)] by (simp add: free_run_def)
    have "{x \<in> pts (as_regions a). fst x \<notin> {s ..< s + ?n}} = pts (as_regions a)"
      using that(1) unfolding free_run_def as_mapped_def by blast
    then show "pts (rm_insert s (s + ?n) info (as_regions b)) =
       pts (as_regions a) \<union> {s ..< s + ?n} \<times> {info}"
      unfolding as_inv_insert(2) [OF that(2) v] by (simp only: that(4))
  qed (use as_inv_insert [OF that(2), of s ?n info] that same_region_pages [OF that(3)]
      in \<open>simp_all add: free_run_def\<close>)
  show thesis
  proof (cases "hint \<noteq> 0 \<and> hint mod push_bit (as_p2 a) 1 = 0 \<and> as_is_valid a (to_page a hint) ?n \<and>
      \<not> rm_overlaps (to_page a hint) (to_page a hint + ?n) (as_regions a)")
    case True
    let ?s = "to_page a hint"
    have f: "free_run a ?s ?n" using True rm_overlaps_eq [OF rm]
      by (force simp: free_run_def as_mapped_def)
    show thesis
      using mapped [OF _ f upd(1,2) [OF f inv]] upd(3) [OF f inv] step [OF f, of a] n n0 True
      by (simp add: map_any_def Let_def)
  next
    case False
    obtain r rnd where ff: "find_free a ?n = (r, a\<lparr>as_rand := rnd\<rparr>)"
      "case r of None \<Rightarrow> \<forall>s. \<not> free_run a s ?n | Some s \<Rightarrow> free_run a s ?n"
      using find_free_eq [OF inv n0] by blast
    let ?b = "a\<lparr>as_rand := rnd\<rparr>"
    have b: "as_inv ?b" using inv by (simp add: as_inv_def)
    show thesis
    proof (cases r)
      case None
      then have "map_any hint n info a = Some (MM_FAIL, ?b)"
        using ff(1)
        by (simp only: map_any_def Let_def n n0 False if_False prod.case option.case simp_thms)
      then show thesis using full b ff(2) None by simp
    next
      case (Some s)
      then have f: "free_run a s ?n" using ff(2) by simp
      have "map_any hint n info a =
          Some (to_addr a s, ?b\<lparr>as_regions := rm_insert s (s + ?n) info (as_regions ?b)\<rparr>)"
        unfolding map_any_def Let_def if_not_P [OF n] if_not_P [OF n0] if_not_P [OF False] ff(1) Some
        using step [OF f, of ?b] by simp
      then show thesis using mapped [OF _ f upd(1,2) [OF f b]] upd(3) [OF f b] by simp
    qed
  qed
qed

lemma as_remove:
  assumes inv: "as_inv a"
  shows "as_inv (a\<lparr>as_regions := rm_remove s e (as_regions a)\<rparr>)"
    "pts (rm_remove s e (as_regions a)) = {x \<in> pts (as_regions a). fst x \<notin> {s ..< e}}"
proof -
  have rm: "rm_inv (as_regions a)" using inv by (simp add: as_inv_def)
  show p: "pts (rm_remove s e (as_regions a)) = {x \<in> pts (as_regions a). fst x \<notin> {s ..< e}}"
    by (auto simp: rm_remove_eq [OF rm] not_less not_le)
  show "as_inv (a\<lparr>as_regions := rm_remove s e (as_regions a)\<rparr>)"
    using inv rm_remove_eq [OF rm] by (simp add: as_inv_def)
qed

text \<open>The pages of \<open>n\<close> bytes from \<open>addr\<close> on.\<close>

definition page_run :: "addr_space \<Rightarrow> u64 \<Rightarrow> u64 \<Rightarrow> u64 set" where
  "page_run a addr n = {to_page a addr ..< to_page a addr + to_page_ceil a n}"

lemma as_unmap_eq:
  assumes inv: "as_inv a" and ok: "args_ok a addr n"
  obtains calls a' where "as_unmap ufn addr n a = (MMAP_OK, calls, a')" "as_inv a'"
    "same_region a' a" "as_rand a' = as_rand a" "as_aslr a' = as_aslr a"
    "pts (as_regions a') = {x \<in> pts (as_regions a). fst x \<notin> page_run a addr n}"
    "ufn \<Longrightarrow> calls = map (clip_call a \<circ> clip (to_page a addr) (to_page a addr + to_page_ceil a n))
       (get_overlapping (to_page a addr) (to_page a addr + to_page_ceil a n) (as_regions a))"
    "\<not> ufn \<Longrightarrow> calls = []"
  using that ok as_remove [OF inv] by (auto simp: as_unmap_def Let_def page_run_def)

lemma map_at_eq:
  assumes inv: "as_inv a" and ok: "args_ok a addr n"
  obtains calls a' where "map_at ufn addr n info a = Some (addr, calls, a')" "as_inv a'"
    "same_region a' a"
    "pts (as_regions a') = {x \<in> pts (as_regions a). fst x \<notin> page_run a addr n} \<union>
       page_run a addr n \<times> {info}"
    "as_unmap ufn addr n a = (MMAP_OK, calls, snd (snd (as_unmap ufn addr n a)))"
proof -
  obtain calls b where b: "as_unmap ufn addr n a = (MMAP_OK, calls, b)" "as_inv b" "same_region b a"
    "pts (as_regions b) = {x \<in> pts (as_regions a). fst x \<notin> page_run a addr n}"
    by (rule as_unmap_eq [OF inv ok, of ufn]) blast
  note pg = same_region_pages [OF b(3)]
  let ?s = "to_page a addr" and ?n = "to_page_ceil a n"
  have v: "as_is_valid b ?s ?n" using ok pg by (simp add: args_ok_def)
  let ?a = "b\<lparr>as_regions := rm_insert ?s (?s + ?n) info (as_regions b)\<rparr>"
  have "check_in_region ?a addr n = Some ()"
    using ok pg by (simp add: check_in_region_def args_ok_def)
  then have "map_at ufn addr n info a = Some (addr, calls, ?a)"
    using ok b(1) pg by (simp add: map_at_def Let_def)
  moreover have "pts (as_regions ?a) = {x \<in> pts (as_regions a). fst x \<notin> page_run a addr n} \<union>
       page_run a addr n \<times> {info}"
    using as_inv_insert(2) [OF b(2) v, of info] b(4) by (auto simp: page_run_def)
  ultimately show thesis using that as_inv_insert(1) [OF b(2) v, of info] b(1,3) by simp
qed


subsection \<open>Clipped entries\<close>

lemma clips_eq:
  assumes rm: "rm_inv m" and se: "start < fin"
  defines "cs \<equiv> map (clip start fin) (get_overlapping start fin m)"
  shows "rm_inv cs" "pts cs = {x \<in> pts m. start \<le> fst x \<and> fst x < fin}"
    "\<And>s e v. (s, e, v) \<in> set cs \<Longrightarrow> start \<le> s \<and> s < e \<and> e \<le> fin"
proof -
  have ov: "get_overlapping start fin m = filter (\<lambda>x. fst x < fin \<and> start < fst (snd x)) m"
    using se by (simp add: get_overlapping_eq [OF rm])
  show el: "start \<le> s \<and> s < e \<and> e \<le> fin" if se1: "(s, e, v) \<in> set cs" for s e v
  proof -
    from se1 obtain s0 e0 v0 where m: "(s0, e0, v0) \<in> set m" "s0 < fin" "start < e0"
      "s = max s0 start" "e = min e0 fin"
      by (auto simp: cs_def ov clip_def)
    moreover have "s0 < e0" using rm_inv_nonempty [OF rm m(1)] by simp
    ultimately show ?thesis using se by (auto simp: max_def min_def)
  qed
  have "sorted_wrt (\<lambda>x y. fst (snd x) \<le> fst y) m" using rm by (simp add: rm_inv_def)
  then have "sorted_wrt (\<lambda>x y. fst (snd x) \<le> fst y) (filter (\<lambda>x. fst x < fin \<and> start < fst (snd x)) m)"
    by (rule sorted_wrt_filter)
  then have "sorted_wrt (\<lambda>x y. fst (snd x) \<le> fst y) cs"
    unfolding cs_def ov sorted_wrt_map
    by (rule sorted_wrt_mono_rel [rotated]) (auto simp: clip_def min_def max_def split: prod.splits)
  then show "rm_inv cs" using el by (fastforce simp: rm_inv_def)
  show "pts cs = {x \<in> pts m. start \<le> fst x \<and> fst x < fin}"
  proof (intro set_eqI iffI)
    fix x
    assume "x \<in> pts cs"
    then show "x \<in> {x \<in> pts m. start \<le> fst x \<and> fst x < fin}"
      by (cases x) (auto simp: pts_def cs_def ov clip_def, blast)
  next
    fix x
    assume x: "x \<in> {x \<in> pts m. start \<le> fst x \<and> fst x < fin}"
    then obtain s e where e: "(s, e, snd x) \<in> set m" "s \<le> fst x" "fst x < e"
      by (auto simp: pts_def)
    have "(max s start, min e fin, snd x) \<in> set cs"
      using e x unfolding cs_def ov set_map
      by (intro image_eqI [of _ _ "(s, e, snd x)"]) (auto simp: clip_def)
    moreover have "max s start \<le> fst x" "fst x < min e fin" using e x by auto
    ultimately have "(fst x, snd x) \<in> pts cs" unfolding pts_def by blast
    then show "x \<in> pts cs" by simp
  qed
qed

lemma query_iff:
  "as_inv a \<Longrightarrow> query_page q a = Some i \<longleftrightarrow> (to_page a q, i) \<in> pts (as_regions a)"
  unfolding query_page_def by (rule rm_find_eq) (simp add: as_inv_def)

lemma query_eqI:
  "as_inv a \<Longrightarrow> (\<And>i. (to_page a q, i) \<in> pts (as_regions a) \<longleftrightarrow> r = Some i) \<Longrightarrow> query_page q a = r"
  by (rule option_eq_Some) (simp add: query_iff)

lemma args_run:
  assumes "as_inv a" "args_ok a addr n"
  shows "to_page a addr < to_page a addr + to_page_ceil a n"
    "to_page a addr + to_page_ceil a n \<le> as_base a + as_len a" "as_base a \<le> to_page a addr"
proof -
  have v: "as_is_valid a (to_page a addr) (to_page_ceil a n)" "to_page_ceil a n \<noteq> 0"
    using assms(2) by (simp_all add: args_ok_def)
  have "0 < unat (to_page_ceil a n)" using v(2) by (simp add: unat_gt_0)
  then show "to_page a addr < to_page a addr + to_page_ceil a n"
    using run_eq(1) [OF assms(1) v(1)] by (simp add: word_less_nat_alt)
  show "to_page a addr + to_page_ceil a n \<le> as_base a + as_len a" "as_base a \<le> to_page a addr"
    using run_eq(1) [OF assms(1) v(1)] v(1) as_is_valid_iff [OF assms(1)] as_inv_top [OF assms(1)]
    by (simp_all add: word_le_nat_alt)
qed

text \<open>The bytes of a callback are those of its pages.\<close>

lemma call_bytes:
  assumes inv: "as_inv a" and s: "s < e" "e \<le> as_base a + as_len a"
  shows "(to_addr a s \<le> q \<and> q < to_addr a s + (to_addr a e - to_addr a s)) \<longleftrightarrow>
    s \<le> to_page a q \<and> to_page a q < e"
proof -
  let ?ps = "2 ^ as_p2 a :: nat"
  have le: "unat e \<le> unat (as_base a) + unat (as_len a)"
    using s(2) as_inv_top [OF inv] by (simp add: word_le_nat_alt)
  then have "unat e * ?ps \<le> (unat (as_base a) + unat (as_len a)) * ?ps" by (rule mult_le_mono1)
  then have e: "unat e * ?ps < 2 ^ 64" using inv unfolding as_inv_def by (meson le_less_trans)
  have "unat s * ?ps \<le> unat e * ?ps" using s(1) by (intro mult_le_mono1) (simp add: word_less_nat_alt)
  then have "unat s * ?ps < 2 ^ 64" using e by (rule le_less_trans)
  then have u: "unat (to_addr a s) = unat s * ?ps" "unat (to_addr a e) = unat e * ?ps"
    using e by (simp_all only: unat_to_addr)
  have "to_addr a s + (to_addr a e - to_addr a s) = to_addr a e" by simp
  then show ?thesis
    by (simp add: word_le_nat_alt word_less_nat_alt u unat_to_page less_eq_div_iff_mult_less_eq
        div_less_iff_less_mult)
qed

lemma relabel_clips:
  assumes rm: "rm_inv m" and se: "start < fin"
    and cs_def: "cs = map (clip start fin) (get_overlapping start fin m)"
    and m': "m' = fold (\<lambda>(s, e, v) m. rm_insert s e (f v) (rm_remove s e m)) cs m"
  shows "rm_inv m'" "pts m' = {(k, if start \<le> k \<and> k < fin then f v else v) | k v. (k, v) \<in> pts m}"
proof -
  note c = clips_eq [OF rm se, folded cs_def]
  have "sorted_wrt (\<lambda>x y. fst (snd x) \<le> fst y) cs" using c(1) by (simp add: rm_inv_def)
  with rm.relabel_points [OF rm, of f cs] have r: "rm_inv m'"
    "pts m' = {x \<in> pts m. \<forall>(s, e, v) \<in> set cs. fst x < s \<or> e \<le> fst x} \<union>
      (\<Union>(s, e, v) \<in> set cs. {s ..< e} \<times> {f v})"
    unfolding m' by blast+
  show "rm_inv m'" by (rule r(1))
  let ?out = "\<lambda>k. \<forall>(s, e, v) \<in> set cs. k < s \<or> e \<le> k"
  have out: "(\<forall>(s, e, v) \<in> set cs. k < s \<or> e \<le> k) \<longleftrightarrow> \<not> (start \<le> k \<and> k < fin)"
    if "(k, v) \<in> pts m" for k v
  proof -
    have "(\<forall>(s, e, v) \<in> set cs. k < s \<or> e \<le> k) \<longleftrightarrow> (\<forall>v. (k, v) \<notin> pts cs)"
      by (force simp: pts_def not_le not_less)
    then show ?thesis unfolding c(2) using that by auto
  qed
  have new: "(k, w) \<in> (\<Union>(s, e, v) \<in> set cs. {s ..< e} \<times> {f v}) \<longleftrightarrow>
      (\<exists>v. (k, v) \<in> pts m \<and> start \<le> k \<and> k < fin \<and> w = f v)" for k w
  proof -
    have "(k, w) \<in> (\<Union>(s, e, v) \<in> set cs. {s ..< e} \<times> {f v}) \<longleftrightarrow> (\<exists>v. (k, v) \<in> pts cs \<and> w = f v)"
      by (force simp: pts_def)
    then show ?thesis unfolding c(2) by auto
  qed
  show "pts m' = {(k, if start \<le> k \<and> k < fin then f v else v) | k v. (k, v) \<in> pts m}"
  proof (intro set_eqI)
    fix x :: "u64 \<times> map_info"
    obtain k w where x: "x = (k, w)" by (cases x)
    show "x \<in> pts m' \<longleftrightarrow> x \<in> {(k, if start \<le> k \<and> k < fin then f v else v) | k v. (k, v) \<in> pts m}"
    proof -
      have "x \<in> pts m' \<longleftrightarrow> (k, w) \<in> pts m \<and> ?out k \<or>
          (\<exists>v. (k, v) \<in> pts m \<and> start \<le> k \<and> k < fin \<and> w = f v)"
        unfolding r(2) x Un_iff new by simp
      also have "\<dots> \<longleftrightarrow> (k, w) \<in> pts m \<and> \<not> (start \<le> k \<and> k < fin) \<or>
          (\<exists>v. (k, v) \<in> pts m \<and> start \<le> k \<and> k < fin \<and> w = f v)"
        using out by blast
      also have "\<dots> \<longleftrightarrow> x \<in> {(k, if start \<le> k \<and> k < fin then f v else v) | k v. (k, v) \<in> pts m}"
        unfolding x by auto
      finally show ?thesis .
    qed
  qed
qed


subsection \<open>The tracker's contract\<close>

text \<open>C28: placement of a new mapping, with or without randomisation. \<^verbatim>\<open>map_any\<close> never ends the
  process. Either it returns the address of a run of pages inside the sandbox's region of
  which none was mapped, and afterwards exactly these pages have the new information and
  every other page what it had; or it fails, no page changes, and the region has no free run
  of that length.\<close>

theorem map_any_places:
  assumes "as_inv a" "n \<noteq> 0"
  shows "\<exists>p a'. map_any hint n info a = Some (p, a') \<and> as_inv a' \<and> same_region a' a \<and>
    ((\<exists>s. p = to_addr a s \<and> to_page a p = s \<and> as_is_valid a s (to_page_ceil a n) \<and>
        (\<forall>q. to_page a q \<in> page_run a p n \<longrightarrow> query_page q a = None) \<and>
        (\<forall>q. query_page q a' = (if to_page a q \<in> page_run a p n then Some info else query_page q a)))
     \<or> (p = MM_FAIL \<and> (\<forall>q. query_page q a' = query_page q a) \<and>
        (\<forall>s. as_is_valid a s (to_page_ceil a n) \<longrightarrow>
           (\<exists>k \<in> {s ..< s + to_page_ceil a n}. k \<in> as_mapped a))))"
  using assms
proof (cases rule: map_any_cases [where hint = hint and info = info])
  case (mapped s a')
  have v: "as_is_valid a s (to_page_ceil a n)" and free: "{s ..< s + to_page_ceil a n} \<inter> as_mapped a = {}"
    using mapped(2) by (auto simp: free_run_def)
  have n0: "to_page_ceil a n \<noteq> 0" using assms by (simp add: to_page_ceil_0 as_inv_def)
  have tp: "to_page a (to_addr a s) = s" by (rule to_page_to_addr(1) [OF assms(1) v n0])
  have pg: "to_page a' = to_page a" by (rule same_region_pages(1) [OF mapped(4)])
  have none: "query_page q a = None" if "to_page a q \<in> {s ..< s + to_page_ceil a n}" for q
    using that free by (intro query_eqI [OF assms(1)]) (force simp: as_mapped_def)
  have "query_page q a' = (if to_page a q \<in> {s ..< s + to_page_ceil a n} then Some info else query_page q a)" for q
  proof (rule query_eqI [OF mapped(3)])
    fix i
    show "(to_page a' q, i) \<in> pts (as_regions a') \<longleftrightarrow>
        (if to_page a q \<in> {s ..< s + to_page_ceil a n} then Some info else query_page q a) = Some i"
      unfolding mapped(5) pg using none [of q] query_iff [OF assms(1), of q i] by auto
  qed
  then show ?thesis using mapped(1,3,4) v none tp
    by (intro exI [of _ "to_addr a s"] exI [of _ a'])
      (simp only: page_run_def tp simp_thms, blast)
next
  case (full a')
  have "query_page q a' = query_page q a" for q
    using full(4) same_region_pages(1) [OF full(3)] by (simp add: query_page_def)
  moreover have "\<forall>s. as_is_valid a s (to_page_ceil a n) \<longrightarrow>
      (\<exists>k \<in> {s ..< s + to_page_ceil a n}. k \<in> as_mapped a)"
    using full(5) unfolding free_run_def by blast
  ultimately show ?thesis using full(1-3) by blast
qed

definition small_space :: addr_space where
  "small_space = \<lparr>as_base = 16, as_len = 8, as_p2 = 12, as_aslr = True, as_rand = 7,
     as_regions = [(17, 19, \<lparr>mi_prot = 1, mi_flags = 2, mi_fd = -1, mi_offset = 0\<rparr>)]\<rparr>"

lemma small_space_inv: "as_inv small_space"
  by (auto simp: small_space_def as_inv_def word_le_nat_alt word_less_nat_alt)

theorem map_any_places_witness:
  "\<exists>p a'. map_any 0 8192 \<lparr>mi_prot = 3, mi_flags = 2, mi_fd = -1, mi_offset = 0\<rparr> small_space
     = Some (p, a') \<and> as_inv a' \<and> same_region a' small_space"
proof -
  have "(8192 :: u64) \<noteq> 0" by simp
  from map_any_places [OF small_space_inv this, of 0 "\<lparr>mi_prot = 3, mi_flags = 2, mi_fd = -1, mi_offset = 0\<rparr>"]
  show ?thesis by blast
qed



lemma as_protect_eq:
  assumes "as_inv a"
  shows "\<exists>err calls a'. as_protect ufn addr n prot a = (err, calls, a') \<and> as_inv a' \<and> same_region a' a \<and>
    (if args_ok a addr n then err = MMAP_OK \<and>
       (\<forall>q. query_page q a' =
         (if to_page a q \<in> page_run a addr n
          then map_option (\<lambda>i. i\<lparr>mi_prot := prot\<rparr>) (query_page q a) else query_page q a))
     else err = MMAP_INVAL \<and> calls = [] \<and> a' = a)"
proof (cases "args_ok a addr n")
  case False
  then show ?thesis using assms by (auto simp: as_protect_def)
next
  case True
  have rm: "rm_inv (as_regions a)" using assms by (simp add: as_inv_def)
  note run = args_run [OF assms True]
  define m' where "m' = fold (\<lambda>(cs, ce, v) m.
      rm_insert cs ce (v\<lparr>mi_prot := prot\<rparr>) (rm_remove cs ce m))
      (map (clip (to_page a addr) (to_page a addr + to_page_ceil a n))
        (get_overlapping (to_page a addr) (to_page a addr + to_page_ceil a n) (as_regions a)))
      (as_regions a)"
  note r = relabel_clips [OF rm run(1) refl m'_def]
  let ?a = "a\<lparr>as_regions := m'\<rparr>"
  have "as_base a \<le> fst x \<and> fst x < as_base a + as_len a" if "x \<in> pts m'" for x
    using that assms unfolding r(2) as_inv_def by auto
  then have inv: "as_inv ?a" using assms r(1) by (simp add: as_inv_def)
  have "query_page q ?a = (if to_page a q \<in> page_run a addr n
      then map_option (\<lambda>i. i\<lparr>mi_prot := prot\<rparr>) (query_page q a) else query_page q a)" for q
    using query_iff [OF assms, of q]
    by (intro query_eqI [OF inv]) (auto simp: r(2) page_run_def)
  moreover obtain calls where "as_protect ufn addr n prot a = (MMAP_OK, calls, ?a)"
    using True by (simp add: as_protect_def m'_def Let_def)
  ultimately show ?thesis using inv True by simp
qed

text \<open>\<^verbatim>\<open>protect\<close> changes the protection of the mapped pages of its range and nothing else:
  flags, file and offset stay, unmapped pages of the range stay unmapped, pages outside keep
  what they had, however the entries were split.\<close>

theorem protect_exact:
  assumes "as_inv a"
  shows "\<exists>err calls a'. as_protect ufn addr n prot a = (err, calls, a') \<and> as_inv a' \<and> same_region a' a \<and>
    (if args_ok a addr n then err = MMAP_OK \<and>
       (\<forall>q. query_page q a' =
         (if to_page a q \<in> page_run a addr n
          then map_option (\<lambda>i. i\<lparr>mi_prot := prot\<rparr>) (query_page q a) else query_page q a))
     else err = MMAP_INVAL \<and> calls = [] \<and> a' = a)"
  using assms by (rule as_protect_eq)

theorem protect_exact_witness:
  "\<exists>err calls a'. as_protect False 0x10000 0x3000 4 small_space = (err, calls, a') \<and> as_inv a'"
  using protect_exact [OF small_space_inv, of False "0x10000" "0x3000" 4] by blast

end
