(* ===== verification/HostVM.thy ===== *)
theory HostVM
  imports Prelude
begin

text \<open>
  The host's virtual memory as \<^verbatim>\<open>core/box.c\<close> uses it: access rights per page, bytes, and the
  system calls \<^verbatim>\<open>mmap\<close> (fixed, private) and \<^verbatim>\<open>mprotect\<close>. The kernel, the files, the verifier
  and the sandbox's own threads are not code of this repository; they are the parameter
  \<open>host_env\<close>:
  \<^item> \<open>he_ok i c\<close>: whether the \<open>i\<close>-th system call, of kind \<open>c\<close>, succeeds;
  \<^item> \<open>he_file fd off\<close>, \<open>he_fsize fd\<close>: the byte of a file at an offset, and the size of the file. A page of a
    mapping that begins past the end of its file cannot be accessed (SIGBUS);
  \<^item> \<open>he_store i x\<close>: the byte a sandbox thread stores to address \<open>x\<close> before the \<open>i\<close>-th
    system call, if it stores there (a store to a page that is not writable faults and
    changes nothing);
  \<^item> \<open>he_fwrite i x\<close>: the byte a write to a mapped file puts at address \<open>x\<close> before the
    \<open>i\<close>-th system call, if there is one: as on Linux, a page of a file mapping that was not
    copied shows what is written to the file, also when the mapping is private;
  \<^item> \<open>he_verify bs p\<close>: whether \<^verbatim>\<open>lfiv_verify\<close> accepts the bytes \<open>bs\<close> as code for address \<open>p\<close>.
\<close>

record access =
  acc_r :: bool
  acc_w :: bool
  acc_x :: bool

definition no_access :: access where
  "no_access = \<lparr>acc_r = False, acc_w = False, acc_x = False\<rparr>"

definition read_only :: access where
  "read_only = \<lparr>acc_r = True, acc_w = False, acc_x = False\<rparr>"

datatype host_call = HMmap | HMunmap | HMprotect access

record host_env =
  he_ok :: "nat \<Rightarrow> host_call \<Rightarrow> bool"
  he_file :: "u32 \<Rightarrow> u64 \<Rightarrow> u8"
  he_fsize :: "u32 \<Rightarrow> nat"
  he_store :: "nat \<Rightarrow> u64 \<Rightarrow> u8 option"
  he_fwrite :: "nat \<Rightarrow> u64 \<Rightarrow> u8 option"
  he_verify :: "u8 list \<Rightarrow> u64 \<Rightarrow> bool"

text \<open>
  \<open>vm_file\<close> are the pages of file mappings, \<open>vm_past\<close> those of them past the end of their file. \<open>vm_fault\<close> says that
  the verifier has read a page it cannot read: the host has got a signal there. The model goes on as if the verifier had
  answered in any way, so what is shown of rights and bytes does not depend on it.
\<close>

record vm =
  vm_acc :: "nat \<Rightarrow> access"
  vm_file :: "nat \<Rightarrow> bool"
  vm_past :: "nat \<Rightarrow> bool"
  vm_mem :: "u64 \<Rightarrow> u8"
  vm_calls :: nat
  vm_fault :: bool

text \<open>The page of an address, and whether a page belongs to \<open>n\<close> bytes from \<open>p\<close> on.\<close>

definition pg :: "u64 \<Rightarrow> u64 \<Rightarrow> nat" where
  "pg ps x = unat x div unat ps"

definition in_pages :: "u64 \<Rightarrow> u64 \<Rightarrow> u64 \<Rightarrow> nat \<Rightarrow> bool" where
  "in_pages ps p n k \<longleftrightarrow> pg ps p \<le> k \<and> k < (unat p + unat n + unat ps - 1) div unat ps"

definition page_aligned :: "u64 \<Rightarrow> u64 \<Rightarrow> bool" where
  "page_aligned ps p \<longleftrightarrow> unat p mod unat ps = 0"

definition vm_tick :: "host_env \<Rightarrow> u64 \<Rightarrow> vm \<Rightarrow> vm" where
  "vm_tick e ps m = m\<lparr>vm_calls := vm_calls m + 1,
     vm_mem := (\<lambda>x.
        let old = (case he_fwrite e (vm_calls m) x of
               Some b \<Rightarrow> if vm_file m (pg ps x) then b else vm_mem m x
             | None \<Rightarrow> vm_mem m x)
        in case he_store e (vm_calls m) x of
             Some b \<Rightarrow> if acc_w (vm_acc m (pg ps x)) then b else old
           | None \<Rightarrow> old)\<rparr>"

definition past_end :: "host_env \<Rightarrow> u64 \<Rightarrow> u64 \<Rightarrow> u32 \<Rightarrow> u64 \<Rightarrow> nat \<Rightarrow> bool" where
  "past_end e ps p fd off k \<longleftrightarrow> he_fsize e fd \<le> unat off + (k * unat ps - unat p)"

definition vm_mmap ::
  "host_env \<Rightarrow> u64 \<Rightarrow> u64 \<Rightarrow> u64 \<Rightarrow> access \<Rightarrow> bool \<Rightarrow> u32 \<Rightarrow> u64 \<Rightarrow> vm \<Rightarrow> bool \<times> vm" where
  "vm_mmap e ps p n acc anon fd off m =
     (let m = vm_tick e ps m
      in if \<not> page_aligned ps p \<or> n = 0 \<or> \<not> he_ok e (vm_calls m) HMmap then (False, m)
         else (True, m\<lparr>vm_acc := (\<lambda>k. if in_pages ps p n k then acc else vm_acc m k),
                vm_file := (\<lambda>k. if in_pages ps p n k then \<not> anon else vm_file m k),
                vm_past := (\<lambda>k. if in_pages ps p n k then \<not> anon \<and> past_end e ps p fd off k else vm_past m k),
                vm_mem := (\<lambda>x. if in_pages ps p n (pg ps x)
                   then (if anon then 0 else he_file e fd (off + (x - p))) else vm_mem m x)\<rparr>))"

definition vm_mprotect ::
  "host_env \<Rightarrow> u64 \<Rightarrow> u64 \<Rightarrow> u64 \<Rightarrow> access \<Rightarrow> vm \<Rightarrow> bool \<times> vm" where
  "vm_mprotect e ps p n acc m =
     (let m = vm_tick e ps m
      in if \<not> page_aligned ps p \<or> \<not> he_ok e (vm_calls m) (HMprotect acc) then (False, m)
         else (True, m\<lparr>vm_acc := (\<lambda>k. if in_pages ps p n k then acc else vm_acc m k)\<rparr>))"

definition vm_munmap :: "host_env \<Rightarrow> u64 \<Rightarrow> u64 \<Rightarrow> u64 \<Rightarrow> vm \<Rightarrow> vm" where
  "vm_munmap e ps p n m =
     (let m = vm_tick e ps m
      in if \<not> page_aligned ps p \<or> n = 0 \<or> \<not> he_ok e (vm_calls m) HMunmap then m
         else m\<lparr>vm_acc := (\<lambda>k. if in_pages ps p n k then no_access else vm_acc m k),
                vm_file := (\<lambda>k. if in_pages ps p n k then False else vm_file m k),
                vm_past := (\<lambda>k. if in_pages ps p n k then False else vm_past m k)\<rparr>)"

definition vm_bytes :: "vm \<Rightarrow> u64 \<Rightarrow> u64 \<Rightarrow> u8 list" where
  "vm_bytes m p n = map (\<lambda>i. vm_mem m (p + of_nat i)) [0 ..< unat n]"

text \<open>A host access to a page without the right, or past the end of a file, faults.\<close>

definition pages_have :: "(access \<Rightarrow> bool) \<Rightarrow> u64 \<Rightarrow> vm \<Rightarrow> u64 \<Rightarrow> nat \<Rightarrow> bool" where
  "pages_have acc ps m p n =
     list_all (\<lambda>i. acc (vm_acc m (pg ps (p + of_nat i))) \<and> \<not> vm_past m (pg ps (p + of_nat i))) [0 ..< n]"

text \<open>The verifier reads \<open>n\<close> bytes.\<close>

definition vm_scan :: "u64 \<Rightarrow> u64 \<Rightarrow> u64 \<Rightarrow> vm \<Rightarrow> vm" where
  "vm_scan ps p n m = m\<lparr>vm_fault := vm_fault m \<or> \<not> pages_have acc_r ps m p (unat n)\<rparr>"

lemma vm_scan_simps [simp]:
  "vm_acc (vm_scan ps p n m) = vm_acc m" "vm_file (vm_scan ps p n m) = vm_file m" "vm_past (vm_scan ps p n m) = vm_past m"
  "vm_mem (vm_scan ps p n m) = vm_mem m" "vm_calls (vm_scan ps p n m) = vm_calls m"
  "vm_bytes (vm_scan ps p n m) = vm_bytes m"
  by (simp_all add: vm_scan_def vm_bytes_def fun_eq_iff)

lemma vm_tick_acc [simp]:
  "vm_acc (vm_tick e ps m) = vm_acc m" "vm_past (vm_tick e ps m) = vm_past m" "vm_fault (vm_tick e ps m) = vm_fault m"
  by (simp_all add: vm_tick_def)

lemma vm_mprotect_scan:
  "vm_mprotect e ps p n acc (vm_scan q a l m) = (case vm_mprotect e ps p n acc m of (ok, m') \<Rightarrow>
     (ok, m'\<lparr>vm_fault := vm_fault (vm_scan q a l m)\<rparr>))"
proof -
  have "vm_tick e ps (m\<lparr>vm_fault := f\<rparr>) = (vm_tick e ps m)\<lparr>vm_fault := f\<rparr>" for f
    by (simp add: vm_tick_def cong: option.case_cong if_cong)
  then show ?thesis
    by (cases "vm_tick e ps m") (simp add: vm_mprotect_def vm_scan_def Let_def cong: if_cong)
qed

text \<open>Nobody writes to a mapped file while it is mapped.\<close>

definition files_stable :: "host_env \<Rightarrow> bool" where
  "files_stable e \<longleftrightarrow> (\<forall>i x. he_fwrite e i x = None)"

lemma vm_tick_mem:
  "files_stable e \<Longrightarrow> \<not> acc_w (vm_acc m (pg ps x)) \<Longrightarrow> vm_mem (vm_tick e ps m) x = vm_mem m x"
  by (simp add: vm_tick_def files_stable_def Let_def split: option.split)

lemma access_simps [simp]:
  "\<not> acc_r no_access" "\<not> acc_w no_access" "\<not> acc_x no_access"
  "acc_r read_only" "\<not> acc_w read_only" "\<not> acc_x read_only"
  by (simp_all add: no_access_def read_only_def)

text \<open>What a call leaves alone, and what a successful one sets.\<close>

lemma vm_mmap_acc:
  "vm_acc (snd (vm_mmap e ps p n acc anon fd off m)) k =
     (if fst (vm_mmap e ps p n acc anon fd off m) \<and> in_pages ps p n k then acc else vm_acc m k)"
  by (simp add: vm_mmap_def Let_def)

lemma vm_mprotect_acc:
  "vm_acc (snd (vm_mprotect e ps p n acc m)) k =
     (if fst (vm_mprotect e ps p n acc m) \<and> in_pages ps p n k then acc else vm_acc m k)"
  by (simp add: vm_mprotect_def Let_def)

lemma vm_mmap_past:
  "vm_past (snd (vm_mmap e ps p n acc anon fd off m)) k =
     (if fst (vm_mmap e ps p n acc anon fd off m) \<and> in_pages ps p n k then \<not> anon \<and> past_end e ps p fd off k else vm_past m k)"
  "vm_past (snd (vm_mprotect e ps p n acc m)) = vm_past m"
  "vm_fault (snd (vm_mmap e ps p n acc anon fd off m)) = vm_fault m" "vm_fault (snd (vm_mprotect e ps p n acc m)) = vm_fault m"
  by (simp_all add: vm_mmap_def vm_mprotect_def Let_def)

lemma vm_mmap_mem:
  "\<not> (fst (vm_mmap e ps p n acc anon fd off m) \<and> in_pages ps p n (pg ps x)) \<Longrightarrow>
     vm_mem (snd (vm_mmap e ps p n acc anon fd off m)) x = vm_mem (vm_tick e ps m) x"
  by (simp add: vm_mmap_def Let_def split: if_splits)

lemma vm_mprotect_mem [simp]:
  "vm_mem (snd (vm_mprotect e ps p n acc m)) = vm_mem (vm_tick e ps m)"
  by (simp add: vm_mprotect_def Let_def)


subsection \<open>Verified executable pages\<close>

text \<open>
  The security invariant: an executable page is not writable, and its bytes are those of
  the same place in some piece of code the verifier accepted (the latter as long as no
  mapped file is written).
\<close>

definition page_verified :: "host_env \<Rightarrow> u64 \<Rightarrow> vm \<Rightarrow> nat \<Rightarrow> bool" where
  "page_verified e ps m k \<longleftrightarrow> (\<exists>p bs. he_verify e bs p \<and>
     (\<forall>x. pg ps x = k \<longrightarrow> unat p \<le> unat x \<and> unat x - unat p < length bs \<and>
        vm_mem m x = bs ! (unat x - unat p)))"

definition x_safe :: "host_env \<Rightarrow> u64 \<Rightarrow> vm \<Rightarrow> nat \<Rightarrow> bool" where
  "x_safe e ps m k \<longleftrightarrow> (acc_x (vm_acc m k) \<longrightarrow> \<not> acc_w (vm_acc m k) \<and>
     (files_stable e \<longrightarrow> page_verified e ps m k))"

lemma x_safe_scan [simp]:
  "x_safe e ps (vm_scan q p n m) k = x_safe e ps m k" "x_safe e ps (m\<lparr>vm_fault := f\<rparr>) k = x_safe e ps m k"
  by (simp_all add: x_safe_def page_verified_def)

lemma page_verified_mem:
  "page_verified e ps m k \<Longrightarrow> (\<And>x. pg ps x = k \<Longrightarrow> vm_mem m' x = vm_mem m x) \<Longrightarrow>
     page_verified e ps m' k"
  unfolding page_verified_def by metis

lemma x_safe_tick: "x_safe e ps m k \<Longrightarrow> x_safe e ps (vm_tick e ps m) k"
  unfolding x_safe_def by (auto elim!: page_verified_mem simp: vm_tick_mem)

lemma vm_mmap_x_safe:
  assumes "\<not> acc_x acc" "x_safe e ps m k"
  shows "x_safe e ps (snd (vm_mmap e ps p n acc anon fd off m)) k"
proof (cases "fst (vm_mmap e ps p n acc anon fd off m) \<and> in_pages ps p n k")
  case True
  then show ?thesis using assms(1) by (simp add: x_safe_def vm_mmap_acc)
next
  case False
  have t: "x_safe e ps (vm_tick e ps m) k" by (rule x_safe_tick [OF assms(2)])
  have "page_verified e ps (vm_tick e ps m) k \<Longrightarrow>
      page_verified e ps (snd (vm_mmap e ps p n acc anon fd off m)) k"
    by (erule page_verified_mem) (use False in \<open>auto simp: vm_mmap_mem\<close>)
  then show ?thesis using t False by (auto simp: x_safe_def vm_mmap_acc)
qed

lemma vm_mprotect_x_safe:
  assumes "\<not> acc_x acc" "x_safe e ps m k"
  shows "x_safe e ps (snd (vm_mprotect e ps p n acc m)) k"
proof -
  have t: "x_safe e ps (vm_tick e ps m) k" by (rule x_safe_tick [OF assms(2)])
  have "page_verified e ps (vm_tick e ps m) k \<Longrightarrow>
      page_verified e ps (snd (vm_mprotect e ps p n acc m)) k"
    by (erule page_verified_mem) simp
  then show ?thesis using t assms(1) by (auto simp: x_safe_def vm_mprotect_acc)
qed

text \<open>
  Making read-only pages executable after the verifier accepted their bytes keeps the
  invariant, whatever other threads store meanwhile.
\<close>

lemma nth_vm_bytes:
  assumes "unat p \<le> unat x" "unat x < unat p + unat n"
  shows "vm_bytes m p n ! (unat x - unat p) = vm_mem m x" "unat x - unat p < length (vm_bytes m p n)"
proof -
  have "p + of_nat (unat x - unat p) = x" using assms(1) by (simp add: of_nat_diff)
  moreover show "unat x - unat p < length (vm_bytes m p n)" using assms by (simp add: vm_bytes_def)
  ultimately show "vm_bytes m p n ! (unat x - unat p) = vm_mem m x" by (simp add: vm_bytes_def)
qed

lemma in_pages_bytes:
  assumes "0 < unat ps" "unat ps dvd unat p" "unat ps dvd unat n" "in_pages ps p n (pg ps x)"
  shows "unat p \<le> unat x" "unat x < unat p + unat n"
proof -
  let ?s = "unat ps"
  obtain a b where a: "unat p = ?s * a" "unat n = ?s * b" using assms(2,3) by (auto elim!: dvdE)
  have "(unat p + unat n + ?s - 1) div ?s = a + b"
  proof -
    have "unat p + unat n + ?s - 1 = (?s - 1) + ?s * (a + b)" using assms(1) a by (simp add: distrib_left)
    also have "\<dots> div ?s = (a + b) + (?s - 1) div ?s" using assms(1) by (intro div_mult_self2) simp
    finally show ?thesis using assms(1) by simp
  qed
  then have "a \<le> unat x div ?s" "unat x div ?s < a + b"
    using assms(1,4) a by (auto simp: in_pages_def pg_def)
  then have "a * ?s \<le> unat x" "unat x < (a + b) * ?s"
    using assms(1) by (simp_all add: less_eq_div_iff_mult_less_eq div_less_iff_less_mult)
  then show "unat p \<le> unat x" "unat x < unat p + unat n" by (simp_all add: a algebra_simps)
qed

lemma verified_x_safe:
  assumes safe: "\<And>k. in_box k \<Longrightarrow> x_safe e ps m k"
    and ro: "\<And>k. in_pages ps p n k \<Longrightarrow> \<not> acc_w (vm_acc m k)"
    and ok: "he_verify e (vm_bytes m p n) p"
    and al: "0 < unat ps" "unat ps dvd unat p" "unat ps dvd unat n" and acc: "\<not> acc_w acc"
    and k: "in_box k"
  shows "x_safe e ps (snd (vm_mprotect e ps p n acc m)) k"
proof -
  let ?m' = "snd (vm_mprotect e ps p n acc m)"
  have t: "x_safe e ps (vm_tick e ps m) k" by (rule x_safe_tick [OF safe [OF k]])
  show ?thesis
  proof (cases "fst (vm_mprotect e ps p n acc m) \<and> in_pages ps p n k")
    case True
    have "vm_mem ?m' x = vm_mem m x" if "pg ps x = k" "files_stable e" for x
      using True that ro [of k] by (simp add: vm_tick_mem)
    moreover have "page_verified e ps m k"
      unfolding page_verified_def
    proof (intro exI [of _ p] exI [of _ "vm_bytes m p n"] conjI allI impI)
      fix x
      assume "pg ps x = k"
      then have b: "unat p \<le> unat x" "unat x < unat p + unat n"
        using in_pages_bytes [OF al, of x] True by simp_all
      then show "unat p \<le> unat x" by simp
      show "unat x - unat p < length (vm_bytes m p n)"
        "vm_mem m x = vm_bytes m p n ! (unat x - unat p)"
        using nth_vm_bytes [OF b] by simp_all
    qed (rule ok)
    ultimately have "files_stable e \<longrightarrow> page_verified e ps ?m' k" using page_verified_mem by blast
    moreover have "vm_acc ?m' k = acc" using True by (simp add: vm_mprotect_acc)
    ultimately show ?thesis using acc by (simp add: x_safe_def)
  next
    case False
    then have "vm_acc ?m' k = vm_acc (vm_tick e ps m) k" by (auto simp: vm_mprotect_acc)
    moreover have "page_verified e ps (vm_tick e ps m) k \<Longrightarrow> page_verified e ps ?m' k"
      by (erule page_verified_mem) simp
    ultimately show ?thesis using t by (auto simp: x_safe_def)
  qed
qed

end
