(* ===== verification/Box.thy ===== *)
theory Box
  imports HostVM BoxMap AddrSpace
begin

text \<open>
  A sandbox, \<^verbatim>\<open>core/box.c\<close>: its bounds, its runtime-call page, the tracker of its mappings,
  and the operations that map, protect, verify and unmap its memory. The build without
  protection keys (\<^verbatim>\<open>HAVE_PKU\<close> unset) is modelled. Every operation runs under the
  box's lock, so it is one step of the sandbox's host state; the stores of running sandbox
  threads come in between the system calls (\<open>he_store\<close>).
\<close>

unbundle bit_operations_syntax

subsection \<open>Options, architectures and guards\<close>

record lfi_options =
  opt_pagesize :: u64
  opt_boxsize :: u64
  opt_verbose :: bool
  opt_stores_only :: bool
  opt_no_verify :: bool
  opt_allow_wx :: bool
  opt_no_aslr :: bool
  opt_no_init_sigaltstack :: bool

datatype arch = ARM64 | X64 | RISCV64

definition kb :: "u64 \<Rightarrow> u64" where "kb x = x * 1024"
definition mb :: "u64 \<Rightarrow> u64" where "mb x = x * 1024 * 1024"
definition gb :: "u64 \<Rightarrow> u64" where "gb x = x * 1024 * 1024 * 1024"

fun BOX_INTERNAL_GUARD :: "arch \<Rightarrow> u64" where
  "BOX_INTERNAL_GUARD ARM64 = kb 192"
| "BOX_INTERNAL_GUARD X64 = 0"
| "BOX_INTERNAL_GUARD RISCV64 = 0"

fun BOX_EXTERNAL_GUARD :: "arch \<Rightarrow> u64" where
  "BOX_EXTERNAL_GUARD ARM64 = 0"
| "BOX_EXTERNAL_GUARD X64 = gb 4"
| "BOX_EXTERNAL_GUARD RISCV64 = 0"

fun REGION_GUARD :: "arch \<Rightarrow> u64" where
  "REGION_GUARD ARM64 = mb 512"
| "REGION_GUARD X64 = gb 4"
| "REGION_GUARD RISCV64 = 0"

definition box_footprint :: "arch \<Rightarrow> u64 \<Rightarrow> u64" where
  "box_footprint ar boxsize = boxsize + BOX_EXTERNAL_GUARD ar"

subsection \<open>Protection and mapping flags\<close>

definition LFI_PROT_NONE :: u32 where "LFI_PROT_NONE = 0"
definition LFI_PROT_READ :: u32 where "LFI_PROT_READ = 1"
definition LFI_PROT_WRITE :: u32 where "LFI_PROT_WRITE = 2"
definition LFI_PROT_EXEC :: u32 where "LFI_PROT_EXEC = 4"
definition LFI_MAP_SHARED :: u32 where "LFI_MAP_SHARED = 1"
definition LFI_MAP_PRIVATE :: u32 where "LFI_MAP_PRIVATE = 2"
definition LFI_MAP_FIXED :: u32 where "LFI_MAP_FIXED = 16"
definition LFI_MAP_ANONYMOUS :: u32 where "LFI_MAP_ANONYMOUS = 32"

lemmas lfi_flags = LFI_PROT_NONE_def LFI_PROT_READ_def LFI_PROT_WRITE_def LFI_PROT_EXEC_def
  LFI_MAP_SHARED_def LFI_MAP_PRIVATE_def LFI_MAP_FIXED_def LFI_MAP_ANONYMOUS_def

definition has_flag :: "u32 \<Rightarrow> u32 \<Rightarrow> bool" where
  "has_flag flags f \<longleftrightarrow> flags AND f \<noteq> 0"

definition host_prot :: "u32 \<Rightarrow> access" where
  "host_prot prot = \<lparr>acc_r = has_flag prot LFI_PROT_READ, acc_w = has_flag prot LFI_PROT_WRITE,
     acc_x = has_flag prot LFI_PROT_EXEC\<rparr>"

record hflags =
  hf_private :: bool
  hf_anonymous :: bool
  hf_fixed :: bool
  hf_shared :: bool

definition host_flags :: "u32 \<Rightarrow> hflags" where
  "host_flags flags = \<lparr>hf_private = has_flag flags LFI_MAP_PRIVATE,
     hf_anonymous = has_flag flags LFI_MAP_ANONYMOUS, hf_fixed = has_flag flags LFI_MAP_FIXED,
     hf_shared = has_flag flags LFI_MAP_SHARED\<rparr>"

subsection \<open>The runtime-call table\<close>

datatype rtcall = RtBad | RtSyscallEntry | RtRet

record sys_table =
  sys_ctx :: "u64 option"
  sys_rtcalls :: "rtcall list"

definition sys_init :: "u64 option \<Rightarrow> sys_table" where
  "sys_init ctx = (let n = 32 in \<lparr>sys_ctx = ctx,
     sys_rtcalls = (replicate n RtBad)[n - 1 := RtSyscallEntry, n - 4 := RtRet]\<rparr>)"

text \<open>\<^verbatim>\<open>sys_page_init\<close> and \<^verbatim>\<open>ctx_block_init\<close>: the table they write, and the protections.\<close>

definition sys_page_init ::
  "host_env \<Rightarrow> u64 \<Rightarrow> u64 \<Rightarrow> u64 option \<Rightarrow> vm \<Rightarrow> bool \<times> sys_table \<times> vm" where
  "sys_page_init e pagesize page ctx m =
     (let sys = sys_init ctx; (ok, m) = vm_mprotect e pagesize page pagesize read_only m
      in (ok, sys, m))"

definition read_write :: access where
  "read_write = \<lparr>acc_r = True, acc_w = True, acc_x = False\<rparr>"

definition ctx_block_init ::
  "host_env \<Rightarrow> u64 \<Rightarrow> u64 \<Rightarrow> u64 option \<Rightarrow> vm \<Rightarrow> bool \<times> sys_table \<times> vm" where
  "ctx_block_init e pagesize block ctx m =
     (let (ok, sys, m) = sys_page_init e pagesize block ctx m
      in if \<not> ok then (False, sys, m)
         else let (ok, m) = vm_mprotect e pagesize (block + pagesize) pagesize read_write m
              in (ok, sys, m))"

subsection \<open>Boxes\<close>

record lfi_box =
  bx_opts :: lfi_options
  bx_base :: u64
  bx_size :: u64
  bx_min :: u64
  bx_max :: u64
  bx_max_exec :: u64
  bx_mm :: addr_space
  bx_sys_page :: "u64 option"
  bx_sys :: "sys_table option"
  bx_retaddr :: u64
  bx_userdata :: u64

datatype lfi_error = ERR_NONE | ERR_ALLOC | ERR_BOXMAP | ERR_RESERVE | ERR_MMAP | ERR_SIGALTSTACK | ERR_PKU

definition syssetup :: "host_env \<Rightarrow> lfi_box \<Rightarrow> vm \<Rightarrow> bool \<times> lfi_box \<times> vm" where
  "syssetup e b m =
     (let ps = opt_pagesize (bx_opts b);
          page = bx_base b - ps;
          (ok, m) = vm_mmap e ps page ps read_write True (-1) 0 m
      in if \<not> ok then (False, b\<lparr>bx_sys_page := None\<rparr>, m)
         else let (ok, sys, m) = sys_page_init e ps page None m;
                  b = b\<lparr>bx_sys_page := Some page, bx_sys := Some sys\<rparr>
              in if \<not> ok then
                   (False, b\<lparr>bx_sys_page := None\<rparr>, vm_munmap e ps page ps m)
                 else (True, b, m))"

text \<open>
  \<^verbatim>\<open>lfi_box_new\<close>: \<open>ok_malloc\<close>, \<open>ok_lock\<close> and \<open>ok_mm\<close> say whether \<^verbatim>\<open>malloc\<close>,
  \<^verbatim>\<open>pthread_mutex_init\<close> and the allocation in \<^verbatim>\<open>mmap_create\<close> succeed, \<open>seed\<close> is the value of
  \<^verbatim>\<open>aslr_seed\<close>. The result is an error or the box, with the pool and the memory.
\<close>

definition lfi_box_new ::
  "host_env \<Rightarrow> arch \<Rightarrow> lfi_options \<Rightarrow> bool \<Rightarrow> bool \<Rightarrow> bool \<Rightarrow> u64 \<Rightarrow> boxmap \<Rightarrow> vm \<Rightarrow>
   ((lfi_error + lfi_box) \<times> boxmap \<times> vm) run" where
  "lfi_box_new e ar opts ok_malloc ok_lock ok_mm seed bm m =
     (if \<not> ok_malloc then Some (Inl ERR_ALLOC, bm, m)
      else do {
        let sz = opt_boxsize opts;
        (base, bm) \<leftarrow> boxmap_addspace bm (box_footprint ar sz);
        if base = 0 then Some (Inl ERR_BOXMAP, bm, m)
        else do {
          let ps = opt_pagesize opts;
          let min_off = (if BOX_INTERNAL_GUARD ar > ps then BOX_INTERNAL_GUARD ar else ps);
          let b = \<lparr>bx_opts = opts, bx_base = base, bx_size = sz, bx_min = base + min_off,
                   bx_max = base + sz - BOX_INTERNAL_GUARD ar,
                   bx_max_exec = base + sz - BOX_INTERNAL_GUARD ar,
                   bx_mm = \<lparr>as_base = 0, as_len = 0, as_p2 = 0, as_aslr = False, as_rand = 0,
                            as_regions = []\<rparr>,
                   bx_sys_page = None, bx_sys = None, bx_retaddr = 0, bx_userdata = 0\<rparr>;
          let (ok, b, m) = syssetup e b m;
          let fail = (\<lambda>m. boxmap_rmspace bm base (box_footprint ar sz) \<bind>
                            (\<lambda>bm. Some (Inl ERR_MMAP, bm, m)));
          if \<not> ok then fail m
          else if \<not> ok_lock then fail m
          else case (if ok_mm then as_init (bx_min b) (bx_max b - bx_min b) ps else None) of
            None \<Rightarrow> fail m
          | Some mm \<Rightarrow>
              (let mm = (if opt_no_aslr opts then mm else enable_aslr seed mm)
               in Some (Inr (b\<lparr>bx_mm := mm\<rparr>), bm, m))
        }
      })"

definition lfi_box_ptrvalid :: "lfi_box \<Rightarrow> u64 \<Rightarrow> bool" where
  "lfi_box_ptrvalid b addr \<longleftrightarrow> bx_min b \<le> addr \<and> addr < bx_max b"

definition lfi_box_bufvalid :: "lfi_box \<Rightarrow> u64 \<Rightarrow> u64 \<Rightarrow> bool" where
  "lfi_box_bufvalid b addr n \<longleftrightarrow> bx_min b \<le> addr \<and> addr \<le> bx_max b \<and> n \<le> bx_max b - addr"

subsection \<open>Mapping and protecting with verification\<close>

text \<open>An \<^verbatim>\<open>int\<close> result is 0 or negative.\<close>

definition mapmem ::
  "host_env \<Rightarrow> lfi_box \<Rightarrow> u64 \<Rightarrow> u64 \<Rightarrow> u32 \<Rightarrow> u32 \<Rightarrow> u32 \<Rightarrow> u64 \<Rightarrow> vm \<Rightarrow> int \<times> vm" where
  "mapmem e b start n prot flags fd off m =
     (let (ok, m) = vm_mmap e (opt_pagesize (bx_opts b)) start n (host_prot prot)
                      (hf_anonymous (host_flags flags)) fd off m
      in (if ok then 0 else -1, m))"

definition protectmem :: "host_env \<Rightarrow> lfi_box \<Rightarrow> u64 \<Rightarrow> u64 \<Rightarrow> access \<Rightarrow> vm \<Rightarrow> int \<times> vm" where
  "protectmem e b start n acc m =
     (let (ok, m) = vm_mprotect e (opt_pagesize (bx_opts b)) start n acc m
      in (if ok then 0 else -1, m))"

text \<open>The verifier reads the code in place (\<open>vm_scan\<close>).\<close>

definition verify :: "host_env \<Rightarrow> lfi_box \<Rightarrow> u64 \<Rightarrow> u64 \<Rightarrow> u32 \<Rightarrow> vm \<Rightarrow> bool \<times> vm" where
  "verify e b base n prot m =
     (let no_verify = opt_no_verify (bx_opts b);
          allow_wx = opt_allow_wx (bx_opts b) \<and> no_verify;
          w = has_flag prot LFI_PROT_WRITE; x = has_flag prot LFI_PROT_EXEC
      in if \<not> x \<or> (no_verify \<and> \<not> (w \<and> x)) \<or> allow_wx then (True, m)
         else if w \<and> x then (False, m)
         else (he_verify e (vm_bytes m base n) base, vm_scan (opt_pagesize (bx_opts b)) base n m))"

definition protectverify ::
  "host_env \<Rightarrow> lfi_box \<Rightarrow> u64 \<Rightarrow> u64 \<Rightarrow> u32 \<Rightarrow> bool \<Rightarrow> vm \<Rightarrow> int \<times> vm" where
  "protectverify e b base n prot no_verify m =
     (let no_verify = (no_verify \<or> opt_no_verify (bx_opts b));
          allow_wx = (opt_allow_wx (bx_opts b) \<and> no_verify);
          w = has_flag prot LFI_PROT_WRITE; x = has_flag prot LFI_PROT_EXEC
      in if \<not> x \<or> (no_verify \<and> \<not> (w \<and> x)) \<or> allow_wx then
           protectmem e b base n (host_prot prot) m
         else if w \<and> x then (-1, m)
         else let (_, m) = protectmem e b base n read_only m;
                  m = vm_scan (opt_pagesize (bx_opts b)) base n m
              in if \<not> he_verify e (vm_bytes m base n) base then (-1, m)
                 else protectmem e b base n (host_prot prot) m)"

definition mapverify ::
  "host_env \<Rightarrow> lfi_box \<Rightarrow> u64 \<Rightarrow> u64 \<Rightarrow> u32 \<Rightarrow> u32 \<Rightarrow> u32 \<Rightarrow> u64 \<Rightarrow> bool \<Rightarrow> vm \<Rightarrow> int \<times> vm" where
  "mapverify e b start n prot flags fd off no_verify m =
     (let no_verify = (no_verify \<or> opt_no_verify (bx_opts b));
          allow_wx = (opt_allow_wx (bx_opts b) \<and> no_verify);
          w = has_flag prot LFI_PROT_WRITE; x = has_flag prot LFI_PROT_EXEC
      in if \<not> x \<or> (no_verify \<and> \<not> (w \<and> x)) \<or> allow_wx then
           mapmem e b start n prot flags fd off m
         else if w \<and> x then (-1, m)
         else let (r, m) = mapmem e b start n LFI_PROT_READ flags fd off m
              in if r < 0 then (r, m)
                 else let m = vm_scan (opt_pagesize (bx_opts b)) start n m
                      in if \<not> he_verify e (vm_bytes m start n) start then (-1, m)
                         else protectmem e b start n (host_prot prot) m)"

text \<open>The callback that clears a replaced mapping, and its calls in order.\<close>

definition cbunmap :: "host_env \<Rightarrow> lfi_box \<Rightarrow> update_call \<Rightarrow> vm \<Rightarrow> vm" where
  "cbunmap e b c m = (case c of (start, n, _) \<Rightarrow>
     (let (ok, m) = vm_mmap e (opt_pagesize (bx_opts b)) start n no_access True (-1) 0 m
      in if ok then m
         else snd (vm_mprotect e (opt_pagesize (bx_opts b)) start n no_access m)))"

definition cbunmaps :: "host_env \<Rightarrow> lfi_box \<Rightarrow> update_call list \<Rightarrow> vm \<Rightarrow> vm" where
  "cbunmaps e b calls m = fold (cbunmap e b) calls m"

definition info :: "u32 \<Rightarrow> u32 \<Rightarrow> u32 \<Rightarrow> u64 \<Rightarrow> map_info" where
  "info prot flags fd off = \<lparr>mi_prot = prot, mi_flags = flags, mi_fd = fd, mi_offset = off\<rparr>"

definition box_mapany_locked ::
  "host_env \<Rightarrow> u64 \<Rightarrow> u32 \<Rightarrow> u32 \<Rightarrow> u32 \<Rightarrow> u64 \<Rightarrow> bool \<Rightarrow> lfi_box \<times> vm \<Rightarrow>
   (u64 \<times> lfi_box \<times> vm) run" where
  "box_mapany_locked e n prot flags fd off no_verify bm = (case bm of (b, m) \<Rightarrow>
     do {
       (addr, mm) \<leftarrow> map_any 0 n (info prot flags fd off) (bx_mm b);
       let b = b\<lparr>bx_mm := mm\<rparr>;
       if addr = MM_FAIL then Some (-1, b, m)
       else let (r, m) = mapverify e b addr n prot flags fd off no_verify m
            in if r < 0 then
                 (let (_, calls, mm) = as_unmap True addr n (bx_mm b)
                  in Some (-1, b\<lparr>bx_mm := mm\<rparr>, cbunmaps e b calls m))
               else Some (addr, b, m)
     })"

definition box_mapat_locked ::
  "host_env \<Rightarrow> u64 \<Rightarrow> u64 \<Rightarrow> u32 \<Rightarrow> u32 \<Rightarrow> u32 \<Rightarrow> u64 \<Rightarrow> lfi_box \<times> vm \<Rightarrow>
   (u64 \<times> lfi_box \<times> vm) run" where
  "box_mapat_locked e addr n prot flags fd off bm = (case bm of (b, m) \<Rightarrow>
     if \<not> lfi_box_bufvalid b addr n then Some (-1, b, m)
     else do {
       (m_addr, calls, mm) \<leftarrow> map_at True addr n (info prot flags fd off) (bx_mm b);
       let b = b\<lparr>bx_mm := mm\<rparr>;
       let m = cbunmaps e b calls m;
       if m_addr = MM_FAIL then Some (-1, b, m)
       else let (r, m) = mapverify e b m_addr n prot flags fd off False m
            in if r < 0 then
                 (let (_, calls, mm) = as_unmap True m_addr n (bx_mm b)
                  in Some (-1, b\<lparr>bx_mm := mm\<rparr>, cbunmaps e b calls m))
               else Some (m_addr, b, m)
     })"

definition lfi_box_mapat_register ::
  "host_env \<Rightarrow> u64 \<Rightarrow> u64 \<Rightarrow> u32 \<Rightarrow> u32 \<Rightarrow> u32 \<Rightarrow> u64 \<Rightarrow> lfi_box \<times> vm \<Rightarrow>
   (u64 \<times> lfi_box \<times> vm) run" where
  "lfi_box_mapat_register e addr n prot flags fd off bm = (case bm of (b, m) \<Rightarrow>
     if \<not> lfi_box_bufvalid b addr n then Some (-1, b, m)
     else do {
       (m_addr, calls, mm) \<leftarrow> map_at True addr n (info prot flags fd off) (bx_mm b);
       let b = b\<lparr>bx_mm := mm\<rparr>;
       let m = cbunmaps e b calls m;
       if m_addr = MM_FAIL then Some (-1, b, m)
       else let (ok, m) = verify e b m_addr n prot m
            in if \<not> ok then
                 (let (_, _, mm) = as_unmap False m_addr n (bx_mm b) in Some (-1, b\<lparr>bx_mm := mm\<rparr>, m))
               else Some (m_addr, b, m)
     })"

definition box_mprotect_locked ::
  "host_env \<Rightarrow> u64 \<Rightarrow> u64 \<Rightarrow> u32 \<Rightarrow> bool \<Rightarrow> lfi_box \<times> vm \<Rightarrow> int \<times> lfi_box \<times> vm" where
  "box_mprotect_locked e addr n prot no_verify bm = (case bm of (b, m) \<Rightarrow>
     let ps = opt_pagesize (bx_opts b)
     in if n = 0 \<or> addr mod ps \<noteq> 0 \<or> n mod ps \<noteq> 0 then (-1, b, m)
        else if \<not> lfi_box_bufvalid b addr n then (-1, b, m)
        else let (r, m) = protectverify e b addr n prot no_verify m
             in if r < 0 then (r, b, m)
                else let (err, _, mm) = as_protect False addr n prot (bx_mm b)
                     in (case err of MMAP_OK \<Rightarrow> 0 | MMAP_INVAL \<Rightarrow> 1 | MMAP_NOMEM \<Rightarrow> 2,
                         b\<lparr>bx_mm := mm\<rparr>, m))"

definition EINVAL :: int where "EINVAL = 22"
definition ENOMEM :: int where "ENOMEM = 12"

definition box_munmap_locked ::
  "host_env \<Rightarrow> u64 \<Rightarrow> u64 \<Rightarrow> lfi_box \<times> vm \<Rightarrow> int \<times> lfi_box \<times> vm" where
  "box_munmap_locked e addr n bm = (case bm of (b, m) \<Rightarrow>
     let ps = opt_pagesize (bx_opts b)
     in if \<not> lfi_box_bufvalid b addr n \<or> n = 0 \<or> addr mod ps \<noteq> 0 then (- EINVAL, b, m)
        else let len = (n + ps - 1) AND NOT (ps - 1);
                 (ok, m) = vm_mmap e ps addr len no_access True (-1) 0 m
             in if \<not> ok then (- ENOMEM, b, m)
                else let (err, _, mm) = as_unmap False addr n (bx_mm b)
                     in (if err \<noteq> MMAP_OK then - EINVAL else 0, b\<lparr>bx_mm := mm\<rparr>, m))"

definition lfi_box_mquery :: "u64 \<Rightarrow> lfi_box \<Rightarrow> map_info option" where
  "lfi_box_mquery addr b = query_page addr (bx_mm b)"

definition lfi_box_free ::
  "host_env \<Rightarrow> arch \<Rightarrow> boxmap \<Rightarrow> lfi_box \<times> vm \<Rightarrow> (boxmap \<times> vm) run" where
  "lfi_box_free e ar pool bm = (case bm of (b, m) \<Rightarrow>
     let ps = opt_pagesize (bx_opts b);
         (ok, m) = vm_mmap e ps (bx_base b - ps) (bx_size b + ps) no_access True (-1) 0 m
     in do {
       check ok;
       pool \<leftarrow> boxmap_rmspace pool (bx_base b) (box_footprint ar (bx_size b));
       Some (pool, m)
     })"

text \<open>The exported operations: the locked ones, with the caller's choice of verification.\<close>

definition lfi_box_mapany_noverify ::
  "host_env \<Rightarrow> u64 \<Rightarrow> u32 \<Rightarrow> u32 \<Rightarrow> u32 \<Rightarrow> u64 \<Rightarrow> lfi_box \<times> vm \<Rightarrow> (u64 \<times> lfi_box \<times> vm) run" where
  "lfi_box_mapany_noverify e n prot flags fd off bm = box_mapany_locked e n prot flags fd off True bm"

definition lfi_box_mapany ::
  "host_env \<Rightarrow> u64 \<Rightarrow> u32 \<Rightarrow> u32 \<Rightarrow> u32 \<Rightarrow> u64 \<Rightarrow> lfi_box \<times> vm \<Rightarrow> (u64 \<times> lfi_box \<times> vm) run" where
  "lfi_box_mapany e n prot flags fd off bm = box_mapany_locked e n prot flags fd off False bm"

definition lfi_box_mapat ::
  "host_env \<Rightarrow> u64 \<Rightarrow> u64 \<Rightarrow> u32 \<Rightarrow> u32 \<Rightarrow> u32 \<Rightarrow> u64 \<Rightarrow> lfi_box \<times> vm \<Rightarrow>
   (u64 \<times> lfi_box \<times> vm) run" where
  "lfi_box_mapat e addr n prot flags fd off bm = box_mapat_locked e addr n prot flags fd off bm"

definition lfi_box_mprotect ::
  "host_env \<Rightarrow> u64 \<Rightarrow> u64 \<Rightarrow> u32 \<Rightarrow> lfi_box \<times> vm \<Rightarrow> int \<times> lfi_box \<times> vm" where
  "lfi_box_mprotect e addr n prot bm = box_mprotect_locked e addr n prot False bm"

definition lfi_box_mprotect_noverify ::
  "host_env \<Rightarrow> u64 \<Rightarrow> u64 \<Rightarrow> u32 \<Rightarrow> lfi_box \<times> vm \<Rightarrow> int \<times> lfi_box \<times> vm" where
  "lfi_box_mprotect_noverify e addr n prot bm = box_mprotect_locked e addr n prot True bm"

definition lfi_box_munmap :: "host_env \<Rightarrow> u64 \<Rightarrow> u64 \<Rightarrow> lfi_box \<times> vm \<Rightarrow> int \<times> lfi_box \<times> vm" where
  "lfi_box_munmap e addr n bm = box_munmap_locked e addr n bm"

subsection \<open>Accessing sandbox memory from the host\<close>

definition SIZE_MAX :: u64 where "SIZE_MAX = -1"

text \<open>\<^verbatim>\<open>strnlen\<close>: the position of the first zero among the next \<open>k\<close> bytes, else \<open>k\<close>.\<close>

fun strnlen_loop :: "vm \<Rightarrow> u64 \<Rightarrow> nat \<Rightarrow> nat" where
  "strnlen_loop m p 0 = 0"
| "strnlen_loop m p (Suc k) = (if vm_mem m p = 0 then 0 else 1 + strnlen_loop m (p + 1) k)"

definition lfi_box_strnlen :: "lfi_box \<Rightarrow> vm \<Rightarrow> u64 \<Rightarrow> u64 \<Rightarrow> u64 run" where
  "lfi_box_strnlen b m addr maxn =
     (if \<not> lfi_box_ptrvalid b addr then Some SIZE_MAX
      else let room = bx_max b - addr;
               limit = (if maxn < room then maxn else room);
               n = strnlen_loop m addr (unat limit)
           in do {
             check (pages_have acc_r (opt_pagesize (bx_opts b)) m addr (min (n + 1) (unat limit)));
             Some (if of_nat n = limit then SIZE_MAX else of_nat n)
           })"

definition vm_write :: "u64 \<Rightarrow> u64 \<Rightarrow> u8 list \<Rightarrow> vm \<Rightarrow> vm run" where
  "vm_write ps p bs m = do {
     check (pages_have acc_w ps m p (length bs));
     Some (m\<lparr>vm_mem := fold (\<lambda>i f. f(p + of_nat i := bs ! i)) [0 ..< length bs] (vm_mem m)\<rparr>)
   }"

definition lfi_box_copyfm :: "lfi_box \<Rightarrow> vm \<Rightarrow> u64 \<Rightarrow> u64 \<Rightarrow> u8 list run" where
  "lfi_box_copyfm b m src n = do {
     check (lfi_box_bufvalid b src n);
     check (pages_have acc_r (opt_pagesize (bx_opts b)) m src (unat n));
     Some (vm_bytes m src n)
   }"

definition lfi_box_copyto :: "lfi_box \<Rightarrow> u64 \<Rightarrow> u8 list \<Rightarrow> vm \<Rightarrow> vm run" where
  "lfi_box_copyto b dst bs m = do {
     check (lfi_box_bufvalid b dst (of_nat (length bs)));
     vm_write (opt_pagesize (bx_opts b)) dst bs m
   }"

subsection \<open>The return stub\<close>

fun ret_code :: "arch \<Rightarrow> u8 list" where
  "ret_code ARM64 = [0x7e, 0x03, 0x5e, 0xf8, 0xc0, 0x03, 0x3f, 0xd6]"
| "ret_code X64 = [0x4c, 0x8d, 0x1d, 0x04, 0x00, 0x00, 0x00, 0x41, 0xff, 0x66, 0xe0]"
| "ret_code RISCV64 = [0x83, 0xb0, 0x0a, 0xfe, 0xe7, 0x80, 0x00, 0x00]"

definition lfi_box_init_ret ::
  "host_env \<Rightarrow> arch \<Rightarrow> lfi_box \<times> vm \<Rightarrow> (bool \<times> lfi_box \<times> vm) run" where
  "lfi_box_init_ret e ar bm = do {
     let ps = opt_pagesize (bx_opts (fst bm));
     (p, b, m) \<leftarrow> box_mapany_locked e ps (LFI_PROT_READ OR LFI_PROT_WRITE)
                     (LFI_MAP_ANONYMOUS OR LFI_MAP_PRIVATE) (-1) 0 False bm;
     if p = -1 \<or> \<not> lfi_box_ptrvalid b p then Some (False, b, m)
     else do {
       m \<leftarrow> (if ar = X64 then vm_write ps p (replicate (unat ps) 0xcc) m else Some m);
       m \<leftarrow> lfi_box_copyto b p (ret_code ar) m;
       let (r, b, m) = box_mprotect_locked e p ps (LFI_PROT_READ OR LFI_PROT_EXEC) False (b, m);
       if r \<noteq> 0 then Some (False, b, m)
       else Some (True, b\<lparr>bx_retaddr := p\<rparr>, m)
     }
   }"

definition lfi_box_register_ret :: "u64 \<Rightarrow> lfi_box \<Rightarrow> lfi_box run" where
  "lfi_box_register_ret retaddr b = do {
     check (lfi_box_ptrvalid b retaddr);
     Some (b\<lparr>bx_retaddr := retaddr\<rparr>)
   }"


subsection \<open>Executable pages stay verified\<close>

lemma host_prot_simps [simp]:
  "acc_x (host_prot prot) = has_flag prot LFI_PROT_EXEC"
  "acc_w (host_prot prot) = has_flag prot LFI_PROT_WRITE"
  "acc_r (host_prot prot) = has_flag prot LFI_PROT_READ"
  by (simp_all add: host_prot_def)

lemma prot_read_flags [simp]:
  "\<not> has_flag LFI_PROT_READ LFI_PROT_EXEC" "\<not> has_flag LFI_PROT_READ LFI_PROT_WRITE"
  by (simp_all add: has_flag_def lfi_flags)

text \<open>
  The documented behaviour of \<^verbatim>\<open>mprotect\<close> the proof of \<^verbatim>\<open>protectverify\<close> rests on: lowering
  the rights of mapped pages to read-only succeeds. (The code ignores that call's result.)
\<close>

definition can_lower :: "host_env \<Rightarrow> bool" where
  "can_lower e \<longleftrightarrow> (\<forall>i. he_ok e i (HMprotect read_only))"

abbreviation bx_ps :: "lfi_box \<Rightarrow> u64" where
  "bx_ps b \<equiv> opt_pagesize (bx_opts b)"

lemma protectmem_simps:
  "snd (protectmem e b p n acc m) = snd (vm_mprotect e (bx_ps b) p n acc m)"
  "fst (protectmem e b p n acc m) = (if fst (vm_mprotect e (bx_ps b) p n acc m) then 0 else -1)"
  by (simp_all add: protectmem_def split_beta)

lemma mapmem_simps:
  "snd (mapmem e b p n prot flags fd off m) = snd (vm_mmap e (bx_ps b) p n (host_prot prot)
     (hf_anonymous (host_flags flags)) fd off m)"
  "fst (mapmem e b p n prot flags fd off m) = (if fst (vm_mmap e (bx_ps b) p n (host_prot prot)
     (hf_anonymous (host_flags flags)) fd off m) then 0 else -1)"
  by (simp_all add: mapmem_def split_beta)

lemma protectmem_x_safe:
  "\<not> acc_x acc \<Longrightarrow> x_safe e (bx_ps b) m k \<Longrightarrow> x_safe e (bx_ps b) (snd (protectmem e b p n acc m)) k"
  by (simp add: protectmem_simps vm_mprotect_x_safe)

lemma mapmem_x_safe:
  "\<not> has_flag prot LFI_PROT_EXEC \<Longrightarrow> x_safe e (bx_ps b) m k \<Longrightarrow>
     x_safe e (bx_ps b) (snd (mapmem e b p n prot flags fd off m)) k"
  by (simp add: mapmem_simps vm_mmap_x_safe)

lemma protectmem_verified:
  assumes "x_safe e (bx_ps b) m k" "\<And>k. in_pages (bx_ps b) p n k \<Longrightarrow> \<not> acc_w (vm_acc m k)"
    "he_verify e (vm_bytes m p n) p" "0 < unat (bx_ps b)" "unat (bx_ps b) dvd unat p"
    "unat (bx_ps b) dvd unat n" "\<not> acc_w acc"
  shows "x_safe e (bx_ps b) (snd (protectmem e b p n acc m)) k"
  unfolding protectmem_simps
  by (rule verified_x_safe [where in_box = "\<lambda>i. i = k"]) (use assms in auto)

lemma protectmem_scan [simp]:
  "x_safe e ps (snd (protectmem e b p n acc (vm_scan q a l m))) k = x_safe e ps (snd (protectmem e b p n acc m)) k"
  "fst (protectmem e b p n acc (vm_scan q a l m)) = fst (protectmem e b p n acc m)"
  by (simp_all add: protectmem_def vm_mprotect_scan split_beta)

lemma page_alignedD: "page_aligned ps p \<Longrightarrow> unat ps dvd unat p"
  by (simp add: page_aligned_def mod_eq_0_iff_dvd)

lemma protectverify_x_safe:
  assumes safe: "x_safe e (bx_ps b) m k" and v: "\<not> opt_no_verify (bx_opts b)" "\<not> no_verify"
    and low: "can_lower e"
    and al: "0 < unat (bx_ps b)" "unat (bx_ps b) dvd unat p" "unat (bx_ps b) dvd unat n"
  shows "x_safe e (bx_ps b) (snd (protectverify e b p n prot no_verify m)) k"
proof (cases "has_flag prot LFI_PROT_EXEC")
  case False
  then show ?thesis using protectmem_x_safe [of "host_prot prot"] safe
    by (simp add: protectverify_def)
next
  case x: True
  show ?thesis
  proof (cases "has_flag prot LFI_PROT_WRITE")
    case True
    then show ?thesis using x v safe by (simp add: protectverify_def Let_def)
  next
    case False
    let ?m1 = "snd (protectmem e b p n read_only m)"
    have s1: "x_safe e (bx_ps b) ?m1 k" using protectmem_x_safe [OF _ safe] by simp
    have "page_aligned (bx_ps b) p" using al(2) by (simp add: page_aligned_def)
    then have "fst (vm_mprotect e (bx_ps b) p n read_only m)"
      using low by (simp add: vm_mprotect_def can_lower_def Let_def)
    then have "\<not> acc_w (vm_acc ?m1 i)" if "in_pages (bx_ps b) p n i" for i
      using that by (simp add: protectmem_simps vm_mprotect_acc)
    then have "x_safe e (bx_ps b) (snd (protectmem e b p n (host_prot prot) ?m1)) k"
      if "he_verify e (vm_bytes ?m1 p n) p"
      using protectmem_verified [OF s1 _ that al, of "host_prot prot"] False by simp
    then show ?thesis using x False v s1 by (simp add: protectverify_def Let_def split_beta)
  qed
qed

lemma mapverify_x_safe:
  assumes safe: "x_safe e (bx_ps b) m k" and v: "\<not> opt_no_verify (bx_opts b)" "\<not> no_verify"
    and al: "0 < unat (bx_ps b)" "unat (bx_ps b) dvd unat n"
  shows "x_safe e (bx_ps b) (snd (mapverify e b p n prot flags fd off no_verify m)) k"
proof (cases "has_flag prot LFI_PROT_EXEC")
  case False
  then show ?thesis using mapmem_x_safe safe by (simp add: mapverify_def)
next
  case x: True
  show ?thesis
  proof (cases "has_flag prot LFI_PROT_WRITE")
    case True
    then show ?thesis using x v safe by (simp add: mapverify_def Let_def)
  next
    case False
    let ?mm = "mapmem e b p n LFI_PROT_READ flags fd off m"
    have s1: "x_safe e (bx_ps b) (snd ?mm) k" using mapmem_x_safe [OF _ safe] by simp
    show ?thesis
    proof (cases "fst ?mm < 0")
      case True
      then show ?thesis using x False v s1 by (simp add: mapverify_def split_beta Let_def)
    next
      case r: False
      have ok: "fst (vm_mmap e (bx_ps b) p n (host_prot LFI_PROT_READ)
          (hf_anonymous (host_flags flags)) fd off m)"
        using r by (simp add: mapmem_simps split: if_splits)
      then have "unat (bx_ps b) dvd unat p"
        by (intro page_alignedD) (auto simp: vm_mmap_def Let_def split: if_splits)
      moreover have "\<not> acc_w (vm_acc (snd ?mm) i)" if "in_pages (bx_ps b) p n i" for i
        using ok that by (simp add: mapmem_simps vm_mmap_acc)
      ultimately have "x_safe e (bx_ps b) (snd (protectmem e b p n (host_prot prot) (snd ?mm))) k"
        if "he_verify e (vm_bytes (snd ?mm) p n) p"
        using protectmem_verified [OF s1 _ that al(1) _ al(2), of "host_prot prot"] False by simp
      then show ?thesis using x False v s1 r by (simp add: mapverify_def split_beta Let_def)
    qed
  qed
qed

lemma cbunmap_x_safe:
  "x_safe e (bx_ps b) m k \<Longrightarrow> x_safe e (bx_ps b) (cbunmap e b c m) k"
  by (cases c) (simp add: cbunmap_def split_beta Let_def vm_mmap_x_safe vm_mprotect_x_safe)

lemma cbunmaps_x_safe:
  "x_safe e (bx_ps b) m k \<Longrightarrow> x_safe e (bx_ps b) (cbunmaps e b cs m) k"
  unfolding cbunmaps_def by (induction cs arbitrary: m) (simp_all add: cbunmap_x_safe)

end
