(* ===== verification/BoxSafety.thy ===== *)
theory BoxSafety
  imports Box
begin

text \<open>
  What the operations of a box guarantee together: executable pages hold verified code and
  are not writable, and no operation changes the access of a page outside the box.
\<close>

subsection \<open>Well-formed boxes\<close>

text \<open>The tracker covers exactly the pages of \<open>[min, max)\<close>.\<close>

definition box_ok :: "lfi_box \<Rightarrow> bool" where
  "box_ok b \<longleftrightarrow> as_inv (bx_mm b) \<and> unat (bx_ps b) = 2 ^ as_p2 (bx_mm b) \<and>
     unat (bx_min b) = unat (as_base (bx_mm b)) * unat (bx_ps b) \<and>
     unat (bx_max b) = (unat (as_base (bx_mm b)) + unat (as_len (bx_mm b))) * unat (bx_ps b)"

definition box_page :: "lfi_box \<Rightarrow> nat \<Rightarrow> bool" where
  "box_page b k \<longleftrightarrow> unat (bx_min b) div unat (bx_ps b) \<le> k \<and>
     k < unat (bx_max b) div unat (bx_ps b)"

lemma box_page_eq:
  assumes "box_ok b"
  shows "box_page b k \<longleftrightarrow> unat (as_base (bx_mm b)) \<le> k \<and>
    k < unat (as_base (bx_mm b)) + unat (as_len (bx_mm b))"
proof -
  have "0 < unat (bx_ps b)" using assms by (simp add: box_ok_def)
  then show ?thesis using assms unfolding box_ok_def box_page_def
    by (metis less_not_refl nonzero_mult_div_cancel_right)
qed

lemma box_ok_update:
  assumes "box_ok b" "as_inv mm" "same_region mm (bx_mm b)"
  shows "box_ok (b\<lparr>bx_mm := mm\<rparr>)" "box_page (b\<lparr>bx_mm := mm\<rparr>) = box_page b"
  using assms by (auto simp: box_ok_def same_region_def box_page_def fun_eq_iff)

lemma ceil_div: "0 < (s :: nat) \<Longrightarrow> (n + s - 1) div s = n div s + (if n mod s = 0 then 0 else 1)"
proof -
  assume s: "0 < s"
  have n: "n = s * (n div s) + n mod s" by simp
  show ?thesis
  proof (cases "n mod s = 0")
    case True
    have "n + s - 1 = (s - 1) + s * (n div s)" using n True s by linarith
    also have "\<dots> div s = n div s + (s - 1) div s" using s by (intro div_mult_self2) simp
    finally show ?thesis using True s by simp
  next
    case False
    have "s * (n div s + 1) = s * (n div s) + s" by simp
    then have "n + s - 1 = (n mod s - 1) + s * (n div s + 1)" using n False by linarith
    also have "\<dots> div s = (n div s + 1) + (n mod s - 1) div s" using s by (intro div_mult_self2) simp
    finally show ?thesis using False s by (simp add: less_imp_diff_less)
  qed
qed

text \<open>The pages of a valid run, in the host's and in the tracker's terms.\<close>

lemma in_pages_run:
  assumes b: "box_ok b" and v: "as_is_valid (bx_mm b) s (to_page_ceil (bx_mm b) n)"
    and p: "unat p = unat s * unat (bx_ps b)" and k: "in_pages (bx_ps b) p n k"
  shows "box_page b k"
proof -
  let ?a = "bx_mm b" and ?ps = "unat (bx_ps b)"
  have ps: "0 < ?ps" "?ps = 2 ^ as_p2 ?a" and inv: "as_inv ?a" using b by (auto simp: box_ok_def)
  have "unat p + unat n + ?ps - 1 = unat n + ?ps - 1 + ?ps * unat s"
    unfolding p mult.commute [of "unat s"] using ps(1) by linarith
  then have "(unat p + unat n + ?ps - 1) div ?ps = (unat n + ?ps - 1 + ?ps * unat s) div ?ps"
    by (rule arg_cong)
  also have "\<dots> = unat s + (unat n + ?ps - 1) div ?ps" using ps(1) by (intro div_mult_self2) simp
  also have "\<dots> = unat s + unat (to_page_ceil ?a n)"
    unfolding ceil_div [OF ps(1)] using inv by (simp add: unat_to_page_ceil ps(2) as_inv_def)
  finally have "k < unat s + unat (to_page_ceil ?a n)" using k by (simp add: in_pages_def)
  moreover have "unat s \<le> k" using k ps(1) by (simp add: in_pages_def pg_def p)
  ultimately show ?thesis using v as_is_valid_iff [OF inv] by (simp add: box_page_eq [OF b])
qed

text \<open>A call keeps the access of all pages but those of its range.\<close>

definition keeps :: "(nat \<Rightarrow> bool) \<Rightarrow> vm \<Rightarrow> vm \<Rightarrow> bool" where
  "keeps P m m' \<longleftrightarrow> (\<forall>k. \<not> P k \<longrightarrow> vm_acc m' k = vm_acc m k)"

lemma keeps_refl [simp]: "keeps P m m"
  by (simp add: keeps_def)

lemma keeps_scan [simp]: "keeps P m (vm_scan q p n m') = keeps P m m'"
  by (simp add: keeps_def)

lemma verify_frame [simp]:
  "keeps P m (snd (verify e b p n prot m')) = keeps P m m'" "vm_acc (snd (verify e b p n prot m')) = vm_acc m'"
  "x_safe e' ps (snd (verify e b p n prot m')) k = x_safe e' ps m' k"
  by (simp_all add: verify_def Let_def)

lemma keeps_calls:
  assumes "\<forall>k. in_pages (bx_ps b) p n k \<longrightarrow> P k" "keeps P m0 m"
  shows "keeps P m0 (snd (protectmem e b p n acc m))"
    "keeps P m0 (snd (mapmem e b p n prot flags fd off m))"
    "keeps P m0 (snd (vm_mmap e (bx_ps b) p n acc anon fd off m))"
    "keeps P m0 (snd (vm_mprotect e (bx_ps b) p n acc m))"
  using assms by (auto simp: keeps_def protectmem_simps mapmem_simps vm_mmap_acc vm_mprotect_acc)

lemma keeps_verify:
  assumes "\<forall>k. in_pages (bx_ps b) p n k \<longrightarrow> P k" "keeps P m0 m"
  shows "keeps P m0 (snd (protectverify e b p n prot nv m))"
    "keeps P m0 (snd (mapverify e b p n prot flags fd off nv m))"
  using assms(2)
  by (simp_all add: protectverify_def mapverify_def split_beta Let_def keeps_calls [OF assms(1)])

lemma keeps_cbunmap:
  assumes "\<forall>k. in_pages (bx_ps b) (fst c) (fst (snd c)) k \<longrightarrow> P k" "keeps P m0 m"
  shows "keeps P m0 (cbunmap e b c m)"
  using assms(2) by (simp add: cbunmap_def split_beta Let_def keeps_calls [OF assms(1)])

lemma keeps_cbunmaps:
  "\<forall>c \<in> set cs. \<forall>k. in_pages (bx_ps b) (fst c) (fst (snd c)) k \<longrightarrow> P k \<Longrightarrow> keeps P m0 m \<Longrightarrow>
     keeps P m0 (cbunmaps e b cs m)"
  unfolding cbunmaps_def by (induction cs arbitrary: m) (simp_all add: keeps_cbunmap)

text \<open>The ranges handed to the unmapping callback lie in the box.\<close>

lemma unmap_calls_inside:
  assumes b: "box_ok b" and u: "as_unmap True addr n (bx_mm b) = (err, calls, mm)" and c: "c \<in> set calls"
    and k: "in_pages (bx_ps b) (fst c) (fst (snd c)) k"
  shows "box_page b k"
proof -
  let ?a = "bx_mm b" and ?ps = "unat (bx_ps b)"
  have inv: "as_inv ?a" and ps: "?ps = 2 ^ as_p2 ?a" using b by (auto simp: box_ok_def)
  have ok: "args_ok ?a addr n" using u c by (auto simp: as_unmap_def split: if_splits)
  note run = args_run [OF inv ok]
  have rm: "rm_inv (as_regions ?a)" using inv by (simp add: as_inv_def)
  note cl = clips_eq [OF rm run(1)]
  let ?cs = "map (clip (to_page ?a addr) (to_page ?a addr + to_page_ceil ?a n))
      (get_overlapping (to_page ?a addr) (to_page ?a addr + to_page_ceil ?a n) (as_regions ?a))"
  have "c \<in> clip_call ?a ` set ?cs" using u c ok by (auto simp: as_unmap_def Let_def)
  then obtain s e v where x: "(s, e, v) \<in> set ?cs" "c = clip_call ?a (s, e, v)" by auto
  have se: "to_page ?a addr \<le> s" "s < e" "e \<le> to_page ?a addr + to_page_ceil ?a n"
    using cl(3) [OF x(1)] by auto
  have e: "unat e \<le> unat (as_base ?a) + unat (as_len ?a)" "unat (as_base ?a) \<le> unat s"
    using se run(2,3) as_inv_top [OF inv] by (auto simp: word_le_nat_alt)
  have "unat e * ?ps \<le> (unat (as_base ?a) + unat (as_len ?a)) * ?ps" using e(1) by (rule mult_le_mono1)
  also have "\<dots> < 2 ^ 64" using inv ps by (simp add: as_inv_def)
  finally have e64: "unat e * ?ps < 2 ^ 64" .
  have s1: "unat s * ?ps \<le> unat e * ?ps" using se(2) by (intro mult_le_mono1) (simp add: word_less_nat_alt)
  note s64 = le_less_trans [OF s1 e64] s1
  have sa: "unat (to_addr ?a s) = unat s * ?ps" "unat (to_addr ?a e) = unat e * ?ps"
    using s64 e64 by (simp_all add: ps unat_to_addr)
  have l: "unat (to_addr ?a e - to_addr ?a s) = unat e * ?ps - unat s * ?ps"
    using s64 sa by (simp add: unat_sub64')
  have fc: "fst c = to_addr ?a s" "fst (snd c) = to_addr ?a e - to_addr ?a s"
    using x(2) by (simp_all add: clip_call_def)
  have ps0: "0 < ?ps" using ps by simp
  have "unat (fst c) + unat (fst (snd c)) + ?ps - 1 = (?ps - 1) + ?ps * unat e"
    unfolding fc sa l using s64(2) ps0 by (simp add: mult.commute)
  also have "\<dots> div ?ps = unat e + (?ps - 1) div ?ps" using ps0 by (intro div_mult_self2) simp
  also have "(?ps - 1) div ?ps = 0" using ps0 by simp
  finally have "k < unat e" using k by (simp add: in_pages_def)
  moreover have "unat s \<le> k" using k ps0 by (simp add: in_pages_def pg_def fc sa)
  ultimately show ?thesis using e by (simp add: box_page_eq [OF b])
qed


subsection \<open>One operation\<close>

text \<open>What every operation does to a box and its memory.\<close>

definition box_effect :: "host_env \<Rightarrow> lfi_box \<Rightarrow> vm \<Rightarrow> lfi_box \<Rightarrow> vm \<Rightarrow> bool" where
  "box_effect e b m b' m' \<longleftrightarrow>
     (\<exists>mm. b' = b\<lparr>bx_mm := mm\<rparr> \<and> as_inv mm \<and> same_region mm (bx_mm b)) \<and>
     keeps (box_page b) m m'"

lemma box_effect_refl: "box_ok b \<Longrightarrow> box_effect e b m b m"
  unfolding box_effect_def box_ok_def by (auto intro!: exI [of _ "bx_mm b"])

lemma map_at_total:
  assumes "as_inv a"
  shows "\<exists>r calls a'. map_at True addr n i a = Some (r, calls, a') \<and> as_inv a' \<and> same_region a' a \<and>
    (r = addr \<and> args_ok a addr n \<or> r = MM_FAIL \<and> calls = [] \<and> a' = a) \<and>
    (\<exists>err mm. calls = [] \<or> as_unmap True addr n a = (err, calls, mm))"
proof (cases "args_ok a addr n")
  case False
  then show ?thesis using assms by (simp add: map_at_def)
next
  case True
  obtain calls a' where "map_at True addr n i a = Some (addr, calls, a')" "as_inv a'"
    "same_region a' a" "as_unmap True addr n a = (MMAP_OK, calls, snd (snd (as_unmap True addr n a)))"
    by (rule map_at_eq [OF assms True, of True i]) blast
  then show ?thesis using True by blast
qed

lemma as_unmap_total:
  assumes "as_inv a" "as_unmap ufn addr n a = (err, calls, a')"
  shows "as_inv a' \<and> same_region a' a"
proof (cases "args_ok a addr n")
  case True
  then show ?thesis using as_unmap_eq [OF assms(1) True, of ufn] assms(2) by auto
next
  case False
  then show ?thesis using assms by (simp add: as_unmap_def)
qed

lemma same_region_trans: "same_region a b \<Longrightarrow> same_region b c \<Longrightarrow> same_region a c"
  by (simp add: same_region_def)

lemma bx_mm_update [simp]: "bx_ps (b\<lparr>bx_mm := mm\<rparr>) = bx_ps b" "bx_opts (b\<lparr>bx_mm := mm\<rparr>) = bx_opts b"
  by simp_all

text \<open>The common tail of the mapping operations: undo the mapping when it was refused.\<close>

lemma undo_effect:
  assumes b: "box_ok b" and mm: "as_inv mm" "same_region mm (bx_mm b)"
    and kp: "keeps (box_page b) m0 m" and u: "as_unmap True p n mm = (err, calls, mm')"
  shows "as_inv mm'" "same_region mm' (bx_mm b)"
    "keeps (box_page b) m0 (cbunmaps e (b\<lparr>bx_mm := mm\<rparr>) calls m)"
proof -
  note bo = box_ok_update [OF b mm]
  show "as_inv mm'" "same_region mm' (bx_mm b)"
    using as_unmap_total [OF mm(1) u] same_region_trans [OF _ mm(2)] by auto
  have u': "as_unmap True p n (bx_mm (b\<lparr>bx_mm := mm\<rparr>)) = (err, calls, mm')" using u by simp
  show "keeps (box_page b) m0 (cbunmaps e (b\<lparr>bx_mm := mm\<rparr>) calls m)"
    using unmap_calls_inside [OF bo(1) u'] kp by (intro keeps_cbunmaps) (auto simp: bo(2))
qed

lemma box_update [simp]:
  "cbunmap e (b\<lparr>bx_mm := mm\<rparr>) = cbunmap e b"
  "cbunmaps e (b\<lparr>bx_mm := mm\<rparr>) = cbunmaps e b"
  "mapmem e (b\<lparr>bx_mm := mm\<rparr>) = mapmem e b"
  "protectmem e (b\<lparr>bx_mm := mm\<rparr>) = protectmem e b"
  "mapverify e (b\<lparr>bx_mm := mm\<rparr>) = mapverify e b"
proof -
  show c: "cbunmap e (b\<lparr>bx_mm := mm\<rparr>) = cbunmap e b" by (intro ext) (simp add: cbunmap_def split_beta)
  show "cbunmaps e (b\<lparr>bx_mm := mm\<rparr>) = cbunmaps e b" by (intro ext) (simp add: cbunmaps_def c)
  show m: "mapmem e (b\<lparr>bx_mm := mm\<rparr>) = mapmem e b" by (intro ext) (simp add: mapmem_def split_beta)
  show p: "protectmem e (b\<lparr>bx_mm := mm\<rparr>) = protectmem e b"
    by (intro ext) (simp add: protectmem_def split_beta)
  show "mapverify e (b\<lparr>bx_mm := mm\<rparr>) = mapverify e b"
    by (intro ext) (simp only: mapverify_def m p bx_mm_update)
qed

lemma mapany_effect:
  assumes b: "box_ok b"
  shows "\<exists>r b' m'. box_mapany_locked e n prot flags fd off nv (b, m) = Some (r, b', m') \<and>
    box_effect e b m b' m'"
proof (cases "n = 0")
  case True
  then show ?thesis using box_effect_refl [OF b]
    by (simp add: box_mapany_locked_def map_any_def)
next
  case False
  have inv: "as_inv (bx_mm b)" using b by (simp add: box_ok_def)
  from inv False show ?thesis
  proof (cases rule: map_any_cases [where hint = 0 and info = "info prot flags fd off"])
    case (full mm)
    then show ?thesis by (auto simp: box_mapany_locked_def box_effect_def)
  next
    case (mapped s mm)
    let ?p = "to_addr (bx_mm b) s"
    have v: "as_is_valid (bx_mm b) s (to_page_ceil (bx_mm b) n)" "to_page_ceil (bx_mm b) n \<noteq> 0"
      using mapped(2) False inv by (auto simp: free_run_def to_page_ceil_0 as_inv_def)
    have "unat ?p = unat s * unat (bx_ps b)"
      using to_page_to_addr(2) [OF inv v] b by (simp add: box_ok_def)
    then have pages: "\<forall>k. in_pages (bx_ps b) ?p n k \<longrightarrow> box_page b k"
      using in_pages_run [OF b v(1)] by blast
    let ?r = "mapverify e b ?p n prot flags fd off nv m"
    have kp: "keeps (box_page b) m (snd ?r)" by (rule keeps_verify(2) [OF pages keeps_refl])
    obtain err calls mm' where u: "as_unmap True ?p n mm = (err, calls, mm')" by (metis prod_cases3)
    note un = undo_effect [OF b mapped(3,4) kp u]
    show ?thesis using mapped(1,3,4) kp un u
      by (auto simp: box_mapany_locked_def box_effect_def split_beta Let_def)
  qed
qed


lemma args_ok_pages:
  assumes b: "box_ok b" and ok: "args_ok (bx_mm b) p n"
  shows "\<forall>k. in_pages (bx_ps b) p n k \<longrightarrow> box_page b k"
proof -
  let ?a = "bx_mm b"
  have p2: "as_p2 ?a < 64" and ps: "unat (bx_ps b) = 2 ^ as_p2 ?a"
    using b by (auto simp: box_ok_def as_inv_def)
  have "unat (p mod push_bit (as_p2 ?a) 1) = unat (0 :: u64)" using ok by (simp add: args_ok_def)
  then have "unat p mod 2 ^ as_p2 ?a = 0" by (simp only: unat_mod64 unat_push1 [OF p2] unat_0)
  then have "unat p = unat (to_page ?a p) * unat (bx_ps b)"
    by (simp add: unat_to_page ps mod_0_imp_dvd)
  then show ?thesis using in_pages_run [OF b] ok by (auto simp: args_ok_def)
qed

lemma mapat_prefix:
  assumes b: "box_ok b"
    and ma: "map_at True addr n i (bx_mm b) = Some (r, calls, mm)"
  shows "as_inv mm" "same_region mm (bx_mm b)" "keeps (box_page b) m (cbunmaps e b calls m)"
    "r \<noteq> MM_FAIL \<Longrightarrow> r = addr \<and> args_ok (bx_mm b) addr n"
proof -
  have inv: "as_inv (bx_mm b)" using b by (simp add: box_ok_def)
  from map_at_total [OF inv, of addr n i] ma
  have mm: "as_inv mm" "same_region mm (bx_mm b)"
    "r = addr \<and> args_ok (bx_mm b) addr n \<or> r = MM_FAIL \<and> calls = [] \<and> mm = bx_mm b"
    and u: "\<exists>err a'. calls = [] \<or> as_unmap True addr n (bx_mm b) = (err, calls, a')" by auto
  show "as_inv mm" "same_region mm (bx_mm b)" by (rule mm)+
  show "r \<noteq> MM_FAIL \<Longrightarrow> r = addr \<and> args_ok (bx_mm b) addr n" using mm(3) by blast
  have "\<forall>c \<in> set calls. \<forall>k. in_pages (bx_ps b) (fst c) (fst (snd c)) k \<longrightarrow> box_page b k"
  proof (cases "calls = []")
    case False
    with u obtain err a' where "as_unmap True addr n (bx_mm b) = (err, calls, a')" by blast
    then show ?thesis using unmap_calls_inside [OF b] by blast
  qed simp
  then show "keeps (box_page b) m (cbunmaps e b calls m)" by (intro keeps_cbunmaps) simp_all
qed

lemma mapat_effect:
  assumes b: "box_ok b"
  shows "\<exists>r b' m'. box_mapat_locked e addr n prot flags fd off (b, m) = Some (r, b', m') \<and>
    box_effect e b m b' m'"
proof (cases "lfi_box_bufvalid b addr n")
  case False
  then show ?thesis using box_effect_refl [OF b] by (simp add: box_mapat_locked_def)
next
  case True
  have inv: "as_inv (bx_mm b)" using b by (simp add: box_ok_def)
  obtain r calls mm where ma: "map_at True addr n (info prot flags fd off) (bx_mm b) = Some (r, calls, mm)"
    using map_at_total [OF inv] by blast
  note pre = mapat_prefix [OF b ma]
  let ?m = "cbunmaps e b calls m"
  show ?thesis
  proof (cases "r = MM_FAIL")
    case fail: True
    then show ?thesis using True ma pre(1-3) by (auto simp: box_mapat_locked_def box_effect_def Let_def)
  next
    case ok: False
    let ?r = "mapverify e b r n prot flags fd off False ?m"
    have kp: "keeps (box_page b) m (snd ?r)"
      using keeps_verify(2) [OF _ pre(3)] args_ok_pages [OF b] pre(4) [OF ok] by blast
    obtain err cs mm' where u: "as_unmap True r n mm = (err, cs, mm')" by (metis prod_cases3)
    note un = undo_effect [OF b pre(1,2) kp u]
    show ?thesis using True ma ok pre(1,2) kp un u
      by (auto simp: box_mapat_locked_def box_effect_def split_beta Let_def)
  qed
qed

lemma mapat_register_effect:
  assumes b: "box_ok b"
  shows "\<exists>r b' m'. lfi_box_mapat_register e addr n prot flags fd off (b, m) = Some (r, b', m') \<and>
    box_effect e b m b' m'"
proof (cases "lfi_box_bufvalid b addr n")
  case False
  then show ?thesis using box_effect_refl [OF b] by (simp add: lfi_box_mapat_register_def)
next
  case True
  have inv: "as_inv (bx_mm b)" using b by (simp add: box_ok_def)
  obtain r calls mm where ma: "map_at True addr n (info prot flags fd off) (bx_mm b) = Some (r, calls, mm)"
    using map_at_total [OF inv] by blast
  note pre = mapat_prefix [OF b ma]
  obtain err cs mm' where u: "as_unmap False r n mm = (err, cs, mm')" by (metis prod_cases3)
  have "as_inv mm' \<and> same_region mm' (bx_mm b)"
    using as_unmap_total [OF pre(1) u] same_region_trans [OF _ pre(2)] by blast
  then show ?thesis using True ma pre(1-3) u
    by (auto simp: lfi_box_mapat_register_def box_effect_def split_beta Let_def)
qed

lemma bufvalid_iff:
  assumes "unat (bx_min b) \<le> unat (bx_max b)"
  shows "lfi_box_bufvalid b p n \<longleftrightarrow> unat (bx_min b) \<le> unat p \<and> unat p + unat n \<le> unat (bx_max b)"
  by (auto simp: lfi_box_bufvalid_def word_le_nat_alt unat_sub64')

lemma box_ok_min_max: "box_ok b \<Longrightarrow> unat (bx_min b) \<le> unat (bx_max b)"
  by (simp add: box_ok_def distrib_right)

text \<open>A valid buffer's pages are pages of the box.\<close>

lemma bufvalid_pages:
  assumes b: "box_ok b" and v: "lfi_box_bufvalid b p n" and k: "in_pages (bx_ps b) p n k"
  shows "box_page b k"
proof -
  let ?a = "bx_mm b" and ?ps = "unat (bx_ps b)"
  have ps: "0 < ?ps" using b by (simp add: box_ok_def)
  have pv: "unat (bx_min b) \<le> unat p" "unat p + unat n \<le> unat (bx_max b)"
    using v bufvalid_iff [OF box_ok_min_max [OF b]] by auto
  have "unat (bx_min b) div ?ps \<le> unat p div ?ps" using pv(1) by (rule div_le_mono)
  moreover have "(unat p + unat n + ?ps - 1) div ?ps \<le> (unat (bx_max b) + ?ps - 1) div ?ps"
    using pv(2) by (intro div_le_mono) simp
  moreover have "(unat (bx_max b) + ?ps - 1) div ?ps = unat (bx_max b) div ?ps"
    unfolding ceil_div [OF ps] using b by (simp add: box_ok_def)
  ultimately show ?thesis using k unfolding in_pages_def pg_def box_page_def by linarith
qed

lemma mprotect_effect:
  assumes b: "box_ok b" and s: "box_mprotect_locked e addr n prot nv (b, m) = (r, b', m')"
  shows "box_effect e b m b' m'"
proof -
  let ?guard = "n = 0 \<or> addr mod bx_ps b \<noteq> 0 \<or> n mod bx_ps b \<noteq> 0"
  have inv: "as_inv (bx_mm b)" using b by (simp add: box_ok_def)
  show ?thesis
  proof (cases "?guard \<or> \<not> lfi_box_bufvalid b addr n")
    case True
    then have "b' = b" "m' = m" using s by (auto simp: box_mprotect_locked_def Let_def split: if_splits)
    then show ?thesis using box_effect_refl [OF b] by simp
  next
    case False
    let ?r = "protectverify e b addr n prot nv m"
    have kp: "keeps (box_page b) m (snd ?r)"
      using bufvalid_pages [OF b] False by (intro keeps_verify(1)) auto
    obtain err calls mm where pr: "as_protect False addr n prot (bx_mm b) = (err, calls, mm)"
      by (metis prod_cases3)
    then have "as_inv mm" "same_region mm (bx_mm b)"
      using as_protect_eq [OF inv, of False addr n prot] by auto
    moreover have "m' = snd ?r \<and> (b' = b \<or> b' = b\<lparr>bx_mm := mm\<rparr>)"
      using s False pr by (auto simp: box_mprotect_locked_def Let_def split_beta split: if_splits)
    ultimately show ?thesis using kp box_effect_refl [OF b, of e m]
      by (auto simp: box_effect_def)
  qed
qed


lemma round_up:
  fixes ps n :: u64
  assumes ps: "unat ps = 2 ^ k" "k < 64" and n: "unat n + unat ps \<le> 2 ^ 64"
  shows "unat ((n + ps - 1) AND NOT (ps - 1)) = (unat n + unat ps - 1) div unat ps * unat ps"
proof -
  have eq: "ps = 2 ^ k" using ps by (simp add: word_eq_nat_iff unat_pow2)
  have le: "unat n + unat ps - 1 < 18446744073709551616" using n ps(1) by simp
  have "0 < unat ps" by (simp add: ps(1))
  then have "unat (n + (ps - 1)) = unat n + (unat ps - 1)"
    using le by (subst unat_add64) (simp_all add: unat_sub64' Suc_le_eq)
  then have u: "unat (n + ps - 1) = unat n + unat ps - 1" using \<open>0 < unat ps\<close> by (simp add: add_diff_eq)
  have m: "(n + ps - 1) AND NOT (ps - 1) = (n + ps - 1) - (n + ps - 1) mod ps"
    unfolding eq by (rule and_not_pow2 [OF ps(2)])
  have "unat ((n + ps - 1) - (n + ps - 1) mod ps) = unat (n + ps - 1) - unat (n + ps - 1) mod unat ps"
    by (simp only: unat_sub64' unat_mod64 mod_less_eq_dividend)
  then show ?thesis unfolding m u by (simp only: minus_mod_eq_div_mult)
qed

lemma munmap_effect:
  assumes b: "box_ok b" and s: "box_munmap_locked e addr n (b, m) = (r, b', m')"
  shows "box_effect e b m b' m'"
proof -
  have inv: "as_inv (bx_mm b)" using b by (simp add: box_ok_def)
  let ?bad = "\<not> lfi_box_bufvalid b addr n \<or> n = 0 \<or> addr mod bx_ps b \<noteq> 0"
  let ?len = "(n + bx_ps b - 1) AND NOT (bx_ps b - 1)"
  show ?thesis
  proof (cases ?bad)
    case True
    then have "b' = b" "m' = m" using s by (auto simp: box_munmap_locked_def Let_def split: if_splits)
    then show ?thesis using box_effect_refl [OF b] by simp
  next
    case False
    then have v: "lfi_box_bufvalid b addr n" by blast
    let ?ps = "unat (bx_ps b)"
    have ps: "?ps = 2 ^ as_p2 (bx_mm b)" "as_p2 (bx_mm b) < 64" "0 < ?ps"
      using b inv by (auto simp: box_ok_def as_inv_def)
    have pv: "unat (bx_min b) \<le> unat addr" "unat addr + unat n \<le> unat (bx_max b)"
      using v bufvalid_iff [OF box_ok_min_max [OF b]] by auto
    have max: "?ps dvd unat (bx_max b)" using b by (simp add: box_ok_def)
    have "?ps dvd 2 ^ 64" unfolding ps(1) using ps(2) by (intro le_imp_power_dvd) simp
    moreover have "unat (bx_max b) < 2 ^ 64" using unat_lt64 [of "bx_max b"] by simp
    ultimately have "unat (bx_max b) + ?ps \<le> 2 ^ 64" using max by (intro dvd_next_multiple) simp_all
    then have "unat n + ?ps \<le> 2 ^ 64" using pv(2) by linarith
    note len = round_up [OF ps(1,2) this]
    have "(unat addr + unat ?len + ?ps - 1) div ?ps = (unat addr + unat n + ?ps - 1) div ?ps"
    proof -
      have al: "?ps dvd unat addr" using False by (simp add: mod_eq_0_nat_iff)
      then obtain a where a: "unat addr = ?ps * a" by blast
      let ?c = "(unat n + ?ps - 1) div ?ps"
      have "(unat addr + unat ?len + ?ps - 1) = (?ps - 1) + ?ps * (a + ?c)"
        unfolding len a using ps(3) by (simp add: distrib_left mult.commute)
      then have l: "(unat addr + unat ?len + ?ps - 1) div ?ps = (?ps - 1 + ?ps * (a + ?c)) div ?ps"
        by (rule arg_cong)
      have "(?ps - 1 + ?ps * (a + ?c)) div ?ps = a + ?c + (?ps - 1) div ?ps"
        using ps(3) by (intro div_mult_self2) simp
      also have "\<dots> = a + ?c" using ps(3) by simp
      also have "\<dots> = (unat n + ?ps - 1 + ?ps * a) div ?ps"
        using ps(3) by (intro div_mult_self2 [symmetric]) simp
      also have "unat n + ?ps - 1 + ?ps * a = unat addr + unat n + ?ps - 1"
        using ps(3) a by linarith
      finally show ?thesis using l by simp
    qed
    then have "\<forall>k. in_pages (bx_ps b) addr ?len k \<longrightarrow> box_page b k"
      using bufvalid_pages [OF b v] by (simp add: in_pages_def)
    note kp = keeps_calls(3) [OF this keeps_refl]
    obtain err calls mm where u: "as_unmap False addr n (bx_mm b) = (err, calls, mm)"
      by (metis prod_cases3)
    note un = as_unmap_total [OF inv u]
    have "m' = snd (vm_mmap e (bx_ps b) addr ?len no_access True (-1) 0 m) \<and>
        (b' = b \<or> b' = b\<lparr>bx_mm := mm\<rparr>)"
      using s False u by (auto simp: box_munmap_locked_def Let_def split_beta split: if_splits)
    then show ?thesis using kp un box_effect_refl [OF b, of e m] by (auto simp: box_effect_def)
  qed
qed


subsection \<open>Executable pages under every operation\<close>

lemma mapany_x_safe:
  assumes "x_safe e (bx_ps b) m k" "\<not> opt_no_verify (bx_opts b)" "0 < unat (bx_ps b)"
    "unat (bx_ps b) dvd unat n"
    and s: "box_mapany_locked e n prot flags fd off False (b, m) = Some (r, b', m')"
  shows "x_safe e (bx_ps b) m' k"
proof -
  obtain addr mm where a: "map_any 0 n (info prot flags fd off) (bx_mm b) = Some (addr, mm)"
    using s by (auto simp: box_mapany_locked_def bind_eq_Some_conv)
  let ?r = "mapverify e b addr n prot flags fd off False m"
  have v: "x_safe e (bx_ps b) (snd ?r) k" by (rule mapverify_x_safe [OF assms(1,2) _ assms(3,4)]) simp
  have "m' = m \<or> m' = snd ?r \<or> (\<exists>cs. m' = cbunmaps e b cs (snd ?r))"
    using s a by (auto simp: box_mapany_locked_def Let_def split_beta split: if_splits)
  then show ?thesis using assms(1) v cbunmaps_x_safe [OF v] by auto
qed

lemma mapat_x_safe:
  assumes "x_safe e (bx_ps b) m k" "\<not> opt_no_verify (bx_opts b)" "0 < unat (bx_ps b)"
    "unat (bx_ps b) dvd unat n"
    and s: "box_mapat_locked e addr n prot flags fd off (b, m) = Some (r, b', m')"
  shows "x_safe e (bx_ps b) m' k"
proof (cases "lfi_box_bufvalid b addr n")
  case False
  then show ?thesis using s assms(1) by (simp add: box_mapat_locked_def)
next
  case True
  obtain p calls mm where a: "map_at True addr n (info prot flags fd off) (bx_mm b) = Some (p, calls, mm)"
    using s True by (auto simp: box_mapat_locked_def bind_eq_Some_conv)
  let ?m = "cbunmaps e b calls m"
  let ?r = "mapverify e b p n prot flags fd off False ?m"
  have c: "x_safe e (bx_ps b) ?m k" by (rule cbunmaps_x_safe [OF assms(1)])
  have v: "x_safe e (bx_ps b) (snd ?r) k" by (rule mapverify_x_safe [OF c assms(2) _ assms(3,4)]) simp
  have "m' = ?m \<or> m' = snd ?r \<or> (\<exists>cs. m' = cbunmaps e b cs (snd ?r))"
    using s a True by (auto simp: box_mapat_locked_def Let_def split_beta split: if_splits)
  then show ?thesis using c v cbunmaps_x_safe [OF v] by auto
qed

lemma mapat_register_x_safe:
  assumes "x_safe e (bx_ps b) m k"
    and s: "lfi_box_mapat_register e addr n prot flags fd off (b, m) = Some (r, b', m')"
  shows "x_safe e (bx_ps b) m' k"
proof -
  have "\<exists>cs. m' = cbunmaps e b cs m \<or> (\<exists>b1 p. m' = snd (verify e b1 p n prot (cbunmaps e b cs m)))"
  proof (cases "lfi_box_bufvalid b addr n")
    case False
    then have "m' = cbunmaps e b [] m" using s by (simp add: lfi_box_mapat_register_def cbunmaps_def)
    then show ?thesis by blast
  next
    case True
    then show ?thesis using s
      by (auto simp: lfi_box_mapat_register_def bind_eq_Some_conv Let_def split_beta split: if_splits)
  qed
  then show ?thesis using cbunmaps_x_safe [OF assms(1)] by auto
qed

lemma mprotect_x_safe:
  assumes "x_safe e (bx_ps b) m k" "\<not> opt_no_verify (bx_opts b)" "can_lower e" "0 < unat (bx_ps b)"
    and s: "box_mprotect_locked e addr n prot False (b, m) = (r, b', m')"
  shows "x_safe e (bx_ps b) m' k"
proof (cases "n = 0 \<or> addr mod bx_ps b \<noteq> 0 \<or> n mod bx_ps b \<noteq> 0 \<or> \<not> lfi_box_bufvalid b addr n")
  case True
  then have "m' = m" using s by (auto simp: box_mprotect_locked_def Let_def split: if_splits)
  then show ?thesis using assms(1) by simp
next
  case False
  then have al: "unat (bx_ps b) dvd unat addr" "unat (bx_ps b) dvd unat n"
    by (simp_all add: mod_eq_0_nat_iff)
  have "m' = snd (protectverify e b addr n prot False m)"
    using s False by (auto simp: box_mprotect_locked_def Let_def split_beta split: if_splits)
  moreover have "x_safe e (bx_ps b) (snd (protectverify e b addr n prot False m)) k"
    by (rule protectverify_x_safe [OF assms(1,2) _ assms(3,4) al]) simp
  ultimately show ?thesis by simp
qed

lemma munmap_x_safe:
  assumes "x_safe e (bx_ps b) m k" and s: "box_munmap_locked e addr n (b, m) = (r, b', m')"
  shows "x_safe e (bx_ps b) m' k"
proof -
  have "m' = m \<or> m' = snd (vm_mmap e (bx_ps b) addr ((n + bx_ps b - 1) AND NOT (bx_ps b - 1))
      no_access True (-1) 0 m)"
    using s by (auto simp: box_munmap_locked_def Let_def split_beta split: if_splits)
  then show ?thesis using assms(1) vm_mmap_x_safe [OF _ assms(1)] by auto
qed

subsection \<open>Sequences of operations\<close>

text \<open>The calls a sandbox can cause through the runtime, and their sequences.\<close>

datatype box_call =
  Mapany u64 u32 u32 u32 u64
| Mapat u64 u64 u32 u32 u32 u64
| MapatRegister u64 u64 u32 u32 u32 u64
| Mprotect u64 u64 u32
| Munmap u64 u64

fun box_do :: "host_env \<Rightarrow> box_call \<Rightarrow> lfi_box \<times> vm \<Rightarrow> (lfi_box \<times> vm) run" where
  "box_do e (Mapany n prot flags fd off) bm =
     map_option snd (box_mapany_locked e n prot flags fd off False bm)"
| "box_do e (Mapat addr n prot flags fd off) bm =
     map_option snd (box_mapat_locked e addr n prot flags fd off bm)"
| "box_do e (MapatRegister addr n prot flags fd off) bm =
     map_option snd (lfi_box_mapat_register e addr n prot flags fd off bm)"
| "box_do e (Mprotect addr n prot) bm = Some (snd (box_mprotect_locked e addr n prot False bm))"
| "box_do e (Munmap addr n) bm = Some (snd (box_munmap_locked e addr n bm))"

fun box_dos :: "host_env \<Rightarrow> box_call list \<Rightarrow> lfi_box \<times> vm \<Rightarrow> (lfi_box \<times> vm) run" where
  "box_dos e [] bm = Some bm"
| "box_dos e (c # cs) bm = (box_do e c bm \<bind> box_dos e cs)"

text \<open>A mapping request of whole pages, as \<^verbatim>\<open>sys_mmap\<close> makes it.\<close>

fun whole_pages :: "u64 \<Rightarrow> box_call \<Rightarrow> bool" where
  "whole_pages ps (Mapany n prot flags fd off) \<longleftrightarrow> unat n mod unat ps = 0"
| "whole_pages ps (Mapat addr n prot flags fd off) \<longleftrightarrow> unat n mod unat ps = 0"
| "whole_pages ps _ \<longleftrightarrow> True"

lemma box_do_effect:
  assumes "box_ok b"
  shows "\<exists>b' m'. box_do e c (b, m) = Some (b', m') \<and> box_effect e b m b' m'"
proof (cases c)
  case (Mprotect addr n prot)
  then show ?thesis using mprotect_effect [OF assms]
    by (cases "box_mprotect_locked e addr n prot False (b, m)") auto
next
  case (Munmap addr n)
  then show ?thesis using munmap_effect [OF assms]
    by (cases "box_munmap_locked e addr n (b, m)") auto
next
  case (Mapany n prot flags fd off)
  then show ?thesis using mapany_effect [OF assms, of e n prot flags fd off False m] by auto
next
  case (Mapat addr n prot flags fd off)
  then show ?thesis using mapat_effect [OF assms, of e addr n prot flags fd off m] by auto
next
  case (MapatRegister addr n prot flags fd off)
  then show ?thesis using mapat_register_effect [OF assms, of e addr n prot flags fd off m] by auto
qed

lemma box_do_x_safe:
  assumes "x_safe e (bx_ps b) m k" "\<not> opt_no_verify (bx_opts b)" "can_lower e" "0 < unat (bx_ps b)"
    "whole_pages (bx_ps b) c" "box_do e c (b, m) = Some (b', m')"
  shows "x_safe e (bx_ps b) m' k"
proof (cases c)
  case Mapany
  then show ?thesis using mapany_x_safe [OF assms(1,2,4)] assms(5,6)
    by (auto simp: mod_eq_0_iff_dvd)
next
  case Mapat
  then show ?thesis using mapat_x_safe [OF assms(1,2,4)] assms(5,6)
    by (auto simp: mod_eq_0_iff_dvd)
next
  case MapatRegister
  then show ?thesis using mapat_register_x_safe [OF assms(1)] assms(6) by auto
next
  case (Mprotect addr n prot)
  then show ?thesis using mprotect_x_safe [OF assms(1-4), of addr n prot] assms(6)
    by (cases "box_mprotect_locked e addr n prot False (b, m)") auto
next
  case (Munmap addr n)
  then show ?thesis using munmap_x_safe [OF assms(1), of addr n] assms(6)
    by (cases "box_munmap_locked e addr n (b, m)") auto
qed

lemma box_effect_ok:
  assumes "box_ok b" "box_effect e b m b' m'"
  shows "box_ok b'" "bx_opts b' = bx_opts b" "box_page b' = box_page b" "keeps (box_page b) m m'"
  using assms box_ok_update [OF assms(1)] by (auto simp: box_effect_def)

lemma box_dos_effect:
  assumes "box_ok b"
  shows "\<exists>b' m'. box_dos e cs (b, m) = Some (b', m') \<and> box_ok b' \<and> bx_opts b' = bx_opts b \<and>
    keeps (box_page b) m m' \<and>
    (\<not> opt_no_verify (bx_opts b) \<and> can_lower e \<and> (\<forall>c \<in> set cs. whole_pages (bx_ps b) c) \<longrightarrow>
      (\<forall>k. x_safe e (bx_ps b) m k \<longrightarrow> x_safe e (bx_ps b) m' k))"
  using assms
proof (induction cs arbitrary: b m)
  case (Cons c cs)
  obtain b1 m1 where s: "box_do e c (b, m) = Some (b1, m1)" "box_effect e b m b1 m1"
    using box_do_effect [OF Cons.prems] by blast
  note ok = box_effect_ok [OF Cons.prems s(2)]
  from Cons.IH [OF ok(1), of m1] obtain b' m' where r: "box_dos e cs (b1, m1) = Some (b', m')"
    "box_ok b'" "bx_opts b' = bx_opts b" "keeps (box_page b) m1 m'"
    "\<not> opt_no_verify (bx_opts b) \<and> can_lower e \<and> (\<forall>c \<in> set cs. whole_pages (bx_ps b) c) \<longrightarrow>
      (\<forall>k. x_safe e (bx_ps b) m1 k \<longrightarrow> x_safe e (bx_ps b) m' k)"
    unfolding ok(2,3) by blast
  have "0 < unat (bx_ps b)" using Cons.prems by (simp add: box_ok_def)
  then have "\<not> opt_no_verify (bx_opts b) \<and> can_lower e \<and> (\<forall>c \<in> set (c # cs). whole_pages (bx_ps b) c) \<longrightarrow>
      (\<forall>k. x_safe e (bx_ps b) m k \<longrightarrow> x_safe e (bx_ps b) m' k)"
    using box_do_x_safe [OF _ _ _ _ _ s(1)] r(5) by simp
  moreover have "keeps (box_page b) m m'" using ok(4) r(4) by (simp add: keeps_def)
  ultimately show ?case using s(1) r(1-3) by simp
qed auto


subsection \<open>The box's contract\<close>

definition demo_opts :: lfi_options where
  "demo_opts = \<lparr>opt_pagesize = 4096, opt_boxsize = 0x3000, opt_verbose = False,
     opt_stores_only = False, opt_no_verify = False, opt_allow_wx = False, opt_no_aslr = True,
     opt_no_init_sigaltstack = False\<rparr>"

definition demo_box :: lfi_box where
  "demo_box = \<lparr>bx_opts = demo_opts, bx_base = 0x10000, bx_size = 0x3000, bx_min = 0x11000,
     bx_max = 0x13000, bx_max_exec = 0x13000,
     bx_mm = \<lparr>as_base = 17, as_len = 2, as_p2 = 12, as_aslr = False, as_rand = 0, as_regions = []\<rparr>,
     bx_sys_page = None, bx_sys = None, bx_retaddr = 0, bx_userdata = 0\<rparr>"

definition demo_vm :: vm where
  "demo_vm = \<lparr>vm_acc = (\<lambda>k. no_access), vm_file = (\<lambda>k. False), vm_past = (\<lambda>k. False), vm_mem = (\<lambda>x. 0), vm_calls = 0,
     vm_fault = False\<rparr>"

definition demo_env :: host_env where
  "demo_env = \<lparr>he_ok = (\<lambda>i c. True), he_file = (\<lambda>fd off. 0x90), he_fsize = (\<lambda>fd. 2 ^ 64), he_store = (\<lambda>i x. Some 0xCC),
     he_fwrite = (\<lambda>i x. None),
     he_verify = (\<lambda>bs p. \<forall>b \<in> set bs. b = 0x90)\<rparr>"

lemma demo_box_ok: "box_ok demo_box" "\<not> opt_no_verify (bx_opts demo_box)" "bx_ps demo_box = 4096"
  by (simp_all add: box_ok_def demo_box_def demo_opts_def as_inv_def)

text \<open>C2: code is verified and never writable. Along any sequence of mapping, protection and
  unmapping requests, with sandbox threads storing to writable memory at any time and any
  system call but the lowering of rights failing at any time: the operations return, and
  every executable page of the sandbox is not writable and holds exactly the bytes of some
  code the verifier accepted. (Mapping requests are for whole pages, as \<^verbatim>\<open>sys_mmap\<close> makes
  them, verification is not disabled, and nobody writes to a mapped file.)\<close>

theorem executable_pages_verified:
  assumes "box_ok b" "\<not> opt_no_verify (bx_opts b)" "can_lower e" "files_stable e"
    and "\<forall>c \<in> set cs. whole_pages (bx_ps b) c"
    and "\<forall>k. box_page b k \<longrightarrow> \<not> acc_x (vm_acc m k)"
  shows "\<exists>b' m'. box_dos e cs (b, m) = Some (b', m') \<and>
    (\<forall>k. box_page b k \<and> acc_x (vm_acc m' k) \<longrightarrow>
       \<not> acc_w (vm_acc m' k) \<and> page_verified e (bx_ps b) m' k)"
proof -
  from box_dos_effect [OF assms(1), of e cs m] obtain b' m' where
    r: "box_dos e cs (b, m) = Some (b', m')"
    and safe: "\<forall>k. x_safe e (bx_ps b) m k \<longrightarrow> x_safe e (bx_ps b) m' k"
    using assms(2,3,5) by blast
  have "x_safe e (bx_ps b) m k" if "box_page b k" for k using assms(6) that by (simp add: x_safe_def)
  with safe have "x_safe e (bx_ps b) m' k" if "box_page b k" for k using that by blast
  then show ?thesis using r assms(4) by (auto simp: x_safe_def)
qed

theorem executable_pages_verified_witness:
  "\<exists>b' m'. box_dos demo_env [Mapany 4096 5 34 (-1) 0, Mprotect 0x11000 4096 3, Mapat 0x12000 4096 5 2 3 0,
      Mprotect 0x11000 4096 5, Munmap 0x11000 4096] (demo_box, demo_vm) = Some (b', m') \<and>
    (\<forall>k. box_page demo_box k \<and> acc_x (vm_acc m' k) \<longrightarrow>
       \<not> acc_w (vm_acc m' k) \<and> page_verified demo_env 4096 m' k)"
proof -
  have "can_lower demo_env" by (simp add: can_lower_def demo_env_def)
  moreover have "files_stable demo_env" by (simp add: files_stable_def demo_env_def)
  moreover have "\<forall>k. box_page demo_box k \<longrightarrow> \<not> acc_x (vm_acc demo_vm k)" by (simp add: demo_vm_def)
  ultimately show ?thesis
    using executable_pages_verified [OF demo_box_ok(1,2), of demo_env
      "[Mapany 4096 5 34 (-1) 0, Mprotect 0x11000 4096 3, Mapat 0x12000 4096 5 2 3 0,
        Mprotect 0x11000 4096 5, Munmap 0x11000 4096]" demo_vm]
    by (simp only: demo_box_ok(3)) simp
qed

text \<open>C3: a sandbox's requests stay in the sandbox. Whatever the arguments (unaligned, huge,
  wrapping, outside the box) and whatever system calls fail, no request changes the access
  rights of a page that is not a page of the box, no assertion fails, and the bounds of the
  box and the geometry of its tracker stay.\<close>

theorem box_requests_confined:
  assumes "box_ok b"
  shows "\<exists>b' m'. box_dos e cs (b, m) = Some (b', m') \<and> box_ok b' \<and> bx_opts b' = bx_opts b \<and>
    (\<forall>k. \<not> box_page b k \<longrightarrow> vm_acc m' k = vm_acc m k)"
  using box_dos_effect [OF assms, of e cs m] by (auto simp: keeps_def)

theorem box_requests_confined_witness:
  "\<exists>b' m'. box_dos demo_env [Mapat (-4096) 8192 7 50 0 0, Munmap 0x12FFF (-1), Mprotect 0x12000 0x7000 7]
      (demo_box, demo_vm) = Some (b', m') \<and> (\<forall>k. \<not> box_page demo_box k \<longrightarrow> vm_acc m' k = no_access)"
  using box_requests_confined [OF demo_box_ok(1), of demo_env
      "[Mapat (-4096) 8192 7 50 0 0, Munmap 0x12FFF (-1), Mprotect 0x12000 0x7000 7]" demo_vm]
  by (auto simp: demo_vm_def)

text \<open>\<^verbatim>\<open>lfi_box_bufvalid\<close> accepts exactly the buffers inside \<open>[min, max)\<close>, also for sizes whose
  end would wrap around the address space; accepted and rejected are decided without
  overflow.\<close>

theorem bufvalid_exact:
  assumes "unat (bx_min b) \<le> unat (bx_max b)"
  shows "lfi_box_bufvalid b p n \<longleftrightarrow> unat (bx_min b) \<le> unat p \<and> unat p + unat n \<le> unat (bx_max b)"
  using assms by (rule bufvalid_iff)

theorem bufvalid_exact_witness:
  "\<not> lfi_box_bufvalid demo_box 0x12000 (-0x1000)"
proof -
  have "unat (bx_min demo_box) \<le> unat (bx_max demo_box)" by (simp add: demo_box_def)
  from bufvalid_exact [OF this] show ?thesis by (simp add: demo_box_def)
qed

text \<open>The string at an address, of at most \<open>k\<close> bytes: what is before the first zero.\<close>

definition string_at :: "vm \<Rightarrow> u64 \<Rightarrow> nat \<Rightarrow> u8 list" where
  "string_at m p k = takeWhile (\<lambda>c. c \<noteq> 0) (map (\<lambda>i. vm_mem m (p + of_nat i)) [0 ..< k])"

lemma strnlen_loop_eq: "strnlen_loop m p k = length (string_at m p k)"
proof (induction m p k rule: strnlen_loop.induct)
  case (2 m p k)
  have "map (\<lambda>i. vm_mem m (p + of_nat i)) [0 ..< Suc k] = vm_mem m p # map (\<lambda>i. vm_mem m (p + 1 + of_nat i)) [0 ..< k]"
    by (simp add: upt_rec [of 0] map_Suc_upt [symmetric] add.assoc del: upt_Suc)
  then have "string_at m p (Suc k) = (if vm_mem m p = 0 then [] else vm_mem m p # string_at m (p + 1) k)"
    by (simp add: string_at_def)
  then show ?case using 2 by simp
qed (simp add: string_at_def)

lemma length_string_at: "length (string_at m p k) \<le> k"
  using length_takeWhile_le [of _ "map (\<lambda>i. vm_mem m (p + of_nat i)) [0 ..< k]"] by (simp add: string_at_def)

text \<open>\<^verbatim>\<open>lfi_box_strnlen\<close> reads inside the box only, up to the limit, and is right: it gives the
  length of the string at the pointer, and \<^verbatim>\<open>SIZE_MAX\<close> when no zero is found in the part of the box the
  limit allows. It faults when a byte it reads cannot be read.\<close>

lemma strnlen_eq:
  fixes p n :: u64
  assumes "unat (bx_min b) \<le> unat (bx_max b)"
  defines "room \<equiv> min (unat n) (unat (bx_max b) - unat p)"
  shows "lfi_box_strnlen b m p n =
    (if \<not> lfi_box_ptrvalid b p then Some SIZE_MAX
     else if \<not> pages_have acc_r (opt_pagesize (bx_opts b)) m p (min (length (string_at m p room) + 1) room) then None
     else Some (if length (string_at m p room) < room then of_nat (length (string_at m p room)) else SIZE_MAX))"
proof (cases "lfi_box_ptrvalid b p")
  case True
  then have pv: "unat (bx_min b) \<le> unat p" "unat p < unat (bx_max b)"
    by (auto simp: lfi_box_ptrvalid_def word_le_nat_alt word_less_nat_alt)
  let ?limit = "if n < bx_max b - p then n else bx_max b - p" and ?l = "length (string_at m p room)"
  have lim: "unat ?limit = room"
    using pv by (auto simp: unat_sub64' word_less_nat_alt min_def room_def)
  have l: "?l \<le> room" by (rule length_string_at)
  have "room < 2 ^ 64" unfolding lim [symmetric] by simp
  then have u: "unat (of_nat ?l :: u64) = ?l" using l by (intro unat_of_nat64) linarith
  have "of_nat ?l = ?limit \<longleftrightarrow> unat (of_nat ?l :: u64) = unat ?limit" by (rule word_unat_eq_iff)
  then have "of_nat ?l = ?limit \<longleftrightarrow> ?l = room" unfolding u lim .
  then show ?thesis using True l
    by (simp add: lfi_box_strnlen_def Let_def strnlen_loop_eq lim)
qed (simp add: lfi_box_strnlen_def)

end
