(* ===== verification/BoxSteps.thy ===== *)
theory BoxSteps
  imports BoxSafety Align
begin

text \<open>
  What the host code that works on a box relies on: every request is a step that keeps the
  box well-formed, leaves other pages alone and keeps executable pages safe; steps compose;
  a successful mapping gives the rights asked for, so that host writes to it do not fault.
\<close>

unbundle bit_operations_syntax

definition box_step :: "host_env \<Rightarrow> lfi_box \<Rightarrow> vm \<Rightarrow> lfi_box \<Rightarrow> vm \<Rightarrow> bool" where
  "box_step e b m b' m' \<longleftrightarrow> box_effect e b m b' m' \<and>
     (\<forall>k. x_safe e (bx_ps b) m k \<longrightarrow> x_safe e (bx_ps b) m' k)"

lemma box_step_refl: "box_ok b \<Longrightarrow> box_step e b m b m"
  by (simp add: box_step_def box_effect_refl)

lemma box_step_trans:
  assumes "box_ok b" "box_step e b m b1 m1" "box_step e b1 m1 b2 m2"
  shows "box_step e b m b2 m2"
proof -
  have 1: "box_effect e b m b1 m1" and 2: "box_effect e b1 m1 b2 m2"
    using assms(2,3) by (auto simp: box_step_def)
  note ok = box_effect_ok [OF assms(1) 1]
  note ok' = box_effect_ok [OF ok(1) 2]
  obtain mm where mm: "b1 = b\<lparr>bx_mm := mm\<rparr>" "same_region mm (bx_mm b)" using 1 by (auto simp: box_effect_def)
  obtain mm' where mm': "b2 = b1\<lparr>bx_mm := mm'\<rparr>" "as_inv mm'" "same_region mm' (bx_mm b1)"
    using 2 by (auto simp: box_effect_def)
  have "b2 = b\<lparr>bx_mm := mm'\<rparr>" "same_region mm' (bx_mm b)"
    using mm mm' same_region_trans [OF _ mm(2)] by auto
  moreover have "keeps (box_page b) m m2" using ok(3,4) ok'(4) by (simp add: keeps_def)
  ultimately have "box_effect e b m b2 m2" using mm'(2) by (auto simp: box_effect_def)
  then show ?thesis using assms(2,3) ok(2) by (simp add: box_step_def)
qed

lemma box_step_box:
  assumes "box_ok b" "box_step e b m b' m'"
  shows "box_ok b'" "bx_opts b' = bx_opts b" "box_page b' = box_page b" "bx_min b' = bx_min b"
    "bx_max b' = bx_max b" "keeps (box_page b) m m'"
    "x_safe e (bx_ps b) m k \<Longrightarrow> x_safe e (bx_ps b) m' k"
proof -
  have 1: "box_effect e b m b' m'" using assms(2) by (simp add: box_step_def)
  show "box_ok b'" "bx_opts b' = bx_opts b" "box_page b' = box_page b" "keeps (box_page b) m m'"
    using box_effect_ok [OF assms(1) 1] by auto
  show "bx_min b' = bx_min b" "bx_max b' = bx_max b" using 1 by (auto simp: box_effect_def)
  show "x_safe e (bx_ps b) m k \<Longrightarrow> x_safe e (bx_ps b) m' k" using assms(2) by (simp add: box_step_def)
qed

subsection \<open>Requests are steps\<close>

definition checked :: "host_env \<Rightarrow> lfi_box \<Rightarrow> bool" where
  "checked e b \<longleftrightarrow> box_ok b \<and> \<not> opt_no_verify (bx_opts b) \<and> can_lower e"

lemma checkedD: "checked e b \<Longrightarrow> box_ok b" "checked e b \<Longrightarrow> \<not> opt_no_verify (bx_opts b)"
  "checked e b \<Longrightarrow> can_lower e" "checked e b \<Longrightarrow> 0 < unat (bx_ps b)"
  by (auto simp: checked_def box_ok_def)

lemma checked_step: "checked e b \<Longrightarrow> box_step e b m b' m' \<Longrightarrow> checked e b'"
  using box_step_box [of b e m b' m'] by (auto simp: checked_def)

lemma mapat_step:
  assumes c: "checked e b" and n: "unat (bx_ps b) dvd unat n"
  shows "\<exists>r b' m'. lfi_box_mapat e addr n prot flags fd off (b, m) = Some (r, b', m') \<and> box_step e b m b' m'"
proof -
  note d = checkedD [OF c]
  obtain r b' m' where s: "box_mapat_locked e addr n prot flags fd off (b, m) = Some (r, b', m')"
    "box_effect e b m b' m'"
    using mapat_effect [OF d(1)] by blast
  have "x_safe e (bx_ps b) m k \<longrightarrow> x_safe e (bx_ps b) m' k" for k
    using mapat_x_safe [OF _ d(2,4) n s(1)] by blast
  then show ?thesis using s by (simp add: lfi_box_mapat_def box_step_def)
qed

lemma register_step:
  assumes c: "checked e b"
  shows "\<exists>r b' m'. lfi_box_mapat_register e addr n prot flags fd off (b, m) = Some (r, b', m') \<and>
    box_step e b m b' m'"
proof -
  obtain r b' m' where s: "lfi_box_mapat_register e addr n prot flags fd off (b, m) = Some (r, b', m')"
    "box_effect e b m b' m'"
    using mapat_register_effect [OF checkedD(1) [OF c]] by blast
  have "x_safe e (bx_ps b) m k \<longrightarrow> x_safe e (bx_ps b) m' k" for k
    using mapat_register_x_safe [OF _ s(1)] by blast
  then show ?thesis using s by (simp add: box_step_def)
qed

lemma mprotect_step:
  assumes c: "checked e b" and s: "lfi_box_mprotect e addr n prot (b, m) = (r, b', m')"
  shows "box_step e b m b' m'"
proof -
  note d = checkedD [OF c]
  have s': "box_mprotect_locked e addr n prot False (b, m) = (r, b', m')" using s by (simp add: lfi_box_mprotect_def)
  have "x_safe e (bx_ps b) m k \<longrightarrow> x_safe e (bx_ps b) m' k" for k
    using mprotect_x_safe [OF _ d(2,3,4) s'] by blast
  then show ?thesis using mprotect_effect [OF d(1) s'] by (simp add: box_step_def)
qed

subsection \<open>Host writes\<close>

lemma fold_update:
  "(\<And>i. i < n \<Longrightarrow> x \<noteq> f i) \<Longrightarrow> fold (\<lambda>i g. g(f i := v i)) [0 ..< n] g x = g x"
  by (induction n) simp_all

lemma vm_write_frame:
  assumes "vm_write ps p bs m = Some m'"
  shows "vm_past m' = vm_past m" "vm_fault m' = vm_fault m"
  using assms by (auto simp: vm_write_def split: if_splits)

lemma vm_write_mem:
  assumes "vm_write ps p bs m = Some m'"
  shows "vm_acc m' = vm_acc m" "vm_mem m' x = vm_mem m x \<or> acc_w (vm_acc m (pg ps x))"
proof -
  have w: "pages_have acc_w ps m p (length bs)"
    and m': "m' = m\<lparr>vm_mem := fold (\<lambda>i f. f(p + of_nat i := bs ! i)) [0 ..< length bs] (vm_mem m)\<rparr>"
    using assms by (auto simp: vm_write_def split: if_splits)
  show "vm_acc m' = vm_acc m" by (simp add: m')
  show "vm_mem m' x = vm_mem m x \<or> acc_w (vm_acc m (pg ps x))"
  proof (cases "\<exists>i < length bs. x = p + of_nat i")
    case True
    then show ?thesis using w by (auto simp: pages_have_def list_all_iff)
  next
    case False
    then have "x \<noteq> p + of_nat i" if "i < length bs" for i using that by blast
    then show ?thesis by (simp add: m' fold_update)
  qed
qed

lemma fold_update_at:
  assumes "n \<le> 2 ^ 64"
  shows "fold (\<lambda>i f. f(p + of_nat i := v i)) [0 ..< n] f (x :: u64) =
    (if unat (x - p) < n then v (unat (x - p)) else f x)"
  using assms
proof (induction n)
  case (Suc n)
  have n: "unat (of_nat n :: u64) = n" by (rule unat_of_nat64) (use Suc.prems in simp)
  have "x = p + of_nat n \<longleftrightarrow> unat (x - p) = n"
  proof
    assume "unat (x - p) = n"
    then have "unat (x - p) = unat (of_nat n :: u64)" using n by simp
    then have "x - p = of_nat n" by (rule word_unat_eq_iff [THEN iffD2])
    then show "x = p + of_nat n" by (simp add: diff_eq_eq add.commute)
  qed (simp add: n)
  then show ?case using Suc by (auto simp: less_Suc_eq)
qed simp

lemma vm_write_at:
  assumes "vm_write ps p bs m = Some m'" "length bs \<le> 2 ^ 64"
  shows "vm_mem m' x = (if unat (x - p) < length bs then bs ! unat (x - p) else vm_mem m x)"
proof -
  have m': "m' = m\<lparr>vm_mem := fold (\<lambda>i f. f(p + of_nat i := bs ! i)) [0 ..< length bs] (vm_mem m)\<rparr>"
    using assms(1) by (auto simp: vm_write_def split: if_splits)
  show ?thesis by (simp add: m' fold_update_at [OF assms(2)])
qed

lemma vm_write_step:
  assumes "box_ok b" "vm_write (bx_ps b) p bs m = Some m'"
  shows "box_step e b m b m'"
proof -
  note w = vm_write_mem [OF assms(2)]
  have "x_safe e (bx_ps b) m' k" if s: "x_safe e (bx_ps b) m k" for k
  proof (cases "acc_x (vm_acc m k)")
    case True
    then have nw: "\<not> acc_w (vm_acc m k)" using s by (simp add: x_safe_def)
    have "vm_mem m' x = vm_mem m x" if "pg (bx_ps b) x = k" for x using w(2) [of x] nw that by simp
    then have "page_verified e (bx_ps b) m k \<Longrightarrow> page_verified e (bx_ps b) m' k"
      by (rule page_verified_mem [rotated])
    then show ?thesis using s by (auto simp: x_safe_def w(1))
  qed (simp add: x_safe_def w(1))
  moreover have "keeps (box_page b) m m'" by (simp add: keeps_def w(1))
  ultimately show ?thesis using box_effect_refl [OF assms(1), of e m] by (simp add: box_step_def box_effect_def)
qed

text \<open>A part of a range whose pages have a right has it.\<close>

lemma pages_have_part:
  assumes acc: "\<And>k. in_pages ps p n k \<Longrightarrow> A (vm_acc m k) \<and> \<not> vm_past m k" and ps: "0 < unat ps"
    and q: "unat p \<le> unat q" "unat q + len \<le> unat p + unat n" and no_wrap: "unat p + unat n \<le> 2 ^ 64"
  shows "pages_have A ps m q len"
  unfolding pages_have_def list_all_iff
proof
  fix i
  assume "i \<in> set [0 ..< len]"
  then have i: "i < len" by simp
  have lt: "unat q + i < 2 ^ 64" using i q no_wrap by linarith
  then have "unat (of_nat i :: u64) = i" by (intro unat_of_nat64) simp
  then have x: "unat (q + of_nat i) = unat q + i" using lt by (simp add: unat_add64)
  let ?s = "unat ps"
  have "unat p div ?s \<le> (unat q + i) div ?s" using q(1) by (intro div_le_mono) simp
  moreover have "(unat q + i) div ?s < (unat p + unat n + ?s - 1) div ?s"
  proof -
    have "(unat q + i + ?s) div ?s \<le> (unat p + unat n + ?s - 1) div ?s"
      using i q(2) by (intro div_le_mono) simp
    moreover have "(unat q + i + ?s) div ?s = (unat q + i) div ?s + 1"
      by (rule div_add_self2) (use ps in simp)
    ultimately show ?thesis by linarith
  qed
  ultimately show "A (vm_acc m (pg ps (q + of_nat i))) \<and> \<not> vm_past m (pg ps (q + of_nat i))"
    by (intro acc) (simp add: in_pages_def pg_def x)
qed

lemma vm_write_total:
  "pages_have acc_w ps m p (length bs) \<Longrightarrow> \<exists>m'. vm_write ps p bs m = Some m'"
  by (simp add: vm_write_def)

subsection \<open>Successful mappings\<close>

lemma mapverify_acc:
  assumes "\<not> opt_no_verify (bx_opts b)" "mapverify e b p n prot flags fd off False m = (r, m')" "\<not> r < 0"
    and "in_pages (bx_ps b) p n k"
  shows "vm_acc m' k = host_prot prot" "has_flag prot LFI_PROT_EXEC \<Longrightarrow> \<not> has_flag prot LFI_PROT_WRITE"
  using assms
  by (auto simp: mapverify_def mapmem_def protectmem_def split_beta Let_def vm_mmap_acc vm_mprotect_acc split: if_splits)

lemma mapat_success:
  assumes c: "checked e b" and s: "lfi_box_mapat e addr n prot flags fd off (b, m) = Some (r, b', m')" and r: "r \<noteq> -1"
  shows "r = addr" "lfi_box_bufvalid b addr n" "unat addr mod unat (bx_ps b) = 0"
    "in_pages (bx_ps b) addr n k \<Longrightarrow> vm_acc m' k = host_prot prot"
    "in_pages (bx_ps b) addr n k \<Longrightarrow> has_flag prot LFI_PROT_EXEC \<Longrightarrow> \<not> has_flag prot LFI_PROT_WRITE"
proof -
  note d = checkedD [OF c]
  have v: "lfi_box_bufvalid b addr n" using s r by (auto simp: lfi_box_mapat_def box_mapat_locked_def split: if_splits)
  then obtain q calls mm where ma: "map_at True addr n (info prot flags fd off) (bx_mm b) = Some (q, calls, mm)"
    using s by (auto simp: lfi_box_mapat_def box_mapat_locked_def bind_eq_Some_conv)
  let ?m = "cbunmaps e b calls m"
  let ?v = "mapverify e b q n prot flags fd off False ?m"
  have q: "q \<noteq> MM_FAIL" "\<not> fst ?v < 0" "r = q" "m' = snd ?v"
    using s r v ma by (auto simp: lfi_box_mapat_def box_mapat_locked_def Let_def split_beta split: if_splits)
  have a: "q = addr" "args_ok (bx_mm b) addr n" using mapat_prefix(4) [OF d(1) ma q(1)] by auto
  show "r = addr" "lfi_box_bufvalid b addr n" using q a v by auto
  have p2: "as_p2 (bx_mm b) < 64" "unat (bx_ps b) = 2 ^ as_p2 (bx_mm b)"
    using d(1) by (auto simp: box_ok_def as_inv_def)
  have "unat (addr mod push_bit (as_p2 (bx_mm b)) 1) = unat (0 :: u64)" using a(2) by (simp add: args_ok_def)
  then show "unat addr mod unat (bx_ps b) = 0" by (simp only: unat_mod64 unat_push1 [OF p2(1)] unat_0 p2(2))
  have mv: "mapverify e b addr n prot flags fd off False ?m = (fst ?v, snd ?v)" using a(1) by simp
  note acc = mapverify_acc [OF d(2) mv q(2)]
  show "in_pages (bx_ps b) addr n k \<Longrightarrow> vm_acc m' k = host_prot prot" using acc(1) q(4) by simp
  show "in_pages (bx_ps b) addr n k \<Longrightarrow> has_flag prot LFI_PROT_EXEC \<Longrightarrow> \<not> has_flag prot LFI_PROT_WRITE"
    by (rule acc(2))
qed

lemma mapverify_past:
  assumes "mapverify e b p n prot flags fd off False m = (r, m')" "\<not> opt_no_verify (bx_opts b)" "\<not> r < 0"
    and "in_pages (bx_ps b) p n k"
  shows "vm_past m' k \<longleftrightarrow> \<not> hf_anonymous (host_flags flags) \<and> past_end e (bx_ps b) p fd off k"
  using assms
  by (auto simp: mapverify_def mapmem_def protectmem_def split_beta Let_def vm_mmap_past split: if_splits)

lemma mapat_past:
  assumes c: "checked e b" and s: "lfi_box_mapat e addr n prot flags fd off (b, m) = Some (r, b', m')" and r: "r \<noteq> -1"
    and k: "in_pages (bx_ps b) addr n k"
  shows "vm_past m' k \<longleftrightarrow> \<not> hf_anonymous (host_flags flags) \<and> past_end e (bx_ps b) addr fd off k"
proof -
  note d = checkedD [OF c]
  have v: "lfi_box_bufvalid b addr n" using s r by (auto simp: lfi_box_mapat_def box_mapat_locked_def split: if_splits)
  then obtain q calls mm where ma: "map_at True addr n (info prot flags fd off) (bx_mm b) = Some (q, calls, mm)"
    using s by (auto simp: lfi_box_mapat_def box_mapat_locked_def bind_eq_Some_conv)
  let ?v = "mapverify e b q n prot flags fd off False (cbunmaps e b calls m)"
  have q: "q \<noteq> MM_FAIL" "\<not> fst ?v < 0" "m' = snd ?v"
    using s r v ma by (auto simp: lfi_box_mapat_def box_mapat_locked_def Let_def split_beta split: if_splits)
  have "q = addr" using mapat_prefix(4) [OF d(1) ma q(1)] by auto
  then have "mapverify e b addr n prot flags fd off False (cbunmaps e b calls m) = (fst ?v, snd ?v)" by simp
  then show ?thesis using mapverify_past [OF _ d(2) q(2) k] q(3) by simp
qed

text \<open>Writing to a part of a mapping that was made writable, where it is not past the end of a file.\<close>

lemma mapat_write_at:
  assumes c: "checked e b" and s: "lfi_box_mapat e addr n prot flags fd off (b, m) = Some (r, b', m')" "r \<noteq> -1"
    and w: "has_flag prot LFI_PROT_WRITE" and same: "vm_acc m1 = vm_acc m'"
    and q: "unat addr \<le> unat q" "unat q + length bs \<le> unat addr + unat n"
    and here: "\<And>k. in_pages (bx_ps b) q (of_nat (length bs)) k \<Longrightarrow> in_pages (bx_ps b) addr n k \<Longrightarrow> \<not> vm_past m1 k"
  shows "\<exists>m2. vm_write (bx_ps b) q bs m1 = Some m2 \<and> vm_acc m2 = vm_acc m'"
proof -
  note d = checkedD [OF c]
  note ok = mapat_success [OF c s]
  have "unat addr + unat n \<le> unat (bx_max b)" using ok(2) bufvalid_iff [OF box_ok_min_max [OF d(1)]] by simp
  also have "\<dots> < 2 ^ 64" by simp
  finally have nw: "unat addr + unat n < 2 ^ 64" .
  then have "length bs < 2 ^ 64" using q by linarith
  then have l: "unat (of_nat (length bs) :: u64) = length bs" by (rule unat_of_nat64)
  have sub: "in_pages (bx_ps b) addr n k" if "in_pages (bx_ps b) q (of_nat (length bs)) k" for k
  proof -
    have "unat addr div unat (bx_ps b) \<le> unat q div unat (bx_ps b)" using q(1) by (rule div_le_mono)
    moreover have "(unat q + length bs + unat (bx_ps b) - 1) div unat (bx_ps b) \<le>
        (unat addr + unat n + unat (bx_ps b) - 1) div unat (bx_ps b)" using q(2) by (intro div_le_mono) simp
    ultimately show ?thesis using that unfolding in_pages_def pg_def l by linarith
  qed
  then have "acc_w (vm_acc m1 k) \<and> \<not> vm_past m1 k" if "in_pages (bx_ps b) q (of_nat (length bs)) k" for k
    using ok(4) [OF sub [OF that]] same w here [OF that sub [OF that]] by simp
  moreover have "unat q + length bs \<le> unat q + unat (of_nat (length bs) :: u64)"
      "unat q + unat (of_nat (length bs) :: u64) \<le> 2 ^ 64"
    unfolding l using q nw by linarith+
  ultimately have "pages_have acc_w (bx_ps b) m1 q (length bs)"
    by (intro pages_have_part [OF _ d(4) order_refl])
  from vm_write_total [OF this] obtain m2 where m2: "vm_write (bx_ps b) q bs m1 = Some m2" by blast
  then show ?thesis using vm_write_mem(1) [OF m2] same by auto
qed

lemma mapat_write:
  assumes c: "checked e b" and s: "lfi_box_mapat e addr n prot flags fd off (b, m) = Some (r, b', m')" "r \<noteq> -1"
    and w: "has_flag prot LFI_PROT_WRITE" and same: "vm_acc m1 = vm_acc m'" "vm_past m1 = vm_past m'"
    and anon: "hf_anonymous (host_flags flags)"
    and q: "unat addr \<le> unat q" "unat q + length bs \<le> unat addr + unat n"
  shows "\<exists>m2. vm_write (bx_ps b) q bs m1 = Some m2 \<and> vm_acc m2 = vm_acc m'"
proof -
  note d = checkedD [OF c]
  note ok = mapat_success [OF c s]
  have "unat addr + unat n \<le> unat (bx_max b)" using ok(2) bufvalid_iff [OF box_ok_min_max [OF d(1)]] by simp
  also have "\<dots> < 2 ^ 64" by simp
  finally have nw: "unat addr + unat n \<le> 2 ^ 64" by simp
  have "acc_w (vm_acc m1 k) \<and> \<not> vm_past m1 k" if "in_pages (bx_ps b) addr n k" for k
    using ok(4) [OF that] mapat_past [OF c s that] same w anon by simp
  then have "pages_have acc_w (bx_ps b) m1 q (length bs)"
    by (rule pages_have_part [OF _ d(4) q nw])
  from vm_write_total [OF this] obtain m2 where m2: "vm_write (bx_ps b) q bs m1 = Some m2" by blast
  then show ?thesis using vm_write_mem(1) [OF m2] same by auto
qed

subsection \<open>Calm requests\<close>

text \<open>
  A part of a run is calm if the verifier reads no page that it cannot read and no new page is past the end of
  its file. Requests are calm where file mappings end with their files.
\<close>

definition calm :: "vm \<Rightarrow> vm \<Rightarrow> bool" where
  "calm m m' \<longleftrightarrow> vm_fault m' = vm_fault m \<and> (\<forall>k. vm_past m' k \<longrightarrow> vm_past m k)"

lemma calm_refl [simp]: "calm m m"
  by (simp add: calm_def)

lemma calm_trans: "calm m m1 \<Longrightarrow> calm m1 m2 \<Longrightarrow> calm m m2"
  by (simp add: calm_def)

lemma calm_write: "vm_write ps p bs m = Some m' \<Longrightarrow> calm m m'"
  by (simp add: calm_def vm_write_frame)

definition in_file :: "host_env \<Rightarrow> u64 \<Rightarrow> u64 \<Rightarrow> u32 \<Rightarrow> u32 \<Rightarrow> u64 \<Rightarrow> bool" where
  "in_file e ps n flags fd off \<longleftrightarrow> hf_anonymous (host_flags flags) \<or> unat off + unat n < he_fsize e fd + unat ps"

text \<open>A page of a range of whole pages.\<close>

lemma in_pages_whole:
  assumes ps: "0 < unat ps" and al: "unat ps dvd unat p" "unat ps dvd unat n" and k: "in_pages ps p n k"
  shows "unat p \<le> k * unat ps" "k * unat ps + unat ps \<le> unat p + unat n"
proof -
  let ?s = "unat ps"
  obtain i j where ij: "unat p = ?s * i" "unat n = ?s * j" using al by (auto elim!: dvdE)
  have "(unat p + unat n + ?s - 1) div ?s = i + j"
  proof -
    have "unat p + unat n + ?s - 1 = (?s - 1) + ?s * (i + j)" using ps ij by (simp add: distrib_left)
    also have "\<dots> div ?s = (i + j) + (?s - 1) div ?s" using ps by (intro div_mult_self2) simp
    finally show ?thesis using ps by simp
  qed
  then have "k + 1 \<le> i + j" using k by (simp add: in_pages_def)
  then have "(k + 1) * ?s \<le> (i + j) * ?s" by (rule mult_le_mono1)
  then show "k * unat ps + unat ps \<le> unat p + unat n" by (simp add: ij algebra_simps)
  show "unat p \<le> k * unat ps" using k ps by (simp add: in_pages_def pg_def ij mult.commute)
qed

lemma in_file_pages:
  assumes "0 < unat ps" "unat ps dvd unat p" "unat ps dvd unat n" "in_pages ps p n k"
    and "in_file e ps n flags fd off"
  shows "\<not> (\<not> hf_anonymous (host_flags flags) \<and> past_end e ps p fd off k)"
  using in_pages_whole [OF assms(1-4)] assms(5) by (auto simp: in_file_def past_end_def)

lemma cbunmap_calm: "calm m (cbunmap e b c m)"
  by (cases c) (auto simp: calm_def cbunmap_def split_beta Let_def vm_mmap_past)

lemma cbunmaps_calm: "calm m (cbunmaps e b cs m)"
  unfolding cbunmaps_def
proof (induction cs arbitrary: m)
  case (Cons c cs)
  show ?case using calm_trans [OF cbunmap_calm Cons.IH] by simp
qed simp

lemma mapverify_calm:
  assumes ps: "0 < unat (bx_ps b)" "unat (bx_ps b) dvd unat n" and nw: "unat p + unat n \<le> 2 ^ 64"
    and f: "in_file e (bx_ps b) n flags fd off"
  shows "calm m (snd (mapverify e b p n prot flags fd off nv m))"
proof -
  have al: "unat (bx_ps b) dvd unat p" if "fst (vm_mmap e (bx_ps b) p n acc an fd off m)" for acc an
    using that by (intro page_alignedD) (auto simp: vm_mmap_def Let_def split: if_splits)
  have past: "vm_past (snd (mapmem e b p n pr flags fd off m)) k \<Longrightarrow> vm_past m k" for pr k
    using in_file_pages [OF ps(1) al ps(2) _ f, of _ _ k]
    by (auto simp: mapmem_simps vm_mmap_past split: if_splits)
  have "vm_fault (snd (mapmem e b p n pr flags fd off m)) = vm_fault m" for pr
    by (simp add: mapmem_simps vm_mmap_past)
  then have c: "calm m (snd (mapmem e b p n pr flags fd off m))" for pr
    unfolding calm_def using past by blast
  let ?m1 = "snd (mapmem e b p n LFI_PROT_READ flags fd off m)"
  have pm: "calm m' (snd (protectmem e b p n acc m'))" for acc m'
    by (simp add: calm_def protectmem_simps vm_mmap_past)
  have scan: "calm ?m1 (vm_scan (bx_ps b) p n ?m1)" if ok: "\<not> fst (mapmem e b p n LFI_PROT_READ flags fd off m) < 0"
  proof -
    have mm: "fst (vm_mmap e (bx_ps b) p n (host_prot LFI_PROT_READ) (hf_anonymous (host_flags flags)) fd off m)"
      using ok by (simp add: mapmem_simps split: if_splits)
    have "acc_r (vm_acc ?m1 k) \<and> \<not> vm_past ?m1 k" if "in_pages (bx_ps b) p n k" for k
      using that mm in_file_pages [OF ps(1) al [OF mm] ps(2) that f]
      by (simp add: mapmem_simps vm_mmap_acc vm_mmap_past has_flag_def LFI_PROT_READ_def)
    then have "pages_have acc_r (bx_ps b) ?m1 p (unat n)" by (rule pages_have_part [OF _ ps(1) order_refl order_refl nw])
    then show ?thesis by (simp add: calm_def vm_scan_def)
  qed
  show ?thesis
    using c calm_trans [OF c calm_trans [OF scan pm]] calm_trans [OF c scan]
    by (simp add: mapverify_def split_beta Let_def)
qed

text \<open>A successful protection reads only what it has made readable.\<close>

lemma protectverify_calm:
  assumes ps: "0 < unat (bx_ps b)" "unat (bx_ps b) dvd unat p" and nw: "unat p + unat n \<le> 2 ^ 64" and low: "can_lower e"
    and past: "\<And>k. in_pages (bx_ps b) p n k \<Longrightarrow> \<not> vm_past m k"
  shows "calm m (snd (protectverify e b p n prot nv m))"
proof -
  have pm: "calm m' (snd (protectmem e b p n acc m'))" for acc m'
    by (simp add: calm_def protectmem_simps vm_mmap_past)
  let ?m1 = "snd (protectmem e b p n read_only m)"
  have "page_aligned (bx_ps b) p" using ps(2) by (simp add: page_aligned_def)
  then have "fst (vm_mprotect e (bx_ps b) p n read_only m)"
    using low by (simp add: vm_mprotect_def can_lower_def Let_def)
  then have "acc_r (vm_acc ?m1 k) \<and> \<not> vm_past ?m1 k" if "in_pages (bx_ps b) p n k" for k
    using that past by (simp add: protectmem_simps vm_mprotect_acc vm_mmap_past)
  then have "pages_have acc_r (bx_ps b) ?m1 p (unat n)" by (rule pages_have_part [OF _ ps(1) order_refl order_refl nw])
  then have scan: "calm ?m1 (vm_scan (bx_ps b) p n ?m1)" by (simp add: calm_def vm_scan_def)
  show ?thesis
    using pm calm_trans [OF pm calm_trans [OF scan pm]] calm_trans [OF pm scan]
    by (simp add: protectverify_def split_beta Let_def)
qed

lemma mapat_calm:
  assumes c: "box_ok b" and n: "unat (bx_ps b) dvd unat n" and f: "in_file e (bx_ps b) n flags fd off"
    and s: "lfi_box_mapat e addr n prot flags fd off (b, m) = Some (r, b', m')"
  shows "calm m m'"
proof (cases "lfi_box_bufvalid b addr n")
  case False
  then show ?thesis using s by (simp add: lfi_box_mapat_def box_mapat_locked_def)
next
  case True
  have "unat addr + unat n \<le> unat (bx_max b)" using True bufvalid_iff [OF box_ok_min_max [OF c]] by simp
  also have "\<dots> < 2 ^ 64" by simp
  finally have nw: "unat addr + unat n \<le> 2 ^ 64" by simp
  have ps: "0 < unat (bx_ps b)" using c by (simp add: box_ok_def)
  obtain q calls mm where ma: "map_at True addr n (info prot flags fd off) (bx_mm b) = Some (q, calls, mm)"
    using s True by (auto simp: lfi_box_mapat_def box_mapat_locked_def bind_eq_Some_conv)
  let ?m = "cbunmaps e b calls m"
  show ?thesis
  proof (cases "q = MM_FAIL")
    case True
    then show ?thesis using s ma \<open>lfi_box_bufvalid b addr n\<close> cbunmaps_calm [of m e b calls]
      by (simp add: lfi_box_mapat_def box_mapat_locked_def Let_def)
  next
    case False
    have "q = addr" using mapat_prefix(4) [OF c ma False] by simp
    note mv = calm_trans [OF cbunmaps_calm mapverify_calm [OF ps n nw f, of "cbunmaps e b calls m" prot False]]
    show ?thesis using s ma False \<open>q = addr\<close> True mv calm_trans [OF mv cbunmaps_calm]
      by (auto simp: lfi_box_mapat_def box_mapat_locked_def Let_def split_beta split: if_splits)
  qed
qed

lemma mprotect_calm:
  assumes c: "box_ok b" "can_lower e" and past: "\<And>k. in_pages (bx_ps b) addr n k \<Longrightarrow> \<not> vm_past m k"
    and s: "lfi_box_mprotect e addr n prot (b, m) = (r, b', m')"
  shows "calm m m'"
proof (cases "n = 0 \<or> addr mod bx_ps b \<noteq> 0 \<or> n mod bx_ps b \<noteq> 0 \<or> \<not> lfi_box_bufvalid b addr n")
  case True
  then have "m' = m" using s by (auto simp: lfi_box_mprotect_def box_mprotect_locked_def Let_def split: if_splits)
  then show ?thesis by simp
next
  case False
  have "unat addr + unat n \<le> unat (bx_max b)" using False bufvalid_iff [OF box_ok_min_max [OF c(1)]] by simp
  also have "\<dots> < 2 ^ 64" by simp
  finally have nw: "unat addr + unat n \<le> 2 ^ 64" by simp
  have ps: "0 < unat (bx_ps b)" using c(1) by (simp add: box_ok_def)
  have "unat (addr mod bx_ps b) = unat (0 :: u64)" using False by simp
  then have al: "unat (bx_ps b) dvd unat addr" by (simp only: unat_mod64 unat_0 mod_eq_0_iff_dvd)
  have "m' = snd (protectverify e b addr n prot False m)"
    using s False by (auto simp: lfi_box_mprotect_def box_mprotect_locked_def Let_def split_beta split: if_splits)
  then show ?thesis using protectverify_calm [OF ps al nw c(2) past] by simp
qed

lemma mapany_calm:
  assumes b: "box_ok b" and n: "unat (bx_ps b) dvd unat n" and f: "in_file e (bx_ps b) n flags fd off"
    and s: "box_mapany_locked e n prot flags fd off nv (b, m) = Some (r, b', m')"
  shows "calm m m'"
proof (cases "n = 0")
  case True
  then show ?thesis using s by (simp add: box_mapany_locked_def map_any_def)
next
  case False
  have inv: "as_inv (bx_mm b)" and ps: "0 < unat (bx_ps b)" using b by (simp_all add: box_ok_def)
  from inv False show ?thesis
  proof (cases rule: map_any_cases [where hint = 0 and info = "info prot flags fd off"])
    case (full mm)
    then show ?thesis using s by (auto simp: box_mapany_locked_def)
  next
    case (mapped q mm)
    let ?p = "to_addr (bx_mm b) q" and ?a = "bx_mm b"
    have v: "as_is_valid ?a q (to_page_ceil ?a n)" "to_page_ceil ?a n \<noteq> 0"
      using mapped(2) False inv by (auto simp: free_run_def to_page_ceil_0 as_inv_def)
    have p: "unat ?p = unat q * unat (bx_ps b)"
      using to_page_to_addr(2) [OF inv v] b by (simp add: box_ok_def)
    have ps2: "unat (bx_ps b) = 2 ^ as_p2 ?a" "0 < as_p2 ?a" using b inv by (simp_all add: box_ok_def as_inv_def)
    have "unat q + unat (to_page_ceil ?a n) \<le> unat (as_base ?a) + unat (as_len ?a)"
      using v(1) as_is_valid_iff [OF inv] by simp
    then have "(unat q + unat (to_page_ceil ?a n)) * 2 ^ as_p2 ?a \<le> (unat (as_base ?a) + unat (as_len ?a)) * 2 ^ as_p2 ?a"
      by (rule mult_le_mono1)
    also have "\<dots> < 2 ^ 64" using inv by (simp add: as_inv_def)
    finally have "unat q * 2 ^ as_p2 ?a + unat n div 2 ^ as_p2 ?a * 2 ^ as_p2 ?a < 2 ^ 64"
      using n by (simp add: unat_to_page_ceil [OF ps2(2)] ps2(1) distrib_right)
    moreover have "unat n div 2 ^ as_p2 ?a * 2 ^ as_p2 ?a = unat n" using n by (simp add: ps2(1))
    ultimately have nw: "unat ?p + unat n \<le> 2 ^ 64" by (simp add: p ps2(1))
    note mv = mapverify_calm [OF ps n nw f, of m prot nv]
    show ?thesis using s mapped(1) mv calm_trans [OF mv cbunmaps_calm]
      by (auto simp: box_mapany_locked_def split_beta Let_def split: if_splits)
  qed
qed

text \<open>What is not made executable is not read.\<close>

lemma mapat_quiet:
  assumes c: "checked e b"
    and f: "has_flag prot LFI_PROT_EXEC \<Longrightarrow> \<not> has_flag prot LFI_PROT_WRITE \<Longrightarrow>
      unat (bx_ps b) dvd unat n \<and> in_file e (bx_ps b) n flags fd off"
    and s: "lfi_box_mapat e addr n prot flags fd off (b, m) = Some (r, b', m')"
  shows "vm_fault m' = vm_fault m"
proof (cases "has_flag prot LFI_PROT_EXEC \<and> \<not> has_flag prot LFI_PROT_WRITE")
  case True
  then show ?thesis using mapat_calm [OF checkedD(1) [OF c] _ _ s] f by (simp add: calm_def)
next
  case False
  have v: "vm_fault (cbunmaps e b cs m') = vm_fault m'" for cs m'
    using cbunmaps_calm [of m' e b cs] by (simp add: calm_def)
  have "vm_fault (snd (mapverify e b p n prot flags fd off False m')) = vm_fault m'" for p m'
    using False checkedD(2) [OF c] by (auto simp: mapverify_def mapmem_simps vm_mmap_past Let_def)
  then show ?thesis using s v
    by (auto simp: lfi_box_mapat_def box_mapat_locked_def bind_eq_Some_conv Let_def split_beta split: if_splits)
qed

lemma munmap_calm: "box_munmap_locked e addr n (b, m) = (r, b', m') \<Longrightarrow> calm m m'"
  by (auto simp: box_munmap_locked_def calm_def Let_def split_beta vm_mmap_past split: if_splits)

text \<open>Sequences of requests that map whole pages inside their files.\<close>

fun request_fits :: "host_env \<Rightarrow> u64 \<Rightarrow> box_call \<Rightarrow> bool" where
  "request_fits e ps (Mapany n prot flags fd off) \<longleftrightarrow> in_file e ps n flags fd off"
| "request_fits e ps (Mapat addr n prot flags fd off) \<longleftrightarrow> in_file e ps n flags fd off"
| "request_fits e ps (MapatRegister addr n prot flags fd off) \<longleftrightarrow> False"
| "request_fits e ps _ \<longleftrightarrow> True"

lemma box_do_calm:
  assumes b: "box_ok b" "can_lower e" and past: "\<And>k. box_page b k \<Longrightarrow> \<not> vm_past m k"
    and c: "whole_pages (bx_ps b) c" "request_fits e (bx_ps b) c" and s: "box_do e c (b, m) = Some (b', m')"
  shows "calm m m'"
proof (cases c)
  case (Mapany n prot flags fd off)
  then obtain r where "box_mapany_locked e n prot flags fd off False (b, m) = Some (r, b', m')" using s by auto
  then show ?thesis using mapany_calm [OF b(1) _ _] c Mapany by (auto simp: mod_eq_0_iff_dvd)
next
  case (Mapat addr n prot flags fd off)
  then obtain r where "lfi_box_mapat e addr n prot flags fd off (b, m) = Some (r, b', m')"
    using s by (auto simp: lfi_box_mapat_def)
  then show ?thesis using mapat_calm [OF b(1) _ _] c Mapat by (auto simp: mod_eq_0_iff_dvd)
next
  case (Mprotect addr n prot)
  obtain r where r: "lfi_box_mprotect e addr n prot (b, m) = (r, b', m')"
    using s Mprotect by (cases "lfi_box_mprotect e addr n prot (b, m)") (auto simp: lfi_box_mprotect_def)
  show ?thesis
  proof (cases "lfi_box_bufvalid b addr n")
    case True
    show ?thesis by (rule mprotect_calm [OF b _ r]) (use past bufvalid_pages [OF b(1) True] in blast)
  next
    case False
    then have "m' = m" using r by (auto simp: lfi_box_mprotect_def box_mprotect_locked_def Let_def split: if_splits)
    then show ?thesis by simp
  qed
next
  case (Munmap addr n)
  then show ?thesis using s munmap_calm [of e addr n b m] by (cases "box_munmap_locked e addr n (b, m)") auto
qed (use c in simp)

lemma box_dos_calm:
  assumes "box_ok b" "can_lower e" "\<forall>k. box_page b k \<longrightarrow> \<not> vm_past m k"
    and "\<forall>c \<in> set cs. whole_pages (bx_ps b) c \<and> request_fits e (bx_ps b) c" and "box_dos e cs (b, m) = Some (b', m')"
  shows "calm m m'"
  using assms
proof (induction cs arbitrary: b m)
  case (Cons c cs)
  obtain b1 m1 where s: "box_do e c (b, m) = Some (b1, m1)" "box_effect e b m b1 m1"
    using box_do_effect [OF Cons.prems(1)] by blast
  note ok = box_effect_ok [OF Cons.prems(1) s(2)]
  have one: "calm m m1" by (rule box_do_calm [OF Cons.prems(1,2) _ _ _ s(1)]) (use Cons.prems(3,4) in auto)
  have "calm m1 m'"
  proof (rule Cons.IH)
    show "\<forall>k. box_page b1 k \<longrightarrow> \<not> vm_past m1 k" using one Cons.prems(3) ok(3) by (auto simp: calm_def)
    show "\<forall>c \<in> set cs. whole_pages (bx_ps b1) c \<and> request_fits e (bx_ps b1) c" using Cons.prems(4) ok(2) by simp
    show "box_dos e cs (b1, m1) = Some (b', m')" using Cons.prems(5) s(1) by simp
  qed (use ok(1) Cons.prems(2) in simp_all)
  then show ?case using one calm_trans by blast
qed simp

end
