(* ===== verification/BoxFindings.thy ===== *)
theory BoxFindings
  imports BoxSteps
begin

text \<open>
  Three runs in which an executable page of a sandbox holds bytes the verifier did not
  accept: the hypotheses of the safety theorem (whole pages, no writes to mapped files, no
  failing \<^verbatim>\<open>mprotect\<close> that lowers rights) are needed, because the code does not ensure them.
\<close>

text \<open>
  Environments: a file with 100 bytes of code and other bytes after them; a file that is
  written after the verifier ran; a failing \<^verbatim>\<open>mprotect\<close> and a store after the verifier ran.
  The memory of the last two: page 17 holds accepted code.
\<close>

definition tail_env :: host_env where
  "tail_env = demo_env\<lparr>he_file := (\<lambda>fd off. if off < 100 then 0x90 else 0xCC)\<rparr>"

definition file_env :: host_env where
  "file_env = demo_env\<lparr>he_fwrite := (\<lambda>i x. if i = 1 then Some 0xCC else None)\<rparr>"

definition lower_env :: host_env where
  "lower_env = demo_env\<lparr>he_ok := (\<lambda>i c. i \<noteq> 1),
     he_store := (\<lambda>i x. if i = 1 then Some 0xCC else None)\<rparr>"

definition code_vm :: "access \<Rightarrow> bool \<Rightarrow> vm" where
  "code_vm acc file = demo_vm\<lparr>vm_acc := (\<lambda>k. if k = 17 then acc else no_access),
     vm_file := (\<lambda>k. file \<and> k = 17), vm_mem := (\<lambda>x. 0x90)\<rparr>"

lemma bad_byte_unverified:
  assumes "he_verify e = he_verify demo_env" "pg ps x = k" "vm_mem m x \<noteq> 0x90"
  shows "\<not> page_verified e ps m k"
proof
  assume "page_verified e ps m k"
  then obtain p bs where v: "he_verify demo_env bs p"
    and b: "\<forall>x. pg ps x = k \<longrightarrow> unat p \<le> unat x \<and> unat x - unat p < length bs \<and>
        vm_mem m x = bs ! (unat x - unat p)" using assms(1) by (auto simp: page_verified_def)
  have "bs ! (unat x - unat p) \<in> set bs" using b assms(2) by simp
  then show False using v b assms(2,3) by (simp add: demo_env_def)
qed


text \<open>The tracker's answers in the three runs below.\<close>

lemma demo_map_any:
  assumes "n \<noteq> 0" "to_page_ceil (bx_mm demo_box) n = 1"
  shows "\<exists>mm. map_any 0 n i (bx_mm demo_box) = Some (0x11000, mm)"
  using assms
  by (auto simp: map_any_def demo_box_def find_free_def get_gaps_def overlap_begin_def lower_bound_def
      check_in_region_def as_is_valid_def to_page_def to_addr_def to_page_ceil_def Let_def split: if_splits)

lemma verify_all:
  assumes "he_verify e = he_verify demo_env" 
    "\<forall>x. pg 4096 x = 17 \<longrightarrow> unat x < 0x11000 + unat n \<longrightarrow> vm_mem m x = 0x90" "unat n \<le> 4096"
  shows "he_verify e (vm_bytes m 0x11000 n) 0x11000"
  unfolding assms(1) demo_env_def vm_bytes_def
proof (clarsimp)
  fix i assume i: "i < unat n"
  have "unat (0x11000 + of_nat i :: u64) = 0x11000 + i" using i assms(3)
    by (subst unat_word_ariths(1)) (simp add: unat_of_nat64)
  then show "vm_mem m (0x11000 + of_nat i) = 0x90" using assms(2) i assms(3)
    by (simp add: pg_def div_nat_eqI)
qed


lemma demo_flags [simp]:
  "has_flag 5 LFI_PROT_EXEC" "\<not> has_flag 5 LFI_PROT_WRITE" "\<not> has_flag 3 LFI_PROT_EXEC" "has_flag 3 LFI_PROT_WRITE"
  "\<not> has_flag 2 LFI_MAP_ANONYMOUS" "\<not> has_flag 1 LFI_PROT_EXEC" "\<not> has_flag 1 LFI_PROT_WRITE"
  by (simp_all add: has_flag_def lfi_flags)

lemma demo_pages [simp]:
  "page_aligned 4096 0x11000" "in_pages 4096 0x11000 100 17" "in_pages 4096 0x11000 4096 17"
  by (simp_all add: page_aligned_def in_pages_def pg_def)

text \<open>C33: a mapping request of a size that is not whole pages (which \<^verbatim>\<open>lfi_box_mapany\<close> accepts)
  verifies only the bytes asked for, while the host makes the whole last page executable: a
  file whose first 100 bytes are accepted code and whose rest is not gives an executable
  page with bytes the verifier never saw.\<close>

theorem partial_page_unverified:
  "\<exists>b' m'. box_do tail_env (Mapany 100 5 2 3 0) (demo_box, demo_vm) = Some (b', m') \<and>
     acc_x (vm_acc m' 17) \<and> \<not> page_verified tail_env 4096 m' 17"
proof -
  obtain mm where mm: "map_any 0 100 (info 5 2 3 0) (bx_mm demo_box) = Some (0x11000, mm)"
    using demo_map_any [of 100] by (auto simp: to_page_ceil_def demo_box_def page_mask_def)
  let ?m1 = "snd (mapmem tail_env demo_box 0x11000 100 LFI_PROT_READ 2 3 0 demo_vm)"
  let ?m2 = "snd (protectmem tail_env demo_box 0x11000 100 (host_prot 5) (vm_scan 4096 0x11000 100 ?m1))"
  have m1: "fst (mapmem tail_env demo_box 0x11000 100 LFI_PROT_READ 2 3 0 demo_vm) = 0"
    "in_pages 4096 0x11000 100 (pg 4096 x) \<Longrightarrow> vm_mem ?m1 x = (if x - 0x11000 < 100 then 0x90 else 0xCC)"
    "\<not> acc_w (vm_acc ?m1 17)" for x
    by (simp_all add: mapmem_simps vm_mmap_def demo_box_ok(3) tail_env_def demo_env_def host_flags_def Let_def)
  have "he_verify tail_env (vm_bytes ?m1 0x11000 100) 0x11000"
  proof (rule verify_all)
    show "he_verify tail_env = he_verify demo_env" by (simp add: tail_env_def)
    show "\<forall>x. pg 4096 x = 17 \<longrightarrow> unat x < 0x11000 + unat (100 :: u64) \<longrightarrow> vm_mem ?m1 x = 0x90"
    proof (intro allI impI)
      fix x :: u64
      assume x: "pg 4096 x = 17" "unat x < 0x11000 + unat (100 :: u64)"
      then have "0x11000 \<le> unat x" by (simp add: pg_def)
      with x have "x - 0x11000 < 100" by (simp add: unat_sub64' word_less_nat_alt)
      then show "vm_mem ?m1 x = 0x90" using m1(2) [of x] x(1) by simp
    qed
  qed simp
  then have r: "box_do tail_env (Mapany 100 5 2 3 0) (demo_box, demo_vm) = Some (demo_box\<lparr>bx_mm := mm\<rparr>, ?m2)"
    using m1(1) demo_box_ok(2)
    by (simp add: box_mapany_locked_def mm mapverify_def MM_FAIL_def split_beta Let_def protectmem_simps
        vm_mprotect_def tail_env_def demo_env_def demo_box_ok(3))
  have "vm_mem ?m2 (0x11000 + 200) = 0xCC"
    using m1(2) [of "0x11000 + 200"] m1(3)
    by (simp add: protectmem_simps tail_env_def demo_env_def vm_tick_def demo_box_ok(3) pg_def in_pages_def Let_def)
  then have "\<not> page_verified tail_env 4096 ?m2 17"
    by (intro bad_byte_unverified [where x = "0x11000 + 200"]) (simp_all add: tail_env_def pg_def)
  moreover have "acc_x (vm_acc ?m2 17)"
    by (simp add: protectmem_simps vm_mprotect_acc demo_box_ok(3))
       (simp add: vm_mprotect_def tail_env_def demo_env_def Let_def)
  ultimately show ?thesis using r by blast
qed

text \<open>Protecting the code page as executable, when the verifier accepts it.\<close>

lemma demo_mprotect:
  assumes m1: "m1 = snd (protectmem e demo_box 0x11000 4096 read_only m)"
    and m2: "(0, m2) = protectmem e demo_box 0x11000 4096 (host_prot 5) (vm_scan 4096 0x11000 4096 m1)"
    and v: "he_verify e = he_verify demo_env" "\<forall>x. pg 4096 x = 17 \<longrightarrow> vm_mem m1 x = 0x90"
  shows "\<exists>b'. box_do e (Mprotect 0x11000 4096 5) (demo_box, m) = Some (b', m2)"
proof -
  have "he_verify e (vm_bytes m1 0x11000 4096) 0x11000" by (rule verify_all) (use v in auto)
  moreover have "lfi_box_bufvalid demo_box 0x11000 4096" by (simp add: lfi_box_bufvalid_def demo_box_def)
  ultimately show ?thesis using demo_box_ok(2) m1 m2 [symmetric]
    by (simp add: box_mprotect_locked_def protectverify_def demo_box_ok(3) split_beta Let_def)
qed

text \<open>C34: a page of a private file mapping can be made executable with \<^verbatim>\<open>lfi_box_mprotect\<close>; when
  the file is written after the verifier ran, the executable page holds bytes the verifier
  never saw, although every call succeeded and the page was never writable.\<close>

theorem file_page_unverified:
  "\<exists>b' m'. box_do file_env (Mprotect 0x11000 4096 5) (demo_box, code_vm read_only True) = Some (b', m') \<and>
     acc_x (vm_acc m' 17) \<and> \<not> page_verified file_env 4096 m' 17"
proof -
  let ?m1 = "snd (protectmem file_env demo_box 0x11000 4096 read_only (code_vm read_only True))"
  let ?m2 = "snd (protectmem file_env demo_box 0x11000 4096 (host_prot 5) (vm_scan 4096 0x11000 4096 ?m1))"
  have "\<exists>b'. box_do file_env (Mprotect 0x11000 4096 5) (demo_box, code_vm read_only True) = Some (b', ?m2)"
  proof (rule demo_mprotect [OF refl])
    show "(0, ?m2) = protectmem file_env demo_box 0x11000 4096 (host_prot 5) (vm_scan 4096 0x11000 4096 ?m1)"
      by (simp add: prod_eq_iff protectmem_simps)
         (simp add: vm_mprotect_def file_env_def demo_env_def demo_box_ok(3) Let_def)
    show "\<forall>x. pg 4096 x = 17 \<longrightarrow> vm_mem ?m1 x = 0x90"
      by (simp add: protectmem_simps vm_tick_def file_env_def demo_env_def code_vm_def demo_vm_def
          demo_box_ok(3) Let_def)
  qed (simp add: file_env_def)
  moreover have "vm_mem ?m2 0x11000 = 0xCC"
    by (simp add: protectmem_simps vm_mprotect_def vm_tick_def file_env_def demo_env_def code_vm_def
        demo_vm_def demo_box_ok(3) pg_def Let_def)
  then have "\<not> page_verified file_env 4096 ?m2 17"
    by (intro bad_byte_unverified [where x = "0x11000"]) (simp_all add: file_env_def pg_def)
  moreover have "acc_x (vm_acc ?m2 17)"
    by (simp add: protectmem_simps vm_mprotect_acc demo_box_ok(3))
       (simp add: vm_mprotect_def file_env_def demo_env_def Let_def)
  ultimately show ?thesis by blast
qed

text \<open>C35: the result of the \<^verbatim>\<open>mprotect\<close> that removes the write permission before verification is
  ignored: when that call fails, a sandbox thread can store to the page after the verifier
  ran and before it becomes executable.\<close>

theorem ignored_mprotect_unverified:
  "\<exists>b' m'. box_do lower_env (Mprotect 0x11000 4096 5) (demo_box, code_vm read_write False) = Some (b', m') \<and>
     acc_x (vm_acc m' 17) \<and> \<not> page_verified lower_env 4096 m' 17"
proof -
  let ?m1 = "snd (protectmem lower_env demo_box 0x11000 4096 read_only (code_vm read_write False))"
  let ?m2 = "snd (protectmem lower_env demo_box 0x11000 4096 (host_prot 5) (vm_scan 4096 0x11000 4096 ?m1))"
  have "\<exists>b'. box_do lower_env (Mprotect 0x11000 4096 5) (demo_box, code_vm read_write False) = Some (b', ?m2)"
  proof (rule demo_mprotect [OF refl])
    show "(0, ?m2) = protectmem lower_env demo_box 0x11000 4096 (host_prot 5) (vm_scan 4096 0x11000 4096 ?m1)"
      by (simp add: prod_eq_iff protectmem_simps)
         (simp add: vm_mprotect_def vm_tick_def lower_env_def demo_env_def code_vm_def demo_vm_def
           demo_box_ok(3) Let_def)
    show "\<forall>x. pg 4096 x = 17 \<longrightarrow> vm_mem ?m1 x = 0x90"
      by (simp add: protectmem_simps vm_tick_def lower_env_def demo_env_def code_vm_def demo_vm_def
          demo_box_ok(3) Let_def)
  qed (simp add: lower_env_def)
  moreover have "vm_mem ?m2 0x11000 = 0xCC"
    by (simp add: protectmem_simps vm_mprotect_def vm_tick_def lower_env_def demo_env_def code_vm_def
        demo_vm_def demo_box_ok(3) pg_def read_write_def Let_def)
  then have "\<not> page_verified lower_env 4096 ?m2 17"
    by (intro bad_byte_unverified [where x = "0x11000"]) (simp_all add: lower_env_def pg_def)
  moreover have "acc_x (vm_acc ?m2 17)"
    by (simp add: protectmem_simps vm_mprotect_acc demo_box_ok(3))
       (simp add: vm_mprotect_def vm_tick_def lower_env_def demo_env_def code_vm_def demo_vm_def Let_def)
  ultimately show ?thesis by blast
qed


subsection \<open>A file that ends before its mapping\<close>

text \<open>The first byte of a page of a range of whole pages is one of its bytes.\<close>

lemma page_byte:
  assumes ps: "0 < unat ps" and al: "unat ps dvd unat p" "unat ps dvd unat n" and k: "in_pages ps p n k"
    and nw: "unat p + unat n \<le> 2 ^ 64"
  shows "\<exists>i < unat n. pg ps (p + of_nat i) = k"
proof -
  let ?i = "k * unat ps - unat p"
  note w = in_pages_whole [OF ps al k]
  then have x: "p + of_nat ?i = of_nat (k * unat ps)" by (simp add: of_nat_diff)
  have lt: "?i < unat n" using w ps by linarith
  have "k * unat ps < 2 ^ 64" using w ps nw by linarith
  then have "unat (of_nat (k * unat ps) :: u64) = k * unat ps" by (rule unat_of_nat64)
  then show ?thesis using lt x ps by (intro exI [of _ ?i]) (simp add: pg_def)
qed

text \<open>C36: a sandbox can stop its host with a short file. If it maps a file (readable, not
  executable, which is what \<^verbatim>\<open>sys_mmap\<close> allows) so that the mapping has a page past the end of the
  file, and then asks to make the mapping executable, the host's verifier reads that page and
  the host gets the signal (SIGBUS). No check of the code is in the way: the mapping itself
  is quiet and succeeds.\<close>

theorem exec_past_end_faults:
  assumes c: "checked e b" and n: "unat (bx_ps b) dvd unat n"
    and map: "lfi_box_mapat e addr n prot flags fd off (b, m) = Some (r, b1, m1)" "r \<noteq> -1"
    and data: "\<not> has_flag prot LFI_PROT_EXEC" "\<not> hf_anonymous (host_flags flags)" "\<not> vm_fault m"
    and past: "in_pages (bx_ps b) addr n k" "he_fsize e fd \<le> unat off + (k * unat (bx_ps b) - unat addr)"
    and exec: "has_flag prot' LFI_PROT_EXEC" "\<not> has_flag prot' LFI_PROT_WRITE"
      "lfi_box_mprotect e addr n prot' (b1, m1) = (r', b2, m2)"
  shows "\<not> vm_fault m1 \<and> vm_fault m2"
proof
  note d = checkedD [OF c] and s = mapat_success [OF c map]
  have v: "vm_fault (cbunmaps e b cs m') = vm_fault m'" for cs m'
    using cbunmaps_calm [of m' e b cs] by (simp add: calm_def)
  show "\<not> vm_fault m1" using map data(1,3)
    by (auto simp: lfi_box_mapat_def box_mapat_locked_def bind_eq_Some_conv Let_def split_beta mapverify_def v
        mapmem_simps vm_mmap_past split: if_splits)
  have st: "box_step e b m b1 m1" using mapat_step [OF c n, of addr prot flags fd off m] map(1) by auto
  note b1 = box_step_box [OF d(1) st]
  let ?ps = "bx_ps b"
  have "unat addr + unat n \<le> unat (bx_max b)" using s(2) bufvalid_iff [OF box_ok_min_max [OF d(1)]] by simp
  also have "\<dots> < 2 ^ 64" by simp
  finally have nw: "unat addr + unat n \<le> 2 ^ 64" by simp
  have al: "unat ?ps dvd unat addr" using s(3) by (simp add: mod_eq_0_iff_dvd)
  obtain i where i: "i < unat n" "pg ?ps (addr + of_nat i) = k" using page_byte [OF d(4) al n past(1) nw] by blast
  have "vm_past m1 k" using mapat_past [OF c map past(1)] data(2) past(2) by (simp add: past_end_def)
  then have bad: "\<not> pages_have acc_r ?ps m' addr (unat n)" if "vm_past m' = vm_past m1" for m'
    using i that by (auto simp: pages_have_def list_all_iff)
  have "lfi_box_bufvalid b1 addr n" using s(2) b1 by (simp add: lfi_box_bufvalid_def)
  moreover have "n \<noteq> 0" "addr mod ?ps = 0" "n mod ?ps = 0"
    using i(1) n s(3) by (auto simp: unat_mod64 word_unat_eq_iff)
  ultimately have "m2 = snd (protectverify e b1 addr n prot' False m1)"
    using exec(3) b1 by (auto simp: lfi_box_mprotect_def box_mprotect_locked_def Let_def split_beta split: if_splits)
  then show "vm_fault m2" using exec(1,2) b1 d(2) bad
    by (auto simp: protectverify_def Let_def split_beta protectmem_simps vm_mmap_past vm_scan_def)
qed

definition short_env :: host_env where
  "short_env = demo_env\<lparr>he_fsize := (\<lambda>fd. 100)\<rparr>"

theorem exec_past_end_faults_witness:
  "\<exists>r b1 m1 r' b2 m2. lfi_box_mapat short_env 0x11000 8192 1 2 3 0 (demo_box, demo_vm) = Some (r, b1, m1) \<and>
     lfi_box_mprotect short_env 0x11000 8192 5 (b1, m1) = (r', b2, m2) \<and> \<not> vm_fault m1 \<and> vm_fault m2"
proof -
  have c: "checked short_env demo_box"
    by (simp add: checked_def demo_box_ok can_lower_def short_env_def demo_env_def)
  have "\<exists>mm. map_at True 0x11000 8192 (info 1 2 3 0) (bx_mm demo_box) = Some (0x11000, [], mm)"
    by (simp add: map_at_def as_unmap_def args_ok_def check_in_region_def as_is_valid_def to_page_def to_page_ceil_def
        to_addr_def page_mask_def demo_box_def get_overlapping_def overlap_begin_def
        lower_bound_def Let_def)
  then obtain mm where "map_at True 0x11000 8192 (info 1 2 3 0) (bx_mm demo_box) = Some (0x11000, [], mm)" by blast
  moreover have "lfi_box_bufvalid demo_box 0x11000 8192" by (simp add: lfi_box_bufvalid_def demo_box_def)
  ultimately have "\<exists>b1 m1. lfi_box_mapat short_env 0x11000 8192 1 2 3 0 (demo_box, demo_vm) = Some (0x11000, b1, m1)"
    by (simp add: lfi_box_mapat_def box_mapat_locked_def MM_FAIL_def mapverify_def mapmem_simps vm_mmap_def
        demo_box_ok(3) short_env_def demo_env_def cbunmaps_def split_beta Let_def)
  then obtain b1 m1 where m: "lfi_box_mapat short_env 0x11000 8192 1 2 3 0 (demo_box, demo_vm) = Some (0x11000, b1, m1)" by blast
  obtain r' b2 m2 where p: "lfi_box_mprotect short_env 0x11000 8192 5 (b1, m1) = (r', b2, m2)" by (metis surj_pair)
  have "\<not> vm_fault m1 \<and> vm_fault m2"
    by (rule exec_past_end_faults [OF c _ m _ _ _ _ _ _ _ _ p, where k = 18])
      (simp_all add: demo_box_ok(3) host_flags_def lfi_flags has_flag_def in_pages_def pg_def short_env_def demo_vm_def)
  then show ?thesis using m p by blast
qed

end
