(* ===== verification/Cwalk.thy ===== *)
theory Cwalk
  imports Prelude
begin

text \<open>
  Paths, \<^verbatim>\<open>linux/cwalk.c\<close>. A C string is a list of characters, a pointer into it an offset;
  reading at or past the end gives the terminating zero. The global \<^verbatim>\<open>path_style\<close> is the
  argument \<open>st\<close>. Output buffers are lists as long as the buffer, separate from the paths
  (no caller in the repository lets them overlap).

  The assertion of \<^verbatim>\<open>cwk_path_get_next_segment\<close> (a segment ends at a separator or at the end
  of the string) is the invariant \<open>seg_ok\<close> below; every segment the functions make has it.
\<close>

subsection \<open>Characters and buffers\<close>

datatype path_style = WINDOWS | UNIX

abbreviation NUL :: char where "NUL \<equiv> CHR 0x00"

definition char_at :: "string \<Rightarrow> nat \<Rightarrow> char" where
  "char_at s i = (if i < length s then s ! i else NUL)"

definition cstr :: "string \<Rightarrow> string" where
  "cstr s = takeWhile (\<lambda>c. c \<noteq> NUL) s"

fun separators :: "path_style \<Rightarrow> char list" where
  "separators WINDOWS = [CHR 0x5C, CHR 0x2F]"
| "separators UNIX = [CHR 0x2F]"

definition cwk_path_is_separator :: "path_style \<Rightarrow> string \<Rightarrow> nat \<Rightarrow> bool" where
  "cwk_path_is_separator st s i \<longleftrightarrow> char_at s i \<in> set (separators st)"

lemma char_at_len: "char_at s i \<noteq> NUL \<Longrightarrow> i < length s"
  by (simp add: char_at_def split: if_splits)

lemma sep_not_nul: "cwk_path_is_separator st s i \<Longrightarrow> char_at s i \<noteq> NUL"
  by (cases st) (auto simp: cwk_path_is_separator_def)

lemma sep_len: "cwk_path_is_separator st s i \<Longrightarrow> i < length s"
  by (rule char_at_len [OF sep_not_nul])

definition write_at :: "string \<Rightarrow> nat \<Rightarrow> string \<Rightarrow> string" where
  "write_at buf pos bs = take pos buf @ bs @ drop (pos + length bs) buf"

definition cwk_path_output_sized :: "string \<Rightarrow> nat \<Rightarrow> string \<Rightarrow> nat \<Rightarrow> string \<times> nat" where
  "cwk_path_output_sized buf pos str n =
     (let amount = (if length buf > pos + n then n
                    else if length buf > pos then length buf - pos else 0)
      in (if amount > 0 then write_at buf pos (take amount str) else buf, n))"

definition cwk_path_output_current :: "string \<Rightarrow> nat \<Rightarrow> string \<times> nat" where
  "cwk_path_output_current buf pos = cwk_path_output_sized buf pos ''.'' 1"

definition cwk_path_output_back :: "string \<Rightarrow> nat \<Rightarrow> string \<times> nat" where
  "cwk_path_output_back buf pos = cwk_path_output_sized buf pos ''..'' 2"

definition cwk_path_output_separator :: "path_style \<Rightarrow> string \<Rightarrow> nat \<Rightarrow> string \<times> nat" where
  "cwk_path_output_separator st buf pos = cwk_path_output_sized buf pos (separators st) 1"

definition cwk_path_output_dot :: "string \<Rightarrow> nat \<Rightarrow> string \<times> nat" where
  "cwk_path_output_dot buf pos = cwk_path_output_sized buf pos ''.'' 1"

definition cwk_path_output :: "string \<Rightarrow> nat \<Rightarrow> string \<Rightarrow> string \<times> nat" where
  "cwk_path_output buf pos str = cwk_path_output_sized buf pos str (length (cstr str))"

definition cwk_path_terminate_output :: "string \<Rightarrow> nat \<Rightarrow> string" where
  "cwk_path_terminate_output buf pos =
     (if length buf > 0 then
        if pos \<ge> length buf then buf[length buf - 1 := NUL] else buf[pos := NUL]
      else buf)"

text \<open>\<^verbatim>\<open>strncmp(...) == 0\<close> and the C locale's \<^verbatim>\<open>tolower\<close>.\<close>

fun strneq :: "string \<Rightarrow> nat \<Rightarrow> string \<Rightarrow> nat \<Rightarrow> nat \<Rightarrow> bool" where
  "strneq s i t j 0 = True"
| "strneq s i t j (Suc n) =
     (char_at s i = char_at t j \<and> (char_at s i = NUL \<or> strneq s (i + 1) t (j + 1) n))"

definition tolower :: "char \<Rightarrow> char" where
  "tolower c = (let n = of_char c :: nat in if 65 \<le> n \<and> n \<le> 90 then char_of (n + 32) else c)"

fun windows_equal :: "string \<Rightarrow> nat \<Rightarrow> string \<Rightarrow> nat \<Rightarrow> nat \<Rightarrow> bool" where
  "windows_equal s i t j 0 = True"
| "windows_equal s i t j (Suc n) =
     (if char_at s i = NUL \<or> char_at t j = NUL then True
      else if tolower (char_at s i) \<noteq> tolower (char_at t j) \<and>
              \<not> (cwk_path_is_separator WINDOWS s i \<and> cwk_path_is_separator WINDOWS t j) then False
      else windows_equal s (i + 1) t (j + 1) n)"

definition cwk_path_is_string_equal ::
  "path_style \<Rightarrow> string \<Rightarrow> nat \<Rightarrow> string \<Rightarrow> nat \<Rightarrow> nat \<Rightarrow> nat \<Rightarrow> bool" where
  "cwk_path_is_string_equal st s i t j first_size second_size =
     (if first_size \<noteq> second_size then False
      else if st = UNIX then strneq s i t j first_size
      else windows_equal s i t j first_size)"

function cwk_path_find_next_stop :: "path_style \<Rightarrow> string \<Rightarrow> nat \<Rightarrow> nat" where
  "cwk_path_find_next_stop st s c =
     (if char_at s c \<noteq> NUL \<and> \<not> cwk_path_is_separator st s c
      then cwk_path_find_next_stop st s (c + 1) else c)"
  by pat_completeness auto
termination
  by (relation "measure (\<lambda>(st, s, c). length s - c)") (auto dest: char_at_len)

function previous_stop_loop :: "path_style \<Rightarrow> string \<Rightarrow> nat \<Rightarrow> nat \<Rightarrow> nat" where
  "previous_stop_loop st s lo c =
     (if c > lo \<and> \<not> cwk_path_is_separator st s c then previous_stop_loop st s lo (c - 1) else c)"
  by pat_completeness auto
termination
  by (relation "measure (\<lambda>(st, s, lo, c). c)") auto

definition cwk_path_find_previous_stop :: "path_style \<Rightarrow> string \<Rightarrow> nat \<Rightarrow> nat \<Rightarrow> nat" where
  "cwk_path_find_previous_stop st s lo c =
     (let c = previous_stop_loop st s lo c
      in if cwk_path_is_separator st s c then c + 1 else c)"

declare cwk_path_find_next_stop.simps [simp del] previous_stop_loop.simps [simp del]

subsection \<open>Roots\<close>

text \<open>A loop \<^verbatim>\<open>while (cwk_path_is_separator(c)) ++c\<close>.\<close>

function skip_separators :: "path_style \<Rightarrow> string \<Rightarrow> nat \<Rightarrow> nat" where
  "skip_separators st s c =
     (if cwk_path_is_separator st s c then skip_separators st s (c + 1) else c)"
  by pat_completeness auto
termination
  by (relation "measure (\<lambda>(st, s, c). length s - c)") (auto dest: sep_len)

declare skip_separators.simps [simp del]

definition cwk_path_get_root_windows :: "path_style \<Rightarrow> string \<Rightarrow> nat" where
  "cwk_path_get_root_windows st path =
     (let sep = cwk_path_is_separator st path; stop = cwk_path_find_next_stop st path
      in if char_at path 0 = NUL then 0
         else if sep 0 then
           (if \<not> sep 1 then 1
            else let mark = (char_at path 2 = CHR ''?'' \<or> char_at path 2 = CHR ''.'')
                 in if mark \<and> sep 3 then 4
                    else let c = stop (if mark then 3 else 2);
                             c = skip_separators st path c;
                             c = stop c
                         in if sep c then c + 1 else c)
         else if char_at path 1 = CHR '':'' then (if sep 2 then 3 else 2)
         else 0)"

definition cwk_path_get_root_unix :: "path_style \<Rightarrow> string \<Rightarrow> nat" where
  "cwk_path_get_root_unix st path = (if cwk_path_is_separator st path 0 then 1 else 0)"

definition cwk_path_get_root :: "path_style \<Rightarrow> string \<Rightarrow> nat" where
  "cwk_path_get_root st path =
     (if st = WINDOWS then cwk_path_get_root_windows st path else cwk_path_get_root_unix st path)"

definition cwk_path_is_root_absolute :: "path_style \<Rightarrow> string \<Rightarrow> nat \<Rightarrow> bool" where
  "cwk_path_is_root_absolute st path n = (if n = 0 then False else cwk_path_is_separator st path (n - 1))"

definition cwk_path_fix_root :: "path_style \<Rightarrow> string \<Rightarrow> nat \<Rightarrow> string" where
  "cwk_path_fix_root st buf n =
     (if st \<noteq> WINDOWS then buf
      else let n = (if n > length buf then length buf else n)
           in map (\<lambda>i. if i < n \<and> cwk_path_is_separator st buf i then hd (separators WINDOWS) else buf ! i)
                [0 ..< length buf])"

definition cwk_path_is_absolute :: "path_style \<Rightarrow> string \<Rightarrow> bool" where
  "cwk_path_is_absolute st path = cwk_path_is_root_absolute st path (cwk_path_get_root st path)"

definition cwk_path_is_relative :: "path_style \<Rightarrow> string \<Rightarrow> bool" where
  "cwk_path_is_relative st path = (\<not> cwk_path_is_absolute st path)"

subsection \<open>Segments\<close>

record segment =
  seg_path :: string
  seg_segments :: nat
  seg_begin :: nat
  seg_end :: nat
  seg_size :: nat

datatype segment_type = CWK_NORMAL | CWK_CURRENT | CWK_BACK

function first_nonsep :: "path_style \<Rightarrow> string \<Rightarrow> nat \<Rightarrow> nat option" where
  "first_nonsep st s c =
     (if cwk_path_is_separator st s c
      then if char_at s (c + 1) = NUL then None else first_nonsep st s (c + 1)
      else Some c)"
  by pat_completeness auto
termination
  by (relation "measure (\<lambda>(st, s, c). length s - c)") (auto dest: sep_len)

declare first_nonsep.simps [simp del]

definition cwk_path_get_first_segment_without_root ::
  "path_style \<Rightarrow> string \<Rightarrow> nat \<Rightarrow> bool \<times> segment" where
  "cwk_path_get_first_segment_without_root st path segments =
     (let seg = \<lparr>seg_path = path, seg_segments = segments, seg_begin = segments,
                 seg_end = segments, seg_size = 0\<rparr>
      in if char_at path segments = NUL then (False, seg)
         else case first_nonsep st path segments of
                None \<Rightarrow> (False, seg)
              | Some b \<Rightarrow> let e = cwk_path_find_next_stop st path b
                          in (True, seg\<lparr>seg_begin := b, seg_size := e - b, seg_end := e\<rparr>))"

definition cwk_path_get_first_segment :: "path_style \<Rightarrow> string \<Rightarrow> bool \<times> segment" where
  "cwk_path_get_first_segment st path =
     cwk_path_get_first_segment_without_root st path (cwk_path_get_root st path)"

text \<open>\<open>None\<close> is the result false, which leaves the segment alone.\<close>

definition cwk_path_get_next_segment :: "path_style \<Rightarrow> segment \<Rightarrow> segment option" where
  "cwk_path_get_next_segment st seg =
     (let path = seg_path seg; c = seg_begin seg + seg_size seg
      in if char_at path c = NUL then None
         else let c = skip_separators st path (c + 1)
              in if char_at path c = NUL then None
                 else let e = cwk_path_find_next_stop st path c
                      in Some (seg\<lparr>seg_begin := c, seg_end := e, seg_size := e - c\<rparr>))"

function previous_nonsep :: "path_style \<Rightarrow> string \<Rightarrow> nat \<Rightarrow> nat \<Rightarrow> nat option" where
  "previous_nonsep st s lo c =
     (if c \<le> lo then None
      else if cwk_path_is_separator st s (c - 1) then previous_nonsep st s lo (c - 1)
      else Some (c - 1))"
  by pat_completeness auto
termination
  by (relation "measure (\<lambda>(st, s, lo, c). c)") auto

declare previous_nonsep.simps [simp del]

definition cwk_path_get_previous_segment :: "path_style \<Rightarrow> segment \<Rightarrow> segment option" where
  "cwk_path_get_previous_segment st seg =
     (if seg_begin seg \<le> seg_segments seg then None
      else case previous_nonsep st (seg_path seg) (seg_segments seg) (seg_begin seg) of
             None \<Rightarrow> None
           | Some c \<Rightarrow>
               (let b = cwk_path_find_previous_stop st (seg_path seg) (seg_segments seg) c
                in Some (seg\<lparr>seg_end := c + 1, seg_begin := b, seg_size := c + 1 - b\<rparr>)))"

definition cwk_path_get_segment_type :: "segment \<Rightarrow> segment_type" where
  "cwk_path_get_segment_type seg =
     (if strneq (seg_path seg) (seg_begin seg) ''.'' 0 (seg_size seg) then CWK_CURRENT
      else if strneq (seg_path seg) (seg_begin seg) ''..'' 0 (seg_size seg) then CWK_BACK
      else CWK_NORMAL)"

lemma next_stop_ge: "c \<le> cwk_path_find_next_stop st s c"
  by (induction st s c rule: cwk_path_find_next_stop.induct)
     (subst cwk_path_find_next_stop.simps, auto)

lemma skip_separators_ge: "c \<le> skip_separators st s c"
  by (induction st s c rule: skip_separators.induct) (subst skip_separators.simps, auto)

text \<open>Moving to the next segment moves ahead, to the previous one back.\<close>

lemma next_segment_ahead:
  assumes "cwk_path_get_next_segment st seg = Some seg'"
  shows "seg_path seg' = seg_path seg" "seg_begin seg < seg_begin seg'"
    "seg_begin seg' < length (seg_path seg)" "seg_segments seg' = seg_segments seg"
  using assms skip_separators_ge [of "seg_begin seg + seg_size seg + 1" st "seg_path seg"]
  by (auto simp: cwk_path_get_next_segment_def Let_def dest: char_at_len split: if_splits)

lemma next_segment_left:
  assumes "cwk_path_get_next_segment st seg = Some seg'"
  shows "length (seg_path seg') - seg_begin seg' < length (seg_path seg) - seg_begin seg"
  using next_segment_ahead [OF assms] by simp

function last_segment_loop :: "path_style \<Rightarrow> segment \<Rightarrow> segment" where
  "last_segment_loop st seg =
     (case cwk_path_get_next_segment st seg of None \<Rightarrow> seg | Some seg \<Rightarrow> last_segment_loop st seg)"
  by pat_completeness auto
termination
  by (relation "measure (\<lambda>(st, seg). length (seg_path seg) - seg_begin seg)")
     (auto dest: next_segment_left)

declare last_segment_loop.simps [simp del]

definition cwk_path_get_last_segment :: "path_style \<Rightarrow> string \<Rightarrow> bool \<times> segment" where
  "cwk_path_get_last_segment st path =
     (let (ok, seg) = cwk_path_get_first_segment st path
      in if \<not> ok then (False, seg) else (True, last_segment_loop st seg))"

definition cwk_path_get_last_segment_without_root :: "path_style \<Rightarrow> string \<Rightarrow> bool \<times> segment" where
  "cwk_path_get_last_segment_without_root st path =
     (let (ok, seg) = cwk_path_get_first_segment_without_root st path 0
      in if \<not> ok then (False, seg) else (True, last_segment_loop st seg))"

subsection \<open>Joined paths\<close>

text \<open>The end of the list is the terminating null pointer of the array.\<close>

record segment_joined =
  sj_segment :: segment
  sj_paths :: "string list"
  sj_index :: nat

text \<open>A segment that was not set yet; it is there only when there are no paths at all.\<close>

definition no_segment :: segment where
  "no_segment = \<lparr>seg_path = [], seg_segments = 0, seg_begin = 0, seg_end = 0, seg_size = 0\<rparr>"

function first_joined_loop ::
  "path_style \<Rightarrow> string list \<Rightarrow> nat \<Rightarrow> segment \<Rightarrow> bool \<times> segment_joined" where
  "first_joined_loop st paths i seg =
     (if i < length paths then
        (let (ok, seg) = cwk_path_get_first_segment st (paths ! i)
         in if ok then (True, \<lparr>sj_segment = seg, sj_paths = paths, sj_index = i\<rparr>)
            else first_joined_loop st paths (i + 1) seg)
      else (False, \<lparr>sj_segment = seg, sj_paths = paths, sj_index = i\<rparr>))"
  by pat_completeness auto
termination
  by (relation "measure (\<lambda>(st, paths, i, seg). length paths - i)") auto

declare first_joined_loop.simps [simp del]

definition cwk_path_get_first_segment_joined ::
  "path_style \<Rightarrow> string list \<Rightarrow> bool \<times> segment_joined" where
  "cwk_path_get_first_segment_joined st paths = first_joined_loop st paths 0 no_segment"

function next_joined_loop :: "path_style \<Rightarrow> string list \<Rightarrow> nat \<Rightarrow> segment_joined option" where
  "next_joined_loop st paths i =
     (if i < length paths then
        (let (ok, seg) = cwk_path_get_first_segment_without_root st (paths ! i) 0
         in if ok then Some \<lparr>sj_segment = seg, sj_paths = paths, sj_index = i\<rparr>
            else next_joined_loop st paths (i + 1))
      else None)"
  by pat_completeness auto
termination
  by (relation "measure (\<lambda>(st, paths, i). length paths - i)") auto

declare next_joined_loop.simps [simp del]

definition cwk_path_get_next_segment_joined ::
  "path_style \<Rightarrow> segment_joined \<Rightarrow> segment_joined option" where
  "cwk_path_get_next_segment_joined st sj =
     (if length (sj_paths sj) \<le> sj_index sj then None
      else case cwk_path_get_next_segment st (sj_segment sj) of
             Some seg \<Rightarrow> Some (sj\<lparr>sj_segment := seg\<rparr>)
           | None \<Rightarrow> next_joined_loop st (sj_paths sj) (sj_index sj + 1))"

fun previous_joined_loop :: "path_style \<Rightarrow> string list \<Rightarrow> nat \<Rightarrow> segment_joined option" where
  "previous_joined_loop st paths 0 = None"
| "previous_joined_loop st paths (Suc i) =
     (let (ok, seg) = (if i = 0 then cwk_path_get_last_segment st (paths ! i)
                       else cwk_path_get_last_segment_without_root st (paths ! i))
      in if ok then Some \<lparr>sj_segment = seg, sj_paths = paths, sj_index = i\<rparr>
         else previous_joined_loop st paths i)"

definition cwk_path_get_previous_segment_joined ::
  "path_style \<Rightarrow> segment_joined \<Rightarrow> segment_joined option" where
  "cwk_path_get_previous_segment_joined st sj =
     (if sj_paths sj = [] then None
      else case cwk_path_get_previous_segment st (sj_segment sj) of
             Some seg \<Rightarrow> Some (sj\<lparr>sj_segment := seg\<rparr>)
           | None \<Rightarrow> previous_joined_loop st (sj_paths sj) (sj_index sj))"

text \<open>What is left of a joined path decreases with every move.\<close>

definition left_ahead :: "segment_joined \<Rightarrow> nat" where
  "left_ahead sj = (length (seg_path (sj_segment sj)) - seg_begin (sj_segment sj)) +
     sum_list (map (\<lambda>p. length p + 1) (drop (sj_index sj + 1) (sj_paths sj)))"

lemma next_joined_loop_left:
  "next_joined_loop st paths i = Some sj \<Longrightarrow>
     left_ahead sj < sum_list (map (\<lambda>p. length p + 1) (drop i paths)) \<and> sj_paths sj = paths \<and>
     i \<le> sj_index sj \<and> sj_index sj < length paths"
proof (induction st paths i rule: next_joined_loop.induct)
  case (1 st paths i)
  let ?f = "cwk_path_get_first_segment_without_root st (paths ! i) 0"
  have i: "i < length paths" using "1.prems" by (subst (asm) next_joined_loop.simps) (simp split: if_splits)
  then have d: "drop i paths = paths ! i # drop (i + 1) paths" by (simp add: Cons_nth_drop_Suc)
  show ?case
  proof (cases "fst ?f")
    case True
    then have sj: "sj = \<lparr>sj_segment = snd ?f, sj_paths = paths, sj_index = i\<rparr>"
      using "1.prems" i by (subst (asm) next_joined_loop.simps) (simp add: split_beta)
    have "seg_path (snd ?f) = paths ! i"
      by (simp add: cwk_path_get_first_segment_without_root_def Let_def split: option.split)
    then show ?thesis using i by (simp add: sj left_ahead_def d)
  next
    case False
    then have "next_joined_loop st paths (i + 1) = Some sj"
      using "1.prems" i by (subst (asm) next_joined_loop.simps) (simp add: split_beta)
    with "1.IH" [OF i, of ?f "False" "snd ?f"] False have
      "left_ahead sj < sum_list (map (\<lambda>p. length p + 1) (drop (i + 1) paths)) \<and> sj_paths sj = paths \<and>
       i + 1 \<le> sj_index sj \<and> sj_index sj < length paths" by (simp add: prod_eq_iff)
    then show ?thesis by (simp add: d)
  qed
qed

lemma next_joined_left:
  assumes "cwk_path_get_next_segment_joined st sj = Some sj'"
  shows "left_ahead sj' < left_ahead sj"
proof (cases "cwk_path_get_next_segment st (sj_segment sj)")
  case None
  then have "next_joined_loop st (sj_paths sj) (sj_index sj + 1) = Some sj'"
    using assms by (simp add: cwk_path_get_next_segment_joined_def split: if_splits)
  from next_joined_loop_left [OF this] show ?thesis by (auto simp: left_ahead_def)
next
  case (Some seg)
  then show ?thesis using assms next_segment_ahead [OF Some]
    by (auto simp: cwk_path_get_next_segment_joined_def left_ahead_def split: if_splits)
qed

text \<open>Backwards, the path index or the position in the path decreases.\<close>

lemma previous_nonsep_less: "previous_nonsep st s lo c = Some c' \<Longrightarrow> lo \<le> c' \<and> c' < c"
proof (induction st s lo c rule: previous_nonsep.induct)
  case (1 st s lo c)
  show ?case
  proof (cases "c \<le> lo \<or> \<not> cwk_path_is_separator st s (c - 1)")
    case True
    then show ?thesis using "1.prems" by (subst (asm) previous_nonsep.simps) (auto split: if_splits)
  next
    case False
    then have "previous_nonsep st s lo (c - 1) = Some c'"
      using "1.prems" by (subst (asm) previous_nonsep.simps) auto
    then show ?thesis using "1.IH" False by fastforce
  qed
qed

lemma previous_nonsep_char:
  "previous_nonsep st s lo c = Some c' \<Longrightarrow> \<not> cwk_path_is_separator st s c'"
proof (induction st s lo c rule: previous_nonsep.induct)
  case (1 st s lo c)
  then show ?case by (subst (asm) (2) previous_nonsep.simps) (auto split: if_splits)
qed

lemma previous_stop_loop_le: "previous_stop_loop st s lo c \<le> c"
  by (induction st s lo c rule: previous_stop_loop.induct)
     (subst previous_stop_loop.simps, auto)

lemma previous_stop_loop_sep:
  "\<not> cwk_path_is_separator st s c \<Longrightarrow> cwk_path_is_separator st s (previous_stop_loop st s lo c) \<Longrightarrow>
     previous_stop_loop st s lo c < c"
  using previous_stop_loop_le [of st s lo c] by (metis le_neq_implies_less)

lemma previous_segment_back:
  assumes "cwk_path_get_previous_segment st seg = Some seg'"
  shows "seg_begin seg' < seg_begin seg"
proof -
  let ?s = "seg_path seg" and ?lo = "seg_segments seg"
  obtain c where c: "previous_nonsep st ?s ?lo (seg_begin seg) = Some c"
    "seg_begin seg' = cwk_path_find_previous_stop st ?s ?lo c"
    using assms by (auto simp: cwk_path_get_previous_segment_def Let_def split: if_splits option.splits)
  have "cwk_path_find_previous_stop st ?s ?lo c \<le> c"
    using previous_stop_loop_le [of st ?s ?lo c] previous_stop_loop_sep [OF previous_nonsep_char [OF c(1)], of ?lo]
    by (auto simp: cwk_path_find_previous_stop_def Let_def)
  then show ?thesis using c(2) previous_nonsep_less [OF c(1)] by simp
qed

lemma previous_joined_loop_back:
  "previous_joined_loop st paths i = Some sj \<Longrightarrow> sj_index sj < i"
  by (induction i) (auto simp: split_beta Let_def less_Suc_eq split: if_splits)

lemma previous_joined_back:
  assumes "cwk_path_get_previous_segment_joined st sj = Some sj'"
  shows "sj_index sj' < sj_index sj \<or>
    sj_index sj' = sj_index sj \<and> seg_begin (sj_segment sj') < seg_begin (sj_segment sj)"
  using assms
  by (auto simp: cwk_path_get_previous_segment_joined_def dest: previous_segment_back previous_joined_loop_back
      split: if_splits option.splits)

subsection \<open>Segments that normalization removes\<close>

function back_loop :: "path_style \<Rightarrow> int \<Rightarrow> segment_joined \<Rightarrow> bool" where
  "back_loop st counter sj =
     (case cwk_path_get_previous_segment_joined st sj of
        None \<Rightarrow> False
      | Some sj \<Rightarrow>
          (case cwk_path_get_segment_type (sj_segment sj) of
             CWK_NORMAL \<Rightarrow> if counter + 1 > 0 then True else back_loop st (counter + 1) sj
           | CWK_BACK \<Rightarrow> back_loop st (counter - 1) sj
           | CWK_CURRENT \<Rightarrow> back_loop st counter sj))"
  by pat_completeness auto
termination
  by (relation "measures [\<lambda>(st, counter, sj). sj_index sj, \<lambda>(st, counter, sj). seg_begin (sj_segment sj)]")
     (auto dest: previous_joined_back)

definition cwk_path_segment_back_will_be_removed :: "path_style \<Rightarrow> segment_joined \<Rightarrow> bool" where
  "cwk_path_segment_back_will_be_removed st sj = back_loop st 0 sj"

function normal_loop :: "path_style \<Rightarrow> int \<Rightarrow> segment_joined \<Rightarrow> bool" where
  "normal_loop st counter sj =
     (case cwk_path_get_next_segment_joined st sj of
        None \<Rightarrow> False
      | Some sj \<Rightarrow>
          (case cwk_path_get_segment_type (sj_segment sj) of
             CWK_NORMAL \<Rightarrow> normal_loop st (counter + 1) sj
           | CWK_BACK \<Rightarrow> if counter - 1 < 0 then True else normal_loop st (counter - 1) sj
           | CWK_CURRENT \<Rightarrow> normal_loop st counter sj))"
  by pat_completeness auto
termination
  by (relation "measure (\<lambda>(st, counter, sj). left_ahead sj)") (auto dest: next_joined_left)

definition cwk_path_segment_normal_will_be_removed :: "path_style \<Rightarrow> segment_joined \<Rightarrow> bool" where
  "cwk_path_segment_normal_will_be_removed st sj = normal_loop st 0 sj"

declare back_loop.simps [simp del] normal_loop.simps [simp del]

definition cwk_path_segment_will_be_removed :: "path_style \<Rightarrow> segment_joined \<Rightarrow> bool \<Rightarrow> bool" where
  "cwk_path_segment_will_be_removed st sj absolute =
     (let type = cwk_path_get_segment_type (sj_segment sj)
      in if type = CWK_CURRENT \<or> (type = CWK_BACK \<and> absolute) then True
         else if type = CWK_BACK then cwk_path_segment_back_will_be_removed st sj
         else cwk_path_segment_normal_will_be_removed st sj)"

function cwk_path_segment_joined_skip_invisible ::
  "path_style \<Rightarrow> bool \<Rightarrow> segment_joined \<Rightarrow> segment_joined option" where
  "cwk_path_segment_joined_skip_invisible st absolute sj =
     (if cwk_path_segment_will_be_removed st sj absolute then
        (case cwk_path_get_next_segment_joined st sj of
           None \<Rightarrow> None
         | Some sj \<Rightarrow> cwk_path_segment_joined_skip_invisible st absolute sj)
      else Some sj)"
  by pat_completeness auto
termination
  by (relation "measure (\<lambda>(st, absolute, sj). left_ahead sj)") (auto dest: next_joined_left)

declare cwk_path_segment_joined_skip_invisible.simps [simp del]

lemma skip_invisible_left:
  "cwk_path_segment_joined_skip_invisible st absolute sj = Some sj' \<Longrightarrow> left_ahead sj' \<le> left_ahead sj"
proof (induction st absolute sj rule: cwk_path_segment_joined_skip_invisible.induct)
  case (1 st absolute sj)
  show ?case
  proof (cases "cwk_path_segment_will_be_removed st sj absolute")
    case False
    then show ?thesis using "1.prems" by (subst (asm) cwk_path_segment_joined_skip_invisible.simps) simp
  next
    case True
    then obtain sj1 where n: "cwk_path_get_next_segment_joined st sj = Some sj1"
      "cwk_path_segment_joined_skip_invisible st absolute sj1 = Some sj'"
      using "1.prems" by (subst (asm) cwk_path_segment_joined_skip_invisible.simps) (auto split: option.splits)
    then show ?thesis using "1.IH" [OF True n] next_joined_left [OF n(1)] by simp
  qed
qed

subsection \<open>Joining and normalizing\<close>

text \<open>The main loop: whether a segment was written, the buffer and the position.\<close>

function join_loop ::
  "path_style \<Rightarrow> bool \<Rightarrow> segment_joined \<Rightarrow> bool \<Rightarrow> string \<Rightarrow> nat \<Rightarrow> bool \<times> string \<times> nat" where
  "join_loop st absolute sj has buf pos =
     (let (has, buf, pos) =
        (if cwk_path_segment_will_be_removed st sj absolute then (has, buf, pos)
         else let (buf, pos) =
                (if has then let (buf, n) = cwk_path_output_separator st buf pos in (buf, pos + n)
                 else (buf, pos));
                  (buf, n) = cwk_path_output_sized buf pos
                     (drop (seg_begin (sj_segment sj)) (seg_path (sj_segment sj))) (seg_size (sj_segment sj))
              in (True, buf, pos + n))
      in case cwk_path_get_next_segment_joined st sj of
           None \<Rightarrow> (has, buf, pos)
         | Some sj \<Rightarrow> join_loop st absolute sj has buf pos)"
  by pat_completeness auto
termination
  by (relation "measure (\<lambda>(st, absolute, sj, has, buf, pos). left_ahead sj)") (auto dest: next_joined_left)

declare join_loop.simps [simp del]

text \<open>The result is \<open>None\<close> when the assertion on a missing output fails.\<close>

definition cwk_path_join_and_normalize_multiple ::
  "path_style \<Rightarrow> string list \<Rightarrow> string \<Rightarrow> (string \<times> nat) run" where
  "cwk_path_join_and_normalize_multiple st paths buf =
     (let pos = cwk_path_get_root st (paths ! 0);
          absolute = cwk_path_is_root_absolute st (paths ! 0) pos;
          (buf, _) = cwk_path_output_sized buf 0 (paths ! 0) pos;
          buf = cwk_path_fix_root st buf pos;
          (ok, sj) = cwk_path_get_first_segment_joined st paths
      in if \<not> ok then Some (cwk_path_terminate_output buf pos, pos)
         else let (has, buf, pos) = join_loop st absolute sj False buf pos
              in if \<not> has \<and> pos = 0 then do {
                   check (\<not> absolute);
                   let (buf, n) = cwk_path_output_current buf pos;
                   Some (cwk_path_terminate_output buf (pos + n), pos + n)
                 }
                 else Some (cwk_path_terminate_output buf pos, pos))"

definition cwk_path_join :: "path_style \<Rightarrow> string \<Rightarrow> string \<Rightarrow> string \<Rightarrow> (string \<times> nat) run" where
  "cwk_path_join st path_a path_b buf = cwk_path_join_and_normalize_multiple st [path_a, path_b] buf"

definition cwk_path_join_multiple :: "path_style \<Rightarrow> string list \<Rightarrow> string \<Rightarrow> (string \<times> nat) run" where
  "cwk_path_join_multiple st paths buf = cwk_path_join_and_normalize_multiple st paths buf"

definition cwk_path_normalize :: "path_style \<Rightarrow> string \<Rightarrow> string \<Rightarrow> (string \<times> nat) run" where
  "cwk_path_normalize st path buf = cwk_path_join_and_normalize_multiple st [path] buf"

definition cwk_path_get_absolute :: "path_style \<Rightarrow> string \<Rightarrow> string \<Rightarrow> string \<Rightarrow> (string \<times> nat) run" where
  "cwk_path_get_absolute st base path buf =
     (let paths = (if cwk_path_is_absolute st base then []
                   else if st = WINDOWS then [[CHR 0x5C]] else [''/'']);
          paths = (if cwk_path_is_absolute st path then paths @ [path] else paths @ [base, path])
      in cwk_path_join_and_normalize_multiple st paths buf)"

subsection \<open>Comparing paths\<close>

text \<open>The result: the two positions, and whether each path has a segment left.\<close>

function cwk_path_skip_segments_until_diverge ::
  "path_style \<Rightarrow> segment_joined \<Rightarrow> segment_joined \<Rightarrow> bool \<Rightarrow>
   segment_joined \<times> segment_joined \<times> bool \<times> bool" where
  "cwk_path_skip_segments_until_diverge st bsj osj absolute =
     (let base = cwk_path_segment_joined_skip_invisible st absolute bsj;
          other = cwk_path_segment_joined_skip_invisible st absolute osj
      in case (base, other) of
           (Some bsj, Some osj) \<Rightarrow>
             if \<not> cwk_path_is_string_equal st (seg_path (sj_segment bsj)) (seg_begin (sj_segment bsj))
                    (seg_path (sj_segment osj)) (seg_begin (sj_segment osj))
                    (seg_size (sj_segment bsj)) (seg_size (sj_segment osj))
             then (bsj, osj, True, True)
             else (case (cwk_path_get_next_segment_joined st bsj, cwk_path_get_next_segment_joined st osj) of
                     (Some bsj, Some osj) \<Rightarrow> cwk_path_skip_segments_until_diverge st bsj osj absolute
                   | (b, c) \<Rightarrow> (case b of Some sj \<Rightarrow> sj | None \<Rightarrow> bsj, case c of Some sj \<Rightarrow> sj | None \<Rightarrow> osj,
                               b \<noteq> None, c \<noteq> None))
         | (b, c) \<Rightarrow> (case b of Some sj \<Rightarrow> sj | None \<Rightarrow> bsj, case c of Some sj \<Rightarrow> sj | None \<Rightarrow> osj,
                     b \<noteq> None, c \<noteq> None))"
  by pat_completeness auto
termination
  by (relation "measure (\<lambda>(st, bsj, osj, absolute). left_ahead bsj)")
     (auto dest!: next_joined_left [OF sym] skip_invisible_left [OF sym] next_joined_left skip_invisible_left)

text \<open>The output loops of \<^verbatim>\<open>cwk_path_get_relative\<close>.\<close>

function relative_back_loop ::
  "path_style \<Rightarrow> bool \<Rightarrow> segment_joined \<Rightarrow> bool \<Rightarrow> string \<Rightarrow> nat \<Rightarrow> bool \<times> string \<times> nat" where
  "relative_back_loop st absolute bsj has buf pos =
     (case cwk_path_segment_joined_skip_invisible st absolute bsj of
        None \<Rightarrow> (has, buf, pos)
      | Some bsj \<Rightarrow>
          (let (buf, n) = cwk_path_output_back buf pos; pos = pos + n;
               (buf, n) = cwk_path_output_separator st buf pos; pos = pos + n
           in case cwk_path_get_next_segment_joined st bsj of
                None \<Rightarrow> (True, buf, pos)
              | Some bsj \<Rightarrow> relative_back_loop st absolute bsj True buf pos))"
  by pat_completeness auto
termination
  by (relation "measure (\<lambda>(st, absolute, bsj, has, buf, pos). left_ahead bsj)")
     (auto dest!: next_joined_left [OF sym] skip_invisible_left [OF sym] next_joined_left skip_invisible_left)

function relative_other_loop ::
  "path_style \<Rightarrow> bool \<Rightarrow> segment_joined \<Rightarrow> bool \<Rightarrow> string \<Rightarrow> nat \<Rightarrow> bool \<times> string \<times> nat" where
  "relative_other_loop st absolute osj has buf pos =
     (case cwk_path_segment_joined_skip_invisible st absolute osj of
        None \<Rightarrow> (has, buf, pos)
      | Some osj \<Rightarrow>
          (let (buf, n) = cwk_path_output_sized buf pos
                 (drop (seg_begin (sj_segment osj)) (seg_path (sj_segment osj))) (seg_size (sj_segment osj));
               pos = pos + n;
               (buf, n) = cwk_path_output_separator st buf pos; pos = pos + n
           in case cwk_path_get_next_segment_joined st osj of
                None \<Rightarrow> (True, buf, pos)
              | Some osj \<Rightarrow> relative_other_loop st absolute osj True buf pos))"
  by pat_completeness auto
termination
  by (relation "measure (\<lambda>(st, absolute, osj, has, buf, pos). left_ahead osj)")
     (auto dest!: next_joined_left [OF sym] skip_invisible_left [OF sym] next_joined_left skip_invisible_left)

declare cwk_path_skip_segments_until_diverge.simps [simp del]
  relative_back_loop.simps [simp del] relative_other_loop.simps [simp del]

definition cwk_path_get_relative :: "path_style \<Rightarrow> string \<Rightarrow> string \<Rightarrow> string \<Rightarrow> string \<times> nat" where
  "cwk_path_get_relative st base_directory path buf =
     (let base_root = cwk_path_get_root st base_directory; path_root = cwk_path_get_root st path
      in if base_root \<noteq> path_root \<or>
            \<not> cwk_path_is_string_equal st base_directory 0 path 0 base_root path_root
         then (cwk_path_terminate_output buf 0, 0)
         else
           let absolute = cwk_path_is_root_absolute st base_directory base_root;
               (_, bsj) = cwk_path_get_first_segment_joined st [base_directory];
               (_, osj) = cwk_path_get_first_segment_joined st [path];
               (bsj, osj, base_available, other_available) =
                 cwk_path_skip_segments_until_diverge st bsj osj absolute;
               (has, buf, pos) =
                 (if base_available then relative_back_loop st absolute bsj False buf 0
                  else (False, buf, 0));
               (has, buf, pos) =
                 (if other_available then relative_other_loop st absolute osj has buf pos
                  else (has, buf, pos));
               (buf, pos) =
                 (if has then (buf, pos - 1)
                  else let (buf, n) = cwk_path_output_current buf pos in (buf, pos + n))
           in (cwk_path_terminate_output buf pos, pos))"

function intersection_loop ::
  "path_style \<Rightarrow> bool \<Rightarrow> segment_joined \<Rightarrow> segment_joined \<Rightarrow> nat \<Rightarrow> nat" where
  "intersection_loop st absolute base other fin =
     (case (cwk_path_segment_joined_skip_invisible st absolute base,
            cwk_path_segment_joined_skip_invisible st absolute other) of
        (Some base, Some other) \<Rightarrow>
          if \<not> cwk_path_is_string_equal st (seg_path (sj_segment base)) (seg_begin (sj_segment base))
                 (seg_path (sj_segment other)) (seg_begin (sj_segment other))
                 (seg_size (sj_segment base)) (seg_size (sj_segment other))
          then fin
          else (case (cwk_path_get_next_segment_joined st base, cwk_path_get_next_segment_joined st other) of
                  (Some b, Some c) \<Rightarrow> intersection_loop st absolute b c (seg_end (sj_segment base))
                | _ \<Rightarrow> seg_end (sj_segment base))
      | _ \<Rightarrow> fin)"
  by pat_completeness auto
termination
  by (relation "measure (\<lambda>(st, absolute, base, other, fin). left_ahead base)")
     (auto dest!: next_joined_left [OF sym] skip_invisible_left [OF sym] next_joined_left skip_invisible_left)

declare intersection_loop.simps [simp del]

definition cwk_path_get_intersection :: "path_style \<Rightarrow> string \<Rightarrow> string \<Rightarrow> nat" where
  "cwk_path_get_intersection st path_base path_other =
     (let base_root = cwk_path_get_root st path_base; other_root = cwk_path_get_root st path_other
      in if \<not> cwk_path_is_string_equal st path_base 0 path_other 0 base_root other_root then 0
         else let (base_ok, base) = cwk_path_get_first_segment_joined st [path_base];
                  (other_ok, other) = cwk_path_get_first_segment_joined st [path_other]
              in if \<not> base_ok \<or> \<not> other_ok then base_root
                 else intersection_loop st (cwk_path_is_root_absolute st path_base base_root)
                        base other base_root)"

subsection \<open>Parts of a path\<close>

text \<open>A result \<open>None\<close> of \<open>cwk_path_get_basename\<close> is the null pointer; else the offset and length.\<close>

definition cwk_path_change_root :: "path_style \<Rightarrow> string \<Rightarrow> string \<Rightarrow> string \<Rightarrow> string \<times> nat" where
  "cwk_path_change_root st path new_root buf =
     (let root_length = cwk_path_get_root st path;
          new_root_length = length (cstr new_root); path_length = length (cstr path);
          tail_length = path_length - root_length;
          (buf, _) = cwk_path_output_sized buf new_root_length (drop root_length path) tail_length;
          (buf, _) = cwk_path_output_sized buf 0 new_root new_root_length;
          new_path_size = tail_length + new_root_length
      in (cwk_path_terminate_output buf new_path_size, new_path_size))"

definition cwk_path_get_basename :: "path_style \<Rightarrow> string \<Rightarrow> (nat \<times> nat) option" where
  "cwk_path_get_basename st path =
     (let (ok, seg) = cwk_path_get_last_segment st path
      in if \<not> ok then None else Some (seg_begin seg, seg_size seg))"

text \<open>A value without the separators at both ends: its first offset and its size.\<close>

fun trim_size :: "path_style \<Rightarrow> string \<Rightarrow> nat \<Rightarrow> nat \<Rightarrow> nat" where
  "trim_size st s off 0 = 0"
| "trim_size st s off (Suc n) =
     (if cwk_path_is_separator st s (off + n) then trim_size st s off n else Suc n)"

definition trim_value :: "path_style \<Rightarrow> string \<Rightarrow> nat \<times> nat" where
  "trim_value st v =
     (let off = skip_separators st v 0
      in (off, trim_size st v off (length (cstr (drop off v)))))"

definition cwk_path_change_segment :: "path_style \<Rightarrow> segment \<Rightarrow> string \<Rightarrow> string \<Rightarrow> string \<times> nat" where
  "cwk_path_change_segment st seg val buf =
     (let (buf, pos) = cwk_path_output_sized buf 0 (seg_path seg) (seg_begin seg);
          (off, val_size) = trim_value st val;
          tail = drop (seg_end seg) (seg_path seg); tail_size = length (cstr tail);
          (buf, _) = cwk_path_output_sized buf (pos + val_size) tail tail_size;
          (buf, n) = cwk_path_output_sized buf pos (drop off val) val_size;
          pos = pos + n + tail_size
      in (cwk_path_terminate_output buf pos, pos))"

definition cwk_path_change_basename :: "path_style \<Rightarrow> string \<Rightarrow> string \<Rightarrow> string \<Rightarrow> string \<times> nat" where
  "cwk_path_change_basename st path new_basename buf =
     (let (ok, seg) = cwk_path_get_last_segment st path
      in if \<not> ok then
           (let (buf, pos) = cwk_path_output_sized buf 0 path (cwk_path_get_root st path);
                (off, n) = trim_value st new_basename;
                (buf, n) = cwk_path_output_sized buf pos (drop off new_basename) n;
                pos = pos + n
            in (cwk_path_terminate_output buf pos, pos))
         else cwk_path_change_segment st seg new_basename buf)"

definition cwk_path_get_dirname :: "path_style \<Rightarrow> string \<Rightarrow> nat" where
  "cwk_path_get_dirname st path =
     (let (ok, seg) = cwk_path_get_last_segment st path in if \<not> ok then 0 else seg_begin seg)"

text \<open>The loops over a segment that look for a dot, from the end and from the beginning.\<close>

function extension_loop :: "string \<Rightarrow> nat \<Rightarrow> nat \<Rightarrow> nat option" where
  "extension_loop s lo c =
     (if c < lo then None
      else if char_at s c = CHR ''.'' then Some c
      else if c = 0 then None else extension_loop s lo (c - 1))"
  by pat_completeness auto
termination
  by (relation "measure (\<lambda>(s, lo, c). c)") auto

declare extension_loop.simps [simp del]

definition cwk_path_get_extension :: "path_style \<Rightarrow> string \<Rightarrow> (nat \<times> nat) option" where
  "cwk_path_get_extension st path =
     (let (ok, seg) = cwk_path_get_last_segment st path
      in if \<not> ok then None
         else map_option (\<lambda>c. (c, seg_end seg - c)) (extension_loop (seg_path seg) (seg_begin seg) (seg_end seg)))"

definition cwk_path_has_extension :: "path_style \<Rightarrow> string \<Rightarrow> bool" where
  "cwk_path_has_extension st path \<longleftrightarrow> cwk_path_get_extension st path \<noteq> None"

definition old_extension :: "segment \<Rightarrow> nat" where
  "old_extension seg =
     fold (\<lambda>c old. if char_at (seg_path seg) c = CHR ''.'' then c else old)
       [seg_begin seg ..< seg_end seg] (seg_end seg)"

definition cwk_path_change_extension :: "path_style \<Rightarrow> string \<Rightarrow> string \<Rightarrow> string \<Rightarrow> string \<times> nat" where
  "cwk_path_change_extension st path new_extension buf =
     (let (ok, seg) = cwk_path_get_last_segment st path
      in if \<not> ok then
           (let (buf, pos) = cwk_path_output_sized buf 0 path (cwk_path_get_root st path);
                (buf, pos) = (if char_at new_extension 0 \<noteq> CHR ''.''
                              then let (buf, n) = cwk_path_output_dot buf pos in (buf, pos + n)
                              else (buf, pos));
                (buf, n) = cwk_path_output buf pos new_extension;
                pos = pos + n
            in (cwk_path_terminate_output buf pos, pos))
         else
           let (buf, pos) = cwk_path_output_sized buf 0 (seg_path seg) (old_extension seg);
               new_extension = (if char_at new_extension 0 = CHR ''.'' then drop 1 new_extension
                                else new_extension);
               new_extension_size = length (cstr new_extension) + 1;
               (buf, trail_size) =
                 cwk_path_output buf (pos + new_extension_size) (drop (seg_end seg) (seg_path seg));
               (buf, n) = cwk_path_output_dot buf pos; pos = pos + n;
               (buf, n) = cwk_path_output buf pos new_extension; pos = pos + n;
               pos = pos + trail_size
           in (cwk_path_terminate_output buf pos, pos))"

text \<open>The loops of \<^verbatim>\<open>cwk_path_guess_style\<close> over the characters up to the end of the string.\<close>

fun guess_separator :: "string \<Rightarrow> path_style option" where
  "guess_separator [] = None"
| "guess_separator (c # cs) =
     (if c = hd (separators UNIX) then Some UNIX
      else if c = hd (separators WINDOWS) then Some WINDOWS
      else guess_separator cs)"

definition cwk_path_guess_style :: "path_style \<Rightarrow> string \<Rightarrow> path_style" where
  "cwk_path_guess_style st path =
     (if cwk_path_get_root_windows st path > 1 then WINDOWS
      else case guess_separator (cstr path) of
             Some style \<Rightarrow> style
           | None \<Rightarrow>
               (let (ok, seg) = cwk_path_get_last_segment st path
                in if \<not> ok then UNIX
                   else if char_at (seg_path seg) (seg_begin seg) = CHR ''.'' then UNIX
                   else if CHR ''.'' \<in> set (cstr (drop (seg_begin seg) (seg_path seg))) then WINDOWS
                   else UNIX))"

end
