(* ===== verification/CwalkNorm.thy ===== *)
theory CwalkNorm
  imports Cwalk "HOL-Library.Sublist"
begin

text \<open>
  What the path functions compute for absolute Unix paths: the segments of a path as a list,
  the removal of segments as a stack machine, and the normalized path as its output.
\<close>

subsection \<open>Segments as a list\<close>

abbreviation SL :: char where "SL \<equiv> CHR ''/''"

function segs :: "string \<Rightarrow> string list" where
  "segs s = (let t = dropWhile (\<lambda>c. c = SL) s
             in if t = [] then [] else takeWhile (\<lambda>c. c \<noteq> SL) t # segs (dropWhile (\<lambda>c. c \<noteq> SL) t))"
  by pat_completeness auto
termination
proof (relation "measure length", goal_cases)
  case (2 s t)
  then obtain c u where t: "t = c # u" by (meson list.exhaust)
  have "t \<noteq> [] \<Longrightarrow> hd t \<noteq> SL" unfolding 2(1) by (rule hd_dropWhile)
  then have "c \<noteq> SL" by (simp add: t)
  then have "length (dropWhile (\<lambda>c. c \<noteq> SL) t) \<le> length u" unfolding t by (simp add: length_dropWhile_le)
  moreover have "length t \<le> length s" using 2(1) by (simp add: length_dropWhile_le)
  ultimately show ?case unfolding t by simp
qed simp

declare segs.simps [simp del]

definition nonul :: "string \<Rightarrow> bool" where
  "nonul s \<longleftrightarrow> NUL \<notin> set s"

lemma nonul_nth: "nonul s \<Longrightarrow> i < length s \<Longrightarrow> s ! i \<noteq> NUL"
  by (metis nonul_def nth_mem)

lemma char_at_NUL: "nonul s \<Longrightarrow> char_at s i = NUL \<longleftrightarrow> length s \<le> i"
  by (auto simp: char_at_def nonul_nth)

lemma sep_unix: "cwk_path_is_separator UNIX s i \<longleftrightarrow> i < length s \<and> s ! i = SL"
  by (simp add: cwk_path_is_separator_def char_at_def)

lemma drop_cons: "i < length s \<Longrightarrow> drop i s = s ! i # drop (Suc i) s"
  by (simp add: Cons_nth_drop_Suc)

lemma next_stop_eq:
  "nonul s \<Longrightarrow> c \<le> length s \<Longrightarrow>
     cwk_path_find_next_stop UNIX s c = c + length (takeWhile (\<lambda>c. c \<noteq> SL) (drop c s))"
proof (induction "UNIX" s c rule: cwk_path_find_next_stop.induct)
  case (1 s c)
  show ?case
  proof (cases "c < length s \<and> s ! c \<noteq> SL")
    case True
    then show ?thesis using 1
      by (subst cwk_path_find_next_stop.simps) (simp add: char_at_NUL sep_unix drop_cons)
  next
    case False
    then have "takeWhile (\<lambda>c. c \<noteq> SL) (drop c s) = []" by (cases "c < length s") (simp_all add: drop_cons)
    then show ?thesis using 1(2) False
      by (subst cwk_path_find_next_stop.simps) (auto simp: char_at_NUL sep_unix)
  qed
qed

lemma skip_separators_eq:
  "c \<le> length s \<Longrightarrow> skip_separators UNIX s c = c + length (takeWhile (\<lambda>c. c = SL) (drop c s))"
proof (induction "UNIX" s c rule: skip_separators.induct)
  case (1 s c)
  show ?case
  proof (cases "c < length s \<and> s ! c = SL")
    case True
    then show ?thesis using 1 by (subst skip_separators.simps) (simp add: sep_unix drop_cons)
  next
    case False
    then have "takeWhile (\<lambda>c. c = SL) (drop c s) = []" by (cases "c < length s") (simp_all add: drop_cons)
    then show ?thesis using 1(2) False by (subst skip_separators.simps) (auto simp: sep_unix)
  qed
qed

lemma first_nonsep_eq:
  "nonul s \<Longrightarrow> c < length s \<Longrightarrow> first_nonsep UNIX s c =
     (let i = c + length (takeWhile (\<lambda>c. c = SL) (drop c s)) in if i < length s then Some i else None)"
proof (induction "UNIX" s c rule: first_nonsep.induct)
  case (1 s c)
  show ?case
  proof (cases "s ! c = SL")
    case False
    then show ?thesis using 1(3) by (subst first_nonsep.simps) (simp add: sep_unix drop_cons)
  next
    case sl: True
    show ?thesis
    proof (cases "Suc c < length s")
      case True
      then show ?thesis using 1 sl
        by (subst first_nonsep.simps) (simp add: sep_unix char_at_NUL drop_cons [of c] Let_def)
    next
      case False
      then show ?thesis using 1(2,3) sl
        by (subst first_nonsep.simps) (simp add: sep_unix char_at_NUL drop_cons [of c])
    qed
  qed
qed

subsection \<open>The iterators\<close>

definition seg_text :: "segment \<Rightarrow> string" where
  "seg_text seg = take (seg_size seg) (drop (seg_begin seg) (seg_path seg))"

definition seg_rest :: "segment \<Rightarrow> string" where
  "seg_rest seg = drop (seg_end seg) (seg_path seg)"

text \<open>The invariant of segments; its last part is the assertion in the code.\<close>

definition seg_ok :: "segment \<Rightarrow> bool" where
  "seg_ok seg \<longleftrightarrow> nonul (seg_path seg) \<and> seg_end seg = seg_begin seg + seg_size seg \<and>
     seg_end seg \<le> length (seg_path seg) \<and> 0 < seg_size seg \<and> SL \<notin> set (seg_text seg) \<and>
     (seg_end seg < length (seg_path seg) \<longrightarrow> cwk_path_is_separator UNIX (seg_path seg) (seg_end seg))"

text \<open>The segment that starts at the first character of \<open>drop b s\<close>.\<close>

lemma segment_at:
  assumes "nonul s" "b < length s" "s ! b \<noteq> SL"
    and "e = cwk_path_find_next_stop UNIX s b"
    and seg: "seg_path seg = s" "seg_begin seg = b" "seg_end seg = e" "seg_size seg = e - b"
  shows "seg_ok seg" "segs (drop b s) = seg_text seg # segs (seg_rest seg)"
proof -
  let ?u = "drop b s" and ?t = "takeWhile (\<lambda>c. c \<noteq> SL) (drop b s)"
  have e: "e = b + length ?t" using assms(1,2,4) by (simp add: next_stop_eq)
  have tx: "seg_text seg = ?t" by (simp add: seg_text_def seg e takeWhile_eq_take [symmetric])
  have rest: "seg_rest seg = dropWhile (\<lambda>c. c \<noteq> SL) ?u"
    by (simp add: seg_rest_def seg e dropWhile_eq_drop add.commute)
  have u: "dropWhile (\<lambda>c. c = SL) ?u = ?u" "?u \<noteq> []" using assms(2,3) by (simp_all add: drop_cons)
  show "segs ?u = seg_text seg # segs (seg_rest seg)" unfolding tx rest
    by (subst segs.simps) (simp add: u Let_def del: drop_eq_Nil)
  have "length ?t \<le> length ?u" by (rule length_takeWhile_le)
  then have le: "e \<le> length s" using assms(2) by (simp add: e)
  have "?t \<noteq> []" using assms(2,3) by (simp add: drop_cons)
  moreover have "s ! e = SL" if "e < length s"
  proof -
    have "length ?t < length ?u" using that by (simp add: e)
    from nth_length_takeWhile [OF this] show ?thesis using assms(2) by (simp add: e)
  qed
  ultimately show "seg_ok seg" using assms(1) le
    by (auto simp: seg_ok_def tx seg e sep_unix dest: set_takeWhileD)
qed

lemma segs_dropWhile: "segs (dropWhile (\<lambda>c. c = SL) s) = segs s"
  by (subst (1 2) segs.simps) simp

lemma segs_SL [simp]: "segs (SL # s) = segs s"
  by (subst (1 2) segs.simps) simp

lemma segs_Nil [simp]: "segs [] = []"
  by (subst segs.simps) simp

lemma segs_empty: "dropWhile (\<lambda>c. c = SL) s = [] \<Longrightarrow> segs s = []"
  by (subst segs.simps) simp

lemma first_segment_eq:
  assumes "nonul s" "k \<le> length s"
  defines "r \<equiv> cwk_path_get_first_segment_without_root UNIX s k"
  shows "fst r \<longleftrightarrow> segs (drop k s) \<noteq> []"
    "fst r \<Longrightarrow> seg_ok (snd r) \<and> seg_path (snd r) = s \<and>
       segs (drop k s) = seg_text (snd r) # segs (seg_rest (snd r))"
proof -
  let ?i = "k + length (takeWhile (\<lambda>c. c = SL) (drop k s))"
  have dw: "drop ?i s = dropWhile (\<lambda>c. c = SL) (drop k s)"
    by (simp add: dropWhile_eq_drop add.commute)
  have "(fst r \<longleftrightarrow> segs (drop k s) \<noteq> []) \<and> (fst r \<longrightarrow> seg_ok (snd r) \<and> seg_path (snd r) = s \<and>
       segs (drop k s) = seg_text (snd r) # segs (seg_rest (snd r)))"
  proof (cases "k < length s \<and> ?i < length s")
    case False
    then have "dropWhile (\<lambda>c. c = SL) (drop k s) = []" unfolding dw [symmetric] using assms(2)
      by auto
    then show ?thesis using False assms(1,2)
      by (auto simp: r_def cwk_path_get_first_segment_without_root_def char_at_NUL first_nonsep_eq
          segs_empty Let_def)
  next
    case True
    define seg where "seg = \<lparr>seg_path = s, seg_segments = k, seg_begin = ?i,
      seg_end = cwk_path_find_next_stop UNIX s ?i, seg_size = cwk_path_find_next_stop UNIX s ?i - ?i\<rparr>"
    have r: "r = (True, seg)" using True assms(1)
      by (simp add: r_def seg_def cwk_path_get_first_segment_without_root_def char_at_NUL first_nonsep_eq Let_def)
    have "drop ?i s \<noteq> []" using True by simp
    then have "hd (drop ?i s) \<noteq> SL" unfolding dw by (rule hd_dropWhile)
    then have "s ! ?i \<noteq> SL" using True by (simp add: hd_drop_conv_nth)
    from segment_at [OF assms(1) _ this refl, of seg] True have
      "seg_ok seg" "segs (drop ?i s) = seg_text seg # segs (seg_rest seg)" by (simp_all add: seg_def)
    then show ?thesis using segs_dropWhile [of "drop k s"]
      by (simp add: r dw) (simp add: seg_def)
  qed
  then show "fst r \<longleftrightarrow> segs (drop k s) \<noteq> []"
    "fst r \<Longrightarrow> seg_ok (snd r) \<and> seg_path (snd r) = s \<and>
       segs (drop k s) = seg_text (snd r) # segs (seg_rest (snd r))" by blast+
qed

lemma next_segment_eq:
  assumes "seg_ok seg"
  shows "case cwk_path_get_next_segment UNIX seg of
      None \<Rightarrow> segs (seg_rest seg) = []
    | Some seg' \<Rightarrow> seg_ok seg' \<and> seg_path seg' = seg_path seg \<and>
        segs (seg_rest seg) = seg_text seg' # segs (seg_rest seg')"
proof -
  let ?s = "seg_path seg" and ?e = "seg_end seg"
  have ok: "nonul ?s" "?e = seg_begin seg + seg_size seg" "?e \<le> length ?s"
    "?e < length ?s \<Longrightarrow> ?s ! ?e = SL" using assms by (auto simp: seg_ok_def sep_unix)
  show ?thesis
  proof (cases "?e < length ?s")
    case False
    then show ?thesis using ok
      by (simp add: cwk_path_get_next_segment_def Let_def char_at_NUL seg_rest_def)
  next
    case True
    let ?i = "skip_separators UNIX ?s (?e + 1)"
    have i: "?i = ?e + 1 + length (takeWhile (\<lambda>c. c = SL) (drop (?e + 1) ?s))"
      using True by (simp add: skip_separators_eq)
    then have dw: "drop ?i ?s = dropWhile (\<lambda>c. c = SL) (drop (?e + 1) ?s)"
      by (simp add: dropWhile_eq_drop add.commute)
    have rest: "segs (seg_rest seg) = segs (drop ?i ?s)"
      unfolding dw segs_dropWhile seg_rest_def using True ok(4) by (simp add: drop_cons)
    show ?thesis
    proof (cases "?i < length ?s")
      case False
      then show ?thesis using True ok rest
        by (simp add: cwk_path_get_next_segment_def Let_def char_at_NUL)
    next
      case i: True
      define seg' where "seg' = seg\<lparr>seg_begin := ?i, seg_end := cwk_path_find_next_stop UNIX ?s ?i,
        seg_size := cwk_path_find_next_stop UNIX ?s ?i - ?i\<rparr>"
      have r: "cwk_path_get_next_segment UNIX seg = Some seg'" using True i ok
        by (simp add: cwk_path_get_next_segment_def Let_def char_at_NUL seg'_def)
      have "drop ?i ?s \<noteq> []" using i by simp
      then have "hd (drop ?i ?s) \<noteq> SL" unfolding dw by (rule hd_dropWhile)
      then have "?s ! ?i \<noteq> SL" using i by (simp add: hd_drop_conv_nth)
      from segment_at [OF ok(1) i this refl, of seg'] show ?thesis
        by (simp add: r rest) (simp add: seg'_def)
    qed
  qed
qed

text \<open>The segments from the current one of a joined path on.\<close>

definition sj_all :: "segment_joined \<Rightarrow> string list" where
  "sj_all sj = seg_text (sj_segment sj) # segs (seg_rest (sj_segment sj)) @
     concat (map segs (drop (sj_index sj + 1) (sj_paths sj)))"

definition sj_ok :: "segment_joined \<Rightarrow> bool" where
  "sj_ok sj \<longleftrightarrow> seg_ok (sj_segment sj) \<and> sj_index sj < length (sj_paths sj) \<and>
     (\<forall>p \<in> set (sj_paths sj). nonul p)"

lemma root_unix:
  "cwk_path_get_root UNIX p = (if p \<noteq> [] \<and> hd p = SL then 1 else 0)"
  by (cases p) (simp_all add: cwk_path_get_root_def cwk_path_get_root_unix_def sep_unix)

lemma segs_root: "segs (drop (cwk_path_get_root UNIX p) p) = segs p"
  by (cases p) (simp_all add: root_unix)

lemma first_segment_root:
  assumes "nonul p"
  defines "r \<equiv> cwk_path_get_first_segment UNIX p"
  shows "fst r \<longleftrightarrow> segs p \<noteq> []"
    "fst r \<Longrightarrow> seg_ok (snd r) \<and> seg_path (snd r) = p \<and> segs p = seg_text (snd r) # segs (seg_rest (snd r))"
proof -
  have "cwk_path_get_root UNIX p \<le> length p" by (cases p) (simp_all add: root_unix)
  from first_segment_eq [OF assms(1) this] show
    "fst r \<longleftrightarrow> segs p \<noteq> []"
    "fst r \<Longrightarrow> seg_ok (snd r) \<and> seg_path (snd r) = p \<and> segs p = seg_text (snd r) # segs (seg_rest (snd r))"
    unfolding r_def cwk_path_get_first_segment_def segs_root by blast+
qed

lemma drop_nth_paths: "i < length ps \<Longrightarrow> concat (map segs (drop i ps)) = segs (ps ! i) @ concat (map segs (drop (i + 1) ps))"
  by (subst drop_cons) simp_all

lemma first_joined_eq:
  assumes "\<forall>p \<in> set ps. nonul p" "i \<le> length ps"
  shows "case first_joined_loop UNIX ps i seg of (ok, sj) \<Rightarrow>
    (ok \<longleftrightarrow> concat (map segs (drop i ps)) \<noteq> []) \<and>
    (ok \<longrightarrow> sj_ok sj \<and> sj_all sj = concat (map segs (drop i ps)))"
  using assms
proof (induction "UNIX" ps i seg rule: first_joined_loop.induct)
  case (1 ps i seg)
  show ?case
  proof (cases "i < length ps")
    case False
    then show ?thesis by (subst first_joined_loop.simps) simp
  next
    case i: True
    let ?r = "cwk_path_get_first_segment UNIX (ps ! i)"
    have nn: "nonul (ps ! i)" using i "1.prems"(1) by simp
    note f = first_segment_root [OF nn]
    show ?thesis
    proof (cases "fst ?r")
      case True
      then have "first_joined_loop UNIX ps i seg = (True, \<lparr>sj_segment = snd ?r, sj_paths = ps, sj_index = i\<rparr>)"
        using i by (subst first_joined_loop.simps) (simp add: split_beta)
      then show ?thesis using f True i "1.prems"(1) by (simp add: drop_nth_paths sj_ok_def sj_all_def)
    next
      case False
      then have "first_joined_loop UNIX ps i seg = first_joined_loop UNIX ps (i + 1) (snd ?r)"
        using i by (subst first_joined_loop.simps) (simp add: split_beta)
      moreover have "segs (ps ! i) = []" using f(1) False by blast
      moreover have "case first_joined_loop UNIX ps (i + 1) (snd ?r) of (ok, sj) \<Rightarrow>
          (ok \<longleftrightarrow> concat (map segs (drop (i + 1) ps)) \<noteq> []) \<and>
          (ok \<longrightarrow> sj_ok sj \<and> sj_all sj = concat (map segs (drop (i + 1) ps)))"
        by (rule "1.hyps" [OF i, of ?r False]) (use False i "1.prems" in \<open>auto simp: prod_eq_iff\<close>)
      ultimately show ?thesis using drop_nth_paths [OF i] by simp
    qed
  qed
qed

lemma next_joined_loop_eq:
  assumes "\<forall>p \<in> set ps. nonul p" "i \<le> length ps"
  shows "case next_joined_loop UNIX ps i of
      None \<Rightarrow> concat (map segs (drop i ps)) = []
    | Some sj \<Rightarrow> sj_ok sj \<and> sj_all sj = concat (map segs (drop i ps))"
  using assms
proof (induction "UNIX" ps i rule: next_joined_loop.induct)
  case (1 ps i)
  show ?case
  proof (cases "i < length ps")
    case False
    then show ?thesis by (subst next_joined_loop.simps) simp
  next
    case i: True
    let ?r = "cwk_path_get_first_segment_without_root UNIX (ps ! i) 0"
    have nn: "nonul (ps ! i)" using i "1.prems"(1) by simp
    note f = first_segment_eq [OF nn, of 0, simplified]
    show ?thesis
    proof (cases "fst ?r")
      case True
      then have "next_joined_loop UNIX ps i = Some \<lparr>sj_segment = snd ?r, sj_paths = ps, sj_index = i\<rparr>"
        using i by (subst next_joined_loop.simps) (simp add: split_beta)
      then show ?thesis using f True i "1.prems"(1) by (simp add: drop_nth_paths sj_ok_def sj_all_def)
    next
      case False
      then have "next_joined_loop UNIX ps i = next_joined_loop UNIX ps (i + 1)"
        using i by (subst next_joined_loop.simps) (simp add: split_beta)
      moreover have "segs (ps ! i) = []" using f(1) False by blast
      moreover have "case next_joined_loop UNIX ps (i + 1) of
          None \<Rightarrow> concat (map segs (drop (i + 1) ps)) = []
        | Some sj \<Rightarrow> sj_ok sj \<and> sj_all sj = concat (map segs (drop (i + 1) ps))"
        by (rule "1.hyps" [OF i, of ?r False]) (use False i "1.prems" in \<open>auto simp: prod_eq_iff\<close>)
      ultimately show ?thesis unfolding drop_nth_paths [OF i] by (simp only: append_Nil)
    qed
  qed
qed

lemma next_joined_eq:
  assumes "sj_ok sj"
  shows "case cwk_path_get_next_segment_joined UNIX sj of
      None \<Rightarrow> tl (sj_all sj) = []
    | Some sj' \<Rightarrow> sj_ok sj' \<and> sj_all sj' = tl (sj_all sj)"
proof (cases "cwk_path_get_next_segment UNIX (sj_segment sj)")
  case (Some seg)
  have ok: "seg_ok (sj_segment sj)" "sj_index sj < length (sj_paths sj)" using assms by (simp_all add: sj_ok_def)
  from next_segment_eq [OF ok(1)] Some have
    "seg_ok seg" "segs (seg_rest (sj_segment sj)) = seg_text seg # segs (seg_rest seg)" by simp_all
  then show ?thesis using assms Some
    by (simp add: cwk_path_get_next_segment_joined_def sj_ok_def sj_all_def)
next
  case None
  have ok: "seg_ok (sj_segment sj)" "sj_index sj < length (sj_paths sj)"
    "\<forall>p \<in> set (sj_paths sj). nonul p" using assms by (simp_all add: sj_ok_def)
  from next_segment_eq [OF ok(1)] None have "segs (seg_rest (sj_segment sj)) = []" by simp
  then show ?thesis using None ok next_joined_loop_eq [OF ok(3), of "sj_index sj + 1"]
    by (simp add: cwk_path_get_next_segment_joined_def sj_all_def split: option.splits)
qed

lemma sj_all_ne [simp]: "sj_all sj \<noteq> []"
  by (simp add: sj_all_def)

lemma next_joined_cases:
  assumes "sj_ok sj"
  obtains (end_of) "cwk_path_get_next_segment_joined UNIX sj = None" "tl (sj_all sj) = []"
  | (more) sj' where "cwk_path_get_next_segment_joined UNIX sj = Some sj'" "sj_ok sj'"
      "sj_all sj' = tl (sj_all sj)" "sj_all sj' \<noteq> []"
  using next_joined_eq [OF assms] by (cases "cwk_path_get_next_segment_joined UNIX sj") (simp_all, metis sj_all_ne)

subsection \<open>Types of segments\<close>

lemma char_at_drop: "drop i s = [] \<Longrightarrow> char_at s i = NUL" "drop i s = c # u \<Longrightarrow> char_at s i = c \<and> drop (i + 1) s = u"
proof -
  show "drop i s = [] \<Longrightarrow> char_at s i = NUL" by (simp add: char_at_def)
  assume d: "drop i s = c # u"
  then have "i < length s" by (metis drop_all linorder_not_le list.discI)
  then show "char_at s i = c \<and> drop (i + 1) s = u" using d by (simp add: char_at_def drop_cons)
qed

lemma strneq_take:
  "nonul s \<Longrightarrow> nonul t \<Longrightarrow> strneq s i t j n \<longleftrightarrow> take n (drop i s) = take n (drop j t)"
proof (induction s i t j n rule: strneq.induct)
  case (2 s i t j n)
  have nn: "NUL \<notin> set (drop i s)" "NUL \<notin> set (drop j t)"
    using "2.prems" by (auto simp: nonul_def dest: in_set_dropD)
  show ?case
  proof (cases "drop i s")
    case Nil
    then show ?thesis using nn char_at_drop [of i s] char_at_drop [of j t] by (cases "drop j t") auto
  next
    case (Cons c u)
    then have c: "char_at s i = c" "drop (i + 1) s = u" "c \<noteq> NUL" using nn char_at_drop(2) by auto
    show ?thesis
    proof (cases "drop j t")
      case Nil
      then show ?thesis using c char_at_drop(1) [of j t] Cons by auto
    next
      case (Cons d v)
      then have "char_at t j = d" "drop (j + 1) t = v" using char_at_drop(2) by auto
      then show ?thesis using c Cons \<open>drop i s = c # u\<close> "2.IH" "2.prems" by auto
    qed
  qed
qed simp

lemma segment_type_eq:
  assumes "seg_ok seg"
  shows "cwk_path_get_segment_type seg =
    (if seg_text seg = ''.'' then CWK_CURRENT else if seg_text seg = ''..'' then CWK_BACK else CWK_NORMAL)"
proof -
  have nn: "nonul (seg_path seg)" "nonul ''.''" "nonul ''..''" using assms by (auto simp: seg_ok_def nonul_def)
  have len: "length (seg_text seg) = seg_size seg" "0 < seg_size seg"
    using assms by (auto simp: seg_ok_def seg_text_def)
  have t: "strneq (seg_path seg) (seg_begin seg) w 0 (seg_size seg) \<longleftrightarrow> seg_text seg = take (seg_size seg) w"
    if "nonul w" for w using strneq_take [OF nn(1) that] by (simp add: seg_text_def)
  have "strneq (seg_path seg) (seg_begin seg) ''.'' 0 (seg_size seg) \<longleftrightarrow> seg_text seg = ''.''"
    unfolding t [OF nn(2)] using len by (cases "seg_size seg") auto
  moreover have "strneq (seg_path seg) (seg_begin seg) ''..'' 0 (seg_size seg) \<longleftrightarrow>
      seg_text seg = ''..'' \<or> seg_text seg = ''.''"
    unfolding t [OF nn(3)] using len
    by (cases "seg_size seg"; cases "seg_size seg - 1") (auto simp: take_Suc_conv_app_nth)
  ultimately show ?thesis unfolding cwk_path_get_segment_type_def by auto
qed

subsection \<open>Removal of segments as a stack machine\<close>

text \<open>The reference: a stack of names, \<open>..\<close> drops the last one, \<open>.\<close> is nothing.\<close>

fun canon :: "string list \<Rightarrow> string list \<Rightarrow> string list" where
  "canon acc [] = rev acc"
| "canon acc (t # ts) =
     (if t = ''.'' then canon acc ts else if t = ''..'' then canon (tl acc) ts else canon (t # acc) ts)"

text \<open>How many names of the stack the rest of a path takes away.\<close>

fun pops :: "string list \<Rightarrow> nat" where
  "pops [] = 0"
| "pops (t # ts) = (if t = ''.'' then pops ts else if t = ''..'' then Suc (pops ts) else pops ts - 1)"

text \<open>The segments the code keeps: those that are not removed by what follows.\<close>

fun kept :: "string list \<Rightarrow> string list" where
  "kept [] = []"
| "kept (t # ts) = (if t = ''.'' \<or> t = ''..'' \<or> pops ts > 0 then kept ts else t # kept ts)"

lemma canon_kept: "canon acc ts = rev (drop (pops ts) acc) @ kept ts"
proof (induction ts arbitrary: acc)
  case (Cons t ts)
  show ?case
  proof (cases "t = ''.'' \<or> t = ''..''")
    case True
    then show ?thesis using Cons.IH by (auto simp: drop_Suc)
  next
    case False
    then show ?thesis using Cons.IH [of "t # acc"] by (cases "pops ts") auto
  qed
qed simp

lemma kept_canon: "kept ts = canon [] ts"
  by (simp add: canon_kept)

lemma normal_loop_eq:
  assumes "sj_ok sj" "0 \<le> counter"
  shows "normal_loop UNIX counter sj \<longleftrightarrow> nat counter < pops (tl (sj_all sj))"
  using assms
proof (induction "UNIX" counter sj rule: normal_loop.induct)
  case (1 counter sj)
  from "1.prems"(1) show ?case
  proof (cases rule: next_joined_cases)
    case end_of
    then show ?thesis by (subst normal_loop.simps) simp
  next
    case (more sj')
    let ?t = "seg_text (sj_segment sj')"
    obtain ts where ts: "sj_all sj' = ?t # ts" by (simp add: sj_all_def)
    then have all: "tl (sj_all sj) = ?t # ts" "sj_all sj' = ?t # ts" using more(3) by simp_all
    note more = more(1,2)
    have ty: "cwk_path_get_segment_type (sj_segment sj') =
        (if ?t = ''.'' then CWK_CURRENT else if ?t = ''..'' then CWK_BACK else CWK_NORMAL)"
      using more(2) by (intro segment_type_eq) (simp add: sj_ok_def)
    show ?thesis
    proof (cases "?t = ''.''")
      case True
      then show ?thesis using "1.hyps"(2) [OF more(1)] ty more "1.prems"(2) all
        by (subst normal_loop.simps) simp
    next
      case dot: False
      show ?thesis
      proof (cases "?t = ''..''")
        case True
        show ?thesis
        proof (cases "counter = 0")
          case True
          then show ?thesis using ty more all dot \<open>?t = ''..''\<close> by (subst normal_loop.simps) simp
        next
          case False
          then have c: "\<not> counter - 1 < 0" "nat counter = Suc (nat (counter - 1))" using "1.prems"(2) by auto
          then show ?thesis using "1.hyps"(3) [OF more(1)] ty more all dot \<open>?t = ''..''\<close>
            by (subst normal_loop.simps) simp
        qed
      next
        case False
        have "nat (counter + 1) = Suc (nat counter)" using "1.prems"(2) by simp
        then show ?thesis using "1.hyps"(1) [OF more(1)] ty more "1.prems"(2) all dot False
          by (subst normal_loop.simps) auto
      qed
    qed
  qed
qed

lemma removed_eq:
  assumes "sj_ok sj"
  shows "cwk_path_segment_will_be_removed UNIX sj True \<longleftrightarrow>
    seg_text (sj_segment sj) = ''.'' \<or> seg_text (sj_segment sj) = ''..'' \<or> 0 < pops (tl (sj_all sj))"
proof -
  have "seg_ok (sj_segment sj)" using assms by (simp add: sj_ok_def)
  from segment_type_eq [OF this] show ?thesis using normal_loop_eq [OF assms, of 0]
    by (auto simp: cwk_path_segment_will_be_removed_def Let_def cwk_path_segment_normal_will_be_removed_def)
qed

subsection \<open>Output\<close>

text \<open>The buffer holds the start of \<open>w\<close>, as much of it as fits.\<close>

definition holds :: "string \<Rightarrow> string \<Rightarrow> bool" where
  "holds buf w \<longleftrightarrow> take (length w) buf = take (length buf) w"

lemma output_holds:
  assumes h: "holds buf w" and n: "n \<le> length str"
  shows "holds (fst (cwk_path_output_sized buf (length w) str n)) (w @ take n str)"
    "length (fst (cwk_path_output_sized buf (length w) str n)) = length buf"
    "snd (cwk_path_output_sized buf (length w) str n) = n"
proof -
  let ?b = "length buf" and ?p = "length w"
  let ?am = "if ?b > ?p + n then n else if ?b > ?p then ?b - ?p else 0"
  have r: "fst (cwk_path_output_sized buf ?p str n) =
      (if ?am > 0 then take ?p buf @ take ?am str @ drop (?p + ?am) buf else buf)"
    using n by (auto simp: cwk_path_output_sized_def Let_def write_at_def)
  show len: "length (fst (cwk_path_output_sized buf ?p str n)) = length buf" unfolding r using n by auto
  show "snd (cwk_path_output_sized buf (length w) str n) = n" by (simp add: cwk_path_output_sized_def Let_def)
  show "holds (fst (cwk_path_output_sized buf ?p str n)) (w @ take n str)"
  proof (cases "?b > ?p")
    case False
    then show ?thesis using h n unfolding r holds_def by auto
  next
    case True
    then have "take ?p buf = w" using h by (simp add: holds_def)
    then show ?thesis using True n unfolding holds_def len unfolding r by (auto simp: min_def)
  qed
qed

lemma terminate_holds:
  assumes "holds buf w" "0 < length buf" "nonul w"
  shows "cstr (cwk_path_terminate_output buf (length w)) = take (length buf - 1) w"
    "length (cwk_path_terminate_output buf (length w)) = length buf"
proof -
  let ?b = "length buf" and ?r = "cwk_path_terminate_output buf (length w)"
  show "length ?r = ?b" by (simp add: cwk_path_terminate_output_def)
  let ?k = "if length w \<ge> ?b then ?b - 1 else length w"
  have k: "?k < ?b" "?r = buf[?k := NUL]" using assms(2) by (auto simp: cwk_path_terminate_output_def)
  have "take ?k (take (length w) buf) = take ?k (take ?b w)" using assms(1) by (simp add: holds_def)
  then have t: "take ?k buf = take (?b - 1) w"
    using assms(2) by (cases "?b \<le> length w") (simp_all add: min_def split: if_splits)
  have "NUL \<notin> set (take (?b - 1) w)" using assms(3) by (auto simp: nonul_def dest: in_set_takeD)
  then have "takeWhile (\<lambda>c. c \<noteq> NUL) (take ?k buf @ NUL # drop (Suc ?k) buf) = take (?b - 1) w"
    unfolding t by (simp add: takeWhile_append)
  then show "cstr ?r = take (?b - 1) w" unfolding k(2) cstr_def using k(1) by (simp only: upd_conv_take_nth_drop)
qed

subsection \<open>The normalized path\<close>

fun add_segs :: "bool \<Rightarrow> string list \<Rightarrow> string" where
  "add_segs has [] = []"
| "add_segs has (t # ts) = (if has then [SL] else []) @ t @ add_segs True ts"

definition abs_path :: "string list \<Rightarrow> string" where
  "abs_path ts = SL # add_segs False ts"

lemma output_snd [simp]: "snd (cwk_path_output_sized buf pos str n) = n"
  by (simp add: cwk_path_output_sized_def Let_def)

lemma write_segment:
  assumes "seg_ok seg" "holds buf w"
    and r_def: "r = (let (buf, pos) = (if has then let (buf, n) = cwk_path_output_separator UNIX buf (length w)
                       in (buf, length w + n) else (buf, length w));
                    (buf, n) = cwk_path_output_sized buf pos (drop (seg_begin seg) (seg_path seg)) (seg_size seg)
                in (True, buf, pos + n))"
  shows "\<exists>buf'. r = (True, buf', length (w @ (if has then [SL] else []) @ seg_text seg)) \<and>
    holds buf' (w @ (if has then [SL] else []) @ seg_text seg) \<and> length buf' = length buf"
proof -
  let ?w = "w @ (if has then [SL] else [])"
  define b1 where "b1 = (if has then fst (cwk_path_output_separator UNIX buf (length w)) else buf)"
  note sep = output_holds [OF assms(2), of 1 "separators UNIX", simplified]
  have b1: "holds b1 ?w" "length b1 = length buf"
    using sep assms(2) by (simp_all add: b1_def cwk_path_output_separator_def)
  have le: "seg_size seg \<le> length (drop (seg_begin seg) (seg_path seg))" using assms(1) by (auto simp: seg_ok_def)
  note out = output_holds [OF b1(1) le]
  have "r = (True, fst (cwk_path_output_sized b1 (length ?w) (drop (seg_begin seg) (seg_path seg)) (seg_size seg)),
      length (?w @ seg_text seg))"
    using sep(3) le out(3) assms(1)
    by (simp add: r_def b1_def split_beta Let_def cwk_path_output_separator_def seg_text_def)
  then show ?thesis using out(1,2) b1(2) by (simp add: seg_text_def)
qed

lemma join_loop_eq:
  assumes "sj_ok sj" "holds buf w"
  shows "\<exists>buf'. join_loop UNIX True sj has buf (length w) =
      (has \<or> kept (sj_all sj) \<noteq> [], buf', length (w @ add_segs has (kept (sj_all sj)))) \<and>
    holds buf' (w @ add_segs has (kept (sj_all sj))) \<and> length buf' = length buf"
  using assms
proof (induction "left_ahead sj" arbitrary: sj has buf w rule: less_induct)
  case less
  let ?t = "seg_text (sj_segment sj)" and ?ts = "tl (sj_all sj)"
  obtain ts where all: "sj_all sj = ?t # ts" by (simp add: sj_all_def)
  define rm where "rm = cwk_path_segment_will_be_removed UNIX sj True"
  have kept: "kept (sj_all sj) = (if rm then kept ts else ?t # kept ts)"
    unfolding all rm_def removed_eq [OF less.prems(1)] by simp
  define r where "r = (if rm then (has, buf, length w)
     else let (buf, pos) = (if has then let (buf, n) = cwk_path_output_separator UNIX buf (length w)
                       in (buf, length w + n) else (buf, length w));
              (buf, n) = cwk_path_output_sized buf pos
                (drop (seg_begin (sj_segment sj)) (seg_path (sj_segment sj))) (seg_size (sj_segment sj))
          in (True, buf, pos + n))"
  let ?w = "if rm then w else w @ (if has then [SL] else []) @ ?t" and ?has = "has \<or> \<not> rm"
  have "seg_ok (sj_segment sj)" using less.prems(1) by (simp add: sj_ok_def)
  from write_segment [OF this less.prems(2) refl, of has] obtain b where
    r: "r = (?has, b, length ?w)" and b: "holds b ?w" "length b = length buf"
    using less.prems(2) by (cases rm) (auto simp: r_def simp del: length_append)
  have step: "join_loop UNIX True sj has buf (length w) =
      (case cwk_path_get_next_segment_joined UNIX sj of None \<Rightarrow> r
       | Some sj \<Rightarrow> join_loop UNIX True sj (fst r) (fst (snd r)) (snd (snd r)))"
    unfolding r_def rm_def by (subst join_loop.simps) (simp add: split_beta Let_def split: option.split)
  from less.prems(1) show ?case
  proof (cases rule: next_joined_cases)
    case end_of
    then have "ts = []" using all by simp
    then show ?thesis using step end_of(1) r b kept by auto
  next
    case (more sj')
    have "left_ahead sj' < left_ahead sj" using more(1) by (rule next_joined_left)
    from less.hyps [OF this more(2) b(1), of ?has] have
      "\<exists>buf'. join_loop UNIX True sj' ?has b (length ?w) =
         (?has \<or> kept ts \<noteq> [], buf', length (?w @ add_segs ?has (kept ts))) \<and>
       holds buf' (?w @ add_segs ?has (kept ts)) \<and> length buf' = length b"
      using more(3) all by simp
    then show ?thesis using step more(1) r b(2) kept by (cases rm) auto
  qed
qed

lemma canon_set: "set (canon acc ts) \<subseteq> set acc \<union> (set ts - {''.'', ''..''})"
proof (induction acc ts rule: canon.induct)
  case (2 acc t ts)
  then show ?case by (cases acc) (auto split: if_splits)
qed simp

lemma nonul_add_segs: "nonul (add_segs has ts) \<longleftrightarrow> (\<forall>t \<in> set ts. nonul t)"
  by (induction has ts rule: add_segs.induct) (auto simp: nonul_def)

lemma segs_props: "t \<in> set (segs s) \<Longrightarrow> t \<noteq> [] \<and> SL \<notin> set t \<and> set t \<subseteq> set s"
proof (induction s rule: segs.induct)
  case (1 s)
  let ?t = "dropWhile (\<lambda>c. c = SL) s"
  show ?case
  proof (cases "?t = []")
    case True
    then show ?thesis using "1.prems" by (simp add: segs_empty)
  next
    case False
    then have segs: "segs s = takeWhile (\<lambda>c. c \<noteq> SL) ?t # segs (dropWhile (\<lambda>c. c \<noteq> SL) ?t)"
      by (subst segs.simps) (simp add: Let_def)
    have "hd ?t \<noteq> SL" using False by (rule hd_dropWhile)
    then have "takeWhile (\<lambda>c. c \<noteq> SL) ?t \<noteq> []" using False by (cases ?t) auto
    moreover have tw: "set (takeWhile (\<lambda>c. c \<noteq> SL) ?t) \<subseteq> set s"
      by (rule subsetI, drule set_takeWhileD, erule conjE, erule set_dropWhileD)
    moreover have "SL \<notin> set (takeWhile (\<lambda>c. c \<noteq> SL) ?t)" by (auto dest: set_takeWhileD)
    moreover have "set (dropWhile (\<lambda>c. c \<noteq> SL) ?t) \<subseteq> set s"
      by (rule subsetI, drule set_dropWhileD, erule set_dropWhileD)
    moreover have "t = takeWhile (\<lambda>c. c \<noteq> SL) ?t \<or> t \<in> set (segs (dropWhile (\<lambda>c. c \<noteq> SL) ?t))"
      using "1.prems" unfolding segs by simp
    ultimately show ?thesis using "1.IH" [OF refl False] by (elim disjE) (simp_all, blast)
  qed
qed

definition names :: "string list \<Rightarrow> bool" where
  "names ts \<longleftrightarrow> (\<forall>t \<in> set ts. t \<noteq> [] \<and> SL \<notin> set t)"

lemma segs_name_app: "t \<noteq> [] \<Longrightarrow> SL \<notin> set t \<Longrightarrow> segs (t @ SL # s) = t # segs s" "t \<noteq> [] \<Longrightarrow> SL \<notin> set t \<Longrightarrow> segs t = [t]"
proof -
  assume t: "t \<noteq> []" "SL \<notin> set t"
  then have "hd t \<noteq> SL" "\<forall>x \<in> set t. x \<noteq> SL" using hd_in_set [of t] by metis+
  then have d: "dropWhile (\<lambda>c. c = SL) (t @ u) = t @ u" "takeWhile (\<lambda>c. c \<noteq> SL) t = t"
    "dropWhile (\<lambda>c. c \<noteq> SL) t = []" for u using t(1) by (auto simp: dropWhile_eq_self_iff)
  show "segs (t @ SL # s) = t # segs s"
    by (subst segs.simps) (use t(1) d in \<open>simp add: Let_def takeWhile_append dropWhile_append\<close>)
  have "segs (dropWhile (\<lambda>c. c \<noteq> SL) t) = []" unfolding d(3) by simp
  then show "segs t = [t]" by (subst segs.simps) (use t(1) d(1) [of "[]"] d(2) in \<open>simp add: Let_def\<close>)
qed

lemma segs_add_segs: "names ts \<Longrightarrow> segs (add_segs has ts) = ts"
proof (induction has ts rule: add_segs.induct)
  case (2 has t ts)
  then have t: "t \<noteq> []" "SL \<notin> set t" and ih: "segs (add_segs True ts) = ts" by (simp_all add: names_def)
  have "segs (t @ add_segs True ts) = t # ts"
  proof (cases ts)
    case Nil
    then show ?thesis using segs_name_app(2) [OF t] by simp
  next
    case (Cons u us)
    then show ?thesis using segs_name_app(1) [OF t, of "u @ add_segs True us"] ih by simp
  qed
  then show ?case by simp
qed simp

lemma segs_abs_path: "names ts \<Longrightarrow> segs (abs_path ts) = ts"
  by (simp add: abs_path_def segs_add_segs)

lemma canon_names: "names ts \<Longrightarrow> names (canon [] ts)"
  using canon_set [of "[]" ts] by (auto simp: names_def)

lemma segs_names: "names (concat (map segs ps))"
  using segs_props by (auto simp: names_def)

lemma names_segs: "names (segs s)"
  using segs_props by (auto simp: names_def)

lemma canon_id: "''.'' \<notin> set ts \<Longrightarrow> ''..'' \<notin> set ts \<Longrightarrow> canon acc ts = rev acc @ ts"
  by (induction ts arbitrary: acc) auto

text \<open>The main equation: joining and normalizing absolute paths, for buffers of any size.\<close>

lemma normalize_multiple_eq:
  assumes "\<forall>p \<in> set (p0 # ps). nonul p" "p0 \<noteq> []" "hd p0 = SL"
  defines "w \<equiv> abs_path (canon [] (concat (map segs (p0 # ps))))"
  shows "\<exists>buf'. cwk_path_join_and_normalize_multiple UNIX (p0 # ps) buf = Some (buf', length w) \<and>
    length buf' = length buf \<and> (0 < length buf \<longrightarrow> cstr buf' = take (length buf - 1) w)"
proof -
  let ?ps = "p0 # ps" and ?l = "concat (map segs (p0 # ps))"
  have root: "cwk_path_get_root UNIX p0 = 1" using assms(2,3) by (simp add: root_unix)
  have abs: "cwk_path_is_root_absolute UNIX p0 1"
    using assms(2,3) by (cases p0) (auto simp: cwk_path_is_root_absolute_def sep_unix)
  have h0: "holds buf []" by (simp add: holds_def)
  have "1 \<le> length p0" "take 1 p0 = [SL]" using assms(2,3) by (cases p0; simp)+
  note out = output_holds [OF h0 this(1), simplified this(2), simplified]
  let ?b = "fst (cwk_path_output_sized buf 0 p0 1)"
  have fix_root: "cwk_path_fix_root UNIX b n = b" for b n by (simp add: cwk_path_fix_root_def)
  have fj: "case cwk_path_get_first_segment_joined UNIX ?ps of (ok, sj) \<Rightarrow>
      (ok \<longleftrightarrow> ?l \<noteq> []) \<and> (ok \<longrightarrow> sj_ok sj \<and> sj_all sj = ?l)"
    using first_joined_eq [of ?ps 0 no_segment] assms(1) by (simp add: cwk_path_get_first_segment_joined_def)
  have nn: "nonul w" unfolding w_def abs_path_def
    using canon_set [of "[]" ?l] segs_props assms(1)
    by (auto simp: nonul_def nonul_add_segs [unfolded nonul_def]) blast+
  obtain ok sj where f: "cwk_path_get_first_segment_joined UNIX ?ps = (ok, sj)" by fastforce
  have "\<exists>b'. cwk_path_join_and_normalize_multiple UNIX ?ps buf =
      Some (cwk_path_terminate_output b' (length w), length w) \<and> holds b' w \<and> length b' = length buf"
  proof (cases ok)
    case False
    then have l: "?l = []" using fj f by auto
    have "w = [SL]" unfolding w_def l by (simp add: abs_path_def)
    then show ?thesis using out(1,2) False f root
      by (intro exI [of _ ?b]) (simp add: cwk_path_join_and_normalize_multiple_def split_beta Let_def fix_root)
  next
    case True
    then have sj: "sj_ok sj" "sj_all sj = ?l" using fj f by auto
    have "kept (sj_all sj) = canon [] ?l" unfolding sj(2) by (rule kept_canon)
    then have w: "w = [SL] @ add_segs False (kept (sj_all sj))" by (simp add: w_def abs_path_def)
    from join_loop_eq [OF sj(1) out(1), of False] obtain b' where
      j: "join_loop UNIX True sj False ?b 1 = (kept (sj_all sj) \<noteq> [], b', length w)"
      and b': "holds b' w" "length b' = length buf" unfolding w using out(2) by auto
    have "0 < length w" by (simp add: w)
    then show ?thesis using b' True f root abs j
      by (auto simp: cwk_path_join_and_normalize_multiple_def split_beta Let_def fix_root)
  qed
  then obtain b' where b': "cwk_path_join_and_normalize_multiple UNIX ?ps buf =
      Some (cwk_path_terminate_output b' (length w), length w)" "holds b' w" "length b' = length buf" by blast
  have "length (cwk_path_terminate_output b' (length w)) = length b'"
    by (simp add: cwk_path_terminate_output_def)
  then show ?thesis using b' terminate_holds(1) [OF b'(2) _ nn] by auto
qed

end
