(* ===== verification/PathResolve.thy ===== *)
theory PathResolve
  imports CwalkNorm
begin

text \<open>
  Resolution of sandbox paths, \<^verbatim>\<open>linux/path.c\<close>: a path is made absolute with the working
  directory, normalized, and matched against the directory mappings of the engine; the rest
  of the path is joined to the host directory of the best match. The file system is not
  consulted (symbolic links are the host's business).
\<close>

subsection \<open>The operation\<close>

definition FILENAME_MAX :: nat where "FILENAME_MAX = 4096"

text \<open>The offset of the first \<open>=\<close>, as \<^verbatim>\<open>strchr\<close> finds it.\<close>

fun find_eq :: "string \<Rightarrow> nat option" where
  "find_eq [] = None"
| "find_eq (c # cs) = (if c = CHR ''='' then Some 0 else map_option Suc (find_eq cs))"

definition map_box_dir :: "string \<Rightarrow> nat \<Rightarrow> string" where
  "map_box_dir m eq = take (min eq (FILENAME_MAX - 1)) (take (FILENAME_MAX - 1) m)"

text \<open>The loop over the mappings: the host directory of the best match and its length.\<close>

fun map_loop :: "string \<Rightarrow> string list \<Rightarrow> string option \<times> nat \<Rightarrow> string option \<times> nat" where
  "map_loop path [] best = best"
| "map_loop path (m # maps) (host_dir, common_match) =
     (case find_eq m of
        None \<Rightarrow> map_loop path maps (host_dir, common_match)
      | Some eq \<Rightarrow>
          (let common = cwk_path_get_intersection UNIX path (map_box_dir m eq)
           in if common > common_match then map_loop path maps (Some (drop (eq + 1) m), common)
              else map_loop path maps (host_dir, common_match)))"

text \<open>
  \<open>cwd\<close> is the path of \<^verbatim>\<open>proc->cwd\<close>, \<open>dir_maps\<close> the engine's option (\<open>None\<close> for the null
  pointer), \<open>buf\<close> the caller's buffer. The result is the string in the buffer, or \<open>None\<close>
  for false. The local buffers are empty strings of \<^verbatim>\<open>FILENAME_MAX\<close> bytes.
\<close>

definition local_buffer :: string where
  "local_buffer = replicate FILENAME_MAX NUL"

definition path_resolve ::
  "string \<Rightarrow> string list option \<Rightarrow> string \<Rightarrow> string \<Rightarrow> string option run" where
  "path_resolve cwd dir_maps path buf = do {
     path \<leftarrow> (if \<not> cwk_path_is_absolute UNIX path
              then map_option (\<lambda>(b, _). cstr b) (cwk_path_join UNIX cwd path local_buffer)
              else Some path);
     (normalized, _) \<leftarrow> cwk_path_normalize UNIX path local_buffer;
     let path = cstr normalized;
     case dir_maps of
       None \<Rightarrow> Some None
     | Some maps \<Rightarrow>
         (case map_loop path maps (None, 0) of
            (None, _) \<Rightarrow> Some None
          | (Some host_dir, common_match) \<Rightarrow>
              if common_match \<ge> length buf then Some None
              else do {
                (b, _) \<leftarrow> cwk_path_join UNIX host_dir (drop common_match path) buf;
                Some (Some (cstr b))
              })
   }"

subsection \<open>Intersection of paths\<close>

text \<open>The positions of the loop: the one path \<open>p\<close>, at a suffix of its segments.\<close>

definition on_path :: "string \<Rightarrow> segment_joined \<Rightarrow> bool" where
  "on_path p sj \<longleftrightarrow> sj_ok sj \<and> sj_paths sj = [p] \<and> seg_path (sj_segment sj) = p"

lemma on_path_all:
  assumes "on_path p sj"
  shows "sj_all sj = seg_text (sj_segment sj) # segs (drop (seg_end (sj_segment sj)) p)"
  using assms by (simp add: on_path_def sj_ok_def sj_all_def seg_rest_def)

lemma next_on_path:
  assumes "on_path p sj" "cwk_path_get_next_segment_joined UNIX sj = Some sj'"
  shows "on_path p sj'"
proof -
  have ok: "sj_ok sj" "sj_index sj = 0" "sj_paths sj = [p]" "seg_path (sj_segment sj) = p"
    using assms(1) by (auto simp: on_path_def sj_ok_def)
  have "next_joined_loop UNIX [p] 1 = None" by (subst next_joined_loop.simps) simp
  then obtain seg where seg: "cwk_path_get_next_segment UNIX (sj_segment sj) = Some seg"
    "sj' = sj\<lparr>sj_segment := seg\<rparr>"
    using assms(2) ok by (auto simp: cwk_path_get_next_segment_joined_def split: option.splits)
  have "sj_ok sj'" using next_joined_eq [OF ok(1)] assms(2) by simp
  then show ?thesis using ok seg next_segment_ahead(1) [OF seg(1)] by (simp add: on_path_def)
qed

lemma skip_on_path:
  assumes "on_path p sj"
  shows "case cwk_path_segment_joined_skip_invisible UNIX True sj of
      None \<Rightarrow> kept (sj_all sj) = []
    | Some sj' \<Rightarrow> on_path p sj' \<and>
        kept (sj_all sj) = seg_text (sj_segment sj') # kept (tl (sj_all sj'))"
  using assms
proof (induction "UNIX" True sj rule: cwk_path_segment_joined_skip_invisible.induct)
  case (1 sj)
  have ok: "sj_ok sj" using "1.prems" by (simp add: on_path_def)
  obtain ts where all: "sj_all sj = seg_text (sj_segment sj) # ts" by (simp add: sj_all_def)
  show ?case
  proof (cases "cwk_path_segment_will_be_removed UNIX sj True")
    case False
    then show ?thesis using "1.prems" all removed_eq [OF ok]
      by (subst cwk_path_segment_joined_skip_invisible.simps) simp
  next
    case True
    then have k: "kept (sj_all sj) = kept ts" using all removed_eq [OF ok] by auto
    from ok show ?thesis
    proof (cases rule: next_joined_cases)
      case end_of
      then show ?thesis using True k all by (subst cwk_path_segment_joined_skip_invisible.simps) simp
    next
      case (more sj')
      have "sj_all sj' = ts" using more(3) all by simp
      then show ?thesis using "1.hyps" [OF True more(1) next_on_path [OF "1.prems" more(1)]] True k more(1)
        by (subst cwk_path_segment_joined_skip_invisible.simps) (simp split: option.splits)
    qed
  qed
qed

lemma equal_texts:
  assumes "on_path p sj" "on_path q sk"
  shows "cwk_path_is_string_equal UNIX (seg_path (sj_segment sj)) (seg_begin (sj_segment sj))
      (seg_path (sj_segment sk)) (seg_begin (sj_segment sk))
      (seg_size (sj_segment sj)) (seg_size (sj_segment sk)) \<longleftrightarrow>
    seg_text (sj_segment sj) = seg_text (sj_segment sk)"
proof -
  have ok: "seg_ok (sj_segment sj)" "seg_ok (sj_segment sk)" using assms by (auto simp: on_path_def sj_ok_def)
  have len: "length (seg_text (sj_segment sj)) = seg_size (sj_segment sj)"
    "length (seg_text (sj_segment sk)) = seg_size (sj_segment sk)" using ok by (auto simp: seg_ok_def seg_text_def)
  show ?thesis
  proof (cases "seg_size (sj_segment sj) = seg_size (sj_segment sk)")
    case True
    then show ?thesis using ok by (simp add: cwk_path_is_string_equal_def strneq_take seg_ok_def seg_text_def)
  next
    case False
    then have "seg_text (sj_segment sj) \<noteq> seg_text (sj_segment sk)" using len by metis
    then show ?thesis using False by (simp add: cwk_path_is_string_equal_def)
  qed
qed

text \<open>The length of the longest common prefix of two lists.\<close>

fun common :: "'a list \<Rightarrow> 'a list \<Rightarrow> nat" where
  "common (x # xs) (y # ys) = (if x = y then Suc (common xs ys) else 0)"
| "common _ _ = 0"

definition plain :: "string list \<Rightarrow> bool" where
  "plain ts \<longleftrightarrow> ''.'' \<notin> set ts \<and> ''..'' \<notin> set ts"

lemma kept_plain: "plain ts \<Longrightarrow> kept ts = ts"
  by (simp add: kept_canon canon_id plain_def)

lemma intersection_loop_eq:
  assumes "on_path p base" "on_path q other" "plain (sj_all base)" "segs (drop fin p) = sj_all base"
    "0 < fin"
  shows "segs (drop (intersection_loop UNIX True base other fin) p) =
      drop (common (sj_all base) (kept (sj_all other))) (sj_all base)"
    "0 < intersection_loop UNIX True base other fin"
proof -
  have "segs (drop (intersection_loop UNIX True base other fin) p) =
      drop (common (sj_all base) (kept (sj_all other))) (sj_all base) \<and>
      0 < intersection_loop UNIX True base other fin"
    using assms
  proof (induction "UNIX" True base other fin rule: intersection_loop.induct)
    case (1 base other fin)
    note pr = "1.prems"
    have kb: "kept (sj_all base) = sj_all base" by (rule kept_plain [OF pr(3)])
    have ok: "sj_ok base" using pr(1) by (simp add: on_path_def)
    have notrm: "\<not> cwk_path_segment_will_be_removed UNIX base True"
    proof
      assume "cwk_path_segment_will_be_removed UNIX base True"
      then have "kept (sj_all base) = kept (tl (sj_all base))"
        unfolding removed_eq [OF ok] by (auto simp: sj_all_def)
      then have "length (sj_all base) = length (kept (tl (sj_all base)))" by (simp add: kb)
      moreover have "length (kept ts) \<le> length ts" for ts by (induction ts) auto
      ultimately have "length (sj_all base) \<le> length (tl (sj_all base))" by metis
      then show False by (simp add: sj_all_def)
    qed
    then have sb: "cwk_path_segment_joined_skip_invisible UNIX True base = Some base"
      by (subst cwk_path_segment_joined_skip_invisible.simps) simp
    note so = skip_on_path [OF pr(2)]
    show ?case
    proof (cases "cwk_path_segment_joined_skip_invisible UNIX True other")
      case None
      then show ?thesis using so sb pr by (subst (1 2) intersection_loop.simps) simp
    next
      case (Some o1)
      then have o1: "on_path q o1" "kept (sj_all other) = seg_text (sj_segment o1) # kept (tl (sj_all o1))"
        using so by simp_all
      let ?tb = "seg_text (sj_segment base)" and ?to = "seg_text (sj_segment o1)"
      obtain bs where bs: "sj_all base = ?tb # bs" by (simp add: sj_all_def)
      note eq = equal_texts [OF pr(1) o1(1)]
      show ?thesis
      proof (cases "?tb = ?to")
        case False
        then show ?thesis using Some sb eq pr o1(2) bs by (subst (1 2) intersection_loop.simps) simp
      next
        case same: True
        let ?fin = "seg_end (sj_segment base)"
        have bsfin: "segs (drop ?fin p) = bs" using on_path_all [OF pr(1)] bs by simp
        have fin: "0 < ?fin" using ok by (simp add: sj_ok_def seg_ok_def)
        have com: "common (sj_all base) (kept (sj_all other)) = Suc (common bs (kept (tl (sj_all o1))))"
          by (simp add: bs o1(2) same)
        from ok show ?thesis
        proof (cases rule: next_joined_cases)
          case end_of
          then show ?thesis using Some sb eq same fin bsfin bs com
            by (subst (1 2) intersection_loop.simps) simp
        next
          case (more b2)
          have o1ok: "sj_ok o1" using o1(1) by (simp add: on_path_def)
          from o1ok show ?thesis
          proof (cases rule: next_joined_cases)
            case end_of
            then have "common bs (kept (tl (sj_all o1))) = 0" by (cases bs) simp_all
            then show ?thesis using Some sb eq same fin bsfin bs com more(1) end_of(1)
              by (subst (1 2) intersection_loop.simps) simp
          next
            case m2: (more o2)
            have b2: "sj_all b2 = bs" using more(3) bs by simp
            have "plain bs" using pr(3) bs by (simp add: plain_def)
            then have "segs (drop (intersection_loop UNIX True b2 o2 ?fin) p) =
                drop (common bs (kept (sj_all o2))) bs \<and> 0 < intersection_loop UNIX True b2 o2 ?fin"
              using "1.hyps" [where ?x2.0 = base and ?x2a = o1 and ?x2aa = b2 and ?x2ab = o2,
                  OF _ refl refl _ _ refl refl next_on_path [OF pr(1) more(1)] next_on_path [OF o1(1) m2(1)]]
                sb Some more(1) m2(1) eq same b2 bsfin fin by simp
            then show ?thesis using Some sb eq same bs com more(1) m2(1,3)
              by (subst (1 2) intersection_loop.simps) simp
          qed
        qed
      qed
    qed
  qed
  then show "segs (drop (intersection_loop UNIX True base other fin) p) =
      drop (common (sj_all base) (kept (sj_all other))) (sj_all base)"
    "0 < intersection_loop UNIX True base other fin" by blast+
qed

lemma abs_path_simps: "abs_path ts \<noteq> []" "hd (abs_path ts) = SL" "drop 1 (abs_path ts) = add_segs False ts"
  by (simp_all add: abs_path_def)

lemma canon_plain: "plain (canon [] ts)"
  using canon_set [of "[]" ts] by (auto simp: plain_def)

lemma nonul_abs_path: "nonul (abs_path ts) \<longleftrightarrow> (\<forall>t \<in> set ts. nonul t)"
proof -
  have "nonul (abs_path ts) \<longleftrightarrow> nonul (add_segs False ts)" by (simp add: nonul_def abs_path_def)
  then show ?thesis by (simp add: nonul_add_segs)
qed

lemma nonul_segs: "nonul s \<Longrightarrow> t \<in> set (segs s) \<Longrightarrow> nonul t"
  using segs_props [of t s] by (auto simp: nonul_def)

lemma first_on_path:
  assumes "nonul p" "segs p \<noteq> []"
  shows "\<exists>sj. cwk_path_get_first_segment_joined UNIX [p] = (True, sj) \<and> on_path p sj \<and> sj_all sj = segs p"
proof -
  let ?r = "cwk_path_get_first_segment UNIX p"
  have ok: "fst ?r" using assms first_segment_root(1) by blast
  have r: "seg_ok (snd ?r)" "seg_path (snd ?r) = p" "segs p = seg_text (snd ?r) # segs (seg_rest (snd ?r))"
    using first_segment_root(2) [OF assms(1) ok] by blast+
  have "cwk_path_get_first_segment_joined UNIX [p] =
      (True, \<lparr>sj_segment = snd ?r, sj_paths = [p], sj_index = 0\<rparr>)"
    unfolding cwk_path_get_first_segment_joined_def
    by (subst first_joined_loop.simps) (simp add: split_beta ok)
  then show ?thesis using r assms(1) by (simp add: on_path_def sj_ok_def sj_all_def)
qed

lemma first_no_segment:
  assumes "nonul p" "segs p = []"
  shows "fst (cwk_path_get_first_segment_joined UNIX [p]) = False"
  using first_joined_eq [of "[p]" 0 no_segment] assms
  by (auto simp: cwk_path_get_first_segment_joined_def split_beta)

lemma root_equal:
  assumes "nonul p" "nonul q"
  shows "cwk_path_is_string_equal UNIX p 0 q 0 (cwk_path_get_root UNIX p) (cwk_path_get_root UNIX q) \<longleftrightarrow>
    cwk_path_get_root UNIX p = cwk_path_get_root UNIX q"
  by (cases p; cases q) (auto simp: cwk_path_is_string_equal_def strneq_take assms root_unix char_at_def)

lemma absolute_unix: "cwk_path_is_absolute UNIX p \<longleftrightarrow> p \<noteq> [] \<and> hd p = SL"
  by (cases p) (auto simp: cwk_path_is_absolute_def cwk_path_is_root_absolute_def root_unix sep_unix)

lemma intersection_eq:
  assumes ts: "plain ts" "names ts" "\<forall>t \<in> set ts. nonul t" and d: "nonul d"
  defines "c \<equiv> cwk_path_get_intersection UNIX (abs_path ts) d"
  shows "cwk_path_is_absolute UNIX d \<Longrightarrow>
      segs (drop c (abs_path ts)) = drop (common ts (canon [] (segs d))) ts \<and> 0 < c"
    "\<not> cwk_path_is_absolute UNIX d \<Longrightarrow> c = 0"
proof -
  let ?p = "abs_path ts"
  have p: "nonul ?p" "segs ?p = ts" "cwk_path_get_root UNIX ?p = 1"
    using ts by (simp_all add: nonul_abs_path segs_abs_path root_unix abs_path_simps)
  have drop1: "segs (drop 1 ?p) = ts" using ts(2) unfolding abs_path_simps by (rule segs_add_segs)
  show "c = 0" if "\<not> cwk_path_is_absolute UNIX d"
  proof -
    have "cwk_path_get_root UNIX d = 0" using that by (auto simp: absolute_unix root_unix)
    then have "\<not> cwk_path_is_string_equal UNIX ?p 0 d 0 (cwk_path_get_root UNIX ?p) (cwk_path_get_root UNIX d)"
      using root_equal [OF p(1) d] p(3) by simp
    then show ?thesis unfolding c_def cwk_path_get_intersection_def Let_def by (simp only: not_False_eq_True if_True)
  qed
  assume a: "cwk_path_is_absolute UNIX d"
  then have eq: "cwk_path_is_string_equal UNIX ?p 0 d 0 1 (cwk_path_get_root UNIX d)"
    using root_equal [OF p(1) d] p(3) by (simp add: absolute_unix root_unix)
  have abs: "cwk_path_is_root_absolute UNIX ?p 1"
    by (simp add: cwk_path_is_root_absolute_def sep_unix abs_path_def)
  show "segs (drop c ?p) = drop (common ts (canon [] (segs d))) ts \<and> 0 < c"
  proof (cases "ts = [] \<or> segs d = []")
    case True
    then have "fst (cwk_path_get_first_segment_joined UNIX [?p]) = False \<or>
        fst (cwk_path_get_first_segment_joined UNIX [d]) = False"
      using first_no_segment [OF p(1)] first_no_segment [OF d] p(2) by auto
    then have "c = 1" using eq p(3) by (auto simp: c_def cwk_path_get_intersection_def split_beta Let_def)
    moreover have "common ts (canon [] (segs d)) = 0" using True by (cases ts) auto
    ultimately show ?thesis using drop1 by simp
  next
    case False
    obtain base where b: "cwk_path_get_first_segment_joined UNIX [?p] = (True, base)" "on_path ?p base"
      "sj_all base = ts" using first_on_path [OF p(1)] p(2) False by auto
    obtain other where o: "cwk_path_get_first_segment_joined UNIX [d] = (True, other)" "on_path d other"
      "sj_all other = segs d" using first_on_path [OF d] False by auto
    have "c = intersection_loop UNIX True base other 1"
      using eq p(3) b(1) o(1) abs by (simp add: c_def cwk_path_get_intersection_def Let_def)
    then show ?thesis
      using intersection_loop_eq [OF b(2) o(2), of 1] drop1 ts(1) b(3) o(3) by (simp add: kept_canon)
  qed
qed

text \<open>The chosen mapping.\<close>

lemma map_loop_some:
  assumes "map_loop path maps best = (Some h, c)"
  shows "best = (Some h, c) \<or> (\<exists>m \<in> set maps. \<exists>eq. find_eq m = Some eq \<and> h = drop (eq + 1) m \<and>
    c = cwk_path_get_intersection UNIX path (map_box_dir m eq) \<and> c > 0)"
  using assms
proof (induction path maps best rule: map_loop.induct)
  case (2 path m maps hd cm)
  show ?case
  proof (cases "find_eq m")
    case None
    then show ?thesis using 2 by auto
  next
    case (Some eq)
    let ?c = "cwk_path_get_intersection UNIX path (map_box_dir m eq)"
    show ?thesis
    proof (cases "?c > cm")
      case True
      then have "map_loop path maps (Some (drop (eq + 1) m), ?c) = (Some h, c)"
        using "2.prems" Some by (simp add: Let_def)
      from "2.IH"(2) [OF Some refl True this] True Some show ?thesis by auto
    next
      case False
      then have "map_loop path maps (hd, cm) = (Some h, c)" using "2.prems" Some by (simp add: Let_def)
      from "2.IH"(3) [OF Some refl False this] show ?thesis by auto
    qed
  qed
qed auto

lemma join_loop_pos: "pos \<le> snd (snd (join_loop UNIX a sj has buf pos))"
proof (induction "left_ahead sj" arbitrary: sj has buf pos rule: less_induct)
  case less
  show ?case
  proof (cases "cwk_path_get_next_segment_joined UNIX sj")
    case None
    then show ?thesis by (subst join_loop.simps) (simp add: split_beta Let_def)
  next
    case (Some sj')
    note ih = less.hyps [OF next_joined_left [OF Some]]
    show ?thesis by (subst join_loop.simps) (auto simp: split_beta Let_def Some intro!: order_trans [OF _ ih])
  qed
qed

lemma join_total: "\<exists>r. cwk_path_join_and_normalize_multiple UNIX ps buf = Some r"
proof (cases "cwk_path_get_root UNIX (ps ! 0) = 0")
  case True
  then have "\<not> cwk_path_is_root_absolute UNIX (ps ! 0) (cwk_path_get_root UNIX (ps ! 0))"
    by (simp add: cwk_path_is_root_absolute_def)
  then show ?thesis by (simp add: cwk_path_join_and_normalize_multiple_def split_beta Let_def)
next
  case False
  then have neq: "snd (snd (join_loop UNIX a sj has b (cwk_path_get_root UNIX (ps ! 0)))) \<noteq> 0" for a sj has b
    using join_loop_pos [of "cwk_path_get_root UNIX (ps ! 0)" a sj has b] by linarith
  show ?thesis by (simp add: cwk_path_join_and_normalize_multiple_def split_beta Let_def neq)
qed

lemma canon_append: "plain ys \<Longrightarrow> canon acc (xs @ ys) = canon acc xs @ ys"
  by (induction acc xs rule: canon.induct) (auto simp: canon_id plain_def)

subsection \<open>Confinement\<close>

text \<open>The names a sandbox path stands for, from its root, and the parts of a mapping.\<close>

definition sandbox_names :: "string \<Rightarrow> string \<Rightarrow> string list" where
  "sandbox_names cwd path =
     canon [] (if cwk_path_is_absolute UNIX path then segs path else segs cwd @ segs path)"

text \<open>The host path for sandbox names under the mapping of \<open>box\<close> to \<open>host\<close>.\<close>

definition host_target :: "string list \<Rightarrow> string \<Rightarrow> string \<Rightarrow> string" where
  "host_target ts box host =
     abs_path (canon [] (segs host) @ drop (common ts (canon [] (segs box))) ts)"

lemma normalize_eq:
  assumes "nonul p" "cwk_path_is_absolute UNIX p" "length (abs_path (canon [] (segs p))) < length buf"
  shows "\<exists>b n. cwk_path_normalize UNIX p buf = Some (b, n) \<and> cstr b = abs_path (canon [] (segs p))"
  using normalize_multiple_eq [of p "[]" buf] assms
  by (auto simp: cwk_path_normalize_def absolute_unix)

lemma join_eq:
  assumes "nonul a" "nonul b" "cwk_path_is_absolute UNIX a"
  shows "\<exists>r n. cwk_path_join UNIX a b buf = Some (r, n) \<and>
    (0 < length buf \<longrightarrow> cstr r = take (length buf - 1) (abs_path (canon [] (segs a @ segs b))))"
  using normalize_multiple_eq [of a "[b]" buf] assms
  by (auto simp: cwk_path_join_def absolute_unix)

lemma normalized_names:
  assumes "nonul cwd" "nonul path"
  shows "plain (sandbox_names cwd path)" "names (sandbox_names cwd path)"
    "\<forall>t \<in> set (sandbox_names cwd path). nonul t"
proof -
  let ?l = "if cwk_path_is_absolute UNIX path then segs path else segs cwd @ segs path"
  have n: "names ?l" using names_segs [of path] names_segs [of cwd] by (auto simp: names_def)
  then show "names (sandbox_names cwd path)" unfolding sandbox_names_def by (rule canon_names)
  show "plain (sandbox_names cwd path)" unfolding sandbox_names_def by (rule canon_plain)
  show "\<forall>t \<in> set (sandbox_names cwd path). nonul t"
    using canon_set [of "[]" ?l] nonul_segs [OF assms(1)] nonul_segs [OF assms(2)]
    unfolding sandbox_names_def by (auto split: if_splits)
qed

text \<open>The first two steps: the path becomes the absolute path of its names.\<close>

lemma resolve_normalized:
  assumes nn: "nonul cwd" "nonul path"
    and abs: "cwk_path_is_absolute UNIX path \<or> cwk_path_is_absolute UNIX cwd"
    and fits: "length (abs_path (sandbox_names cwd path)) < FILENAME_MAX"
  defines "ts \<equiv> sandbox_names cwd path"
  shows "\<exists>p b n. (if \<not> cwk_path_is_absolute UNIX path
              then map_option (\<lambda>(b, _). cstr b) (cwk_path_join UNIX cwd path local_buffer)
              else Some path) = Some p \<and>
    cwk_path_normalize UNIX p local_buffer = Some (b, n) \<and> cstr b = abs_path ts"
proof (cases "cwk_path_is_absolute UNIX path")
  case True
  then have ts: "ts = canon [] (segs path)" by (simp add: ts_def sandbox_names_def)
  from normalize_eq [OF nn(2) True, of local_buffer] fits True ts show ?thesis
    by (auto simp: local_buffer_def ts_def)
next
  case False
  then have ts: "ts = canon [] (segs cwd @ segs path)" and a: "cwk_path_is_absolute UNIX cwd"
    using abs by (auto simp: ts_def sandbox_names_def)
  have len: "length (abs_path ts) < length local_buffer" using fits by (simp add: local_buffer_def ts_def)
  have pr: "plain ts" "names ts" "\<forall>t \<in> set ts. nonul t" using normalized_names [OF nn] by (simp_all add: ts_def)
  from join_eq [OF nn a, of local_buffer] obtain r n where
    j: "cwk_path_join UNIX cwd path local_buffer = Some (r, n)"
    "0 < length local_buffer \<longrightarrow> cstr r = take (length local_buffer - 1) (abs_path ts)" unfolding ts by blast
  have "local_buffer \<noteq> []" by (simp add: local_buffer_def FILENAME_MAX_def)
  then have r: "cstr r = abs_path ts" using len j(2) by simp
  have seg: "segs (abs_path ts) = ts" using pr(2) by (rule segs_abs_path)
  have "canon [] ts = ts" using pr(1) by (simp add: canon_id plain_def)
  then have "\<exists>b n. cwk_path_normalize UNIX (abs_path ts) local_buffer = Some (b, n) \<and> cstr b = abs_path ts"
    using normalize_eq [of "abs_path ts" local_buffer] pr(3) len seg
    by (simp add: nonul_abs_path absolute_unix abs_path_simps)
  then show ?thesis using False j(1) r by simp
qed

lemma path_resolve_eq:
  assumes nn: "nonul cwd" "nonul path" "\<forall>m \<in> set maps. nonul m"
    and abs: "cwk_path_is_absolute UNIX path \<or> cwk_path_is_absolute UNIX cwd"
    and fits: "length (abs_path (sandbox_names cwd path)) < FILENAME_MAX"
  shows "\<exists>r. path_resolve cwd (Some maps) path buf = Some r \<and>
    (\<forall>h. r = Some h \<longrightarrow> (\<exists>m \<in> set maps. \<exists>eq. find_eq m = Some eq \<and>
       (cwk_path_is_absolute UNIX (drop (eq + 1) m) \<longrightarrow>
         h = take (length buf - 1)
           (host_target (sandbox_names cwd path) (map_box_dir m eq) (drop (eq + 1) m)))))"
proof -
  let ?ts = "sandbox_names cwd path"
  obtain p b n where st: "(if \<not> cwk_path_is_absolute UNIX path
              then map_option (\<lambda>(b, _). cstr b) (cwk_path_join UNIX cwd path local_buffer)
              else Some path) = Some p"
    "cwk_path_normalize UNIX p local_buffer = Some (b, n)" "cstr b = abs_path ?ts"
    using resolve_normalized [OF nn(1,2) abs fits] by blast
  note pr = normalized_names [OF nn(1,2)]
  obtain hd c where ml: "map_loop (abs_path ?ts) maps (None, 0) = (hd, c)" by fastforce
  have run: "path_resolve cwd (Some maps) path buf =
      (case hd of None \<Rightarrow> Some None
       | Some h \<Rightarrow> if c \<ge> length buf then Some None
           else cwk_path_join UNIX h (drop c (abs_path ?ts)) buf \<bind> (\<lambda>(b, _). Some (Some (cstr b))))"
    unfolding path_resolve_def by (subst st(1)) (simp add: st(2,3) ml split: option.split)
  show ?thesis
  proof (cases "hd = None \<or> c \<ge> length buf")
    case True
    then show ?thesis unfolding run by (auto split: option.split)
  next
    case False
    then obtain h where h: "hd = Some h" "c < length buf" by auto
    from map_loop_some [OF ml [unfolded h(1)]] obtain m eq where m: "m \<in> set maps" "find_eq m = Some eq"
      "h = drop (eq + 1) m" "c = cwk_path_get_intersection UNIX (abs_path ?ts) (map_box_dir m eq)" "c > 0" by auto
    have mn: "nonul (map_box_dir m eq)" "nonul h"
      using nn(3) m(1,3) by (auto simp: map_box_dir_def nonul_def dest: in_set_takeD in_set_dropD)
    obtain r k where j: "cwk_path_join UNIX h (drop c (abs_path ?ts)) buf = Some (r, k)"
      using join_total [of "[h, drop c (abs_path ?ts)]" buf] unfolding cwk_path_join_def by auto
    have "cstr r = take (length buf - 1) (host_target ?ts (map_box_dir m eq) h)"
      if a: "cwk_path_is_absolute UNIX h"
    proof -
      have "cwk_path_is_absolute UNIX (map_box_dir m eq)"
        using intersection_eq(2) [OF pr mn(1)] m(4,5) by (metis less_numeral_extra(3))
      from intersection_eq(1) [OF pr mn(1) this]
      have seg: "segs (drop c (abs_path ?ts)) = drop (common ?ts (canon [] (segs (map_box_dir m eq)))) ?ts"
        by (simp add: m(4))
      have nd: "nonul (drop c (abs_path ?ts))"
        using pr(3) nonul_abs_path [of ?ts] by (auto simp: nonul_def dest: in_set_dropD)
      have "plain (drop k ?ts)" for k using pr(1) by (auto simp: plain_def dest: in_set_dropD)
      then have "canon [] (segs h @ segs (drop c (abs_path ?ts))) =
          canon [] (segs h) @ drop (common ?ts (canon [] (segs (map_box_dir m eq)))) ?ts"
        unfolding seg by (rule canon_append)
      then show ?thesis using join_eq [OF mn(2) nd a, of buf] j h(2) by (cases buf) (simp_all add: host_target_def)
    qed
    then show ?thesis unfolding run using h j m by auto
  qed
qed

text \<open>C18: \<^verbatim>\<open>cwk_path_normalize\<close> computes the canonical path. For an absolute path and a buffer
  that is large enough, it writes the slash-separated names that a stack machine computes
  from the segments (\<open>..\<close> drops the last name, \<open>.\<close> is nothing); the result has no \<open>.\<close> and no
  \<open>..\<close> segment, and normalizing it again gives the same path.\<close>

theorem normalize_canonical:
  assumes "nonul p" "cwk_path_is_absolute UNIX p"
    and "length (abs_path (canon [] (segs p))) < length buf" "length buf' = length buf"
  shows "\<exists>b n. cwk_path_normalize UNIX p buf = Some (b, n) \<and> cstr b = abs_path (canon [] (segs p)) \<and>
    segs (cstr b) = canon [] (segs p) \<and> plain (segs (cstr b)) \<and>
    map_option (\<lambda>(b', _). cstr b') (cwk_path_normalize UNIX (cstr b) buf') = Some (cstr b)"
proof -
  let ?ts = "canon [] (segs p)"
  have pl: "plain ?ts" "names ?ts" by (rule canon_plain, rule canon_names, rule names_segs)
  then have s: "segs (abs_path ?ts) = ?ts" "canon [] ?ts = ?ts"
    by (simp_all add: segs_abs_path canon_id plain_def)
  have "nonul (abs_path ?ts)"
    using canon_set [of "[]" "segs p"] nonul_segs [OF assms(1)] by (auto simp: nonul_abs_path)
  then have "\<exists>b n. cwk_path_normalize UNIX (abs_path ?ts) buf' = Some (b, n) \<and> cstr b = abs_path ?ts"
    using normalize_eq [of "abs_path ?ts" buf'] assms(3,4) s by (simp add: absolute_unix abs_path_simps)
  moreover obtain b n where "cwk_path_normalize UNIX p buf = Some (b, n)" "cstr b = abs_path ?ts"
    using normalize_eq [OF assms(1-3)] by blast
  ultimately show ?thesis using s pl by auto
qed

theorem normalize_canonical_witness:
  "\<exists>b n. cwk_path_normalize UNIX ''/a//b/../c/./..'' (replicate 20 NUL) = Some (b, n) \<and> cstr b = ''/a''"
proof -
  have s: "segs ''/a//b/../c/./..'' = [''a'', ''b'', ''..'', ''c'', ''.'', ''..'']" by (simp add: segs.simps)
  have "nonul ''/a//b/../c/./..''" "cwk_path_is_absolute UNIX ''/a//b/../c/./..''"
    by (simp_all add: nonul_def absolute_unix)
  note n = normalize_canonical [OF this, of "replicate 20 NUL" "replicate 20 NUL"]
  have "canon [] (segs ''/a//b/../c/./..'') = [''a'']" unfolding s by simp
  then have c: "abs_path (canon [] (segs ''/a//b/../c/./..'')) = ''/a''" by (simp only: abs_path_def add_segs.simps) simp
  have "length ''/a'' < length (replicate 20 NUL)" by simp
  from n [unfolded c, OF this refl] show ?thesis by blast
qed



text \<open>C37: a mapping also applies to paths outside its sandbox directory. The match of a mapping
  is the common part of the path and its directory, and a partial match is enough: with the
  single mapping of \<open>/work\<close> to \<open>/home/u\<close>, the unmapped path \<open>/etc\<close> resolves to
  \<open>/home/u/etc\<close>.\<close>

theorem partial_match_resolves:
  "path_resolve [] (Some [''/work=/home/u'']) ''/etc'' (replicate 64 NUL) = Some (Some ''/home/u/etc'')"
proof -
  have s: "segs ''/etc'' = [''etc'']" "segs ''/work'' = [''work'']" "segs ''/home/u'' = [''home'', ''u'']"
    by (simp_all add: segs.simps)
  have p: "abs_path [''etc''] = ''/etc''" by (simp add: abs_path_def)
  have a: "cwk_path_is_absolute UNIX ''/etc''" "cwk_path_is_absolute UNIX ''/work''"
    "cwk_path_is_absolute UNIX ''/home/u''" by (simp_all add: absolute_unix)
  have nn: "nonul ''/etc''" "nonul ''/work''" "nonul ''/home/u''" by (simp_all add: nonul_def)
  have "length (abs_path (canon [] (segs ''/etc''))) < length local_buffer"
    unfolding s by (simp add: p local_buffer_def FILENAME_MAX_def)
  from normalize_eq [OF nn(1) a(1) this] obtain b n where
    b: "cwk_path_normalize UNIX ''/etc'' local_buffer = Some (b, n)" "cstr b = ''/etc''"
    unfolding s by (auto simp: p)
  have dir: "find_eq ''/work=/home/u'' = Some 5" "map_box_dir ''/work=/home/u'' 5 = ''/work''"
    by (simp_all add: map_box_dir_def FILENAME_MAX_def)
  let ?c = "cwk_path_get_intersection UNIX ''/etc'' ''/work''"
  have "plain [''etc'']" "names [''etc'']" "\<forall>t \<in> set [''etc'']. nonul t"
    by (simp_all add: plain_def names_def nonul_def)
  from intersection_eq(1) [OF this nn(2) a(2)] have
    c: "segs (drop ?c ''/etc'') = [''etc'']" "0 < ?c" unfolding p s by simp_all
  have "?c < 64"
  proof (rule ccontr)
    assume "\<not> ?c < 64"
    then have "drop ?c ''/etc'' = []" by simp
    then show False using c(1) by simp
  qed
  moreover have "map_loop ''/etc'' [''/work=/home/u''] (None, 0) = (Some ''/home/u'', ?c)"
    using c(2) by (simp add: dir Let_def del: find_eq.simps)
  moreover have "nonul (drop ?c ''/etc'')" using nn(1) by (auto simp: nonul_def dest: in_set_dropD)
  from join_eq [OF nn(3) this a(3), of "replicate 64 NUL"] obtain r k where
    "cwk_path_join UNIX ''/home/u'' (drop ?c ''/etc'') (replicate 64 NUL) = Some (r, k)"
    "cstr r = ''/home/u/etc''" unfolding c(1) s by (auto simp: abs_path_def)
  ultimately show ?thesis unfolding path_resolve_def using a(1) b by simp
qed

end
