(* ===== verification/Callback.thy ===== *)
theory Callback
  imports BoxSafety
begin

text \<open>
  Callbacks from a sandbox to host functions, \<^verbatim>\<open>core/arch/*/callback.c\<close>: a table of 4096
  slots, each with a code entry in the sandbox that jumps to a trampoline with the target the
  host wrote through its own mapping of the entries.
\<close>

subsection \<open>Tables\<close>

definition MAXCALLBACKS :: nat where "MAXCALLBACKS = 4096"

text \<open>An entry as the host's alias mapping shows it; on arm64 the code is in another region.\<close>

record cb_entry =
  ce_code :: "u8 list"
  ce_target :: u64
  ce_trampoline :: u64

text \<open>
  The callback state of a box: \<open>cb_alias\<close> is \<^verbatim>\<open>cbentries_alias\<close> (\<^verbatim>\<open>dataentries_alias\<close> on
  arm64), \<open>cb_code\<close> the address of the code entries in the sandbox, \<open>cb_fns\<close> is
  \<^verbatim>\<open>box->callbacks\<close> with 0 for a free slot.
\<close>

record cb_table =
  cb_alias :: "cb_entry list option"
  cb_code :: "u64 option"
  cb_fns :: "u64 list"

definition cb_empty :: cb_table where
  "cb_empty = \<lparr>cb_alias = None, cb_code = None, cb_fns = replicate MAXCALLBACKS 0\<rparr>"

text \<open>Which of the host calls of \<^verbatim>\<open>init_cb\<close> succeed, and the descriptor of the memory file.\<close>

record cb_env =
  ce_memfd :: bool
  ce_truncate :: bool
  ce_map :: bool
  ce_fd :: u32

text \<open>The loop over the slots: the first one whose function satisfies \<open>p\<close>.\<close>

fun cb_scan :: "(u64 \<Rightarrow> bool) \<Rightarrow> u64 list \<Rightarrow> nat \<Rightarrow> nat option" where
  "cb_scan p [] i = None"
| "cb_scan p (f # fs) i = (if p f then Some i else cb_scan p fs (i + 1))"

definition cbfreeslot :: "cb_table \<Rightarrow> nat option" where
  "cbfreeslot t = cb_scan (\<lambda>f. f = 0) (cb_fns t) 0"

definition cbfind :: "cb_table \<Rightarrow> u64 \<Rightarrow> nat option" where
  "cbfind t fn = cb_scan (\<lambda>f. f = fn) (cb_fns t) 0"

subsection \<open>Initialization\<close>

definition cbentry_code :: "u8 list" where
  "cbentry_code = [0x4c, 0x8b, 0x15, 0x09, 0x00, 0x00, 0x00,
                   0xff, 0x25, 0x0b, 0x00, 0x00, 0x00,
                   0x0f, 0x1f, 0x00]"

definition init_cb_x64 ::
  "host_env \<Rightarrow> cb_env \<Rightarrow> cb_table \<times> lfi_box \<times> vm \<Rightarrow> (bool \<times> cb_table \<times> lfi_box \<times> vm) run" where
  "init_cb_x64 e ce s = (case s of (t, b, m) \<Rightarrow>
     if \<not> ce_memfd ce then Some (False, t, b, m)
     else if \<not> ce_truncate ce then Some (False, t, b, m)
     else if \<not> ce_map ce then Some (False, t, b, m)
     else do {
       let t = t\<lparr>cb_alias := Some (replicate MAXCALLBACKS
                   \<lparr>ce_code = cbentry_code, ce_target = 0, ce_trampoline = 0\<rparr>)\<rparr>;
       (boxmap, b, m) \<leftarrow> box_mapany_locked e (of_nat MAXCALLBACKS * 32) (LFI_PROT_READ OR LFI_PROT_EXEC)
                           LFI_MAP_SHARED (ce_fd ce) 0 True (b, m);
       if boxmap = -1 then Some (False, t\<lparr>cb_alias := None\<rparr>, b, m)
       else Some (True, t\<lparr>cb_code := Some boxmap\<rparr>, b, m)
     })"

definition LDRLIT :: "u32 \<Rightarrow> u32 \<Rightarrow> u32" where
  "LDRLIT reg lit = push_bit 24 0x58 OR push_bit 5 (drop_bit 2 lit) OR reg"

text \<open>A 32-bit instruction as bytes, the lowest first.\<close>

definition bytes32 :: "u32 \<Rightarrow> u8 list" where
  "bytes32 w = [ucast w, ucast (drop_bit 8 w), ucast (drop_bit 16 w), ucast (drop_bit 24 w)]"

definition cbtrampoline :: "u8 list" where
  "cbtrampoline = concat (map bytes32
     [LDRLIT 27 (of_nat (MAXCALLBACKS * 16)), LDRLIT 28 (of_nat (4 + MAXCALLBACKS * 16)),
      0xd61f0380, 0xd503201f])"

fun copy_entries :: "lfi_box \<Rightarrow> u64 \<Rightarrow> nat \<Rightarrow> vm \<Rightarrow> vm run" where
  "copy_entries b p 0 m = Some m"
| "copy_entries b p (Suc n) m = lfi_box_copyto b p cbtrampoline m \<bind> copy_entries b (p + 16) n"

text \<open>The error exit that gives the code and data region back.\<close>

definition cb_undo ::
  "host_env \<Rightarrow> u64 \<Rightarrow> u64 \<Rightarrow> cb_table \<Rightarrow> lfi_box \<times> vm \<Rightarrow> bool \<times> cb_table \<times> lfi_box \<times> vm" where
  "cb_undo e codemap sz t bm =
     (False, t\<lparr>cb_alias := None\<rparr>, snd (box_munmap_locked e codemap sz bm))"

definition init_cb_arm64 ::
  "host_env \<Rightarrow> cb_env \<Rightarrow> cb_table \<times> lfi_box \<times> vm \<Rightarrow> (bool \<times> cb_table \<times> lfi_box \<times> vm) run" where
  "init_cb_arm64 e ce s = (case s of (t, b, m) \<Rightarrow>
     if \<not> ce_memfd ce then Some (False, t, b, m)
     else if \<not> ce_truncate ce then Some (False, t, b, m)
     else if \<not> ce_map ce then Some (False, t, b, m)
     else do {
       let half = of_nat (MAXCALLBACKS * 16);
       let sz = 2 * half;
       let t = t\<lparr>cb_alias := Some (replicate MAXCALLBACKS
                   \<lparr>ce_code = [], ce_target = 0, ce_trampoline = 0\<rparr>)\<rparr>;
       (codemap, b, m) \<leftarrow> box_mapany_locked e sz (LFI_PROT_READ OR LFI_PROT_WRITE)
                            (LFI_MAP_ANONYMOUS OR LFI_MAP_PRIVATE) (-1) 0 False (b, m);
       if codemap = -1 then Some (False, t\<lparr>cb_alias := None\<rparr>, b, m)
       else do {
         m \<leftarrow> copy_entries b codemap MAXCALLBACKS m;
         let (r, b, m) = box_mprotect_locked e codemap half (LFI_PROT_READ OR LFI_PROT_EXEC) True (b, m);
         if r = -1 then Some (cb_undo e codemap sz t (b, m))
         else do {
           (boxmap, b, m) \<leftarrow> box_mapat_locked e (codemap + half) half LFI_PROT_READ LFI_MAP_SHARED
                               (ce_fd ce) 0 (b, m);
           if boxmap = -1 then Some (cb_undo e codemap sz t (b, m))
           else Some (True, t\<lparr>cb_code := Some codemap\<rparr>, b, m)
         }
       }
     })"

subsection \<open>Registration\<close>

text \<open>
  The part of \<^verbatim>\<open>register_cb\<close> after the initialization; \<open>sz\<close> is the size of a code entry. A write
  through a missing alias mapping, or a null function, is \<open>None\<close>.
\<close>

definition register_slot :: "u64 \<Rightarrow> u64 \<Rightarrow> u64 \<Rightarrow> cb_table \<Rightarrow> (u64 option \<times> cb_table) run" where
  "register_slot sz fn tramp t = do {
     check (fn \<noteq> 0);
     code \<leftarrow> cb_code t;
     case cbfind t fn of
       Some slot \<Rightarrow> Some (Some (code + of_nat slot * sz), t)
     | None \<Rightarrow>
         (case cbfreeslot t of
            None \<Rightarrow> Some (None, t)
          | Some slot \<Rightarrow> do {
              es \<leftarrow> cb_alias t;
              let es = es[slot := (es ! slot)\<lparr>ce_target := fn, ce_trampoline := tramp\<rparr>];
              Some (Some (code + of_nat slot * sz),
                t\<lparr>cb_alias := Some es, cb_fns := (cb_fns t)[slot := fn]\<rparr>)
            })
   }"

definition register_cb_x64 ::
  "host_env \<Rightarrow> cb_env \<Rightarrow> u64 \<Rightarrow> u64 \<Rightarrow> cb_table \<times> lfi_box \<times> vm \<Rightarrow>
   (u64 option \<times> cb_table \<times> lfi_box \<times> vm) run" where
  "register_cb_x64 e ce fn tramp s = do {
     (ok, t, b, m) \<leftarrow> (if cb_code (fst s) = None then init_cb_x64 e ce s else Some (True, s));
     if \<not> ok then Some (None, t, b, m)
     else do { (r, t) \<leftarrow> register_slot 32 fn tramp t; Some (r, t, b, m) }
   }"

definition register_cb_arm64 ::
  "host_env \<Rightarrow> cb_env \<Rightarrow> u64 \<Rightarrow> u64 \<Rightarrow> cb_table \<times> lfi_box \<times> vm \<Rightarrow>
   (u64 option \<times> cb_table \<times> lfi_box \<times> vm) run" where
  "register_cb_arm64 e ce fn tramp s = do {
     (ok, t, b, m) \<leftarrow> (if cb_code (fst s) = None then init_cb_arm64 e ce s else Some (True, s));
     if \<not> ok then Some (None, t, b, m)
     else do { (r, t) \<leftarrow> register_slot 16 fn tramp t; Some (r, t, b, m) }
   }"

definition lfi_box_unregister_cb :: "u64 \<Rightarrow> cb_table \<Rightarrow> cb_table run" where
  "lfi_box_unregister_cb fn t =
     (case cbfind t fn of
        None \<Rightarrow> Some t
      | Some slot \<Rightarrow> do {
          es \<leftarrow> cb_alias t;
          Some (t\<lparr>cb_fns := (cb_fns t)[slot := 0],
                  cb_alias := Some (es[slot := (es ! slot)\<lparr>ce_target := 0, ce_trampoline := 0\<rparr>])\<rparr>)
        })"

text \<open>The alias mapping that the end of a box gives back to the host, if there is one.\<close>

definition lfi_box_cb_free :: "cb_table \<Rightarrow> cb_entry list option" where
  "lfi_box_cb_free t = cb_alias t"

subsection \<open>The table invariant\<close>

lemma cb_scan_Some:
  "cb_scan p fs i = Some k \<Longrightarrow> i \<le> k \<and> k < i + length fs \<and> p (fs ! (k - i))"
proof (induction p fs i rule: cb_scan.induct)
  case (2 p f fs i)
  show ?case
  proof (cases "p f")
    case False
    then have "i + 1 \<le> k \<and> k < i + 1 + length fs \<and> p (fs ! (k - (i + 1)))"
      using "2.IH" "2.prems" by simp
    then show ?thesis by (simp add: nth_Cons' Suc_diff_le)
  qed (use "2.prems" in simp)
qed simp

lemma cb_scan_None: "cb_scan p fs i = None \<longleftrightarrow> (\<forall>f \<in> set fs. \<not> p f)"
  by (induction p fs i rule: cb_scan.induct) auto

text \<open>
  Live functions are distinct; a live slot's entry holds its function and a trampoline, a
  free slot's entry holds zeros; without entries no slot is live.
\<close>

definition cb_inv :: "cb_table \<Rightarrow> bool" where
  "cb_inv t \<longleftrightarrow> length (cb_fns t) = MAXCALLBACKS \<and>
     (\<forall>i < MAXCALLBACKS. \<forall>j < MAXCALLBACKS. cb_fns t ! i = cb_fns t ! j \<and> cb_fns t ! i \<noteq> 0 \<longrightarrow> i = j) \<and>
     (cb_code t \<noteq> None \<longrightarrow> cb_alias t \<noteq> None) \<and>
     (case cb_alias t of
        None \<Rightarrow> \<forall>i < MAXCALLBACKS. cb_fns t ! i = 0
      | Some es \<Rightarrow> length es = MAXCALLBACKS \<and> (\<forall>i < MAXCALLBACKS.
          ce_target (es ! i) = cb_fns t ! i \<and> (ce_trampoline (es ! i) = 0 \<longleftrightarrow> cb_fns t ! i = 0)))"

lemma cbfind_Some:
  "cb_inv t \<Longrightarrow> cbfind t fn = Some k \<Longrightarrow> k < MAXCALLBACKS \<and> cb_fns t ! k = fn"
  using cb_scan_Some [of "\<lambda>f. f = fn" "cb_fns t" 0 k] by (simp add: cbfind_def cb_inv_def)

lemma cbfreeslot_Some:
  "cb_inv t \<Longrightarrow> cbfreeslot t = Some k \<Longrightarrow> k < MAXCALLBACKS \<and> cb_fns t ! k = 0"
  using cb_scan_Some [of "\<lambda>f. f = 0" "cb_fns t" 0 k] by (simp add: cbfreeslot_def cb_inv_def)

lemma cb_inv_len: "cb_inv t \<Longrightarrow> length (cb_fns t) = MAXCALLBACKS"
  by (simp add: cb_inv_def)

lemma cbfind_None:
  "cb_inv t \<Longrightarrow> cbfind t fn = None \<longleftrightarrow> (\<forall>i < MAXCALLBACKS. cb_fns t ! i \<noteq> fn)"
  by (simp add: cbfind_def cb_scan_None all_set_conv_all_nth cb_inv_len)

lemma cbfreeslot_None:
  "cb_inv t \<Longrightarrow> cbfreeslot t = None \<longleftrightarrow> (\<forall>i < MAXCALLBACKS. cb_fns t ! i \<noteq> 0)"
  by (simp add: cbfreeslot_def cb_scan_None all_set_conv_all_nth cb_inv_len)

text \<open>Storing a function, or zero, in a slot together with its entry.\<close>

lemma cb_inv_update:
  assumes inv: "cb_inv t" and es: "cb_alias t = Some es" and k: "k < MAXCALLBACKS"
    and fresh: "fn \<noteq> 0 \<longrightarrow> (\<forall>i < MAXCALLBACKS. cb_fns t ! i \<noteq> fn)" and tr: "tramp = 0 \<longleftrightarrow> fn = 0"
    and t': "t' = t\<lparr>cb_fns := (cb_fns t)[k := fn],
      cb_alias := Some (es[k := (es ! k)\<lparr>ce_target := fn, ce_trampoline := tramp\<rparr>])\<rparr>"
  shows "cb_inv t'"
proof -
  have len: "length (cb_fns t) = MAXCALLBACKS" "length es = MAXCALLBACKS"
    using inv es by (auto simp: cb_inv_def)
  have old: "i = j" if "i < MAXCALLBACKS" "j < MAXCALLBACKS" "cb_fns t ! i = cb_fns t ! j" "cb_fns t ! i \<noteq> 0" for i j
    using inv that unfolding cb_inv_def by blast
  have new: "i = j" if "i < MAXCALLBACKS" "j < MAXCALLBACKS" "cb_fns t' ! i = cb_fns t' ! j" "cb_fns t' ! i \<noteq> 0" for i j
    using that old [of i j] fresh len k unfolding t' by (auto simp: nth_list_update split: if_splits)
  have ents: "ce_target (es ! i) = cb_fns t ! i \<and> (ce_trampoline (es ! i) = 0 \<longleftrightarrow> cb_fns t ! i = 0)"
    if "i < MAXCALLBACKS" for i using inv es that by (simp add: cb_inv_def)
  let ?es = "es[k := (es ! k)\<lparr>ce_target := fn, ce_trampoline := tramp\<rparr>]"
  have al: "cb_alias t' = Some ?es" and fns: "cb_fns t' = (cb_fns t)[k := fn]" by (simp_all add: t')
  have ents': "ce_target (?es ! i) = cb_fns t' ! i \<and> (ce_trampoline (?es ! i) = 0 \<longleftrightarrow> cb_fns t' ! i = 0)"
    if "i < MAXCALLBACKS" for i
    using ents [OF that] tr len k that by (cases "i = k") (simp_all add: fns)
  show ?thesis unfolding cb_inv_def
  proof (intro conjI)
    show "\<forall>i<MAXCALLBACKS. \<forall>j<MAXCALLBACKS. cb_fns t' ! i = cb_fns t' ! j \<and> cb_fns t' ! i \<noteq> 0 \<longrightarrow> i = j"
      using new by (intro allI impI) (erule conjE)
    show "case cb_alias t' of
        None \<Rightarrow> \<forall>i < MAXCALLBACKS. cb_fns t' ! i = 0
      | Some es \<Rightarrow> length es = MAXCALLBACKS \<and> (\<forall>i < MAXCALLBACKS.
          ce_target (es ! i) = cb_fns t' ! i \<and> (ce_trampoline (es ! i) = 0 \<longleftrightarrow> cb_fns t' ! i = 0))"
      unfolding al option.case using len ents' by (intro conjI allI impI) simp_all
  qed (use len al fns in simp_all)
qed

lemma register_slot_inv:
  assumes inv: "cb_inv t" and fn: "fn \<noteq> 0" "tramp \<noteq> 0" and code: "cb_code t = Some code"
  obtains r t' where "register_slot sz fn tramp t = Some (r, t')" "cb_inv t'" "cb_code t' = Some code"
    "case r of
       None \<Rightarrow> t' = t \<and> (\<forall>i < MAXCALLBACKS. cb_fns t ! i \<notin> {0, fn})
     | Some p \<Rightarrow> \<exists>i < MAXCALLBACKS. p = code + of_nat i * sz \<and> cb_fns t' ! i = fn \<and>
         (\<forall>j < MAXCALLBACKS. j \<noteq> i \<longrightarrow> cb_fns t' ! j = cb_fns t ! j) \<and> (cb_fns t ! i = fn \<or> cb_fns t ! i = 0)"
proof (cases "cbfind t fn")
  case (Some k)
  note k = cbfind_Some [OF inv Some]
  have "register_slot sz fn tramp t = Some (Some (code + of_nat k * sz), t)"
    using fn code Some by (simp add: register_slot_def)
  then show ?thesis by (rule that) (use inv code k in auto)
next
  case none: None
  note fresh = cbfind_None [OF inv, THEN iffD1, OF none]
  show ?thesis
  proof (cases "cbfreeslot t")
    case None
    have "register_slot sz fn tramp t = Some (None, t)"
      using fn code none None by (simp add: register_slot_def)
    then show ?thesis
      by (rule that) (use inv code fresh cbfreeslot_None [OF inv, THEN iffD1, OF None] in auto)
  next
    case (Some k)
    note k = cbfreeslot_Some [OF inv Some]
    obtain es where es: "cb_alias t = Some es" using inv code by (auto simp: cb_inv_def)
    have len: "length (cb_fns t) = MAXCALLBACKS" using inv by (simp add: cb_inv_def)
    let ?t = "t\<lparr>cb_alias := Some (es[k := (es ! k)\<lparr>ce_target := fn, ce_trampoline := tramp\<rparr>]),
      cb_fns := (cb_fns t)[k := fn]\<rparr>"
    have "cb_inv ?t" using k fresh fn by (intro cb_inv_update [OF inv es, of k fn tramp]) auto
    moreover have "register_slot sz fn tramp t = Some (Some (code + of_nat k * sz), ?t)"
      using fn code none Some es by (simp add: register_slot_def Let_def)
    ultimately show ?thesis using k code len by (intro that [of "Some (code + of_nat k * sz)" ?t]) auto
  qed
qed

lemma unregister_inv:
  assumes inv: "cb_inv t" and fn: "fn \<noteq> 0"
  obtains t' where "lfi_box_unregister_cb fn t = Some t'" "cb_inv t'" "cb_code t' = cb_code t"
    "\<forall>i < MAXCALLBACKS. cb_fns t' ! i = (if cb_fns t ! i = fn then 0 else cb_fns t ! i)"
proof (cases "cbfind t fn")
  case None
  then have "lfi_box_unregister_cb fn t = Some t" by (simp add: lfi_box_unregister_cb_def)
  then show ?thesis by (rule that) (use inv cbfind_None [OF inv, THEN iffD1, OF None] in auto)
next
  case (Some k)
  note k = cbfind_Some [OF inv Some]
  have uniq: "i = k" if "i < MAXCALLBACKS" "cb_fns t ! i = fn" for i
    using inv that k fn unfolding cb_inv_def by metis
  obtain es where es: "cb_alias t = Some es"
    using inv k fn by (cases "cb_alias t") (auto simp: cb_inv_def)
  have len: "length (cb_fns t) = MAXCALLBACKS" using inv by (simp add: cb_inv_def)
  let ?t = "t\<lparr>cb_fns := (cb_fns t)[k := 0],
    cb_alias := Some (es[k := (es ! k)\<lparr>ce_target := 0, ce_trampoline := 0\<rparr>])\<rparr>"
  have "cb_inv ?t" using k by (intro cb_inv_update [OF inv es, of k 0 0]) auto
  moreover have "lfi_box_unregister_cb fn t = Some ?t" using Some es by (simp add: lfi_box_unregister_cb_def)
  ultimately show ?thesis using uniq k len by (intro that [of ?t]) (auto simp: nth_list_update)
qed

text \<open>Initialization does not touch the slots.\<close>

lemma init_cb_inv:
  assumes inv: "cb_inv t" and b: "box_ok b" and code: "cb_code t = None" and al: "cb_alias t = None"
  obtains ok t' b' m' where "init_cb_x64 e ce (t, b, m) = Some (ok, t', b', m')" "cb_inv t'" "box_ok b'"
    "cb_fns t' = cb_fns t" "keeps (box_page b) m m'" "ok \<longleftrightarrow> cb_code t' \<noteq> None"
    "cb_code t' = None \<longrightarrow> cb_alias t' = None"
proof (cases "ce_memfd ce \<and> ce_truncate ce \<and> ce_map ce")
  case False
  then have "init_cb_x64 e ce (t, b, m) = Some (False, t, b, m)" by (auto simp: init_cb_x64_def)
  then show ?thesis by (rule that) (use inv b code al in auto)
next
  case True
  let ?es = "replicate MAXCALLBACKS \<lparr>ce_code = cbentry_code, ce_target = 0, ce_trampoline = 0\<rparr>"
  obtain r b' m' where r: "box_mapany_locked e (of_nat MAXCALLBACKS * 32) (LFI_PROT_READ OR LFI_PROT_EXEC)
      LFI_MAP_SHARED (ce_fd ce) 0 True (b, m) = Some (r, b', m')" "box_effect e b m b' m'"
    using mapany_effect [OF b] by blast
  note ok = box_effect_ok [OF b r(2)]
  have free: "\<forall>i < MAXCALLBACKS. cb_fns t ! i = 0" using inv al by (simp add: cb_inv_def)
  show ?thesis
  proof (cases "r = -1")
    case fail: True
    have "init_cb_x64 e ce (t, b, m) = Some (False, t\<lparr>cb_alias := None\<rparr>, b', m')"
      using True r(1) fail by (simp add: init_cb_x64_def)
    then show ?thesis by (rule that) (use inv ok code al in \<open>auto simp: cb_inv_def\<close>)
  next
    case False
    have "init_cb_x64 e ce (t, b, m) = Some (True, t\<lparr>cb_alias := Some ?es, cb_code := Some r\<rparr>, b', m')"
      using True r(1) False by (simp add: init_cb_x64_def)
    then show ?thesis by (rule that) (use inv ok free in \<open>auto simp: cb_inv_def\<close>)
  qed
qed

text \<open>The whole registration on x64, and sequences of registrations and removals.\<close>

definition cb_ready :: "cb_table \<times> lfi_box \<times> vm \<Rightarrow> bool" where
  "cb_ready s \<longleftrightarrow> cb_inv (fst s) \<and> box_ok (fst (snd s)) \<and> (cb_code (fst s) = None \<longrightarrow> cb_alias (fst s) = None)"

lemma register_cb_eq:
  assumes s: "cb_ready (t, b, m)" and fn: "fn \<noteq> 0" "tramp \<noteq> 0"
  obtains r t' b' m' where "register_cb_x64 e ce fn tramp (t, b, m) = Some (r, t', b', m')"
    "cb_ready (t', b', m')" "keeps (box_page b) m m'"
    "case r of
       None \<Rightarrow> (\<forall>i < MAXCALLBACKS. cb_fns t' ! i = cb_fns t ! i) \<and>
         (cb_code t' = None \<or> (\<forall>i < MAXCALLBACKS. cb_fns t ! i \<notin> {0, fn}))
     | Some p \<Rightarrow> \<exists>i < MAXCALLBACKS. \<exists>code. cb_code t' = Some code \<and> p = code + of_nat i * 32 \<and>
         cb_fns t' ! i = fn \<and> (cb_fns t ! i = fn \<or> cb_fns t ! i = 0) \<and>
         (\<forall>j < MAXCALLBACKS. j \<noteq> i \<longrightarrow> cb_fns t' ! j = cb_fns t ! j)"
proof -
  have inv: "cb_inv t" and b: "box_ok b" and al: "cb_code t = None \<longrightarrow> cb_alias t = None"
    using s by (simp_all add: cb_ready_def)
  obtain ok t1 b1 m1 where i: "(if cb_code t = None then init_cb_x64 e ce (t, b, m) else Some (True, t, b, m)) =
      Some (ok, t1, b1, m1)" "cb_inv t1" "box_ok b1" "cb_fns t1 = cb_fns t" "keeps (box_page b) m m1"
    "ok \<longleftrightarrow> cb_code t1 \<noteq> None" "cb_code t1 = None \<longrightarrow> cb_alias t1 = None"
  proof (cases "cb_code t")
    case None
    with al have a: "cb_alias t = None" by simp
    show ?thesis by (rule init_cb_inv [OF inv b None a, of e ce m]) (rule that, auto simp: None)
  next
    case (Some code)
    show ?thesis by (rule that [of True t b m]) (use Some inv b in auto)
  qed
  show ?thesis
  proof (cases ok)
    case False
    have "register_cb_x64 e ce fn tramp (t, b, m) = Some (None, t1, b1, m1)"
      using i(1) False by (simp add: register_cb_x64_def)
    then show ?thesis by (rule that) (use i False in \<open>auto simp: cb_ready_def\<close>)
  next
    case True
    then obtain code where code: "cb_code t1 = Some code" using i(6) by blast
    from i(2) fn code show ?thesis
    proof (rule register_slot_inv [where sz = 32])
      fix r t2
      assume r: "register_slot 32 fn tramp t1 = Some (r, t2)" "cb_inv t2" "cb_code t2 = Some code"
        "case r of
           None \<Rightarrow> t2 = t1 \<and> (\<forall>i < MAXCALLBACKS. cb_fns t1 ! i \<notin> {0, fn})
         | Some p \<Rightarrow> \<exists>i < MAXCALLBACKS. p = code + of_nat i * 32 \<and> cb_fns t2 ! i = fn \<and>
             (\<forall>j < MAXCALLBACKS. j \<noteq> i \<longrightarrow> cb_fns t2 ! j = cb_fns t1 ! j) \<and> (cb_fns t1 ! i = fn \<or> cb_fns t1 ! i = 0)"
      have "register_cb_x64 e ce fn tramp (t, b, m) = Some (r, t2, b1, m1)"
        using i(1) True r(1) by (simp add: register_cb_x64_def)
      then show ?thesis
      proof (rule that)
        show "cb_ready (t2, b1, m1)" using r(2,3) i(3) by (simp add: cb_ready_def)
        show "keeps (box_page b) m m1" by (rule i(5))
      qed (use r(3,4) i(4) in \<open>cases r; auto\<close>)
    qed
  qed
qed

datatype cb_op = CbRegister u64 u64 | CbUnregister u64

fun cb_do :: "host_env \<Rightarrow> cb_env \<Rightarrow> cb_op \<Rightarrow> cb_table \<times> lfi_box \<times> vm \<Rightarrow> (cb_table \<times> lfi_box \<times> vm) run" where
  "cb_do e ce (CbRegister fn tramp) s = map_option snd (register_cb_x64 e ce fn tramp s)"
| "cb_do e ce (CbUnregister fn) s = map_option (\<lambda>t. (t, snd s)) (lfi_box_unregister_cb fn (fst s))"

fun cb_dos :: "host_env \<Rightarrow> cb_env \<Rightarrow> cb_op list \<Rightarrow> cb_table \<times> lfi_box \<times> vm \<Rightarrow> (cb_table \<times> lfi_box \<times> vm) run" where
  "cb_dos e ce [] s = Some s"
| "cb_dos e ce (c # cs) s = (cb_do e ce c s \<bind> cb_dos e ce cs)"

fun no_null :: "cb_op \<Rightarrow> bool" where
  "no_null (CbRegister fn tramp) \<longleftrightarrow> fn \<noteq> 0 \<and> tramp \<noteq> 0"
| "no_null (CbUnregister fn) \<longleftrightarrow> fn \<noteq> 0"

lemma cb_do_ready:
  assumes "cb_ready s" "no_null c"
  shows "\<exists>s'. cb_do e ce c s = Some s' \<and> cb_ready s'"
proof (cases c)
  case (CbRegister fn tramp)
  obtain t b m where s: "s = (t, b, m)" by (cases s) auto
  have nn: "fn \<noteq> 0" "tramp \<noteq> 0" using assms(2) CbRegister by simp_all
  show ?thesis by (rule register_cb_eq [OF assms(1) [unfolded s] nn, of e ce]) (simp add: CbRegister s)
next
  case (CbUnregister fn)
  have "cb_inv (fst s)" "fn \<noteq> 0" using assms CbUnregister by (simp_all add: cb_ready_def)
  then show ?thesis
  proof (rule unregister_inv)
    fix t'
    assume t': "lfi_box_unregister_cb fn (fst s) = Some t'" "cb_inv t'" "cb_code t' = cb_code (fst s)"
    have "cb_alias t' = None \<longleftrightarrow> cb_alias (fst s) = None"
      using t'(1) by (auto simp: lfi_box_unregister_cb_def split: option.splits bind_splits)
    then show ?thesis using t' assms(1) by (simp add: CbUnregister cb_ready_def)
  qed
qed

lemma cb_dos_ready: "cb_ready s \<Longrightarrow> \<forall>c \<in> set cs. no_null c \<Longrightarrow> \<exists>s'. cb_dos e ce cs s = Some s' \<and> cb_ready s'"
proof (induction cs arbitrary: s)
  case (Cons c cs)
  have "no_null c" using Cons.prems(2) by simp
  from cb_do_ready [OF Cons.prems(1) this, of e ce]
  obtain s1 where "cb_do e ce c s = Some s1" "cb_ready s1" by blast
  then show ?case using Cons.IH [of s1] Cons.prems(2) by simp
qed simp

text \<open>A registration that finds the function, whatever trampoline it asks for.\<close>

lemma register_again:
  assumes "cb_ready (t, b, m)" "fn \<noteq> 0" "cb_code t = Some code" "i < MAXCALLBACKS" "cb_fns t ! i = fn"
  shows "register_cb_x64 e ce fn tramp (t, b, m) = Some (Some (code + of_nat i * 32), t, b, m)"
proof -
  have inv: "cb_inv t" using assms(1) by (simp add: cb_ready_def)
  obtain k where k: "cbfind t fn = Some k"
    using cbfind_None [OF inv, of fn] assms(4,5) by (cases "cbfind t fn") auto
  have "k = i"
    using cbfind_Some [OF inv k] inv assms(2,4,5) unfolding cb_inv_def by metis
  then show ?thesis using assms k by (simp add: register_cb_x64_def register_slot_def)
qed

subsection \<open>Properties\<close>

text \<open>C14: Whatever sequence of callback registrations and removals of non-null functions a host
  makes on a new box, no operation gets stuck on a null pointer, and at the end every live slot
  holds a different function, a live slot's entry holds that function and a trampoline and a free
  slot's entry holds zeros.\<close>

theorem callback_table_sound:
  assumes "box_ok b" "\<forall>c \<in> set cs. no_null c"
  shows "\<exists>t b' m'. cb_dos e ce cs (cb_empty, b, m) = Some (t, b', m') \<and> cb_inv t \<and> box_ok b'"
proof -
  have "cb_ready (cb_empty, b, m)" using assms(1) by (simp add: cb_ready_def cb_inv_def cb_empty_def)
  from cb_dos_ready [OF this assms(2), of e ce] show ?thesis by (auto simp: cb_ready_def)
qed

lemma callback_table_sound_witness:
  "\<exists>t b' m'. cb_dos demo_env \<lparr>ce_memfd = True, ce_truncate = True, ce_map = True, ce_fd = 5\<rparr>
     [CbRegister 1 2, CbRegister 1 3, CbUnregister 1] (cb_empty, demo_box, demo_vm) = Some (t, b', m') \<and>
     cb_inv t \<and> box_ok b'"
  by (rule callback_table_sound) (simp_all add: demo_box_ok)

text \<open>A table with its entries in place, for the witnesses.\<close>

definition demo_cbs :: cb_table where
  "demo_cbs = cb_empty\<lparr>cb_code := Some 0x20000,
     cb_alias := Some (replicate MAXCALLBACKS \<lparr>ce_code = cbentry_code, ce_target = 0, ce_trampoline = 0\<rparr>)\<rparr>"

lemma demo_cbs_ready: "cb_ready (demo_cbs, demo_box, demo_vm)"
  by (simp add: cb_ready_def cb_inv_def demo_cbs_def cb_empty_def demo_box_ok)

text \<open>Registering a function returns the address of the code entry of one slot, which then
  holds the function and held it or nothing before, and leaves every other slot alone; it fails,
  with no slot changed, only when the entries could not be mapped or when the table is full and
  the function is not in it. It never changes memory outside the box.\<close>

theorem register_cb_spec:
  assumes "cb_ready (t, b, m)" "fn \<noteq> 0" "tramp \<noteq> 0"
  shows "\<exists>r t' b' m'. register_cb_x64 e ce fn tramp (t, b, m) = Some (r, t', b', m') \<and>
     keeps (box_page b) m m' \<and>
     (case r of
        None \<Rightarrow> (\<forall>i < MAXCALLBACKS. cb_fns t' ! i = cb_fns t ! i) \<and>
          (cb_code t' = None \<or> (\<forall>i < MAXCALLBACKS. cb_fns t ! i \<notin> {0, fn}))
      | Some p \<Rightarrow> \<exists>i < MAXCALLBACKS. \<exists>code. cb_code t' = Some code \<and> p = code + of_nat i * 32 \<and>
          cb_fns t' ! i = fn \<and> (cb_fns t ! i = fn \<or> cb_fns t ! i = 0) \<and>
          (\<forall>j < MAXCALLBACKS. j \<noteq> i \<longrightarrow> cb_fns t' ! j = cb_fns t ! j))"
  by (rule register_cb_eq [OF assms]) blast

lemma register_cb_spec_witness:
  "\<exists>r t' b' m'. register_cb_x64 demo_env \<lparr>ce_memfd = True, ce_truncate = True, ce_map = True, ce_fd = 5\<rparr>
       7 9 (demo_cbs, demo_box, demo_vm) = Some (r, t', b', m') \<and>
     keeps (box_page demo_box) demo_vm m' \<and>
     (case r of
        None \<Rightarrow> (\<forall>i < MAXCALLBACKS. cb_fns t' ! i = cb_fns demo_cbs ! i) \<and>
          (cb_code t' = None \<or> (\<forall>i < MAXCALLBACKS. cb_fns demo_cbs ! i \<notin> {0, 7}))
      | Some p \<Rightarrow> \<exists>i < MAXCALLBACKS. \<exists>code. cb_code t' = Some code \<and> p = code + of_nat i * 32 \<and>
          cb_fns t' ! i = 7 \<and> (cb_fns demo_cbs ! i = 7 \<or> cb_fns demo_cbs ! i = 0) \<and>
          (\<forall>j < MAXCALLBACKS. j \<noteq> i \<longrightarrow> cb_fns t' ! j = cb_fns demo_cbs ! j))"
  by (rule register_cb_spec [OF demo_cbs_ready]) simp_all

text \<open>Registering a function again, through the other entry point (a plain callback and then
  a struct-returning one, or the other way round), returns the first entry and leaves the first
  trampoline in it: the second request's calling convention is dropped without an error.\<close>

theorem reregister_keeps_trampoline:
  assumes "cb_ready s" "fn \<noteq> 0" "tramp \<noteq> 0"
    "register_cb_x64 e ce fn tramp s = Some (Some p, s')"
  shows "register_cb_x64 e ce fn tramp' s' = Some (Some p, s')"
proof -
  obtain t b m where s: "s = (t, b, m)" by (cases s) auto
  show ?thesis
  proof (rule register_cb_eq [OF assms(1) [unfolded s] assms(2,3), of e ce])
    fix r t1 b1 m1
    assume r: "register_cb_x64 e ce fn tramp (t, b, m) = Some (r, t1, b1, m1)" "cb_ready (t1, b1, m1)"
      and post: "case r of
       None \<Rightarrow> (\<forall>i < MAXCALLBACKS. cb_fns t1 ! i = cb_fns t ! i) \<and>
         (cb_code t1 = None \<or> (\<forall>i < MAXCALLBACKS. cb_fns t ! i \<notin> {0, fn}))
     | Some p \<Rightarrow> \<exists>i < MAXCALLBACKS. \<exists>code. cb_code t1 = Some code \<and> p = code + of_nat i * 32 \<and>
         cb_fns t1 ! i = fn \<and> (cb_fns t ! i = fn \<or> cb_fns t ! i = 0) \<and>
         (\<forall>j < MAXCALLBACKS. j \<noteq> i \<longrightarrow> cb_fns t1 ! j = cb_fns t ! j)"
    have e: "r = Some p" "s' = (t1, b1, m1)" using assms(4) r(1) s by simp_all
    then show ?thesis using post register_again [OF r(2) assms(2)] by auto
  qed
qed

definition demo_cbenv :: cb_env where
  "demo_cbenv = \<lparr>ce_memfd = True, ce_truncate = True, ce_map = True, ce_fd = 5\<rparr>"

lemma demo_register:
  "register_cb_x64 demo_env demo_cbenv 7 9 (demo_cbs, demo_box, demo_vm) =
     Some (Some 0x20000, demo_cbs\<lparr>cb_fns := 7 # replicate 4095 0,
       cb_alias := Some (\<lparr>ce_code = cbentry_code, ce_target = 7, ce_trampoline = 9\<rparr> #
         replicate 4095 \<lparr>ce_code = cbentry_code, ce_target = 0, ce_trampoline = 0\<rparr>)\<rparr>, demo_box, demo_vm)"
proof -
  have rep: "replicate 4096 x = x # replicate 4095 x" for x :: 'a
    using replicate_Suc [of 4095 x] by simp
  have "cbfind demo_cbs 7 = None"
    by (simp add: cbfind_def cb_scan_None demo_cbs_def cb_empty_def)
  moreover have "cbfreeslot demo_cbs = Some 0"
    by (simp add: cbfreeslot_def demo_cbs_def cb_empty_def MAXCALLBACKS_def rep)
  ultimately show ?thesis
    by (simp add: register_cb_x64_def register_slot_def demo_cbs_def cb_empty_def MAXCALLBACKS_def rep)
qed

lemma reregister_keeps_trampoline_witness:
  "register_cb_x64 demo_env demo_cbenv 7 10 (demo_cbs\<lparr>cb_fns := 7 # replicate 4095 0,
       cb_alias := Some (\<lparr>ce_code = cbentry_code, ce_target = 7, ce_trampoline = 9\<rparr> #
         replicate 4095 \<lparr>ce_code = cbentry_code, ce_target = 0, ce_trampoline = 0\<rparr>)\<rparr>, demo_box, demo_vm) =
     Some (Some 0x20000, demo_cbs\<lparr>cb_fns := 7 # replicate 4095 0,
       cb_alias := Some (\<lparr>ce_code = cbentry_code, ce_target = 7, ce_trampoline = 9\<rparr> #
         replicate 4095 \<lparr>ce_code = cbentry_code, ce_target = 0, ce_trampoline = 0\<rparr>)\<rparr>, demo_box, demo_vm)"
  by (rule reregister_keeps_trampoline [OF demo_cbs_ready _ _ demo_register]) simp_all

end
