(* ===== verification/Engine.thy ===== *)
theory Engine
  imports BoxSafety PoolCapacity
begin

text \<open>
  The engine, \<^verbatim>\<open>core/core.c\<close> and \<^verbatim>\<open>core/error.c\<close>: the error state of a thread, the creation of
  an engine with room for a number of sandboxes, and the life of the sandboxes of an engine
  (\<^verbatim>\<open>lfi_box_new\<close> and \<^verbatim>\<open>lfi_box_free\<close> of \<^verbatim>\<open>core/box.c\<close> over the engine's pool).
\<close>

subsection \<open>Errors\<close>

fun err_code :: "lfi_error \<Rightarrow> int" where
  "err_code ERR_NONE = 0"
| "err_code ERR_ALLOC = 1"
| "err_code ERR_BOXMAP = 2"
| "err_code ERR_RESERVE = 3"
| "err_code ERR_MMAP = 4"
| "err_code ERR_SIGALTSTACK = 5"
| "err_code ERR_PKU = 6"

text \<open>The thread's \<^verbatim>\<open>lfi_error\<close> and \<^verbatim>\<open>lfi_error_desc\<close>.\<close>

record errors =
  es_error :: int
  es_desc :: "string option"

definition lfi_errno :: "errors \<Rightarrow> int" where
  "lfi_errno s = es_error s"

definition err_name :: "int \<Rightarrow> string" where
  "err_name err =
     (if err = err_code ERR_NONE then ''no error''
      else if err = err_code ERR_ALLOC then ''allocation failed''
      else if err = err_code ERR_BOXMAP then ''boxmap failed''
      else if err = err_code ERR_RESERVE then ''memory reservation failed''
      else if err = err_code ERR_MMAP then ''libmmap failed''
      else if err = err_code ERR_PKU then ''pku operation failed''
      else if err = err_code ERR_SIGALTSTACK then ''sigaltstack failed''
      else ''unknown error'')"

definition lfi_errmsg :: "errors \<Rightarrow> string \<times> errors" where
  "lfi_errmsg s =
     (let err = err_name (es_error s)
      in case es_desc s of
           Some desc \<Rightarrow> (err @ '': '' @ desc, s\<lparr>es_desc := None\<rparr>)
         | None \<Rightarrow> (err, s))"

text \<open>The conversion \<^verbatim>\<open>%ld\<close>.\<close>

fun digits :: "nat \<Rightarrow> string" where
  "digits n = (if n < 10 then [char_of (48 + n)] else digits (n div 10) @ [char_of (48 + n mod 10)])"

definition decimal :: "u64 \<Rightarrow> string" where
  "decimal w = (if sint w < 0 then ''-'' @ digits (nat (- sint w)) else digits (nat (sint w)))"

subsection \<open>Engines\<close>

text \<open>The verifier (\<^verbatim>\<open>lfiv\<close>) is a library; the engine sets its options and picks its entry.\<close>

datatype lfiv_box = LFI_BOX_FULL | LFI_BOX_STORES

record verifier =
  vf_box :: "lfiv_box option"
  vf_ctxreg :: bool
  vf_err :: bool
  vf_verify :: "arch option"

text \<open>The system call handler and the clone callback are functions of the host, here numbers.\<close>

record engine =
  en_bm :: boxmap
  en_opts :: lfi_options
  en_verifier :: verifier
  en_sys_handler :: "nat option"
  en_clone_cb :: "nat option"

definition zero_verifier :: verifier where
  "zero_verifier = \<lparr>vf_box = None, vf_ctxreg = False, vf_err = False, vf_verify = None\<rparr>"

definition init_verifier :: "arch \<Rightarrow> lfi_options \<Rightarrow> verifier \<Rightarrow> verifier" where
  "init_verifier ar opts v =
     (if opt_no_verify opts then v
      else v\<lparr>vf_box := Some (if opt_stores_only opts then LFI_BOX_STORES else LFI_BOX_FULL),
             vf_ctxreg := True, vf_err := True, vf_verify := Some ar\<rparr>)"

text \<open>
  \<^verbatim>\<open>lfi_new\<close>: \<open>ok_malloc\<close> and \<open>ok_bm\<close> say whether the two allocations succeed, \<open>verbose\<close> is
  the value of \<^verbatim>\<open>LFI_VERBOSE\<close>. Failure is the engine \<open>None\<close> with the error state set.
\<close>

definition lfi_new ::
  "bm_env \<Rightarrow> arch \<Rightarrow> bool \<Rightarrow> bool \<Rightarrow> string option \<Rightarrow> lfi_options \<Rightarrow> u64 \<Rightarrow> host \<times> errors \<Rightarrow>
   (engine option \<times> host \<times> errors) run" where
  "lfi_new e ar ok_malloc ok_bm verbose opts nsandboxes s = (case s of (h, er) \<Rightarrow>
     if \<not> ok_malloc then Some (None, h, er\<lparr>es_error := err_code ERR_ALLOC\<rparr>)
     else case boxmap_new ok_bm (gb 4) (REGION_GUARD ar) of
       None \<Rightarrow> Some (None, h, er\<lparr>es_error := err_code ERR_BOXMAP\<rparr>)
     | Some bm \<Rightarrow> do {
         let room = nsandboxes * box_footprint ar (opt_boxsize opts) + gb 4 + REGION_GUARD ar * 2;
         (h, bm, ok) \<leftarrow> (if nsandboxes > 0 then boxmap_reserve e h bm room else Some (h, bm, True));
         if \<not> ok then
           Some (None, boxmap_delete h bm,
             er\<lparr>es_error := err_code ERR_RESERVE,
                es_desc := Some (''attempted to reserve '' @ decimal room @ '' bytes'')\<rparr>)
         else do {
           let opts = (if verbose = Some ''1'' then opts\<lparr>opt_verbose := True\<rparr> else opts);
           Some (Some \<lparr>en_bm = bm, en_opts = opts, en_verifier = init_verifier ar opts zero_verifier,
                       en_sys_handler = None, en_clone_cb = None\<rparr>, h, er)
         }
       })"

definition lfi_sys_handler :: "nat option \<Rightarrow> engine \<Rightarrow> engine" where
  "lfi_sys_handler f en = en\<lparr>en_sys_handler := f\<rparr>"

definition lfi_set_clone_cb :: "nat option \<Rightarrow> engine \<Rightarrow> engine" where
  "lfi_set_clone_cb f en = en\<lparr>en_clone_cb := f\<rparr>"

definition lfi_free :: "engine \<Rightarrow> host \<Rightarrow> host" where
  "lfi_free en h = boxmap_delete h (en_bm en)"

definition lfi_opts :: "engine \<Rightarrow> lfi_options" where
  "lfi_opts en = en_opts en"

text \<open>The handler a runtime call reaches; without one the assertion fails.\<close>

definition lfi_syscall_handler :: "engine \<Rightarrow> nat run" where
  "lfi_syscall_handler en = en_sys_handler en"

subsection \<open>The life of sandboxes\<close>

text \<open>
  The host creates and frees sandboxes of one engine; between these calls the memory changes
  in any way (\<open>Memory\<close>). The state is the pool, the live boxes and the memory.
\<close>

datatype life_op = NewBox host_env bool bool bool u64 | FreeBox host_env nat | Memory vm

type_synonym life_state = "boxmap \<times> lfi_box list \<times> vm"

fun life_step :: "arch \<Rightarrow> lfi_options \<Rightarrow> life_op \<Rightarrow> life_state \<Rightarrow> life_state run" where
  "life_step ar opts (NewBox e ok_malloc ok_lock ok_mm seed) (bm, live, m) = do {
     (r, bm, m) \<leftarrow> lfi_box_new e ar opts ok_malloc ok_lock ok_mm seed bm m;
     Some (bm, (case r of Inl _ \<Rightarrow> live | Inr b \<Rightarrow> b # live), m)
   }"
| "life_step ar opts (FreeBox e i) (bm, live, m) =
     (if i < length live then do {
        (bm, m) \<leftarrow> lfi_box_free e ar bm (live ! i, m);
        Some (bm, take i live @ drop (Suc i) live, m)
      } else Some (bm, live, m))"
| "life_step ar opts (Memory m') (bm, live, m) = Some (bm, live, m')"

fun life_run :: "arch \<Rightarrow> lfi_options \<Rightarrow> life_op list \<Rightarrow> life_state \<Rightarrow> life_state run" where
  "life_run ar opts [] s = Some s"
| "life_run ar opts (c # cs) s = life_step ar opts c s \<bind> life_run ar opts cs"

subsection \<open>The creation of an engine\<close>

text \<open>Options the rest needs: a page size of a power of two, boxes of whole 4 GiB chunks.\<close>

definition opts_ok :: "lfi_options \<Rightarrow> bool" where
  "opts_ok opts \<longleftrightarrow> (\<exists>k. 0 < k \<and> k \<le> 16 \<and> opt_pagesize opts = 2 ^ k) \<and>
     2 ^ 32 dvd unat (opt_boxsize opts) \<and> 0 < unat (opt_boxsize opts) \<and> unat (opt_boxsize opts) \<le> 2 ^ 62"

text \<open>The reservation for \<open>n\<close> boxes as a natural number.\<close>

definition room_for :: "arch \<Rightarrow> lfi_options \<Rightarrow> nat \<Rightarrow> nat" where
  "room_for ar opts n = n * unat (box_footprint ar (opt_boxsize opts)) + 2 ^ 32 + 2 * unat (REGION_GUARD ar)"

lemma guard_values [simp]:
  "unat (gb 4) = 2 ^ 32" "gb 4 \<noteq> 0"
  "unat (REGION_GUARD ar) = (case ar of ARM64 \<Rightarrow> 2 ^ 29 | X64 \<Rightarrow> 2 ^ 32 | RISCV64 \<Rightarrow> 0)"
  "unat (BOX_EXTERNAL_GUARD ar) = (case ar of ARM64 \<Rightarrow> 0 | X64 \<Rightarrow> 2 ^ 32 | RISCV64 \<Rightarrow> 0)"
  "unat (BOX_INTERNAL_GUARD ar) = (case ar of ARM64 \<Rightarrow> 196608 | X64 \<Rightarrow> 0 | RISCV64 \<Rightarrow> 0)"
  by (cases ar; simp add: gb_def mb_def kb_def)+

lemma unat_room:
  assumes "room_for ar opts (unat n) < 2 ^ 64"
  shows "unat (n * box_footprint ar (opt_boxsize opts) + gb 4 + REGION_GUARD ar * 2) = room_for ar opts (unat n)"
proof -
  let ?f = "box_footprint ar (opt_boxsize opts)"
  have s: "unat n * unat ?f + 2 ^ 32 + 2 * unat (REGION_GUARD ar) < 2 ^ 64"
    using assms by (simp only: room_for_def)
  have g: "unat (REGION_GUARD ar * 2) = 2 * unat (REGION_GUARD ar)"
    by (cases ar) (simp_all add: gb_def mb_def)
  have a: "unat (n * ?f) = unat n * unat ?f" using s by (intro unat_mult64) simp
  then have b: "unat (n * ?f + gb 4) = unat n * unat ?f + 2 ^ 32"
    using s by (subst unat_add64) simp_all
  have "unat (n * ?f + gb 4 + REGION_GUARD ar * 2) = unat n * unat ?f + 2 ^ 32 + 2 * unat (REGION_GUARD ar)"
    using s by (subst unat_add64) (simp_all only: b g)
  then show ?thesis by (simp only: room_for_def)
qed

definition new_pool :: "arch \<Rightarrow> boxmap" where
  "new_pool ar = \<lparr>bm_regions = [], bm_chunksize = gb 4, bm_guardsize = REGION_GUARD ar\<rparr>"

lemma new_pool_inv: "bm_inv (new_pool ar)" "bm_regions (new_pool ar) = []"
  by (simp_all add: new_pool_def bm_inv_def)

lemma lfi_new_cases:
  assumes e: "env_ok e" and room: "room_for ar opts (unat n) < 2 ^ 64"
  obtains (failed) er' where "lfi_new e ar ok_malloc ok_bm verbose opts n (h, er) = Some (None, h, er')"
      "es_error er' \<in> err_code ` {ERR_ALLOC, ERR_BOXMAP, ERR_RESERVE}"
  | (created) en h' where "lfi_new e ar ok_malloc ok_bm verbose opts n (h, er) = Some (Some en, h', er)"
      "n = 0 \<longrightarrow> h' = h \<and> en_bm en = new_pool ar"
      "n \<noteq> 0 \<longrightarrow> boxmap_reserve e h (new_pool ar)
         (n * box_footprint ar (opt_boxsize opts) + gb 4 + REGION_GUARD ar * 2) = Some (h', en_bm en, True)"
      "en_opts en = (if verbose = Some ''1'' then opts\<lparr>opt_verbose := True\<rparr> else opts)"
      "en_verifier en = init_verifier ar opts zero_verifier" "en_sys_handler en = None"
proof -
  let ?room = "n * box_footprint ar (opt_boxsize opts) + gb 4 + REGION_GUARD ar * 2"
  have iv: "init_verifier ar (opts\<lparr>opt_verbose := True\<rparr>) v = init_verifier ar opts v" for v
    by (simp add: init_verifier_def)
  show thesis
  proof (cases "ok_malloc \<and> ok_bm")
    case False
    then show thesis
      by (intro failed [of "er\<lparr>es_error := if ok_malloc then 2 else 1\<rparr>"])
        (auto simp: lfi_new_def boxmap_new_def)
  next
    case ok: True
    note new = new_pool_def [of ar, symmetric]
    show thesis
    proof (cases "n = 0")
      case True
      show thesis
        by (rule created [of "\<lparr>en_bm = new_pool ar, en_opts = if verbose = Some ''1'' then opts\<lparr>opt_verbose := True\<rparr>
              else opts, en_verifier = init_verifier ar opts zero_verifier, en_sys_handler = None, en_clone_cb = None\<rparr>" h])
          (use ok True in \<open>simp_all add: lfi_new_def boxmap_new_def new iv\<close>)
    next
      case False
      then have pos: "n > 0" by (simp add: word_gt_0)
      have rm: "2 * unat (bm_guardsize (new_pool ar)) + unat (bm_chunksize (new_pool ar)) \<le> unat ?room"
        unfolding unat_room [OF room] room_for_def by (simp add: new_pool_def)
      show thesis
      proof (cases rule: boxmap_reserve_spec [OF e new_pool_inv rm, of h, case_names no reserved])
        case (no h')
        then show thesis using ok pos
          by (intro failed [of "er\<lparr>es_error := 3, es_desc := Some (''attempted to reserve '' @ decimal ?room @ '' bytes'')\<rparr>"])
            (simp_all add: lfi_new_def boxmap_new_def new boxmap_delete_def new_pool_inv)
      next
        case (reserved p r)
        show thesis
          by (rule created [of "\<lparr>en_bm = (new_pool ar)\<lparr>bm_regions := [r]\<rparr>, en_opts = if verbose = Some ''1'' then
                opts\<lparr>opt_verbose := True\<rparr> else opts, en_verifier = init_verifier ar opts zero_verifier,
                en_sys_handler = None, en_clone_cb = None\<rparr>" "(p, ?room) # h"])
            (use ok pos False reserved(1) in \<open>simp_all add: lfi_new_def boxmap_new_def new iv\<close>)
      qed
    qed
  qed
qed

subsection \<open>A new box\<close>

lemma p2_loop_power: "k < 64 \<Longrightarrow> p2_loop (2 ^ k) n = n + k"
proof (induction k arbitrary: n)
  case 0
  then show ?case by (subst p2_loop.simps) (simp add: drop_bit_eq_div)
next
  case (Suc k)
  have "drop_bit 1 (2 ^ Suc k :: u64) = 2 ^ k"
  proof (rule word_unat_eq_iff [THEN iffD2])
    have "unat (2 ^ Suc k :: u64) = 2 ^ Suc k" "unat (2 ^ k :: u64) = 2 ^ k"
      using Suc.prems by (intro unat_pow2; simp)+
    then show "unat (drop_bit 1 (2 ^ Suc k :: u64)) = unat (2 ^ k :: u64)"
      by (simp add: unat_drop_bit64)
  qed
  moreover have "(2 ^ k :: u64) \<noteq> 0" using Suc.prems by simp
  ultimately show ?case using Suc by (subst p2_loop.simps) (simp add: Let_def)
qed

definition min_off :: "arch \<Rightarrow> u64 \<Rightarrow> u64" where
  "min_off ar ps = (if BOX_INTERNAL_GUARD ar > ps then BOX_INTERNAL_GUARD ar else ps)"

text \<open>What \<^verbatim>\<open>lfi_box_new\<close> makes of a span of addresses.\<close>

definition made :: "arch \<Rightarrow> lfi_options \<Rightarrow> lfi_box \<Rightarrow> bool" where
  "made ar opts b \<longleftrightarrow> box_ok b \<and> bx_opts b = opts \<and> bx_size b = opt_boxsize opts \<and>
     bx_min b = bx_base b + min_off ar (opt_pagesize opts) \<and>
     bx_max b = bx_base b + opt_boxsize opts - BOX_INTERNAL_GUARD ar \<and>
     as_regions (bx_mm b) = [] \<and> bx_sys_page b = Some (bx_base b - opt_pagesize opts)"

text \<open>A span for a box: it starts at a multiple of the chunk size and does not wrap.\<close>

definition box_span :: "arch \<Rightarrow> lfi_options \<Rightarrow> u64 \<Rightarrow> bool" where
  "box_span ar opts p \<longleftrightarrow> 2 ^ 32 dvd unat p \<and> p \<noteq> 0 \<and>
     unat p + unat (box_footprint ar (opt_boxsize opts)) < 2 ^ 64"

lemma opts_okE:
  assumes "opts_ok opts"
  obtains k where "0 < k" "k \<le> 16" "opt_pagesize opts = 2 ^ k" "unat (opt_pagesize opts) = 2 ^ k"
    "2 ^ k dvd (2 ^ 32 :: nat)" "2 ^ k \<le> (65536 :: nat)"
    "2 ^ 32 dvd unat (opt_boxsize opts)" "2 ^ 32 \<le> unat (opt_boxsize opts)" "unat (opt_boxsize opts) \<le> 2 ^ 62"
proof -
  obtain k where k: "0 < k" "k \<le> 16" "opt_pagesize opts = 2 ^ k" using assms by (auto simp: opts_ok_def)
  have "unat (2 ^ k :: u64) = 2 ^ k" using k(2) by (intro unat_pow2) simp
  moreover have "2 ^ k dvd (2 ^ 32 :: nat)" using k(2) by (intro le_imp_power_dvd) simp
  moreover have "2 ^ k \<le> (2 ^ 16 :: nat)" using k(2) by (intro power_increasing) simp_all
  moreover have "2 ^ 32 \<le> unat (opt_boxsize opts)"
    using assms by (intro dvd_imp_le) (simp_all add: opts_ok_def)
  ultimately show ?thesis using k assms by (intro that [of k]) (simp_all add: opts_ok_def)
qed

lemma footprint_unat:
  assumes "opts_ok opts"
  shows "unat (box_footprint ar (opt_boxsize opts)) = unat (opt_boxsize opts) + unat (BOX_EXTERNAL_GUARD ar)"
  unfolding box_footprint_def
proof (rule unat_add64)
  have "unat (opt_boxsize opts) \<le> 2 ^ 62" using assms by (simp add: opts_ok_def)
  moreover have "unat (BOX_EXTERNAL_GUARD ar) \<le> 2 ^ 32" by (cases ar) simp_all
  ultimately show "unat (opt_boxsize opts) + unat (BOX_EXTERNAL_GUARD ar) < 2 ^ 64" by simp
qed

lemma bounds_unat:
  assumes o: "opts_ok opts" and p: "box_span ar opts p"
  shows "unat (p + min_off ar (opt_pagesize opts)) = unat p + unat (min_off ar (opt_pagesize opts))"
    "unat (p + opt_boxsize opts - BOX_INTERNAL_GUARD ar) =
       unat p + unat (opt_boxsize opts) - unat (BOX_INTERNAL_GUARD ar)"
    "unat (min_off ar (opt_pagesize opts)) \<le> 196608"
    "unat (opt_pagesize opts) dvd unat (min_off ar (opt_pagesize opts))"
    "unat (opt_pagesize opts) dvd unat (BOX_INTERNAL_GUARD ar)"
    "unat (opt_pagesize opts) \<le> unat (min_off ar (opt_pagesize opts))"
    "unat (BOX_INTERNAL_GUARD ar) \<le> 196608"
    "unat (p - opt_pagesize opts) = unat p - unat (opt_pagesize opts)"
    "unat (opt_pagesize opts) \<le> unat p"
proof -
  obtain k where k: "k \<le> 16" "unat (opt_pagesize opts) = 2 ^ k" "2 ^ k \<le> (65536 :: nat)"
    "2 ^ 32 \<le> unat (opt_boxsize opts)"
    using o by (rule opts_okE)
  have "(2 :: nat) ^ k dvd 2 ^ 16 * 3" using k(1) by (intro dvd_mult2 le_imp_power_dvd)
  then have d: "unat (opt_pagesize opts) dvd unat (BOX_INTERNAL_GUARD ar)"
    by (cases ar) (simp_all add: k(2) kb_def)
  show "unat (opt_pagesize opts) dvd unat (BOX_INTERNAL_GUARD ar)" by (rule d)
  show "unat (opt_pagesize opts) dvd unat (min_off ar (opt_pagesize opts))"
    using d by (simp add: min_off_def)
  show g: "unat (BOX_INTERNAL_GUARD ar) \<le> 196608" by (cases ar) (simp_all add: kb_def)
  show m: "unat (min_off ar (opt_pagesize opts)) \<le> 196608"
    using g k(2,3) by (simp add: min_off_def)
  show "unat (opt_pagesize opts) \<le> unat (min_off ar (opt_pagesize opts))"
    by (simp add: min_off_def word_less_nat_alt)
  have s: "unat p + unat (opt_boxsize opts) < 2 ^ 64"
    using p footprint_unat [OF o, of ar] by (simp add: box_span_def)
  show "unat (p + min_off ar (opt_pagesize opts)) = unat p + unat (min_off ar (opt_pagesize opts))"
    using s k(4) m by (intro unat_add64) simp
  have a: "unat (p + opt_boxsize opts) = unat p + unat (opt_boxsize opts)" using s by (intro unat_add64)
  show "unat (p + opt_boxsize opts - BOX_INTERNAL_GUARD ar) =
      unat p + unat (opt_boxsize opts) - unat (BOX_INTERNAL_GUARD ar)"
    using a k(4) g by (subst unat_sub64') simp_all
  have "2 ^ 32 \<le> unat p" using p by (intro dvd_imp_le) (auto simp: box_span_def unat_gt_0)
  then show l: "unat (opt_pagesize opts) \<le> unat p" using k(2,3) by simp
  show "unat (p - opt_pagesize opts) = unat p - unat (opt_pagesize opts)" using l by (rule unat_sub64')
qed

text \<open>The tracker of a range of whole pages.\<close>

lemma init_tracker:
  assumes k: "0 < k" "k \<le> 16" and d: "2 ^ k dvd unat lo" "2 ^ k dvd unat hi" and le: "unat lo \<le> unat hi"
  obtains mm where "as_init lo (hi - lo) (2 ^ k) = Some mm" "as_inv mm" "as_p2 mm = k" "as_regions mm = []"
    "unat lo = unat (as_base mm) * 2 ^ k" "unat hi = (unat (as_base mm) + unat (as_len mm)) * 2 ^ k"
proof -
  let ?a = "\<lparr>as_base = 0, as_len = 0, as_p2 = k, as_aslr = False, as_rand = 0, as_regions = []\<rparr>"
  let ?mm = "?a\<lparr>as_base := to_page ?a lo, as_len := to_page_ceil ?a (hi - lo)\<rparr>"
  have hl: "unat (hi - lo) = unat hi - unat lo" using le by (rule unat_sub64')
  have uk: "unat (2 ^ k :: u64) = 2 ^ k" using k(2) by (intro unat_pow2) simp
  then have pow: "(2 ^ k :: u64) \<noteq> 0" unfolding word_eq_nat_iff by simp
  have "take_bit k (2 ^ k :: u64) = 0" unfolding word_eq_nat_iff by (simp only: unat_take_bit64 uk) simp
  then have "(2 ^ k :: u64) AND (2 ^ k - 1) = 0" by (simp add: take_bit_eq_mask mask_eq_exp_minus_1)
  then have init: "as_init lo (hi - lo) (2 ^ k) = Some ?mm"
    using k(2) pow by (simp add: as_init_def p2_loop_power Let_def)
  have base: "unat (as_base ?mm) * 2 ^ k = unat lo" using d(1) by (simp add: to_page_def unat_drop_bit64)
  have "2 ^ k dvd unat (hi - lo)" unfolding hl using d by (intro dvd_diff_nat)
  then have "unat (to_page_ceil ?a (hi - lo)) * 2 ^ k = unat (hi - lo)"
    using k by (subst unat_to_page_ceil) simp_all
  then have len: "unat (as_len ?mm) * 2 ^ k = unat hi - unat lo" by (simp add: hl)
  have bl: "(unat (as_base ?mm) + unat (as_len ?mm)) * 2 ^ k = unat hi"
    unfolding distrib_right base len using le by simp
  have "as_inv ?mm" unfolding as_inv_def using bl k by simp
  then show ?thesis using init base bl by (intro that [of ?mm]) simp_all
qed

lemma new_tracker:
  assumes o: "opts_ok opts" and p: "box_span ar opts p"
  obtains mm where "as_init (p + min_off ar (opt_pagesize opts))
      (p + opt_boxsize opts - BOX_INTERNAL_GUARD ar - (p + min_off ar (opt_pagesize opts))) (opt_pagesize opts) = Some mm"
    "as_inv mm" "unat (opt_pagesize opts) = 2 ^ as_p2 mm" "as_regions mm = []"
    "unat (p + min_off ar (opt_pagesize opts)) = unat (as_base mm) * unat (opt_pagesize opts)"
    "unat (p + opt_boxsize opts - BOX_INTERNAL_GUARD ar) =
       (unat (as_base mm) + unat (as_len mm)) * unat (opt_pagesize opts)"
proof -
  obtain k where k: "0 < k" "k \<le> 16" "opt_pagesize opts = 2 ^ k" "unat (opt_pagesize opts) = 2 ^ k"
    "2 ^ k dvd (2 ^ 32 :: nat)" "2 ^ k \<le> (65536 :: nat)" "2 ^ 32 dvd unat (opt_boxsize opts)"
    "2 ^ 32 \<le> unat (opt_boxsize opts)"
    using o by (rule opts_okE)
  note b = bounds_unat [OF o p]
  let ?lo = "p + min_off ar (opt_pagesize opts)" and ?hi = "p + opt_boxsize opts - BOX_INTERNAL_GUARD ar"
  have "2 ^ 32 dvd unat p" using p by (simp add: box_span_def)
  with k(5) have dp: "2 ^ k dvd unat p" by (rule dvd_trans)
  have dlo: "2 ^ k dvd unat ?lo" unfolding b(1) using dp b(4) by (intro dvd_add) (simp_all add: k(4))
  have dsz: "2 ^ k dvd unat (opt_boxsize opts)" using k(5,7) by (rule dvd_trans)
  have dhi: "2 ^ k dvd unat ?hi"
    unfolding b(2) using dp dsz b(5) by (intro dvd_diff_nat dvd_add) (simp_all add: k(4))
  have le: "unat ?lo \<le> unat ?hi" unfolding b(1,2) using b(3,7) k(8) by simp
  show ?thesis
    by (rule init_tracker [OF k(1,2) dlo dhi le]) (rule that, simp_all add: k(3) k(4) [unfolded k(3)])
qed

text \<open>\<^verbatim>\<open>lfi_box_new\<close> and \<^verbatim>\<open>lfi_box_free\<close> on a pool of cells.\<close>

abbreviation fp :: "arch \<Rightarrow> lfi_options \<Rightarrow> u64" where
  "fp ar opts \<equiv> box_footprint ar (opt_boxsize opts)"

lemma pool_cells_base:
  assumes c: "pool_cells (fp ar opts) N bm live" and ch: "bm_chunksize bm = gb 4" and o: "opts_ok opts"
    and p: "(p, n) \<in> set live"
  shows "2 ^ 32 dvd unat p" "unat p + unat (fp ar opts) < 2 ^ 64"
proof -
  from c obtain r js where r: "bm_inv bm" "bm_fits bm (fp ar opts)" "bm_regions bm = [r]"
    "N = unat (rg_size r) div unat (fp ar opts)" "set js \<subseteq> {..<N}"
    and live: "list_all2 (\<lambda>(p, n) j. n = fp ar opts \<and> unat p = unat (rg_base r) + j * unat (fp ar opts)) live js"
    unfolding pool_cells_def by blast
  obtain i where i: "i < length live" "live ! i = (p, n)" using p by (auto simp: in_set_conv_nth)
  have il: "i < length js" using i(1) list_all2_lengthD [OF live] by simp
  have pi: "unat p = unat (rg_base r) + js ! i * unat (fp ar opts)"
    using list_all2_nthD [OF live i(1)] i(2) by simp
  have ok: "region_ok (gb 4) r" using r(1,3) ch by (simp add: bm_inv_def)
  have "2 ^ 32 dvd unat (fp ar opts)" using r(2) ch by (simp add: bm_fits_def chunk_fits_def)
  moreover have "2 ^ 32 dvd unat (rg_base r)" using region_span(2) [OF ok] by simp
  ultimately show "2 ^ 32 dvd unat p" unfolding pi by (intro dvd_add dvd_mult)
  have "js ! i < N" using r(5) il nth_mem by blast
  then have "(js ! i + 1) * unat (fp ar opts) \<le> N * unat (fp ar opts)" by (intro mult_le_mono1) simp
  also have "\<dots> \<le> unat (rg_size r)" using r(4) by simp
  finally show "unat p + unat (fp ar opts) < 2 ^ 64" using region_span(1) [OF ok] pi by simp
qed

lemma addspace_cfg: "boxmap_addspace bm n = Some (p, bm') \<Longrightarrow> bm_chunksize bm' = bm_chunksize bm"
  by (auto simp: boxmap_addspace_def split: bind_splits)

lemma rmspace_cfg: "boxmap_rmspace bm p n = Some bm' \<Longrightarrow> bm_chunksize bm' = bm_chunksize bm"
  by (auto simp: boxmap_rmspace_def split: bind_splits)

lemma syssetup_fields:
  assumes "syssetup e b m = (ok, b', m')"
  shows "b' = b\<lparr>bx_sys_page := bx_sys_page b', bx_sys := bx_sys b'\<rparr>"
    "ok \<longrightarrow> bx_sys_page b' = Some (bx_base b - opt_pagesize (bx_opts b))"
    "keeps (in_pages (bx_ps b) (bx_base b - bx_ps b) (bx_ps b)) m m'"
  using assms
  by (auto simp: syssetup_def sys_page_init_def Let_def keeps_def vm_mmap_def vm_mprotect_def vm_munmap_def
      split: prod.splits if_splits)

lemma aslr_keeps:
  "as_inv (enable_aslr seed mm) = as_inv mm" "as_p2 (enable_aslr seed mm) = as_p2 mm"
  "as_base (enable_aslr seed mm) = as_base mm" "as_len (enable_aslr seed mm) = as_len mm"
  "as_regions (enable_aslr seed mm) = as_regions mm"
  by (simp_all add: enable_aslr_def as_inv_def)

lemma box_new_step:
  assumes c: "pool_cells (fp ar opts) N bm live" and ch: "bm_chunksize bm = gb 4" and o: "opts_ok opts"
  shows "\<exists>r bm' m'. lfi_box_new e ar opts ok_malloc ok_lock ok_mm seed bm m = Some (r, bm', m') \<and>
    bm_chunksize bm' = gb 4 \<and>
    (case r of
       Inl er \<Rightarrow> pool_cells (fp ar opts) N bm' live \<and> (er = ERR_BOXMAP \<longrightarrow> length live = N)
     | Inr b \<Rightarrow> pool_cells (fp ar opts) N bm' ((bx_base b, fp ar opts) # live) \<and> made ar opts b \<and>
         box_span ar opts (bx_base b))"
proof (cases ok_malloc)
  case False
  then show ?thesis using c ch by (simp add: lfi_box_new_def)
next
  case True
  obtain p bm1 where add: "boxmap_addspace bm (fp ar opts) = Some (p, bm1)" "p = 0 \<longleftrightarrow> length live = N"
    "pool_cells (fp ar opts) N bm1 (if p = 0 then live else (p, fp ar opts) # live)"
    using pool_cells_Take [OF c] by blast
  have ch1: "bm_chunksize bm1 = gb 4" using addspace_cfg [OF add(1)] ch by simp
  show ?thesis
  proof (cases "p = 0")
    case True
    then show ?thesis using add ch1 \<open>ok_malloc\<close> by (simp add: lfi_box_new_def)
  next
    case p: False
    have c1: "pool_cells (fp ar opts) N bm1 ((p, fp ar opts) # live)" using add(3) p by simp
    have sp: "box_span ar opts p"
      using pool_cells_base [OF c1 ch1 o, of p "fp ar opts"] p by (simp add: box_span_def)
    obtain bm2 where rm: "boxmap_rmspace bm1 p (fp ar opts) = Some bm2" "pool_cells (fp ar opts) N bm2 live"
      using pool_cells_Give [OF c1, of 0 p "fp ar opts"] by auto
    have ch2: "bm_chunksize bm2 = gb 4" using rmspace_cfg [OF rm(1)] ch1 by simp
    let ?b = "\<lparr>bx_opts = opts, bx_base = p, bx_size = opt_boxsize opts,
      bx_min = p + min_off ar (opt_pagesize opts),
      bx_max = p + opt_boxsize opts - BOX_INTERNAL_GUARD ar,
      bx_max_exec = p + opt_boxsize opts - BOX_INTERNAL_GUARD ar,
      bx_mm = \<lparr>as_base = 0, as_len = 0, as_p2 = 0, as_aslr = False, as_rand = 0, as_regions = []\<rparr>,
      bx_sys_page = None, bx_sys = None, bx_retaddr = 0, bx_userdata = 0\<rparr>"
    obtain ok b1 m1 where sy: "syssetup e ?b m = (ok, b1, m1)" by (cases "syssetup e ?b m")
    note f = syssetup_fields [OF sy]
    have flds: "bx_opts b1 = opts" "bx_base b1 = p" "bx_size b1 = opt_boxsize opts"
      "bx_min b1 = p + min_off ar (opt_pagesize opts)"
      "bx_max b1 = p + opt_boxsize opts - BOX_INTERNAL_GUARD ar"
      by (subst f(1), simp)+
    obtain mm where mm: "as_init (bx_min b1) (bx_max b1 - bx_min b1) (opt_pagesize opts) = Some mm"
      "as_inv mm" "unat (opt_pagesize opts) = 2 ^ as_p2 mm" "as_regions mm = []"
      "unat (bx_min b1) = unat (as_base mm) * unat (opt_pagesize opts)"
      "unat (bx_max b1) = (unat (as_base mm) + unat (as_len mm)) * unat (opt_pagesize opts)"
      unfolding flds by (rule new_tracker [OF o sp])
    have pre: "lfi_box_new e ar opts ok_malloc ok_lock ok_mm seed bm m =
      (if \<not> ok \<or> \<not> ok_lock \<or> \<not> ok_mm then Some (Inl ERR_MMAP, bm2, m1)
       else Some (Inr (b1\<lparr>bx_mm := if opt_no_aslr opts then mm else enable_aslr seed mm\<rparr>), bm1, m1))"
      using \<open>ok_malloc\<close> add(1) p sy rm(1) mm(1)
      by (simp add: lfi_box_new_def min_off_def [symmetric] Let_def)
    show ?thesis
    proof (cases "\<not> ok \<or> \<not> ok_lock \<or> \<not> ok_mm")
      case True
      then show ?thesis unfolding pre using rm(2) ch2 by simp
    next
      case False
      then have page: "bx_sys_page b1 = Some (p - opt_pagesize opts)" using f(2) by simp
      let ?mm = "if opt_no_aslr opts then mm else enable_aslr seed mm"
      have "as_inv ?mm" "as_p2 ?mm = as_p2 mm" "as_base ?mm = as_base mm" "as_len ?mm = as_len mm"
        "as_regions ?mm = []"
        using mm(2,4) by (simp_all add: aslr_keeps)
      then have "made ar opts (b1\<lparr>bx_mm := ?mm\<rparr>)"
        unfolding made_def box_ok_def using mm(3,5,6) by (simp add: flds page)
      then show ?thesis unfolding pre using False c1 ch1 sp by (simp add: flds)
    qed
  qed
qed

lemma box_free_step:
  assumes c: "pool_cells (fp ar opts) N bm (map (\<lambda>b. (bx_base b, fp ar opts)) live)" and ch: "bm_chunksize bm = gb 4"
    and o: "opts_ok opts" and i: "i < length live" "made ar opts (live ! i)" "box_span ar opts (bx_base (live ! i))"
    and ok: "\<forall>j. he_ok e j HMmap"
  shows "\<exists>bm' m'. lfi_box_free e ar bm (live ! i, m) = Some (bm', m') \<and> bm_chunksize bm' = gb 4 \<and>
    pool_cells (fp ar opts) N bm' (map (\<lambda>b. (bx_base b, fp ar opts)) (take i live @ drop (Suc i) live))"
proof -
  let ?b = "live ! i" and ?live = "map (\<lambda>b. (bx_base b, fp ar opts)) live"
  obtain k where k: "unat (opt_pagesize opts) = 2 ^ k" "2 ^ k dvd (2 ^ 32 :: nat)" "2 ^ k \<le> (65536 :: nat)"
    "2 ^ 32 \<le> unat (opt_boxsize opts)" "unat (opt_boxsize opts) \<le> 2 ^ 62"
    using o by (rule opts_okE)
  have flds: "bx_opts ?b = opts" "bx_size ?b = opt_boxsize opts"
    "bx_min ?b = bx_base ?b + min_off ar (opt_pagesize opts)" using i(2) by (simp_all add: made_def)
  obtain bm' where rm: "boxmap_rmspace bm (bx_base ?b) (fp ar opts) = Some bm'"
    "pool_cells (fp ar opts) N bm' (take i ?live @ drop (Suc i) ?live)"
    using pool_cells_Give [OF c, of i "bx_base ?b" "fp ar opts"] i(1) by auto
  have ne: "opt_boxsize opts + opt_pagesize opts \<noteq> 0"
  proof -
    have "unat (opt_boxsize opts + opt_pagesize opts) = unat (opt_boxsize opts) + unat (opt_pagesize opts)"
      using k(1,3,5) by (intro unat_add64) simp
    then show ?thesis using k(4) unfolding word_eq_nat_iff by simp
  qed
  have "2 ^ 32 dvd unat (bx_base ?b)" using i(3) by (simp add: box_span_def)
  with k(2) have "2 ^ k dvd unat (bx_base ?b)" by (rule dvd_trans)
  then have "unat (opt_pagesize opts) dvd unat (bx_base ?b - opt_pagesize opts)"
    unfolding bounds_unat(8) [OF o i(3)] k(1) by (intro dvd_diff_nat) simp_all
  then have al: "page_aligned (opt_pagesize opts) (bx_base ?b - opt_pagesize opts)"
    by (simp add: page_aligned_def)
  obtain ok' m' where mm: "vm_mmap e (opt_pagesize opts) (bx_base ?b - opt_pagesize opts)
      (opt_boxsize opts + opt_pagesize opts) no_access True (-1) 0 m = (ok', m')" by fastforce
  have ok' using al ne ok mm [symmetric] by (simp add: vm_mmap_def Let_def split: if_splits)
  with mm have "lfi_box_free e ar bm (?b, m) = Some (bm', m')"
    by (simp add: lfi_box_free_def flds rm(1))
  then show ?thesis using rm rmspace_cfg [OF rm(1)] ch by (simp add: take_map drop_map)
qed

subsection \<open>Any life of the boxes of an engine\<close>

text \<open>The host's \<^verbatim>\<open>mmap\<close> does not fail when a box is freed (the code asserts it).\<close>

fun frees_ok :: "life_op \<Rightarrow> bool" where
  "frees_ok (FreeBox e i) \<longleftrightarrow> (\<forall>j. he_ok e j HMmap)"
| "frees_ok _ \<longleftrightarrow> True"

definition life_inv :: "arch \<Rightarrow> lfi_options \<Rightarrow> nat \<Rightarrow> life_state \<Rightarrow> bool" where
  "life_inv ar opts N s \<longleftrightarrow> (case s of (bm, live, m) \<Rightarrow>
     pool_cells (fp ar opts) N bm (map (\<lambda>b. (bx_base b, fp ar opts)) live) \<and> bm_chunksize bm = gb 4 \<and>
     (\<forall>b \<in> set live. made ar opts b \<and> box_span ar opts (bx_base b)))"

lemma life_step_inv:
  assumes o: "opts_ok opts" and s: "life_inv ar opts N s" and c: "frees_ok c"
  shows "\<exists>s'. life_step ar opts c s = Some s' \<and> life_inv ar opts N s'"
proof -
  obtain bm live m where s_eq: "s = (bm, live, m)" by (cases s) auto
  have inv: "pool_cells (fp ar opts) N bm (map (\<lambda>b. (bx_base b, fp ar opts)) live)" "bm_chunksize bm = gb 4"
    "\<forall>b \<in> set live. made ar opts b \<and> box_span ar opts (bx_base b)"
    using s by (simp_all add: s_eq life_inv_def)
  show ?thesis
  proof (cases c)
    case (NewBox e a l k seed)
    obtain r bm' m' where r: "lfi_box_new e ar opts a l k seed bm m = Some (r, bm', m')" "bm_chunksize bm' = gb 4"
      "case r of
         Inl er \<Rightarrow> pool_cells (fp ar opts) N bm' (map (\<lambda>b. (bx_base b, fp ar opts)) live) \<and>
           (er = ERR_BOXMAP \<longrightarrow> length (map (\<lambda>b. (bx_base b, fp ar opts)) live) = N)
       | Inr b \<Rightarrow> pool_cells (fp ar opts) N bm' ((bx_base b, fp ar opts) # map (\<lambda>b. (bx_base b, fp ar opts)) live) \<and>
           made ar opts b \<and> box_span ar opts (bx_base b)"
      using box_new_step [OF inv(1,2) o] by blast
    show ?thesis using r inv(3) by (cases r) (simp_all add: NewBox s_eq life_inv_def)
  next
    case (FreeBox e i)
    show ?thesis
    proof (cases "i < length live")
      case True
      then have i: "made ar opts (live ! i)" "box_span ar opts (bx_base (live ! i))" using inv(3) by simp_all
      have "\<forall>j. he_ok e j HMmap" using c FreeBox by simp
      from box_free_step [OF inv(1,2) o True i this]
      obtain bm' m' where r: "lfi_box_free e ar bm (live ! i, m) = Some (bm', m')" "bm_chunksize bm' = gb 4"
        "pool_cells (fp ar opts) N bm' (map (\<lambda>b. (bx_base b, fp ar opts)) (take i live @ drop (Suc i) live))"
        by blast
      have "\<forall>b \<in> set (take i live @ drop (Suc i) live). made ar opts b \<and> box_span ar opts (bx_base b)"
        using inv(3) by (auto dest: in_set_takeD in_set_dropD)
      then show ?thesis using r True by (simp add: FreeBox s_eq life_inv_def)
    next
      case False
      then show ?thesis using s by (simp add: FreeBox s_eq)
    qed
  next
    case (Memory m')
    then show ?thesis using s by (simp add: s_eq life_inv_def)
  qed
qed

lemma life_run_inv:
  assumes "opts_ok opts" "\<forall>c \<in> set cs. frees_ok c" "life_inv ar opts N s"
  shows "\<exists>s'. life_run ar opts cs s = Some s' \<and> life_inv ar opts N s'"
  using assms(2,3)
proof (induction cs arbitrary: s)
  case (Cons c cs)
  have "frees_ok c" using Cons.prems(1) by simp
  from life_step_inv [OF assms(1) Cons.prems(2) this]
  obtain s1 where "life_step ar opts c s = Some s1" "life_inv ar opts N s1" by blast
  then show ?case using Cons.IH [of s1] Cons.prems(1) by simp
qed simp

text \<open>The pool of a new engine has a cell for each box it was created for.\<close>

lemma new_engine_inv:
  assumes e: "env_ok e" and o: "opts_ok opts" and room: "room_for ar opts (unat n) < 2 ^ 64" and n: "n \<noteq> 0"
    and new: "lfi_new e ar ok_malloc ok_bm verbose opts n (h, er) = Some (Some en, h', er')"
  shows "opts_ok (en_opts en)" "\<exists>N \<ge> unat n. life_inv ar (en_opts en) N (en_bm en, [], m)"
proof -
  obtain k where k: "2 ^ 32 dvd unat (opt_boxsize opts)" "2 ^ 32 \<le> unat (opt_boxsize opts)"
    "unat (opt_boxsize opts) \<le> 2 ^ 62" using o by (rule opts_okE)
  let ?room = "n * fp ar opts + gb 4 + REGION_GUARD ar * 2"
  have r: "boxmap_reserve e h (new_pool ar) ?room = Some (h', en_bm en, True)"
    and op: "en_opts en = (if verbose = Some ''1'' then opts\<lparr>opt_verbose := True\<rparr> else opts)"
    by (rule lfi_new_cases [OF e room, of ok_malloc ok_bm verbose h er]; use new n in simp)+
  show o': "opts_ok (en_opts en)" using o by (simp add: op opts_ok_def)
  have f: "fp ar (en_opts en) = fp ar opts" by (simp add: op)
  have fu: "unat (fp ar opts) = unat (opt_boxsize opts) + unat (BOX_EXTERNAL_GUARD ar)"
    by (rule footprint_unat [OF o])
  have dv: "2 ^ 32 dvd unat (fp ar opts)" unfolding fu using k(1) by (cases ar) simp_all
  have "unat (BOX_EXTERNAL_GUARD ar) \<le> 2 ^ 32" by (cases ar) simp_all
  then have fits: "bm_fits (new_pool ar) (fp ar opts)"
    using dv k(3) fu by (simp add: bm_fits_def chunk_fits_def new_pool_def)
  have "fp ar opts \<noteq> 0" using fu k(2) unfolding word_eq_nat_iff by simp
  moreover have "unat n * unat (fp ar opts) + 2 * unat (bm_guardsize (new_pool ar)) + unat (bm_chunksize (new_pool ar))
      \<le> unat ?room"
    unfolding unat_room [OF room] room_for_def by (simp add: new_pool_def)
  ultimately obtain N where N: "N \<ge> unat n" "pool_cells (fp ar opts) N (en_bm en) []"
    using reserved_pool_cells [OF e new_pool_inv fits _ _ r] by blast
  have "bm_chunksize (en_bm en) = gb 4"
  proof -
    have rm: "2 * unat (bm_guardsize (new_pool ar)) + unat (bm_chunksize (new_pool ar)) \<le> unat ?room"
      unfolding unat_room [OF room] room_for_def by (simp add: new_pool_def)
    show ?thesis
    proof (cases rule: boxmap_reserve_spec [OF e new_pool_inv rm, of h, case_names no reserved])
      case (no h1)
      then show ?thesis using r by simp
    next
      case (reserved p rg)
      then have "en_bm en = (new_pool ar)\<lparr>bm_regions := [rg]\<rparr>" using r by simp
      then show ?thesis by (simp add: new_pool_def)
    qed
  qed
  then show "\<exists>N \<ge> unat n. life_inv ar (en_opts en) N (en_bm en, [], m)"
    using N f by (auto simp: life_inv_def)
qed

text \<open>Live boxes lie apart, each with the page in front of it.\<close>

definition box_range :: "lfi_box \<Rightarrow> nat set" where
  "box_range b = {unat (bx_base b) - unat (bx_ps b) ..< unat (bx_max b)}"

lemma pool_cells_apart:
  assumes "pool_cells f N bm live" "i < j" "j < length live"
  shows "unat (fst (live ! i)) + unat f \<le> unat (fst (live ! j)) \<or> unat (fst (live ! j)) + unat f \<le> unat (fst (live ! i))"
proof -
  obtain r :: region and js where r: "distinct js"
    and live: "list_all2 (\<lambda>(p, n) j. n = f \<and> unat p = unat (rg_base r) + j * unat f) live js"
    using assms(1) unfolding pool_cells_def by blast
  have l: "length js = length live" using list_all2_lengthD [OF live] by simp
  have p: "unat (fst (live ! k)) = unat (rg_base r) + js ! k * unat f" if "k < length live" for k
    using list_all2_nthD [OF live that] by (simp add: case_prod_beta)
  have "js ! i \<noteq> js ! j" using r assms(2,3) l by (simp add: nth_eq_iff_index_eq)
  then have "js ! i + 1 \<le> js ! j \<or> js ! j + 1 \<le> js ! i" by linarith
  then have "(js ! i + 1) * unat f \<le> js ! j * unat f \<or> (js ! j + 1) * unat f \<le> js ! i * unat f"
    by (meson mult_le_mono1)
  then show ?thesis using p [of i] p [of j] assms(2,3) by (simp add: algebra_simps)
qed

lemma life_inv_apart:
  assumes o: "opts_ok opts" and s: "life_inv ar opts N (bm, live, m)" and ar: "ar \<noteq> RISCV64"
    and ij: "i < j" "j < length live"
  shows "box_range (live ! i) \<inter> box_range (live ! j) = {}"
proof -
  have c: "pool_cells (fp ar opts) N bm (map (\<lambda>b. (bx_base b, fp ar opts)) live)"
    and m: "made ar opts b \<and> box_span ar opts (bx_base b)" if "b \<in> set live" for b
    using s that by (simp_all add: life_inv_def)
  obtain k where k: "unat (opt_pagesize opts) = 2 ^ k" "2 ^ k \<le> (65536 :: nat)" "2 ^ 32 \<le> unat (opt_boxsize opts)"
    using o by (rule opts_okE)
  have rng: "box_range b = {unat (bx_base b) - unat (opt_pagesize opts) ..<
      unat (bx_base b) + unat (opt_boxsize opts) - unat (BOX_INTERNAL_GUARD ar)}"
    if "b \<in> set live" for b
    using m [OF that] bounds_unat(2) [OF o, of ar "bx_base b"] by (simp add: box_range_def made_def)
  have g: "unat (opt_pagesize opts) \<le> unat (BOX_EXTERNAL_GUARD ar) + unat (BOX_INTERNAL_GUARD ar)"
    using ar k(1,2) by (cases ar) (simp_all add: kb_def gb_def)
  have ig: "unat (BOX_INTERNAL_GUARD ar) \<le> unat (opt_boxsize opts)" using k(3) by (cases ar) (simp_all add: kb_def)
  have ne: "i < length live" "live ! i \<in> set live" "live ! j \<in> set live" using ij by simp_all
  have "live \<noteq> []" using ij by auto
  then have c': "pool_cells (fp ar opts) N bm (map (\<lambda>b. (bx_base b, fp ar opts)) live)"
    using s by (simp add: life_inv_def)
  have ap: "unat (bx_base (live ! i)) + unat (fp ar opts) \<le> unat (bx_base (live ! j)) \<or>
      unat (bx_base (live ! j)) + unat (fp ar opts) \<le> unat (bx_base (live ! i))"
    using pool_cells_apart [OF c' ij(1)] ij ne(1) by simp
  have apart: "{x - ps ..< x + sz - ig} \<inter> {y - ps ..< y + sz - ig} = {}"
    if "x + (sz + eg) \<le> y \<or> y + (sz + eg) \<le> x" "ps \<le> eg + ig" "ig \<le> sz" for x y sz eg ig ps :: nat
    using that by (auto simp: disjoint_iff)
  show ?thesis unfolding rng [OF ne(2)] rng [OF ne(3)]
    by (rule apart [OF _ g ig]) (use ap in \<open>simp only: footprint_unat [OF o]\<close>)
qed

subsection \<open>An engine in numbers\<close>

definition big_env :: bm_env where
  "big_env = \<lparr>env_mmap = (\<lambda>h sz. if h = [] \<and> 0 < sz \<and> sz \<le> 0x10000000000 then Some 0x200000000 else None),
     env_fixed = (\<lambda>p sz. True), env_malloc = (\<lambda>p. True), env_calloc = (\<lambda>p. True)\<rparr>"

lemma big_env_ok: "env_ok big_env"
  by (auto simp: env_ok_def big_env_def word_le_nat_alt split: if_splits)

definition big_opts :: lfi_options where
  "big_opts = \<lparr>opt_pagesize = 4096, opt_boxsize = 0x100000000, opt_verbose = False,
     opt_stores_only = False, opt_no_verify = False, opt_allow_wx = False, opt_no_aslr = True,
     opt_no_init_sigaltstack = False\<rparr>"

lemma big_opts_ok: "opts_ok big_opts"
  by (auto simp: opts_ok_def big_opts_def intro!: exI [of _ 12])

definition big_pool :: "u64 \<Rightarrow> u64 \<Rightarrow> u64 \<Rightarrow> u64 \<Rightarrow> u8 \<Rightarrow> boxmap" where
  "big_pool base n guard active bits = \<lparr>bm_regions = [\<lparr>rg_base = base * 0x100000000, rg_size = n * 0x100000000, rg_active = active,
      rg_alloc = \<lparr>ea_base = base, ea_size = n, ea_chunksize = 0x100000000, ea_bitvec = [bits]\<rparr>,
      rg_mapbase = 0x200000000, rg_mapsize = n * 0x100000000 + 2 * guard\<rparr>],
    bm_chunksize = 0x100000000, bm_guardsize = guard\<rparr>"

definition big_engine :: "arch \<Rightarrow> boxmap \<Rightarrow> engine" where
  "big_engine ar bm = \<lparr>en_bm = bm, en_opts = big_opts, en_verifier = init_verifier ar big_opts zero_verifier,
     en_sys_handler = None, en_clone_cb = None\<rparr>"

lemma big_new: "lfi_new big_env RISCV64 True True None big_opts 2 ([], er) =
    Some (Some (big_engine RISCV64 (big_pool 2 3 0 0 0)), [(0x200000000, 0x300000000)], er)"
  apply (simp add: lfi_new_def boxmap_new_def big_opts_def box_footprint_def gb_def Let_def big_pool_def big_engine_def)
    unfolding boxmap_reserve_def reserve_loop_first
    by (simp add: reserve_exact big_env_def addregion_def ADDR_REGION_MAX_def
        extalloc_new_def bm_truncp_def bm_ceilp_def Let_def)

lemma big_new_x64: "lfi_new big_env X64 True True None big_opts 2 ([], er) =
    Some (Some (big_engine X64 (big_pool 3 5 0x100000000 0 0)), [(0x200000000, 0x700000000)], er)"
  apply (simp add: lfi_new_def boxmap_new_def big_opts_def box_footprint_def gb_def Let_def big_pool_def big_engine_def)
    unfolding boxmap_reserve_def reserve_loop_first
    by (simp add: reserve_exact big_env_def addregion_def ADDR_REGION_MAX_def
        extalloc_new_def bm_truncp_def bm_ceilp_def Let_def)

lemma big_room: "room_for X64 big_opts (unat (2 :: u64)) < 2 ^ 64"
  by (simp add: room_for_def big_opts_def box_footprint_def gb_def)

lemma big_add1: "boxmap_addspace (big_pool 2 3 0 0 0) 0x100000000 = Some (0x200000000, big_pool 2 3 0 1 0x80)"
  by (simp add: big_pool_def boxmap_addspace_def extalloc_alloc_def chunks_ceil_def bitvec_find_zeroes_def find_zeroes_loop.simps [of _ 3]
    bitvec_bit_def bitvec_set_def bitvec_set1_def Let_def)
lemma big_add2: "boxmap_addspace (big_pool 2 3 0 1 0x80) 0x100000000 = Some (0x300000000, big_pool 2 3 0 2 0xC0)"
  by (simp add: big_pool_def boxmap_addspace_def extalloc_alloc_def chunks_ceil_def bitvec_find_zeroes_def find_zeroes_loop.simps [of _ 3]
    bitvec_bit_def bitvec_set_def bitvec_set1_def Let_def)

definition big_box :: "u64 \<Rightarrow> lfi_box" where
  "big_box p = \<lparr>bx_opts = big_opts, bx_base = p, bx_size = 0x100000000, bx_min = p + 4096,
     bx_max = p + 0x100000000, bx_max_exec = p + 0x100000000,
     bx_mm = \<lparr>as_base = drop_bit 12 (p + 4096), as_len = 0xFFFFF, as_p2 = 12, as_aslr = False, as_rand = 0, as_regions = []\<rparr>,
     bx_sys_page = Some (p - 4096), bx_sys = Some (sys_init None), bx_retaddr = 0, bx_userdata = 0\<rparr>"

lemma p2_4096: "p2_loop 4096 0 = 12" using p2_loop_power [of 12 0] by simp

lemma big_box1: "\<exists>m'. lfi_box_new demo_env RISCV64 big_opts True True True 0 (big_pool 2 3 0 0 0) m = Some (Inr (big_box 0x200000000), big_pool 2 3 0 1 0x80, m')"
  by (simp add: lfi_box_new_def box_footprint_def big_opts_def big_add1 syssetup_def sys_page_init_def vm_mmap_def vm_mprotect_def
    page_aligned_def demo_env_def Let_def as_init_def p2_4096 to_page_def to_page_ceil_def page_mask_def big_box_def kb_def)

lemma big_box2: "\<exists>m'. lfi_box_new demo_env RISCV64 big_opts True True True 0 (big_pool 2 3 0 1 0x80) m = Some (Inr (big_box 0x300000000), big_pool 2 3 0 2 0xC0, m')"
  by (simp add: lfi_box_new_def box_footprint_def big_opts_def big_add2 syssetup_def sys_page_init_def vm_mmap_def vm_mprotect_def
    page_aligned_def demo_env_def Let_def as_init_def p2_4096 to_page_def to_page_ceil_def page_mask_def big_box_def kb_def)

lemma big_remap: "\<exists>b' m'. lfi_box_mapat demo_env 0x2FFFFF000 4096 3 34 (-1) 0 (big_box 0x200000000, m) = Some (0x2FFFFF000, b', m') \<and>
  acc_w (vm_acc m' 0x2FFFFF)"
  by (simp add: args_ok_def as_unmap_def lfi_box_mapat_def box_mapat_locked_def lfi_box_bufvalid_def big_box_def map_at_def check_in_region_def big_opts_def
    as_is_valid_def to_page_def to_page_ceil_def page_mask_def Let_def mapverify_def mapmem_def vm_mmap_def page_aligned_def demo_env_def
    host_prot_def host_flags_def has_flag_def lfi_flags in_pages_def pg_def cbunmaps_def MM_FAIL_def)

subsection \<open>Properties\<close>

text \<open>Creating an engine either fails, with the host's mappings as before and an error set, or
  gives an engine with the options of the caller and the verifier set up unless it was disabled;
  the pool then satisfies its invariant, has nothing handed out, and holds one region reserved for
  the number of boxes asked for.\<close>

theorem lfi_new_spec:
  assumes "env_ok e" "room_for ar opts (unat n) < 2 ^ 64"
  shows "\<exists>r h' er'. lfi_new e ar ok_malloc ok_bm verbose opts n (h, er) = Some (r, h', er') \<and>
    (case r of
       None \<Rightarrow> h' = h \<and> es_error er' \<in> err_code ` {ERR_ALLOC, ERR_BOXMAP, ERR_RESERVE}
     | Some en \<Rightarrow> er' = er \<and> bm_inv (en_bm en) \<and> bm_used (en_bm en) = {} \<and>
         opt_boxsize (en_opts en) = opt_boxsize opts \<and>
         (vf_verify (en_verifier en) = None \<longleftrightarrow> opt_no_verify opts) \<and>
         (\<exists>p. h' = (if n = 0 then h else (p, of_nat (room_for ar opts (unat n))) # h)))"
proof (cases rule: lfi_new_cases [OF assms, of ok_malloc ok_bm verbose h er, case_names failed created])
  case (failed er')
  then show ?thesis by simp
next
  case (created en h')
  let ?room = "n * box_footprint ar (opt_boxsize opts) + gb 4 + REGION_GUARD ar * 2"
  have ur: "of_nat (room_for ar opts (unat n)) = ?room"
    unfolding unat_room [OF assms(2), symmetric] by simp
  have pool: "bm_inv (en_bm en) \<and> bm_used (en_bm en) = {} \<and> (\<exists>p. h' = (if n = 0 then h else (p, ?room) # h))"
  proof (cases "n = 0")
    case True
    then show ?thesis using created(2) new_pool_inv by (simp add: bm_used_def)
  next
    case False
    have r: "boxmap_reserve e h (new_pool ar) ?room = Some (h', en_bm en, True)" using created(3) False by simp
    have rm: "2 * unat (bm_guardsize (new_pool ar)) + unat (bm_chunksize (new_pool ar)) \<le> unat ?room"
      unfolding unat_room [OF assms(2)] room_for_def by (simp add: new_pool_def)
    show ?thesis
    proof (cases rule: boxmap_reserve_spec [OF assms(1) new_pool_inv rm, of h, case_names no reserved])
      case (no h1)
      then show ?thesis using r by simp
    next
      case (reserved p rg)
      then have "en_bm en = (new_pool ar)\<lparr>bm_regions := [rg]\<rparr>" "h' = (p, ?room) # h" using r by simp_all
      then show ?thesis using False reserved(2,3) new_pool_inv by (simp add: bm_inv_def bm_used_def)
    qed
  qed
  have "vf_verify (en_verifier en) = None \<longleftrightarrow> opt_no_verify opts"
    by (simp add: created(5) init_verifier_def zero_verifier_def)
  then show ?thesis using created(1,4) pool unfolding ur by simp
qed

lemma lfi_new_spec_witness:
  "\<exists>r h' er'. lfi_new big_env X64 True True None big_opts 2 ([], \<lparr>es_error = 0, es_desc = None\<rparr>) = Some (r, h', er') \<and>
    (case r of
       None \<Rightarrow> h' = [] \<and> es_error er' \<in> err_code ` {ERR_ALLOC, ERR_BOXMAP, ERR_RESERVE}
     | Some en \<Rightarrow> er' = \<lparr>es_error = 0, es_desc = None\<rparr> \<and> bm_inv (en_bm en) \<and> bm_used (en_bm en) = {} \<and>
         opt_boxsize (en_opts en) = opt_boxsize big_opts \<and>
         (vf_verify (en_verifier en) = None \<longleftrightarrow> opt_no_verify big_opts) \<and>
         (\<exists>p. h' = (if 2 = (0 :: u64) then [] else [(p, of_nat (room_for X64 big_opts (unat (2 :: u64))))])))"
  by (rule lfi_new_spec [OF big_env_ok big_room])

text \<open>C16: An engine created for \<open>n\<close> boxes never refuses a box for lack of address space while fewer
  than \<open>n\<close> are live: along any sequence of creations, with any of their steps failing, and
  releases, no assertion fails and \<^verbatim>\<open>lfi_box_new\<close> does not give the error of a full pool.\<close>

theorem engine_capacity:
  assumes "env_ok e" "opts_ok opts" "room_for ar opts (unat n) < 2 ^ 64" "n \<noteq> 0"
    and "lfi_new e ar ok_malloc ok_bm verbose opts n (h, er) = Some (Some en, h', er')"
    and "\<forall>c \<in> set cs. frees_ok c"
  shows "\<exists>bm live m'. life_run ar (en_opts en) cs (en_bm en, [], m) = Some (bm, live, m') \<and>
    (length live < unat n \<longrightarrow> (\<exists>r bm' m''.
       lfi_box_new e' ar (en_opts en) ok1 ok2 ok3 seed bm m' = Some (r, bm', m'') \<and> r \<noteq> Inl ERR_BOXMAP))"
proof -
  note o = new_engine_inv(1) [OF assms(1-5)]
  obtain N where N: "N \<ge> unat n" "life_inv ar (en_opts en) N (en_bm en, [], m)"
    using new_engine_inv(2) [OF assms(1-5)] by blast
  from life_run_inv [OF o assms(6) N(2)] obtain bm live m' where
    run: "life_run ar (en_opts en) cs (en_bm en, [], m) = Some (bm, live, m')"
    "life_inv ar (en_opts en) N (bm, live, m')" by auto
  have inv: "pool_cells (fp ar (en_opts en)) N bm (map (\<lambda>b. (bx_base b, fp ar (en_opts en))) live)"
    "bm_chunksize bm = gb 4" using run(2) by (simp_all add: life_inv_def)
  obtain r bm' m'' where new: "lfi_box_new e' ar (en_opts en) ok1 ok2 ok3 seed bm m' = Some (r, bm', m'')"
    and post: "case r of
       Inl er \<Rightarrow> pool_cells (fp ar (en_opts en)) N bm' (map (\<lambda>b. (bx_base b, fp ar (en_opts en))) live) \<and>
         (er = ERR_BOXMAP \<longrightarrow> length (map (\<lambda>b. (bx_base b, fp ar (en_opts en))) live) = N)
     | Inr b \<Rightarrow> pool_cells (fp ar (en_opts en)) N bm'
           ((bx_base b, fp ar (en_opts en)) # map (\<lambda>b. (bx_base b, fp ar (en_opts en))) live) \<and>
         made ar (en_opts en) b \<and> box_span ar (en_opts en) (bx_base b)"
    using box_new_step [OF inv o, of e' ok1 ok2 ok3 seed m'] by blast
  have "length live < unat n \<longrightarrow> r \<noteq> Inl ERR_BOXMAP" using post N(1) by (cases r) auto
  then show ?thesis using run(1) new by blast
qed

lemma engine_capacity_witness:
  "\<exists>bm live m'. life_run X64 big_opts [NewBox demo_env True True True 0, NewBox demo_env True False True 0,
      FreeBox demo_env 0] (big_pool 3 5 0x100000000 0 0, [], demo_vm) = Some (bm, live, m') \<and>
    (length live < unat (2 :: u64) \<longrightarrow> (\<exists>r bm' m''.
       lfi_box_new demo_env X64 big_opts True True True 0 bm m' = Some (r, bm', m'') \<and> r \<noteq> Inl ERR_BOXMAP))"
proof -
  have "(2 :: u64) \<noteq> 0" "\<forall>c \<in> set [NewBox demo_env True True True 0, NewBox demo_env True False True 0,
      FreeBox demo_env 0]. frees_ok c" by (simp_all add: demo_env_def)
  from engine_capacity [OF big_env_ok big_opts_ok big_room this(1) big_new_x64 this(2), of demo_vm demo_env True True True 0]
  show ?thesis by (simp only: big_engine_def engine.select_convs)
qed

text \<open>C4: On x86-64 and arm64, along any sequence of creations and releases of boxes of an engine, the
  live boxes lie apart: no byte that one box can use, and no byte of the runtime-call page in front
  of one, is usable by another.\<close>

theorem engine_boxes_apart:
  assumes "env_ok e" "opts_ok opts" "room_for ar opts (unat n) < 2 ^ 64" "n \<noteq> 0" "ar \<noteq> RISCV64"
    and "lfi_new e ar ok_malloc ok_bm verbose opts n (h, er) = Some (Some en, h', er')"
    and "\<forall>c \<in> set cs. frees_ok c"
  shows "\<exists>bm live m'. life_run ar (en_opts en) cs (en_bm en, [], m) = Some (bm, live, m') \<and>
    (\<forall>b \<in> set live. box_ok b \<and> bx_sys_page b = Some (bx_base b - bx_ps b)) \<and>
    (\<forall>i j. i < j \<and> j < length live \<longrightarrow> box_range (live ! i) \<inter> box_range (live ! j) = {})"
proof -
  note o = new_engine_inv(1) [OF assms(1-4,6)]
  obtain N where N: "life_inv ar (en_opts en) N (en_bm en, [], m)"
    using new_engine_inv(2) [OF assms(1-4,6)] by blast
  from life_run_inv [OF o assms(7) N] obtain bm live m' where
    run: "life_run ar (en_opts en) cs (en_bm en, [], m) = Some (bm, live, m')"
    "life_inv ar (en_opts en) N (bm, live, m')" by auto
  have "\<forall>b \<in> set live. box_ok b \<and> bx_sys_page b = Some (bx_base b - bx_ps b)"
    using run(2) by (auto simp: life_inv_def made_def)
  moreover have "\<forall>i j. i < j \<and> j < length live \<longrightarrow> box_range (live ! i) \<inter> box_range (live ! j) = {}"
    using life_inv_apart [OF o run(2) assms(5)] by blast
  ultimately show ?thesis using run(1) by (intro exI conjI)
qed

lemma engine_boxes_apart_witness:
  "\<exists>bm live m'. life_run X64 big_opts [NewBox demo_env True True True 0, NewBox demo_env True True True 0]
      (big_pool 3 5 0x100000000 0 0, [], demo_vm) = Some (bm, live, m') \<and>
    (\<forall>b \<in> set live. box_ok b \<and> bx_sys_page b = Some (bx_base b - bx_ps b)) \<and>
    (\<forall>i j. i < j \<and> j < length live \<longrightarrow> box_range (live ! i) \<inter> box_range (live ! j) = {})"
proof -
  have "(2 :: u64) \<noteq> 0" "X64 \<noteq> RISCV64" "\<forall>c \<in> set [NewBox demo_env True True True 0, NewBox demo_env True True True 0].
      frees_ok c" by simp_all
  from engine_boxes_apart [OF big_env_ok big_opts_ok big_room this(1,2) big_new_x64 this(3), of demo_vm]
  show ?thesis by (simp only: big_engine_def engine.select_convs)
qed

text \<open>C39: On riscv64 the live boxes of an engine do not lie apart: of two boxes created one after the
  other, the runtime-call page of the second is the last page that the first may map, and a
  request to map that page for the first succeeds and makes it writable.\<close>

theorem riscv_call_page_exposed:
  "\<exists>en h' bm m1 b1 b2 b1' m2.
     lfi_new big_env RISCV64 True True None big_opts 2 ([], er) = Some (Some en, h', er) \<and>
     life_run RISCV64 (en_opts en) [NewBox demo_env True True True 0, NewBox demo_env True True True 0]
       (en_bm en, [], m) = Some (bm, [b2, b1], m1) \<and>
     bx_sys_page b2 = Some 0x2FFFFF000 \<and>
     lfi_box_mapat demo_env 0x2FFFFF000 4096 3 34 (-1) 0 (b1, m1) = Some (0x2FFFFF000, b1', m2) \<and>
     acc_w (vm_acc m2 0x2FFFFF)"
proof -
  obtain ma where a: "lfi_box_new demo_env RISCV64 big_opts True True True 0 (big_pool 2 3 0 0 0) m =
      Some (Inr (big_box 0x200000000), big_pool 2 3 0 1 0x80, ma)" using big_box1 by blast
  obtain mb where b: "lfi_box_new demo_env RISCV64 big_opts True True True 0 (big_pool 2 3 0 1 0x80) ma =
      Some (Inr (big_box 0x300000000), big_pool 2 3 0 2 0xC0, mb)" using big_box2 by blast
  have r: "life_run RISCV64 big_opts [NewBox demo_env True True True 0, NewBox demo_env True True True 0]
      (big_pool 2 3 0 0 0, [], m) =
      Some (big_pool 2 3 0 2 0xC0, [big_box 0x300000000, big_box 0x200000000], mb)"
    by (simp add: a b)
  obtain b1' mc where c: "lfi_box_mapat demo_env 0x2FFFFF000 4096 3 34 (-1) 0 (big_box 0x200000000, mb) =
      Some (0x2FFFFF000, b1', mc)" "acc_w (vm_acc mc 0x2FFFFF)" using big_remap by blast
  have "bx_sys_page (big_box 0x300000000) = Some 0x2FFFFF000" by (simp add: big_box_def)
  moreover have "en_opts (big_engine RISCV64 q) = big_opts" "en_bm (big_engine RISCV64 q) = q" for q
    by (simp_all add: big_engine_def)
  ultimately show ?thesis using big_new [of er] r c
    by (intro exI [of _ "big_engine RISCV64 (big_pool 2 3 0 0 0)"] exI [of _ "big_pool 2 3 0 2 0xC0"]) auto
qed

text \<open>A box size that is not a whole number of 4 GiB chunks ends the process at the first box: the
  allocator asserts that the footprint is a multiple of its chunk size, which neither the options
  nor the creation of the engine check.\<close>

theorem odd_boxsize_aborts:
  assumes "bm_regions bm = r # rs" "ea_chunksize (rg_alloc r) = gb 4"
    and "\<not> 2 ^ 32 dvd unat (box_footprint ar (opt_boxsize opts))"
  shows "lfi_box_new e ar opts True ok_lock ok_mm seed bm m = None"
proof -
  have "box_footprint ar (opt_boxsize opts) mod gb 4 \<noteq> 0"
    using assms(3) unfolding mod_eq_0_nat_iff by simp
  then show ?thesis
    using assms(1,2) by (simp add: lfi_box_new_def boxmap_addspace_def extalloc_alloc_def)
qed

lemma odd_boxsize_aborts_witness:
  "lfi_box_new demo_env ARM64 (big_opts\<lparr>opt_boxsize := 0x40000000\<rparr>) True True True 0 (big_pool 2 3 0 0 0) demo_vm = None"
  by (rule odd_boxsize_aborts [OF _ _ , of _ "\<lparr>rg_base = 0x200000000, rg_size = 0x300000000, rg_active = 0,
      rg_alloc = \<lparr>ea_base = 2, ea_size = 3, ea_chunksize = 0x100000000, ea_bitvec = [0]\<rparr>,
      rg_mapbase = 0x200000000, rg_mapsize = 0x300000000\<rparr>" "[]"])
    (simp_all add: big_pool_def gb_def box_footprint_def)

end
