(* ===== verification/ThreadState.thy ===== *)
theory ThreadState
  imports Engine
begin

text \<open>
  What a host thread that has entered a sandbox has to release when it ends, \<^verbatim>\<open>core/core.c\<close>:
  the alternate signal stack the runtime gave it and the cleanup the host registered. The C
  library is the parameter \<open>thread_env\<close>: which calls succeed and what \<^verbatim>\<open>malloc\<close> returns.
\<close>

record thread_env =
  te_key :: bool
  te_setspecific :: bool
  te_query :: bool
  te_malloc :: "u64 option"
  te_set :: bool

text \<open>What the thread does to the outside, the newest first.\<close>

datatype th_event = Alloc u64 | Release u64 | Cleanup nat u64 | Disable

text \<open>
  The thread-local variables, the once-initialized \<^verbatim>\<open>tstate_key_ready\<close>, the signal stack the
  kernel has for the thread (\<open>None\<close> is \<^verbatim>\<open>SS_DISABLE\<close>), and the events.
\<close>

record thread =
  ts_altstack :: "u64 option"
  ts_cleanup :: "nat option"
  ts_cleanup_data :: u64
  ts_armed :: bool
  ts_altdone :: bool
  ts_key_ready :: "bool option"
  ts_ss :: "u64 option"
  ts_errors :: errors
  ts_log :: "th_event list"

definition log_event :: "th_event \<Rightarrow> thread \<Rightarrow> thread" where
  "log_event ev s = s\<lparr>ts_log := ev # ts_log s\<rparr>"

definition th_error :: "lfi_error \<Rightarrow> thread \<Rightarrow> thread" where
  "th_error er s = s\<lparr>ts_errors := (ts_errors s)\<lparr>es_error := err_code er\<rparr>\<rparr>"

subsection \<open>Arming and setting up\<close>

definition has_sigaltstack :: "thread_env \<Rightarrow> thread \<Rightarrow> bool" where
  "has_sigaltstack e s =
     (if \<not> te_query e then False
      else case ts_ss s of None \<Rightarrow> False | Some p \<Rightarrow> p \<noteq> 0)"

definition disable_sigaltstack :: "thread \<Rightarrow> thread" where
  "disable_sigaltstack s = log_event Disable (s\<lparr>ts_ss := None\<rparr>)"

definition init_tstate_key :: "thread_env \<Rightarrow> thread \<Rightarrow> thread" where
  "init_tstate_key e s = s\<lparr>ts_key_ready := Some (te_key e)\<rparr>"

definition arm_tstate :: "thread_env \<Rightarrow> thread \<Rightarrow> bool \<times> thread" where
  "arm_tstate e s =
     (if ts_armed s then (True, s)
      else let s = (if ts_key_ready s = None then init_tstate_key e s else s)
           in if ts_key_ready s \<noteq> Some True \<or> \<not> te_setspecific e then (False, s)
              else (True, s\<lparr>ts_armed := True\<rparr>))"

definition lfi_set_thread_cleanup :: "thread_env \<Rightarrow> nat option \<Rightarrow> u64 \<Rightarrow> thread \<Rightarrow> bool \<times> thread" where
  "lfi_set_thread_cleanup e cleanup data s =
     (let (ok, s) = arm_tstate e s
      in if \<not> ok then (False, s)
         else (True, s\<lparr>ts_cleanup := cleanup, ts_cleanup_data := data\<rparr>))"

definition lfi_thread_cleanup_data :: "thread \<Rightarrow> u64" where
  "lfi_thread_cleanup_data s = ts_cleanup_data s"

definition lfi_init_sigaltstack :: "thread_env \<Rightarrow> lfi_options \<Rightarrow> thread \<Rightarrow> thread" where
  "lfi_init_sigaltstack e opts s =
     (if opt_no_init_sigaltstack opts \<or> ts_altdone s then s
      else let s = s\<lparr>ts_altdone := True\<rparr>
           in if has_sigaltstack e s then s
              else let (ok, s) = arm_tstate e s
                   in if \<not> ok then th_error ERR_SIGALTSTACK s
                      else case te_malloc e of
                        None \<Rightarrow> th_error ERR_ALLOC s
                      | Some p \<Rightarrow>
                          let s = log_event (Alloc p) s
                          in if \<not> te_set e then th_error ERR_SIGALTSTACK (log_event (Release p) s)
                             else s\<lparr>ts_ss := Some p, ts_altstack := Some p\<rparr>)"

subsection \<open>The end of a thread\<close>

text \<open>
  The calls that reach this state; the host's cleanup may make them too (\<open>acts f d\<close>), and the
  host may set a signal stack of its own.
\<close>

datatype th_op = Enter thread_env lfi_options | SetCleanup thread_env "nat option" u64 | HostStack "u64 option"

fun th_do :: "th_op \<Rightarrow> thread \<Rightarrow> thread" where
  "th_do (Enter e opts) s = lfi_init_sigaltstack e opts s"
| "th_do (SetCleanup e f d) s = snd (lfi_set_thread_cleanup e f d s)"
| "th_do (HostStack p) s = s\<lparr>ts_ss := p\<rparr>"

definition tstate_destructor :: "(nat \<Rightarrow> u64 \<Rightarrow> th_op list) \<Rightarrow> thread \<Rightarrow> thread" where
  "tstate_destructor acts s =
     (let s = (case ts_cleanup s of
                 None \<Rightarrow> s
               | Some f \<Rightarrow>
                   (let s = s\<lparr>ts_cleanup := None\<rparr>
                    in fold th_do (acts f (ts_cleanup_data s)) (log_event (Cleanup f (ts_cleanup_data s)) s)))
      in case ts_altstack s of
           None \<Rightarrow> s
         | Some p \<Rightarrow> (log_event (Release p) (disable_sigaltstack s))\<lparr>ts_altstack := None\<rparr>)"

text \<open>The C library runs the destructor of a key that was set.\<close>

definition thread_exit :: "(nat \<Rightarrow> u64 \<Rightarrow> th_op list) \<Rightarrow> thread \<Rightarrow> thread" where
  "thread_exit acts s = (if ts_armed s then tstate_destructor acts s else s)"

definition fresh_thread :: "bool option \<Rightarrow> u64 option \<Rightarrow> thread" where
  "fresh_thread key ss = \<lparr>ts_altstack = None, ts_cleanup = None, ts_cleanup_data = 0, ts_armed = False,
     ts_altdone = False, ts_key_ready = key, ts_ss = ss, ts_errors = \<lparr>es_error = 0, es_desc = None\<rparr>,
     ts_log = []\<rparr>"

subsection \<open>Nothing is leaked\<close>

text \<open>The allocations not yet released, and whether only such are released.\<close>

fun held :: "th_event list \<Rightarrow> u64 list" where
  "held [] = []"
| "held (Alloc p # l) = p # held l"
| "held (Release p # l) = remove1 p (held l)"
| "held (_ # l) = held l"

fun releases_ok :: "th_event list \<Rightarrow> bool" where
  "releases_ok [] \<longleftrightarrow> True"
| "releases_ok (Release p # l) \<longleftrightarrow> p \<in> set (held l) \<and> releases_ok l"
| "releases_ok (_ # l) \<longleftrightarrow> releases_ok l"

definition th_inv :: "thread \<Rightarrow> bool" where
  "th_inv s \<longleftrightarrow> held (ts_log s) = (case ts_altstack s of None \<Rightarrow> [] | Some p \<Rightarrow> [p]) \<and>
     releases_ok (ts_log s) \<and> (ts_altstack s \<noteq> None \<longrightarrow> ts_armed s \<and> ts_altdone s) \<and>
     (ts_cleanup s \<noteq> None \<longrightarrow> ts_armed s) \<and> Disable \<notin> set (ts_log s)"

named_theorems th_defs \<open>the operations of a thread\<close>

declare arm_tstate_def [th_defs] init_tstate_key_def [th_defs] log_event_def [th_defs] th_error_def [th_defs]

lemma arm_keeps:
  assumes "arm_tstate e s = (ok, s')"
  shows "ts_altstack s' = ts_altstack s" "ts_cleanup s' = ts_cleanup s" "ts_log s' = ts_log s"
    "ts_altdone s' = ts_altdone s" "ts_ss s' = ts_ss s" "ts_armed s \<longrightarrow> ts_armed s'" "ok \<longleftrightarrow> ts_armed s'"
    "ts_cleanup_data s' = ts_cleanup_data s"
  using assms by (auto simp: th_defs Let_def split: if_splits)

lemma th_do_inv: "th_inv s \<Longrightarrow> th_inv (th_do c s)"
proof (cases c)
  case (Enter e opts)
  assume inv: "th_inv s"
  show ?thesis
  proof (cases "opt_no_init_sigaltstack opts \<or> ts_altdone s")
    case True
    then show ?thesis using inv by (simp add: Enter lfi_init_sigaltstack_def)
  next
    case False
    let ?s = "s\<lparr>ts_altdone := True\<rparr>"
    obtain ok s' where a: "arm_tstate e ?s = (ok, s')" by (cases "arm_tstate e ?s")
    have none: "ts_altstack s = None" using inv False by (auto simp: th_inv_def)
    show ?thesis
      using inv none False arm_keeps [OF a] a
      by (auto simp: Enter lfi_init_sigaltstack_def Let_def th_inv_def log_event_def th_error_def split: option.split)
  qed
next
  case (SetCleanup e f d)
  assume inv: "th_inv s"
  obtain ok s' where a: "arm_tstate e s = (ok, s')" by (cases "arm_tstate e s")
  show ?thesis
    using inv arm_keeps [OF a] a
    by (auto simp: SetCleanup lfi_set_thread_cleanup_def th_inv_def split: option.splits)
next
  case (HostStack p)
  assume "th_inv s"
  then show ?thesis by (simp add: HostStack th_inv_def)
qed

lemma th_dos_inv: "th_inv s \<Longrightarrow> th_inv (fold th_do cs s)"
  by (induction cs arbitrary: s) (simp_all add: th_do_inv)

lemma th_do_armed: "ts_armed s \<Longrightarrow> ts_armed (th_do c s)"
proof (cases c)
  case (Enter e opts)
  assume armed: "ts_armed s"
  then show ?thesis
    by (auto simp: Enter lfi_init_sigaltstack_def arm_tstate_def log_event_def th_error_def Let_def split: option.split)
next
  case (SetCleanup e f d)
  assume "ts_armed s"
  then show ?thesis by (simp add: SetCleanup lfi_set_thread_cleanup_def arm_tstate_def)
qed simp

lemma th_dos_armed: "ts_armed s \<Longrightarrow> ts_armed (fold th_do cs s)"
  by (induction cs arbitrary: s) (simp_all add: th_do_armed)

lemma fresh_inv: "th_inv (fresh_thread key ss)"
  by (simp add: th_inv_def fresh_thread_def)

definition thread_after :: "th_op list \<Rightarrow> bool option \<Rightarrow> u64 option \<Rightarrow> thread" where
  "thread_after cs key ss = fold th_do cs (fresh_thread key ss)"

text \<open>The events of an operation come on top of the earlier ones.\<close>

lemma th_do_log: "\<exists>l. ts_log (th_do c s) = l @ ts_log s"
proof (cases c)
  case (Enter e opts)
  obtain ok s' where a: "arm_tstate e (s\<lparr>ts_altdone := True\<rparr>) = (ok, s')"
    by (cases "arm_tstate e (s\<lparr>ts_altdone := True\<rparr>)")
  show ?thesis
    using arm_keeps(3) [OF a] a
    by (simp add: Enter lfi_init_sigaltstack_def Let_def log_event_def th_error_def split: option.split)
next
  case (SetCleanup e f d)
  obtain ok s' where a: "arm_tstate e s = (ok, s')" by (cases "arm_tstate e s")
  then show ?thesis using arm_keeps(3) [OF a] by (simp add: SetCleanup lfi_set_thread_cleanup_def)
qed simp

lemma th_dos_log: "\<exists>l. ts_log (fold th_do cs s) = l @ ts_log s"
proof (induction cs arbitrary: s)
  case (Cons c cs)
  obtain l where "ts_log (th_do c s) = l @ ts_log s" using th_do_log by blast
  moreover obtain l' where "ts_log (fold th_do cs (th_do c s)) = l' @ ts_log (th_do c s)" using Cons.IH by blast
  ultimately show ?case by simp
qed simp

subsection \<open>Properties\<close>

text \<open>C27: Whatever a thread did, entering sandboxes, registering cleanups and changing its signal stack,
  with any call of the C library failing, its end releases every signal stack the runtime
  allocated for it, each exactly once, runs the cleanup that is registered then, and runs it
  before a signal stack is disabled and released.\<close>

theorem thread_exit_releases:
  "held (ts_log (thread_exit acts (thread_after cs key ss))) = [] \<and>
    releases_ok (ts_log (thread_exit acts (thread_after cs key ss))) \<and>
    (case ts_cleanup (thread_after cs key ss) of
       None \<Rightarrow> True
     | Some f \<Rightarrow> \<exists>l. ts_log (thread_exit acts (thread_after cs key ss)) =
         l @ Cleanup f (ts_cleanup_data (thread_after cs key ss)) # ts_log (thread_after cs key ss) \<and>
         Disable \<notin> set (ts_log (thread_after cs key ss)))"
proof -
  let ?s = "thread_after cs key ss"
  have inv: "th_inv ?s" unfolding thread_after_def by (intro th_dos_inv fresh_inv)
  show ?thesis
  proof (cases "ts_armed ?s")
    case False
    then show ?thesis using inv by (auto simp: thread_exit_def th_inv_def split: option.splits)
  next
    case True
    define s1 where "s1 = (case ts_cleanup ?s of None \<Rightarrow> ?s
      | Some f \<Rightarrow> fold th_do (acts f (ts_cleanup_data ?s))
          (log_event (Cleanup f (ts_cleanup_data ?s)) (?s\<lparr>ts_cleanup := None\<rparr>)))"
    have x: "thread_exit acts ?s = (case ts_altstack s1 of None \<Rightarrow> s1
      | Some p \<Rightarrow> (log_event (Release p) (disable_sigaltstack s1))\<lparr>ts_altstack := None\<rparr>)"
      using True by (simp add: thread_exit_def tstate_destructor_def s1_def Let_def split: option.splits)
    have inv1: "th_inv s1"
    proof (cases "ts_cleanup ?s")
      case (Some f)
      have "th_inv (log_event (Cleanup f (ts_cleanup_data ?s)) (?s\<lparr>ts_cleanup := None\<rparr>))"
        using inv by (simp add: th_inv_def log_event_def)
      then show ?thesis by (simp add: s1_def Some th_dos_inv)
    qed (use inv in \<open>simp add: s1_def\<close>)
    have "held (ts_log (thread_exit acts ?s)) = [] \<and> releases_ok (ts_log (thread_exit acts ?s))"
      using inv1 by (auto simp: x th_inv_def log_event_def disable_sigaltstack_def split: option.splits)
    moreover have "\<exists>l. ts_log (thread_exit acts ?s) = l @ ts_log s1"
      by (auto simp: x log_event_def disable_sigaltstack_def split: option.split)
    moreover have "\<exists>l. ts_log s1 = l @ Cleanup f (ts_cleanup_data ?s) # ts_log ?s" if "ts_cleanup ?s = Some f" for f
      using th_dos_log [of "acts f (ts_cleanup_data ?s)" "log_event (Cleanup f (ts_cleanup_data ?s)) (?s\<lparr>ts_cleanup := None\<rparr>)"]
      by (simp add: s1_def that log_event_def)
    ultimately show ?thesis using inv by (auto simp: th_inv_def split: option.split)
  qed
qed

end
