(* ===== verification/FdTable.thy ===== *)
theory FdTable
  imports Prelude
begin

text \<open>
  The table of a process's file descriptors, \<^verbatim>\<open>linux/fd.c\<close>: sandbox descriptors are slots that
  hold descriptors of the host. The host kernel is a map from its open descriptors to open
  files; the number \<^verbatim>\<open>dup\<close> and \<^verbatim>\<open>open\<close> return is an argument (-1 for a failure), which the
  kernel takes among the unused ones. Directory names are strings of bytes.
\<close>

definition LINUX_NOFILE :: nat where "LINUX_NOFILE = 1024"
definition PATH_BUFFER :: nat where "PATH_BUFFER = 4096"

definition LINUX_EBADF :: int where "LINUX_EBADF = 9"
definition LINUX_ENOMEM :: int where "LINUX_ENOMEM = 12"
definition LINUX_EINVAL :: int where "LINUX_EINVAL = 22"
definition LINUX_EMFILE :: int where "LINUX_EMFILE = 24"

lemmas errno_values = LINUX_EBADF_def LINUX_ENOMEM_def LINUX_EINVAL_def LINUX_EMFILE_def

subsection \<open>The host\<close>

type_synonym host_files = "int \<Rightarrow> nat option"

definition host_dup :: "int \<Rightarrow> int \<Rightarrow> host_files \<Rightarrow> int \<times> host_files" where
  "host_dup new fd h = (if h fd = None \<or> new = -1 then (-1, h) else (new, h(new := h fd)))"

definition host_dup2 :: "bool \<Rightarrow> int \<Rightarrow> int \<Rightarrow> host_files \<Rightarrow> bool \<times> host_files" where
  "host_dup2 ok old new h = (if \<not> ok \<or> h old = None then (False, h) else (True, h(new := h old)))"

definition host_close :: "int \<Rightarrow> host_files \<Rightarrow> host_files" where
  "host_close fd h = h(fd := None)"

lemmas host_defs = host_dup_def host_dup2_def host_close_def

subsection \<open>The table\<close>

record fd_table =
  ft_fds :: "int list"
  ft_dirs :: "string option list"
  ft_flags :: "int list"
  ft_passthrough :: bool

text \<open>The loops that look for the lowest free slot, from slot \<open>i\<close> on.\<close>

fun free_slot :: "int list \<Rightarrow> nat \<Rightarrow> nat option" where
  "free_slot [] i = None"
| "free_slot (f # fs) i = (if f = -1 then Some i else free_slot fs (i + 1))"

definition fdalloc :: "fd_table \<Rightarrow> int \<Rightarrow> string option \<Rightarrow> int \<Rightarrow> int \<times> fd_table" where
  "fdalloc t host_fd dir flags =
     (if ft_passthrough t then (host_fd, t)
      else case free_slot (ft_fds t) 0 of
        Some fd \<Rightarrow> (int fd, t\<lparr>ft_fds := (ft_fds t)[fd := host_fd], ft_dirs := (ft_dirs t)[fd := dir],
                           ft_flags := (ft_flags t)[fd := flags]\<rparr>)
      | None \<Rightarrow> (- LINUX_EMFILE, t))"

text \<open>The results are the host descriptor, the flags and whether it is a directory.\<close>

definition fdacquire :: "fd_table \<Rightarrow> int \<Rightarrow> int \<Rightarrow> host_files \<Rightarrow> (int \<times> int \<times> bool) \<times> host_files" where
  "fdacquire t fd new h =
     (if ft_passthrough t then ((fd, 0, False), h)
      else if fd < 0 \<or> fd \<ge> int LINUX_NOFILE then ((-1, 0, False), h)
      else if ft_fds t ! nat fd = -1 then ((-1, 0, False), h)
      else let (kfd, h) = host_dup new (ft_fds t ! nat fd) h
           in ((kfd, ft_flags t ! nat fd, ft_dirs t ! nat fd \<noteq> None), h))"

definition fdrelease :: "fd_table \<Rightarrow> int \<Rightarrow> host_files \<Rightarrow> host_files" where
  "fdrelease t hostfd h =
     (if ft_passthrough t then h else if hostfd \<ge> 0 then host_close hostfd h else h)"

text \<open>The last part of \<^verbatim>\<open>fddup2\<close>: the directory name and the flags of the new slot.\<close>

definition dup_finish :: "fd_table \<Rightarrow> nat \<Rightarrow> nat \<Rightarrow> string option \<Rightarrow> (int \<times> fd_table) run" where
  "dup_finish t oldfd newfd dir = do {
     t \<leftarrow> (case ft_dirs t ! oldfd of
             None \<Rightarrow> Some t
           | Some d \<Rightarrow> check (ft_dirs t ! newfd = None \<and> dir \<noteq> None) \<bind>
               (\<lambda>_. Some (t\<lparr>ft_dirs := (ft_dirs t)[newfd := Some (take (PATH_BUFFER - 1) d)]\<rparr>)));
     Some (int newfd, t\<lparr>ft_flags := (ft_flags t)[newfd := ft_flags t ! oldfd]\<rparr>)
   }"

text \<open>\<open>ok_malloc\<close> and \<open>ok_dup2\<close> say whether \<^verbatim>\<open>malloc\<close> and \<^verbatim>\<open>dup2\<close> succeed; \<open>None\<close> is a failed assertion.\<close>

definition fddup2 ::
  "bool \<Rightarrow> bool \<Rightarrow> int \<Rightarrow> fd_table \<Rightarrow> int \<Rightarrow> int \<Rightarrow> host_files \<Rightarrow> (int \<times> fd_table \<times> host_files) run" where
  "fddup2 ok_malloc ok_dup2 new t oldfd newfd h =
     (if oldfd < 0 \<or> oldfd \<ge> int LINUX_NOFILE \<or> newfd < -1 \<or> newfd \<ge> int LINUX_NOFILE
      then Some (- LINUX_EBADF, t, h)
      else let old = nat oldfd; koldfd = ft_fds t ! old
        in if koldfd = -1 then Some (- LINUX_EBADF, t, h)
        else if oldfd = newfd then Some (newfd, t, h)
        else let dir = (if ft_dirs t ! old \<noteq> None then Some [] else None)
        in if ft_dirs t ! old \<noteq> None \<and> \<not> ok_malloc then Some (- LINUX_ENOMEM, t, h)
        else if newfd = -1 then
          (case free_slot (ft_fds t) 0 of
             None \<Rightarrow> Some (- LINUX_EMFILE, t, h)
           | Some fd \<Rightarrow>
               let (knewfd, h) = host_dup new koldfd h
               in if knewfd = -1 then Some (- LINUX_EINVAL, t, h)
                  else do {
                    (r, t) \<leftarrow> dup_finish (t\<lparr>ft_fds := (ft_fds t)[fd := knewfd]\<rparr>) old fd dir;
                    Some (r, t, h)
                  })
        else
          let knewfd = ft_fds t ! nat newfd;
              (ok, knewfd, h) =
                (if knewfd = -1 then
                   (let (k, h) = host_dup new koldfd h in (k \<noteq> -1, k, h))
                 else (let (ok, h) = host_dup2 ok_dup2 koldfd knewfd h in (ok, knewfd, h)))
          in if \<not> ok then Some (- LINUX_EINVAL, t, h)
             else do {
               (r, t) \<leftarrow> dup_finish (t\<lparr>ft_fds := (ft_fds t)[nat newfd := knewfd],
                                   ft_dirs := (ft_dirs t)[nat newfd := None]\<rparr>) old (nat newfd) dir;
               Some (r, t, h)
             })"

definition fdclose :: "fd_table \<Rightarrow> int \<Rightarrow> host_files \<Rightarrow> bool \<times> fd_table \<times> host_files" where
  "fdclose t fd h =
     (if ft_passthrough t then (True, t, h)
      else if fd < 0 \<or> fd \<ge> int LINUX_NOFILE then (False, t, h)
      else if ft_fds t ! nat fd = -1 then (False, t, h)
      else (True, t\<lparr>ft_fds := (ft_fds t)[nat fd := -1], ft_flags := (ft_flags t)[nat fd := 0],
                    ft_dirs := (ft_dirs t)[nat fd := None]\<rparr>, host_close (ft_fds t ! nat fd) h))"

text \<open>The table is zeroed memory before; \<open>news\<close> are the three descriptors \<^verbatim>\<open>dup\<close> returns.\<close>

definition fdinit :: "bool \<Rightarrow> bool \<Rightarrow> int \<times> int \<times> int \<Rightarrow> host_files \<Rightarrow> fd_table \<times> host_files" where
  "fdinit minimal passthrough news h =
     (let fds = replicate LINUX_NOFILE (-1); (n0, n1, n2) = news;
          (fds, h) = (if minimal then (fds, h)
                      else let (k0, h) = host_dup n0 0 h; (k1, h) = host_dup n1 1 h; (k2, h) = host_dup n2 2 h
                           in (fds[0 := k0, 1 := k1, 2 := k2], h))
      in (\<lparr>ft_fds = fds, ft_dirs = replicate LINUX_NOFILE None, ft_flags = replicate LINUX_NOFILE 0,
           ft_passthrough = passthrough\<rparr>, h))"

text \<open>The loop of \<^verbatim>\<open>fdfree\<close> over the first \<open>n\<close> slots.\<close>

primrec fdfree_loop :: "nat \<Rightarrow> fd_table \<times> host_files \<Rightarrow> fd_table \<times> host_files" where
  "fdfree_loop 0 s = s"
| "fdfree_loop (Suc i) s =
     (case fdfree_loop i s of (t, h) \<Rightarrow>
        if ft_fds t ! i = -1 then (t, h)
        else (t\<lparr>ft_fds := (ft_fds t)[i := -1], ft_dirs := (ft_dirs t)[i := None]\<rparr>,
              host_close (ft_fds t ! i) h))"

definition fdfree :: "fd_table \<Rightarrow> host_files \<Rightarrow> fd_table \<times> host_files" where
  "fdfree t h = fdfree_loop LINUX_NOFILE (t, h)"

subsection \<open>The system calls over the table\<close>

definition sys_dup ::
  "bool \<Rightarrow> bool \<Rightarrow> int \<Rightarrow> fd_table \<Rightarrow> int \<Rightarrow> host_files \<Rightarrow> (int \<times> fd_table \<times> host_files) run" where
  "sys_dup ok_malloc ok_dup2 new t oldfd h = fddup2 ok_malloc ok_dup2 new t oldfd (-1) h"

definition sys_dup3 ::
  "bool \<Rightarrow> bool \<Rightarrow> int \<Rightarrow> fd_table \<Rightarrow> int \<Rightarrow> int \<Rightarrow> int \<Rightarrow> host_files \<Rightarrow> (int \<times> fd_table \<times> host_files) run" where
  "sys_dup3 ok_malloc ok_dup2 new t oldfd newfd flags h =
     (if flags \<noteq> 0 then Some (- LINUX_EINVAL, t, h) else fddup2 ok_malloc ok_dup2 new t oldfd newfd h)"

definition sys_close :: "fd_table \<Rightarrow> int \<Rightarrow> host_files \<Rightarrow> int \<times> fd_table \<times> host_files" where
  "sys_close t fd h = (let (ok, t, h) = fdclose t fd h in (if \<not> ok then - LINUX_EBADF else 0, t, h))"

text \<open>The end of \<^verbatim>\<open>sys_openat\<close>, from the host's new descriptor on.\<close>

definition open_finish ::
  "fd_table \<Rightarrow> int \<Rightarrow> string option \<Rightarrow> int \<Rightarrow> host_files \<Rightarrow> int \<times> fd_table \<times> host_files" where
  "open_finish t kfd dir flags h =
     (let (fd, t) = fdalloc t kfd dir flags
      in if fd < 0 then (fd, t, host_close kfd h) else (fd, t, h))"

subsection \<open>Who owns the host's descriptors\<close>

lemma free_slot_Some: "free_slot fs i = Some k \<Longrightarrow> i \<le> k \<and> k < i + length fs \<and> fs ! (k - i) = -1 \<and>
    (\<forall>j < k - i. fs ! j \<noteq> -1)"
proof (induction fs i rule: free_slot.induct)
  case (2 f fs i)
  show ?case
  proof (cases "f = -1")
    case False
    then have ih: "i + 1 \<le> k \<and> k < i + 1 + length fs \<and> fs ! (k - (i + 1)) = -1 \<and>
        (\<forall>j < k - (i + 1). fs ! j \<noteq> -1)"
      using "2.IH" "2.prems" by simp
    have "(f # fs) ! j \<noteq> -1" if "j < k - i" for j
      using ih False that by (cases j) auto
    then show ?thesis using ih by (simp add: nth_Cons' Suc_diff_le)
  qed (use "2.prems" in simp)
qed simp

lemma free_slot_None: "free_slot fs i = None \<longleftrightarrow> -1 \<notin> set fs"
  by (induction fs i rule: free_slot.induct) auto

text \<open>Each occupied slot has its own host descriptor, which nobody has borrowed.\<close>

definition slots_ok :: "int list \<Rightarrow> int list \<Rightarrow> bool" where
  "slots_ok fds held \<longleftrightarrow> length fds = LINUX_NOFILE \<and> distinct held \<and>
     (\<forall>i < LINUX_NOFILE. fds ! i \<noteq> -1 \<longrightarrow> fds ! i \<notin> set held \<and>
        (\<forall>j < LINUX_NOFILE. fds ! j = fds ! i \<longrightarrow> j = i))"

definition owns :: "int list \<Rightarrow> int list \<Rightarrow> int set" where
  "owns fds held = {x. x \<noteq> -1 \<and> x \<in> set fds} \<union> set held"

lemma fill_slot:
  assumes ok: "slots_ok fds held" and k: "k < LINUX_NOFILE" "fds ! k = -1" and y: "y \<noteq> -1" "y \<notin> owns fds held"
  shows "slots_ok (fds[k := y]) held" "owns (fds[k := y]) held = insert y (owns fds held)"
proof -
  have len: "length fds = LINUX_NOFILE" using ok by (simp add: slots_ok_def)
  have ny: "fds ! i \<noteq> y" if "i < LINUX_NOFILE" for i
    using y nth_mem [of i fds] that len by (auto simp: owns_def)
  have nh: "y \<notin> set held" using y by (simp add: owns_def)
  have old: "fds ! i \<notin> set held \<and> (\<forall>j < LINUX_NOFILE. fds ! j = fds ! i \<longrightarrow> j = i)"
    if "i < LINUX_NOFILE" "fds ! i \<noteq> -1" for i using ok that by (simp add: slots_ok_def)
  have new: "fds[k := y] ! i \<notin> set held \<and> (\<forall>j < LINUX_NOFILE. fds[k := y] ! j = fds[k := y] ! i \<longrightarrow> j = i)"
    if "i < LINUX_NOFILE" "fds[k := y] ! i \<noteq> -1" for i
  proof (cases "i = k")
    case True
    then show ?thesis using nh ny k(1) len by (auto simp: nth_list_update)
  next
    case False
    then have "fds ! i \<noteq> -1" using that by simp
    then show ?thesis using old [OF that(1)] ny [OF that(1)] k len False by (auto simp: nth_list_update)
  qed
  then show "slots_ok (fds[k := y]) held" using ok len unfolding slots_ok_def by simp
  have "x \<in> set (fds[k := y]) \<longleftrightarrow> x = y \<or> x \<in> set fds" if "x \<noteq> -1" for x
  proof
    assume "x \<in> set (fds[k := y])"
    then show "x = y \<or> x \<in> set fds" using set_update_subset_insert [of fds k y] by blast
  next
    assume x: "x = y \<or> x \<in> set fds"
    show "x \<in> set (fds[k := y])"
    proof (cases "x = y")
      case True
      then show ?thesis using k(1) len by (simp add: set_update_memI)
    next
      case False
      with x obtain i where i: "i < LINUX_NOFILE" "fds ! i = x" using len by (auto simp: in_set_conv_nth)
      then have "i \<noteq> k" using k(2) that by auto
      then have "fds[k := y] ! i = x" "i < length (fds[k := y])" using i len by simp_all
      then show ?thesis by (metis nth_mem)
    qed
  qed
  then show "owns (fds[k := y]) held = insert y (owns fds held)" using y(1) by (auto simp: owns_def)
qed

lemma empty_slot:
  assumes ok: "slots_ok fds held" and k: "k < LINUX_NOFILE" "fds ! k \<noteq> -1"
  shows "slots_ok (fds[k := -1]) held" "owns (fds[k := -1]) held = owns fds held - {fds ! k}"
    "fds ! k \<in> owns fds held"
proof -
  have len: "length fds = LINUX_NOFILE" using ok by (simp add: slots_ok_def)
  have old: "fds ! i \<notin> set held \<and> (\<forall>j < LINUX_NOFILE. fds ! j = fds ! i \<longrightarrow> j = i)"
    if "i < LINUX_NOFILE" "fds ! i \<noteq> -1" for i using ok that by (simp add: slots_ok_def)
  have new: "fds[k := -1] ! i \<notin> set held \<and> (\<forall>j < LINUX_NOFILE. fds[k := -1] ! j = fds[k := -1] ! i \<longrightarrow> j = i)"
    if "i < LINUX_NOFILE" "fds[k := -1] ! i \<noteq> -1" for i
  proof -
    have "i \<noteq> k" using that k(1) len by auto
    moreover then have "fds ! i \<noteq> -1" using that by simp
    ultimately show ?thesis using old [OF that(1)] k len by (auto simp: nth_list_update)
  qed
  then show "slots_ok (fds[k := -1]) held" using ok len unfolding slots_ok_def by simp
  show "fds ! k \<in> owns fds held" using k len nth_mem [of k fds] by (simp add: owns_def)
  have "x \<in> set (fds[k := -1]) \<longleftrightarrow> x \<in> set fds \<and> x \<noteq> fds ! k" if "x \<noteq> -1" for x
  proof
    assume "x \<in> set (fds[k := -1])"
    then obtain i where i: "i < LINUX_NOFILE" "fds[k := -1] ! i = x" using len by (auto simp: in_set_conv_nth)
    then have "i \<noteq> k" "fds ! i = x" using that k(1) len by (auto simp: nth_list_update split: if_splits)
    then have "x \<in> set fds" using i(1) len by auto
    moreover have "fds ! i \<noteq> fds ! k" using old [OF k] i(1) \<open>i \<noteq> k\<close> by blast
    ultimately show "x \<in> set fds \<and> x \<noteq> fds ! k" using \<open>fds ! i = x\<close> by simp
  next
    assume "x \<in> set fds \<and> x \<noteq> fds ! k"
    then obtain i where "i < LINUX_NOFILE" "fds ! i = x" "i \<noteq> k" using len by (auto simp: in_set_conv_nth)
    then have "i < length (fds[k := -1])" "fds[k := -1] ! i = x" using len by simp_all
    then show "x \<in> set (fds[k := -1])" by (metis nth_mem)
  qed
  moreover have "fds ! k \<notin> set held" using old [OF k] by simp
  ultimately show "owns (fds[k := -1]) held = owns fds held - {fds ! k}" by (auto simp: owns_def)
qed

text \<open>
  The state of a process's descriptors: the table, the host, and the descriptors borrowed by
  calls in progress. The host's other descriptors are \<open>h0\<close>.
\<close>

type_synonym fd_state = "fd_table \<times> host_files \<times> int list"

definition fd_inv :: "host_files \<Rightarrow> fd_state \<Rightarrow> bool" where
  "fd_inv h0 s \<longleftrightarrow> (case s of (t, h, held) \<Rightarrow>
     \<not> ft_passthrough t \<and> length (ft_dirs t) = LINUX_NOFILE \<and> length (ft_flags t) = LINUX_NOFILE \<and>
     slots_ok (ft_fds t) held \<and>
     (\<forall>i < LINUX_NOFILE. ft_fds t ! i = -1 \<longrightarrow> ft_dirs t ! i = None) \<and>
     (\<forall>x \<in> owns (ft_fds t) held. 0 \<le> x \<and> h0 x = None \<and> h x \<noteq> None) \<and>
     (\<forall>x. x \<notin> owns (ft_fds t) held \<longrightarrow> h x = h0 x))"

text \<open>The steps of the calls; the kernel picks descriptors by \<open>pick\<close>.\<close>

datatype fd_op =
  Open "host_files \<Rightarrow> int" nat "string option" int
| Acquire int "host_files \<Rightarrow> int"
| Release nat
| Dup bool bool "host_files \<Rightarrow> int" int int
| Close int

definition pick_ok :: "(host_files \<Rightarrow> int) \<Rightarrow> bool" where
  "pick_ok pick \<longleftrightarrow> (\<forall>h. pick h = -1 \<or> (0 \<le> pick h \<and> h (pick h) = None))"

fun op_ok :: "fd_op \<Rightarrow> bool" where
  "op_ok (Open pick file dir flags) \<longleftrightarrow> pick_ok pick"
| "op_ok (Acquire fd pick) \<longleftrightarrow> pick_ok pick"
| "op_ok (Dup a b pick old new) \<longleftrightarrow> pick_ok pick"
| "op_ok _ \<longleftrightarrow> True"

fun fd_do :: "fd_op \<Rightarrow> fd_state \<Rightarrow> fd_state run" where
  "fd_do (Open pick file dir flags) (t, h, held) =
     (let kfd = pick h
      in if kfd = -1 then Some (t, h, held)
         else let (_, t, h) = open_finish t kfd dir flags (h(kfd := Some file)) in Some (t, h, held))"
| "fd_do (Acquire fd pick) (t, h, held) =
     (let ((kfd, _, _), h) = fdacquire t fd (pick h) h
      in Some (t, h, if kfd = -1 then held else kfd # held))"
| "fd_do (Release i) (t, h, held) =
     (if i < length held then Some (t, fdrelease t (held ! i) h, take i held @ drop (Suc i) held)
      else Some (t, h, held))"
| "fd_do (Dup a b pick old new) (t, h, held) =
     map_option (\<lambda>(_, t, h). (t, h, held)) (fddup2 a b (pick h) t old new h)"
| "fd_do (Close fd) (t, h, held) = (let (_, t, h) = fdclose t fd h in Some (t, h, held))"

fun fd_dos :: "fd_op list \<Rightarrow> fd_state \<Rightarrow> fd_state run" where
  "fd_dos [] s = Some s"
| "fd_dos (c # cs) s = (fd_do c s \<bind> fd_dos cs)"

subsection \<open>Every operation keeps the ownership\<close>

lemma fd_invD:
  assumes "fd_inv h0 (t, h, held)"
  shows "x \<in> owns (ft_fds t) held \<Longrightarrow> 0 \<le> x" "x \<in> owns (ft_fds t) held \<Longrightarrow> h0 x = None"
    "x \<in> owns (ft_fds t) held \<Longrightarrow> h x \<noteq> None" "x \<notin> owns (ft_fds t) held \<Longrightarrow> h x = h0 x"
  using assms by (simp_all add: fd_inv_def)

lemma fd_fresh: "fd_inv h0 (t, h, held) \<Longrightarrow> h y = None \<Longrightarrow> y \<notin> owns (ft_fds t) held \<and> h0 y = None"
  by (auto simp: fd_inv_def)

lemma fd_fill:
  assumes inv: "fd_inv h0 (t, h, held)" and k: "k < LINUX_NOFILE" "ft_fds t ! k = -1"
    and y: "0 \<le> y" "h y = None"
    and t': "ft_fds t' = (ft_fds t)[k := y]" "ft_passthrough t' = ft_passthrough t"
      "length (ft_dirs t') = length (ft_dirs t)" "length (ft_flags t') = length (ft_flags t)"
      "\<And>i. i \<noteq> k \<Longrightarrow> ft_dirs t' ! i = ft_dirs t ! i"
  shows "fd_inv h0 (t', h(y := Some f), held)"
proof -
  note fresh = fd_fresh [OF inv y(2)]
  have ok: "slots_ok (ft_fds t) held" and len: "length (ft_fds t) = LINUX_NOFILE"
    using inv by (auto simp: fd_inv_def slots_ok_def)
  have "y \<noteq> -1" using y(1) by simp
  note fill = fill_slot [OF ok k this conjunct1 [OF fresh]]
  have "ft_dirs t' ! i = None" if "i < LINUX_NOFILE" "ft_fds t' ! i = -1" for i
  proof -
    have "i \<noteq> k" using that k len y(1) t'(1) by auto
    then show ?thesis using that t' inv by (simp add: fd_inv_def)
  qed
  moreover have "0 \<le> x \<and> h0 x = None \<and> (h(y := Some f)) x \<noteq> None" if "x \<in> owns (ft_fds t') held" for x
    using that y fresh inv unfolding t'(1) fill(2) by (auto simp: fd_inv_def)
  moreover have "(h(y := Some f)) x = h0 x" if "x \<notin> owns (ft_fds t') held" for x
    using that inv unfolding t'(1) fill(2) by (auto simp: fd_inv_def)
  ultimately show ?thesis using inv t' fill(1) by (simp add: fd_inv_def)
qed

lemma fd_empty:
  assumes inv: "fd_inv h0 (t, h, held)" and k: "k < LINUX_NOFILE" "ft_fds t ! k \<noteq> -1"
    and t': "ft_fds t' = (ft_fds t)[k := -1]" "ft_passthrough t' = ft_passthrough t"
      "ft_dirs t' = (ft_dirs t)[k := None]" "length (ft_flags t') = length (ft_flags t)"
  shows "fd_inv h0 (t', host_close (ft_fds t ! k) h, held)"
proof -
  have ok: "slots_ok (ft_fds t) held" and len: "length (ft_fds t) = LINUX_NOFILE" "length (ft_dirs t) = LINUX_NOFILE"
    using inv by (auto simp: fd_inv_def slots_ok_def)
  note emp = empty_slot [OF ok k]
  have "ft_dirs t' ! i = None" if "i < LINUX_NOFILE" "ft_fds t' ! i = -1" for i
    using that t' inv len by (cases "i = k") (simp_all add: fd_inv_def)
  moreover have "0 \<le> x \<and> h0 x = None \<and> host_close (ft_fds t ! k) h x \<noteq> None" if "x \<in> owns (ft_fds t') held" for x
    using that inv unfolding t'(1) emp(2) by (auto simp: fd_inv_def host_close_def)
  moreover have "host_close (ft_fds t ! k) h x = h0 x" if "x \<notin> owns (ft_fds t') held" for x
  proof (cases "x = ft_fds t ! k")
    case True
    then show ?thesis using fd_invD(2) [OF inv emp(3)] by (simp add: host_close_def)
  next
    case False
    then have "x \<notin> owns (ft_fds t) held" using that unfolding t'(1) emp(2) by simp
    then show ?thesis using fd_invD(4) [OF inv] False by (simp add: host_close_def)
  qed
  ultimately show ?thesis using inv t' emp(1) by (simp add: fd_inv_def)
qed

text \<open>Borrowing a descriptor and giving it back.\<close>

lemma fd_hold:
  assumes inv: "fd_inv h0 (t, h, held)" and y: "0 \<le> y" "h y = None"
  shows "fd_inv h0 (t, h(y := Some f), y # held)"
proof -
  note fresh = fd_fresh [OF inv y(2)]
  have o: "owns (ft_fds t) (y # held) = insert y (owns (ft_fds t) held)" by (auto simp: owns_def)
  have len: "length (ft_fds t) = LINUX_NOFILE" using inv by (simp add: fd_inv_def slots_ok_def)
  have "ft_fds t ! i \<noteq> y" if "i < LINUX_NOFILE" for i
    using fresh y nth_mem [of i "ft_fds t"] that len by (auto simp: owns_def)
  then have "slots_ok (ft_fds t) (y # held)" using inv fresh by (auto simp: fd_inv_def slots_ok_def owns_def)
  moreover have "0 \<le> x \<and> h0 x = None \<and> (h(y := Some f)) x \<noteq> None" if "x \<in> owns (ft_fds t) (y # held)" for x
    using that inv y fresh unfolding o by (auto simp: fd_inv_def)
  moreover have "(h(y := Some f)) x = h0 x" if "x \<notin> owns (ft_fds t) (y # held)" for x
    using that inv unfolding o by (simp add: fd_inv_def)
  ultimately show ?thesis using inv by (simp add: fd_inv_def)
qed

lemma fd_release:
  assumes inv: "fd_inv h0 (t, h, held)" and i: "i < length held"
  shows "fd_inv h0 (t, host_close (held ! i) h, take i held @ drop (Suc i) held)"
proof -
  let ?x = "held ! i" and ?held = "take i held @ drop (Suc i) held"
  have ok: "slots_ok (ft_fds t) held" using inv by (simp add: fd_inv_def)
  then have d: "distinct held" by (simp add: slots_ok_def)
  note rem = set_remove_nth [OF d i]
  have x: "?x \<in> set held" using i by simp
  have "?x \<in> owns (ft_fds t) held" using x by (simp add: owns_def)
  moreover have o: "owns (ft_fds t) ?held = owns (ft_fds t) held - {?x}"
  proof -
    have "?x \<notin> {y. y \<noteq> -1 \<and> y \<in> set (ft_fds t)}"
      using ok x by (auto simp: slots_ok_def in_set_conv_nth)
    then show ?thesis unfolding owns_def rem(1) by blast
  qed
  moreover have "slots_ok (ft_fds t) ?held"
  proof -
    have "?held ! j \<in> set held" if "j < length ?held" for j using rem(1) nth_mem [OF that] by blast
    then show ?thesis using ok rem unfolding slots_ok_def by blast
  qed
  moreover have "0 \<le> y \<and> h0 y = None \<and> host_close ?x h y \<noteq> None" if "y \<in> owns (ft_fds t) ?held" for y
    using that inv unfolding o by (auto simp: fd_inv_def host_close_def)
  moreover have "host_close ?x h y = h0 y" if "y \<notin> owns (ft_fds t) ?held" for y
  proof (cases "y = ?x")
    case True
    then show ?thesis using fd_invD(2) [OF inv \<open>?x \<in> owns (ft_fds t) held\<close>] by (simp add: host_close_def)
  next
    case False
    then have "y \<notin> owns (ft_fds t) held" using that unfolding o by simp
    then show ?thesis using fd_invD(4) [OF inv] False by (simp add: host_close_def)
  qed
  ultimately show ?thesis using inv by (simp add: fd_inv_def)
qed

text \<open>A duplicate over an occupied slot replaces what its host descriptor refers to.\<close>

lemma fd_replace:
  assumes inv: "fd_inv h0 (t, h, held)" and y: "y \<in> owns (ft_fds t) held"
    and t': "ft_fds t' = ft_fds t" "ft_passthrough t' = ft_passthrough t"
      "length (ft_dirs t') = length (ft_dirs t)" "length (ft_flags t') = length (ft_flags t)"
      "\<And>i. i < LINUX_NOFILE \<Longrightarrow> ft_fds t ! i = -1 \<Longrightarrow> ft_dirs t' ! i = None"
  shows "fd_inv h0 (t', h(y := Some f), held)"
proof -
  have "0 \<le> x \<and> h0 x = None \<and> (h(y := Some f)) x \<noteq> None" if "x \<in> owns (ft_fds t') held" for x
    using that inv unfolding t'(1) by (simp add: fd_inv_def)
  moreover have "(h(y := Some f)) x = h0 x" if "x \<notin> owns (ft_fds t') held" for x
    using that inv y unfolding t'(1) by (auto simp: fd_inv_def)
  ultimately show ?thesis using inv t' by (simp add: fd_inv_def)
qed

lemma dup_finish_eq:
  assumes "ft_dirs t ! old \<noteq> None \<longrightarrow> ft_dirs t ! new = None \<and> dir \<noteq> None"
  obtains t' where "dup_finish t old new dir = Some (int new, t')" "ft_fds t' = ft_fds t"
    "ft_passthrough t' = ft_passthrough t" "length (ft_dirs t') = length (ft_dirs t)"
    "length (ft_flags t') = length (ft_flags t)" "\<And>i. i \<noteq> new \<Longrightarrow> ft_dirs t' ! i = ft_dirs t ! i"
    "ft_flags t' = (ft_flags t)[new := ft_flags t ! old]"
  using assms by (cases "ft_dirs t ! old") (auto simp: dup_finish_def)

text \<open>What \<^verbatim>\<open>fddup2\<close> does: an error that changes nothing, or a slot that refers to the same file.\<close>

definition dup_post :: "fd_table \<Rightarrow> host_files \<Rightarrow> int \<Rightarrow> int \<Rightarrow> int \<Rightarrow> fd_table \<Rightarrow> host_files \<Rightarrow> bool" where
  "dup_post t h oldfd newfd r t' h' \<longleftrightarrow>
     (if r < 0 then t' = t \<and> h' = h
      else 0 \<le> oldfd \<and> oldfd < int LINUX_NOFILE \<and> r < int LINUX_NOFILE \<and> (newfd \<noteq> -1 \<longrightarrow> r = newfd) \<and>
       ft_fds t ! nat oldfd \<noteq> -1 \<and> ft_fds t' ! nat r \<noteq> -1 \<and>
       h' (ft_fds t' ! nat r) = h (ft_fds t ! nat oldfd) \<and>
       (newfd = -1 \<longrightarrow> ft_fds t ! nat r = -1 \<and> (\<forall>j < nat r. ft_fds t ! j \<noteq> -1)) \<and>
       (\<forall>j < LINUX_NOFILE. j \<noteq> nat r \<longrightarrow> ft_fds t' ! j = ft_fds t ! j))"

definition dup_args :: "fd_table \<Rightarrow> int \<Rightarrow> int \<Rightarrow> bool" where
  "dup_args t oldfd newfd \<longleftrightarrow> 0 \<le> oldfd \<and> oldfd < int LINUX_NOFILE \<and> -1 \<le> newfd \<and> newfd < int LINUX_NOFILE \<and>
     ft_fds t ! nat oldfd \<noteq> -1 \<and> oldfd \<noteq> newfd"

lemma old_file:
  assumes inv: "fd_inv h0 (t, h, held)" and go: "dup_args t oldfd newfd"
  obtains fl where "h (ft_fds t ! nat oldfd) = Some fl"
proof -
  have "length (ft_fds t) = LINUX_NOFILE" using inv by (simp add: fd_inv_def slots_ok_def)
  then have "ft_fds t ! nat oldfd \<in> owns (ft_fds t) held" using go by (auto simp: dup_args_def owns_def)
  then show ?thesis using fd_invD(3) [OF inv] that by blast
qed

text \<open>The three ways to get the new slot.\<close>

lemma dup_lowest:
  assumes inv: "fd_inv h0 (t, h, held)" and new: "0 \<le> new" "h new = None"
    and go: "dup_args t oldfd (-1)" and mem: "ft_dirs t ! nat oldfd = None \<or> a"
    and slot: "free_slot (ft_fds t) 0 = Some fd"
  shows "\<exists>t' h'. fddup2 a b new t oldfd (-1) h = Some (int fd, t', h') \<and> fd_inv h0 (t', h', held) \<and>
    dup_post t h oldfd (-1) (int fd) t' h'"
proof -
  have len: "length (ft_fds t) = LINUX_NOFILE" using inv by (simp add: fd_inv_def slots_ok_def)
  let ?dir = "if ft_dirs t ! nat oldfd \<noteq> None then Some [] else None :: string option"
  have fd: "fd < LINUX_NOFILE" "ft_fds t ! fd = -1" "\<forall>j < fd. ft_fds t ! j \<noteq> -1"
    using free_slot_Some [OF slot] len by simp_all
  obtain fl where fl: "h (ft_fds t ! nat oldfd) = Some fl" using old_file [OF inv go] .
  let ?t = "t\<lparr>ft_fds := (ft_fds t)[fd := new]\<rparr>"
  have "ft_dirs t ! fd = None" using inv fd(1,2) by (simp add: fd_inv_def)
  then have "ft_dirs ?t ! nat oldfd \<noteq> None \<longrightarrow> ft_dirs ?t ! fd = None \<and> ?dir \<noteq> None" by simp
  then obtain t' where t': "dup_finish ?t (nat oldfd) fd ?dir = Some (int fd, t')" "ft_fds t' = ft_fds ?t"
    "ft_passthrough t' = ft_passthrough ?t" "length (ft_dirs t') = length (ft_dirs ?t)"
    "length (ft_flags t') = length (ft_flags ?t)" "\<And>i. i \<noteq> fd \<Longrightarrow> ft_dirs t' ! i = ft_dirs ?t ! i"
    by (rule dup_finish_eq) blast
  have "new \<noteq> -1" using new(1) by simp
  then have eq: "fddup2 a b new t oldfd (-1) h = Some (int fd, t', h(new := Some fl))"
    using go mem slot fl t'(1) by (auto simp: fddup2_def dup_args_def Let_def host_dup_def)
  have "fd_inv h0 (t', h(new := Some fl), held)"
    using t' by (intro fd_fill [OF inv fd(1,2) new]) simp_all
  moreover have "dup_post t h oldfd (-1) (int fd) t' (h(new := Some fl))"
    using fd len t'(2) new go fl by (auto simp: dup_post_def dup_args_def nth_list_update)
  ultimately show ?thesis using eq by blast
qed

text \<open>A duplicate over the slot \<open>new\<close>, with the host descriptor \<open>k\<close> it gets.\<close>

lemma dup_over_finish:
  assumes inv: "fd_inv h0 (t, h, held)" and go: "dup_args t oldfd newfd" and at: "newfd \<noteq> -1"
  obtains t' where "dup_finish (t\<lparr>ft_fds := (ft_fds t)[nat newfd := k], ft_dirs := (ft_dirs t)[nat newfd := None]\<rparr>)
      (nat oldfd) (nat newfd) (if ft_dirs t ! nat oldfd \<noteq> None then Some [] else None) = Some (newfd, t')"
    "ft_fds t' = (ft_fds t)[nat newfd := k]" "ft_passthrough t' = ft_passthrough t"
    "length (ft_dirs t') = length (ft_dirs t)" "length (ft_flags t') = length (ft_flags t)"
    "\<And>i. i \<noteq> nat newfd \<Longrightarrow> ft_dirs t' ! i = ft_dirs t ! i"
proof -
  let ?t = "t\<lparr>ft_fds := (ft_fds t)[nat newfd := k], ft_dirs := (ft_dirs t)[nat newfd := None]\<rparr>"
  let ?dir = "if ft_dirs t ! nat oldfd \<noteq> None then Some [] else None :: string option"
  have nw: "nat newfd < LINUX_NOFILE" "int (nat newfd) = newfd" "nat newfd \<noteq> nat oldfd"
    using go at by (auto simp: dup_args_def)
  have "length (ft_dirs t) = LINUX_NOFILE" using inv by (simp add: fd_inv_def)
  then have "ft_dirs ?t ! nat oldfd \<noteq> None \<longrightarrow> ft_dirs ?t ! nat newfd = None \<and> ?dir \<noteq> None"
    using nw by simp
  then obtain t' where "dup_finish ?t (nat oldfd) (nat newfd) ?dir = Some (int (nat newfd), t')"
    "ft_fds t' = ft_fds ?t" "ft_passthrough t' = ft_passthrough ?t" "length (ft_dirs t') = length (ft_dirs ?t)"
    "length (ft_flags t') = length (ft_flags ?t)" "\<And>i. i \<noteq> nat newfd \<Longrightarrow> ft_dirs t' ! i = ft_dirs ?t ! i"
    by (rule dup_finish_eq) blast
  then show ?thesis using nw(2) by (intro that [of t']) simp_all
qed

lemma dup_at_free:
  assumes inv: "fd_inv h0 (t, h, held)" and new: "0 \<le> new" "h new = None"
    and go: "dup_args t oldfd newfd" and mem: "ft_dirs t ! nat oldfd = None \<or> a"
    and slot: "newfd \<noteq> -1" "ft_fds t ! nat newfd = -1"
  shows "\<exists>t' h'. fddup2 a b new t oldfd newfd h = Some (newfd, t', h') \<and> fd_inv h0 (t', h', held) \<and>
    dup_post t h oldfd newfd newfd t' h'"
proof -
  have len: "length (ft_fds t) = LINUX_NOFILE" using inv by (simp add: fd_inv_def slots_ok_def)
  have nw: "nat newfd < LINUX_NOFILE" using go slot(1) by (auto simp: dup_args_def)
  obtain fl where fl: "h (ft_fds t ! nat oldfd) = Some fl" using old_file [OF inv go] .
  obtain t' where t': "dup_finish (t\<lparr>ft_fds := (ft_fds t)[nat newfd := new], ft_dirs := (ft_dirs t)[nat newfd := None]\<rparr>)
      (nat oldfd) (nat newfd) (if ft_dirs t ! nat oldfd \<noteq> None then Some [] else None) = Some (newfd, t')"
    "ft_fds t' = (ft_fds t)[nat newfd := new]" "ft_passthrough t' = ft_passthrough t"
    "length (ft_dirs t') = length (ft_dirs t)" "length (ft_flags t') = length (ft_flags t)"
    "\<And>i. i \<noteq> nat newfd \<Longrightarrow> ft_dirs t' ! i = ft_dirs t ! i"
    by (rule dup_over_finish [OF inv go slot(1), where k = new]) blast
  have "new \<noteq> -1" using new(1) by simp
  then have eq: "fddup2 a b new t oldfd newfd h = Some (newfd, t', h(new := Some fl))"
    using go mem slot fl t'(1) by (auto simp: fddup2_def dup_args_def Let_def host_dup_def)
  have "fd_inv h0 (t', h(new := Some fl), held)"
    using t' by (intro fd_fill [OF inv nw slot(2) new]) simp_all
  moreover have "dup_post t h oldfd newfd newfd t' (h(new := Some fl))"
    using nw len t'(2) new go fl slot by (auto simp: dup_post_def dup_args_def nth_list_update)
  ultimately show ?thesis using eq by blast
qed

lemma dup_at_occupied:
  assumes inv: "fd_inv h0 (t, h, held)" and go: "dup_args t oldfd newfd"
    and mem: "ft_dirs t ! nat oldfd = None \<or> a" and slot: "newfd \<noteq> -1" "ft_fds t ! nat newfd \<noteq> -1"
  shows "\<exists>t' h'. fddup2 a True new t oldfd newfd h = Some (newfd, t', h') \<and> fd_inv h0 (t', h', held) \<and>
    dup_post t h oldfd newfd newfd t' h'"
proof -
  let ?k = "ft_fds t ! nat newfd"
  have len: "length (ft_fds t) = LINUX_NOFILE" using inv by (simp add: fd_inv_def slots_ok_def)
  have nw: "nat newfd < LINUX_NOFILE" using go slot(1) by (auto simp: dup_args_def)
  obtain fl where fl: "h (ft_fds t ! nat oldfd) = Some fl" using old_file [OF inv go] .
  obtain t' where t': "dup_finish (t\<lparr>ft_fds := (ft_fds t)[nat newfd := ?k], ft_dirs := (ft_dirs t)[nat newfd := None]\<rparr>)
      (nat oldfd) (nat newfd) (if ft_dirs t ! nat oldfd \<noteq> None then Some [] else None) = Some (newfd, t')"
    "ft_fds t' = (ft_fds t)[nat newfd := ?k]" "ft_passthrough t' = ft_passthrough t"
    "length (ft_dirs t') = length (ft_dirs t)" "length (ft_flags t') = length (ft_flags t)"
    "\<And>i. i \<noteq> nat newfd \<Longrightarrow> ft_dirs t' ! i = ft_dirs t ! i"
    by (rule dup_over_finish [OF inv go slot(1), where k = ?k]) blast
  have fds: "ft_fds t' = ft_fds t" using t'(2) by (simp add: list_update_id)
  have eq: "fddup2 a True new t oldfd newfd h = Some (newfd, t', h(?k := Some fl))"
    using go mem slot fl t'(1) by (auto simp: fddup2_def dup_args_def Let_def host_dup2_def)
  have own: "?k \<in> owns (ft_fds t) held" using slot nw len by (simp add: owns_def)
  have "ft_dirs t' ! i = None" if "i < LINUX_NOFILE" "ft_fds t ! i = -1" for i
    using t'(6) that slot inv by (cases "i = nat newfd") (auto simp: fd_inv_def)
  then have "fd_inv h0 (t', h(?k := Some fl), held)"
    using t' fds by (intro fd_replace [OF inv own]) simp_all
  moreover have "dup_post t h oldfd newfd newfd t' (h(?k := Some fl))"
    using nw fds go fl slot by (auto simp: dup_post_def dup_args_def)
  ultimately show ?thesis using eq by blast
qed

lemma fddup2_eq:
  assumes inv: "fd_inv h0 (t, h, held)" and new: "new = -1 \<or> (0 \<le> new \<and> h new = None)"
  shows "\<exists>r t' h'. fddup2 a b new t oldfd newfd h = Some (r, t', h') \<and> fd_inv h0 (t', h', held) \<and>
    dup_post t h oldfd newfd r t' h'"
proof -
  have fails: ?thesis if "fddup2 a b new t oldfd newfd h = Some (r, t, h)" "r < 0" for r
    using that inv by (auto simp: dup_post_def)
  have neg: "- LINUX_EBADF < 0" "- LINUX_ENOMEM < 0" "- LINUX_EMFILE < 0" "- LINUX_EINVAL < 0"
    by (simp_all add: errno_values)
  show ?thesis
  proof (cases "dup_args t oldfd newfd")
    case bad: False
    show ?thesis
    proof (cases "0 \<le> oldfd \<and> oldfd < int LINUX_NOFILE \<and> oldfd = newfd \<and> ft_fds t ! nat oldfd \<noteq> -1")
      case True
      then have "fddup2 a b new t oldfd newfd h = Some (newfd, t, h)" by (auto simp: fddup2_def Let_def)
      moreover have "dup_post t h oldfd newfd newfd t h" using True by (auto simp: dup_post_def)
      ultimately show ?thesis using inv by blast
    next
      case False
      then have "fddup2 a b new t oldfd newfd h = Some (- LINUX_EBADF, t, h)"
        using bad by (auto simp: fddup2_def dup_args_def Let_def)
      then show ?thesis by (rule fails) (rule neg)
    qed
  next
    case go: True
    show ?thesis
    proof (cases "ft_dirs t ! nat oldfd = None \<or> a")
      case False
      then have "fddup2 a b new t oldfd newfd h = Some (- LINUX_ENOMEM, t, h)"
        using go by (auto simp: fddup2_def dup_args_def Let_def)
      then show ?thesis by (rule fails) (rule neg)
    next
      case mem: True
      consider (full) "newfd = -1" "free_slot (ft_fds t) 0 = None" | (any) fd where "newfd = -1" "free_slot (ft_fds t) 0 = Some fd"
        | (free) "newfd \<noteq> -1" "ft_fds t ! nat newfd = -1" | (over) "newfd \<noteq> -1" "ft_fds t ! nat newfd \<noteq> -1"
        by blast
      then show ?thesis
      proof cases
        case full
        then have "fddup2 a b new t oldfd newfd h = Some (- LINUX_EMFILE, t, h)"
          using go mem by (auto simp: fddup2_def dup_args_def Let_def)
        then show ?thesis by (rule fails) (rule neg)
      next
        case over
        show ?thesis
        proof (cases b)
          case True
          then show ?thesis using dup_at_occupied [OF inv go mem over, of new] by (intro exI [of _ newfd]) simp
        next
          case False
          then have "fddup2 a b new t oldfd newfd h = Some (- LINUX_EINVAL, t, h)"
            using go mem over by (auto simp: fddup2_def dup_args_def Let_def host_dup2_def)
          then show ?thesis by (rule fails) (rule neg)
        qed
      next
        case any
        show ?thesis
        proof (cases "new = -1")
          case True
          then have "fddup2 a b new t oldfd newfd h = Some (- LINUX_EINVAL, t, h)"
            using go mem any by (auto simp: fddup2_def dup_args_def Let_def host_dup_def)
          then show ?thesis by (rule fails) (rule neg)
        next
          case False
          then have n: "0 \<le> new" "h new = None" using new by simp_all
          have "dup_args t oldfd (-1)" using go any(1) by simp
          from dup_lowest [OF inv n this mem any(2), of b] show ?thesis unfolding any(1) by blast
        qed
      next
        case free
        show ?thesis
        proof (cases "new = -1")
          case True
          then have "fddup2 a b new t oldfd newfd h = Some (- LINUX_EINVAL, t, h)"
            using go mem free by (auto simp: fddup2_def dup_args_def Let_def host_dup_def)
          then show ?thesis by (rule fails) (rule neg)
        next
          case False
          then have n: "0 \<le> new" "h new = None" using new by simp_all
          from dup_at_free [OF inv n go mem free, of b] show ?thesis by blast
        qed
      qed
    qed
  qed
qed

lemma open_finish_inv:
  assumes inv: "fd_inv h0 (t, h, held)" and k: "0 \<le> kfd" "h kfd = None"
    and s: "open_finish t kfd dir flags (h(kfd := Some fl)) = (r, t', h')"
  shows "fd_inv h0 (t', h', held)"
proof -
  have np: "\<not> ft_passthrough t" and len: "length (ft_fds t) = LINUX_NOFILE"
    using inv by (simp_all add: fd_inv_def slots_ok_def)
  show ?thesis
  proof (cases "free_slot (ft_fds t) 0")
    case None
    then have "t' = t" "h' = (h(kfd := Some fl))(kfd := None)" using s np
      by (auto simp: open_finish_def fdalloc_def errno_values host_close_def)
    moreover from this(2) have "h' = h" using k(2) by (simp add: fun_upd_idem)
    ultimately show ?thesis using inv by simp
  next
    case (Some fd)
    have fd: "fd < LINUX_NOFILE" "ft_fds t ! fd = -1" using free_slot_Some [OF Some] len by simp_all
    have e: "t' = t\<lparr>ft_fds := (ft_fds t)[fd := kfd], ft_dirs := (ft_dirs t)[fd := dir],
        ft_flags := (ft_flags t)[fd := flags]\<rparr>" "h' = h(kfd := Some fl)"
      using s np Some by (auto simp: open_finish_def fdalloc_def)
    show ?thesis unfolding e by (rule fd_fill [OF inv fd k]) simp_all
  qed
qed

lemma fd_do_inv:
  assumes inv: "fd_inv h0 s" and ok: "op_ok c"
  shows "\<exists>s'. fd_do c s = Some s' \<and> fd_inv h0 s'"
proof -
  obtain t h held where s: "s = (t, h, held)" by (cases s) auto
  note inv' = inv [unfolded s]
  have np: "\<not> ft_passthrough t" and len: "length (ft_fds t) = LINUX_NOFILE"
    using inv' by (simp_all add: fd_inv_def slots_ok_def)
  show ?thesis
  proof (cases c)
    case (Open pick fl dir flags)
    obtain r t' h' where o: "open_finish t (pick h) dir flags (h(pick h := Some fl)) = (r, t', h')"
      by (metis prod_cases3)
    have "pick h = -1 \<or> 0 \<le> pick h \<and> h (pick h) = None" using ok by (simp add: Open pick_ok_def)
    then show ?thesis using open_finish_inv [OF inv' _ _ o] inv' o by (auto simp: Open s)
  next
    case (Acquire fd pick)
    have p: "pick h = -1 \<or> 0 \<le> pick h \<and> h (pick h) = None" using ok by (simp add: Acquire pick_ok_def)
    show ?thesis
    proof (cases "fd < 0 \<or> fd \<ge> int LINUX_NOFILE \<or> ft_fds t ! nat fd = -1 \<or> pick h = -1")
      case True
      then show ?thesis using np inv' by (auto simp: Acquire s fdacquire_def host_dup_def Let_def)
    next
      case False
      then have "ft_fds t ! nat fd \<in> owns (ft_fds t) held" using len by (auto simp: owns_def)
      then obtain fl where f: "h (ft_fds t ! nat fd) = Some fl" using fd_invD(3) [OF inv'] by blast
      have "fd_do c s = Some (t, h(pick h := Some fl), pick h # held)"
        using False np f by (simp add: Acquire s fdacquire_def host_dup_def Let_def)
      then show ?thesis using fd_hold [OF inv', of "pick h" fl] p False by auto
    qed
  next
    case (Release i)
    show ?thesis
    proof (cases "i < length held")
      case True
      then have "held ! i \<in> owns (ft_fds t) held" by (simp add: owns_def)
      then have "0 \<le> held ! i" by (rule fd_invD(1) [OF inv'])
      then show ?thesis using fd_release [OF inv' True] True np by (simp add: Release s fdrelease_def)
    qed (use inv' in \<open>simp add: Release s\<close>)
  next
    case (Dup a b pick old new)
    have "pick h = -1 \<or> 0 \<le> pick h \<and> h (pick h) = None" using ok by (simp add: Dup pick_ok_def)
    from fddup2_eq [OF inv' this, of a b old new] show ?thesis by (auto simp: Dup s)
  next
    case (Close fd)
    show ?thesis
    proof (cases "fd < 0 \<or> fd \<ge> int LINUX_NOFILE \<or> ft_fds t ! nat fd = -1")
      case True
      then show ?thesis using np inv' by (auto simp: Close s fdclose_def)
    next
      case False
      then have "nat fd < LINUX_NOFILE" "ft_fds t ! nat fd \<noteq> -1" by auto
      from fd_empty [OF inv' this] show ?thesis using False np by (simp add: Close s fdclose_def)
    qed
  qed
qed

lemma fd_dos_inv:
  assumes "fd_inv h0 s" "\<forall>c \<in> set cs. op_ok c"
  shows "\<exists>s'. fd_dos cs s = Some s' \<and> fd_inv h0 s'"
  using assms
proof (induction cs arbitrary: s)
  case (Cons c cs)
  have "op_ok c" using Cons.prems(2) by simp
  from fd_do_inv [OF Cons.prems(1) this] obtain s1 where "fd_do c s = Some s1" "fd_inv h0 s1" by blast
  then show ?case using Cons.IH [of s1] Cons.prems(2) by simp
qed simp

text \<open>The empty table, and the first three descriptors.\<close>

definition fd_empty_table :: fd_table where
  "fd_empty_table = \<lparr>ft_fds = replicate LINUX_NOFILE (-1), ft_dirs = replicate LINUX_NOFILE None,
     ft_flags = replicate LINUX_NOFILE 0, ft_passthrough = False\<rparr>"

lemma fd_empty_inv: "fd_inv h0 (fd_empty_table, h0, [])"
proof -
  have "owns (replicate LINUX_NOFILE (-1)) [] = {}" by (auto simp: owns_def)
  then show ?thesis by (simp add: fd_inv_def fd_empty_table_def slots_ok_def)
qed

text \<open>The kernel's choice for a \<^verbatim>\<open>dup\<close>.\<close>

definition fresh_fd :: "int \<Rightarrow> host_files \<Rightarrow> bool" where
  "fresh_fd k h \<longleftrightarrow> k = -1 \<or> (0 \<le> k \<and> h k = None)"

lemma dup_into:
  assumes inv: "fd_inv h0 (t, h, held)" and k: "k < LINUX_NOFILE" "ft_fds t ! k = -1"
    and new: "fresh_fd new h" and d: "host_dup new std h = (n, h')"
  shows "fd_inv h0 (t\<lparr>ft_fds := (ft_fds t)[k := n]\<rparr>, h', held)"
proof (cases "n = -1")
  case True
  then have "h' = h" using d by (auto simp: host_dup_def split: if_splits)
  moreover have "(ft_fds t)[k := n] = ft_fds t" using k(2) True by (metis list_update_id)
  ultimately show ?thesis using inv by simp
next
  case False
  then obtain fl where "n = new" "new \<noteq> -1" "h' = h(new := Some fl)"
    using d by (auto simp: host_dup_def split: if_splits)
  then show ?thesis using fd_fill [OF inv k, of new] new by (simp add: fresh_fd_def)
qed

lemma fdinit_inv:
  assumes "fresh_fd n0 h0" "fresh_fd n1 (snd (host_dup n0 0 h0))"
    "fresh_fd n2 (snd (host_dup n1 1 (snd (host_dup n0 0 h0))))"
  shows "fd_inv h0 (fst (fdinit False False (n0, n1, n2) h0), snd (fdinit False False (n0, n1, n2) h0), [])"
proof -
  obtain k0 h1 where d0: "host_dup n0 0 h0 = (k0, h1)" by (cases "host_dup n0 0 h0")
  obtain k1 h2 where d1: "host_dup n1 1 h1 = (k1, h2)" by (cases "host_dup n1 1 h1")
  obtain k2 h3 where d2: "host_dup n2 2 h2 = (k2, h3)" by (cases "host_dup n2 2 h2")
  let ?t = fd_empty_table
  have N: "0 < LINUX_NOFILE" "Suc 0 < LINUX_NOFILE" "2 < LINUX_NOFILE" by (simp_all add: LINUX_NOFILE_def)
  have 1: "fd_inv h0 (?t\<lparr>ft_fds := (ft_fds ?t)[0 := k0]\<rparr>, h1, [])" (is "fd_inv h0 (?t1, h1, [])")
    by (rule dup_into [OF fd_empty_inv _ _ assms(1) d0]) (simp_all add: N fd_empty_table_def)
  have 2: "fd_inv h0 (?t1\<lparr>ft_fds := (ft_fds ?t1)[1 := k1]\<rparr>, h2, [])" (is "fd_inv h0 (?t2, h2, [])")
    by (rule dup_into [OF 1 _ _ _ d1]) (use assms(2) d0 N in \<open>simp_all add: fd_empty_table_def\<close>)
  have "fd_inv h0 (?t2\<lparr>ft_fds := (ft_fds ?t2)[2 := k2]\<rparr>, h3, [])"
    by (rule dup_into [OF 2 _ _ _ d2]) (use assms(3) d0 d1 N in \<open>simp_all add: fd_empty_table_def\<close>)
  moreover have "fdinit False False (n0, n1, n2) h0 = (?t2\<lparr>ft_fds := (ft_fds ?t2)[2 := k2]\<rparr>, h3)"
    by (simp add: fdinit_def d0 d1 d2 fd_empty_table_def Let_def)
  ultimately show ?thesis by simp
qed

lemma fdfree_loop_inv:
  assumes inv: "fd_inv h0 (t, h, held)"
  shows "n \<le> LINUX_NOFILE \<Longrightarrow> \<exists>t' h'. fdfree_loop n (t, h) = (t', h') \<and> fd_inv h0 (t', h', held) \<and>
    (\<forall>i < n. ft_fds t' ! i = -1)"
proof (induction n)
  case 0
  then show ?case using inv by simp
next
  case (Suc n)
  then obtain t1 h1 where r: "fdfree_loop n (t, h) = (t1, h1)" "fd_inv h0 (t1, h1, held)" "\<forall>i < n. ft_fds t1 ! i = -1"
    by auto
  have n: "n < LINUX_NOFILE" using Suc.prems by simp
  have len: "length (ft_fds t1) = LINUX_NOFILE" using r(2) by (simp add: fd_inv_def slots_ok_def)
  show ?case
  proof (cases "ft_fds t1 ! n = -1")
    case True
    then show ?thesis using r by (auto simp: less_Suc_eq)
  next
    case False
    let ?t = "t1\<lparr>ft_fds := (ft_fds t1)[n := -1], ft_dirs := (ft_dirs t1)[n := None]\<rparr>"
    have "fd_inv h0 (?t, host_close (ft_fds t1 ! n) h1, held)" by (rule fd_empty [OF r(2) n False]) simp_all
    moreover have "\<forall>i < Suc n. ft_fds ?t ! i = -1" using r(3) n len by (auto simp: less_Suc_eq nth_list_update)
    moreover have "fdfree_loop (Suc n) (t, h) = (?t, host_close (ft_fds t1 ! n) h1)" using r(1) False by simp
    ultimately show ?thesis by blast
  qed
qed

lemma all_free_owns:
  assumes "fd_inv h0 (t, h, [])" "\<forall>i < LINUX_NOFILE. ft_fds t ! i = -1"
  shows "h = h0"
proof -
  have "length (ft_fds t) = LINUX_NOFILE" using assms(1) by (simp add: fd_inv_def slots_ok_def)
  then have "owns (ft_fds t) [] = {}" using assms(2) by (auto simp: owns_def in_set_conv_nth)
  then show ?thesis using fd_invD(4) [OF assms(1)] by (auto simp: fun_eq_iff)
qed

subsection \<open>Properties\<close>

text \<open>C11: Along any interleaving of opens, duplications, closes and borrowings of a process, with any of
  the host's calls failing: no assertion fails, the host's descriptors that are not the process's
  keep referring to the same files, every occupied slot has an open host descriptor of its own,
  and freeing the table when no call is in progress leaves exactly the host's descriptors of
  before, so none is leaked.\<close>

theorem descriptors_isolated:
  assumes "fresh_fd n0 h0" "fresh_fd n1 (snd (host_dup n0 0 h0))"
    "fresh_fd n2 (snd (host_dup n1 1 (snd (host_dup n0 0 h0))))"
    and "\<forall>c \<in> set cs. op_ok c" and "fdinit False False (n0, n1, n2) h0 = (t0, hi)"
  shows "\<exists>t h held. fd_dos cs (t0, hi, []) = Some (t, h, held) \<and>
    (\<forall>x. h0 x \<noteq> None \<longrightarrow> h x = h0 x) \<and>
    (\<forall>i < LINUX_NOFILE. ft_fds t ! i \<noteq> -1 \<longrightarrow> h (ft_fds t ! i) \<noteq> None \<and> h0 (ft_fds t ! i) = None \<and>
       (\<forall>j < LINUX_NOFILE. ft_fds t ! j = ft_fds t ! i \<longrightarrow> j = i)) \<and>
    (held = [] \<longrightarrow> snd (fdfree t h) = h0)"
proof -
  have "fd_inv h0 (t0, hi, [])" using fdinit_inv [OF assms(1-3)] assms(5) by simp
  from fd_dos_inv [OF this assms(4)] obtain t h held where
    r: "fd_dos cs (t0, hi, []) = Some (t, h, held)" "fd_inv h0 (t, h, held)" by auto
  have len: "length (ft_fds t) = LINUX_NOFILE" using r(2) by (simp add: fd_inv_def slots_ok_def)
  have foreign: "h x = h0 x" if "h0 x \<noteq> None" for x using that fd_invD(2,4) [OF r(2), of x] by (cases "x \<in> owns (ft_fds t) held") simp_all
  have own: "h (ft_fds t ! i) \<noteq> None \<and> h0 (ft_fds t ! i) = None \<and>
      (\<forall>j < LINUX_NOFILE. ft_fds t ! j = ft_fds t ! i \<longrightarrow> j = i)"
    if i: "i < LINUX_NOFILE" "ft_fds t ! i \<noteq> -1" for i
  proof -
    have "ft_fds t ! i \<in> owns (ft_fds t) held" using i len by (simp add: owns_def)
    note fd_invD(2,3) [OF r(2) this]
    moreover have "\<forall>j < LINUX_NOFILE. ft_fds t ! j = ft_fds t ! i \<longrightarrow> j = i"
      using r(2) i by (simp add: fd_inv_def slots_ok_def)
    ultimately show ?thesis by blast
  qed
  have freed: "snd (fdfree t h) = h0" if "held = []"
  proof -
    obtain t' h' where f: "fdfree_loop LINUX_NOFILE (t, h) = (t', h')" "fd_inv h0 (t', h', held)"
      "\<forall>i < LINUX_NOFILE. ft_fds t' ! i = -1"
      using fdfree_loop_inv [OF r(2) order_refl] by blast
    show ?thesis using all_free_owns [of h0 t' h'] f that by (simp add: fdfree_def)
  qed
  show ?thesis
  proof (rule exI [of _ t], rule exI [of _ h], rule exI [of _ held], intro conjI)
    show "\<forall>x. h0 x \<noteq> None \<longrightarrow> h x = h0 x" using foreign by blast
    show "\<forall>i < LINUX_NOFILE. ft_fds t ! i \<noteq> -1 \<longrightarrow> h (ft_fds t ! i) \<noteq> None \<and> h0 (ft_fds t ! i) = None \<and>
       (\<forall>j < LINUX_NOFILE. ft_fds t ! j = ft_fds t ! i \<longrightarrow> j = i)" by (intro allI impI) (rule own)
    show "held = [] \<longrightarrow> snd (fdfree t h) = h0" by (intro impI) (rule freed)
  qed (rule r(1))
qed

definition demo_host :: host_files where
  "demo_host = (\<lambda>x. if 0 \<le> x \<and> x \<le> 3 then Some (nat x) else None)"

definition demo_pick :: "host_files \<Rightarrow> int" where
  "demo_pick h = (if h 7 = None then 7 else if h 8 = None then 8 else -1)"

lemma descriptors_isolated_witness:
  "\<exists>t h held. fd_dos [Open demo_pick 9 None 0, Dup True True demo_pick 0 (-1), Acquire 3 demo_pick, Close 0, Release 0]
      (fst (fdinit False False (4, 5, 6) demo_host), snd (fdinit False False (4, 5, 6) demo_host), []) =
        Some (t, h, held) \<and>
    (\<forall>x. demo_host x \<noteq> None \<longrightarrow> h x = demo_host x) \<and>
    (\<forall>i < LINUX_NOFILE. ft_fds t ! i \<noteq> -1 \<longrightarrow> h (ft_fds t ! i) \<noteq> None \<and> demo_host (ft_fds t ! i) = None \<and>
       (\<forall>j < LINUX_NOFILE. ft_fds t ! j = ft_fds t ! i \<longrightarrow> j = i)) \<and>
    (held = [] \<longrightarrow> snd (fdfree t h) = demo_host)"
  by (rule descriptors_isolated)
    (simp_all add: fresh_fd_def demo_host_def host_dup_def pick_ok_def demo_pick_def)

text \<open>A duplication of a sandbox descriptor either fails and changes nothing, or returns the
  descriptor asked for, or the lowest free one, which then refers to the same open file as the
  old one; no other slot changes.\<close>

theorem fddup2_spec:
  assumes "fd_inv h0 (t, h, held)" "fresh_fd new h"
  shows "\<exists>r t' h'. fddup2 ok_malloc ok_dup2 new t oldfd newfd h = Some (r, t', h') \<and> fd_inv h0 (t', h', held) \<and>
    (if r < 0 then t' = t \<and> h' = h
     else r < int LINUX_NOFILE \<and> h' (ft_fds t' ! nat r) = h (ft_fds t ! nat oldfd) \<and>
       (if newfd = -1 then ft_fds t ! nat r = -1 \<and> (\<forall>j < nat r. ft_fds t ! j \<noteq> -1) else r = newfd) \<and>
       (\<forall>j < LINUX_NOFILE. j \<noteq> nat r \<longrightarrow> ft_fds t' ! j = ft_fds t ! j))"
  using fddup2_eq [OF assms(1) assms(2) [unfolded fresh_fd_def], of ok_malloc ok_dup2 oldfd newfd]
  unfolding dup_post_def by (elim exE conjE) (intro exI conjI, assumption+, auto split: if_splits)

lemma fddup2_spec_witness:
  "\<exists>r t' h'. fddup2 True True 7 fd_empty_table 0 (-1) demo_host = Some (r, t', h') \<and> fd_inv demo_host (t', h', []) \<and>
    (if r < 0 then t' = fd_empty_table \<and> h' = demo_host
     else r < int LINUX_NOFILE \<and> h' (ft_fds t' ! nat r) = demo_host (ft_fds fd_empty_table ! nat 0) \<and>
       (if (-1 :: int) = -1 then ft_fds fd_empty_table ! nat r = -1 \<and> (\<forall>j < nat r. ft_fds fd_empty_table ! j \<noteq> -1)
        else r = -1) \<and>
       (\<forall>j < LINUX_NOFILE. j \<noteq> nat r \<longrightarrow> ft_fds t' ! j = ft_fds fd_empty_table ! j))"
  by (rule fddup2_spec [OF fd_empty_inv]) (simp add: fresh_fd_def demo_host_def)

text \<open>\<^verbatim>\<open>dup3\<close> with the new descriptor -1 duplicates to the lowest free descriptor, and with the old
  descriptor as the new one it succeeds; Linux refuses these with EBADF and EINVAL.\<close>

theorem dup3_accepts_minus_one:
  assumes "0 \<le> fd" "fd < int LINUX_NOFILE" "ft_fds t ! nat fd \<noteq> -1"
  shows "sys_dup3 a b new t fd (-1) 0 h = sys_dup a b new t fd h \<and> sys_dup3 a b new t fd fd 0 h = Some (fd, t, h)"
  using assms by (auto simp: sys_dup3_def sys_dup_def fddup2_def Let_def)

lemma dup3_accepts_minus_one_witness:
  "sys_dup3 True True 7 (fd_empty_table\<lparr>ft_fds := 4 # replicate 1023 (-1)\<rparr>) 0 (-1) 0 demo_host =
     sys_dup True True 7 (fd_empty_table\<lparr>ft_fds := 4 # replicate 1023 (-1)\<rparr>) 0 demo_host \<and>
   sys_dup3 True True 7 (fd_empty_table\<lparr>ft_fds := 4 # replicate 1023 (-1)\<rparr>) 0 0 0 demo_host =
     Some (0, fd_empty_table\<lparr>ft_fds := 4 # replicate 1023 (-1)\<rparr>, demo_host)"
  by (rule dup3_accepts_minus_one) (simp_all add: LINUX_NOFILE_def)

end
