(* ===== verification/MemSys.thy ===== *)
theory MemSys
  imports BoxSteps FdTable
begin

text \<open>
  The memory system calls, \<^verbatim>\<open>linux/sys/sys_mmap.c\<close>, \<^verbatim>\<open>sys_munmap.c\<close>, \<^verbatim>\<open>sys_mprotect.c\<close> and
  \<^verbatim>\<open>sys_brk.c\<close>, over the process operations of \<^verbatim>\<open>linux/proc.c\<close> that borrow the file's host
  descriptor and go to the box. A call of a thread is one step; log messages are left out.
\<close>

unbundle bit_operations_syntax

definition LINUX_EACCES :: int where "LINUX_EACCES = 13"
definition LINUX_MAP_PRIVATE :: u32 where "LINUX_MAP_PRIVATE = 2"
definition LINUX_MAP_FIXED :: u32 where "LINUX_MAP_FIXED = 16"
definition LINUX_MAP_ANONYMOUS :: u32 where "LINUX_MAP_ANONYMOUS = 32"
definition LINUX_MAP_DENYWRITE :: u32 where "LINUX_MAP_DENYWRITE = 2048"
definition LINUX_MAP_NORESERVE :: u32 where "LINUX_MAP_NORESERVE = 16384"
definition BRKMAXSIZE :: u64 where "BRKMAXSIZE = 512 * 1024 * 1024"

text \<open>What the memory calls use of a process and of its engine's options.\<close>

record mem_proc =
  mp_box :: lfi_box
  mp_brkbase :: u64
  mp_brksize :: u64
  mp_fdtable :: fd_table
  mp_brk_control :: bool
  mp_brk_size :: u64

text \<open>The process, the host's descriptors and the memory.\<close>

type_synonym mem_state = "mem_proc \<times> host_files \<times> vm"

definition ptrcheck :: "mem_proc \<Rightarrow> u64 \<Rightarrow> bool" where
  "ptrcheck p a = lfi_box_ptrvalid (mp_box p) a"

text \<open>A negative C \<^verbatim>\<open>int\<close> as the \<^verbatim>\<open>uintptr_t\<close> a call returns.\<close>

definition err :: "int \<Rightarrow> u64" where
  "err e = word_of_int (- e)"

subsection \<open>Process operations\<close>

text \<open>\<open>new\<close> is the host descriptor \<^verbatim>\<open>dup\<close> returns when the file's descriptor is borrowed.\<close>

definition proc_mapany ::
  "host_env \<Rightarrow> int \<Rightarrow> u64 \<Rightarrow> u32 \<Rightarrow> u32 \<Rightarrow> u32 \<Rightarrow> u64 \<Rightarrow> mem_state \<Rightarrow> (int \<times> u64 \<times> mem_state) run" where
  "proc_mapany e new n prot flags fd off s = (case s of (p, h, m) \<Rightarrow>
     let ((kfd, _, _), h) = fdacquire (mp_fdtable p) (sint fd) new h
     in if sint fd \<ge> 0 \<and> kfd = -1 then Some (- LINUX_EBADF, 0, p, fdrelease (mp_fdtable p) kfd h, m)
        else do {
          (addr, b, m) \<leftarrow> lfi_box_mapany e n prot flags (word_of_int kfd) off (mp_box p, m);
          let p = p\<lparr>mp_box := b\<rparr>;
          let h = fdrelease (mp_fdtable p) kfd h;
          if addr = -1 then Some (- LINUX_EINVAL, 0, p, h, m) else Some (0, addr, p, h, m)
        })"

definition proc_mapat ::
  "host_env \<Rightarrow> int \<Rightarrow> u64 \<Rightarrow> u64 \<Rightarrow> u32 \<Rightarrow> u32 \<Rightarrow> u32 \<Rightarrow> u64 \<Rightarrow> mem_state \<Rightarrow> (int \<times> mem_state) run" where
  "proc_mapat e new start n prot flags fd off s = (case s of (p, h, m) \<Rightarrow>
     let ((kfd, _, _), h) = fdacquire (mp_fdtable p) (sint fd) new h
     in if sint fd \<ge> 0 \<and> kfd = -1 then Some (- LINUX_EBADF, p, fdrelease (mp_fdtable p) kfd h, m)
        else do {
          (addr, b, m) \<leftarrow> lfi_box_mapat e start n prot flags (word_of_int kfd) off (mp_box p, m);
          let p = p\<lparr>mp_box := b\<rparr>;
          let h = fdrelease (mp_fdtable p) kfd h;
          if addr = -1 then Some (- LINUX_EINVAL, p, h, m) else Some (0, p, h, m)
        })"

definition proc_unmap :: "host_env \<Rightarrow> u64 \<Rightarrow> u64 \<Rightarrow> mem_state \<Rightarrow> int \<times> mem_state" where
  "proc_unmap e start n s = (case s of (p, h, m) \<Rightarrow>
     let (r, b, m) = lfi_box_munmap e start n (mp_box p, m) in (r, p\<lparr>mp_box := b\<rparr>, h, m))"

subsection \<open>The calls\<close>

definition illegal_mask :: u32 where
  "illegal_mask = NOT LINUX_MAP_ANONYMOUS AND NOT LINUX_MAP_PRIVATE AND NOT LINUX_MAP_NORESERVE AND
     NOT LINUX_MAP_DENYWRITE AND NOT LINUX_MAP_FIXED"

definition sys_mmap ::
  "host_env \<Rightarrow> int \<Rightarrow> u64 \<Rightarrow> u64 \<Rightarrow> u32 \<Rightarrow> u32 \<Rightarrow> u32 \<Rightarrow> u64 \<Rightarrow> mem_state \<Rightarrow> (u64 \<times> mem_state) run" where
  "sys_mmap e new addrp len prot flags fd off s = (case s of (p, h, m) \<Rightarrow>
     if len = 0 then Some (err LINUX_EINVAL, s)
     else let pagesize = opt_pagesize (bx_opts (mp_box p))
       in if len > SIZE_MAX - (pagesize - 1) then Some (err LINUX_EINVAL, s)
       else let len = ceilp len pagesize
       in if flags AND illegal_mask \<noteq> 0 then Some (err LINUX_EINVAL, s)
       else if has_flag prot LFI_PROT_EXEC \<and> \<not> has_flag flags LINUX_MAP_ANONYMOUS
         then Some (err LINUX_EACCES, s)
       else if has_flag flags LFI_MAP_FIXED then
         (let addrp = truncp addrp pagesize
          in if \<not> ptrcheck p addrp then Some (-1, s)
             else do {
               (r, s) \<leftarrow> proc_mapat e new addrp len prot flags fd off s;
               Some (if r < 0 then word_of_int r else addrp, s)
             })
       else do {
         (r, addr, s) \<leftarrow> proc_mapany e new len prot flags fd off s;
         Some (if r < 0 then word_of_int r else addr, s)
       })"

definition sys_munmap :: "host_env \<Rightarrow> u64 \<Rightarrow> u64 \<Rightarrow> mem_state \<Rightarrow> int \<times> mem_state" where
  "sys_munmap e addrp len s =
     (if \<not> ptrcheck (fst s) addrp then (-1, s) else proc_unmap e addrp len s)"

definition sys_mprotect :: "host_env \<Rightarrow> u64 \<Rightarrow> u64 \<Rightarrow> u32 \<Rightarrow> mem_state \<Rightarrow> int \<times> mem_state" where
  "sys_mprotect e addrp len prot s = (case s of (p, h, m) \<Rightarrow>
     if len = 0 then (- LINUX_EINVAL, s)
     else if \<not> ptrcheck p addrp then (-1, s)
     else let pagesize = opt_pagesize (bx_opts (mp_box p));
              len = ceilp len pagesize;
              (r, b, m) = lfi_box_mprotect e addrp len prot (mp_box p, m)
          in (r, p\<lparr>mp_box := b\<rparr>, h, m))"

text \<open>\<open>None\<close> is the failed assertion on the new size.\<close>

definition sys_brk :: "host_env \<Rightarrow> u64 \<Rightarrow> mem_state \<Rightarrow> (u64 \<times> mem_state) run" where
  "sys_brk e addr s = (case s of (p, h, m) \<Rightarrow>
     let brkp = mp_brkbase p + mp_brksize p
     in if addr \<noteq> 0 \<and> \<not> ptrcheck p addr then Some (-1, s)
        else do {
          let brkp = (if addr \<noteq> 0 then addr else brkp);
          let brkmaxsize = (if mp_brk_control p then mp_brk_size p else BRKMAXSIZE);
          let brkp = (if brkp < mp_brkbase p then mp_brkbase p else brkp);
          let brkp = (if brkp \<ge> mp_brkbase p + brkmaxsize then mp_brkbase p + brkmaxsize else brkp);
          let newsize = brkp - mp_brkbase p;
          check (newsize \<le> brkmaxsize);
          if newsize = mp_brksize p then Some (brkp, s)
          else do {
            let pagesize = opt_pagesize (bx_opts (mp_box p));
            let next_page = ceilp (mp_brkbase p + mp_brksize p) pagesize;
            let new_end = ceilp (mp_brkbase p + newsize) pagesize;
            (ok, b, m) \<leftarrow>
              (if brkp > mp_brkbase p + mp_brksize p \<and> new_end > next_page then do {
                 (map, b, m) \<leftarrow> lfi_box_mapat e next_page (new_end - next_page)
                    (LFI_PROT_READ OR LFI_PROT_WRITE) (LFI_MAP_PRIVATE OR LFI_MAP_ANONYMOUS) (-1) 0 (mp_box p, m);
                 Some (map \<noteq> -1, b, m)
               } else Some (True, mp_box p, m));
            let p = p\<lparr>mp_box := b\<rparr>;
            if \<not> ok then Some (-1, p, h, m)
            else do {
              let p = p\<lparr>mp_brksize := newsize\<rparr>;
              Some (mp_brkbase p + mp_brksize p, p, h, m)
            }
          }
        })"

subsection \<open>Every call is a sequence of requests of whole pages\<close>

lemma whole_ceilp:
  assumes "unat ps = 2 ^ k" "k < 64"
  shows "unat ps dvd unat (ceilp x ps)"
proof -
  have ps: "ps = 2 ^ k" using assms by (simp add: word_eq_nat_iff unat_pow2)
  let ?y = "x + (ps - 1)"
  have "ceilp x ps = ?y - ?y mod ps" by (simp add: ceilp_def ps and_not_pow2 [OF assms(2)] Let_def)
  moreover have "unat (?y - ?y mod ps) = unat ?y - unat ?y mod unat ps"
    by (simp only: unat_sub64' unat_mod64 mod_less_eq_dividend)
  ultimately show ?thesis by (simp add: minus_mod_eq_mult_div)
qed

lemma box_ps: "box_ok b \<Longrightarrow> unat (bx_ps b) = 2 ^ as_p2 (bx_mm b) \<and> as_p2 (bx_mm b) < 64"
  by (simp add: box_ok_def as_inv_def)

lemma whole_length: "box_ok b \<Longrightarrow> unat (ceilp x (bx_ps b)) mod unat (bx_ps b) = 0"
  using whole_ceilp [of "bx_ps b" "as_p2 (bx_mm b)" x] box_ps [of b] by (simp add: mod_eq_0_iff_dvd)

text \<open>A borrowed descriptor is given back, which leaves the host as it was.\<close>

lemma borrow_back:
  assumes "fresh_fd new h" "fdacquire t fd new h = ((k, fl, d), h1)"
  shows "fdrelease t k h1 = h"
  using assms
  by (auto simp: fdacquire_def fdrelease_def fresh_fd_def host_dup_def host_close_def Let_def
      split: if_splits)

text \<open>
  A run is a sequence of requests of whole pages to the box; if \<open>q\<close> holds, of pages that begin inside
  their files.
\<close>

definition requests :: "host_env \<Rightarrow> bool \<Rightarrow> mem_proc \<times> vm \<Rightarrow> mem_proc \<times> vm \<Rightarrow> bool" where
  "requests e q pm pm' \<longleftrightarrow> (\<exists>cs. box_dos e cs (mp_box (fst pm), snd pm) = Some (mp_box (fst pm'), snd pm') \<and>
     (\<forall>c \<in> set cs. whole_pages (bx_ps (mp_box (fst pm))) c \<and> (q \<longrightarrow> request_fits e (bx_ps (mp_box (fst pm))) c))) \<and> mp_fdtable (fst pm') = mp_fdtable (fst pm) \<and>
     mp_brkbase (fst pm') = mp_brkbase (fst pm)"

lemma requests_none: "mp_box p' = mp_box p \<Longrightarrow> mp_fdtable p' = mp_fdtable p \<Longrightarrow> mp_brkbase p' = mp_brkbase p \<Longrightarrow>
    requests e q (p, m) (p', m)"
  by (simp add: requests_def exI [of _ "[]"])

lemma requests_one:
  assumes "box_do e c (mp_box p, m) = Some (mp_box p', m')" "whole_pages (bx_ps (mp_box p)) c"
    "q \<Longrightarrow> request_fits e (bx_ps (mp_box p)) c" "mp_fdtable p' = mp_fdtable p" "mp_brkbase p' = mp_brkbase p"
  shows "requests e q (p, m) (p', m')"
  using assms by (auto simp: requests_def intro!: exI [of _ "[c]"])

text \<open>The host descriptor a mapping call gets for a descriptor of the sandbox.\<close>

definition lent :: "mem_proc \<Rightarrow> host_files \<Rightarrow> u32 \<Rightarrow> int \<Rightarrow> int" where
  "lent p h fd new = fst (fst (fdacquire (mp_fdtable p) (sint fd) new h))"

lemma proc_mapany_requests:
  assumes b: "box_ok (mp_box p)" and f: "fresh_fd new h" and n: "unat n mod unat (bx_ps (mp_box p)) = 0"
    and fits: "q \<Longrightarrow> in_file e (bx_ps (mp_box p)) n flags (word_of_int (lent p h fd new)) off"
  shows "\<exists>r a p' m'. proc_mapany e new n prot flags fd off (p, h, m) = Some (r, a, p', h, m') \<and>
    requests e q (p, m) (p', m')"
proof -
  obtain k fl d h1 where a: "fdacquire (mp_fdtable p) (sint fd) new h = ((k, fl, d), h1)"
    by (cases "fdacquire (mp_fdtable p) (sint fd) new h") auto
  note given = borrow_back [OF f a]
  have k: "lent p h fd new = k" using a by (simp add: lent_def)
  show ?thesis
  proof (cases "sint fd \<ge> 0 \<and> k = -1")
    case True
    have "proc_mapany e new n prot flags fd off (p, h, m) = Some (- LINUX_EBADF, 0, p, h, m)"
      using True a given by (simp add: proc_mapany_def)
    then show ?thesis using requests_none [of p p e q m] by auto
  next
    case False
    obtain r b' m' where r: "box_mapany_locked e n prot flags (word_of_int k) off False (mp_box p, m) = Some (r, b', m')"
      using mapany_effect [OF b] by blast
    have "requests e q (p, m) (p\<lparr>mp_box := b'\<rparr>, m')"
      using r n fits k by (intro requests_one [of e "Mapany n prot flags (word_of_int k) off"]) simp_all
    moreover have "proc_mapany e new n prot flags fd off (p, h, m) =
        Some (if r = -1 then - LINUX_EINVAL else 0, if r = -1 then 0 else r, p\<lparr>mp_box := b'\<rparr>, h, m')"
      using False a r given by (auto simp: proc_mapany_def lfi_box_mapany_def)
    ultimately show ?thesis by blast
  qed
qed

lemma proc_mapat_requests:
  assumes b: "box_ok (mp_box p)" and f: "fresh_fd new h" and n: "unat n mod unat (bx_ps (mp_box p)) = 0"
    and fits: "q \<Longrightarrow> in_file e (bx_ps (mp_box p)) n flags (word_of_int (lent p h fd new)) off"
  shows "\<exists>r p' m'. proc_mapat e new start n prot flags fd off (p, h, m) = Some (r, p', h, m') \<and>
    requests e q (p, m) (p', m')"
proof -
  obtain k fl d h1 where a: "fdacquire (mp_fdtable p) (sint fd) new h = ((k, fl, d), h1)"
    by (cases "fdacquire (mp_fdtable p) (sint fd) new h") auto
  note given = borrow_back [OF f a]
  have k: "lent p h fd new = k" using a by (simp add: lent_def)
  show ?thesis
  proof (cases "sint fd \<ge> 0 \<and> k = -1")
    case True
    have "proc_mapat e new start n prot flags fd off (p, h, m) = Some (- LINUX_EBADF, p, h, m)"
      using True a given by (simp add: proc_mapat_def)
    then show ?thesis using requests_none [of p p e q m] by auto
  next
    case False
    obtain r b' m' where r: "box_mapat_locked e start n prot flags (word_of_int k) off (mp_box p, m) = Some (r, b', m')"
      using mapat_effect [OF b] by blast
    have "requests e q (p, m) (p\<lparr>mp_box := b'\<rparr>, m')"
      using r n fits k by (intro requests_one [of e "Mapat start n prot flags (word_of_int k) off"]) simp_all
    moreover have "proc_mapat e new start n prot flags fd off (p, h, m) =
        Some (if r = -1 then - LINUX_EINVAL else 0, p\<lparr>mp_box := b'\<rparr>, h, m')"
      using False a r given by (auto simp: proc_mapat_def lfi_box_mapat_def)
    ultimately show ?thesis by blast
  qed
qed

datatype mem_call =
  SysMmap "host_files \<Rightarrow> int" u64 u64 u32 u32 u32 u64
| SysMunmap u64 u64
| SysMprotect u64 u64 u32
| SysBrk u64

fun mem_do :: "host_env \<Rightarrow> mem_call \<Rightarrow> mem_state \<Rightarrow> mem_state run" where
  "mem_do e (SysMmap pick addrp len prot flags fd off) s =
     map_option snd (sys_mmap e (pick (fst (snd s))) addrp len prot flags fd off s)"
| "mem_do e (SysMunmap addrp len) s = Some (snd (sys_munmap e addrp len s))"
| "mem_do e (SysMprotect addrp len prot) s = Some (snd (sys_mprotect e addrp len prot s))"
| "mem_do e (SysBrk addr) s = map_option snd (sys_brk e addr s)"

fun mem_dos :: "host_env \<Rightarrow> mem_call list \<Rightarrow> mem_state \<Rightarrow> mem_state run" where
  "mem_dos e [] s = Some s"
| "mem_dos e (c # cs) s = (mem_do e c s \<bind> mem_dos e cs)"

fun mem_call_ok :: "mem_call \<Rightarrow> bool" where
  "mem_call_ok (SysMmap pick addrp len prot flags fd off) \<longleftrightarrow> pick_ok pick"
| "mem_call_ok _ \<longleftrightarrow> True"

text \<open>A mapping call ends in the last page of its file or before.\<close>

fun mem_call_fits :: "host_env \<Rightarrow> mem_proc \<Rightarrow> host_files \<Rightarrow> mem_call \<Rightarrow> bool" where
  "mem_call_fits e p h (SysMmap pick addrp len prot flags fd off) \<longleftrightarrow>
     in_file e (bx_ps (mp_box p)) (ceilp len (bx_ps (mp_box p))) flags (word_of_int (lent p h fd (pick h))) off"
| "mem_call_fits e p h _ \<longleftrightarrow> True"

lemma sys_mmap_requests:
  assumes b: "box_ok (mp_box p)" and f: "fresh_fd new h"
    and fits: "q \<Longrightarrow> in_file e (bx_ps (mp_box p)) (ceilp len (bx_ps (mp_box p))) flags (word_of_int (lent p h fd new)) off"
  shows "\<exists>r p' m'. sys_mmap e new addrp len prot flags fd off (p, h, m) = Some (r, p', h, m') \<and>
    requests e q (p, m) (p', m')"
proof -
  have stay: ?thesis if "sys_mmap e new addrp len prot flags fd off (p, h, m) = Some (r, p, h, m)" for r
    using that requests_none [of p p e q m] by blast
  let ?ps = "bx_ps (mp_box p)"
  have w: "unat (ceilp len ?ps) mod unat ?ps = 0" by (rule whole_length [OF b])
  consider "len = 0 \<or> len > SIZE_MAX - (?ps - 1) \<or> flags AND illegal_mask \<noteq> 0 \<or>
      (has_flag prot LFI_PROT_EXEC \<and> \<not> has_flag flags LINUX_MAP_ANONYMOUS) \<or>
      (has_flag flags LFI_MAP_FIXED \<and> \<not> ptrcheck p (truncp addrp ?ps))"
    | (at) "\<not> (len = 0 \<or> len > SIZE_MAX - (?ps - 1) \<or> flags AND illegal_mask \<noteq> 0 \<or>
      (has_flag prot LFI_PROT_EXEC \<and> \<not> has_flag flags LINUX_MAP_ANONYMOUS))"
      "has_flag flags LFI_MAP_FIXED" "ptrcheck p (truncp addrp ?ps)"
    | (any) "\<not> (len = 0 \<or> len > SIZE_MAX - (?ps - 1) \<or> flags AND illegal_mask \<noteq> 0 \<or>
      (has_flag prot LFI_PROT_EXEC \<and> \<not> has_flag flags LINUX_MAP_ANONYMOUS))"
      "\<not> has_flag flags LFI_MAP_FIXED" by blast
  then show ?thesis
  proof cases
    case 1
    then have "\<exists>r. sys_mmap e new addrp len prot flags fd off (p, h, m) = Some (r, p, h, m)"
      by (auto simp: sys_mmap_def Let_def)
    then show ?thesis using stay by blast
  next
    case at
    obtain r p' m' where r: "proc_mapat e new (truncp addrp ?ps) (ceilp len ?ps) prot flags fd off (p, h, m) =
        Some (r, p', h, m')" "requests e q (p, m) (p', m')"
      using proc_mapat_requests [OF b f w fits] by blast
    then show ?thesis using at by (auto simp: sys_mmap_def Let_def)
  next
    case any
    obtain r a p' m' where r: "proc_mapany e new (ceilp len ?ps) prot flags fd off (p, h, m) = Some (r, a, p', h, m')"
      "requests e q (p, m) (p', m')"
      using proc_mapany_requests [OF b f w fits] by blast
    then show ?thesis using any by (auto simp: sys_mmap_def Let_def)
  qed
qed

text \<open>The limit of the heap, and the break a call moves to: the wanted address clamped to the
  heap.\<close>

definition brk_max :: "mem_proc \<Rightarrow> u64" where
  "brk_max p = (if mp_brk_control p then mp_brk_size p else BRKMAXSIZE)"

definition brk_target :: "mem_proc \<Rightarrow> u64 \<Rightarrow> u64" where
  "brk_target p addr =
     (let k = (if addr \<noteq> 0 then addr else mp_brkbase p + mp_brksize p);
          k = (if k < mp_brkbase p then mp_brkbase p else k)
      in if k \<ge> mp_brkbase p + brk_max p then mp_brkbase p + brk_max p else k)"

lemma brk_target_le: "brk_target p addr - mp_brkbase p \<le> brk_max p"
proof -
  define k0 where "k0 = (if addr \<noteq> 0 then addr else mp_brkbase p + mp_brksize p)"
  define k1 where "k1 = (if k0 < mp_brkbase p then mp_brkbase p else k0)"
  have t: "brk_target p addr = (if k1 \<ge> mp_brkbase p + brk_max p then mp_brkbase p + brk_max p else k1)"
    unfolding brk_target_def k0_def k1_def Let_def by (rule refl)
  show ?thesis
  proof (cases "k1 \<ge> mp_brkbase p + brk_max p")
    case True
    then show ?thesis by (simp add: t)
  next
    case False
    have base: "mp_brkbase p \<le> k1" by (simp add: k1_def not_less)
    have lt: "k1 < mp_brkbase p + brk_max p" using False by simp
    have up: "mp_brkbase p < mp_brkbase p + brk_max p" by (rule le_less_trans [OF base lt])
    have "unat (mp_brkbase p) + unat (brk_max p) < 2 ^ 64 \<or> unat (mp_brkbase p + brk_max p) < unat (mp_brkbase p)"
      by (simp add: unat_plus_if' ) (use unat_lt64 [of "brk_max p"] in linarith)
    then have "unat (mp_brkbase p + brk_max p) = unat (mp_brkbase p) + unat (brk_max p)"
      using up by (auto simp: word_less_nat_alt intro: unat_add64)
    then have "unat k1 < unat (mp_brkbase p) + unat (brk_max p)" using lt by (simp add: word_less_nat_alt)
    then have "unat (k1 - mp_brkbase p) \<le> unat (brk_max p)" using base by (simp add: unat_sub64)
    then show ?thesis using False by (simp add: t word_le_nat_alt)
  qed
qed

lemma sys_brk_eq:
  fixes p addr
  defines "ps \<equiv> bx_ps (mp_box p)" and "k \<equiv> brk_target p addr"
  defines "np \<equiv> ceilp (mp_brkbase p + mp_brksize p) ps" and "ne \<equiv> ceilp k ps"
  shows "sys_brk e addr (p, h, m) =
    (if addr \<noteq> 0 \<and> \<not> ptrcheck p addr then Some (-1, p, h, m)
     else if k - mp_brkbase p = mp_brksize p then Some (k, p, h, m)
     else (if k > mp_brkbase p + mp_brksize p \<and> ne > np then
            lfi_box_mapat e np (ne - np) (LFI_PROT_READ OR LFI_PROT_WRITE)
               (LFI_MAP_PRIVATE OR LFI_MAP_ANONYMOUS) (-1) 0 (mp_box p, m) \<bind>
               (\<lambda>(map, b, m). Some (map \<noteq> -1, b, m))
          else Some (True, mp_box p, m)) \<bind> (\<lambda>(ok, b, m).
       if \<not> ok then Some (-1, p\<lparr>mp_box := b\<rparr>, h, m)
       else Some (k, p\<lparr>mp_box := b, mp_brksize := k - mp_brkbase p\<rparr>, h, m)))"
proof -
  have ne: "ne = ceilp (mp_brkbase p + (k - mp_brkbase p)) ps" by (simp add: ne_def)
  have "sys_brk e addr (p, h, m) =
    (if addr \<noteq> 0 \<and> \<not> ptrcheck p addr then Some (-1, p, h, m)
     else check (k - mp_brkbase p \<le> brk_max p) \<bind> (\<lambda>_. if k - mp_brkbase p = mp_brksize p then Some (k, p, h, m)
     else (if k > mp_brkbase p + mp_brksize p \<and> ne > np then
            lfi_box_mapat e np (ne - np) (LFI_PROT_READ OR LFI_PROT_WRITE)
               (LFI_MAP_PRIVATE OR LFI_MAP_ANONYMOUS) (-1) 0 (mp_box p, m) \<bind>
               (\<lambda>(map, b, m). Some (map \<noteq> -1, b, m))
          else Some (True, mp_box p, m)) \<bind> (\<lambda>(ok, b, m).
       if \<not> ok then Some (-1, p\<lparr>mp_box := b\<rparr>, h, m)
       else Some (mp_brkbase (p\<lparr>mp_box := b, mp_brksize := k - mp_brkbase p\<rparr>) +
           mp_brksize (p\<lparr>mp_box := b, mp_brksize := k - mp_brkbase p\<rparr>),
         p\<lparr>mp_box := b, mp_brksize := k - mp_brkbase p\<rparr>, h, m))))"
    unfolding k_def ne np_def ps_def brk_target_def brk_max_def
    by (simp only: sys_brk_def prod.case Let_def)
  moreover have "check (k - mp_brkbase p \<le> brk_max p) = Some ()"
    using brk_target_le [of p addr] by (simp add: k_def)
  moreover have "mp_brkbase (p\<lparr>mp_box := b, mp_brksize := k - mp_brkbase p\<rparr>) +
      mp_brksize (p\<lparr>mp_box := b, mp_brksize := k - mp_brkbase p\<rparr>) = k" for b by simp
  ultimately show ?thesis by (simp only: Option.bind.simps)
qed

lemma sys_brk_cases:
  assumes b: "box_ok (mp_box p)"
  shows "\<exists>r p' m'. sys_brk e addr (p, h, m) = Some (r, p', h, m') \<and> requests e q (p, m) (p', m') \<and>
    ((r = -1 \<and> mp_brksize p' = mp_brksize p) \<or>
     (r = brk_target p addr \<and> mp_brksize p' = r - mp_brkbase p))"
proof -
  let ?ps = "bx_ps (mp_box p)" and ?k = "brk_target p addr"
  define np where "np = ceilp (mp_brkbase p + mp_brksize p) ?ps"
  define ne where "ne = ceilp ?k ?ps"
  note eq = sys_brk_eq [of e addr p h m, folded np_def ne_def]
  show ?thesis
  proof (cases "(addr \<noteq> 0 \<and> \<not> ptrcheck p addr) \<or> ?k - mp_brkbase p = mp_brksize p \<or>
      \<not> (?k > mp_brkbase p + mp_brksize p \<and> ne > np)")
    case True
    then show ?thesis unfolding eq by (auto intro: requests_none)
  next
    case False
    obtain r b' m' where r: "box_mapat_locked e np (ne - np) (LFI_PROT_READ OR LFI_PROT_WRITE)
        (LFI_MAP_PRIVATE OR LFI_MAP_ANONYMOUS) (-1) 0 (mp_box p, m) = Some (r, b', m')"
      using mapat_effect [OF b] by blast
    have "unat (ne - np) mod unat ?ps = 0"
    proof -
      have "np \<le> ne" using False by (auto intro: less_imp_le)
      then have "unat (ne - np) = unat ne - unat np" by (rule unat_sub64)
      moreover have "unat ?ps dvd unat ne" "unat ?ps dvd unat np"
        unfolding ne_def np_def using whole_ceilp box_ps [OF b] by blast+
      ultimately show ?thesis by (simp add: mod_eq_0_iff_dvd dvd_diff_nat)
    qed
    moreover have "in_file e ?ps (ne - np) (LFI_MAP_PRIVATE OR LFI_MAP_ANONYMOUS) (-1) 0"
      by (simp add: in_file_def host_flags_def lfi_flags has_flag_def)
    ultimately have one: "requests e q (p, m) (p', m')" if "mp_box p' = b'" "mp_fdtable p' = mp_fdtable p"
        "mp_brkbase p' = mp_brkbase p" for p'
      using r that by (intro requests_one [of e "Mapat np (ne - np) (LFI_PROT_READ OR LFI_PROT_WRITE)
        (LFI_MAP_PRIVATE OR LFI_MAP_ANONYMOUS) (-1) 0"]) simp_all
    show ?thesis unfolding eq using False r one by (auto simp: lfi_box_mapat_def)
  qed
qed

lemma box_dos_append:
  "box_dos e (cs @ ds) bm = (box_dos e cs bm \<bind> box_dos e ds)"
proof (induction cs arbitrary: bm)
  case (Cons c cs)
  then show ?case by (cases "box_do e c bm") auto
qed simp

lemma requests_trans:
  assumes a: "requests e q pm pm'" and b: "requests e q pm' pm''"
    and ps: "bx_ps (mp_box (fst pm')) = bx_ps (mp_box (fst pm))"
  shows "requests e q pm pm''"
proof -
  from a obtain cs where cs: "box_dos e cs (mp_box (fst pm), snd pm) = Some (mp_box (fst pm'), snd pm')"
    "\<forall>c \<in> set cs. whole_pages (bx_ps (mp_box (fst pm))) c \<and> (q \<longrightarrow> request_fits e (bx_ps (mp_box (fst pm))) c)"
    "mp_fdtable (fst pm') = mp_fdtable (fst pm)"
    "mp_brkbase (fst pm') = mp_brkbase (fst pm)"
    unfolding requests_def by blast
  from b obtain ds where ds: "box_dos e ds (mp_box (fst pm'), snd pm') = Some (mp_box (fst pm''), snd pm'')"
    "\<forall>c \<in> set ds. whole_pages (bx_ps (mp_box (fst pm'))) c \<and> (q \<longrightarrow> request_fits e (bx_ps (mp_box (fst pm'))) c)"
    "mp_fdtable (fst pm'') = mp_fdtable (fst pm')"
    "mp_brkbase (fst pm'') = mp_brkbase (fst pm')"
    unfolding requests_def by blast
  have "box_dos e (cs @ ds) (mp_box (fst pm), snd pm) = Some (mp_box (fst pm''), snd pm'')"
    using cs(1) ds(1) by (simp add: box_dos_append)
  moreover have "\<forall>c \<in> set (cs @ ds). whole_pages (bx_ps (mp_box (fst pm))) c \<and>
      (q \<longrightarrow> request_fits e (bx_ps (mp_box (fst pm))) c)"
    using cs(2) ds(2) ps by auto
  ultimately show ?thesis using cs(3,4) ds(3,4) unfolding requests_def by metis
qed

lemma requests_box:
  assumes "requests e q (p, m) (p', m')" "box_ok (mp_box p)"
  shows "box_ok (mp_box p')" "bx_opts (mp_box p') = bx_opts (mp_box p)"
proof -
  from assms(1) obtain cs where "box_dos e cs (mp_box p, m) = Some (mp_box p', m')"
    unfolding requests_def by auto
  then show "box_ok (mp_box p')" "bx_opts (mp_box p') = bx_opts (mp_box p)"
    using box_dos_effect [OF assms(2), of e cs m] by auto
qed

lemma mem_do_requests:
  assumes b: "box_ok (mp_box p)" and c: "mem_call_ok c" and fits: "q \<Longrightarrow> mem_call_fits e p h c"
  shows "\<exists>p' m'. mem_do e c (p, h, m) = Some (p', h, m') \<and> requests e q (p, m) (p', m')"
proof (cases c)
  case (SysMmap pick addrp len prot flags fd off)
  have "fresh_fd (pick h) h" using c SysMmap by (auto simp: pick_ok_def fresh_fd_def)
  from sys_mmap_requests [OF b this, of q e len flags fd off addrp prot m] fits SysMmap
  obtain r p' m' where "sys_mmap e (pick h) addrp len prot flags fd off (p, h, m) = Some (r, p', h, m')"
    "requests e q (p, m) (p', m')" by auto
  then show ?thesis using SysMmap by simp
next
  case (SysMunmap addrp len)
  obtain r b' m' where "box_munmap_locked e addrp len (mp_box p, m) = (r, b', m')"
    by (cases "box_munmap_locked e addrp len (mp_box p, m)") auto
  then have "requests e q (p, m) (p\<lparr>mp_box := b'\<rparr>, m')"
    "snd (proc_unmap e addrp len (p, h, m)) = (p\<lparr>mp_box := b'\<rparr>, h, m')"
    by (auto simp: proc_unmap_def lfi_box_munmap_def intro!: requests_one [of e "Munmap addrp len"])
  then show ?thesis using SysMunmap requests_none [of p p e q m] by (auto simp: sys_munmap_def)
next
  case (SysMprotect addrp len prot)
  let ?n = "ceilp len (bx_ps (mp_box p))"
  obtain r b' m' where r: "box_mprotect_locked e addrp ?n prot False (mp_box p, m) = (r, b', m')"
    by (cases "box_mprotect_locked e addrp ?n prot False (mp_box p, m)") auto
  then have "requests e q (p, m) (p\<lparr>mp_box := b'\<rparr>, m')"
    by (auto intro!: requests_one [of e "Mprotect addrp ?n prot"])
  then show ?thesis using SysMprotect r requests_none [of p p e q m]
    by (auto simp: sys_mprotect_def lfi_box_mprotect_def Let_def)
next
  case (SysBrk addr)
  from sys_brk_cases [OF b, of e addr h m q] obtain r p' m' where
    "sys_brk e addr (p, h, m) = Some (r, p', h, m')" "requests e q (p, m) (p', m')" by blast
  then show ?thesis using SysBrk by simp
qed

lemma mem_dos_requests:
  assumes "box_ok (mp_box p)" "\<forall>c \<in> set cs. mem_call_ok c" "q \<Longrightarrow> \<forall>c \<in> set cs. mem_call_fits e p h c"
  shows "\<exists>p' m'. mem_dos e cs (p, h, m) = Some (p', h, m') \<and> requests e q (p, m) (p', m')"
  using assms
proof (induction cs arbitrary: p m)
  case Nil
  then show ?case using requests_none [of p p e q m] by simp
next
  case (Cons c cs)
  obtain p1 m1 where s: "mem_do e c (p, h, m) = Some (p1, h, m1)" "requests e q (p, m) (p1, m1)"
    using mem_do_requests [of p c q e h m] Cons.prems by auto
  note b = requests_box [OF s(2) Cons.prems(1)]
  obtain p2 m2 where t: "mem_dos e cs (p1, h, m1) = Some (p2, h, m2)" "requests e q (p1, m1) (p2, m2)"
  proof -
    have "mem_call_fits e p1 h d = mem_call_fits e p h d" for d
      using s(2) b(2) by (cases d) (simp_all add: lent_def requests_def)
    then show ?thesis using Cons.IH [OF b(1), of m1] Cons.prems(2,3) that by (simp del: mem_dos.simps) blast
  qed
  have "requests e q (p, m) (p2, m2)" using requests_trans [OF s(2) t(2)] b(2) by simp
  then show ?case using s(1) t(1) by simp
qed

definition demo_proc :: mem_proc where
  "demo_proc = \<lparr>mp_box = demo_box, mp_brkbase = 0x11000, mp_brksize = 0,
     mp_fdtable = fd_empty_table, mp_brk_control = True, mp_brk_size = 0x1000\<rparr>"

text \<open>C8: a sandbox's memory system calls refine box requests of whole pages, and so are safe. Any sequence of
  \<^verbatim>\<open>mmap\<close>, \<^verbatim>\<open>munmap\<close>, \<^verbatim>\<open>mprotect\<close> and \<^verbatim>\<open>brk\<close> with any arguments returns (no assertion
  fails), and takes the box and the memory where a sequence of requests of whole pages
  takes them. So executable pages are verified and not
  writable and pages outside the box keep their access. Every host descriptor borrowed for
  a mapping is given back, and the sandbox's own descriptors stay. If each mapping of a file ends in the
  last page of the file or before, and so it was for the pages the box had,
  the host's verifier reads no page that it cannot read.\<close>

theorem memory_calls_safe:
  assumes "box_ok (mp_box p)" "\<not> opt_no_verify (bx_opts (mp_box p))" "can_lower e" "files_stable e"
    and "\<forall>c \<in> set cs. mem_call_ok c"
    and "\<forall>k. box_page (mp_box p) k \<longrightarrow> \<not> acc_x (vm_acc m k)"
  shows "\<exists>p' m' ds. mem_dos e cs (p, h, m) = Some (p', h, m') \<and> mp_fdtable p' = mp_fdtable p \<and>
    box_dos e ds (mp_box p, m) = Some (mp_box p', m') \<and> (\<forall>d \<in> set ds. whole_pages (bx_ps (mp_box p)) d) \<and>
    (\<forall>k. \<not> box_page (mp_box p) k \<longrightarrow> vm_acc m' k = vm_acc m k) \<and>
    (\<forall>k. box_page (mp_box p) k \<and> acc_x (vm_acc m' k) \<longrightarrow>
       \<not> acc_w (vm_acc m' k) \<and> page_verified e (bx_ps (mp_box p)) m' k) \<and>
    ((\<forall>c \<in> set cs. mem_call_fits e p h c) \<and> (\<forall>k. box_page (mp_box p) k \<longrightarrow> \<not> vm_past m k) \<longrightarrow>
       vm_fault m' = vm_fault m)"
proof -
  let ?b = "mp_box p" and ?q = "\<forall>c \<in> set cs. mem_call_fits e p h c"
  obtain p' m' where r: "mem_dos e cs (p, h, m) = Some (p', h, m')" "requests e ?q (p, m) (p', m')"
    using mem_dos_requests [OF assms(1,5), of ?q e h m] by blast
  obtain ds where ds: "box_dos e ds (?b, m) = Some (mp_box p', m')"
      "\<forall>c \<in> set ds. whole_pages (bx_ps ?b) c \<and> (?q \<longrightarrow> request_fits e (bx_ps ?b) c)"
    and t: "mp_fdtable p' = mp_fdtable p"
    using r(2) by (auto simp: requests_def)
  have whole: "\<forall>d \<in> set ds. whole_pages (bx_ps ?b) d" using ds(2) by blast
  have keep: "\<forall>k. \<not> box_page ?b k \<longrightarrow> vm_acc m' k = vm_acc m k"
    and safe: "\<forall>k. x_safe e (bx_ps ?b) m k \<longrightarrow> x_safe e (bx_ps ?b) m' k"
    using box_dos_effect [OF assms(1), of e ds m] ds(1) whole assms(2,3) by (auto simp: keeps_def)
  have "x_safe e (bx_ps ?b) m k" if "box_page ?b k" for k using assms(6) that by (simp add: x_safe_def)
  with safe have "x_safe e (bx_ps ?b) m' k" if "box_page ?b k" for k using that by blast
  then have x: "\<forall>k. box_page ?b k \<and> acc_x (vm_acc m' k) \<longrightarrow>
       \<not> acc_w (vm_acc m' k) \<and> page_verified e (bx_ps ?b) m' k"
    using assms(4) by (auto simp: x_safe_def)
  have "vm_fault m' = vm_fault m" if "?q" "\<forall>k. box_page ?b k \<longrightarrow> \<not> vm_past m k"
    using box_dos_calm [OF assms(1,3) that(2) _ ds(1)] ds(2) that(1) by (simp add: calm_def)
  then show ?thesis using r(1) t keep ds(1) whole x by blast
qed

definition demo_calls :: "mem_call list" where
  "demo_calls = [SysMmap (\<lambda>h. -1) 0 1 5 34 (-1) 0, SysBrk 0x11800, SysMprotect 0x11000 7 5,
     SysMmap (\<lambda>h. -1) 0x12345 (-1) 7 50 3 0, SysMunmap 0x11000 (-1)]"

theorem memory_calls_safe_witness:
  "\<exists>p' m' ds. mem_dos demo_env demo_calls (demo_proc, Map.empty, demo_vm) = Some (p', Map.empty, m') \<and>
    mp_fdtable p' = mp_fdtable demo_proc \<and>
    box_dos demo_env ds (demo_box, demo_vm) = Some (mp_box p', m') \<and> (\<forall>d \<in> set ds. whole_pages (bx_ps demo_box) d) \<and>
    (\<forall>k. \<not> box_page demo_box k \<longrightarrow> vm_acc m' k = vm_acc demo_vm k) \<and>
    (\<forall>k. box_page demo_box k \<and> acc_x (vm_acc m' k) \<longrightarrow>
       \<not> acc_w (vm_acc m' k) \<and> page_verified demo_env (bx_ps demo_box) m' k) \<and>
    ((\<forall>c \<in> set demo_calls. mem_call_fits demo_env demo_proc Map.empty c) \<and> (\<forall>k. box_page demo_box k \<longrightarrow> \<not> vm_past demo_vm k) \<longrightarrow>
       vm_fault m' = vm_fault demo_vm)"
proof -
  have p: "mp_box demo_proc = demo_box" by (simp add: demo_proc_def)
  have "can_lower demo_env" by (simp add: can_lower_def demo_env_def)
  moreover have "files_stable demo_env" by (simp add: files_stable_def demo_env_def)
  moreover have "\<forall>c \<in> set demo_calls. mem_call_ok c" by (simp add: demo_calls_def pick_ok_def)
  moreover have "\<forall>k. box_page demo_box k \<longrightarrow> \<not> acc_x (vm_acc demo_vm k)" by (simp add: demo_vm_def)
  ultimately show ?thesis
    by (rule memory_calls_safe [of demo_proc demo_env demo_calls demo_vm Map.empty, unfolded p,
          OF demo_box_ok(1,2)])
qed

text \<open>\<^verbatim>\<open>sys_brk\<close> moves the break or leaves it. From a break within its limit, where the heap
  does not wrap around the address space, the call returns, the break stays within the
  limit, the result is -1 with the break as before, or the new break, which is the
  wanted address when that lies in the heap; \<^verbatim>\<open>brk(0)\<close> only reports the break.\<close>

theorem brk_spec:
  assumes "box_ok (mp_box p)" "mp_brksize p \<le> brk_max p"
    and "unat (mp_brkbase p) + unat (brk_max p) < 2 ^ 64"
  shows "\<exists>r p' m'. sys_brk e addr (p, h, m) = Some (r, p', h, m') \<and>
    mp_brkbase p' = mp_brkbase p \<and> mp_brksize p' \<le> brk_max p \<and>
    (r = -1 \<and> mp_brksize p' = mp_brksize p \<or> r = mp_brkbase p' + mp_brksize p') \<and>
    (addr = 0 \<longrightarrow> r = mp_brkbase p + mp_brksize p \<and> p' = p \<and> m' = m) \<and>
    (mp_brkbase p \<le> addr \<and> addr \<le> mp_brkbase p + brk_max p \<and> addr \<noteq> 0 \<longrightarrow> r = addr \<or> r = -1)"
proof -
  let ?B = "mp_brkbase p" and ?M = "brk_max p"
  have uM: "unat (?B + ?M) = unat ?B + unat ?M" using assms(3) by (simp add: unat_add64)
  have uS: "unat (?B + mp_brksize p) = unat ?B + unat (mp_brksize p)"
    using assms(2,3) by (simp add: unat_add64 word_le_nat_alt)
  have zero: "brk_target p 0 = ?B + mp_brksize p"
  proof (cases "mp_brksize p = ?M")
    case False
    then have "mp_brksize p < ?M" using assms(2) by (rule order_le_neq_trans [rotated])
    then have "unat (mp_brksize p) < unat ?M" by (simp add: word_less_nat_alt)
    then show ?thesis by (simp add: brk_target_def Let_def word_less_nat_alt word_le_nat_alt uM uS)
  qed (auto simp: brk_target_def Let_def)
  have at: "brk_target p addr = addr" if "?B \<le> addr" "addr \<le> ?B + ?M" "addr \<noteq> 0"
    using that by (auto simp: brk_target_def Let_def)
  obtain r p' m' where r: "sys_brk e addr (p, h, m) = Some (r, p', h, m')" "requests e False (p, m) (p', m')"
    "(r = -1 \<and> mp_brksize p' = mp_brksize p) \<or> (r = brk_target p addr \<and> mp_brksize p' = r - ?B)"
    using sys_brk_cases [OF assms(1), of e addr h m False] by blast
  have B: "mp_brkbase p' = ?B" using r(2) by (simp add: requests_def)
  have "mp_brksize p' \<le> ?M" using r(3) assms(2) brk_target_le [of p addr] by auto
  moreover have "r = -1 \<and> mp_brksize p' = mp_brksize p \<or> r = mp_brkbase p' + mp_brksize p'"
    using r(3) B by auto
  moreover have "r = ?B + mp_brksize p \<and> p' = p \<and> m' = m" if "addr = 0"
    using r(1) that zero by (auto simp: sys_brk_eq)
  moreover have "r = addr \<or> r = -1" if "?B \<le> addr \<and> addr \<le> ?B + ?M \<and> addr \<noteq> 0"
    using r(3) at that by auto
  ultimately show ?thesis using r(1) B by blast
qed

theorem brk_spec_witness:
  "\<exists>r p' m'. sys_brk demo_env 0x11800 (demo_proc, Map.empty, demo_vm) = Some (r, p', Map.empty, m') \<and>
    mp_brksize p' \<le> 0x1000 \<and> (r = 0x11800 \<or> r = -1)"
proof -
  have mx: "brk_max demo_proc = 0x1000" "mp_brkbase demo_proc = 0x11000" "mp_box demo_proc = demo_box"
    "mp_brksize demo_proc = 0" by (simp_all add: brk_max_def demo_proc_def)
  show ?thesis
    using brk_spec [of demo_proc demo_env "0x11800" Map.empty demo_vm] demo_box_ok(1) unfolding mx by auto
qed

end
