(* ===== verification/ElfFormat.thy ===== *)
theory ElfFormat
  imports Prelude
begin

text \<open>
  Reading ELF files: the bounded reads of \<^verbatim>\<open>linux/buf.h\<close> and the structures of the system
  header \<^verbatim>\<open><elf.h>\<close> that the loader copies out of a file. All supported machines are
  little-endian, so a copied structure is read field by field in that order. A file has less
  than \<open>2 ^ 64\<close> bytes (\<open>file_ok\<close>), as every C object.
\<close>

subsection \<open>Bounded reads\<close>

record file_buf =
  bf_fd :: int
  bf_data :: "u8 list"

definition bf_size :: "file_buf \<Rightarrow> u64" where
  "bf_size f = of_nat (length (bf_data f))"

definition file_ok :: "file_buf \<Rightarrow> bool" where
  "file_ok f \<longleftrightarrow> length (bf_data f) < 2 ^ 64"

text \<open>The bytes copied; their number is the result of the C function.\<close>

definition buf_read :: "file_buf \<Rightarrow> u64 \<Rightarrow> u64 \<Rightarrow> u8 list" where
  "buf_read f count offset =
     (if offset \<ge> bf_size f then []
      else let avail = bf_size f - offset;
               count = (if count > avail then avail else count)
           in take (unat count) (drop (unat offset) (bf_data f)))"

lemma unat_bf_size: "file_ok f \<Longrightarrow> unat (bf_size f) = length (bf_data f)"
  by (simp add: bf_size_def file_ok_def unat_of_nat64)

text \<open>A read never leaves the file.\<close>

lemma buf_read_eq:
  assumes "file_ok f"
  shows "buf_read f count offset = take (unat count) (drop (unat offset) (bf_data f))"
proof (cases "offset \<ge> bf_size f")
  case True
  then show ?thesis by (simp add: buf_read_def word_le_nat_alt unat_bf_size [OF assms])
next
  case False
  then have "unat (bf_size f - offset) = length (bf_data f) - unat offset"
    by (simp add: unat_sub64 unat_bf_size [OF assms])
  then show ?thesis using False
    by (auto simp: buf_read_def Let_def word_less_nat_alt)
qed

lemma length_buf_read: "length (buf_read f count offset) \<le> unat count"
  by (auto simp: buf_read_def Let_def word_less_nat_alt split: if_splits)

lemma unat_ucast_up: "unat (ucast (x :: u32) :: u64) = unat x" "unat (ucast (y :: u16) :: u64) = unat y"
proof -
  have "unat x < 2 ^ LENGTH(32)" "unat y < 2 ^ LENGTH(16)" by (rule unsigned_less)+
  then show "unat (ucast x :: u64) = unat x" "unat (ucast y :: u64) = unat y"
    by (simp_all add: unsigned_ucast_eq take_bit_nat_eq_self)
qed

subsection \<open>Structures\<close>

fun le_nat :: "u8 list \<Rightarrow> nat" where
  "le_nat [] = 0"
| "le_nat (b # bs) = unat b + 256 * le_nat bs"

definition fld :: "nat \<Rightarrow> nat \<Rightarrow> u8 list \<Rightarrow> nat" where
  "fld off n bs = le_nat (take n (drop off bs))"

record elf_ehdr =
  e_ident :: "u8 list"
  e_type :: u16
  e_version :: u32
  e_entry :: u64
  e_phoff :: u64
  e_shoff :: u64
  e_phentsize :: u16
  e_phnum :: u16
  e_shentsize :: u16
  e_shnum :: u16
  e_shstrndx :: u16

definition EHDR_SIZE :: nat where "EHDR_SIZE = 64"

definition get_ehdr :: "u8 list \<Rightarrow> elf_ehdr" where
  "get_ehdr bs = \<lparr>e_ident = take 16 bs, e_type = of_nat (fld 16 2 bs), e_version = of_nat (fld 20 4 bs),
     e_entry = of_nat (fld 24 8 bs), e_phoff = of_nat (fld 32 8 bs), e_shoff = of_nat (fld 40 8 bs),
     e_phentsize = of_nat (fld 54 2 bs), e_phnum = of_nat (fld 56 2 bs),
     e_shentsize = of_nat (fld 58 2 bs), e_shnum = of_nat (fld 60 2 bs),
     e_shstrndx = of_nat (fld 62 2 bs)\<rparr>"

record elf_phdr =
  p_type :: u32
  p_flags :: u32
  p_offset :: u64
  p_vaddr :: u64
  p_filesz :: u64
  p_memsz :: u64
  p_align :: u64

definition PHDR_SIZE :: nat where "PHDR_SIZE = 56"

definition get_phdr :: "u8 list \<Rightarrow> elf_phdr" where
  "get_phdr bs = \<lparr>p_type = of_nat (fld 0 4 bs), p_flags = of_nat (fld 4 4 bs),
     p_offset = of_nat (fld 8 8 bs), p_vaddr = of_nat (fld 16 8 bs), p_filesz = of_nat (fld 32 8 bs),
     p_memsz = of_nat (fld 40 8 bs), p_align = of_nat (fld 48 8 bs)\<rparr>"

record elf_shdr =
  sh_name :: u32
  sh_offset :: u64
  sh_size :: u64
  sh_link :: u32

definition SHDR_SIZE :: nat where "SHDR_SIZE = 64"

definition get_shdr :: "u8 list \<Rightarrow> elf_shdr" where
  "get_shdr bs = \<lparr>sh_name = of_nat (fld 0 4 bs), sh_offset = of_nat (fld 24 8 bs),
     sh_size = of_nat (fld 32 8 bs), sh_link = of_nat (fld 40 4 bs)\<rparr>"

record elf_sym =
  st_name :: u32
  st_value :: u64

definition SYM_SIZE :: nat where "SYM_SIZE = 24"

definition get_sym :: "u8 list \<Rightarrow> elf_sym" where
  "get_sym bs = \<lparr>st_name = of_nat (fld 0 4 bs), st_value = of_nat (fld 8 8 bs)\<rparr>"

definition ELFMAG :: "u8 list" where "ELFMAG = [0x7f, 0x45, 0x4c, 0x46]"
definition PT_LOAD :: u32 where "PT_LOAD = 1"
definition PT_DYNAMIC :: u32 where "PT_DYNAMIC = 2"
definition PT_INTERP :: u32 where "PT_INTERP = 3"
definition PF_X :: u32 where "PF_X = 1"
definition PF_W :: u32 where "PF_W = 2"
definition PF_R :: u32 where "PF_R = 4"
definition ET_DYN :: u16 where "ET_DYN = 3"

text \<open>The elements of an array of structures of \<open>n\<close> bytes.\<close>

definition elems :: "(u8 list \<Rightarrow> 'a) \<Rightarrow> nat \<Rightarrow> nat \<Rightarrow> u8 list \<Rightarrow> 'a list" where
  "elems get n count bs = map (\<lambda>i. get (take n (drop (i * n) bs))) [0 ..< count]"

lemma length_elems [simp]: "length (elems get n count bs) = count"
  by (simp add: elems_def)

subsection \<open>Writing fields\<close>

fun le_bytes :: "nat \<Rightarrow> nat \<Rightarrow> u8 list" where
  "le_bytes 0 x = []"
| "le_bytes (Suc n) x = of_nat (x mod 256) # le_bytes n (x div 256)"

lemma length_le_bytes [simp]: "length (le_bytes n x) = n"
  by (induction n arbitrary: x) simp_all

lemma unat_byte: "unat (of_nat (x mod 256) :: u8) = x mod 256"
  by (simp add: unat_of_nat take_bit_eq_mod)

lemma le_nat_bytes: "x < 256 ^ n \<Longrightarrow> le_nat (le_bytes n x) = x"
proof (induction n arbitrary: x)
  case (Suc n)
  have "x div 256 < 256 ^ n" using Suc.prems by (simp add: less_mult_imp_div_less mult.commute)
  then show ?case using Suc.IH by (simp add: unat_byte)
qed simp

lemma fld_here: "length pre = off \<Longrightarrow> length mid = n \<Longrightarrow> fld off n (pre @ mid @ rest) = le_nat mid"
  by (simp add: fld_def)

text \<open>C strings: the bytes up to the first zero.\<close>

definition cstring :: "u8 list \<Rightarrow> u8 list" where
  "cstring bs = takeWhile (\<lambda>c. c \<noteq> 0) bs"

lemma cstring_zero: "0 \<notin> set n \<Longrightarrow> cstring (n @ 0 # rest) = n"
  by (induction n) (auto simp: cstring_def)

end
