(* ===== verification/ElfSym.thy ===== *)
theory ElfSym
  imports ElfFormat BoxSafety
begin

text \<open>
  The dynamic symbols of a loaded program, \<^verbatim>\<open>linux/elfsym.c\<close>: finding the sections
  \<^verbatim>\<open>.dynsym\<close> and its string table in an untrusted file, copying them, and looking up names.
  A read outside the file or a copied table, or through a null pointer, is \<open>None\<close>.
\<close>

record lib_symbols =
  ls_thread_create :: u64
  ls_thread_destroy :: u64
  ls_malloc :: u64
  ls_realloc :: u64
  ls_calloc :: u64
  ls_free :: u64
  ls_setjmp :: u64

record elf_section =
  sec_data :: "u8 list option"
  sec_size :: u64

text \<open>What the symbol operations use of a process.\<close>

record sym_proc =
  yp_box :: lfi_box
  yp_elfbase :: u64
  yp_dynsym :: elf_section
  yp_dynstr :: elf_section
  yp_libsyms :: lib_symbols

definition sym_region_ok :: "u64 \<Rightarrow> u64 \<Rightarrow> u64 \<Rightarrow> bool" where
  "sym_region_ok off len sz \<longleftrightarrow> off \<le> sz \<and> len \<le> sz - off"

text \<open>\<^verbatim>\<open>memchr\<close> over bytes of a table.\<close>

definition table_read :: "u8 list option \<Rightarrow> u64 \<Rightarrow> u64 \<Rightarrow> u8 list run" where
  "table_read tab off n = (case tab of None \<Rightarrow> None
     | Some bs \<Rightarrow> if unat off + unat n \<le> length bs then Some (take (unat n) (drop (unat off) bs)) else None)"

definition str_in_bounds :: "u8 list option \<Rightarrow> u64 \<Rightarrow> u64 \<Rightarrow> bool run" where
  "str_in_bounds strtab strsize off =
     (if off \<ge> strsize then Some False
      else do { bs \<leftarrow> table_read strtab off (strsize - off); Some (0 \<in> set bs) })"

text \<open>\<^verbatim>\<open>strcmp(strtab + off, s) == 0\<close>, for a string that ends inside the table.\<close>

definition str_equal :: "u8 list option \<Rightarrow> u64 \<Rightarrow> u8 list \<Rightarrow> bool" where
  "str_equal strtab off s \<longleftrightarrow> (case strtab of None \<Rightarrow> False | Some bs \<Rightarrow> cstring (drop (unat off) bs) = s)"

fun sym_loop :: "sym_proc \<Rightarrow> u8 list \<Rightarrow> elf_sym list \<Rightarrow> u64 run" where
  "sym_loop p name [] = Some 0"
| "sym_loop p name (s # ss) = do {
     let off = ucast (st_name s);
     inside \<leftarrow> str_in_bounds (sec_data (yp_dynstr p)) (sec_size (yp_dynstr p)) off;
     if inside \<and> str_equal (sec_data (yp_dynstr p)) off name
       then Some (yp_elfbase p + st_value s)
     else sym_loop p name ss
   }"

definition lfi_proc_sym :: "sym_proc \<Rightarrow> u8 list \<Rightarrow> u64 run" where
  "lfi_proc_sym p name = do {
     let count = unat (sec_size (yp_dynsym p)) div SYM_SIZE;
     syms \<leftarrow> (if count = 0 then Some [] else table_read (sec_data (yp_dynsym p)) 0 (of_nat (count * SYM_SIZE)));
     sym_loop p name (elems get_sym SYM_SIZE count syms)
   }"

definition loadsym :: "sym_proc \<Rightarrow> u8 list \<Rightarrow> u64 option run" where
  "loadsym p symname = do {
     bp \<leftarrow> lfi_proc_sym p symname;
     if \<not> lfi_box_ptrvalid (yp_box p) bp then Some None
     else if bp mod 4 \<noteq> 0 then Some None
     else Some (Some bp)
   }"

definition ascii :: "string \<Rightarrow> u8 list" where
  "ascii s = map (\<lambda>c. of_nat (of_char c)) s"

definition set_libsym ::
  "sym_proc \<Rightarrow> string \<Rightarrow> ((u64 \<Rightarrow> u64) \<Rightarrow> lib_symbols \<Rightarrow> lib_symbols) \<Rightarrow> lib_symbols \<Rightarrow> lib_symbols run" where
  "set_libsym p name upd ls = do {
     v \<leftarrow> loadsym p (ascii name);
     Some (case v of Some bp \<Rightarrow> upd (\<lambda>_. bp) ls | None \<Rightarrow> ls)
   }"

text \<open>The result is always true.\<close>

definition load_libsyms :: "sym_proc \<Rightarrow> sym_proc run" where
  "load_libsyms p = do {
     ls \<leftarrow> set_libsym p ''_lfi_thread_create'' ls_thread_create_update (yp_libsyms p);
     ls \<leftarrow> set_libsym p ''_lfi_thread_destroy'' ls_thread_destroy_update ls;
     ls \<leftarrow> set_libsym p ''_lfi_malloc'' ls_malloc_update ls;
     ls \<leftarrow> set_libsym p ''_lfi_realloc'' ls_realloc_update ls;
     ls \<leftarrow> set_libsym p ''_lfi_calloc'' ls_calloc_update ls;
     ls \<leftarrow> set_libsym p ''_lfi_free'' ls_free_update ls;
     ls \<leftarrow> set_libsym p ''_lfi_setjmp'' ls_setjmp_update ls;
     Some (p\<lparr>yp_libsyms := ls\<rparr>)
   }"

definition read_shdr :: "file_buf \<Rightarrow> elf_ehdr \<Rightarrow> u64 \<Rightarrow> elf_shdr option" where
  "read_shdr f h idx =
     (let off = e_shoff h + idx * of_nat SHDR_SIZE; bs = buf_read f (of_nat SHDR_SIZE) off
      in if length bs = SHDR_SIZE then Some (get_shdr bs) else None)"

definition DYNSYM :: "u8 list" where "DYNSYM = ascii ''.dynsym''"

text \<open>The loop over the section headers, \<open>n\<close> of them left from \<open>i\<close> on.\<close>

fun find_dynsym ::
  "file_buf \<Rightarrow> elf_ehdr \<Rightarrow> u8 list option \<Rightarrow> u64 \<Rightarrow> u64 \<Rightarrow> nat \<Rightarrow> (elf_shdr \<times> elf_shdr) option run" where
  "find_dynsym f h shstrtab shstrsize i 0 = Some None"
| "find_dynsym f h shstrtab shstrsize i (Suc n) =
     (case read_shdr f h i of
        None \<Rightarrow> Some None
      | Some sh \<Rightarrow> do {
          inside \<leftarrow> str_in_bounds shstrtab shstrsize (ucast (sh_name sh));
          if \<not> inside \<or> \<not> str_equal shstrtab (ucast (sh_name sh)) DYNSYM
            then find_dynsym f h shstrtab shstrsize (i + 1) n
          else if sh_link sh \<ge> ucast (e_shnum h) then Some None
          else Some (case read_shdr f h (ucast (sh_link sh)) of
                       None \<Rightarrow> None | Some link \<Rightarrow> Some (sh, link))
        })"

definition load_dynshs :: "file_buf \<Rightarrow> (elf_shdr \<times> elf_shdr) option run" where
  "load_dynshs f =
     (let hb = buf_read f (of_nat EHDR_SIZE) 0
      in if length hb \<noteq> EHDR_SIZE then Some None
         else let h = get_ehdr hb
         in if take 4 (e_ident h) \<noteq> ELFMAG then Some None
         else if e_shoff h = 0 \<or> e_shentsize h \<noteq> of_nat SHDR_SIZE then Some None
         else if e_shnum h = 0 then Some None
         else let shtab_bytes = ucast (e_shnum h) * of_nat SHDR_SIZE
         in if \<not> sym_region_ok (e_shoff h) shtab_bytes (bf_size f) then Some None
         else if e_shstrndx h \<ge> e_shnum h then Some None
         else case read_shdr f h (ucast (e_shstrndx h)) of
           None \<Rightarrow> Some None
         | Some shstr \<Rightarrow>
             if \<not> sym_region_ok (sh_offset shstr) (sh_size shstr) (bf_size f) then Some None
             else do {
               tab \<leftarrow> table_read (Some (bf_data f)) (sh_offset shstr) (sh_size shstr);
               find_dynsym f h (Some tab) (sh_size shstr) 0 (unat (e_shnum h))
             })"

text \<open>The loop over the program headers of \<^verbatim>\<open>elf_dynamic\<close>.\<close>

fun dynamic_loop :: "file_buf \<Rightarrow> elf_ehdr \<Rightarrow> u64 \<Rightarrow> nat \<Rightarrow> u64 option" where
  "dynamic_loop f h x 0 = None"
| "dynamic_loop f h x (Suc n) =
     (let bs = buf_read f (of_nat PHDR_SIZE) (e_phoff h + x * of_nat PHDR_SIZE)
      in if length bs \<noteq> PHDR_SIZE then None
         else if p_type (get_phdr bs) = PT_DYNAMIC then Some (p_vaddr (get_phdr bs))
         else dynamic_loop f h (x + 1) n)"

definition elf_dynamic :: "file_buf \<Rightarrow> u64 option" where
  "elf_dynamic f =
     (let hb = buf_read f (of_nat EHDR_SIZE) 0
      in if length hb \<noteq> EHDR_SIZE then None
         else dynamic_loop f (get_ehdr hb) 0 (unat (e_phnum (get_ehdr hb))))"

text \<open>\<open>ok1\<close> and \<open>ok2\<close> say whether the two allocations succeed.\<close>

definition no_section :: elf_section where
  "no_section = \<lparr>sec_data = None, sec_size = 0\<rparr>"

definition elf_loadsyms :: "bool \<Rightarrow> bool \<Rightarrow> file_buf \<Rightarrow> sym_proc \<Rightarrow> (bool \<times> sym_proc) run" where
  "elf_loadsyms ok1 ok2 f p = do {
     shs \<leftarrow> load_dynshs f;
     case shs of
       None \<Rightarrow> Some (False, p)
     | Some (dynsym_sh, dynstr_sh) \<Rightarrow>
         if \<not> sym_region_ok (sh_offset dynsym_sh) (sh_size dynsym_sh) (bf_size f) \<or>
            \<not> sym_region_ok (sh_offset dynstr_sh) (sh_size dynstr_sh) (bf_size f) then Some (False, p)
         else if \<not> ok1 then
           Some (False, p\<lparr>yp_dynsym := \<lparr>sec_data = None, sec_size = sh_size dynsym_sh\<rparr>\<rparr>)
         else do {
           symdata \<leftarrow> table_read (Some (bf_data f)) (sh_offset dynsym_sh) (sh_size dynsym_sh);
           let p = p\<lparr>yp_dynsym := \<lparr>sec_data = Some symdata, sec_size = sh_size dynsym_sh\<rparr>\<rparr>;
           if \<not> ok2 then
             Some (False, p\<lparr>yp_dynstr := \<lparr>sec_data = None, sec_size = sh_size dynstr_sh\<rparr>,
                            yp_dynsym := no_section\<rparr>)
           else do {
             strdata \<leftarrow> table_read (Some (bf_data f)) (sh_offset dynstr_sh) (sh_size dynstr_sh);
             let p = p\<lparr>yp_dynstr := \<lparr>sec_data = Some strdata, sec_size = sh_size dynstr_sh\<rparr>\<rparr>;
             p \<leftarrow> load_libsyms p;
             Some (True, p)
           }
         }
   }"

subsection \<open>No lookup leaves a table\<close>

definition sec_ok :: "elf_section \<Rightarrow> bool" where
  "sec_ok s \<longleftrightarrow> (case sec_data s of None \<Rightarrow> sec_size s = 0 | Some d \<Rightarrow> length d = unat (sec_size s))"

definition tables_ok :: "sym_proc \<Rightarrow> bool" where
  "tables_ok p \<longleftrightarrow> sec_ok (yp_dynsym p) \<and> sec_ok (yp_dynstr p)"

lemma sec_ok_no_section [simp]: "sec_ok no_section"
  by (simp add: sec_ok_def no_section_def)

lemma table_read_total:
  "unat off + unat n \<le> length d \<Longrightarrow> table_read (Some d) off n = Some (take (unat n) (drop (unat off) d))"
  by (simp add: table_read_def)

lemma str_in_bounds_total:
  assumes "sec_ok s"
  shows "\<exists>b. str_in_bounds (sec_data s) (sec_size s) off = Some b"
proof (cases "off \<ge> sec_size s")
  case False
  then have n: "unat (sec_size s - off) = unat (sec_size s) - unat off" "unat off < unat (sec_size s)"
    by (simp_all add: unat_sub64 flip: word_less_nat_alt)
  then obtain d where "sec_data s = Some d" "length d = unat (sec_size s)"
    using assms by (auto simp: sec_ok_def split: option.splits)
  then show ?thesis using False n by (simp add: str_in_bounds_def table_read_total)
qed (auto simp: str_in_bounds_def)

lemma sym_loop_total:
  assumes "sec_ok (yp_dynstr p)"
  shows "\<exists>v. sym_loop p name ss = Some v"
proof (induction ss)
  case (Cons s ss)
  from str_in_bounds_total [OF assms, of "ucast (st_name s)"] Cons show ?case by auto
qed simp

lemma lfi_proc_sym_total:
  assumes "tables_ok p"
  shows "\<exists>v. lfi_proc_sym p name = Some v"
proof -
  let ?n = "unat (sec_size (yp_dynsym p))"
  have str: "sec_ok (yp_dynstr p)" and dyn: "sec_ok (yp_dynsym p)" using assms by (auto simp: tables_ok_def)
  show ?thesis
  proof (cases "?n div SYM_SIZE = 0")
    case True
    then show ?thesis using sym_loop_total [OF str] by (simp add: lfi_proc_sym_def)
  next
    case False
    then have "?n \<noteq> 0" by (intro notI) simp
    then obtain d where d: "sec_data (yp_dynsym p) = Some d" "length d = ?n"
      using dyn by (auto simp: sec_ok_def split: option.splits)
    have le: "?n div SYM_SIZE * SYM_SIZE \<le> ?n" by simp
    then have "?n div SYM_SIZE * SYM_SIZE < 2 ^ 64"
      by (rule le_less_trans) (simp add: unsigned_less)
    then have "unat (of_nat (?n div SYM_SIZE * SYM_SIZE) :: u64) = ?n div SYM_SIZE * SYM_SIZE"
      by (rule unat_of_nat64)
    then show ?thesis using False sym_loop_total [OF str] d le
      by (simp add: lfi_proc_sym_def table_read_total Let_def del: of_nat_mult)
  qed
qed

definition libsym_ok :: "lfi_box \<Rightarrow> u64 \<Rightarrow> bool" where
  "libsym_ok b v \<longleftrightarrow> v = 0 \<or> (lfi_box_ptrvalid b v \<and> v mod 4 = 0)"

definition libsyms_ok :: "lfi_box \<Rightarrow> lib_symbols \<Rightarrow> bool" where
  "libsyms_ok b ls \<longleftrightarrow> (\<forall>v \<in> {ls_thread_create ls, ls_thread_destroy ls, ls_malloc ls, ls_realloc ls,
     ls_calloc ls, ls_free ls, ls_setjmp ls}. libsym_ok b v)"

lemma loadsym_total:
  assumes "tables_ok p"
  shows "\<exists>v. loadsym p name = Some v \<and> (\<forall>bp. v = Some bp \<longrightarrow> libsym_ok (yp_box p) bp)"
  using lfi_proc_sym_total [OF assms, of name] by (auto simp: loadsym_def libsym_ok_def)

lemma set_libsym_total:
  assumes "tables_ok p" "libsyms_ok (yp_box p) ls"
    and upd: "\<And>bp. libsym_ok (yp_box p) bp \<Longrightarrow> libsyms_ok (yp_box p) (upd (\<lambda>_. bp) ls)"
  shows "\<exists>ls'. set_libsym p name upd ls = Some ls' \<and> libsyms_ok (yp_box p) ls'"
  using loadsym_total [OF assms(1), of "ascii name"] assms(2) upd
  by (auto simp: set_libsym_def split: option.split)

lemma load_libsyms_total:
  assumes "tables_ok p" "libsyms_ok (yp_box p) (yp_libsyms p)"
  shows "\<exists>ls. load_libsyms p = Some (p\<lparr>yp_libsyms := ls\<rparr>) \<and> libsyms_ok (yp_box p) ls"
proof -
  note step = set_libsym_total [OF assms(1)]
  obtain l1 where 1: "set_libsym p ''_lfi_thread_create'' ls_thread_create_update (yp_libsyms p) = Some l1"
    "libsyms_ok (yp_box p) l1"
    using step [OF assms(2), of ls_thread_create_update] assms(2) by (force simp: libsyms_ok_def)
  obtain l2 where 2: "set_libsym p ''_lfi_thread_destroy'' ls_thread_destroy_update l1 = Some l2"
    "libsyms_ok (yp_box p) l2"
    using step [OF 1(2), of ls_thread_destroy_update] 1(2) by (force simp: libsyms_ok_def)
  obtain l3 where 3: "set_libsym p ''_lfi_malloc'' ls_malloc_update l2 = Some l3" "libsyms_ok (yp_box p) l3"
    using step [OF 2(2), of ls_malloc_update] 2(2) by (force simp: libsyms_ok_def)
  obtain l4 where 4: "set_libsym p ''_lfi_realloc'' ls_realloc_update l3 = Some l4" "libsyms_ok (yp_box p) l4"
    using step [OF 3(2), of ls_realloc_update] 3(2) by (force simp: libsyms_ok_def)
  obtain l5 where 5: "set_libsym p ''_lfi_calloc'' ls_calloc_update l4 = Some l5" "libsyms_ok (yp_box p) l5"
    using step [OF 4(2), of ls_calloc_update] 4(2) by (force simp: libsyms_ok_def)
  obtain l6 where 6: "set_libsym p ''_lfi_free'' ls_free_update l5 = Some l6" "libsyms_ok (yp_box p) l6"
    using step [OF 5(2), of ls_free_update] 5(2) by (force simp: libsyms_ok_def)
  obtain l7 where 7: "set_libsym p ''_lfi_setjmp'' ls_setjmp_update l6 = Some l7" "libsyms_ok (yp_box p) l7"
    using step [OF 6(2), of ls_setjmp_update] 6(2) by (force simp: libsyms_ok_def)
  show ?thesis using 1(1) 2(1) 3(1) 4(1) 5(1) 6(1) 7 by (intro exI [of _ l7]) (simp add: load_libsyms_def)
qed

lemma sym_region_ok_unat:
  assumes "file_ok f" "sym_region_ok off n (bf_size f)"
  shows "unat off + unat n \<le> length (bf_data f)"
proof -
  have o: "off \<le> bf_size f" "n \<le> bf_size f - off" using assms(2) by (simp_all add: sym_region_ok_def)
  then show ?thesis
    by (simp add: word_le_nat_alt unat_sub64 [OF o(1)] unat_bf_size [OF assms(1)])
qed

lemma find_dynsym_total:
  assumes "length tab = unat n"
  shows "\<exists>r. find_dynsym f h (Some tab) n i k = Some r"
proof (induction k arbitrary: i)
  case (Suc k)
  have "sec_ok \<lparr>sec_data = Some tab, sec_size = n\<rparr>" using assms by (simp add: sec_ok_def)
  note sb = str_in_bounds_total [OF this, simplified]
  show ?case
  proof (cases "read_shdr f h i")
    case (Some sh)
    then show ?thesis using sb [of "ucast (sh_name sh)"] Suc.IH [of "i + 1"] by auto
  qed simp
qed simp

lemma load_dynshs_total:
  assumes "file_ok f"
  shows "\<exists>r. load_dynshs f = Some r"
proof -
  have tail: "\<exists>r. (case shstr of None \<Rightarrow> Some None
      | Some shstr \<Rightarrow> if \<not> sym_region_ok (sh_offset shstr) (sh_size shstr) (bf_size f) then Some None
         else table_read (Some (bf_data f)) (sh_offset shstr) (sh_size shstr) \<bind>
           (\<lambda>tab. find_dynsym f h (Some tab) (sh_size shstr) 0 n)) = Some r" for shstr h n
  proof (cases shstr)
    case (Some sh)
    show ?thesis
    proof (cases "sym_region_ok (sh_offset sh) (sh_size sh) (bf_size f)")
      case True
      note r = sym_region_ok_unat [OF assms True]
      then show ?thesis using True Some find_dynsym_total [of _ "sh_size sh" f h 0 n]
        by (simp add: table_read_total)
    qed (simp add: Some)
  qed simp
  have guard: "\<exists>r. (if c then Some None else X) = Some r" if "\<exists>r. X = Some r" for c and X :: "'a option run"
    using that by simp
  show ?thesis unfolding load_dynshs_def Let_def by (intro guard tail)
qed

text \<open>Loading from any file.\<close>

lemma elf_loadsyms_total:
  assumes f: "file_ok f" and t: "tables_ok p" and l: "libsyms_ok (yp_box p) (yp_libsyms p)"
  shows "\<exists>r p'. elf_loadsyms ok1 ok2 f p = Some (r, p') \<and> yp_box p' = yp_box p \<and>
    libsyms_ok (yp_box p) (yp_libsyms p') \<and> (ok1 \<and> ok2 \<longrightarrow> tables_ok p')"
proof -
  obtain shs where shs: "load_dynshs f = Some shs" using load_dynshs_total [OF f] by blast
  show ?thesis
  proof (cases shs)
    case None
    then show ?thesis using shs t l by (auto simp: elf_loadsyms_def)
  next
    case (Some ab)
    then obtain a b where ab: "shs = Some (a, b)" by (cases ab) auto
    show ?thesis
    proof (cases "sym_region_ok (sh_offset a) (sh_size a) (bf_size f) \<and>
        sym_region_ok (sh_offset b) (sh_size b) (bf_size f)")
      case False
      then show ?thesis using shs ab t l by (auto simp: elf_loadsyms_def)
    next
      case True
      note ra = sym_region_ok_unat [OF f conjunct1 [OF True]]
      note rb = sym_region_ok_unat [OF f conjunct2 [OF True]]
      let ?sec = "\<lambda>a. \<lparr>sec_data = Some (take (unat (sh_size a)) (drop (unat (sh_offset a)) (bf_data f))),
          sec_size = sh_size a\<rparr>"
      have sec: "sec_ok (?sec a)" "sec_ok (?sec b)" using ra rb by (simp_all add: sec_ok_def)
      let ?p = "p\<lparr>yp_dynsym := ?sec a, yp_dynstr := ?sec b\<rparr>"
      have "tables_ok ?p" using sec by (simp add: tables_ok_def)
      from load_libsyms_total [OF this] l obtain ls where
        "load_libsyms ?p = Some (?p\<lparr>yp_libsyms := ls\<rparr>)" "libsyms_ok (yp_box p) ls" by auto
      then show ?thesis using True shs ab sec l ra rb
        by (auto simp: elf_loadsyms_def table_read_total tables_ok_def Let_def)
    qed
  qed
qed

definition blank_libs :: lib_symbols where
  "blank_libs = \<lparr>ls_thread_create = 0, ls_thread_destroy = 0, ls_malloc = 0, ls_realloc = 0,
     ls_calloc = 0, ls_free = 0, ls_setjmp = 0\<rparr>"

definition blank_syms :: "lfi_box \<Rightarrow> u64 \<Rightarrow> sym_proc" where
  "blank_syms b base = \<lparr>yp_box = b, yp_elfbase = base, yp_dynsym = no_section, yp_dynstr = no_section,
     yp_libsyms = blank_libs\<rparr>"

lemma blank_syms_ok: "tables_ok (blank_syms b base)"
    "libsyms_ok (yp_box (blank_syms b base)) (yp_libsyms (blank_syms b base))"
  by (simp_all add: tables_ok_def blank_syms_def libsyms_ok_def blank_libs_def libsym_ok_def)




subsection \<open>Looking up the symbols of a table\<close>

text \<open>
  The reference format: the string table of a list of names with their values, and the
  symbol table over it, the names starting at offset \<open>o\<close>.
\<close>

fun str_table :: "(u8 list \<times> u64) list \<Rightarrow> u8 list" where
  "str_table [] = []"
| "str_table ((n, v) # ss) = n @ 0 # str_table ss"

definition sym_entry :: "nat \<Rightarrow> u64 \<Rightarrow> u8 list" where
  "sym_entry off v = le_bytes 4 off @ replicate 4 0 @ le_bytes 8 (unat v) @ replicate 8 0"

fun sym_table :: "nat \<Rightarrow> (u8 list \<times> u64) list \<Rightarrow> u8 list" where
  "sym_table off [] = []"
| "sym_table off ((n, v) # ss) = sym_entry off v @ sym_table (off + length n + 1) ss"

lemma length_sym_entry [simp]: "length (sym_entry off v) = 24"
  by (simp add: sym_entry_def)

lemma length_sym_table [simp]: "length (sym_table off ss) = 24 * length ss"
  by (induction off ss rule: sym_table.induct) simp_all

lemma get_sym_entry:
  assumes "off < 2 ^ 32"
  shows "get_sym (sym_entry off v) = \<lparr>st_name = of_nat off, st_value = v\<rparr>"
proof -
  have "fld 0 4 ([] @ le_bytes 4 off @ (replicate 4 0 @ le_bytes 8 (unat v) @ replicate 8 0)) = le_nat (le_bytes 4 off)"
    by (rule fld_here) simp_all
  moreover have "fld 8 8 ((le_bytes 4 off @ replicate 4 0) @ le_bytes 8 (unat v) @ replicate 8 0) =
      le_nat (le_bytes 8 (unat v))"
    by (rule fld_here) simp_all
  ultimately show ?thesis using assms unat_lt64 [of v]
    by (simp add: get_sym_def sym_entry_def le_nat_bytes)
qed

lemma elems_Cons:
  "length x = n \<Longrightarrow> elems get n (Suc k) (x @ xs) = get x # elems get n k xs"
  by (simp add: elems_def map_upt_Suc del: upt_Suc)

fun sym_list :: "nat \<Rightarrow> (u8 list \<times> u64) list \<Rightarrow> elf_sym list" where
  "sym_list off [] = []"
| "sym_list off ((n, v) # ss) = \<lparr>st_name = of_nat off, st_value = v\<rparr> # sym_list (off + length n + 1) ss"

lemma elems_sym_table:
  assumes "off + length (str_table ss) \<le> 2 ^ 32"
  shows "elems get_sym 24 (length ss) (sym_table off ss) = sym_list off ss"
  using assms
proof (induction off ss rule: sym_table.induct)
  case (2 off n v ss)
  have "elems get_sym 24 (length ((n, v) # ss)) (sym_table off ((n, v) # ss)) =
      get_sym (sym_entry off v) # elems get_sym 24 (length ss) (sym_table (off + length n + 1) ss)"
    by (simp add: elems_Cons)
  moreover have "off < 2 ^ 32" using "2.prems" by simp
  ultimately show ?case using "2.IH" "2.prems" by (simp add: get_sym_entry)
qed (simp add: elems_def)

lemma sym_loop_table:
  assumes "yp_dynstr p = \<lparr>sec_data = Some (pre @ str_table ss), sec_size = sz\<rparr>"
    "unat sz = length pre + length (str_table ss)" "unat sz \<le> 2 ^ 32"
    and "\<forall>(n, v) \<in> set ss. 0 \<notin> set n"
  shows "sym_loop p name (sym_list (length pre) ss) =
    Some (case map_of ss name of Some v \<Rightarrow> yp_elfbase p + v | None \<Rightarrow> 0)"
  using assms
proof (induction ss arbitrary: pre)
  case (Cons nv ss)
  obtain n v where nv: "nv = (n, v)" by (cases nv)
  let ?off = "ucast (of_nat (length pre) :: u32) :: u64"
  have lt: "length pre < 2 ^ 32" using Cons.prems(2,3) nv by simp
  then have off: "unat ?off = length pre" by (simp add: unat_ucast_up unat_of_nat take_bit_eq_mod)
  have "?off < sz" using Cons.prems(2) nv by (simp add: word_less_nat_alt off)
  moreover have "unat (sz - ?off) = length (str_table (nv # ss))"
    using Cons.prems(2) by (simp add: unat_sub64' off)
  ultimately have inside: "str_in_bounds (sec_data (yp_dynstr p)) (sec_size (yp_dynstr p)) ?off = Some True"
    using Cons.prems(1) nv by (simp add: str_in_bounds_def table_read_def off)
  have "str_equal (sec_data (yp_dynstr p)) ?off name \<longleftrightarrow> n = name"
    using Cons.prems(1,4) nv by (simp add: str_equal_def off cstring_zero)
  moreover have "sym_loop p name (sym_list (length pre + length n + 1) ss) =
      Some (case map_of ss name of Some v \<Rightarrow> yp_elfbase p + v | None \<Rightarrow> 0)"
    using Cons.IH [of "pre @ n @ [0]"] Cons.prems nv by simp
  ultimately show ?case using inside nv by simp
qed simp

subsection \<open>A file that carries a symbol table\<close>

text \<open>
  The reference encoder: a file of an ELF header, three section headers (section names,
  \<^verbatim>\<open>.dynsym\<close> with its link to the third, its string table) and the three sections.
\<close>

definition shdr_bytes :: "nat \<Rightarrow> nat \<Rightarrow> nat \<Rightarrow> nat \<Rightarrow> u8 list" where
  "shdr_bytes name off sz link =
     le_bytes 4 name @ replicate 20 0 @ le_bytes 8 off @ le_bytes 8 sz @ le_bytes 4 link @ replicate 20 0"

definition image_header :: "u8 list" where
  "image_header = ELFMAG @ replicate 36 0 @ le_bytes 8 64 @ replicate 10 0 @ le_bytes 2 64 @ le_bytes 2 3 @
     le_bytes 2 0"

definition elf_image :: "(u8 list \<times> u64) list \<Rightarrow> u8 list" where
  "elf_image ss = image_header @ shdr_bytes 7 256 8 0 @ shdr_bytes 0 264 (24 * length ss) 2 @
     shdr_bytes 7 (264 + 24 * length ss) (length (str_table ss)) 0 @
     (DYNSYM @ [0]) @ sym_table 0 ss @ str_table ss"

lemma length_shdr [simp]: "length (shdr_bytes name off sz link) = 64"
  by (simp add: shdr_bytes_def)

lemma get_shdr_bytes:
  assumes "name < 2 ^ 32" "off < 2 ^ 64" "sz < 2 ^ 64" "link < 2 ^ 32"
  shows "get_shdr (shdr_bytes name off sz link) =
    \<lparr>sh_name = of_nat name, sh_offset = of_nat off, sh_size = of_nat sz, sh_link = of_nat link\<rparr>"
proof -
  let ?n = "le_bytes 4 name" and ?o = "le_bytes 8 off" and ?s = "le_bytes 8 sz" and ?l = "le_bytes 4 link"
  have "fld 0 4 ([] @ ?n @ replicate 20 0 @ ?o @ ?s @ ?l @ replicate 20 0) = le_nat ?n"
    by (rule fld_here) simp_all
  moreover have "fld 24 8 ((?n @ replicate 20 0) @ ?o @ ?s @ ?l @ replicate 20 0) = le_nat ?o"
    by (rule fld_here) simp_all
  moreover have "fld 32 8 ((?n @ replicate 20 0 @ ?o) @ ?s @ ?l @ replicate 20 0) = le_nat ?s"
    by (rule fld_here) simp_all
  moreover have "fld 40 4 ((?n @ replicate 20 0 @ ?o @ ?s) @ ?l @ replicate 20 0) = le_nat ?l"
    by (rule fld_here) simp_all
  ultimately show ?thesis using assms by (simp add: get_shdr_def shdr_bytes_def le_nat_bytes)
qed

lemma image_header_fields:
  "length image_header = 64" "take 4 (e_ident (get_ehdr image_header)) = ELFMAG"
  "e_shoff (get_ehdr image_header) = 64" "e_shentsize (get_ehdr image_header) = 64"
  "e_shnum (get_ehdr image_header) = 3" "e_shstrndx (get_ehdr image_header) = 0"
proof -
  let ?a = "ELFMAG @ replicate 36 0" and ?b = "replicate 10 (0 :: u8)"
  have mag: "length ELFMAG = 4" by (simp add: ELFMAG_def)
  then show "length image_header = 64" by (simp add: image_header_def)
  show "take 4 (e_ident (get_ehdr image_header)) = ELFMAG"
    using mag by (simp add: image_header_def get_ehdr_def)
  have "fld 40 8 (?a @ le_bytes 8 64 @ ?b @ le_bytes 2 64 @ le_bytes 2 3 @ le_bytes 2 0) = le_nat (le_bytes 8 64)"
    by (rule fld_here) (simp_all add: mag)
  then show "e_shoff (get_ehdr image_header) = 64" by (simp add: image_header_def get_ehdr_def le_nat_bytes)
  have "fld 58 2 ((?a @ le_bytes 8 64 @ ?b) @ le_bytes 2 64 @ le_bytes 2 3 @ le_bytes 2 0) = le_nat (le_bytes 2 64)"
    by (rule fld_here) (simp_all add: mag)
  then show "e_shentsize (get_ehdr image_header) = 64" by (simp add: image_header_def get_ehdr_def le_nat_bytes)
  have "fld 60 2 ((?a @ le_bytes 8 64 @ ?b @ le_bytes 2 64) @ le_bytes 2 3 @ le_bytes 2 0) = le_nat (le_bytes 2 3)"
    by (rule fld_here) (simp_all add: mag)
  then show "e_shnum (get_ehdr image_header) = 3" by (simp add: image_header_def get_ehdr_def le_nat_bytes)
  have "fld 62 2 ((?a @ le_bytes 8 64 @ ?b @ le_bytes 2 64 @ le_bytes 2 3) @ le_bytes 2 0 @ []) = le_nat (le_bytes 2 0)"
    by (rule fld_here) (simp_all add: mag)
  then show "e_shstrndx (get_ehdr image_header) = 0" by (simp add: image_header_def get_ehdr_def le_nat_bytes)
qed

lemma DYNSYM_props [simp]: "length DYNSYM = 7" "0 \<notin> set DYNSYM" "cstring (DYNSYM @ [0]) = DYNSYM"
  "cstring [0] = []" "DYNSYM \<noteq> []" "[] \<noteq> DYNSYM"
  by (simp_all add: DYNSYM_def ascii_def cstring_def)

text \<open>Reading a part of a file that stands at a known offset.\<close>

lemma buf_read_at:
  assumes "file_ok f" "bf_data f = pre @ mid @ rest" "unat off = length pre" "unat n = length mid"
  shows "buf_read f n off = mid"
  using assms by (simp add: buf_read_eq)

lemma read_shdr_at:
  assumes "file_ok f" "bf_data f = pre @ shdr_bytes name off sz link @ rest"
    and "unat (e_shoff h + i * 64) = length pre"
    and "name < 2 ^ 32" "off < 2 ^ 64" "sz < 2 ^ 64" "link < 2 ^ 32"
  shows "read_shdr f h i =
    Some \<lparr>sh_name = of_nat name, sh_offset = of_nat off, sh_size = of_nat sz, sh_link = of_nat link\<rparr>"
proof -
  have "buf_read f 64 (e_shoff h + i * 64) = shdr_bytes name off sz link"
    by (rule buf_read_at [OF assms(1,2,3)]) simp
  then show ?thesis using assms(4-7) by (simp add: read_shdr_def SHDR_SIZE_def get_shdr_bytes)
qed

lemma load_dynshs_image:
  assumes data: "bf_data f = elf_image ss" and small: "length (elf_image ss) < 2 ^ 32"
  shows "load_dynshs f = Some (Some
    (\<lparr>sh_name = 0, sh_offset = 264, sh_size = of_nat (24 * length ss), sh_link = 2\<rparr>,
     \<lparr>sh_name = 7, sh_offset = of_nat (264 + 24 * length ss), sh_size = of_nat (length (str_table ss)), sh_link = 0\<rparr>))"
proof -
  let ?h = "get_ehdr image_header" and ?n = "length ss" and ?t = "length (str_table ss)"
  let ?tail = "sym_table 0 ss @ str_table ss"
  let ?s0 = "shdr_bytes 7 256 8 0" and ?s1 = "shdr_bytes 0 264 (24 * ?n) 2"
  let ?s2 = "shdr_bytes 7 (264 + 24 * ?n) ?t 0"
  note hf = image_header_fields
  have len: "length (bf_data f) = 264 + 24 * ?n + ?t"
    by (simp add: data elf_image_def hf(1))
  have f: "file_ok f" using small by (simp add: file_ok_def data)
  have sz: "unat (bf_size f) = 264 + 24 * ?n + ?t" by (simp add: unat_bf_size [OF f] len)
  have lt: "264 + 24 * ?n + ?t < 2 ^ 32" using small len by (simp add: data)
  have hdr: "buf_read f 64 0 = image_header"
    by (rule buf_read_at [OF f, of "[]" _ "?s0 @ ?s1 @ ?s2 @ (DYNSYM @ [0]) @ ?tail"])
      (simp_all add: data elf_image_def hf(1))
  have r0: "read_shdr f ?h 0 = Some \<lparr>sh_name = of_nat 7, sh_offset = of_nat 256, sh_size = of_nat 8, sh_link = of_nat 0\<rparr>"
    by (rule read_shdr_at [OF f, of image_header _ _ _ _ "?s1 @ ?s2 @ (DYNSYM @ [0]) @ ?tail"])
      (simp_all add: data elf_image_def hf)
  have r1: "read_shdr f ?h 1 = Some \<lparr>sh_name = of_nat 0, sh_offset = of_nat 264, sh_size = of_nat (24 * ?n), sh_link = of_nat 2\<rparr>"
    by (rule read_shdr_at [OF f, of "image_header @ ?s0" _ _ _ _ "?s2 @ (DYNSYM @ [0]) @ ?tail"])
      (use lt in \<open>simp_all add: data elf_image_def hf\<close>)
  have r2: "read_shdr f ?h 2 = Some \<lparr>sh_name = of_nat 7, sh_offset = of_nat (264 + 24 * ?n), sh_size = of_nat ?t, sh_link = of_nat 0\<rparr>"
    by (rule read_shdr_at [OF f, of "image_header @ ?s0 @ ?s1" _ _ _ _ "(DYNSYM @ [0]) @ ?tail"])
      (use lt in \<open>simp_all add: data elf_image_def hf\<close>)
  have ok: "sym_region_ok 64 192 (bf_size f)" "sym_region_ok 256 8 (bf_size f)"
    by (simp_all add: sym_region_ok_def word_le_nat_alt unat_sub64' sz)
  have tab: "table_read (Some (bf_data f)) 256 8 = Some (DYNSYM @ [0])"
  proof -
    have "bf_data f = (image_header @ ?s0 @ ?s1 @ ?s2) @ (DYNSYM @ [0]) @ ?tail" by (simp add: data elf_image_def)
    then show ?thesis by (simp add: table_read_def hf(1))
  qed
  have sib: "str_in_bounds (Some (DYNSYM @ [0])) 8 7 = Some True" "str_in_bounds (Some (DYNSYM @ [0])) 8 0 = Some True"
    by (simp_all add: str_in_bounds_def table_read_def)
  have se: "\<not> str_equal (Some (DYNSYM @ [0])) 7 DYNSYM" "str_equal (Some (DYNSYM @ [0])) 0 DYNSYM"
    by (simp_all add: str_equal_def)
  have "find_dynsym f ?h (Some (DYNSYM @ [0])) 8 0 (Suc (Suc (Suc 0))) = Some (Some
      (\<lparr>sh_name = 0, sh_offset = 264, sh_size = of_nat (24 * ?n), sh_link = 2\<rparr>,
       \<lparr>sh_name = 7, sh_offset = of_nat (264 + 24 * ?n), sh_size = of_nat ?t, sh_link = 0\<rparr>))"
    using r0 r1 r2 sib se by (simp add: hf)
  then have "find_dynsym f ?h (Some (DYNSYM @ [0])) 8 0 3 = Some (Some
      (\<lparr>sh_name = 0, sh_offset = 264, sh_size = of_nat (24 * ?n), sh_link = 2\<rparr>,
       \<lparr>sh_name = 7, sh_offset = of_nat (264 + 24 * ?n), sh_size = of_nat ?t, sh_link = 0\<rparr>))"
    by (simp only: numeral_3_eq_3)
  then show ?thesis using hdr hf r0 ok tab
    by (simp add: load_dynshs_def EHDR_SIZE_def SHDR_SIZE_def Let_def)
qed

lemma lookup_table:
  assumes "yp_dynsym p = \<lparr>sec_data = Some (sym_table 0 ss), sec_size = of_nat (24 * length ss)\<rparr>"
    "yp_dynstr p = \<lparr>sec_data = Some (str_table ss), sec_size = of_nat (length (str_table ss))\<rparr>"
    and small: "24 * length ss + length (str_table ss) < 2 ^ 32" and names: "\<forall>(n, v) \<in> set ss. 0 \<notin> set n"
  shows "lfi_proc_sym p name = Some (case map_of ss name of Some v \<Rightarrow> yp_elfbase p + v | None \<Rightarrow> 0)"
proof -
  have n: "unat (of_nat (24 * length ss) :: u64) = 24 * length ss" using small by (intro unat_of_nat64) simp
  have t: "unat (of_nat (length (str_table ss)) :: u64) = length (str_table ss)"
    using small by (intro unat_of_nat64) simp
  have "elems get_sym 24 (length ss) (sym_table 0 ss) = sym_list 0 ss"
    using small by (intro elems_sym_table) simp
  moreover have "sym_loop p name (sym_list (length ([] :: u8 list)) ss) =
      Some (case map_of ss name of Some v \<Rightarrow> yp_elfbase p + v | None \<Rightarrow> 0)"
    using assms(2) t small names by (intro sym_loop_table) auto
  ultimately have loop: "sym_loop p name (elems get_sym 24 (length ss) (sym_table 0 ss)) =
      Some (case map_of ss name of Some v \<Rightarrow> yp_elfbase p + v | None \<Rightarrow> 0)" by simp
  have size: "unat (sec_size (yp_dynsym p)) div SYM_SIZE = length ss"
    using assms(1) n by (simp add: SYM_SIZE_def)
  have "table_read (sec_data (yp_dynsym p)) 0 (of_nat (length ss * SYM_SIZE)) = Some (sym_table 0 ss)"
    using assms(1) n by (simp add: table_read_def SYM_SIZE_def mult.commute)
  then show ?thesis using loop unfolding lfi_proc_sym_def Let_def size
    by (cases "length ss = 0") (simp_all add: SYM_SIZE_def)
qed

text \<open>C19: A symbol table survives the round trip through a file: loading the file that encodes a
  list of named values, then looking up a name, gives the program's base plus the value
  of the first entry of that name, and 0 for every other name.\<close>

theorem symbols_roundtrip:
  assumes "length (elf_image ss) < 2 ^ 32" "\<forall>(n, v) \<in> set ss. 0 \<notin> set n"
    and "libsyms_ok (yp_box p) (yp_libsyms p)"
  shows "\<exists>p'. elf_loadsyms True True \<lparr>bf_fd = fd, bf_data = elf_image ss\<rparr> p = Some (True, p') \<and>
    (\<forall>name. lfi_proc_sym p' name = Some (case map_of ss name of Some v \<Rightarrow> yp_elfbase p + v | None \<Rightarrow> 0))"
proof -
  let ?f = "\<lparr>bf_fd = fd, bf_data = elf_image ss\<rparr>" and ?n = "24 * length ss" and ?t = "length (str_table ss)"
  have len: "length (elf_image ss) = 264 + ?n + ?t" by (simp add: elf_image_def image_header_fields(1))
  have lt: "?n + ?t < 2 ^ 32" using assms(1) len by linarith
  have f: "file_ok ?f" using assms(1) by (simp add: file_ok_def)
  have u: "unat (of_nat ?n :: u64) = ?n" "unat (of_nat (264 + ?n) :: u64) = 264 + ?n" "unat (of_nat ?t :: u64) = ?t"
    by (rule unat_of_nat64, use assms(1) len in simp)+
  have ok: "sym_region_ok 264 (of_nat ?n) (bf_size ?f)" "sym_region_ok (of_nat (264 + ?n)) (of_nat ?t) (bf_size ?f)"
    by (simp_all add: sym_region_ok_def word_le_nat_alt unat_sub64' unat_bf_size [OF f] u len del: of_nat_add of_nat_mult)
  have read1: "table_read (Some (elf_image ss)) 264 (of_nat ?n) = Some (sym_table 0 ss)"
    using len u(1) by (simp add: table_read_def elf_image_def image_header_fields(1) del: of_nat_mult)
  have read2: "table_read (Some (elf_image ss)) (of_nat (264 + ?n)) (of_nat ?t) = Some (str_table ss)"
    using len u(2,3) by (simp add: table_read_def elf_image_def image_header_fields(1) del: of_nat_add of_nat_mult)
  let ?p = "p\<lparr>yp_dynsym := \<lparr>sec_data = Some (sym_table 0 ss), sec_size = of_nat ?n\<rparr>,
      yp_dynstr := \<lparr>sec_data = Some (str_table ss), sec_size = of_nat ?t\<rparr>\<rparr>"
  have "tables_ok ?p" using u(1,3) by (simp add: tables_ok_def sec_ok_def del: of_nat_mult)
  from load_libsyms_total [OF this] assms(3) obtain ls where
    ls: "load_libsyms ?p = Some (?p\<lparr>yp_libsyms := ls\<rparr>)" by auto
  have "elf_loadsyms True True ?f p = Some (True, ?p\<lparr>yp_libsyms := ls\<rparr>)"
    using load_dynshs_image [of ?f ss] assms(1) ok read1 read2 ls
    by (simp add: elf_loadsyms_def Let_def del: of_nat_add of_nat_mult)
  moreover have "lfi_proc_sym (?p\<lparr>yp_libsyms := ls\<rparr>) name =
      Some (case map_of ss name of Some v \<Rightarrow> yp_elfbase p + v | None \<Rightarrow> 0)" for name
    using lookup_table [of "?p\<lparr>yp_libsyms := ls\<rparr>" ss name] lt assms(2) by (simp split: option.split)
  ultimately show ?thesis by blast
qed

theorem symbols_roundtrip_witness:
  "\<exists>p'. elf_loadsyms True True \<lparr>bf_fd = -1, bf_data = elf_image [(ascii ''main'', 0x1000), (ascii ''_lfi_free'', 0x2000)]\<rparr>
      (blank_syms demo_box 0x10000) = Some (True, p') \<and>
    lfi_proc_sym p' (ascii ''_lfi_free'') = Some 0x12000 \<and> lfi_proc_sym p' (ascii ''exit'') = Some 0"
proof -
  let ?ss = "[(ascii ''main'', 0x1000 :: u64), (ascii ''_lfi_free'', 0x2000)]"
  have "length (elf_image ?ss) < 2 ^ 32" by (simp add: elf_image_def image_header_fields(1) ascii_def)
  moreover have "\<forall>(n, v) \<in> set ?ss. 0 \<notin> set n" by (simp add: ascii_def)
  ultimately obtain p' where "elf_loadsyms True True \<lparr>bf_fd = -1, bf_data = elf_image ?ss\<rparr> (blank_syms demo_box 0x10000) =
      Some (True, p')"
    "\<forall>name. lfi_proc_sym p' name = Some (case map_of ?ss name of Some v \<Rightarrow> yp_elfbase (blank_syms demo_box 0x10000) + v | None \<Rightarrow> 0)"
    using symbols_roundtrip [where ss = ?ss and p = "blank_syms demo_box 0x10000" and fd = "-1"]
      blank_syms_ok(2) by blast
  then show ?thesis by (simp add: blank_syms_def ascii_def)
qed

text \<open>
  When the first of the two allocations fails, the size of the symbol table stays set over a
  null pointer: the load only reports failure, and the next lookup reads through the pointer.
\<close>

lemma failed_load_faults:
  assumes "length (elf_image ss) < 2 ^ 32" "ss \<noteq> []"
  shows "\<exists>p'. elf_loadsyms False ok2 \<lparr>bf_fd = fd, bf_data = elf_image ss\<rparr> p = Some (False, p') \<and>
    lfi_proc_sym p' name = None"
proof -
  let ?f = "\<lparr>bf_fd = fd, bf_data = elf_image ss\<rparr>" and ?n = "24 * length ss" and ?t = "length (str_table ss)"
  have len: "length (elf_image ss) = 264 + ?n + ?t" by (simp add: elf_image_def image_header_fields(1))
  have f: "file_ok ?f" using assms(1) by (simp add: file_ok_def)
  have u: "unat (of_nat ?n :: u64) = ?n" "unat (of_nat (264 + ?n) :: u64) = 264 + ?n" "unat (of_nat ?t :: u64) = ?t"
    by (rule unat_of_nat64, use assms(1) len in simp)+
  have ok: "sym_region_ok 264 (of_nat ?n) (bf_size ?f)" "sym_region_ok (of_nat (264 + ?n)) (of_nat ?t) (bf_size ?f)"
    by (simp_all add: sym_region_ok_def word_le_nat_alt unat_sub64' unat_bf_size [OF f] u len del: of_nat_add of_nat_mult)
  let ?p = "p\<lparr>yp_dynsym := \<lparr>sec_data = None, sec_size = of_nat ?n\<rparr>\<rparr>"
  have "elf_loadsyms False ok2 ?f p = Some (False, ?p)"
    using load_dynshs_image [of ?f ss] assms(1) ok by (simp add: elf_loadsyms_def del: of_nat_add of_nat_mult)
  moreover have "lfi_proc_sym ?p name = None"
    using assms(2) u(1) by (simp add: lfi_proc_sym_def table_read_def SYM_SIZE_def Let_def del: of_nat_mult)
  ultimately show ?thesis by blast
qed

end
