(* ===== verification/ElfLoad.thy ===== *)
theory ElfLoad
  imports ElfFormat BoxSafety Align
begin

text \<open>
  The ELF loader, \<^verbatim>\<open>linux/elfload.c\<close>: checks an untrusted program, maps its segments into a
  box and copies them in. The addresses of a box are host addresses, so the loader writes to
  box memory directly; such a write to a page that is not writable faults (\<open>None\<close>). The
  registration with debuggers and profilers, log messages and the warning about overlapping
  segments are left out; \<^verbatim>\<open>elf_has_bti\<close> is the argument \<open>bti\<close>. A page of a mapping that is past the
  end of its file faults as well, which matters when the rest of a segment is cleared.
\<close>

unbundle bit_operations_syntax

definition PHNUM_MAX :: u16 where "PHNUM_MAX = 64"
definition INTERP_MAX :: u64 where "INTERP_MAX = 1024"
definition CODE_MAX :: u64 where "CODE_MAX = 1 * 1024 * 1024 * 1024"
definition LFI_PROT_BTI :: u32 where "LFI_PROT_BTI = 16"

definition ELFCLASS64 :: u8 where "ELFCLASS64 = 2"
definition EI_CLASS :: nat where "EI_CLASS = 4"
definition EV_CURRENT :: u32 where "EV_CURRENT = 1"

datatype map_op = ELF_NO_MAP | ELF_MAP | ELF_REMAP

subsection \<open>The interpreter's name\<close>

definition read_phdrs :: "file_buf \<Rightarrow> elf_ehdr \<Rightarrow> elf_phdr list option" where
  "read_phdrs f h =
     (let n = PHDR_SIZE * unat (e_phnum h); bs = buf_read f (of_nat n) (e_phoff h)
      in if length bs \<noteq> n then None else Some (elems get_phdr PHDR_SIZE (unat (e_phnum h)) bs))"

text \<open>The loop over the headers; \<open>ok\<close> says whether \<^verbatim>\<open>malloc\<close> succeeds. The result is the
  terminated copy of the path.\<close>

fun interp_loop :: "bool \<Rightarrow> file_buf \<Rightarrow> elf_phdr list \<Rightarrow> u8 list option" where
  "interp_loop ok f [] = None"
| "interp_loop ok f (p # ps) =
     (if p_type p = PT_INTERP then
        (if p_filesz p \<ge> INTERP_MAX then None
         else if \<not> ok then None
         else let bs = buf_read f (p_filesz p) (p_offset p)
              in if length bs \<noteq> unat (p_filesz p) then None else Some (cstring (bs @ [0])))
      else interp_loop ok f ps)"

definition elf_interp :: "bool \<Rightarrow> file_buf \<Rightarrow> u8 list option" where
  "elf_interp ok f =
     (let hb = buf_read f (of_nat EHDR_SIZE) 0; h = get_ehdr hb
      in if length hb \<noteq> EHDR_SIZE then None
         else if e_phnum h = 0 \<or> e_phnum h > PHNUM_MAX then None
         else if e_phoff h \<ge> bf_size f then None
         else case read_phdrs f h of None \<Rightarrow> None | Some ps \<Rightarrow> interp_loop ok f ps)"

subsection \<open>Checks and helpers\<close>

definition pflags :: "u32 \<Rightarrow> bool \<Rightarrow> u32" where
  "pflags prot bti =
     (let p = (if has_flag prot PF_R then LFI_PROT_READ else 0) OR
              (if has_flag prot PF_W then LFI_PROT_WRITE else 0) OR
              (if has_flag prot PF_X then LFI_PROT_EXEC else 0)
      in if bti \<and> has_flag prot PF_X then p OR LFI_PROT_BTI else p)"

definition elf_check :: "elf_ehdr \<Rightarrow> bool" where
  "elf_check h \<longleftrightarrow> take 4 (e_ident h) = ELFMAG \<and> e_ident h ! EI_CLASS = ELFCLASS64 \<and>
     e_version h = EV_CURRENT"

definition sanitize :: "arch \<Rightarrow> u64 \<Rightarrow> u64 \<Rightarrow> u64 \<Rightarrow> u32 \<Rightarrow> vm \<Rightarrow> vm run" where
  "sanitize ar ps p sz prot m =
     (if \<not> has_flag prot LFI_PROT_EXEC then Some m
      else if ar = X64 then vm_write ps p (replicate (unat sz) 0xcc) m
      else Some m)"

text \<open>
  \<^verbatim>\<open>mremap\<close> of the caller's buffer over the pages from \<open>p\<close> on: they get the rights \<open>acc\<close> of the
  buffer and its bytes from \<open>off\<close> on, zero past its end. \<open>rs_aligned\<close>: the buffer starts at a
  page boundary.
\<close>

record remap_src =
  rs_aligned :: bool
  rs_acc :: access

definition vm_mremap :: "host_env \<Rightarrow> u64 \<Rightarrow> u64 \<Rightarrow> u64 \<Rightarrow> access \<Rightarrow> u8 list \<Rightarrow> u64 \<Rightarrow> vm \<Rightarrow> bool \<times> vm" where
  "vm_mremap e ps p n acc bs off m =
     (let m = vm_tick e ps m
      in if \<not> page_aligned ps p \<or> n = 0 \<or> \<not> he_ok e (vm_calls m) HMmap then (False, m)
         else (True, m\<lparr>vm_acc := (\<lambda>k. if in_pages ps p n k then acc else vm_acc m k),
                vm_file := (\<lambda>k. if in_pages ps p n k then False else vm_file m k),
                vm_past := (\<lambda>k. if in_pages ps p n k then False else vm_past m k),
                vm_mem := (\<lambda>x. if in_pages ps p n (pg ps x)
                   then (let i = unat (off + (x - p)) in if i < length bs then bs ! i else 0)
                   else vm_mem m x)\<rparr>))"

text \<open>The state of the loader: the file, whose bytes a remap moves away and back, and the box.\<close>

type_synonym load_state = "file_buf \<times> lfi_box \<times> vm"

text \<open>The bytes of the file from \<open>off\<close> on are replaced.\<close>

definition put_bytes :: "u64 \<Rightarrow> u8 list \<Rightarrow> file_buf \<Rightarrow> file_buf" where
  "put_bytes off bs f = f\<lparr>bf_data :=
     map (\<lambda>i. if unat off \<le> i \<and> i < unat off + length bs then bs ! (i - unat off) else bf_data f ! i)
       [0 ..< length (bf_data f)]\<rparr>"

subsection \<open>One segment\<close>

text \<open>A new mapping from the file, with the part past the file's bytes cleared.\<close>

definition seg_from_file ::
  "host_env \<Rightarrow> u64 \<Rightarrow> u64 \<Rightarrow> u64 \<Rightarrow> u64 \<Rightarrow> u64 \<Rightarrow> u64 \<Rightarrow> u32 \<Rightarrow> u64 \<Rightarrow> u64 \<Rightarrow> load_state \<Rightarrow>
   (u64 option \<times> load_state) run" where
  "seg_from_file e start offset fin p_off filesz memsz prot pagesize align s = (case s of (f, b, m) \<Rightarrow> do {
     (p, b, m) \<leftarrow> lfi_box_mapat e start (fin - start) prot LFI_MAP_PRIVATE (word_of_int (bf_fd f))
                     (truncp p_off align) (b, m);
     if p = -1 then Some (None, f, b, m)
     else if memsz > filesz then
       (if \<not> has_flag prot LFI_PROT_WRITE then Some (None, f, b, m)
        else do {
          let bss_start = start + offset + filesz;
          let bss_rest = ceilp bss_start pagesize;
          m \<leftarrow> vm_write (bx_ps b) bss_start (replicate (unat (bss_rest - bss_start)) 0) m;
          if bss_rest < fin then do {
            (p, b, m) \<leftarrow> lfi_box_mapat e bss_rest (fin - bss_rest) prot
                            (LFI_MAP_PRIVATE OR LFI_MAP_ANONYMOUS) (-1) 0 (b, m);
            Some (Some p, f, b, m)
          }
          else Some (Some p, f, b, m)
        })
     else Some (Some p, f, b, m)
   })"

text \<open>The caller's own pages moved into the box, and a copy put back in their place.\<close>

definition seg_remap ::
  "host_env \<Rightarrow> remap_src \<Rightarrow> u64 \<Rightarrow> u64 \<Rightarrow> u64 \<Rightarrow> u32 \<Rightarrow> u64 \<Rightarrow> load_state \<Rightarrow> (u64 option \<times> load_state) run" where
  "seg_remap e rs start fin p_off prot align s = (case s of (f, b, m) \<Rightarrow> do {
     let ps = bx_ps b;
     let n = fin - start;
     check (rs_aligned rs);
     let foff = truncp p_off align;
     let mapped = ceilp (bf_size f) ps;
     if mapped < bf_size f \<or> foff > mapped \<or> n > mapped - foff then Some (None, f, b, m)
     else do {
       let (ok, m) = vm_mremap e ps start n (rs_acc rs) (bf_data f) foff m;
       if \<not> ok then Some (None, f, b, m)
       else do {
         (p, b, m) \<leftarrow> lfi_box_mapat_register e start n prot (LFI_MAP_PRIVATE OR LFI_MAP_ANONYMOUS) (-1) 0 (b, m);
         let m = vm_tick e ps m;
         if \<not> he_ok e (vm_calls m) HMmap then Some (None, f, b, m)
         else do {
           check (pages_have acc_r ps m start (unat n));
           Some (Some p, put_bytes foff (vm_bytes m start n) f, b, m)
         }
       }
     }
   })"

definition buf_read_elfseg ::
  "host_env \<Rightarrow> arch \<Rightarrow> remap_src \<Rightarrow> u64 \<Rightarrow> u64 \<Rightarrow> u64 \<Rightarrow> u64 \<Rightarrow> u64 \<Rightarrow> u64 \<Rightarrow> u32 \<Rightarrow> u64 \<Rightarrow> u64 \<Rightarrow>
   map_op \<Rightarrow> load_state \<Rightarrow> (bool \<times> load_state) run" where
  "buf_read_elfseg e ar rs start offset fin p_off filesz memsz prot pagesize align op s = do {
     let op = (if op = ELF_REMAP \<and> \<not> has_flag prot LFI_PROT_EXEC then ELF_MAP else op);
     let n = fin - start;
     (mp, f, b, m) \<leftarrow>
       (if op = ELF_MAP \<and> bf_fd (fst s) \<noteq> -1 then
          seg_from_file e start offset fin p_off filesz memsz prot pagesize align s
        else if op = ELF_REMAP then seg_remap e rs start fin p_off prot align s
        else (case s of (f, b, m) \<Rightarrow> do {
          (p, b, m) \<leftarrow>
            (if op = ELF_MAP then lfi_box_mapat e start n (LFI_PROT_READ OR LFI_PROT_WRITE)
               (LFI_MAP_PRIVATE OR LFI_MAP_ANONYMOUS) (-1) 0 (b, m)
             else lfi_box_mapat_register e start n prot (LFI_MAP_PRIVATE OR LFI_MAP_ANONYMOUS) (-1) 0 (b, m));
          Some (Some p, f, b, m)
        }));
     case mp of
       None \<Rightarrow> Some (False, f, b, m)
     | Some p \<Rightarrow>
         if p = -1 then Some (False, f, b, m)
         else do {
           let (r, b, m) = (if op = ELF_REMAP then lfi_box_mprotect e start n prot (b, m) else (0, b, m));
           if r < 0 then Some (False, f, b, m)
           else if op = ELF_NO_MAP then Some (True, f, b, m)
           else if bf_fd f \<noteq> -1 \<or> op = ELF_REMAP then Some (True, f, b, m)
           else do {
             m \<leftarrow> sanitize ar (bx_ps b) p pagesize prot m;
             m \<leftarrow> sanitize ar (bx_ps b) (fin - pagesize) pagesize prot m;
             let bs = buf_read f filesz p_off;
             m \<leftarrow> vm_write (bx_ps b) (start + offset) bs m;
             if length bs \<noteq> unat filesz then Some (False, f, b, m)
             else do {
               let (r, b, m) = lfi_box_mprotect e start n prot (b, m);
               Some (\<not> r < 0, f, b, m)
             }
           }
         }
   }"

subsection \<open>One file\<close>

text \<open>The loop over the program headers; \<open>None\<close> inside the result is the error exit.\<close>

fun seg_loop ::
  "host_env \<Rightarrow> arch \<Rightarrow> remap_src \<Rightarrow> map_op \<Rightarrow> bool \<Rightarrow> u64 \<Rightarrow> u64 \<Rightarrow> elf_phdr list \<Rightarrow> u64 \<times> u64 \<times> u64 \<Rightarrow>
   load_state \<Rightarrow> ((u64 \<times> u64 \<times> u64) option \<times> load_state) run" where
  "seg_loop e ar rs op bti pagesize elfbase [] (first, hi, base) s = Some (Some (first, hi, base), s)"
| "seg_loop e ar rs op bti pagesize elfbase (p # ps) (first, hi, base) s =
     (if p_type p \<noteq> PT_LOAD \<or> p_memsz p = 0 then seg_loop e ar rs op bti pagesize elfbase ps (first, hi, base) s
      else if p_align p = 0 \<or> (p_align p AND (p_align p - 1)) \<noteq> 0 \<or> p_align p mod pagesize \<noteq> 0 then Some (None, s)
      else if p_memsz p > -1 - p_vaddr p then Some (None, s)
      else do {
        let start = truncp (p_vaddr p) (p_align p);
        let fin = ceilp (p_vaddr p + p_memsz p) (p_align p);
        let offset = p_vaddr p - start;
        if p_memsz p < p_filesz p then Some (None, s)
        else if fin \<le> start \<or> start \<ge> CODE_MAX \<or> fin \<ge> CODE_MAX then Some (None, s)
        else do {
          let first = (if first = 0 \<or> elfbase + start < first then elfbase + start else first);
          (ok, s) \<leftarrow> buf_read_elfseg e ar rs (base + start) offset (base + fin) (p_offset p) (p_filesz p)
                        (p_memsz p) (pflags (p_flags p) bti) pagesize (p_align p) op s;
          if \<not> ok then Some (None, s)
          else do {
            let base = (if base = 0 then base + start else base);
            let hi = (if base + fin > hi then base + fin else hi);
            seg_loop e ar rs op bti pagesize elfbase ps (first, hi, base) s
          }
        }
      })"

text \<open>The result on success: first and last address, entry point and header. \<open>ok\<close> is the success
  of \<^verbatim>\<open>malloc\<close>.\<close>

definition elf_load_one ::
  "host_env \<Rightarrow> arch \<Rightarrow> remap_src \<Rightarrow> bool \<Rightarrow> bool \<Rightarrow> u64 \<Rightarrow> u64 \<Rightarrow> map_op \<Rightarrow> load_state \<Rightarrow>
   ((u64 \<times> u64 \<times> u64 \<times> elf_ehdr) option \<times> load_state) run" where
  "elf_load_one e ar rs ok bti base pagesize op s =
     (let hb = buf_read (fst s) (of_nat EHDR_SIZE) 0; h = get_ehdr hb
      in if length hb \<noteq> EHDR_SIZE then Some (None, s)
         else if \<not> elf_check h then Some (None, s)
         else if e_type h \<noteq> ET_DYN then Some (None, s)
         else if e_phnum h > PHNUM_MAX then Some (None, s)
         else if \<not> ok then Some (None, s)
         else if e_phoff h \<ge> bf_size (fst s) then Some (None, s)
         else case read_phdrs (fst s) h of
           None \<Rightarrow> Some (None, s)
         | Some phdrs \<Rightarrow>
             if e_entry h \<ge> CODE_MAX then Some (None, s)
             else do {
               (r, s) \<leftarrow> seg_loop e ar rs op bti pagesize base phdrs (0, 0, base) s;
               case r of
                 None \<Rightarrow> Some (None, s)
               | Some (first, hi, base) \<Rightarrow> Some (Some (first, hi, base + e_entry h, h), s)
             })"

subsection \<open>Program and interpreter\<close>

record elf_info =
  ei_lastva :: u64
  ei_elfentry :: u64
  ei_ldentry :: u64
  ei_elfbase :: u64
  ei_ldbase :: u64
  ei_elfphoff :: u64
  ei_elfphnum :: u16
  ei_elfphentsize :: u16

definition elf_load ::
  "host_env \<Rightarrow> arch \<Rightarrow> remap_src \<Rightarrow> bool \<Rightarrow> bool \<Rightarrow> bool \<Rightarrow> file_buf \<Rightarrow> file_buf option \<Rightarrow> map_op \<Rightarrow>
   lfi_box \<times> vm \<Rightarrow> (elf_info option \<times> file_buf \<times> lfi_box \<times> vm) run" where
  "elf_load e ar rs ok bti bti_ld prog interp op bm = do {
     let base = bx_min (fst bm);
     let pagesize = bx_ps (fst bm);
     (r, prog, b, m) \<leftarrow> elf_load_one e ar rs ok bti base pagesize op (prog, bm);
     case r of
       None \<Rightarrow> Some (None, prog, b, m)
     | Some (p_first, p_last, p_ent, h) \<Rightarrow> do {
         (ld, b, m) \<leftarrow>
           (case interp of
              None \<Rightarrow> Some (Some (p_first, p_last, 0), b, m)
            | Some i \<Rightarrow> do {
                (r, i, b, m) \<leftarrow> elf_load_one e ar rs ok bti_ld p_last pagesize op (i, b, m);
                case r of
                  None \<Rightarrow> Some (None, b, m)
                | Some (i_first, i_last, i_ent, _) \<Rightarrow> Some (Some (i_first, i_last, i_ent), b, m)
              });
         case ld of
           None \<Rightarrow> Some (None, prog, b, m)
         | Some (ldbase, lastva, ldentry) \<Rightarrow>
             Some (Some \<lparr>ei_lastva = lastva, ei_elfentry = p_ent, ei_ldentry = ldentry, ei_elfbase = p_first,
               ei_ldbase = ldbase, ei_elfphoff = e_phoff h, ei_elfphnum = e_phnum h,
               ei_elfphentsize = e_phentsize h\<rparr>, prog, b, m)
       }
   }"

end
