(* ===== verification/ElfSafe.thy ===== *)
theory ElfSafe
  imports ElfLoad BoxSteps
begin

text \<open>
  Loading any ELF file is safe: the loader never faults, writes only to pages it has just
  mapped writable, and every page it makes executable holds verified code.
\<close>

unbundle bit_operations_syntax

subsection \<open>Rounding to pages and alignments\<close>

lemma single_bit_pow2:
  fixes x :: u64
  assumes "x \<noteq> 0" "x AND (x - 1) = 0"
  shows "\<exists>k < 64. x = 2 ^ k"
proof -
  let ?n = "unat x"
  have pos: "0 < ?n" using assms(1) by (simp add: word_greater_zero_iff unat_gt_0)
  obtain k where k: "2 ^ k \<le> ?n" "?n < 2 ^ (k + 1)" using ex_power_ivl1 [of 2 ?n] pos by auto
  have k64: "k < 64"
  proof (rule ccontr)
    assume "\<not> k < 64"
    then have "(2 :: nat) ^ 64 \<le> 2 ^ k" by (intro power_increasing) simp_all
    then show False using k(1) unat_lt64 [of x] by simp
  qed
  have bitk: "bit m k" if "2 ^ k \<le> m" "m < 2 ^ (k + 1)" for m :: nat
  proof -
    have "m div 2 ^ k = 1" using that by (intro div_nat_eqI) simp_all
    then show ?thesis by (simp add: bit_iff_odd)
  qed
  have "?n = 2 ^ k"
  proof (rule ccontr)
    assume "?n \<noteq> 2 ^ k"
    then have "2 ^ k \<le> ?n - 1" "?n - 1 < 2 ^ (k + 1)" using k by simp_all
    moreover have "unat (x - 1) = ?n - 1" using pos by (simp add: unat_sub64')
    ultimately have "bit (unat (x - 1)) k" using bitk by simp
    moreover have "bit (unat x) k" using bitk k by simp
    ultimately have "bit (x AND (x - 1)) k" using k64 by (simp add: bit_and_iff bit_unsigned_iff)
    then show False using assms(2) by simp
  qed
  then show ?thesis using k64 by (intro exI [of _ k]) (simp add: word_eq_nat_iff unat_pow2)
qed

lemma truncp_bounds:
  assumes "k < 64"
  shows "2 ^ k dvd unat (truncp x (2 ^ k))" "unat (truncp x (2 ^ k)) \<le> unat x"
  using bm_truncp_bounds [of "2 ^ k" x] assms by (simp_all add: truncp_pow2 unat_pow2)

lemma ceilp_bounds:
  assumes k: "k < 64" and y: "2 ^ k dvd y" "unat x \<le> y" "y < 2 ^ 64"
  shows "2 ^ k dvd unat (ceilp x (2 ^ k))" "unat x \<le> unat (ceilp x (2 ^ k))" "unat (ceilp x (2 ^ k)) \<le> y"
    "unat (ceilp x (2 ^ k)) < unat x + 2 ^ k"
proof -
  have d: "(2 :: nat) ^ k dvd 2 ^ 64" using k by (intro le_imp_power_dvd) simp
  have "y + 2 ^ k \<le> 2 ^ 64" by (rule dvd_next_multiple [OF y(1) d y(3)])
  then have x: "unat x + 2 ^ k \<le> 2 ^ 64" using y(2) by linarith
  have c: "ceilp x (2 ^ k) = bm_ceilp x (2 ^ k)" by (rule ceilp_pow2 [OF k x])
  have b: "2 ^ k dvd unat (ceilp x (2 ^ k))" "unat x \<le> unat (ceilp x (2 ^ k))"
    "unat (ceilp x (2 ^ k)) < unat x + 2 ^ k"
    using bm_ceilp_bounds [of "2 ^ k" x] k x by (simp_all add: c unat_pow2)
  show "2 ^ k dvd unat (ceilp x (2 ^ k))" "unat x \<le> unat (ceilp x (2 ^ k))"
    "unat (ceilp x (2 ^ k)) < unat x + 2 ^ k" by (rule b)+
  show "unat (ceilp x (2 ^ k)) \<le> y"
  proof (rule ccontr)
    assume "\<not> unat (ceilp x (2 ^ k)) \<le> y"
    then have "y + 2 ^ k \<le> unat (ceilp x (2 ^ k))" by (intro dvd_next_multiple [OF y(1) b(1)]) simp
    then show False using b(3) y(2) by linarith
  qed
qed

text \<open>The place of a segment, once the loader's checks passed.\<close>

lemma segment_place:
  fixes vaddr memsz align ps :: u64
  defines "start \<equiv> truncp vaddr align" and "fin \<equiv> ceilp (vaddr + memsz) align"
  assumes al: "align \<noteq> 0" "align AND (align - 1) = 0" "align mod ps = 0"
    and wrap: "memsz \<le> -1 - vaddr" and less: "start < fin"
  shows "unat ps dvd unat start" "unat ps dvd unat fin" "unat ps dvd unat (fin - start)"
    "unat (vaddr - start) + unat memsz \<le> unat (fin - start)" "unat ps \<le> unat (fin - start)"
proof -
  obtain k where k: "k < 64" "align = 2 ^ k" using single_bit_pow2 [OF al(1,2)] by blast
  have ua: "unat align = 2 ^ k" using k by (simp add: unat_pow2)
  have "unat (align mod ps) = unat (0 :: u64)" using al(3) by simp
  then have dv: "unat ps dvd 2 ^ k" by (simp only: unat_mod64 unat_0 mod_eq_0_iff_dvd ua)
  note t = truncp_bounds [OF k(1), of vaddr, folded k(2) start_def]
  have "unat memsz \<le> unat (-1 - vaddr)" using wrap by (simp add: word_le_nat_alt)
  also have "\<dots> = 2 ^ 64 - 1 - unat vaddr"
    using unat_le64 [of vaddr] by (simp add: unat_sub64' unsigned_minus_1_eq_mask mask_eq_exp_minus_1)
  finally have "unat memsz \<le> 18446744073709551615 - unat vaddr" by simp
  with unat_le64 [of vaddr] have "unat vaddr + unat memsz \<le> 18446744073709551615" by linarith
  then have nw: "unat vaddr + unat memsz < 2 ^ 64" by simp
  have uv: "unat (vaddr + memsz) = unat vaddr + unat memsz" by (rule unat_add64 [OF nw])
  have c: "2 ^ k dvd unat fin" "unat vaddr + unat memsz \<le> unat fin"
  proof -
    have "unat (vaddr + memsz) + 2 ^ k \<le> 2 ^ 64"
    proof (rule ccontr)
      assume "\<not> unat (vaddr + memsz) + 2 ^ k \<le> 2 ^ 64"
      then have "fin = 0" unfolding fin_def k(2) by (intro ceilp_pow2_wrap [OF k(1)]) simp
      then show False using less by simp
    qed
    then have "fin = bm_ceilp (vaddr + memsz) (2 ^ k)" "unat (vaddr + memsz) + unat (2 ^ k :: u64) \<le> 2 ^ 64"
      unfolding fin_def k(2) using ceilp_pow2 [OF k(1)] k(1) by (simp_all add: unat_pow2)
    then show "2 ^ k dvd unat fin" "unat vaddr + unat memsz \<le> unat fin"
      using bm_ceilp_bounds [of "2 ^ k" "vaddr + memsz"] k(1) uv by (simp_all add: unat_pow2)
  qed
  have sub: "unat (fin - start) = unat fin - unat start" "unat (vaddr - start) = unat vaddr - unat start"
    using less t(2) by (simp_all add: unat_sub64' word_less_nat_alt)
  have lt: "unat start < unat fin" using less by (simp add: word_less_nat_alt)
  show "unat ps dvd unat start" "unat ps dvd unat fin"
    using dvd_trans [OF dv] t(1) c(1) by (simp_all add: ua)
  then show d: "unat ps dvd unat (fin - start)" by (simp add: sub)
  show "unat (vaddr - start) + unat memsz \<le> unat (fin - start)" using c(2) t(2) lt by (simp add: sub)
  show "unat ps \<le> unat (fin - start)" using d lt by (intro dvd_imp_le) (simp_all add: sub)
qed

subsection \<open>One segment\<close>

lemma box_pow2: "box_ok b \<Longrightarrow> \<exists>k < 64. bx_ps b = 2 ^ k"
  using unat_pow2 by (auto simp: box_ok_def as_inv_def word_eq_nat_iff)

lemma prot_values [simp]:
  "has_flag (LFI_PROT_READ OR LFI_PROT_WRITE) LFI_PROT_WRITE"
  "\<not> has_flag (LFI_PROT_READ OR LFI_PROT_WRITE) LFI_PROT_EXEC"
  by (simp_all add: has_flag_def lfi_flags)

text \<open>The end of a mapping that succeeded.\<close>

lemma mapat_end:
  assumes c: "checked e b" and s: "lfi_box_mapat e start n prot flags fd off (b, m) = Some (p, b', m')" "p \<noteq> -1"
  shows "unat (start + n) = unat start + unat n" "unat (bx_ps b) dvd unat start"
proof -
  note ok = mapat_success [OF c s]
  have "unat start + unat n \<le> unat (bx_max b)"
    using ok(2) bufvalid_iff [OF box_ok_min_max [OF checkedD(1) [OF c]]] by simp
  also have "\<dots> < 2 ^ 64" by simp
  finally show "unat (start + n) = unat start + unat n" by (rule unat_add64)
  show "unat (bx_ps b) dvd unat start" using ok(3) by (simp add: mod_eq_0_iff_dvd)
qed

text \<open>
  The part of a mapped segment that the loader touches is in its file: the bytes up to the
  part that is cleared, and all of it if the verifier reads it.
\<close>

definition seg_fits ::
  "host_env \<Rightarrow> u64 \<Rightarrow> u32 \<Rightarrow> u64 \<Rightarrow> u64 \<Rightarrow> u64 \<Rightarrow> u64 \<Rightarrow> u64 \<Rightarrow> u32 \<Rightarrow> bool" where
  "seg_fits e ps fd foff offset filesz memsz n prot \<longleftrightarrow>
     (has_flag prot LFI_PROT_WRITE \<and> filesz < memsz \<longrightarrow> unat foff + unat offset + unat filesz \<le> he_fsize e fd) \<and>
     (has_flag prot LFI_PROT_EXEC \<and> \<not> has_flag prot LFI_PROT_WRITE \<longrightarrow> unat foff + unat n < he_fsize e fd + unat ps)"

lemma seg_from_file_safe:
  assumes c: "checked e b" and al: "unat (bx_ps b) dvd unat (fin - start)"
    and sz: "unat offset + unat memsz \<le> unat (fin - start)"
    and fits: "seg_fits e (bx_ps b) (word_of_int (bf_fd f)) (truncp p_off align) offset filesz memsz (fin - start) prot"
  shows "\<exists>mp b' m'. seg_from_file e start offset fin p_off filesz memsz prot (bx_ps b) align (f, b, m) =
    Some (mp, f, b', m') \<and> box_step e b m b' m' \<and> vm_fault m' = vm_fault m"
proof -
  let ?n = "fin - start" and ?off = "truncp p_off align" and ?fd = "word_of_int (bf_fd f)"
  note b = checkedD(1) [OF c]
  obtain p b1 m1 where s: "lfi_box_mapat e start ?n prot LFI_MAP_PRIVATE ?fd ?off (b, m) = Some (p, b1, m1)"
    "box_step e b m b1 m1"
    using mapat_step [OF c al] by blast
  have quiet: "vm_fault m1 = vm_fault m"
    by (rule mapat_quiet [OF c _ s(1)]) (use fits al in \<open>simp add: seg_fits_def in_file_def\<close>)
  show ?thesis
  proof (cases "p = -1 \<or> \<not> memsz > filesz \<or> \<not> has_flag prot LFI_PROT_WRITE")
    case True
    then have "\<exists>mp. seg_from_file e start offset fin p_off filesz memsz prot (bx_ps b) align (f, b, m) =
        Some (mp, f, b1, m1)"
    proof (cases "p = -1")
      case False
      then have "\<not> filesz < memsz \<or> \<not> has_flag prot LFI_PROT_WRITE" using True by simp
      then show ?thesis
        unfolding seg_from_file_def prod.case s(1) Option.bind.bind_lunit if_not_P [OF False]
        by (cases "filesz < memsz") (simp_all only: if_True if_False simp_thms, blast+)
    next
      case fail: True
      show ?thesis
        unfolding seg_from_file_def prod.case s(1) Option.bind.bind_lunit if_P [OF fail] by blast
    qed
    then show ?thesis using s(2) quiet by blast
  next
    case False
    then have p: "p \<noteq> -1" and bss: "unat filesz < unat memsz" and w: "has_flag prot LFI_PROT_WRITE"
      by (simp_all add: word_less_nat_alt)
    note e = mapat_end [OF c s(1) p]
    have fin: "unat fin = unat start + unat ?n" using e(1) by simp
    have finlt: "unat fin < 2 ^ 64" by simp
    obtain k where k: "k < 64" "bx_ps b = 2 ^ k" using box_pow2 [OF b] by blast
    have pk: "unat (bx_ps b) = 2 ^ k" using k by (simp add: unat_pow2)
    have dfin: "2 ^ k dvd unat fin" using e(2) al by (simp add: fin pk)
    define bs where "bs = start + offset + filesz"
    define br where "br = ceilp bs (bx_ps b)"
    have so: "unat (start + offset) = unat start + unat offset" using sz fin finlt by (intro unat_add64) simp
    have ubs: "unat bs = unat start + unat offset + unat filesz"
      unfolding bs_def using so bss sz fin finlt by (subst unat_add64) simp_all
    have lebs: "unat bs \<le> unat fin" using ubs bss sz fin by linarith
    note cb = ceilp_bounds [OF k(1) dfin lebs finlt, folded k(2) br_def]
    have len: "length (replicate (unat (br - bs)) (0 :: u8)) = unat br - unat bs"
      by (simp only: length_replicate unat_sub64' [OF cb(2)])
    have q: "unat start \<le> unat bs" "unat bs + length (replicate (unat (br - bs)) (0 :: u8)) \<le> unat start + unat ?n"
      unfolding len using ubs cb(2,3) fin by linarith+
    have here: "\<not> vm_past m1 k"
      if k: "in_pages (bx_ps b) bs (of_nat (length (replicate (unat (br - bs)) (0 :: u8)))) k" "in_pages (bx_ps b) start ?n k" for k
    proof -
      have "unat (of_nat (length (replicate (unat (br - bs)) (0 :: u8))) :: u64) = unat br - unat bs"
        unfolding len by (rule unat_of_nat64) (rule le_less_trans [OF diff_le_self], simp)
      then have "k < (unat br + unat (bx_ps b) - 1) div unat (bx_ps b)" using k(1) cb(2) by (simp add: in_pages_def)
      moreover have "(unat br + unat (bx_ps b) - 1) div unat (bx_ps b) = unat br div unat (bx_ps b)"
        using cb(1) by (simp add: pk div_add1_eq [of "unat br"] flip: add_diff_assoc)
      ultimately have "(k + 1) * unat (bx_ps b) \<le> unat br div unat (bx_ps b) * unat (bx_ps b)" by (intro mult_le_mono1) simp
      also have "\<dots> = unat br" using cb(1) by (simp add: pk)
      finally have "k * unat (bx_ps b) < unat bs" using cb(4) pk by simp
      then have "\<not> past_end e (bx_ps b) start ?fd ?off k"
        using fits w bss ubs in_pages_whole(1) [OF checkedD(4) [OF c] e(2) al k(2)]
        by (auto simp: past_end_def seg_fits_def word_less_nat_alt)
      then show ?thesis using mapat_past [OF c s(1) p k(2)] by simp
    qed
    obtain m2 where wr: "vm_write (bx_ps b) bs (replicate (unat (br - bs)) 0) m1 = Some m2"
      using mapat_write_at [OF c s(1) p w refl q here] by blast
    have quiet2: "vm_fault m2 = vm_fault m" using vm_write_frame(2) [OF wr] quiet by simp
    note c1 = checked_step [OF c s(2)]
    have ps1: "bx_ps b1 = bx_ps b" using box_step_box [OF b s(2)] by simp
    have st2: "box_step e b1 m1 b1 m2" using vm_write_step [OF checkedD(1) [OF c1]] wr ps1 by simp
    have st: "box_step e b m b1 m2" by (rule box_step_trans [OF b s(2) st2])
    show ?thesis
    proof (cases "br < fin")
      case False
      then show ?thesis using s p bss w wr st quiet2
        by (simp add: seg_from_file_def word_less_nat_alt bs_def [symmetric] br_def [symmetric] Let_def ps1)
    next
      case True
      have "unat (fin - br) = unat fin - unat br" using cb(3) by (simp add: unat_sub64')
      then have al': "unat (bx_ps b1) dvd unat (fin - br)" using dfin cb(1) by (simp add: ps1 pk)
      obtain p3 b3 m3 where s3: "lfi_box_mapat e br (fin - br) prot (LFI_MAP_PRIVATE OR LFI_MAP_ANONYMOUS) (-1) 0 (b1, m2) =
          Some (p3, b3, m3)" "box_step e b1 m2 b3 m3"
        using mapat_step [OF c1 al'] by blast
      have "box_step e b m b3 m3" by (rule box_step_trans [OF b st s3(2)])
      moreover have "vm_fault m3 = vm_fault m"
        using mapat_quiet [OF c1 _ s3(1)] al' quiet2 by (simp add: in_file_def host_flags_def lfi_flags has_flag_def)
      ultimately show ?thesis using s p bss w wr True s3(1)
        by (simp add: seg_from_file_def word_less_nat_alt bs_def [symmetric] br_def [symmetric] Let_def ps1)
    qed
  qed
qed

text \<open>A write of the loader into the mapping it has just made: only bytes change.\<close>

definition same_frame :: "vm \<Rightarrow> vm \<Rightarrow> bool" where
  "same_frame m1 m2 \<longleftrightarrow> vm_acc m2 = vm_acc m1 \<and> vm_past m2 = vm_past m1 \<and> vm_fault m2 = vm_fault m1"

lemma load_write:
  assumes c: "checked e b"
    and s: "lfi_box_mapat e start n (LFI_PROT_READ OR LFI_PROT_WRITE) (LFI_MAP_PRIVATE OR LFI_MAP_ANONYMOUS) fd off (b, m) =
      Some (p, b1, m1)" "p \<noteq> -1"
    and st: "box_step e b m b1 m1" and cur: "box_step e b m b1 m2" "same_frame m1 m2"
    and q: "unat start \<le> unat q" "unat q + length bs \<le> unat start + unat n"
  shows "\<exists>m3. vm_write (bx_ps b1) q bs m2 = Some m3 \<and> same_frame m1 m3 \<and> box_step e b m b1 m3"
proof -
  note b = checkedD(1) [OF c]
  have ps: "bx_ps b1 = bx_ps b" using box_step_box [OF b st] by simp
  have same: "vm_acc m2 = vm_acc m1" "vm_past m2 = vm_past m1" using cur(2) by (simp_all add: same_frame_def)
  have anon: "hf_anonymous (host_flags (LFI_MAP_PRIVATE OR LFI_MAP_ANONYMOUS))"
    by (simp add: host_flags_def lfi_flags has_flag_def)
  obtain m3 where w: "vm_write (bx_ps b) q bs m2 = Some m3" "vm_acc m3 = vm_acc m1"
    using mapat_write [OF c s _ same anon q] by auto
  then have "same_frame m1 m3" using cur(2) vm_write_frame [OF w(1)] by (simp add: same_frame_def)
  moreover have "box_step e b1 m2 b1 m3"
    using vm_write_step [OF box_step_box(1) [OF b st]] w(1) ps by simp
  ultimately show ?thesis using w ps box_step_trans [OF b cur(1)] by auto
qed

lemma load_sanitize:
  assumes c: "checked e b"
    and s: "lfi_box_mapat e start n (LFI_PROT_READ OR LFI_PROT_WRITE) (LFI_MAP_PRIVATE OR LFI_MAP_ANONYMOUS) fd off (b, m) =
      Some (p, b1, m1)" "p \<noteq> -1"
    and st: "box_step e b m b1 m1" and cur: "box_step e b m b1 m2" "same_frame m1 m2"
    and q: "unat start \<le> unat q" "unat q + unat sz \<le> unat start + unat n"
  shows "\<exists>m3. sanitize ar (bx_ps b1) q sz prot m2 = Some m3 \<and> same_frame m1 m3 \<and> box_step e b m b1 m3"
  using load_write [OF c s st cur q(1), of "replicate (unat sz) 0xcc"] q(2) cur
  by (auto simp: sanitize_def)

lemma seg_copy_safe:
  assumes c: "checked e b" and al: "unat (bx_ps b) dvd unat (fin - start)"
    and sz: "unat offset + unat memsz \<le> unat (fin - start)" "unat filesz \<le> unat memsz"
    "unat (bx_ps b) \<le> unat (fin - start)" and fd: "bf_fd f = -1"
  shows "\<exists>r b' m'. buf_read_elfseg e ar rs start offset fin p_off filesz memsz prot (bx_ps b) align ELF_MAP (f, b, m) =
    Some (r, f, b', m') \<and> box_step e b m b' m' \<and> vm_fault m' = vm_fault m"
proof -
  let ?n = "fin - start" and ?rw = "LFI_PROT_READ OR LFI_PROT_WRITE" and ?fl = "LFI_MAP_PRIVATE OR LFI_MAP_ANONYMOUS"
  let ?s = "buf_read_elfseg e ar rs start offset fin p_off filesz memsz prot (bx_ps b) align ELF_MAP (f, b, m)"
  note b = checkedD(1) [OF c]
  obtain p b1 m1 where s: "lfi_box_mapat e start ?n ?rw ?fl (-1) 0 (b, m) = Some (p, b1, m1)"
    and st: "box_step e b m b1 m1"
    using mapat_step [OF c al] by blast
  have anon: "hf_anonymous (host_flags ?fl)" by (simp add: host_flags_def lfi_flags has_flag_def)
  have quiet: "vm_fault m1 = vm_fault m" by (rule mapat_quiet [OF c _ s]) simp
  have self: "same_frame m1 m1" by (simp add: same_frame_def)
  show ?thesis
  proof (cases "p = -1")
    case True
    then show ?thesis using s st fd quiet by (auto simp: buf_read_elfseg_def Let_def)
  next
    case p: False
    note en = mapat_end [OF c s p]
    have p_start: "p = start" using mapat_success(1) [OF c s p] .
    have fin: "unat fin = unat start + unat ?n" using en(1) by simp
    have ufp: "unat (fin - bx_ps b) = unat fin - unat (bx_ps b)" using sz(3) fin by (intro unat_sub64') linarith
    have ps1: "bx_ps b1 = bx_ps b" using box_step_box [OF b st] by simp
    have first_page: "unat start + unat (bx_ps b) \<le> unat start + unat ?n" using sz(3) by simp
    obtain m2 where m2: "sanitize ar (bx_ps b1) start (bx_ps b) prot m1 = Some m2" "same_frame m1 m2"
      "box_step e b m b1 m2"
      using load_sanitize [OF c s p st st self order_refl first_page] by blast
    have last_page: "unat start \<le> unat (fin - bx_ps b)"
      "unat (fin - bx_ps b) + unat (bx_ps b) \<le> unat start + unat ?n"
      unfolding ufp using sz(3) fin by linarith+
    obtain m3 where m3: "sanitize ar (bx_ps b1) (fin - bx_ps b) (bx_ps b) prot m2 = Some m3" "same_frame m1 m3"
      "box_step e b m b1 m3"
      using load_sanitize [OF c s p st m2(3,2) last_page] by blast
    define bs where "bs = buf_read f filesz p_off"
    have lbs: "length bs \<le> unat filesz" unfolding bs_def by (rule length_buf_read)
    have so: "unat (start + offset) = unat start + unat offset"
      using sz(1) fin unat_lt64 [of fin] by (intro unat_add64) (simp del: unat_lt64)
    have data: "unat start \<le> unat (start + offset)" "unat (start + offset) + length bs \<le> unat start + unat ?n"
      unfolding so using lbs sz(1,2) by linarith+
    obtain m4 where m4: "vm_write (bx_ps b1) (start + offset) bs m3 = Some m4" "box_step e b m b1 m4" "same_frame m1 m4"
      using load_write [OF c s p st m3(3,2) data] by blast
    obtain r b5 m5 where m5: "lfi_box_mprotect e start ?n prot (b1, m4) = (r, b5, m5)"
      by (cases "lfi_box_mprotect e start ?n prot (b1, m4)") auto
    have st5: "box_step e b m b5 m5"
      by (rule box_step_trans [OF b m4(2) mprotect_step [OF checked_step [OF c m4(2)] m5]])
    have "\<not> vm_past m4 k" if "in_pages (bx_ps b1) start ?n k" for k
      using mapat_past [OF c s p] that m4(3) anon by (simp add: ps1 same_frame_def)
    then have quiet5: "vm_fault m5 = vm_fault m"
      using mprotect_calm [OF box_step_box(1) [OF b m4(2)] checkedD(3) [OF c] _ m5] m4(3) quiet
      by (simp add: calm_def same_frame_def)
    have run: "?s = (if length bs \<noteq> unat filesz then Some (False, f, b1, m4) else Some (\<not> r < 0, f, b5, m5))"
      using s p fd m2(1) m3(1) m4(1) m5 ps1
      by (simp add: buf_read_elfseg_def Let_def p_start bs_def [symmetric])
    show ?thesis using run m4(2,3) st5 quiet quiet5
      by (cases "length bs = unat filesz") (auto simp: same_frame_def)
  qed
qed

lemma seg_safe:
  assumes c: "checked e b" and al: "unat (bx_ps b) dvd unat (fin - start)"
    and sz: "unat offset + unat memsz \<le> unat (fin - start)" "unat filesz \<le> unat memsz"
    "unat (bx_ps b) \<le> unat (fin - start)" and op: "op \<noteq> ELF_REMAP"
    and fits: "op = ELF_MAP \<Longrightarrow> bf_fd f \<noteq> -1 \<Longrightarrow>
      seg_fits e (bx_ps b) (word_of_int (bf_fd f)) (truncp p_off align) offset filesz memsz (fin - start) prot"
  shows "\<exists>r b' m'. buf_read_elfseg e ar rs start offset fin p_off filesz memsz prot (bx_ps b) align op (f, b, m) =
    Some (r, f, b', m') \<and> box_step e b m b' m' \<and> (op = ELF_MAP \<longrightarrow> vm_fault m' = vm_fault m)"
proof (cases "op = ELF_MAP")
  case map: True
  show ?thesis
  proof (cases "bf_fd f = -1")
    case True
    then show ?thesis using seg_copy_safe [OF c al sz] map by blast
  next
    case False
    obtain mp b' m' where s: "seg_from_file e start offset fin p_off filesz memsz prot (bx_ps b) align (f, b, m) =
        Some (mp, f, b', m')" "box_step e b m b' m'" "vm_fault m' = vm_fault m"
      using seg_from_file_safe [OF c al sz(1) fits [OF map False]] by blast
    have "\<exists>r. buf_read_elfseg e ar rs start offset fin p_off filesz memsz prot (bx_ps b) align op (f, b, m) =
        Some (r, f, b', m')"
    proof (cases mp)
      case (Some q)
      then show ?thesis using s(1) False map by (cases "q = -1") (auto simp: buf_read_elfseg_def Let_def)
    qed (use s(1) False map in \<open>auto simp: buf_read_elfseg_def Let_def\<close>)
    then show ?thesis using s(2,3) by blast
  qed
next
  case False
  then have no: "op = ELF_NO_MAP" using op by (cases op) auto
  obtain p b' m' where s: "lfi_box_mapat_register e start (fin - start) prot (LFI_MAP_PRIVATE OR LFI_MAP_ANONYMOUS) (-1) 0 (b, m) =
      Some (p, b', m')" "box_step e b m b' m'"
    using register_step [OF c] by blast
  have "\<exists>r. buf_read_elfseg e ar rs start offset fin p_off filesz memsz prot (bx_ps b) align op (f, b, m) =
      Some (r, f, b', m')"
    using s(1) no by (cases "p = -1") (auto simp: buf_read_elfseg_def Let_def)
  then show ?thesis using s(2) no by blast
qed

subsection \<open>A file\<close>

text \<open>The segments of a file that is mapped are in the file.\<close>

definition phdr_fits :: "host_env \<Rightarrow> u64 \<Rightarrow> bool \<Rightarrow> u32 \<Rightarrow> elf_phdr \<Rightarrow> bool" where
  "phdr_fits e ps bti fd p \<longleftrightarrow> (p_type p = PT_LOAD \<and> p_memsz p \<noteq> 0 \<longrightarrow>
     (let start = truncp (p_vaddr p) (p_align p); fin = ceilp (p_vaddr p + p_memsz p) (p_align p)
      in seg_fits e ps fd (truncp (p_offset p) (p_align p)) (p_vaddr p - start) (p_filesz p) (p_memsz p) (fin - start)
           (pflags (p_flags p) bti)))"

definition file_fits :: "host_env \<Rightarrow> u64 \<Rightarrow> bool \<Rightarrow> file_buf \<Rightarrow> bool" where
  "file_fits e ps bti f \<longleftrightarrow> bf_fd f = -1 \<or>
     (case read_phdrs f (get_ehdr (buf_read f (of_nat EHDR_SIZE) 0)) of
        None \<Rightarrow> True
      | Some phdrs \<Rightarrow> list_all (phdr_fits e ps bti (word_of_int (bf_fd f))) phdrs)"

lemma seg_loop_safe:
  assumes "checked e b" "op \<noteq> ELF_REMAP"
    and "op = ELF_MAP \<Longrightarrow> bf_fd f \<noteq> -1 \<Longrightarrow> list_all (phdr_fits e (bx_ps b) bti (word_of_int (bf_fd f))) ps"
  shows "\<exists>r b' m'. seg_loop e ar rs op bti (bx_ps b) elfbase ps fhb (f, b, m) = Some (r, f, b', m') \<and>
    box_step e b m b' m' \<and> (op = ELF_MAP \<longrightarrow> vm_fault m' = vm_fault m)"
  using assms
proof (induction ps arbitrary: fhb b m)
  case Nil
  obtain first hi base where t: "fhb = (first, hi, base)" by (cases fhb) auto
  show ?case using box_step_refl [OF checkedD(1) [OF Nil(1)]] by (simp add: t)
next
  case (Cons p ps)
  note c = Cons.prems(1) and b = checkedD(1) [OF Cons.prems(1)]
  obtain first hi base where t: "fhb = (first, hi, base)" by (cases fhb) auto
  let ?start = "truncp (p_vaddr p) (p_align p)" and ?fin = "ceilp (p_vaddr p + p_memsz p) (p_align p)"
  let ?loop = "seg_loop e ar rs op bti (bx_ps b) elfbase"
  consider (skip) "p_type p \<noteq> PT_LOAD \<or> p_memsz p = 0"
    | (bad) "\<not> (p_type p \<noteq> PT_LOAD \<or> p_memsz p = 0)"
      "p_align p = 0 \<or> (p_align p AND (p_align p - 1)) \<noteq> 0 \<or> p_align p mod bx_ps b \<noteq> 0 \<or>
       p_memsz p > -1 - p_vaddr p \<or> p_memsz p < p_filesz p \<or> ?fin \<le> ?start \<or> ?start \<ge> CODE_MAX \<or> ?fin \<ge> CODE_MAX"
    | (seg) "\<not> (p_type p \<noteq> PT_LOAD \<or> p_memsz p = 0)"
      "\<not> (p_align p = 0 \<or> (p_align p AND (p_align p - 1)) \<noteq> 0 \<or> p_align p mod bx_ps b \<noteq> 0)"
      "\<not> p_memsz p > -1 - p_vaddr p" "\<not> p_memsz p < p_filesz p"
      "\<not> (?fin \<le> ?start \<or> ?start \<ge> CODE_MAX \<or> ?fin \<ge> CODE_MAX)" by argo
  then show ?case
  proof cases
    case skip
    have "?loop (p # ps) fhb (f, b, m) = ?loop ps fhb (f, b, m)" unfolding t by (simp only: seg_loop.simps skip if_True)
    then show ?thesis using Cons.IH [OF Cons.prems(1,2), of fhb m] Cons.prems(3) by simp
  next
    case bad
    have "?loop (p # ps) fhb (f, b, m) = Some (None, f, b, m)"
      unfolding t seg_loop.simps Let_def if_not_P [OF bad(1)] using bad(2) by (auto split: if_splits)
    then show ?thesis using box_step_refl [OF b] by blast
  next
    case seg
    have al: "p_align p \<noteq> 0" "p_align p AND (p_align p - 1) = 0" "p_align p mod bx_ps b = 0"
      "p_memsz p \<le> -1 - p_vaddr p" "?start < ?fin"
      using seg by (simp_all add: not_less not_le)
    note pl = segment_place [OF al]
    let ?first = "if first = 0 \<or> elfbase + ?start < first then elfbase + ?start else first"
    let ?base = "if base = 0 then base + ?start else base"
    let ?hi = "if ?base + ?fin > hi then ?base + ?fin else hi"
    let ?seg = "buf_read_elfseg e ar rs (base + ?start) (p_vaddr p - ?start) (base + ?fin) (p_offset p) (p_filesz p)
        (p_memsz p) (pflags (p_flags p) bti) (bx_ps b) (p_align p) op (f, b, m)"
    have n: "base + ?fin - (base + ?start) = ?fin - ?start" by simp
    have fs: "unat (p_filesz p) \<le> unat (p_memsz p)" using seg(4) by (simp add: word_le_nat_alt not_less)
    have fits: "seg_fits e (bx_ps b) (word_of_int (bf_fd f)) (truncp (p_offset p) (p_align p)) (p_vaddr p - ?start)
        (p_filesz p) (p_memsz p) (?fin - ?start) (pflags (p_flags p) bti)" if "op = ELF_MAP" "bf_fd f \<noteq> -1"
      using Cons.prems(3) [OF that] seg(1) by (simp add: phdr_fits_def Let_def)
    obtain r b1 m1 where s: "?seg = Some (r, f, b1, m1)" "box_step e b m b1 m1" "op = ELF_MAP \<longrightarrow> vm_fault m1 = vm_fault m"
      using seg_safe [OF c, of "base + ?fin" "base + ?start", unfolded n, OF pl(3,4) fs pl(5) Cons.prems(2) fits] by blast
    have ps1: "bx_ps b1 = bx_ps b" using box_step_box [OF b s(2)] by simp
    have loop: "?loop (p # ps) fhb (f, b, m) =
        (if \<not> r then Some (None, f, b1, m1) else ?loop ps (?first, ?hi, ?base) (f, b1, m1))"
      unfolding t seg_loop.simps Let_def if_not_P [OF seg(1)] if_not_P [OF seg(2)] if_not_P [OF seg(3)]
        if_not_P [OF seg(4)] if_not_P [OF seg(5)] s(1)
      by (simp only: Option.bind.bind_lunit prod.case)
    obtain r' b2 m2 where r2: "?loop ps (?first, ?hi, ?base) (f, b1, m1) = Some (r', f, b2, m2)" "box_step e b1 m1 b2 m2"
      "op = ELF_MAP \<longrightarrow> vm_fault m2 = vm_fault m1"
      using Cons.IH [OF checked_step [OF c s(2)] Cons.prems(2), of "(?first, ?hi, ?base)" m1] Cons.prems(3)
      unfolding ps1 by auto
    show ?thesis
    proof (cases r)
      case True
      then show ?thesis using loop r2(1,3) s(3) box_step_trans [OF b s(2) r2(2)] by auto
    next
      case False
      then show ?thesis using loop s(2,3) by auto
    qed
  qed
qed

lemma elf_load_one_safe:
  assumes c: "checked e b" and op: "op \<noteq> ELF_REMAP" and fits: "op = ELF_MAP \<Longrightarrow> file_fits e (bx_ps b) bti f"
  shows "\<exists>r b' m'. elf_load_one e ar rs ok bti base (bx_ps b) op (f, b, m) = Some (r, f, b', m') \<and>
    box_step e b m b' m' \<and> (op = ELF_MAP \<longrightarrow> vm_fault m' = vm_fault m)"
proof -
  let ?h = "get_ehdr (buf_read f (of_nat EHDR_SIZE) 0)"
  note refl = box_step_refl [OF checkedD(1) [OF c], of e m]
  have ok: "\<exists>r b' m'. (case read_phdrs f ?h of
           None \<Rightarrow> Some (None, f, b, m)
         | Some phdrs \<Rightarrow>
             if e_entry ?h \<ge> CODE_MAX then Some (None, f, b, m)
             else seg_loop e ar rs op bti (bx_ps b) base phdrs (0, 0, base) (f, b, m) \<bind>
              (\<lambda>(r, s). case r of
                 None \<Rightarrow> Some (None, s)
               | Some (first, hi, base) \<Rightarrow> Some (Some (first, hi, base + e_entry ?h, ?h), s))) =
      Some (r, f, b', m') \<and> box_step e b m b' m' \<and> (op = ELF_MAP \<longrightarrow> vm_fault m' = vm_fault m)"
  proof (cases "read_phdrs f ?h")
    case None
    then show ?thesis using refl by auto
  next
    case (Some phdrs)
    obtain r b' m' where l: "seg_loop e ar rs op bti (bx_ps b) base phdrs (0, 0, base) (f, b, m) = Some (r, f, b', m')"
      "box_step e b m b' m'" "op = ELF_MAP \<longrightarrow> vm_fault m' = vm_fault m"
      using seg_loop_safe [OF c op, of f bti phdrs ar rs base "(0, 0, base)" m] fits Some
      by (auto simp: file_fits_def)
    show ?thesis
    proof (cases "e_entry ?h \<ge> CODE_MAX")
      case True
      then show ?thesis using Some refl by auto
    next
      case False
      then show ?thesis using Some l by (cases r) auto
    qed
  qed
  have guard: "\<exists>r b' m'. (if q then Some (None, f, b, m) else X) = Some (r, f, b', m') \<and> box_step e b m b' m' \<and>
      (op = ELF_MAP \<longrightarrow> vm_fault m' = vm_fault m)"
    if "\<exists>r b' m'. X = Some (r, f, b', m') \<and> box_step e b m b' m' \<and> (op = ELF_MAP \<longrightarrow> vm_fault m' = vm_fault m)" for q X
    using that refl by auto
  show ?thesis unfolding elf_load_one_def Let_def fst_conv by (intro guard ok)
qed

lemma elf_load_step:
  assumes c: "checked e b" and op: "op \<noteq> ELF_REMAP"
    and fits: "op = ELF_MAP \<Longrightarrow> file_fits e (bx_ps b) bti prog"
      "\<And>i. op = ELF_MAP \<Longrightarrow> interp = Some i \<Longrightarrow> file_fits e (bx_ps b) bti_ld i"
  shows "\<exists>r b' m'. elf_load e ar rs ok bti bti_ld prog interp op (b, m) = Some (r, prog, b', m') \<and>
    box_step e b m b' m' \<and> (op = ELF_MAP \<longrightarrow> vm_fault m' = vm_fault m)"
proof -
  note b = checkedD(1) [OF c]
  obtain r1 b1 m1 where p: "elf_load_one e ar rs ok bti (bx_min b) (bx_ps b) op (prog, b, m) = Some (r1, prog, b1, m1)"
    and st: "box_step e b m b1 m1" and q1: "op = ELF_MAP \<longrightarrow> vm_fault m1 = vm_fault m"
    using elf_load_one_safe [OF c op fits(1)] by blast
  show ?thesis
  proof (cases r1)
    case None
    then show ?thesis using p st q1 by (simp add: elf_load_def Let_def)
  next
    case (Some t)
    obtain p_first p_last p_ent h where t: "t = (p_first, p_last, p_ent, h)" by (cases t) auto
    show ?thesis
    proof (cases interp)
      case None
      then show ?thesis using p st Some t q1 by (simp add: elf_load_def Let_def)
    next
      case i: (Some i)
      have ps1: "bx_ps b1 = bx_ps b" using box_step_box [OF b st] by simp
      obtain r2 b2 m2 where q: "elf_load_one e ar rs ok bti_ld p_last (bx_ps b) op (i, b1, m1) = Some (r2, i, b2, m2)"
        and st2: "box_step e b1 m1 b2 m2" and q2: "op = ELF_MAP \<longrightarrow> vm_fault m2 = vm_fault m1"
        using elf_load_one_safe [OF checked_step [OF c st] op, unfolded ps1, OF fits(2) [OF _ i]] by blast
      note both = box_step_trans [OF b st st2]
      show ?thesis using p Some t i q both q1 q2 by (cases r2) (auto simp: elf_load_def Let_def)
    qed
  qed
qed


text \<open>Sample files: a header with \<open>phnum\<close> program headers at \<open>phoff\<close>, and a loadable segment.\<close>

definition ehdr_bytes :: "nat \<Rightarrow> nat \<Rightarrow> u8 list" where
  "ehdr_bytes phnum phoff = ELFMAG @ [2] @ replicate 11 0 @ le_bytes 2 3 @ replicate 2 0 @ le_bytes 4 1 @
     le_bytes 8 0 @ le_bytes 8 phoff @ replicate 16 0 @ le_bytes 2 phnum @ replicate 6 0"

definition phdr_bytes :: "nat \<Rightarrow> nat \<Rightarrow> nat \<Rightarrow> nat \<Rightarrow> u8 list" where
  "phdr_bytes fl vaddr filesz memsz = le_bytes 4 1 @ le_bytes 4 fl @ le_bytes 8 0 @ le_bytes 8 vaddr @ replicate 8 0 @
     le_bytes 8 filesz @ le_bytes 8 memsz @ le_bytes 8 4096"

lemma length_hdrs [simp]: "length (ehdr_bytes phnum phoff) = 64" "length (phdr_bytes fl vaddr filesz memsz) = 56"
  by (simp_all add: ehdr_bytes_def phdr_bytes_def ELFMAG_def)

lemma get_ehdr_bytes:
  assumes "phnum < 2 ^ 16" "phoff < 2 ^ 64"
  shows "elf_check (get_ehdr (ehdr_bytes phnum phoff))" "e_type (get_ehdr (ehdr_bytes phnum phoff)) = ET_DYN"
    "e_phnum (get_ehdr (ehdr_bytes phnum phoff)) = of_nat phnum" "e_entry (get_ehdr (ehdr_bytes phnum phoff)) = 0"
    "e_phoff (get_ehdr (ehdr_bytes phnum phoff)) = of_nat phoff"
  using assms
  by (simp_all add: get_ehdr_def fld_def ehdr_bytes_def ELFMAG_def le_nat_bytes elf_check_def EI_CLASS_def
      ELFCLASS64_def EV_CURRENT_def ET_DYN_def)

lemma get_phdr_bytes:
  assumes "fl < 2 ^ 32" "vaddr < 2 ^ 64" "filesz < 2 ^ 64" "memsz < 2 ^ 64"
  shows "get_phdr (phdr_bytes fl vaddr filesz memsz) = \<lparr>p_type = PT_LOAD, p_flags = of_nat fl, p_offset = 0,
    p_vaddr = of_nat vaddr, p_filesz = of_nat filesz, p_memsz = of_nat memsz, p_align = 4096\<rparr>"
  using assms by (simp add: get_phdr_def fld_def phdr_bytes_def le_nat_bytes PT_LOAD_def)

text \<open>A program of two segments: code, and data of which a part is in the file. The file of 4096 bytes
  is mapped.\<close>

definition mapped_prog :: file_buf where
  "mapped_prog = \<lparr>bf_fd = 3, bf_data = ehdr_bytes 2 64 @ phdr_bytes 5 0 100 4096 @ phdr_bytes 6 4096 100 4096\<rparr>"

definition page_env :: host_env where
  "page_env = demo_env\<lparr>he_fsize := (\<lambda>fd. 4096)\<rparr>"

lemma mapped_prog_fits: "file_fits page_env 4096 False mapped_prog"
proof -
  have f: "file_ok mapped_prog" by (simp add: file_ok_def mapped_prog_def)
  have h: "buf_read mapped_prog 64 0 = ehdr_bytes 2 64" by (simp add: buf_read_eq [OF f]) (simp add: mapped_prog_def)
  have rd: "buf_read mapped_prog 112 64 = phdr_bytes 5 0 100 4096 @ phdr_bytes 6 4096 100 4096"
    by (simp add: buf_read_eq [OF f]) (simp add: mapped_prog_def)
  have ph: "read_phdrs mapped_prog (get_ehdr (ehdr_bytes 2 64)) =
      Some [get_phdr (phdr_bytes 5 0 100 4096), get_phdr (phdr_bytes 6 4096 100 4096)]"
    by (simp add: read_phdrs_def get_ehdr_bytes PHDR_SIZE_def rd elems_def upt_rec)
  show ?thesis
    by (simp add: file_fits_def EHDR_SIZE_def h ph phdr_fits_def get_phdr_bytes seg_fits_def page_env_def pflags_def
        has_flag_def lfi_flags PF_X_def PF_R_def PF_W_def truncp_def ceilp_def Let_def)
qed


subsection \<open>Remapping an interpreter after an empty program\<close>

text \<open>
  In the remap mode an executable segment is moved over the pages at its address before any
  check that they belong to the box. The interpreter is loaded after the last byte of the
  program; a program without a loadable segment has none, so that this address is 0.
\<close>

definition empty_prog :: file_buf where
  "empty_prog = \<lparr>bf_fd = -1, bf_data = ehdr_bytes 0 0\<rparr>"

definition code_interp :: file_buf where
  "code_interp = \<lparr>bf_fd = -1, bf_data = ehdr_bytes 1 64 @ phdr_bytes 5 0x20000 100 4096\<rparr>"

definition own_pages :: remap_src where
  "own_pages = \<lparr>rs_aligned = True, rs_acc = read_write\<rparr>"

lemma empty_prog_load:
  "elf_load_one e ar rs True bti base ps op (empty_prog, bm) =
     Some (Some (0, 0, base, get_ehdr (ehdr_bytes 0 0)), empty_prog, bm)"
proof -
  have f: "file_ok empty_prog" by (simp add: file_ok_def empty_prog_def)
  have h: "buf_read empty_prog 64 0 = ehdr_bytes 0 0" by (simp add: buf_read_eq [OF f]) (simp add: empty_prog_def)
  have ph: "read_phdrs empty_prog (get_ehdr (ehdr_bytes 0 0)) = Some []"
    by (simp add: read_phdrs_def get_ehdr_bytes buf_read_eq [OF f] elems_def)
  have sz: "bf_size empty_prog = 64" by (simp add: bf_size_def empty_prog_def)
  show ?thesis
    by (simp add: elf_load_one_def EHDR_SIZE_def h ph sz get_ehdr_bytes PHNUM_MAX_def CODE_MAX_def Let_def)
qed

lemma code_interp_load:
  "elf_load_one e ar rs True False 0 4096 op (code_interp, bm) =
     seg_loop e ar rs op False 4096 0 [\<lparr>p_type = PT_LOAD, p_flags = 5, p_offset = 0, p_vaddr = 0x20000,
       p_filesz = 100, p_memsz = 4096, p_align = 4096\<rparr>] (0, 0, 0) (code_interp, bm) \<bind>
     (\<lambda>(r, s). case r of None \<Rightarrow> Some (None, s)
        | Some (first, hi, base) \<Rightarrow>
            Some (Some (first, hi, base + e_entry (get_ehdr (ehdr_bytes 1 64)), get_ehdr (ehdr_bytes 1 64)), s))"
proof -
  have f: "file_ok code_interp" by (simp add: file_ok_def code_interp_def)
  have h: "buf_read code_interp 64 0 = ehdr_bytes 1 64"
    by (simp add: buf_read_eq [OF f]) (simp add: code_interp_def)
  have rd: "buf_read code_interp 56 64 = phdr_bytes 5 0x20000 100 4096"
    by (simp add: buf_read_eq [OF f]) (simp add: code_interp_def)
  have ph: "read_phdrs code_interp (get_ehdr (ehdr_bytes 1 64)) = Some [\<lparr>p_type = PT_LOAD, p_flags = 5, p_offset = 0,
      p_vaddr = 0x20000, p_filesz = 100, p_memsz = 4096, p_align = 4096\<rparr>]"
    by (simp add: read_phdrs_def get_ehdr_bytes PHDR_SIZE_def rd elems_def get_phdr_bytes)
  have sz: "bf_size code_interp = 120" by (simp add: bf_size_def code_interp_def)
  show ?thesis
    by (simp add: elf_load_one_def EHDR_SIZE_def h ph sz get_ehdr_bytes PHNUM_MAX_def CODE_MAX_def Let_def
        del: seg_loop.simps One_nat_def)
qed

lemma demo_numbers:
  "truncp 0x20000 0x1000 = 0x20000" "ceilp 0x21000 0x1000 = 0x21000" "truncp 0 0x1000 = 0" "ceilp 120 0x1000 = 0x1000"
  "(0x1000 AND 0xFFF :: u64) = 0"
  by (simp_all add: truncp_def ceilp_def Let_def)

text \<open>C38: In the remap mode loading can leave the box. With a program that has no loadable segment
  and an interpreter with an executable one, the host page at the interpreter's address 0x20000,
  outside the box and without access before, is replaced by a page the caller can read and
  write; the loader then reports an error.\<close>

theorem remap_leaves_box:
  "\<exists>b' m'. elf_load demo_env X64 own_pages True False False empty_prog (Some code_interp) ELF_REMAP (demo_box, demo_vm) =
     Some (None, empty_prog, b', m') \<and> \<not> box_page demo_box 0x20 \<and>
     vm_acc demo_vm 0x20 = no_access \<and> vm_acc m' 0x20 = read_write"
proof -
  define m1 where "m1 = snd (vm_mremap demo_env 4096 0x20000 0x1000 read_write (bf_data code_interp) 0 demo_vm)"
  have mr: "vm_mremap demo_env 4096 0x20000 0x1000 read_write (bf_data code_interp) 0 demo_vm = (True, m1)"
    by (simp add: m1_def vm_mremap_def demo_env_def page_aligned_def Let_def)
  have acc: "vm_acc m1 k = (if in_pages 4096 0x20000 0x1000 k then read_write else no_access)" for k
    by (simp add: m1_def vm_mremap_def demo_env_def page_aligned_def Let_def) (simp add: demo_vm_def)
  have past: "\<not> vm_past m1 k" for k
    by (simp add: m1_def vm_mremap_def demo_env_def page_aligned_def Let_def) (simp add: demo_vm_def)
  define m2 where "m2 = vm_tick demo_env 4096 m1"
  have "pages_have acc_r 4096 m2 0x20000 (unat (0x1000 :: u64))"
    by (rule pages_have_part [of _ "0x20000" "0x1000"]) (simp_all add: m2_def acc past read_write_def)
  then have rd: "pages_have acc_r 4096 m2 0x20000 4096" by simp
  have reg: "lfi_box_mapat_register demo_env 0x20000 0x1000 pr fl fd off (demo_box, m1) = Some (-1, demo_box, m1)"
    for pr fl fd off
    by (simp add: lfi_box_mapat_register_def lfi_box_bufvalid_def demo_box_def)
  have ok: "he_ok demo_env i c" for i c by (simp add: demo_env_def)
  have sz: "bf_size code_interp = 120" by (simp add: bf_size_def code_interp_def)
  define f' where "f' = put_bytes 0 (vm_bytes m2 0x20000 0x1000) code_interp"
  have remap: "seg_remap demo_env own_pages 0x20000 0x21000 0 pr 0x1000 (code_interp, demo_box, demo_vm) =
      Some (Some (-1), f', demo_box, m2)" for pr
    using mr rd [unfolded m2_def] reg ok
    by (simp add: seg_remap_def own_pages_def demo_numbers demo_box_ok(3) sz m2_def f'_def Let_def)
  have exec: "has_flag (pflags 5 False) LFI_PROT_EXEC"
    by (simp add: pflags_def has_flag_def lfi_flags PF_X_def PF_R_def PF_W_def)
  have seg: "buf_read_elfseg demo_env X64 own_pages 0x20000 0 0x21000 0 100 0x1000 (pflags 5 False) 0x1000 0x1000 ELF_REMAP
      (code_interp, demo_box, demo_vm) = Some (False, f', demo_box, m2)"
    using remap exec by (simp add: buf_read_elfseg_def Let_def)
  have "elf_load_one demo_env X64 own_pages True False 0 4096 ELF_REMAP (code_interp, demo_box, demo_vm) =
      Some (None, f', demo_box, m2)"
    unfolding code_interp_load using seg by (simp add: demo_numbers CODE_MAX_def Let_def)
  then have "elf_load demo_env X64 own_pages True False False empty_prog (Some code_interp) ELF_REMAP (demo_box, demo_vm) =
      Some (None, empty_prog, demo_box, m2)"
    by (simp add: elf_load_def empty_prog_load demo_box_ok(3) Let_def)
  moreover have "vm_acc m2 0x20 = read_write" by (simp add: m2_def acc in_pages_def pg_def)
  ultimately show ?thesis by (simp add: box_page_def demo_box_ok(3)) (simp add: demo_box_def demo_vm_def)
qed

end
