(* ===== verification/Process.thy ===== *)
theory Process
  imports ElfSym ElfSafe MemSys PathResolve
begin

text \<open>
  Processes, \<^verbatim>\<open>linux/proc.c\<close>: creation, the working directory, loading a program with its
  interpreter, its symbols and its heap, and release. Threads, the futex table and the paths
  kept for a debugger are not part of the model; the descriptor and the bytes \<^verbatim>\<open>buf_read_file\<close>
  gets for a host path are the argument \<open>files\<close>, the result of \<^verbatim>\<open>host_checkdir\<close> is \<open>chk\<close>.
\<close>

unbundle bit_operations_syntax

record linux_proc =
  lp_mem :: mem_proc
  lp_entry :: u64
  lp_elfinfo :: elf_info
  lp_dynsym :: elf_section
  lp_dynstr :: elf_section
  lp_libsyms :: lib_symbols
  lp_cwd :: string
  lp_dir_maps :: "string list option"

definition LINUX_ENOENT :: int where "LINUX_ENOENT = 2"

subsection \<open>The working directory\<close>

definition chdircheck :: "(string \<Rightarrow> int) \<Rightarrow> linux_proc \<Rightarrow> string \<Rightarrow> int run" where
  "chdircheck chk p path = do {
     r \<leftarrow> path_resolve (lp_cwd p) (lp_dir_maps p) path local_buffer;
     Some (case r of None \<Rightarrow> - LINUX_ENOENT | Some resolved \<Rightarrow> chk resolved)
   }"

definition proc_chdir :: "(string \<Rightarrow> int) \<Rightarrow> string \<Rightarrow> linux_proc \<Rightarrow> (int \<times> linux_proc) run" where
  "proc_chdir chk path p =
     (if cwk_path_is_absolute UNIX path then do {
        r \<leftarrow> chdircheck chk p path;
        if r < 0 then Some (r, p) else Some (0, p\<lparr>lp_cwd := take (FILENAME_MAX - 1) path\<rparr>)
      }
      else if lp_cwd p = [] then Some (- LINUX_ENOENT, p)
      else do {
        (joined, _) \<leftarrow> cwk_path_join UNIX (lp_cwd p) path local_buffer;
        r \<leftarrow> chdircheck chk p (cstr joined);
        if r < 0 then Some (r, p) else Some (0, p\<lparr>lp_cwd := take (FILENAME_MAX - 1) (cstr joined)\<rparr>)
      })"

subsection \<open>Creation and release\<close>

definition no_elf_info :: elf_info where
  "no_elf_info = \<lparr>ei_lastva = 0, ei_elfentry = 0, ei_ldentry = 0, ei_elfbase = 0, ei_ldbase = 0,
     ei_elfphoff = 0, ei_elfphnum = 0, ei_elfphentsize = 0\<rparr>"

definition blank_proc :: "lfi_box \<Rightarrow> string list option \<Rightarrow> bool \<Rightarrow> u64 \<Rightarrow> linux_proc" where
  "blank_proc b dir_maps brk_control brk_size =
     \<lparr>lp_mem = \<lparr>mp_box = b, mp_brkbase = 0, mp_brksize = 0, mp_fdtable = fd_empty_table,
                mp_brk_control = brk_control, mp_brk_size = brk_size\<rparr>,
      lp_entry = 0, lp_elfinfo = no_elf_info, lp_dynsym = no_section, lp_dynstr = no_section,
      lp_libsyms = blank_libs, lp_cwd = [], lp_dir_maps = dir_maps\<rparr>"

text \<open>
  The arguments after the options: the success of the allocations, the tracker's seed, the
  address of the process, the engine's options (directory mappings, heap, working directory,
  descriptor passing) and the descriptors \<^verbatim>\<open>dup\<close> gives.
\<close>

definition lfi_proc_new ::
  "host_env \<Rightarrow> arch \<Rightarrow> lfi_options \<Rightarrow> bool \<Rightarrow> bool \<Rightarrow> bool \<Rightarrow> u64 \<Rightarrow> bool \<Rightarrow> u64 \<Rightarrow>
   string list option \<Rightarrow> bool \<times> u64 \<Rightarrow> string option \<Rightarrow> bool \<times> bool \<Rightarrow> int \<times> int \<times> int \<Rightarrow> (string \<Rightarrow> int) \<Rightarrow>
   boxmap \<times> host_files \<times> vm \<Rightarrow> (linux_proc option \<times> boxmap \<times> host_files \<times> vm) run" where
  "lfi_proc_new e ar opts ok_malloc ok_lock ok_mm seed ok_proc self dir_maps brk wd fdopts news chk s = (case s of (bm, h, m) \<Rightarrow> do {
     (r, bm, m) \<leftarrow> lfi_box_new e ar opts ok_malloc ok_lock ok_mm seed bm m;
     case r of
       Inl _ \<Rightarrow> Some (None, bm, h, m)
     | Inr b \<Rightarrow>
         if \<not> ok_proc then do {
           (bm, m) \<leftarrow> lfi_box_free e ar bm (b, m);
           Some (None, bm, h, m)
         }
         else do {
           let p = blank_proc b dir_maps (fst brk) (snd brk);
           (r, p) \<leftarrow> (case wd of None \<Rightarrow> Some (0, p) | Some d \<Rightarrow> proc_chdir chk d p);
           if r \<noteq> 0 then Some (None, bm, h, m)
           else do {
             let mp = lp_mem p;
             let (t, h) = fdinit (fst fdopts) (snd fdopts) news h;
             Some (Some (p\<lparr>lp_mem := mp\<lparr>mp_box := b\<lparr>bx_userdata := self\<rparr>, mp_fdtable := t\<rparr>\<rparr>), bm, h, m)
           }
         }
   })"

definition proc_destroy ::
  "host_env \<Rightarrow> arch \<Rightarrow> linux_proc \<Rightarrow> boxmap \<times> host_files \<times> vm \<Rightarrow> (boxmap \<times> host_files \<times> vm) run" where
  "proc_destroy e ar p s = (case s of (bm, h, m) \<Rightarrow> do {
     (bm, m) \<leftarrow> lfi_box_free e ar bm (mp_box (lp_mem p), m);
     let h = snd (fdfree (mp_fdtable (lp_mem p)) h);
     Some (bm, h, m)
   })"

subsection \<open>Loading\<close>

definition sym_view :: "linux_proc \<Rightarrow> sym_proc" where
  "sym_view p = \<lparr>yp_box = mp_box (lp_mem p), yp_elfbase = ei_elfbase (lp_elfinfo p), yp_dynsym = lp_dynsym p,
     yp_dynstr = lp_dynstr p, yp_libsyms = lp_libsyms p\<rparr>"

definition put_syms :: "sym_proc \<Rightarrow> linux_proc \<Rightarrow> linux_proc" where
  "put_syms y p = p\<lparr>lp_dynsym := yp_dynsym y, lp_dynstr := yp_dynstr y, lp_libsyms := yp_libsyms y\<rparr>"

definition text_of :: "u8 list \<Rightarrow> string" where
  "text_of bs = map (\<lambda>b. char_of (unat b)) bs"

text \<open>
  The interpreter: \<open>dyld\<close> is the build option \<^verbatim>\<open>CONFIG_ENABLE_DYLD\<close>. The result is false for the
  error exit, and the file to load, if any; the interpreter of a program loaded from memory
  is not mapped from its file.
\<close>

definition find_interp ::
  "bool \<Rightarrow> bool \<Rightarrow> (string \<Rightarrow> file_buf option) \<Rightarrow> file_buf \<Rightarrow> linux_proc \<Rightarrow> (bool \<times> file_buf option) run" where
  "find_interp ok dyld files prog p =
     (case elf_interp ok prog of
        None \<Rightarrow> Some (True, None)
      | Some ip \<Rightarrow>
          if ip = ascii ''lfi'' then Some (True, None)
          else if \<not> dyld then Some (True, None)
          else if cwk_path_is_absolute UNIX (text_of ip) then do {
            r \<leftarrow> path_resolve (lp_cwd p) (lp_dir_maps p) (text_of ip) local_buffer;
            Some (case r of
                None \<Rightarrow> (False, None)
              | Some host \<Rightarrow>
                  (case files host of
                     None \<Rightarrow> (False, None)
                   | Some f \<Rightarrow> (True, Some (if bf_fd prog = -1 then f\<lparr>bf_fd := -1\<rparr> else f))))
          }
          else Some (True, None))"

definition proc_load ::
  "host_env \<Rightarrow> arch \<Rightarrow> remap_src \<Rightarrow> bool \<times> bool \<times> bool \<Rightarrow> bool \<Rightarrow> bool \<Rightarrow> bool \<Rightarrow> (string \<Rightarrow> file_buf option) \<Rightarrow>
   file_buf \<Rightarrow> map_op \<Rightarrow> linux_proc \<times> vm \<Rightarrow> (bool \<times> linux_proc \<times> vm) run" where
  "proc_load e ar rs oks dyld bti bti_ld files prog op s = (case s of (p, m) \<Rightarrow> case oks of (ok, ok1, ok2) \<Rightarrow> do {
     (found, interp) \<leftarrow> find_interp ok dyld files prog p;
     if \<not> found then Some (False, p, m)
     else do {
       (res, prog, b, m) \<leftarrow> elf_load e ar rs ok bti bti_ld prog interp op (mp_box (lp_mem p), m);
       let mp = (lp_mem p)\<lparr>mp_box := b\<rparr>;
       let p = p\<lparr>lp_mem := mp\<rparr>;
       case res of
         None \<Rightarrow> Some (False, p, m)
       | Some li \<Rightarrow> do {
           let p = p\<lparr>lp_entry := (if interp \<noteq> None then ei_ldentry li else ei_elfentry li),
                     lp_elfinfo := li\<rparr>;
           (_, y) \<leftarrow> elf_loadsyms ok1 ok2 prog (sym_view p);
           let mp = mp\<lparr>mp_brkbase := ei_lastva li, mp_brksize := 0\<rparr>;
           let p = (put_syms y p)\<lparr>lp_mem := mp\<rparr>;
           let brkmaxsize = (if mp_brk_control mp then mp_brk_size mp else BRKMAXSIZE);
           if brkmaxsize > 0 then do {
             (r, b, m) \<leftarrow> lfi_box_mapat e (mp_brkbase mp) brkmaxsize LFI_PROT_NONE
                             (LFI_MAP_PRIVATE OR LFI_MAP_ANONYMOUS) (-1) 0 (b, m);
             Some (r \<noteq> -1, p\<lparr>lp_mem := mp\<lparr>mp_box := b\<rparr>\<rparr>, m)
           }
           else Some (True, p, m)
         }
     }
   })"

text \<open>The exported operations choose the source and the way to map it.\<close>

definition lfi_proc_load ::
  "host_env \<Rightarrow> arch \<Rightarrow> bool \<times> bool \<times> bool \<Rightarrow> bool \<Rightarrow> bool \<Rightarrow> bool \<Rightarrow> (string \<Rightarrow> file_buf option) \<Rightarrow> u8 list \<Rightarrow>
   linux_proc \<times> vm \<Rightarrow> (bool \<times> linux_proc \<times> vm) run" where
  "lfi_proc_load e ar oks dyld bti bti_ld files prog s =
     proc_load e ar \<lparr>rs_aligned = False, rs_acc = no_access\<rparr> oks dyld bti bti_ld files
       \<lparr>bf_fd = -1, bf_data = prog\<rparr> ELF_MAP s"

definition lfi_proc_load_remap ::
  "host_env \<Rightarrow> arch \<Rightarrow> remap_src \<Rightarrow> bool \<times> bool \<times> bool \<Rightarrow> bool \<Rightarrow> bool \<Rightarrow> bool \<Rightarrow> (string \<Rightarrow> file_buf option) \<Rightarrow>
   u8 list \<Rightarrow> linux_proc \<times> vm \<Rightarrow> (bool \<times> linux_proc \<times> vm) run" where
  "lfi_proc_load_remap e ar rs oks dyld bti bti_ld files prog s =
     proc_load e ar rs oks dyld bti bti_ld files \<lparr>bf_fd = -1, bf_data = prog\<rparr> ELF_REMAP s"

text \<open>\<open>ok_size\<close> and \<open>ok_map\<close>: whether \<^verbatim>\<open>lseek\<close> and \<^verbatim>\<open>mmap\<close> of the program's file succeed.\<close>

definition lfi_proc_load_fd ::
  "host_env \<Rightarrow> arch \<Rightarrow> bool \<times> bool \<times> bool \<Rightarrow> bool \<Rightarrow> bool \<Rightarrow> bool \<Rightarrow> (string \<Rightarrow> file_buf option) \<Rightarrow> bool \<Rightarrow> bool \<Rightarrow>
   file_buf \<Rightarrow> linux_proc \<times> vm \<Rightarrow> (bool \<times> linux_proc \<times> vm) run" where
  "lfi_proc_load_fd e ar oks dyld bti bti_ld files ok_size ok_map prog s =
     (if \<not> ok_size then Some (False, s)
      else if \<not> ok_map then Some (False, s)
      else proc_load e ar \<lparr>rs_aligned = False, rs_acc = no_access\<rparr> oks dyld bti bti_ld files prog ELF_MAP s)"

definition lfi_proc_load_file ::
  "host_env \<Rightarrow> arch \<Rightarrow> bool \<times> bool \<times> bool \<Rightarrow> bool \<Rightarrow> bool \<Rightarrow> bool \<Rightarrow> (string \<Rightarrow> file_buf option) \<Rightarrow> bool \<Rightarrow> bool \<Rightarrow>
   file_buf option \<Rightarrow> linux_proc \<times> vm \<Rightarrow> (bool \<times> linux_proc \<times> vm) run" where
  "lfi_proc_load_file e ar oks dyld bti bti_ld files ok_size ok_map opened s =
     (case opened of
        None \<Rightarrow> Some (False, s)
      | Some prog \<Rightarrow> lfi_proc_load_fd e ar oks dyld bti bti_ld files ok_size ok_map prog s)"

subsection \<open>Paths fit the buffers\<close>

lemma length_add_segs: "length (add_segs has ts) \<le> sum_list (map (\<lambda>t. length t + 1) ts)"
  by (induction has ts rule: add_segs.induct) auto

lemma length_canon: "sum_list (map (\<lambda>t. length t + 1) (canon acc ts)) \<le>
    sum_list (map (\<lambda>t. length t + 1) acc) + sum_list (map (\<lambda>t. length t + 1) ts)"
proof (induction acc ts rule: canon.induct)
  case (2 acc t ts)
  have "sum_list (map (\<lambda>t. length t + 1) (tl acc)) \<le> sum_list (map (\<lambda>t. length t + 1) acc)"
    by (cases acc) auto
  then show ?case using 2 by auto
qed (simp add: rev_map [symmetric])

lemma length_segs: "sum_list (map (\<lambda>t. length t + 1) (segs s)) \<le> length s + (if take 1 s = [SL] then 0 else 1)"
proof (induction s rule: segs.induct)
  case (1 s)
  let ?t = "dropWhile (\<lambda>c. c = SL) s" and ?sum = "\<lambda>s. sum_list (map (\<lambda>t. length t + 1) (segs s))"
  show ?case
  proof (cases "?t = []")
    case True
    then have "segs s = []" using segs.simps [of s] by (simp add: Let_def)
    then show ?thesis by simp
  next
    case False
    let ?n = "takeWhile (\<lambda>c. c \<noteq> SL) ?t" and ?r = "dropWhile (\<lambda>c. c \<noteq> SL) ?t"
    have s: "segs s = ?n # segs ?r" using False segs.simps [of s] by (simp only: Let_def if_False)
    have len: "length ?n + length ?r = length ?t" by (metis length_append takeWhile_dropWhile_id)
    have rest: "?sum ?r \<le> length ?r"
    proof (cases ?r)
      case Nil
      have "segs [] = []" using segs.simps [of "[]"] by simp
      then show ?thesis unfolding Nil by simp
    next
      case (Cons c u)
      then have "c = SL" using hd_dropWhile [of "\<lambda>c. c \<noteq> SL" ?t] by simp
      then have "take 1 ?r = [SL]" using Cons by simp
      then show ?thesis using "1.IH" [OF refl False] by simp
    qed
    have "?sum s \<le> length ?t + 1" unfolding s using rest len by simp
    moreover have "length ?t + (if take 1 s = [SL] then 1 else 0) \<le> length s"
    proof (cases s)
      case (Cons c u)
      then show ?thesis using length_dropWhile_le [of "\<lambda>c. c = SL" u] by simp
    qed (use False in simp)
    ultimately show ?thesis by (auto split: if_splits)
  qed
qed

lemma length_sandbox_path:
  assumes "cwk_path_is_absolute UNIX path"
  shows "length (abs_path (sandbox_names cwd path)) \<le> length path + 2"
proof -
  let ?w = "\<lambda>ts. sum_list (map (\<lambda>t. length t + 1) ts)"
  have "length (abs_path (sandbox_names cwd path)) \<le> 1 + ?w (canon [] (segs path))"
    using length_add_segs assms by (simp add: abs_path_def sandbox_names_def)
  also have "\<dots> \<le> 1 + ?w (segs path)" using length_canon [of "[]" "segs path"] by simp
  also have "\<dots> \<le> length path + 2" using length_segs [of path] by (auto split: if_splits)
  finally show ?thesis .
qed

definition maps_ok :: "linux_proc \<Rightarrow> bool" where
  "maps_ok p \<longleftrightarrow> nonul (lp_cwd p) \<and> (\<forall>maps. lp_dir_maps p = Some maps \<longrightarrow> (\<forall>m \<in> set maps. nonul m))"

lemma resolve_total:
  assumes p: "maps_ok p" and path: "nonul path" "cwk_path_is_absolute UNIX path" "length path + 2 < FILENAME_MAX"
  shows "\<exists>r. path_resolve (lp_cwd p) (lp_dir_maps p) path buf = Some r"
proof -
  have nn: "nonul (lp_cwd p)" using p by (simp add: maps_ok_def)
  have fits: "length (abs_path (sandbox_names (lp_cwd p) path)) < FILENAME_MAX"
    using length_sandbox_path [OF path(2), of "lp_cwd p"] path(3) by linarith
  show ?thesis
  proof (cases "lp_dir_maps p")
    case None
    obtain q b n where "(if \<not> cwk_path_is_absolute UNIX path
              then map_option (\<lambda>(b, _). cstr b) (cwk_path_join UNIX (lp_cwd p) path local_buffer)
              else Some path) = Some q" "cwk_path_normalize UNIX q local_buffer = Some (b, n)"
      using resolve_normalized [OF nn path(1) disjI1 [OF path(2)] fits] by blast
    then show ?thesis using path(2) None by (simp add: path_resolve_def)
  next
    case (Some maps)
    then have "\<forall>m \<in> set maps. nonul m" using p by (simp add: maps_ok_def)
    from path_resolve_eq [OF nn path(1) this disjI1 [OF path(2)] fits, of buf] Some
    show ?thesis by (elim exE conjE) (rule exI, simp only:)
  qed
qed

lemma elf_interp_props:
  assumes "elf_interp ok f = Some ip"
  shows "length ip < 1024" "nonul (text_of ip)"
proof -
  have loop: "\<exists>bs. ip = cstring (bs @ [0]) \<and> length bs < 1024" if "interp_loop ok f ps = Some ip" for ps
    using that
    by (induction ps) (auto simp: INTERP_MAX_def Let_def word_le_nat_alt not_le split: if_splits)
  obtain bs where ip: "ip = cstring (bs @ [0])" "length bs < 1024"
    using assms loop by (auto simp: elf_interp_def Let_def split: if_splits option.splits)
  have "length ip \<le> length bs" unfolding ip by (simp add: cstring_def takeWhile_append)
    (metis length_takeWhile_le)
  then show "length ip < 1024" using ip(2) by simp
  have "\<forall>c \<in> set ip. c \<noteq> 0" unfolding ip(1) cstring_def by (auto dest: set_takeWhileD)
  moreover have False if "c \<noteq> 0" "NUL = char_of (unat c)" for c :: u8
  proof -
    from that(2) have "char_of (unat c) = NUL" by simp
    then have "of_char (char_of (unat c) :: char) = (0 :: nat)" by simp
    then have "unat c mod 256 = 0" by simp
    moreover have "unat c < 2 ^ LENGTH(8)" by (rule unsigned_less)
    ultimately have "unat c = 0" by simp
    then show False using that by (simp add: unsigned_eq_0_iff)
  qed
  ultimately show "nonul (text_of ip)" unfolding nonul_def text_of_def set_map by blast
qed

lemma find_interp_total:
  assumes "maps_ok p"
  shows "\<exists>found interp. find_interp ok dyld files prog p = Some (found, interp)"
proof (cases "elf_interp ok prog")
  case (Some ip)
  note props = elf_interp_props [OF Some]
  show ?thesis
  proof (cases "ip = ascii ''lfi'' \<or> \<not> dyld \<or> \<not> cwk_path_is_absolute UNIX (text_of ip)")
    case True
    then show ?thesis using Some by (auto simp: find_interp_def)
  next
    case False
    have "length (text_of ip) + 2 < FILENAME_MAX" using props(1) by (simp add: text_of_def FILENAME_MAX_def)
    then obtain r where r: "path_resolve (lp_cwd p) (lp_dir_maps p) (text_of ip) local_buffer = Some r"
      using resolve_total [OF assms props(2)] False by blast
    obtain x y where "(case r of None \<Rightarrow> (False, None)
              | Some host \<Rightarrow>
                  (case files host of
                     None \<Rightarrow> (False, None)
                   | Some f \<Rightarrow> (True, Some (if bf_fd prog = -1 then f\<lparr>bf_fd := -1\<rparr> else f)))) = (x, y)"
      by (meson surj_pair)
    then show ?thesis using False Some r by (simp add: find_interp_def)
  qed
qed (auto simp: find_interp_def)

subsection \<open>A loaded process\<close>

text \<open>A mapping that is not executable need not be of whole pages.\<close>

lemma mapat_data_step:
  assumes c: "checked e b" and nx: "\<not> has_flag prot LFI_PROT_EXEC"
  shows "\<exists>r b' m'. lfi_box_mapat e addr n prot flags fd off (b, m) = Some (r, b', m') \<and> box_step e b m b' m'"
proof -
  note d = checkedD [OF c]
  obtain r b' m' where s: "box_mapat_locked e addr n prot flags fd off (b, m) = Some (r, b', m')"
    "box_effect e b m b' m'"
    using mapat_effect [OF d(1)] by blast
  have "x_safe e (bx_ps b) m' k" if x: "x_safe e (bx_ps b) m k" for k
  proof (cases "lfi_box_bufvalid b addr n")
    case False
    then show ?thesis using s(1) x by (simp add: box_mapat_locked_def)
  next
    case True
    obtain p calls mm where a: "map_at True addr n (info prot flags fd off) (bx_mm b) = Some (p, calls, mm)"
      using s(1) True by (auto simp: box_mapat_locked_def bind_eq_Some_conv)
    let ?m = "cbunmaps e b calls m"
    have c': "x_safe e (bx_ps b) ?m k" by (rule cbunmaps_x_safe [OF x])
    have v: "x_safe e (bx_ps b) (snd (mapverify e b p n prot flags fd off False ?m)) k"
      using mapmem_x_safe [OF nx c'] nx by (simp add: mapverify_def)
    have "m' = ?m \<or> m' = snd (mapverify e b p n prot flags fd off False ?m) \<or>
        (\<exists>cs. m' = cbunmaps e b cs (snd (mapverify e b p n prot flags fd off False ?m)))"
      using s(1) a True by (auto simp: box_mapat_locked_def Let_def split_beta split: if_splits)
    then show ?thesis using c' v cbunmaps_x_safe [OF v] by auto
  qed
  then show ?thesis using s by (simp add: lfi_box_mapat_def box_step_def)
qed

lemma prot_none [simp]: "\<not> has_flag LFI_PROT_NONE LFI_PROT_EXEC" "host_prot LFI_PROT_NONE = no_access"
  by (simp_all add: has_flag_def lfi_flags host_prot_def no_access_def)

lemma libsyms_box:
  "bx_min b' = bx_min b \<Longrightarrow> bx_max b' = bx_max b \<Longrightarrow> libsyms_ok b' ls = libsyms_ok b ls"
  by (simp add: libsyms_ok_def libsym_ok_def lfi_box_ptrvalid_def)

text \<open>The heap of a process is reserved: from the break base on, of the whole limit, in the box.\<close>

definition heap_ready :: "linux_proc \<Rightarrow> vm \<Rightarrow> bool" where
  "heap_ready p m \<longleftrightarrow> (let mp = lp_mem p in mp_brksize mp = 0 \<and>
     (brk_max mp > 0 \<longrightarrow> lfi_box_bufvalid (mp_box mp) (mp_brkbase mp) (brk_max mp) \<and>
       (\<forall>k. in_pages (bx_ps (mp_box mp)) (mp_brkbase mp) (brk_max mp) k \<longrightarrow> vm_acc m k = no_access)))"

lemma proc_load_step:
  assumes c: "checked e (mp_box (lp_mem p))" and op: "op \<noteq> ELF_REMAP" and f: "file_ok prog" and mo: "maps_ok p"
    and t: "tables_ok (sym_view p)" and l: "libsyms_ok (mp_box (lp_mem p)) (lp_libsyms p)"
    and fits: "op = ELF_MAP \<Longrightarrow> file_fits e (bx_ps (mp_box (lp_mem p))) bti prog"
      "\<And>found i. op = ELF_MAP \<Longrightarrow> find_interp ok dyld files prog p = Some (found, Some i) \<Longrightarrow>
         file_fits e (bx_ps (mp_box (lp_mem p))) bti_ld i"
  shows "\<exists>r p' m'. proc_load e ar rs (ok, ok1, ok2) dyld bti bti_ld files prog op (p, m) = Some (r, p', m') \<and>
    box_step e (mp_box (lp_mem p)) m (mp_box (lp_mem p')) m' \<and> (op = ELF_MAP \<longrightarrow> vm_fault m' = vm_fault m) \<and>
    libsyms_ok (mp_box (lp_mem p)) (lp_libsyms p') \<and> (r \<longrightarrow> heap_ready p' m')"
proof -
  let ?b = "mp_box (lp_mem p)"
  let ?run = "proc_load e ar rs (ok, ok1, ok2) dyld bti bti_ld files prog op (p, m)"
  note b = checkedD(1) [OF c]
  obtain found interp where fi: "find_interp ok dyld files prog p = Some (found, interp)"
    using find_interp_total [OF mo] by blast
  have fi_fits: "file_fits e (bx_ps ?b) bti_ld i" if "op = ELF_MAP" "interp = Some i" for i
    using fits(2) fi that by blast
  obtain r1 b1 m1 where el: "elf_load e ar rs ok bti bti_ld prog interp op (?b, m) = Some (r1, prog, b1, m1)"
    and st: "box_step e ?b m b1 m1" and q1: "op = ELF_MAP \<longrightarrow> vm_fault m1 = vm_fault m"
    using elf_load_step [OF c op fits(1) fi_fits] by blast
  show ?thesis
  proof (cases "\<not> found \<or> r1 = None")
    case True
    then consider "\<not> found" | "found" "r1 = None" by blast
    then show ?thesis
    proof cases
      case 1
      then show ?thesis using fi box_step_refl [OF b] l by (auto simp: proc_load_def)
    next
      case 2
      then show ?thesis using fi el st l q1 by (auto simp: proc_load_def Let_def)
    qed
  next
    case False
    then obtain li where li: "found" "r1 = Some li" by auto
    define p1 where "p1 = p\<lparr>lp_mem := (lp_mem p)\<lparr>mp_box := b1\<rparr>, lp_entry := (if interp \<noteq> None then ei_ldentry li else ei_elfentry li),
        lp_elfinfo := li\<rparr>"
    note bb = box_step_box [OF b st]
    have "tables_ok (sym_view p1)" "libsyms_ok (yp_box (sym_view p1)) (yp_libsyms (sym_view p1))"
      using t l libsyms_box [OF bb(4,5)] by (simp_all add: tables_ok_def sym_view_def p1_def)
    from elf_loadsyms_total [OF f this, of ok1 ok2] obtain ry y where
      y: "elf_loadsyms ok1 ok2 prog (sym_view p1) = Some (ry, y)" and ly: "libsyms_ok ?b (yp_libsyms y)"
      using libsyms_box [OF bb(4,5)] by (auto simp: sym_view_def p1_def)
    define mp where "mp = (lp_mem p)\<lparr>mp_box := b1, mp_brkbase := ei_lastva li, mp_brksize := 0\<rparr>"
    define p2 where "p2 = (put_syms y p1)\<lparr>lp_mem := mp\<rparr>"
    have run: "?run = (if brk_max mp > 0 then
        lfi_box_mapat e (mp_brkbase mp) (brk_max mp) LFI_PROT_NONE (LFI_MAP_PRIVATE OR LFI_MAP_ANONYMOUS) (-1) 0 (b1, m1) \<bind>
          (\<lambda>(r, b, m). Some (r \<noteq> -1, p2\<lparr>lp_mem := mp\<lparr>mp_box := b\<rparr>\<rparr>, m))
        else Some (True, p2, m1))"
      using fi el li y
      by (simp add: proc_load_def Let_def p1_def mp_def p2_def brk_max_def put_syms_def)
    have lib2: "libsyms_ok ?b (lp_libsyms p2)" using ly by (simp add: p2_def put_syms_def)
    show ?thesis
    proof (cases "brk_max mp > 0")
      case False
      have h: "heap_ready p2 m1" using False by (simp add: heap_ready_def p2_def mp_def Let_def brk_max_def)
      have "mp_box (lp_mem p2) = b1" by (simp add: p2_def mp_def)
      then show ?thesis using run False lib2 h st q1 by auto
    next
      case True
      obtain q b2 m2 where ma: "lfi_box_mapat e (mp_brkbase mp) (brk_max mp) LFI_PROT_NONE
          (LFI_MAP_PRIVATE OR LFI_MAP_ANONYMOUS) (-1) 0 (b1, m1) = Some (q, b2, m2)" and st2: "box_step e b1 m1 b2 m2"
        using mapat_data_step [OF checked_step [OF c st] prot_none(1)] by blast
      note cc = checked_step [OF c st]
      note b2 = box_step_box [OF checkedD(1) [OF cc] st2]
      have q2: "op = ELF_MAP \<longrightarrow> vm_fault m2 = vm_fault m" using mapat_quiet [OF cc _ ma] q1 by simp
      let ?p3 = "p2\<lparr>lp_mem := mp\<lparr>mp_box := b2\<rparr>\<rparr>"
      have run3: "?run = Some (q \<noteq> -1, ?p3, m2)" using run True ma by simp
      have "heap_ready ?p3 m2" if "q \<noteq> -1"
      proof -
        note ok = mapat_success [OF cc ma that]
        have "vm_acc m2 k = no_access" if "in_pages (bx_ps b2) (mp_brkbase mp) (brk_max mp) k" for k
          using ok(4) that b2(2) by simp
        moreover have "lfi_box_bufvalid b2 (mp_brkbase mp) (brk_max mp)"
          using ok(2) b2(4,5) by (simp add: lfi_box_bufvalid_def)
        moreover have "brk_max (mp\<lparr>mp_box := b2\<rparr>) = brk_max mp" by (simp add: brk_max_def)
        moreover have "mp_brksize mp = 0" by (simp add: mp_def)
        ultimately show ?thesis by (simp add: heap_ready_def Let_def)
      qed
      moreover have "box_step e ?b m b2 m2" by (rule box_step_trans [OF b st st2])
      moreover have "libsyms_ok ?b (lp_libsyms ?p3)" using lib2 by simp
      moreover have "mp_box (lp_mem ?p3) = b2" by simp
      ultimately show ?thesis
        by (intro exI [of _ "q \<noteq> -1"] exI [of _ ?p3] exI [of _ m2]) (use q2 in \<open>auto simp only: run3\<close>)
    qed
  qed
qed

lemma heap_bound:
  assumes "heap_ready p m"
  shows "mp_brksize (lp_mem p) = 0" "unat (mp_brkbase (lp_mem p)) + unat (brk_max (lp_mem p)) < 2 ^ 64"
proof -
  let ?B = "mp_brkbase (lp_mem p)" and ?M = "brk_max (lp_mem p)"
  show "mp_brksize (lp_mem p) = 0" using assms by (simp add: heap_ready_def Let_def)
  show "unat ?B + unat ?M < 2 ^ 64"
  proof (cases "?M > 0")
    case True
    then have "lfi_box_bufvalid (mp_box (lp_mem p)) ?B ?M" using assms by (simp add: heap_ready_def Let_def)
    then have "unat ?B + unat ?M \<le> unat (bx_max (mp_box (lp_mem p)))"
      by (auto simp: lfi_box_bufvalid_def word_le_nat_alt unat_sub64)
    moreover have "unat (bx_max (mp_box (lp_mem p))) < 2 ^ 64" by simp
    ultimately show ?thesis by linarith
  next
    case False
    then have "?M = 0" by (simp add: word_gt_0)
    moreover have "unat ?B < 2 ^ LENGTH(64)" by (rule unsigned_less)
    ultimately show ?thesis by simp
  qed
qed

text \<open>C13: Loading a program into a process is safe and leaves a heap the break can move in. Whatever
  the program and its interpreter hold and whatever system call but the lowering of rights
  fails, \<^verbatim>\<open>proc_load\<close> returns in every mode but the remap mode: no write faults and no
  assertion fails, and when it maps or copies the files the verifier reads no page that it
  cannot read. A program or interpreter that is mapped from its file has to be long enough for
  its segments (\<open>file_fits\<close>). Pages outside the
  box keep their access, executable pages of the box are not writable and hold verified
  code, and the library entry points taken from the symbols are null or bundle-aligned
  addresses in the box. On success the whole heap is reserved without access behind the
  last segment, inside the box, and its end does not overflow.\<close>

theorem proc_load_ready:
  assumes "box_ok (mp_box (lp_mem p))" "\<not> opt_no_verify (bx_opts (mp_box (lp_mem p)))"
    and "can_lower e" "files_stable e" "op \<noteq> ELF_REMAP" "file_ok prog" "maps_ok p"
    and "tables_ok (sym_view p)" "libsyms_ok (mp_box (lp_mem p)) (lp_libsyms p)"
    and "\<forall>k. box_page (mp_box (lp_mem p)) k \<longrightarrow> \<not> acc_x (vm_acc m k)"
    and "op = ELF_MAP \<longrightarrow> file_fits e (bx_ps (mp_box (lp_mem p))) bti prog \<and>
      (\<forall>found i. find_interp (fst oks) dyld files prog p = Some (found, Some i) \<longrightarrow>
         file_fits e (bx_ps (mp_box (lp_mem p))) bti_ld i)"
  shows "\<exists>r p' m'. proc_load e ar rs oks dyld bti bti_ld files prog op (p, m) = Some (r, p', m') \<and>
    box_ok (mp_box (lp_mem p')) \<and> (op = ELF_MAP \<longrightarrow> vm_fault m' = vm_fault m) \<and>
    (\<forall>k. \<not> box_page (mp_box (lp_mem p)) k \<longrightarrow> vm_acc m' k = vm_acc m k) \<and>
    (\<forall>k. box_page (mp_box (lp_mem p)) k \<and> acc_x (vm_acc m' k) \<longrightarrow>
       \<not> acc_w (vm_acc m' k) \<and> page_verified e (bx_ps (mp_box (lp_mem p))) m' k) \<and>
    libsyms_ok (mp_box (lp_mem p)) (lp_libsyms p') \<and>
    (r \<longrightarrow> heap_ready p' m' \<and> unat (mp_brkbase (lp_mem p')) + unat (brk_max (lp_mem p')) < 2 ^ 64)"
proof -
  let ?b = "mp_box (lp_mem p)"
  have c: "checked e ?b" using assms(1-3) by (simp add: checked_def)
  obtain ok ok1 ok2 where oks: "oks = (ok, ok1, ok2)" by (cases oks)
  obtain r p' m' where l: "proc_load e ar rs oks dyld bti bti_ld files prog op (p, m) = Some (r, p', m')"
    and st: "box_step e ?b m (mp_box (lp_mem p')) m'" and q: "op = ELF_MAP \<longrightarrow> vm_fault m' = vm_fault m"
    and ls: "libsyms_ok ?b (lp_libsyms p')" and h: "r \<longrightarrow> heap_ready p' m'"
    using proc_load_step [OF c assms(5-9), of bti ok dyld files bti_ld ar rs ok1 ok2 m] assms(11) unfolding oks by auto
  note s = box_step_box [OF assms(1) st]
  have "x_safe e (bx_ps ?b) m k" if "box_page ?b k" for k using assms(10) that by (simp add: x_safe_def)
  then have "x_safe e (bx_ps ?b) m' k" if "box_page ?b k" for k using s(7) that by blast
  then have x: "\<forall>k. box_page ?b k \<and> acc_x (vm_acc m' k) \<longrightarrow> \<not> acc_w (vm_acc m' k) \<and> page_verified e (bx_ps ?b) m' k"
    using assms(4) by (auto simp: x_safe_def)
  have k: "\<forall>k. \<not> box_page ?b k \<longrightarrow> vm_acc m' k = vm_acc m k" using s(6) by (simp add: keeps_def)
  have h': "r \<longrightarrow> heap_ready p' m' \<and> unat (mp_brkbase (lp_mem p')) + unat (brk_max (lp_mem p')) < 2 ^ 64"
    using h heap_bound(2) by blast
  show ?thesis by (intro exI conjI) (rule l, rule s(1), rule q, rule k, rule x, rule ls, rule h')
qed

definition demo_linux :: linux_proc where
  "demo_linux = blank_proc demo_box (Some [''/=/srv'']) True 0x1000"

lemma demo_linux_ok:
  "maps_ok demo_linux" "tables_ok (sym_view demo_linux)" "libsyms_ok demo_box (lp_libsyms demo_linux)"
  "mp_box (lp_mem demo_linux) = demo_box"
  by (simp_all add: demo_linux_def blank_proc_def maps_ok_def nonul_def tables_ok_def sym_view_def no_section_def
      sec_ok_def libsyms_ok_def blank_libs_def libsym_ok_def)

lemma mapped_prog_load:
  "file_ok mapped_prog" "find_interp True True Map.empty mapped_prog p = Some (True, None)"
proof -
  show f: "file_ok mapped_prog" by (simp add: file_ok_def mapped_prog_def)
  have h: "buf_read mapped_prog 64 0 = ehdr_bytes 2 64" by (simp add: buf_read_eq [OF f]) (simp add: mapped_prog_def)
  have rd: "buf_read mapped_prog 112 64 = phdr_bytes 5 0 100 4096 @ phdr_bytes 6 4096 100 4096"
    by (simp add: buf_read_eq [OF f]) (simp add: mapped_prog_def)
  have ph: "read_phdrs mapped_prog (get_ehdr (ehdr_bytes 2 64)) =
      Some [get_phdr (phdr_bytes 5 0 100 4096), get_phdr (phdr_bytes 6 4096 100 4096)]"
    by (simp add: read_phdrs_def get_ehdr_bytes PHDR_SIZE_def rd elems_def upt_rec)
  have sz: "bf_size mapped_prog = 176" by (simp add: bf_size_def mapped_prog_def)
  have "elf_interp True mapped_prog = None"
    by (simp add: elf_interp_def EHDR_SIZE_def h ph sz get_ehdr_bytes PHNUM_MAX_def get_phdr_bytes PT_LOAD_def
        PT_INTERP_def Let_def)
  then show "find_interp True True Map.empty mapped_prog p = Some (True, None)" by (simp add: find_interp_def)
qed

theorem proc_load_ready_witness:
  "\<exists>r p' m'. proc_load page_env X64 \<lparr>rs_aligned = True, rs_acc = no_access\<rparr> (True, True, True) True False False
      Map.empty mapped_prog ELF_MAP (demo_linux, demo_vm) = Some (r, p', m') \<and> \<not> vm_fault m' \<and>
    (\<forall>k. \<not> box_page demo_box k \<longrightarrow> vm_acc m' k = vm_acc demo_vm k) \<and> (r \<longrightarrow> heap_ready p' m')"
proof -
  have "can_lower page_env" by (simp add: can_lower_def page_env_def demo_env_def)
  moreover have "files_stable page_env" by (simp add: files_stable_def page_env_def demo_env_def)
  moreover have "ELF_MAP \<noteq> ELF_REMAP" by simp
  moreover have "\<forall>k. box_page demo_box k \<longrightarrow> \<not> acc_x (vm_acc demo_vm k)" "\<not> vm_fault demo_vm" by (simp_all add: demo_vm_def)
  ultimately show ?thesis
    using proc_load_ready [of demo_linux page_env ELF_MAP mapped_prog demo_vm False "(True, True, True)" True Map.empty
        False X64 "\<lparr>rs_aligned = True, rs_acc = no_access\<rparr>"]
      demo_linux_ok demo_box_ok mapped_prog_fits mapped_prog_load by auto
qed

subsection \<open>A refused working directory\<close>

text \<open>
  When the working directory of the options does not exist, \<^verbatim>\<open>lfi_proc_new\<close> returns null after
  the box was created: nothing gives its memory and its place in the pool back.
\<close>

lemma new_leaks_box:
  assumes "lfi_box_new e ar opts ok_malloc ok_lock ok_mm seed bm m = Some (Inr b, bm', m')"
    and "proc_chdir chk d (blank_proc b dir_maps (fst brk) (snd brk)) = Some (r, p)" "r \<noteq> 0"
  shows "lfi_proc_new e ar opts ok_malloc ok_lock ok_mm seed True self dir_maps brk (Some d) fdopts news chk (bm, h, m) =
    Some (None, bm', h, m')"
  using assms by (simp add: lfi_proc_new_def Let_def)

end
