(* ===== verification/SysBase.thy ===== *)
theory SysBase
  imports Process
begin

text \<open>
  What the system calls share, \<^verbatim>\<open>linux/sys/sys.h\<close>, \<^verbatim>\<open>linux/host.h\<close> and \<^verbatim>\<open>linux/host.c\<close>: checks and
  copies of sandbox buffers and paths, borrowed descriptors, host calls and their errors. A call
  runs on the state of its process and thread; besides a result it can stop: the host faults or
  fails an assertion, or the thread leaves the sandbox. The state at the stop is kept. Every
  host call, and every access of the runtime to sandbox memory, is recorded in a trace. What a
  host call answers is a parameter, which may depend on all calls before it.
\<close>

unbundle bit_operations_syntax

definition LINUX_EPERM :: int where "LINUX_EPERM = 1"
definition LINUX_ENXIO :: int where "LINUX_ENXIO = 6"
definition LINUX_EAGAIN :: int where "LINUX_EAGAIN = 11"
definition LINUX_EFAULT :: int where "LINUX_EFAULT = 14"
definition LINUX_ENOTDIR :: int where "LINUX_ENOTDIR = 20"
definition LINUX_EISDIR :: int where "LINUX_EISDIR = 21"
definition LINUX_ENOSYS :: int where "LINUX_ENOSYS = 38"
definition LINUX_AT_FDCWD :: int where "LINUX_AT_FDCWD = -100"
definition LINUX_AT_EMPTY_PATH :: u32 where "LINUX_AT_EMPTY_PATH = 0x1000"

lemmas sys_errno = errno_values LINUX_EACCES_def LINUX_ENOENT_def LINUX_EPERM_def LINUX_ENXIO_def LINUX_EAGAIN_def
  LINUX_EFAULT_def LINUX_ENOTDIR_def LINUX_EISDIR_def LINUX_ENOSYS_def

subsection \<open>Host errors\<close>

datatype host_errno = HENOSYS | HEINVAL | HENOENT | HEBADF | HEAGAIN | HEPERM | HENOMEM | HEACCES | HENOTDIR
  | HEMFILE | HEFAULT | HENXIO | HEOTHER

fun host_err :: "host_errno \<Rightarrow> int" where
  "host_err HENOSYS = - LINUX_ENOSYS"
| "host_err HEINVAL = - LINUX_EINVAL"
| "host_err HENOENT = - LINUX_ENOENT"
| "host_err HEBADF = - LINUX_EBADF"
| "host_err HEAGAIN = - LINUX_EAGAIN"
| "host_err HEPERM = - LINUX_EPERM"
| "host_err HENOMEM = - LINUX_ENOMEM"
| "host_err HEACCES = - LINUX_EACCES"
| "host_err HENOTDIR = - LINUX_ENOTDIR"
| "host_err HEMFILE = - LINUX_EMFILE"
| "host_err HEFAULT = - LINUX_EFAULT"
| "host_err HENXIO = - LINUX_ENXIO"
| "host_err HEOTHER = - LINUX_EINVAL"

subsection \<open>Host calls\<close>

text \<open>The kinds of host calls; \<open>KLoad\<close> and \<open>KStore\<close> are the runtime's own accesses to sandbox memory.\<close>

datatype host_kind = KRead | KPread | KWrite | KPwrite | KGetdents | KGetrandom | KReadlink | KOpen | KStat
  | KFstat | KChmod | KAccess | KMkdir | KUnlink | KRename | KTruncate | KFchmod | KFchown | KFsync | KFtruncate
  | KLseek | KWinsize | KClock | KNanosleep | KFutex | KTime | KSysinfo | KYield | KLoad | KStore

text \<open>A call: the open file it is about, host paths, numbers, and sandbox buffers it accesses.\<close>

record host_op =
  ho_kind :: host_kind
  ho_file :: "nat option"
  ho_paths :: "string list"
  ho_args :: "int list"
  ho_bufs :: "(u64 \<times> u64) list"

text \<open>What a successful call gives: its value, the bytes for its buffer, the numbers of a structure.\<close>

record host_res =
  hr_val :: int
  hr_bytes :: "u8 list"
  hr_nums :: "int list"

text \<open>
  The host: its memory calls, the answer to a call, the descriptor it takes for a new one
  (-1 for none), whether an allocation, \<^verbatim>\<open>dup2\<close>, a new context and \<^verbatim>\<open>pthread_create\<close> succeed, the
  number of processors, the numbers of its errors, and what uninitialized variables hold.
\<close>

record sys_host =
  sh_env :: host_env
  sh_arch :: arch
  sh_call :: "host_op list \<Rightarrow> host_op \<Rightarrow> host_errno + host_res"
  sh_new :: "host_op list \<Rightarrow> host_files \<Rightarrow> int"
  sh_ok :: "host_op list \<Rightarrow> bool"
  sh_dup2 :: "host_op list \<Rightarrow> bool"
  sh_ctx :: "host_op list \<Rightarrow> bool"
  sh_pthread :: "host_op list \<Rightarrow> bool"
  sh_cpus :: u32
  sh_errno :: "host_errno \<Rightarrow> int"
  sh_junk :: "host_op list \<Rightarrow> nat \<Rightarrow> int"

subsection \<open>The state of a call\<close>

text \<open>
  A thread with its context: besides the fields of \<^verbatim>\<open>LFILinuxThread\<close>, whether the context is in
  \<^verbatim>\<open>lfi_ctx_run\<close>, its thread pointer, stack pointer and result register. The process also counts
  its threads; \<open>ss_clone_ctx\<close> says that the thread's context is the clone context.
\<close>

datatype thread_owner = LFI_THREAD_MAIN | LFI_THREAD_RUNTIME | LFI_THREAD_HOST

record linux_thread =
  th_tid :: int
  th_ctidp :: u64
  th_stack :: u64
  th_stack_size :: u64
  th_owner :: thread_owner
  th_exited :: bool
  th_paused :: bool
  th_in_run :: bool
  th_tp :: u64
  th_sp :: u64
  th_ret :: int

record sys_state =
  ss_proc :: linux_proc
  ss_terminating :: bool
  ss_exit_code :: int
  ss_thread :: linux_thread
  ss_clone_ctx :: bool
  ss_thread_count :: int
  ss_spawned :: "linux_thread list"
  ss_new_ctx :: "linux_thread option"
  ss_files :: host_files
  ss_vm :: vm
  ss_log :: "host_op list"

text \<open>Why a call does not return: the host faults, fails an assertion or aborts; the thread leaves
  its run with a code; or a host thread's call into the sandbox ends.\<close>

datatype stop = Fault | Leave int | ReturnEnd

type_synonym 'a sys = "sys_state \<Rightarrow> (stop + 'a) \<times> sys_state"

definition sret :: "'a \<Rightarrow> 'a sys" where
  "sret x s = (Inr x, s)"

definition sstop :: "stop \<Rightarrow> 'a sys" where
  "sstop e s = (Inl e, s)"

definition sbind :: "'a sys \<Rightarrow> ('a \<Rightarrow> 'b sys) \<Rightarrow> 'b sys" where
  "sbind m k s = (case m s of (Inl e, s) \<Rightarrow> (Inl e, s) | (Inr x, s) \<Rightarrow> k x s)"

abbreviation s_mem :: "sys_state \<Rightarrow> mem_proc" where
  "s_mem s \<equiv> lp_mem (ss_proc s)"

abbreviation s_box :: "sys_state \<Rightarrow> lfi_box" where
  "s_box s \<equiv> mp_box (s_mem s)"

definition put_mem :: "mem_proc \<Rightarrow> sys_state \<Rightarrow> sys_state" where
  "put_mem p s = s\<lparr>ss_proc := (ss_proc s)\<lparr>lp_mem := p\<rparr>\<rparr>"

definition put_table :: "fd_table \<Rightarrow> sys_state \<Rightarrow> sys_state" where
  "put_table t s = put_mem ((s_mem s)\<lparr>mp_fdtable := t\<rparr>) s"

definition record_op :: "host_op \<Rightarrow> sys_state \<Rightarrow> sys_state" where
  "record_op op s = s\<lparr>ss_log := op # ss_log s\<rparr>"

subsection \<open>Buffers and paths of the sandbox\<close>

definition bufcheck :: "lfi_box \<Rightarrow> u64 \<Rightarrow> u64 \<Rightarrow> u64 \<Rightarrow> bool" where
  "bufcheck b p n align = (if \<not> lfi_box_bufvalid b p n then False else if p mod align \<noteq> 0 then False else True)"

text \<open>\<^verbatim>\<open>bufhost\<close> with the early return of its callers; \<^verbatim>\<open>bufcheck\<close> is the same check.\<close>

definition with_buf :: "u64 \<Rightarrow> u64 \<Rightarrow> u64 \<Rightarrow> int \<Rightarrow> int sys \<Rightarrow> int sys" where
  "with_buf p n align e k s = (if \<not> bufcheck (s_box s) p n align then (Inr (- e), s) else k s)"

text \<open>The runtime reads or writes sandbox memory itself.\<close>

definition box_load :: "u64 \<Rightarrow> u64 \<Rightarrow> (u8 list) sys" where
  "box_load p n s =
     (let s = record_op \<lparr>ho_kind = KLoad, ho_file = None, ho_paths = [], ho_args = [], ho_bufs = [(p, n)]\<rparr> s
      in if pages_have acc_r (bx_ps (s_box s)) (ss_vm s) p (unat n) then (Inr (vm_bytes (ss_vm s) p n), s)
         else (Inl Fault, s))"

definition box_store :: "u64 \<Rightarrow> u8 list \<Rightarrow> unit sys" where
  "box_store p bs s =
     (let s = record_op \<lparr>ho_kind = KStore, ho_file = None, ho_paths = [], ho_args = [],
                 ho_bufs = [(p, of_nat (length bs))]\<rparr> s
      in case vm_write (bx_ps (s_box s)) p bs (ss_vm s) of
           None \<Rightarrow> (Inl Fault, s)
         | Some m \<Rightarrow> (Inr (), s\<lparr>ss_vm := m\<rparr>))"

text \<open>\<^verbatim>\<open>copyout\<close> and \<^verbatim>\<open>copyin\<close> assert the check their callers made.\<close>

definition copyout :: "sys_host \<Rightarrow> u64 \<Rightarrow> u64 \<Rightarrow> (u8 list option) sys" where
  "copyout H p n s =
     (if \<not> bufcheck (s_box s) p n 1 then (Inl Fault, s)
      else if \<not> sh_ok H (ss_log s) then (Inr None, s)
      else sbind (box_load p n) (\<lambda>bs. sret (Some bs)) s)"

definition copyin :: "u64 \<Rightarrow> u8 list \<Rightarrow> unit sys" where
  "copyin p bs s =
     (if \<not> bufcheck (s_box s) p (of_nat (length bs)) 1 then (Inl Fault, s) else box_store p bs s)"

text \<open>The fields of a structure in sandbox memory, as (offset, size, value).\<close>

definition int_bytes :: "nat \<Rightarrow> int \<Rightarrow> u8 list" where
  "int_bytes n x = le_bytes n (nat (x mod 256 ^ n))"

fun put_fields :: "u64 \<Rightarrow> (u64 \<times> nat \<times> int) list \<Rightarrow> unit sys" where
  "put_fields p [] = sret ()"
| "put_fields p ((off, n, v) # fs) = sbind (box_store (p + off) (int_bytes n v)) (\<lambda>_. put_fields p fs)"

text \<open>A path: at most \<^verbatim>\<open>FILENAME_MAX - 1\<close> bytes, up to the end of the box or the first zero.\<close>

definition pathcopy :: "sys_host \<Rightarrow> u64 \<Rightarrow> (string option) sys" where
  "pathcopy H pathp s =
     (if \<not> ptrcheck (s_mem s) pathp then (Inr None, s)
      else let room = bx_max (s_box s) - pathp;
               maxlen = (if room > of_nat (FILENAME_MAX - 1) then of_nat (FILENAME_MAX - 1) else room)
      in if \<not> sh_ok H (ss_log s) then (Inr None, s)
      else let len = strnlen_loop (ss_vm s) pathp (unat maxlen);
               read = of_nat (min (len + 1) (unat maxlen))
      in sbind (box_load pathp read) (\<lambda>bs. sret (Some (text_of (take len bs)))) s)"

definition pathcopyresolve :: "sys_host \<Rightarrow> u64 \<Rightarrow> ((string \<times> string) option) sys" where
  "pathcopyresolve H pathp =
     sbind (pathcopy H pathp) (\<lambda>r. case r of
       None \<Rightarrow> sret None
     | Some path \<Rightarrow> (\<lambda>s. case path_resolve (lp_cwd (ss_proc s)) (lp_dir_maps (ss_proc s)) path local_buffer of
         None \<Rightarrow> (Inl Fault, s)
       | Some None \<Rightarrow> (Inr None, s)
       | Some (Some host_path) \<Rightarrow> (Inr (Some (path, host_path)), s)))"

text \<open>With the early return of the callers.\<close>

definition with_path :: "sys_host \<Rightarrow> u64 \<Rightarrow> int \<Rightarrow> (string \<Rightarrow> string \<Rightarrow> int sys) \<Rightarrow> int sys" where
  "with_path H pathp e k =
     sbind (pathcopyresolve H pathp) (\<lambda>r. case r of None \<Rightarrow> sret (- e) | Some (path, host) \<Rightarrow> k path host)"

subsection \<open>Borrowed descriptors\<close>

text \<open>\<^verbatim>\<open>FD_ACQUIRE\<close>: the body gets the open file, the flags and whether it is a directory; the
  descriptor is given back when the body ends.\<close>

definition with_fd :: "sys_host \<Rightarrow> int \<Rightarrow> (nat option \<Rightarrow> int \<Rightarrow> bool \<Rightarrow> int sys) \<Rightarrow> int sys" where
  "with_fd H fd k s =
     (let t = mp_fdtable (s_mem s);
          ((kfd, flags, isdir), h) = fdacquire t fd (sh_new H (ss_log s) (ss_files s)) (ss_files s);
          s = s\<lparr>ss_files := h\<rparr>
      in if kfd = -1 then (Inr (- LINUX_EBADF), s)
         else let (r, s) = k (h kfd) flags isdir s
              in (r, s\<lparr>ss_files := fdrelease t kfd (ss_files s)\<rparr>))"

subsection \<open>Calls to the host\<close>

text \<open>
  A call without buffers, with the translation \<^verbatim>\<open>HOST_ERR\<close>; one that fills a buffer with at most
  its size of bytes and returns their number; one that reads a buffer. The kernel refuses a
  buffer that is not accessible instead of faulting.
\<close>

definition host_ask :: "sys_host \<Rightarrow> host_op \<Rightarrow> (host_errno + host_res) sys" where
  "host_ask H op s = (Inr (sh_call H (ss_log s) op), record_op op s)"

definition host_plain :: "sys_host \<Rightarrow> host_kind \<Rightarrow> nat option \<Rightarrow> string list \<Rightarrow> int list \<Rightarrow> int sys" where
  "host_plain H kind f paths args =
     sbind (host_ask H \<lparr>ho_kind = kind, ho_file = f, ho_paths = paths, ho_args = args, ho_bufs = []\<rparr>)
       (\<lambda>r. sret (case r of Inl e \<Rightarrow> host_err e | Inr v \<Rightarrow> hr_val v))"

definition host_fill ::
  "sys_host \<Rightarrow> host_kind \<Rightarrow> nat option \<Rightarrow> string list \<Rightarrow> int list \<Rightarrow> u64 \<Rightarrow> u64 \<Rightarrow> int sys" where
  "host_fill H kind f paths args p n =
     sbind (host_ask H \<lparr>ho_kind = kind, ho_file = f, ho_paths = paths, ho_args = args, ho_bufs = [(p, n)]\<rparr>)
       (\<lambda>r s. case r of
          Inl e \<Rightarrow> (Inr (host_err e), s)
        | Inr v \<Rightarrow> (let bs = take (unat n) (hr_bytes v)
            in case vm_write (bx_ps (s_box s)) p bs (ss_vm s) of
                 None \<Rightarrow> (Inr (host_err HEFAULT), s)
               | Some m \<Rightarrow> (Inr (int (length bs)), s\<lparr>ss_vm := m\<rparr>)))"

definition host_drain ::
  "sys_host \<Rightarrow> host_kind \<Rightarrow> nat option \<Rightarrow> int list \<Rightarrow> u64 \<Rightarrow> u64 \<Rightarrow> int sys" where
  "host_drain H kind f args p n s =
     (let op = \<lparr>ho_kind = kind, ho_file = f, ho_paths = [], ho_args = args, ho_bufs = [(p, n)]\<rparr>
      in if \<not> pages_have acc_r (bx_ps (s_box s)) (ss_vm s) p (unat n) then (Inr (host_err HEFAULT), record_op op s)
         else sbind (host_ask H op)
           (\<lambda>r. sret (case r of Inl e \<Rightarrow> host_err e | Inr v \<Rightarrow> max 0 (min (uint n) (hr_val v)))) s)"

end
