(* ===== verification/SysCalls.thy ===== *)
theory SysCalls
  imports SysBase
begin

text \<open>
  The system calls of the full runtime, one per file of \<^verbatim>\<open>linux/sys\<close>, in the build for a Linux
  host. Log messages are left out, and so is \<^verbatim>\<open>sys_passthrough\<close>, an option that gives the
  sandbox the host's system calls. A C \<^verbatim>\<open>int\<close> is an \<open>int\<close> in its range.
\<close>

unbundle bit_operations_syntax

subsection \<open>Reading and writing\<close>

definition LINUX_O_PATH :: int where "LINUX_O_PATH = 0x200000"

definition sys_write :: "sys_host \<Rightarrow> int \<Rightarrow> u64 \<Rightarrow> u64 \<Rightarrow> int sys" where
  "sys_write H fd bufp n =
     (if n = 0 then sret 0
      else with_fd H fd (\<lambda>f _ _. with_buf bufp n 1 LINUX_EINVAL (host_drain H KWrite f [] bufp n)))"

definition sys_read :: "sys_host \<Rightarrow> int \<Rightarrow> u64 \<Rightarrow> u64 \<Rightarrow> int sys" where
  "sys_read H fd bufp n =
     (if n = 0 then sret 0
      else with_fd H fd (\<lambda>f flags isdir.
        if flags AND LINUX_O_PATH \<noteq> 0 then sret (- LINUX_EBADF)
        else if isdir then sret (- LINUX_EISDIR)
        else with_buf bufp n 1 LINUX_EINVAL (host_fill H KRead f [] [] bufp n)))"

definition sys_pread64 :: "sys_host \<Rightarrow> int \<Rightarrow> u64 \<Rightarrow> u64 \<Rightarrow> int \<Rightarrow> int sys" where
  "sys_pread64 H fd bufp n offset =
     (if n = 0 then sret 0
      else with_fd H fd (\<lambda>f _ _. with_buf bufp n 1 LINUX_EFAULT (host_fill H KPread f [] [offset] bufp n)))"

definition sys_pwrite64 :: "sys_host \<Rightarrow> int \<Rightarrow> u64 \<Rightarrow> u64 \<Rightarrow> int \<Rightarrow> int sys" where
  "sys_pwrite64 H fd bufp n offset =
     (if n = 0 then sret 0
      else with_fd H fd (\<lambda>f _ _. with_buf bufp n 1 LINUX_EFAULT (host_drain H KPwrite f [offset] bufp n)))"

text \<open>The vectors of \<^verbatim>\<open>readv\<close> and \<^verbatim>\<open>writev\<close> are copied out once, then used one by one.\<close>

definition IOV_MAX_LFI :: u64 where "IOV_MAX_LFI = 1024"
definition IOVEC_SIZE :: nat where "IOVEC_SIZE = 16"

definition get_iovec :: "u8 list \<Rightarrow> u64 \<times> u64" where
  "get_iovec bs = (of_nat (fld 0 8 bs), of_nat (fld 8 8 bs))"

fun vec_loop :: "(u64 \<Rightarrow> u64 \<Rightarrow> int sys) \<Rightarrow> (u64 \<times> u64) list \<Rightarrow> int \<Rightarrow> int sys" where
  "vec_loop io [] acc = sret acc"
| "vec_loop io ((base, len) # vs) acc =
     sbind (io base len) (\<lambda>n. if n < 0 then sret n else vec_loop io vs (acc + n))"

definition sys_vec :: "sys_host \<Rightarrow> (u64 \<Rightarrow> u64 \<Rightarrow> int sys) \<Rightarrow> u64 \<Rightarrow> u64 \<Rightarrow> int sys" where
  "sys_vec H io iovp iovcnt =
     (if iovcnt > IOV_MAX_LFI then sret (- LINUX_EINVAL)
      else if iovcnt = 0 then sret 0
      else with_buf iovp (iovcnt * of_nat IOVEC_SIZE) 8 LINUX_EINVAL
        (sbind (copyout H iovp (iovcnt * of_nat IOVEC_SIZE)) (\<lambda>r. case r of
           None \<Rightarrow> sret (- LINUX_ENOMEM)
         | Some bs \<Rightarrow> vec_loop io (elems get_iovec IOVEC_SIZE (unat iovcnt) bs) 0)))"

definition sys_readv :: "sys_host \<Rightarrow> int \<Rightarrow> u64 \<Rightarrow> u64 \<Rightarrow> int sys" where
  "sys_readv H fd iovp iovcnt = sys_vec H (sys_read H fd) iovp iovcnt"

definition sys_writev :: "sys_host \<Rightarrow> int \<Rightarrow> u64 \<Rightarrow> u64 \<Rightarrow> int sys" where
  "sys_writev H fd iovp iovcnt = sys_vec H (sys_write H fd) iovp iovcnt"

definition INT_MAX :: u64 where "INT_MAX = 0x7fffffff"

definition sys_getdents64 :: "sys_host \<Rightarrow> int \<Rightarrow> u64 \<Rightarrow> u64 \<Rightarrow> int sys" where
  "sys_getdents64 H fd dirp count =
     with_fd H fd (\<lambda>f _ _. with_buf dirp count 8 LINUX_EINVAL
       (host_fill H KGetdents f [] [] dirp (if count > INT_MAX then INT_MAX else count)))"

definition LINUX_GRND_NONBLOCK :: u32 where "LINUX_GRND_NONBLOCK = 1"
definition LINUX_GRND_RANDOM :: u32 where "LINUX_GRND_RANDOM = 2"

text \<open>The host's flags have the same values.\<close>

definition randomflags :: "u32 \<Rightarrow> u32" where
  "randomflags flags = (if flags AND LINUX_GRND_RANDOM \<noteq> 0 then 2 else 0) OR
     (if flags AND LINUX_GRND_NONBLOCK \<noteq> 0 then 1 else 0)"

definition sys_getrandom :: "sys_host \<Rightarrow> u64 \<Rightarrow> u64 \<Rightarrow> u32 \<Rightarrow> int sys" where
  "sys_getrandom H bufp buflen flags =
     with_buf bufp buflen 1 LINUX_EINVAL
       (if flags AND (NOT LINUX_GRND_RANDOM AND NOT LINUX_GRND_NONBLOCK) \<noteq> 0 then sret (- LINUX_EINVAL)
        else host_fill H KGetrandom None [] [uint (randomflags flags)] bufp buflen)"

subsection \<open>Descriptors and paths\<close>

definition sys_lseek :: "sys_host \<Rightarrow> int \<Rightarrow> int \<Rightarrow> int \<Rightarrow> int sys" where
  "sys_lseek H fd offset whence = with_fd H fd (\<lambda>f _ _. host_plain H KLseek f [] [offset, whence])"

definition sys_fchmod :: "sys_host \<Rightarrow> int \<Rightarrow> int \<Rightarrow> int sys" where
  "sys_fchmod H fd mode = with_fd H fd (\<lambda>f _ _. host_plain H KFchmod f [] [mode])"

definition sys_fchown :: "sys_host \<Rightarrow> int \<Rightarrow> int \<Rightarrow> int \<Rightarrow> int sys" where
  "sys_fchown H fd owner gid = with_fd H fd (\<lambda>f _ _. host_plain H KFchown f [] [owner, gid])"

definition sys_fsync :: "sys_host \<Rightarrow> int \<Rightarrow> int sys" where
  "sys_fsync H fd = with_fd H fd (\<lambda>f _ _. host_plain H KFsync f [] [])"

definition sys_ftruncate :: "sys_host \<Rightarrow> int \<Rightarrow> int \<Rightarrow> int sys" where
  "sys_ftruncate H fd len = with_fd H fd (\<lambda>f _ _. host_plain H KFtruncate f [] [len])"

definition sys_chmod :: "sys_host \<Rightarrow> u64 \<Rightarrow> int \<Rightarrow> int sys" where
  "sys_chmod H pathp mode = with_path H pathp LINUX_EINVAL (\<lambda>_ host. host_plain H KChmod None [host] [mode])"

definition sys_truncate :: "sys_host \<Rightarrow> u64 \<Rightarrow> int \<Rightarrow> int sys" where
  "sys_truncate H pathp len = with_path H pathp LINUX_EINVAL (\<lambda>_ host. host_plain H KTruncate None [host] [len])"

definition accessmode :: "u32 \<Rightarrow> u32" where
  "accessmode mode =
     (if mode = 0 then 0
      else (if mode AND 4 \<noteq> 0 then 4 else 0) OR (if mode AND 2 \<noteq> 0 then 2 else 0) OR
           (if mode AND 1 \<noteq> 0 then 1 else 0))"

definition sys_faccessat :: "sys_host \<Rightarrow> int \<Rightarrow> u64 \<Rightarrow> u32 \<Rightarrow> int sys" where
  "sys_faccessat H dirfd pathp mode =
     (if dirfd \<noteq> LINUX_AT_FDCWD then sret (- LINUX_EBADF)
      else with_path H pathp LINUX_EINVAL
        (\<lambda>_ host. host_plain H KAccess None [host] [uint (accessmode mode)]))"

definition sys_mkdirat :: "sys_host \<Rightarrow> int \<Rightarrow> u64 \<Rightarrow> int \<Rightarrow> int sys" where
  "sys_mkdirat H dirfd pathp mode =
     (if dirfd \<noteq> LINUX_AT_FDCWD then sret (- LINUX_EBADF)
      else with_path H pathp LINUX_EINVAL (\<lambda>_ host. host_plain H KMkdir None [host] [mode]))"

definition sys_unlinkat :: "sys_host \<Rightarrow> int \<Rightarrow> u64 \<Rightarrow> int \<Rightarrow> int sys" where
  "sys_unlinkat H dirfd pathp flags =
     (if dirfd \<noteq> LINUX_AT_FDCWD then sret (- LINUX_EBADF)
      else if flags \<noteq> 0 then sret (- LINUX_EINVAL)
      else with_path H pathp LINUX_EINVAL (\<lambda>_ host. host_plain H KUnlink None [host] []))"

definition sys_renameat :: "sys_host \<Rightarrow> int \<Rightarrow> u64 \<Rightarrow> int \<Rightarrow> u64 \<Rightarrow> int sys" where
  "sys_renameat H olddir oldpathp newdir newpathp =
     (if olddir \<noteq> LINUX_AT_FDCWD \<or> newdir \<noteq> LINUX_AT_FDCWD then sret (- LINUX_EBADF)
      else with_path H oldpathp LINUX_EINVAL (\<lambda>_ old_host.
        with_path H newpathp LINUX_EINVAL (\<lambda>_ new_host.
          host_plain H KRename None [old_host, new_host] [])))"

definition sys_renameat2 :: "sys_host \<Rightarrow> int \<Rightarrow> u64 \<Rightarrow> int \<Rightarrow> u64 \<Rightarrow> u32 \<Rightarrow> int sys" where
  "sys_renameat2 H olddir oldpathp newdir newpathp flags =
     (if flags \<noteq> 0 then sret (- LINUX_EINVAL) else sys_renameat H olddir oldpathp newdir newpathp)"

definition sys_readlinkat :: "sys_host \<Rightarrow> int \<Rightarrow> u64 \<Rightarrow> u64 \<Rightarrow> u64 \<Rightarrow> int sys" where
  "sys_readlinkat H dirfd pathp bufp n =
     (if dirfd \<noteq> LINUX_AT_FDCWD then sret (- LINUX_EBADF)
      else with_path H pathp LINUX_EINVAL (\<lambda>_ host.
        with_buf bufp n 1 LINUX_EINVAL (host_fill H KReadlink None [host] [] bufp n)))"

text \<open>Numbers the host fills in a structure; absent ones read as 0.\<close>

definition hr_num :: "host_res \<Rightarrow> nat \<Rightarrow> int" where
  "hr_num v i = (if i < length (hr_nums v) then hr_nums v ! i else 0)"

text \<open>
  \<^verbatim>\<open>stat\<close> fills, in this order, dev, ino, nlink, mode, uid, gid, rdev, size, blksize, blocks and the
  seconds and nanoseconds of access, modification and change.
\<close>

definition S_ISDIR :: "int \<Rightarrow> bool" where
  "S_ISDIR mode \<longleftrightarrow> mode AND 0xF000 = 0x4000"

definition stat_op :: "string \<Rightarrow> host_op" where
  "stat_op path = \<lparr>ho_kind = KStat, ho_file = None, ho_paths = [path], ho_args = [], ho_bufs = []\<rparr>"

definition checkdir :: "host_errno + host_res \<Rightarrow> int" where
  "checkdir r = (case r of Inl _ \<Rightarrow> - LINUX_ENOENT
     | Inr v \<Rightarrow> if \<not> S_ISDIR (hr_num v 3) then - LINUX_ENOTDIR else 0)"

definition host_checkdir :: "sys_host \<Rightarrow> string \<Rightarrow> int sys" where
  "host_checkdir H path = sbind (host_ask H (stat_op path)) (\<lambda>r. sret (checkdir r))"

definition LINUX_O_WRONLY :: u32 where "LINUX_O_WRONLY = 0x1"
definition LINUX_O_RDONLY :: u32 where "LINUX_O_RDONLY = 0x0"
definition LINUX_O_RDWR :: u32 where "LINUX_O_RDWR = 0x2"
definition LINUX_O_CREAT :: u32 where "LINUX_O_CREAT = 0x40"
definition LINUX_O_TRUNC :: u32 where "LINUX_O_TRUNC = 0x200"
definition LINUX_O_APPEND :: u32 where "LINUX_O_APPEND = 0x400"
definition LINUX_O_NONBLOCK :: u32 where "LINUX_O_NONBLOCK = 0x800"
definition LINUX_O_DIRECTORY :: u32 where "LINUX_O_DIRECTORY = 0x10000"

text \<open>The flags of the host are named by the Linux values here.\<close>

definition openflags :: "u32 \<Rightarrow> u32" where
  "openflags flags =
     (if flags AND LINUX_O_RDONLY \<noteq> 0 then LINUX_O_RDONLY else 0) OR
     (if flags AND LINUX_O_WRONLY \<noteq> 0 then LINUX_O_WRONLY else 0) OR
     (if flags AND LINUX_O_RDWR \<noteq> 0 then LINUX_O_RDWR else 0) OR
     (if flags AND LINUX_O_CREAT \<noteq> 0 then LINUX_O_CREAT else 0) OR
     (if flags AND LINUX_O_APPEND \<noteq> 0 then LINUX_O_APPEND else 0) OR
     (if flags AND LINUX_O_NONBLOCK \<noteq> 0 then LINUX_O_NONBLOCK else 0) OR
     (if flags AND LINUX_O_DIRECTORY \<noteq> 0 then LINUX_O_DIRECTORY else 0)"

text \<open>\<^verbatim>\<open>open\<close>: the value of a success is the open file; it gets a new descriptor.\<close>

definition host_open :: "sys_host \<Rightarrow> string \<Rightarrow> u32 \<Rightarrow> int \<Rightarrow> (host_errno + int) sys" where
  "host_open H path flags mode s =
     (let op = \<lparr>ho_kind = KOpen, ho_file = None, ho_paths = [path], ho_args = [uint flags, mode], ho_bufs = []\<rparr>
      in case sh_call H (ss_log s) op of
           Inl e \<Rightarrow> (Inr (Inl e), record_op op s)
         | Inr v \<Rightarrow> (let f = nat (hr_val v); kfd = sh_new H (ss_log s) (ss_files s);
                s = record_op (op\<lparr>ho_file := Some f\<rparr>) s
            in if kfd < 0 then (Inr (Inl HEMFILE), s)
               else (Inr (Inr kfd), s\<lparr>ss_files := (ss_files s)(kfd := Some f)\<rparr>)))"

definition sys_openat :: "sys_host \<Rightarrow> int \<Rightarrow> u64 \<Rightarrow> u32 \<Rightarrow> int \<Rightarrow> int sys" where
  "sys_openat H dirfd pathp flags mode =
     (if dirfd \<noteq> LINUX_AT_FDCWD then sret (- LINUX_EBADF)
      else with_path H pathp LINUX_ENOENT (\<lambda>path host_path.
        sbind (host_open H host_path (openflags flags) mode) (\<lambda>r. case r of
          Inl e \<Rightarrow> sret (host_err e)
        | Inr kfd \<Rightarrow> sbind (host_checkdir H host_path) (\<lambda>d s.
            let isdir = (d = 0); dir = (if isdir then Some path else None);
                (fd, t, h) = open_finish (mp_fdtable (s_mem s)) kfd dir (sint flags) (ss_files s)
            in (Inr fd, put_table t (s\<lparr>ss_files := h\<rparr>))))))"

definition close_call :: "int \<Rightarrow> int sys" where
  "close_call fd s =
     (let (r, t, h) = sys_close (mp_fdtable (s_mem s)) fd (ss_files s) in (Inr r, put_table t (s\<lparr>ss_files := h\<rparr>)))"

text \<open>A duplication with the host's answers taken from \<open>H\<close>; \<open>f\<close> is \<^verbatim>\<open>sys_dup\<close> or \<^verbatim>\<open>sys_dup3\<close>.\<close>

definition dup_call ::
  "sys_host \<Rightarrow> (bool \<Rightarrow> bool \<Rightarrow> int \<Rightarrow> fd_table \<Rightarrow> host_files \<Rightarrow> (int \<times> fd_table \<times> host_files) run) \<Rightarrow> int sys" where
  "dup_call H f s =
     (case f (sh_ok H (ss_log s)) (sh_dup2 H (ss_log s)) (sh_new H (ss_log s) (ss_files s))
             (mp_fdtable (s_mem s)) (ss_files s) of
        None \<Rightarrow> (Inl Fault, s)
      | Some (r, t, h) \<Rightarrow> (Inr r, put_table t (s\<lparr>ss_files := h\<rparr>)))"

subsection \<open>Working directory\<close>

text \<open>The directory check of \<^verbatim>\<open>proc_chdir\<close> is not recorded: it only tests a resolved path.\<close>

definition do_chdir :: "sys_host \<Rightarrow> string \<Rightarrow> int sys" where
  "do_chdir H path s =
     (case proc_chdir (\<lambda>host. checkdir (sh_call H (ss_log s) (stat_op host))) path (ss_proc s) of
        None \<Rightarrow> (Inl Fault, s)
      | Some (r, p) \<Rightarrow> (Inr r, s\<lparr>ss_proc := p\<rparr>))"

definition sys_chdir :: "sys_host \<Rightarrow> u64 \<Rightarrow> int sys" where
  "sys_chdir H pathp =
     sbind (pathcopy H pathp) (\<lambda>r. case r of None \<Rightarrow> sret (- LINUX_EINVAL) | Some path \<Rightarrow> do_chdir H path)"

definition sys_fchdir :: "sys_host \<Rightarrow> int \<Rightarrow> int sys" where
  "sys_fchdir H fd s =
     (let t = mp_fdtable (s_mem s)
      in if fd < 0 \<or> fd \<ge> int LINUX_NOFILE then (Inr (- LINUX_EBADF), s)
         else if ft_fds t ! nat fd = -1 then (Inr (- LINUX_EBADF), s)
         else case ft_dirs t ! nat fd of
           None \<Rightarrow> (Inr (- LINUX_ENOTDIR), s)
         | Some d \<Rightarrow> do_chdir H (take (FILENAME_MAX - 1) d) s)"

definition bytes_of :: "string \<Rightarrow> u8 list" where
  "bytes_of = map (\<lambda>c. of_nat (of_char c))"

definition sys_getcwd :: "u64 \<Rightarrow> u64 \<Rightarrow> int sys" where
  "sys_getcwd bufp n =
     (if n = 0 then sret 0
      else with_buf bufp n 1 LINUX_EINVAL (\<lambda>s.
        let cwd = lp_cwd (ss_proc s); len = min (unat n) (min (length cwd) (FILENAME_MAX - 1) + 1)
        in sbind (box_store bufp (take len (bytes_of cwd @ [0])))
             (\<lambda>_. sbind (box_store (bufp + of_nat len - 1) [0]) (\<lambda>_. sret (int len))) s))"

subsection \<open>File status\<close>

definition stat_fields :: "arch \<Rightarrow> host_res \<Rightarrow> (u64 \<times> nat \<times> int) list" where
  "stat_fields ar v =
     (if ar = X64 then [(0, 8, hr_num v 0), (8, 8, hr_num v 1), (16, 8, hr_num v 2), (24, 4, hr_num v 3), (28, 4, hr_num v 4),
         (32, 4, hr_num v 5), (40, 8, hr_num v 6), (48, 8, hr_num v 7), (56, 8, hr_num v 8), (64, 8, hr_num v 9)]
      else [(0, 8, hr_num v 0), (8, 8, hr_num v 1), (20, 4, hr_num v 2), (16, 4, hr_num v 3), (24, 4, hr_num v 4),
         (28, 4, hr_num v 5), (32, 8, hr_num v 6), (48, 8, hr_num v 7), (56, 4, hr_num v 8), (64, 8, hr_num v 9)]) @
     [(72, 8, hr_num v 10), (80, 8, hr_num v 11), (88, 8, hr_num v 12), (96, 8, hr_num v 13), (104, 8, hr_num v 14),
      (112, 8, hr_num v 15)]"

definition STAT_SIZE :: "arch \<Rightarrow> u64" where
  "STAT_SIZE ar = (if ar = X64 then 144 else 128)"

definition host_fstatat ::
  "sys_host \<Rightarrow> nat option \<Rightarrow> string list \<Rightarrow> u64 \<Rightarrow> u32 \<Rightarrow> int sys" where
  "host_fstatat H f paths statp flags =
     (if flags \<noteq> LINUX_AT_EMPTY_PATH \<and> flags \<noteq> 0 then sstop Fault
      else sbind (host_ask H \<lparr>ho_kind = (if flags = LINUX_AT_EMPTY_PATH then KFstat else KStat), ho_file = f,
                    ho_paths = paths, ho_args = [], ho_bufs = []\<rparr>) (\<lambda>r. case r of
        Inl e \<Rightarrow> sret (host_err e)
      | Inr v \<Rightarrow> sbind (put_fields statp (stat_fields (sh_arch H) v)) (\<lambda>_. sret 0)))"

definition sys_newfstatat :: "sys_host \<Rightarrow> int \<Rightarrow> u64 \<Rightarrow> u64 \<Rightarrow> u32 \<Rightarrow> int sys" where
  "sys_newfstatat H dirfd pathp statbufp flags =
     with_buf statbufp (STAT_SIZE (sh_arch H)) 8 LINUX_EINVAL
       (if flags AND LINUX_AT_EMPTY_PATH = 0 then
          with_path H pathp LINUX_EINVAL (\<lambda>_ host.
            if dirfd \<noteq> LINUX_AT_FDCWD then sret (- LINUX_EBADF)
            else host_fstatat H None [host] statbufp flags)
        else with_fd H dirfd (\<lambda>f _ _. host_fstatat H f [] statbufp LINUX_AT_EMPTY_PATH))"

subsection \<open>Time\<close>

definition TIMESPEC_SIZE :: u64 where "TIMESPEC_SIZE = 16"

definition put_timespec :: "u64 \<Rightarrow> int \<Rightarrow> int \<Rightarrow> unit sys" where
  "put_timespec p sec nsec = put_fields p [(0, 8, sec), (8, 8, nsec)]"

text \<open>The clocks of the host have the same numbers.\<close>

definition host_clockid :: "int \<Rightarrow> int option" where
  "host_clockid clockid = (if clockid = 0 then Some 0 else if clockid = 1 then Some 1
     else if clockid = 2 then Some 2 else None)"

definition sys_clock_gettime :: "sys_host \<Rightarrow> int \<Rightarrow> u64 \<Rightarrow> int sys" where
  "sys_clock_gettime H clockid tp =
     (case host_clockid clockid of
        None \<Rightarrow> sret (- LINUX_EINVAL)
      | Some c \<Rightarrow> with_buf tp TIMESPEC_SIZE 8 LINUX_EFAULT
          (sbind (host_ask H \<lparr>ho_kind = KClock, ho_file = None, ho_paths = [], ho_args = [c], ho_bufs = []\<rparr>)
             (\<lambda>r. case r of
                Inl e \<Rightarrow> sret (host_err e)
              | Inr v \<Rightarrow> sbind (put_timespec tp (hr_num v 0) (hr_num v 1)) (\<lambda>_. sret 0))))"

text \<open>
  The remaining time \<^verbatim>\<open>rem\<close> is an uninitialized variable, which \<^verbatim>\<open>nanosleep\<close> fills only when it
  fails: what it holds after a success is \<open>sh_junk\<close>.
\<close>

definition sys_nanosleep :: "sys_host \<Rightarrow> u64 \<Rightarrow> u64 \<Rightarrow> int sys" where
  "sys_nanosleep H reqp remp =
     with_buf reqp TIMESPEC_SIZE 8 LINUX_EINVAL
       (sbind (box_load reqp TIMESPEC_SIZE) (\<lambda>bs.
          sbind (host_ask H \<lparr>ho_kind = KNanosleep, ho_file = None, ho_paths = [],
                    ho_args = [int (fld 0 8 bs), int (fld 8 8 bs)], ho_bufs = []\<rparr>) (\<lambda>r. case r of
            Inl e \<Rightarrow> sret (host_err e)
          | Inr v \<Rightarrow>
              if remp = 0 then sret (hr_val v)
              else with_buf remp TIMESPEC_SIZE 8 LINUX_EFAULT (\<lambda>s.
                sbind (put_timespec remp (sh_junk H (ss_log s) 0) (sh_junk H (ss_log s) 1))
                  (\<lambda>_. sret (hr_val v)) s))))"

definition sys_time :: "sys_host \<Rightarrow> u64 \<Rightarrow> int sys" where
  "sys_time H tlocp = (if tlocp \<noteq> 0 then sret (- LINUX_EINVAL) else host_plain H KTime None [] [])"

subsection \<open>Information\<close>

definition LINUX_TIOCGWINSZ :: u64 where "LINUX_TIOCGWINSZ = 0x5413"

text \<open>The error of the host is returned as it is.\<close>

definition sys_ioctl :: "sys_host \<Rightarrow> int \<Rightarrow> u64 \<Rightarrow> u64 \<Rightarrow> int sys" where
  "sys_ioctl H fd request box_wsp =
     (if request \<noteq> LINUX_TIOCGWINSZ then sret (- LINUX_EINVAL)
      else with_buf box_wsp 8 2 LINUX_EINVAL
        (with_fd H fd (\<lambda>f _ _.
          sbind (host_ask H \<lparr>ho_kind = KWinsize, ho_file = f, ho_paths = [], ho_args = [], ho_bufs = []\<rparr>) (\<lambda>r. case r of
            Inl e \<Rightarrow> sret (- sh_errno H e)
          | Inr v \<Rightarrow> sbind (copyin box_wsp (int_bytes 2 (hr_num v 0) @ int_bytes 2 (hr_num v 1) @
                       int_bytes 2 (hr_num v 2) @ int_bytes 2 (hr_num v 3))) (\<lambda>_. sret 0)))))"

definition LINUX_PR_SET_NAME :: int where "LINUX_PR_SET_NAME = 15"

definition pr_set_name :: "u64 \<Rightarrow> int sys" where
  "pr_set_name namep = with_buf namep 16 1 LINUX_EINVAL (sret 0)"

definition sys_prctl :: "int \<Rightarrow> u64 \<Rightarrow> int sys" where
  "sys_prctl op arg2 = (if op = LINUX_PR_SET_NAME then pr_set_name arg2 else sret (- LINUX_EINVAL))"

definition sys_arch_prctl :: "sys_host \<Rightarrow> int \<Rightarrow> u64 \<Rightarrow> int sys" where
  "sys_arch_prctl H code addr s =
     (if sh_arch H = X64 then
        (if code = 0x1002 then (Inr 0, s\<lparr>ss_thread := (ss_thread s)\<lparr>th_tp := addr\<rparr>\<rparr>)
         else (Inr (- LINUX_EINVAL), s))
      else (Inr (- LINUX_ENOSYS), s))"

text \<open>Limits: the upper limit is the second field and stored first.\<close>

definition put_rlimit :: "u64 \<Rightarrow> u64 \<Rightarrow> int sys" where
  "put_rlimit p v = sbind (put_fields p [(8, 8, uint v), (0, 8, uint v)]) (\<lambda>_. sret 0)"

definition sys_getrlimit :: "int \<Rightarrow> u64 \<Rightarrow> int sys" where
  "sys_getrlimit resource rlimp =
     with_buf rlimp 16 8 LINUX_EINVAL (\<lambda>s.
       if resource = 3 then put_rlimit rlimp (th_stack_size (ss_thread s)) s
       else if resource = 9 then put_rlimit rlimp (bx_size (s_box s)) s
       else if resource = 4 then put_rlimit rlimp 0 s
       else if resource = 5 then put_rlimit rlimp (bx_size (s_box s)) s
       else if resource = 2 then put_rlimit rlimp (bx_size (s_box s)) s
       else if resource = 7 then put_rlimit rlimp (of_nat LINUX_NOFILE) s
       else (Inr (- LINUX_EINVAL), s))"

text \<open>
  \<^verbatim>\<open>sysinfo\<close> fills uptime, totalram, freeram, sharedram, bufferram, totalswap, freeswap, procs,
  totalhigh, freehigh, mem_unit and three loads. The structure is assigned as a whole, with
  zero in the fields that are not named, then the loads.
\<close>

definition SYSINFO_SIZE :: u64 where "SYSINFO_SIZE = 368"

definition sysinfo_bytes :: "host_res \<Rightarrow> u8 list" where
  "sysinfo_bytes v = int_bytes 8 (hr_num v 0) @ replicate 24 0 @ int_bytes 8 (hr_num v 1) @
     int_bytes 8 (hr_num v 2) @ int_bytes 8 (hr_num v 3) @ int_bytes 8 (hr_num v 4) @ int_bytes 8 (hr_num v 5) @
     int_bytes 8 (hr_num v 6) @ int_bytes 2 (hr_num v 7) @ replicate 6 0 @ int_bytes 8 (hr_num v 8) @
     int_bytes 8 (hr_num v 9) @ int_bytes 4 (hr_num v 10) @ replicate 260 0"

definition sys_sysinfo :: "sys_host \<Rightarrow> u64 \<Rightarrow> int sys" where
  "sys_sysinfo H infop =
     with_buf infop SYSINFO_SIZE 8 LINUX_EINVAL
       (sbind (host_ask H \<lparr>ho_kind = KSysinfo, ho_file = None, ho_paths = [], ho_args = [], ho_bufs = []\<rparr>) (\<lambda>r. case r of
          Inl e \<Rightarrow> sret (host_err e)
        | Inr v \<Rightarrow> sbind (box_store infop (sysinfo_bytes v)) (\<lambda>_.
            sbind (put_fields infop [(8, 8, hr_num v 11), (16, 8, hr_num v 12), (24, 8, hr_num v 13)])
              (\<lambda>_. sret 0))))"

definition UTSNAME_LENGTH :: nat where "UTSNAME_LENGTH = 65"

definition machine_name :: "arch \<Rightarrow> string" where
  "machine_name ar = (case ar of X64 \<Rightarrow> ''x86_64'' | ARM64 \<Rightarrow> ''aarch64'' | RISCV64 \<Rightarrow> ''riscv64'')"

fun put_names :: "u64 \<Rightarrow> string list \<Rightarrow> unit sys" where
  "put_names p [] = sret ()"
| "put_names p (n # ns) =
     sbind (box_store p (bytes_of n @ [0])) (\<lambda>_. put_names (p + of_nat UTSNAME_LENGTH) ns)"

definition sys_uname :: "sys_host \<Rightarrow> u64 \<Rightarrow> int sys" where
  "sys_uname H bufp =
     with_buf bufp (of_nat (5 * UTSNAME_LENGTH)) 1 LINUX_EINVAL
       (sbind (put_names bufp [''Linux LFI'', ''lfi-sandbox'', ''4.5.0-lfi'', ''0.0.0-unknown'',
                  machine_name (sh_arch H)]) (\<lambda>_. sret 0))"

definition sys_ignore :: "int sys" where "sys_ignore = sret 0"
definition sys_nosys :: "int sys" where "sys_nosys = sret (- LINUX_ENOSYS)"

subsection \<open>Threads\<close>

definition sys_gettid :: "int sys" where
  "sys_gettid s = (Inr (th_tid (ss_thread s)), s)"

definition sys_sched_yield :: "sys_host \<Rightarrow> int sys" where
  "sys_sched_yield H =
     sbind (host_ask H \<lparr>ho_kind = KYield, ho_file = None, ho_paths = [], ho_args = [], ho_bufs = []\<rparr>)
       (\<lambda>r. sret (case r of Inl _ \<Rightarrow> -1 | Inr v \<Rightarrow> hr_val v))"

definition sys_set_tid_address :: "u64 \<Rightarrow> int sys" where
  "sys_set_tid_address ctid =
     with_buf ctid 4 4 LINUX_EINVAL
       (\<lambda>s. (Inr (th_tid (ss_thread s)), s\<lparr>ss_thread := (ss_thread s)\<lparr>th_ctidp := ctid\<rparr>\<rparr>))"

text \<open>The mask of the processors: one bit for each.\<close>

primrec mask_loop :: "nat \<Rightarrow> u8 list \<Rightarrow> u8 list" where
  "mask_loop 0 bits = bits"
| "mask_loop (Suc i) bits = (let m = mask_loop i bits in m[i div 8 := (m ! (i div 8)) OR push_bit (i mod 8) 1])"

definition sys_sched_getaffinity :: "sys_host \<Rightarrow> u64 \<Rightarrow> u64 \<Rightarrow> int sys" where
  "sys_sched_getaffinity H cpusetsize maskaddr =
     (let count = ucast (sh_cpus H) :: u64; rc = ceilp count 64 div 8
      in if cpusetsize < rc then sret (- LINUX_EINVAL)
         else with_buf maskaddr rc 1 LINUX_EINVAL (\<lambda>s.
           let count = min count (rc * 8)
           in if \<not> sh_ok H (ss_log s) then (Inr (- LINUX_ENOMEM), s)
              else sbind (copyin maskaddr (mask_loop (unat count) (replicate (unat rc) 0)))
                (\<lambda>_. sret (uint rc)) s))"

subsection \<open>Futexes\<close>

definition LINUX_FUTEX_WAIT :: u32 where "LINUX_FUTEX_WAIT = 0"
definition LINUX_FUTEX_WAKE :: u32 where "LINUX_FUTEX_WAKE = 1"
definition LINUX_FUTEX_REQUEUE :: u32 where "LINUX_FUTEX_REQUEUE = 3"
definition LINUX_FUTEX_PRIVATE_FLAG :: u32 where "LINUX_FUTEX_PRIVATE_FLAG = 128"

text \<open>The futex calls return what \<^verbatim>\<open>syscall\<close> returns: -1 for every error.\<close>

definition futex_call :: "sys_host \<Rightarrow> int list \<Rightarrow> u64 list \<Rightarrow> int sys" where
  "futex_call H args addrs =
     sbind (host_ask H \<lparr>ho_kind = KFutex, ho_file = None, ho_paths = [], ho_args = args,
               ho_bufs = map (\<lambda>p. (p, 4)) addrs\<rparr>)
       (\<lambda>r. sret (case r of Inl _ \<Rightarrow> -1 | Inr v \<Rightarrow> hr_val v))"

definition host_futex_wait :: "sys_host \<Rightarrow> u64 \<Rightarrow> u32 \<Rightarrow> u32 \<Rightarrow> u64 option \<Rightarrow> int sys" where
  "host_futex_wait H uaddr op val timeout =
     (case timeout of
        None \<Rightarrow> futex_call H [uint op, uint val] [uaddr]
      | Some p \<Rightarrow> sbind (box_load p TIMESPEC_SIZE) (\<lambda>bs.
          futex_call H [uint op, uint val, int (fld 0 8 bs), int (fld 8 8 bs)] [uaddr]))"

definition host_futex_wake :: "sys_host \<Rightarrow> u64 \<Rightarrow> u32 \<Rightarrow> u32 \<Rightarrow> int sys" where
  "host_futex_wake H uaddr op val = futex_call H [uint op, uint val] [uaddr]"

definition host_futex_requeue :: "sys_host \<Rightarrow> u64 \<Rightarrow> u32 \<Rightarrow> u32 \<Rightarrow> u32 \<Rightarrow> u64 \<Rightarrow> int sys" where
  "host_futex_requeue H uaddr op val val2 uaddr2 =
     futex_call H [uint op, uint val, uint val2] [uaddr, uaddr2]"

definition futex_wait :: "sys_host \<Rightarrow> u64 \<Rightarrow> u32 \<Rightarrow> u32 \<Rightarrow> u64 \<Rightarrow> int sys" where
  "futex_wait H uaddr op val timeoutp =
     (if timeoutp = 0 then host_futex_wait H uaddr op val None
      else with_buf timeoutp TIMESPEC_SIZE 8 LINUX_EFAULT (host_futex_wait H uaddr op val (Some timeoutp)))"

definition sys_futex :: "sys_host \<Rightarrow> u64 \<Rightarrow> u32 \<Rightarrow> u32 \<Rightarrow> u64 \<Rightarrow> u64 \<Rightarrow> int sys" where
  "sys_futex H uaddrp op val timeoutp uaddr2p =
     (if uaddrp AND 3 \<noteq> 0 then sret (- LINUX_EINVAL)
      else with_buf uaddrp 4 4 LINUX_EINVAL
        (let cmd = op AND NOT LINUX_FUTEX_PRIVATE_FLAG
         in if cmd = LINUX_FUTEX_WAIT then futex_wait H uaddrp op val timeoutp
            else if cmd = LINUX_FUTEX_WAKE then host_futex_wake H uaddrp op val
            else if cmd = LINUX_FUTEX_REQUEUE then
              with_buf uaddr2p 4 4 LINUX_EINVAL (host_futex_requeue H uaddrp op val (ucast timeoutp) uaddr2p)
            else sret (- LINUX_EINVAL)))"

subsection \<open>Exit\<close>

datatype exit_kind = LFI_EXIT_THREAD | LFI_EXIT_PROCESS

text \<open>The address of the thread's id is checked by \<^verbatim>\<open>ptrhost\<close>; a null pointer faults.\<close>

definition clearctid :: "sys_host \<Rightarrow> unit sys" where
  "clearctid H s =
     (let p = th_ctidp (ss_thread s)
      in if p = 0 then (Inr (), s)
         else if \<not> ptrcheck (s_mem s) p then (Inl Fault, s)
         else sbind (box_store p [0, 0, 0, 0]) (\<lambda>_.
                sbind (sys_futex H p LINUX_FUTEX_WAKE (ucast INT_MAX) 0 0) (\<lambda>_. sret ())) s)"

definition lfi_ctx_exit :: "int \<Rightarrow> 'a sys" where
  "lfi_ctx_exit code s = (if \<not> th_in_run (ss_thread s) then (Inl Fault, s) else (Inl (Leave code), s))"

definition set_thread :: "(linux_thread \<Rightarrow> linux_thread) \<Rightarrow> sys_state \<Rightarrow> sys_state" where
  "set_thread f s = s\<lparr>ss_thread := f (ss_thread s)\<rparr>"

definition thread_exit :: "sys_host \<Rightarrow> exit_kind \<Rightarrow> int \<Rightarrow> 'a sys" where
  "thread_exit H kind code s =
     (let s = (if kind = LFI_EXIT_PROCESS then s\<lparr>ss_exit_code := code, ss_terminating := True\<rparr> else s)
      in if th_owner (ss_thread s) = LFI_THREAD_HOST then sbind (clearctid H) (\<lambda>_. sstop ReturnEnd) s
         else if th_paused (ss_thread s) then (Inl Fault, s)
         else if th_exited (ss_thread s) then (Inl Fault, s)
         else sbind (clearctid H) (\<lambda>_. lfi_ctx_exit code) (set_thread (th_exited_update (\<lambda>_. True)) s))"

definition sys_exit :: "sys_host \<Rightarrow> int \<Rightarrow> int sys" where
  "sys_exit H code = thread_exit H LFI_EXIT_THREAD code"

definition sys_exit_group :: "sys_host \<Rightarrow> int \<Rightarrow> int sys" where
  "sys_exit_group H code = thread_exit H LFI_EXIT_PROCESS code"

definition sys_lfi_pause :: "int sys" where
  "sys_lfi_pause s =
     (if th_paused (ss_thread s) then (Inl Fault, s)
      else lfi_ctx_exit 0 (set_thread (th_paused_update (\<lambda>_. True)) s))"

definition sys_checkpoint :: "sys_host \<Rightarrow> unit sys" where
  "sys_checkpoint H s = (if ss_terminating s then thread_exit H LFI_EXIT_THREAD (ss_exit_code s) s else (Inr (), s))"

subsection \<open>Memory\<close>

definition mem_call :: "(mem_state \<Rightarrow> ('a \<times> mem_state) run) \<Rightarrow> 'a sys" where
  "mem_call f s =
     (case f (s_mem s, ss_files s, ss_vm s) of
        None \<Rightarrow> (Inl Fault, s)
      | Some (r, p, h, m) \<Rightarrow> (Inr r, put_mem p (s\<lparr>ss_files := h, ss_vm := m\<rparr>)))"

subsection \<open>Clone\<close>

definition LINUX_CLONE_VM :: u64 where "LINUX_CLONE_VM = 0x100"
definition LINUX_CLONE_FS :: u64 where "LINUX_CLONE_FS = 0x200"
definition LINUX_CLONE_FILES :: u64 where "LINUX_CLONE_FILES = 0x400"
definition LINUX_CLONE_SIGHAND :: u64 where "LINUX_CLONE_SIGHAND = 0x800"
definition LINUX_CLONE_VFORK :: u64 where "LINUX_CLONE_VFORK = 0x4000"
definition LINUX_CLONE_THREAD :: u64 where "LINUX_CLONE_THREAD = 0x10000"
definition LINUX_CLONE_SYSVSEM :: u64 where "LINUX_CLONE_SYSVSEM = 0x40000"
definition LINUX_CLONE_SETTLS :: u64 where "LINUX_CLONE_SETTLS = 0x80000"
definition LINUX_CLONE_PARENT_SETTID :: u64 where "LINUX_CLONE_PARENT_SETTID = 0x100000"
definition LINUX_CLONE_CHILD_CLEARTID :: u64 where "LINUX_CLONE_CHILD_CLEARTID = 0x200000"
definition LINUX_CLONE_DETACHED :: u64 where "LINUX_CLONE_DETACHED = 0x400000"
definition LINUX_CLONE_CHILD_SETTID :: u64 where "LINUX_CLONE_CHILD_SETTID = 0x1000000"
definition LINUX_CLONE_IO :: u64 where "LINUX_CLONE_IO = 0x80000000"
definition LINUX_SIGCHLD :: u64 where "LINUX_SIGCHLD = 0x11"

definition isfork :: "u64 \<Rightarrow> bool" where
  "isfork flags =
     (let rest = flags AND NOT (LINUX_CLONE_CHILD_SETTID OR LINUX_CLONE_CHILD_CLEARTID)
      in rest = LINUX_SIGCHLD \<or> rest = (LINUX_CLONE_VM OR LINUX_CLONE_VFORK OR LINUX_SIGCHLD))"

text \<open>Complement at the width of \<^verbatim>\<open>unsigned\<close>, which the masks of \<^verbatim>\<open>spawn\<close> have.\<close>

definition not32 :: "u64 \<Rightarrow> u64" where
  "not32 x = ucast (NOT (ucast x :: u32))"

definition clone_allowed :: u64 where
  "clone_allowed = LINUX_CLONE_THREAD OR LINUX_CLONE_VM OR LINUX_CLONE_FS OR LINUX_CLONE_FILES OR
     LINUX_CLONE_SIGHAND OR LINUX_CLONE_SETTLS OR LINUX_CLONE_PARENT_SETTID OR LINUX_CLONE_CHILD_CLEARTID OR
     LINUX_CLONE_CHILD_SETTID OR LINUX_CLONE_SYSVSEM"

definition clone_required :: u64 where
  "clone_required = LINUX_CLONE_THREAD OR LINUX_CLONE_VM OR LINUX_CLONE_FS OR LINUX_CLONE_FILES OR
     LINUX_CLONE_SIGHAND"

definition BASE_TID :: int where "BASE_TID = 10000"

text \<open>
  A new thread with the registers of the old one; \<open>None\<close> when memory runs out. The id counts
  also when the context then fails. The registers are those the caller sets afterwards.
\<close>

definition thread_clone :: "sys_host \<Rightarrow> thread_owner \<Rightarrow> (linux_thread option) sys" where
  "thread_clone H owner s =
     (if \<not> sh_ok H (ss_log s) then (Inr None, s)
      else let tid = BASE_TID + ss_thread_count s; s = s\<lparr>ss_thread_count := ss_thread_count s + 1\<rparr>
      in if \<not> sh_ctx H (ss_log s) then (Inr None, s)
         else (Inr (Some \<lparr>th_tid = tid, th_ctidp = 0, th_stack = 0, th_stack_size = 0, th_owner = owner,
                 th_exited = False, th_paused = False, th_in_run = False, th_tp = 0,
                 th_sp = th_sp (ss_thread s), th_ret = th_ret (ss_thread s)\<rparr>), s))"

text \<open>
  Where \<^verbatim>\<open>spawn\<close> goes on with a thread: a clone on the clone context is run until it pauses and
  then handed to the host thread that asked for it (its run, of further calls, is not part of
  this call); any other gets a host thread. \<open>sh_pthread\<close>: whether \<^verbatim>\<open>pthread_create\<close> succeeds.
\<close>

definition start_thread :: "sys_host \<Rightarrow> linux_thread \<Rightarrow> bool sys" where
  "start_thread H t s =
     (if ss_clone_ctx s then (Inr True, s\<lparr>ss_new_ctx := Some (t\<lparr>th_owner := LFI_THREAD_HOST\<rparr>)\<rparr>)
      else if \<not> sh_ok H (ss_log s) then (Inr False, s)
      else if \<not> sh_pthread H (ss_log s) then (Inr False, s)
      else (Inr True, s\<lparr>ss_spawned := t # ss_spawned s\<rparr>))"

definition spawn :: "sys_host \<Rightarrow> u64 \<Rightarrow> u64 \<Rightarrow> u64 \<Rightarrow> u64 \<Rightarrow> u64 \<Rightarrow> int sys" where
  "spawn H flags stack ptidp ctidp tls =
     (if flags AND 0xff \<noteq> 0 \<and> flags AND 0xff \<noteq> LINUX_SIGCHLD then sret (- LINUX_EINVAL)
      else let flags = (flags AND NOT 0xff) AND not32 (LINUX_CLONE_DETACHED OR LINUX_CLONE_IO)
      in if flags AND not32 clone_allowed \<noteq> 0 then sret (- LINUX_EINVAL)
      else if flags AND clone_required \<noteq> clone_required then sret (- LINUX_EINVAL)
      else (\<lambda>s. if \<not> ptrcheck (s_mem s) stack then (Inr (- LINUX_EFAULT), s)
        else with_buf ctidp 4 4 LINUX_EFAULT (with_buf ptidp 4 4 LINUX_EFAULT
          (sbind (thread_clone H LFI_THREAD_RUNTIME) (\<lambda>r. case r of
             None \<Rightarrow> sret (- LINUX_EAGAIN)
           | Some t \<Rightarrow>
               let t = (if flags AND LINUX_CLONE_SETTLS \<noteq> 0 then t\<lparr>th_tp := tls\<rparr> else t);
                   t = (if flags AND LINUX_CLONE_CHILD_CLEARTID \<noteq> 0 then t\<lparr>th_ctidp := ctidp\<rparr> else t);
                   t = t\<lparr>th_ret := 0, th_sp := stack\<rparr>
               in sbind (if flags AND LINUX_CLONE_CHILD_SETTID \<noteq> 0
                         then box_store ctidp (int_bytes 4 (th_tid t)) else sret ()) (\<lambda>_.
                  sbind (start_thread H t) (\<lambda>ok.
                    if \<not> ok then sret (- LINUX_EAGAIN)
                    else sbind (if flags AND LINUX_CLONE_PARENT_SETTID \<noteq> 0
                                then box_store ptidp (int_bytes 4 (th_tid t)) else sret ())
                      (\<lambda>_. sret (th_tid t))))))) s))"

definition sys_clone :: "sys_host \<Rightarrow> u64 \<Rightarrow> u64 \<Rightarrow> u64 \<Rightarrow> u64 \<Rightarrow> u64 \<Rightarrow> int sys" where
  "sys_clone H flags stack ptid ctid tls =
     (if isfork flags then sret (- LINUX_ENOSYS) else spawn H flags stack ptid ctid tls)"

end
