(* ===== verification/Dispatch.thy ===== *)
theory Dispatch
  imports SysCalls
begin

text \<open>
  The system-call handler \<^verbatim>\<open>linux/sys.c\<close>: numbers of each architecture
  (\<^verbatim>\<open>linux/arch\<close>), arguments from registers, and the call behind each name.
\<close>


definition x64_numbers :: "(u64 \<times> string) list" where
  "x64_numbers = [
    (158, ''arch_prctl''), (12, ''brk''), (9, ''mmap''), (10, ''mprotect''),
    (11, ''munmap''), (56, ''clone''), (231, ''exit_group''), (60, ''exit''),
    (39, ''getpid''), (1, ''write''), (20, ''writev''), (0, ''read''),
    (19, ''readv''), (257, ''openat''), (2, ''open''), (3, ''close''),
    (186, ''gettid''), (202, ''futex''), (218, ''set_tid_address''), (204, ''sched_getaffinity''),
    (203, ''sched_setaffinity''), (24, ''sched_yield''), (13, ''rt_sigaction''), (14, ''rt_sigprocmask''),
    (15, ''rt_sigreturn''), (131, ''sigaltstack''), (8, ''lseek''), (17, ''pread64''),
    (18, ''pwrite64''), (217, ''getdents64''), (262, ''newfstatat''), (5, ''fstat''),
    (4, ''stat''), (6, ''lstat''), (91, ''fchmod''), (90, ''chmod''),
    (76, ''truncate''), (77, ''ftruncate''), (93, ''fchown''), (74, ''fsync''),
    (258, ''mkdirat''), (83, ''mkdir''), (263, ''unlinkat''), (87, ''unlink''),
    (264, ''renameat''), (82, ''rename''), (269, ''faccessat''), (21, ''access''),
    (267, ''readlinkat''), (89, ''readlink''), (32, ''dup''), (33, ''dup2''),
    (80, ''chdir''), (81, ''fchdir''), (79, ''getcwd''), (35, ''nanosleep''),
    (228, ''clock_gettime''), (201, ''time''), (318, ''getrandom''), (16, ''ioctl''),
    (72, ''fcntl''), (157, ''prctl''), (63, ''uname''), (99, ''sysinfo''),
    (97, ''getrlimit''), (273, ''set_robust_list''), (324, ''membarrier''), (28, ''madvise''),
    (98, ''getrusage''), (332, ''statx''), (334, ''rseq''), (302, ''prlimit64''),
    (137, ''statfs''), (191, ''getxattr''), (192, ''lgetxattr''), (41, ''socket''),
    (25, ''mremap''), (280, ''utimensat'')]"

definition arm64_numbers :: "(u64 \<times> string) list" where
  "arm64_numbers = [
    (214, ''brk''), (222, ''mmap''), (226, ''mprotect''), (215, ''munmap''),
    (220, ''clone''), (94, ''exit_group''), (93, ''exit''), (172, ''getpid''),
    (64, ''write''), (66, ''writev''), (63, ''read''), (65, ''readv''),
    (56, ''openat''), (57, ''close''), (178, ''gettid''), (98, ''futex''),
    (96, ''set_tid_address''), (123, ''sched_getaffinity''), (122, ''sched_setaffinity''), (124, ''sched_yield''),
    (134, ''rt_sigaction''), (135, ''rt_sigprocmask''), (139, ''rt_sigreturn''), (132, ''sigaltstack''),
    (62, ''lseek''), (67, ''pread64''), (68, ''pwrite64''), (61, ''getdents64''),
    (79, ''newfstatat''), (80, ''fstat''), (52, ''fchmod''), (45, ''truncate''),
    (46, ''ftruncate''), (55, ''fchown''), (82, ''fsync''), (34, ''mkdirat''),
    (35, ''unlinkat''), (38, ''renameat''), (276, ''renameat2''), (48, ''faccessat''),
    (78, ''readlinkat''), (23, ''dup''), (24, ''dup3''), (49, ''chdir''),
    (50, ''fchdir''), (17, ''getcwd''), (101, ''nanosleep''), (113, ''clock_gettime''),
    (278, ''getrandom''), (29, ''ioctl''), (25, ''fcntl''), (167, ''prctl''),
    (160, ''uname''), (179, ''sysinfo''), (163, ''getrlimit''), (99, ''set_robust_list''),
    (283, ''membarrier''), (233, ''madvise''), (165, ''getrusage''), (291, ''statx''),
    (293, ''rseq''), (261, ''prlimit64''), (43, ''statfs''), (8, ''getxattr''),
    (9, ''lgetxattr''), (198, ''socket''), (216, ''mremap''), (88, ''utimensat'')]"

definition riscv64_numbers :: "(u64 \<times> string) list" where
  "riscv64_numbers = [
    (214, ''brk''), (222, ''mmap''), (226, ''mprotect''), (215, ''munmap''),
    (220, ''clone''), (94, ''exit_group''), (93, ''exit''), (172, ''getpid''),
    (64, ''write''), (66, ''writev''), (63, ''read''), (65, ''readv''),
    (56, ''openat''), (57, ''close''), (178, ''gettid''), (98, ''futex''),
    (96, ''set_tid_address''), (123, ''sched_getaffinity''), (122, ''sched_setaffinity''), (124, ''sched_yield''),
    (134, ''rt_sigaction''), (135, ''rt_sigprocmask''), (139, ''rt_sigreturn''), (132, ''sigaltstack''),
    (62, ''lseek''), (67, ''pread64''), (68, ''pwrite64''), (61, ''getdents64''),
    (79, ''newfstatat''), (80, ''fstat''), (52, ''fchmod''), (45, ''truncate''),
    (46, ''ftruncate''), (55, ''fchown''), (82, ''fsync''), (34, ''mkdirat''),
    (35, ''unlinkat''), (276, ''renameat2''), (48, ''faccessat''), (78, ''readlinkat''),
    (23, ''dup''), (24, ''dup3''), (49, ''chdir''), (50, ''fchdir''),
    (17, ''getcwd''), (101, ''nanosleep''), (113, ''clock_gettime''), (278, ''getrandom''),
    (29, ''ioctl''), (25, ''fcntl''), (167, ''prctl''), (160, ''uname''),
    (179, ''sysinfo''), (163, ''getrlimit''), (99, ''set_robust_list''), (283, ''membarrier''),
    (233, ''madvise''), (165, ''getrusage''), (291, ''statx''), (293, ''rseq''),
    (261, ''prlimit64''), (43, ''statfs''), (8, ''getxattr''), (9, ''lgetxattr''),
    (198, ''socket''), (216, ''mremap''), (88, ''utimensat'')]"

definition LFI_SYS_pause :: u64 where "LFI_SYS_pause = 1024"

definition syscall_of :: "arch \<Rightarrow> u64 \<Rightarrow> string option" where
  "syscall_of ar sysno =
     (if sysno = LFI_SYS_pause then Some ''lfi_pause''
      else map_of (case ar of X64 \<Rightarrow> x64_numbers | ARM64 \<Rightarrow> arm64_numbers | RISCV64 \<Rightarrow> riscv64_numbers) sysno)"

text \<open>An argument register as a C \<^verbatim>\<open>int\<close> and as \<^verbatim>\<open>unsigned\<close>; a result in the register.\<close>

definition i32 :: "u64 \<Rightarrow> int" where "i32 a = sint (ucast a :: u32)"
definition u32_of :: "u64 \<Rightarrow> u32" where "u32_of a = ucast a"

definition as_ret :: "int sys \<Rightarrow> u64 sys" where
  "as_ret m = sbind m (\<lambda>r. sret (word_of_int r))"

text \<open>The cases of the switch.\<close>

definition sys_table ::
  "sys_host \<Rightarrow> u64 \<Rightarrow> u64 \<Rightarrow> u64 \<Rightarrow> u64 \<Rightarrow> u64 \<Rightarrow> u64 \<Rightarrow> (string \<times> u64 sys) list" where
  "sys_table H a0 a1 a2 a3 a4 a5 = [
    (''arch_prctl'', as_ret (sys_arch_prctl H (i32 a0) a1)),
    (''brk'', mem_call (sys_brk (sh_env H) a0)),
    (''mmap'', (\<lambda>s. mem_call (sys_mmap (sh_env H) (sh_new H (ss_log s) (ss_files s)) a0 a1 (u32_of a2) (u32_of a3) (u32_of a4) a5) s)),
    (''mprotect'', as_ret (mem_call (\<lambda>m. Some (sys_mprotect (sh_env H) a0 a1 (u32_of a2) m)))),
    (''munmap'', as_ret (mem_call (\<lambda>m. Some (sys_munmap (sh_env H) a0 a1 m)))),
    (''clone'', as_ret (if sh_arch H = X64 then sys_clone H a0 a1 a2 a3 a4 else sys_clone H a0 a1 a2 a4 a3)),
    (''exit_group'', as_ret (sys_exit_group H (i32 a0))),
    (''exit'', as_ret (sys_exit H (i32 a0))),
    (''getpid'', as_ret (sret 0)),
    (''write'', as_ret (sys_write H (i32 a0) a1 a2)),
    (''writev'', as_ret (sys_writev H (i32 a0) a1 a2)),
    (''read'', as_ret (sys_read H (i32 a0) a1 a2)),
    (''readv'', as_ret (sys_readv H (i32 a0) a1 a2)),
    (''openat'', as_ret (sys_openat H (i32 a0) a1 (u32_of a2) (i32 a3))),
    (''open'', as_ret (sys_openat H LINUX_AT_FDCWD a0 (u32_of a1) (i32 a2))),
    (''close'', as_ret (close_call (i32 a0))),
    (''gettid'', as_ret (sys_gettid)),
    (''futex'', as_ret (sys_futex H a0 (u32_of a1) (u32_of a2) a3 a4)),
    (''set_tid_address'', as_ret (sys_set_tid_address a0)),
    (''sched_getaffinity'', as_ret (sys_sched_getaffinity H a1 a2)),
    (''sched_setaffinity'', as_ret (sys_ignore)),
    (''sched_yield'', as_ret (sys_sched_yield H)),
    (''rt_sigaction'', as_ret (sys_ignore)),
    (''rt_sigprocmask'', as_ret (sys_ignore)),
    (''rt_sigreturn'', as_ret (sys_ignore)),
    (''sigaltstack'', as_ret (sys_ignore)),
    (''lseek'', as_ret (sys_lseek H (i32 a0) (sint a1) (i32 a2))),
    (''pread64'', as_ret (sys_pread64 H (i32 a0) a1 a2 (sint a3))),
    (''pwrite64'', as_ret (sys_pwrite64 H (i32 a0) a1 a2 (sint a3))),
    (''getdents64'', as_ret (sys_getdents64 H (i32 a0) a1 a2)),
    (''newfstatat'', as_ret (sys_newfstatat H (i32 a0) a1 a2 (u32_of a3))),
    (''fstat'', as_ret (sys_newfstatat H (i32 a0) 0 a1 LINUX_AT_EMPTY_PATH)),
    (''stat'', as_ret (sys_newfstatat H LINUX_AT_FDCWD a0 a1 0)),
    (''lstat'', as_ret (sys_newfstatat H LINUX_AT_FDCWD a0 a1 0)),
    (''fchmod'', as_ret (sys_fchmod H (i32 a0) (i32 a1))),
    (''chmod'', as_ret (sys_chmod H a0 (i32 a1))),
    (''truncate'', as_ret (sys_truncate H a0 (sint a1))),
    (''ftruncate'', as_ret (sys_ftruncate H (i32 a0) (sint a1))),
    (''fchown'', as_ret (sys_fchown H (i32 a0) (i32 a1) (i32 a2))),
    (''fsync'', as_ret (sys_fsync H (i32 a0))),
    (''mkdirat'', as_ret (sys_mkdirat H (i32 a0) a1 (i32 a2))),
    (''mkdir'', as_ret (sys_mkdirat H LINUX_AT_FDCWD a0 (i32 a1))),
    (''unlinkat'', as_ret (sys_unlinkat H (i32 a0) a1 (i32 a2))),
    (''unlink'', as_ret (sys_unlinkat H LINUX_AT_FDCWD a0 0)),
    (''renameat'', as_ret (sys_renameat H (i32 a0) a1 (i32 a2) a3)),
    (''renameat2'', as_ret (sys_renameat2 H (i32 a0) a1 (i32 a2) a3 (u32_of a4))),
    (''rename'', as_ret (sys_renameat H LINUX_AT_FDCWD a0 LINUX_AT_FDCWD a1)),
    (''faccessat'', as_ret (sys_faccessat H (i32 a0) a1 (u32_of a2))),
    (''access'', as_ret (sys_faccessat H LINUX_AT_FDCWD a0 (u32_of a1))),
    (''readlinkat'', as_ret (sys_readlinkat H (i32 a0) a1 a2 a3)),
    (''readlink'', as_ret (sys_readlinkat H LINUX_AT_FDCWD a0 a1 a2)),
    (''dup'', as_ret (dup_call H (\<lambda>ok ok2 new t. sys_dup ok ok2 new t (i32 a0)))),
    (''dup2'', as_ret (dup_call H (\<lambda>ok ok2 new t. sys_dup3 ok ok2 new t (i32 a0) (i32 a1) 0))),
    (''dup3'', as_ret (dup_call H (\<lambda>ok ok2 new t. sys_dup3 ok ok2 new t (i32 a0) (i32 a1) (i32 a2)))),
    (''chdir'', as_ret (sys_chdir H a0)),
    (''fchdir'', as_ret (sys_fchdir H (i32 a0))),
    (''getcwd'', as_ret (sys_getcwd a0 a1)),
    (''nanosleep'', as_ret (sys_nanosleep H a0 a1)),
    (''clock_gettime'', as_ret (sys_clock_gettime H (i32 a0) a1)),
    (''time'', as_ret (sys_time H a0)),
    (''getrandom'', as_ret (sys_getrandom H a0 a1 (u32_of a2))),
    (''ioctl'', as_ret (sys_ioctl H (i32 a0) a1 a2)),
    (''fcntl'', as_ret (sys_ignore)),
    (''prctl'', as_ret (sys_prctl (i32 a0) a1)),
    (''uname'', as_ret (sys_uname H a0)),
    (''sysinfo'', as_ret (sys_sysinfo H a0)),
    (''getrlimit'', as_ret (sys_getrlimit (i32 a0) a1)),
    (''set_robust_list'', as_ret (sys_ignore)),
    (''membarrier'', as_ret (sys_ignore)),
    (''madvise'', as_ret (sys_ignore)),
    (''getrusage'', as_ret (sys_ignore)),
    (''statx'', as_ret (sys_nosys)),
    (''rseq'', as_ret (sys_nosys)),
    (''prlimit64'', as_ret (sys_nosys)),
    (''statfs'', as_ret (sys_nosys)),
    (''getxattr'', as_ret (sys_nosys)),
    (''lgetxattr'', as_ret (sys_nosys)),
    (''socket'', as_ret (sys_nosys)),
    (''mremap'', as_ret (sys_nosys)),
    (''utimensat'', as_ret (sys_nosys)),
    (''lfi_pause'', as_ret (sys_lfi_pause))]"

text \<open>The handler, with \<^verbatim>\<open>sys_passthrough\<close> off. An unknown call can end the host process.\<close>

definition syshandle ::
  "sys_host \<Rightarrow> bool \<Rightarrow> u64 \<Rightarrow> u64 \<Rightarrow> u64 \<Rightarrow> u64 \<Rightarrow> u64 \<Rightarrow> u64 \<Rightarrow> u64 \<Rightarrow> u64 sys" where
  "syshandle H exit_unknown sysno a0 a1 a2 a3 a4 a5 =
     sbind (sys_checkpoint H) (\<lambda>_.
       case syscall_of (sh_arch H) sysno \<bind> map_of (sys_table H a0 a1 a2 a3 a4 a5) of
         Some call \<Rightarrow> call
       | None \<Rightarrow> if exit_unknown then sstop Fault else sret (word_of_int (- LINUX_ENOSYS)))"

end
