(* ===== verification/SysSafe.thy ===== *)
theory SysSafe
  imports Dispatch
begin

text \<open>
  What every system call keeps, whatever its arguments: the box and its pages, the descriptors'
  files, and a trace of host calls that access only sandbox buffers, resolved paths and the
  sandbox's files.
\<close>

unbundle bit_operations_syntax

subsection \<open>The trace\<close>

text \<open>The files the sandbox opened, on paths that were resolved.\<close>

definition opened :: "host_op list \<Rightarrow> nat set" where
  "opened log = {f. \<exists>op \<in> set log. ho_kind op = KOpen \<and> ho_file op = Some f}"

definition host_call_ok :: "lfi_box \<Rightarrow> string list option \<Rightarrow> nat set \<Rightarrow> host_op \<Rightarrow> bool" where
  "host_call_ok b maps F op \<longleftrightarrow>
     (\<forall>(p, n) \<in> set (ho_bufs op). lfi_box_bufvalid b p n) \<and>
     (\<forall>h \<in> set (ho_paths op). \<exists>cwd path. path_resolve cwd maps path local_buffer = Some (Some h)) \<and>
     (\<forall>f. ho_kind op \<noteq> KOpen \<and> ho_file op = Some f \<longrightarrow> f \<in> F)"

fun trace_ok :: "lfi_box \<Rightarrow> string list option \<Rightarrow> nat set \<Rightarrow> host_op list \<Rightarrow> bool" where
  "trace_ok b maps F [] \<longleftrightarrow> True"
| "trace_ok b maps F (op # log) \<longleftrightarrow> host_call_ok b maps (F \<union> opened log) op \<and> trace_ok b maps F log"

text \<open>The open files behind the slots of the table.\<close>

definition table_in :: "nat set \<Rightarrow> fd_table \<Rightarrow> host_files \<Rightarrow> bool" where
  "table_in F t h \<longleftrightarrow> \<not> ft_passthrough t \<and> length (ft_fds t) = LINUX_NOFILE \<and>
     (\<forall>k \<in> set (ft_fds t). \<forall>f. k \<noteq> -1 \<and> h k = Some f \<longrightarrow> f \<in> F)"

lemma table_in_mono: "table_in F t h \<Longrightarrow> F \<subseteq> G \<Longrightarrow> table_in G t h"
  unfolding table_in_def by blast

lemma table_in_nth: "table_in F t h \<Longrightarrow> i < LINUX_NOFILE \<Longrightarrow> ft_fds t ! i \<noteq> -1 \<Longrightarrow> h (ft_fds t ! i) = Some f \<Longrightarrow> f \<in> F"
  unfolding table_in_def by (metis nth_mem)

text \<open>A host descriptor that gets an allowed file or is closed, and a slot that gets an allowed one.\<close>

lemma table_in_host: "table_in F t h \<Longrightarrow> (\<And>f. v = Some f \<Longrightarrow> f \<in> F) \<Longrightarrow> table_in F t (h(k := v))"
  unfolding table_in_def by auto

lemma table_in_slot:
  assumes "table_in F t h" "\<And>f. k \<noteq> -1 \<Longrightarrow> h k = Some f \<Longrightarrow> f \<in> F" "ft_fds t' = (ft_fds t)[i := k]"
    "ft_passthrough t' = ft_passthrough t"
  shows "table_in F t' h"
proof -
  have "x = k \<or> x \<in> set (ft_fds t)" if "x \<in> set (ft_fds t')" for x
    using that set_update_subset_insert [of "ft_fds t" i k] unfolding assms(3) by blast
  moreover have "length (ft_fds t') = LINUX_NOFILE" "\<not> ft_passthrough t'"
    using assms by (auto simp: table_in_def)
  ultimately show ?thesis using assms(1,2) unfolding table_in_def by metis
qed

lemma table_in_same: "table_in F t h \<Longrightarrow> ft_fds t' = ft_fds t \<Longrightarrow> ft_passthrough t' = ft_passthrough t \<Longrightarrow> table_in F t' h"
  by (simp add: table_in_def)

lemma fdacquire_in:
  assumes t: "table_in F t h" and a: "fdacquire t fd new h = ((kfd, fl, d), h')"
  shows "table_in F t h'" "kfd \<noteq> -1 \<Longrightarrow> h' kfd = Some f \<Longrightarrow> f \<in> F"
proof -
  have np: "\<not> ft_passthrough t" using t by (simp add: table_in_def)
  have owned: "f \<in> F" if "\<not> fd < 0" "\<not> fd \<ge> int LINUX_NOFILE" "ft_fds t ! nat fd \<noteq> -1" "h (ft_fds t ! nat fd) = Some f" for f
    using table_in_nth [OF t _ that(3,4)] that(1,2) by simp
  show "table_in F t h'"
    using a np t owned
    by (auto simp: fdacquire_def host_dup_def Let_def split: if_splits intro!: table_in_host)
  show "kfd \<noteq> -1 \<Longrightarrow> h' kfd = Some f \<Longrightarrow> f \<in> F"
    using a np owned by (auto simp: fdacquire_def host_dup_def Let_def split: if_splits)
qed

lemma host_close_in: "table_in F t h \<Longrightarrow> table_in F t (host_close k h)"
  unfolding host_close_def by (rule table_in_host) simp_all

lemma fdrelease_in: "table_in F t h \<Longrightarrow> table_in F t (fdrelease t' k h)"
  by (simp add: fdrelease_def host_close_in)

lemma fdclose_in:
  assumes "table_in F t h" "fdclose t fd h = (r, t', h')"
  shows "table_in F t' h'"
proof (cases "ft_passthrough t \<or> fd < 0 \<or> fd \<ge> int LINUX_NOFILE \<or> ft_fds t ! nat fd = -1")
  case True
  then show ?thesis using assms by (auto simp: fdclose_def split: if_splits)
next
  case False
  have "table_in F t' h"
    by (rule table_in_slot [OF assms(1), where k = "-1" and i = "nat fd"])
      (use assms(2) False in \<open>auto simp: fdclose_def split: if_splits\<close>)
  then show ?thesis using assms(2) False by (auto simp: fdclose_def host_close_in split: if_splits)
qed

lemma open_finish_in:
  assumes t: "table_in F t h" and f: "\<And>f. h kfd = Some f \<Longrightarrow> f \<in> F" and o: "open_finish t kfd dir flags h = (r, t', h')"
  shows "table_in F t' h'"
proof -
  have np: "\<not> ft_passthrough t" using t by (simp add: table_in_def)
  show ?thesis
  proof (cases "free_slot (ft_fds t) 0")
    case None
    then show ?thesis using o np t
      by (auto simp: open_finish_def fdalloc_def LINUX_EMFILE_def intro: host_close_in)
  next
    case (Some i)
    have "table_in F t' h"
      by (rule table_in_slot [OF t f, where i = i]) (use o np Some in \<open>auto simp: open_finish_def fdalloc_def\<close>)
    then show ?thesis using o np Some by (auto simp: open_finish_def fdalloc_def)
  qed
qed

lemma dup_finish_in:
  assumes "table_in F t h" "dup_finish t a b d = Some (r, t')"
  shows "table_in F t' h"
  by (rule table_in_same [OF assms(1)])
    (use assms(2) in \<open>auto simp: dup_finish_def bind_eq_Some_conv split: option.splits if_splits\<close>)

lemma fddup2_in:
  assumes t: "table_in F t h" and d: "fddup2 ok ok2 new t old nw h = Some (r, t', h')"
  shows "table_in F t' h'"
proof -
  consider "t' = t" "h' = h" | (more) "\<not> (old < 0 \<or> old \<ge> int LINUX_NOFILE \<or> nw < -1 \<or> nw \<ge> int LINUX_NOFILE)"
      "ft_fds t ! nat old \<noteq> -1" "old \<noteq> nw" "\<not> (ft_dirs t ! nat old \<noteq> None \<and> \<not> ok)"
    using d by (auto simp: fddup2_def Let_def split: if_splits)
  then show ?thesis
  proof cases
    case 1
    then show ?thesis using t by simp
  next
    case more
    have "nat old < LINUX_NOFILE" using more(1) by linarith
    then have owned: "f \<in> F" if "h (ft_fds t ! nat old) = Some f" for f
      using table_in_nth [OF t _ more(2) that] by blast
    let ?new = "h(new := h (ft_fds t ! nat old))"
    have hn: "table_in F t ?new" by (rule table_in_host [OF t owned])
    note run = d [unfolded fddup2_def, folded bind_eq_Some_conv]
    show ?thesis
    proof (cases "nw = -1")
      case True
      show ?thesis
      proof (cases "free_slot (ft_fds t) 0")
        case None
        then show ?thesis using d more True t by (auto simp: fddup2_def Let_def)
      next
        case (Some i)
        show ?thesis
        proof (cases "h (ft_fds t ! nat old) = None \<or> new = -1")
          case True
          then show ?thesis using d more \<open>nw = -1\<close> Some t by (auto simp: fddup2_def host_dup_def Let_def)
        next
          case False
          then obtain dir where "dup_finish (t\<lparr>ft_fds := (ft_fds t)[i := new]\<rparr>) (nat old) i dir = Some (r, t')" "h' = ?new"
            using d more \<open>nw = -1\<close> Some
            by (auto simp: fddup2_def host_dup_def Let_def bind_eq_Some_conv split: if_splits)
          moreover have "table_in F (t\<lparr>ft_fds := (ft_fds t)[i := new]\<rparr>) ?new"
            by (rule table_in_slot [OF hn, where k = new and i = i]) (use owned in auto)
          ultimately show ?thesis using dup_finish_in by metis
        qed
      qed
    next
      case False
      let ?k = "ft_fds t ! nat nw"
      have end_in: "table_in F t' h'" if "dup_finish (t\<lparr>ft_fds := (ft_fds t)[nat nw := k],
            ft_dirs := (ft_dirs t)[nat nw := None]\<rparr>) (nat old) (nat nw) dir = Some (r, t')"
          "h' = h(k := h (ft_fds t ! nat old))" for k dir
      proof (rule dup_finish_in [OF _ that(1)])
        show "table_in F (t\<lparr>ft_fds := (ft_fds t)[nat nw := k], ft_dirs := (ft_dirs t)[nat nw := None]\<rparr>) h'"
          unfolding that(2)
          by (rule table_in_slot [OF table_in_host [OF t owned], where k = k and i = "nat nw"]) (use owned in auto)
      qed
      show ?thesis
        using d more False end_in t
        by (auto simp: fddup2_def host_dup_def host_dup2_def Let_def bind_eq_Some_conv split: if_splits)
    qed
  qed
qed

subsection \<open>The invariant of a call\<close>

lemma requests_step:
  assumes c: "checked e (mp_box p)" and r: "requests e False (p, m) (p', m')"
  shows "box_step e (mp_box p) m (mp_box p') m'"
proof -
  obtain cs where cs: "box_dos e cs (mp_box p, m) = Some (mp_box p', m')"
    "\<forall>c \<in> set cs. whole_pages (bx_ps (mp_box p)) c"
    using r by (auto simp: requests_def)
  have "box_step e b m b' m'" if "checked e b" "box_dos e cs (b, m) = Some (b', m')"
      "\<forall>c \<in> set cs. whole_pages (bx_ps b) c" for b b'
    using that
  proof (induction cs arbitrary: b m)
    case Nil
    then show ?case using box_step_refl checkedD(1) by simp
  next
    case (Cons c cs)
    note d = checkedD [OF Cons.prems(1)]
    obtain b1 m1 where s: "box_do e c (b, m) = Some (b1, m1)" "box_effect e b m b1 m1"
      using box_do_effect [OF d(1)] by blast
    have "box_dos e [c] (b, m) = Some (b1, m1)" using s(1) by simp
    with box_dos_effect [OF d(1), of e "[c]" m] d(2,3) Cons.prems(3)
    have "\<forall>k. x_safe e (bx_ps b) m k \<longrightarrow> x_safe e (bx_ps b) m1 k" by auto
    then have st: "box_step e b m b1 m1" using s(2) by (simp add: box_step_def)
    have "box_step e b1 m1 b' m'"
      using Cons.IH [OF checked_step [OF Cons.prems(1) st]] Cons.prems(2,3) s(1) box_step_box(2) [OF d(1) st] by simp
    then show ?case by (rule box_step_trans [OF d(1) st])
  qed
  then show ?thesis using c cs by blast
qed

named_theorems conf_intros

subsection \<open>What a call relies on\<close>

text \<open>
  The contract between the system calls and the state they work on: an invariant that holds
  through every elementary step of a call. \<open>may\<close> are the open files the sandbox may use, given
  the calls so far.
\<close>

definition resolved :: "string list option \<Rightarrow> string \<Rightarrow> bool" where
  "resolved maps host \<longleftrightarrow> (\<exists>cwd path. path_resolve cwd maps path local_buffer = Some (Some host))"

text \<open>The place of a thread's id, if it has one, is a buffer of the sandbox.\<close>

definition ctid_ok :: "lfi_box \<Rightarrow> linux_thread \<Rightarrow> bool" where
  "ctid_ok b t \<longleftrightarrow> th_ctidp t = 0 \<or> lfi_box_bufvalid b (th_ctidp t) 4"

definition threads_ok :: "lfi_box \<Rightarrow> sys_state \<Rightarrow> bool" where
  "threads_ok b s \<longleftrightarrow> ctid_ok b (ss_thread s) \<and> (\<forall>t \<in> set (ss_spawned s). ctid_ok b t) \<and>
     (\<forall>t. ss_new_ctx s = Some t \<longrightarrow> ctid_ok b t)"

locale call_contract =
  fixes inv :: "sys_state \<Rightarrow> bool" and b :: lfi_box and maps :: "string list option"
    and may :: "host_op list \<Rightarrow> nat set" and env :: host_env
  assumes bounds: "inv s \<Longrightarrow> bx_min (s_box s) = bx_min b \<and> bx_max (s_box s) = bx_max b"
    and box: "inv s \<Longrightarrow> box_ok (s_box s)"
    and dir_maps: "inv s \<Longrightarrow> lp_dir_maps (ss_proc s) = maps"
    and may_grows: "may log \<subseteq> may (op # log)"
    and may_opened: "ho_kind op = KOpen \<Longrightarrow> ho_file op = Some f \<Longrightarrow> f \<in> may (op # log)"
    and recorded: "inv s \<Longrightarrow> host_call_ok b maps (may (ss_log s)) op \<Longrightarrow> inv (record_op op s)"
    and written: "inv s \<Longrightarrow> vm_write (bx_ps (s_box s)) p bs (ss_vm s) = Some m \<Longrightarrow> inv (s\<lparr>ss_vm := m\<rparr>)"
    and acquired: "inv s \<Longrightarrow> fdacquire (mp_fdtable (s_mem s)) fd new (ss_files s) = ((k, fl, d), h) \<Longrightarrow>
      inv (s\<lparr>ss_files := h\<rparr>) \<and> (\<forall>f. k \<noteq> -1 \<and> h k = Some f \<longrightarrow> f \<in> may (ss_log s))"
    and released: "inv s \<Longrightarrow> inv (s\<lparr>ss_files := fdrelease t k (ss_files s)\<rparr>)"
    and new_file: "inv s \<Longrightarrow> f \<in> may (ss_log s) \<Longrightarrow> inv (s\<lparr>ss_files := (ss_files s)(k := Some f)\<rparr>)"
    and new_table: "inv s \<Longrightarrow> table_in (may (ss_log s)) t h \<Longrightarrow> inv (put_table t (s\<lparr>ss_files := h\<rparr>))"
    and table: "inv s \<Longrightarrow> table_in (may (ss_log s)) (mp_fdtable (s_mem s)) (ss_files s)"
    and moved: "inv s \<Longrightarrow> requests env False (s_mem s, ss_vm s) (q, m) \<Longrightarrow> inv (put_mem q (s\<lparr>ss_vm := m\<rparr>))"
    and same: "inv s \<Longrightarrow> lp_mem (ss_proc s') = lp_mem (ss_proc s) \<Longrightarrow> lp_dir_maps (ss_proc s') = lp_dir_maps (ss_proc s) \<Longrightarrow>
      ss_vm s' = ss_vm s \<Longrightarrow> ss_log s' = ss_log s \<Longrightarrow> ss_files s' = ss_files s \<Longrightarrow> threads_ok b s' \<Longrightarrow> inv s'"
    and threads: "inv s \<Longrightarrow> threads_ok b s"
begin

text \<open>A part of a call that keeps the invariant, also when it stops, given files it may use.\<close>

definition conf :: "nat set \<Rightarrow> 'a sys \<Rightarrow> bool" where
  "conf A k \<longleftrightarrow> (\<forall>s. inv s \<and> A \<subseteq> may (ss_log s) \<longrightarrow> inv (snd (k s)) \<and> A \<subseteq> may (ss_log (snd (k s))))"

lemma confI: "(\<And>s. inv s \<Longrightarrow> A \<subseteq> may (ss_log s) \<Longrightarrow> inv (snd (k s)) \<and> A \<subseteq> may (ss_log (snd (k s)))) \<Longrightarrow> conf A k"
  by (simp add: conf_def)

lemma confD: "conf A k \<Longrightarrow> inv s \<Longrightarrow> A \<subseteq> may (ss_log s) \<Longrightarrow> inv (snd (k s)) \<and> A \<subseteq> may (ss_log (snd (k s)))"
  by (simp add: conf_def)

lemma conf_sret [conf_intros]: "conf A (sret x)"
  by (simp add: conf_def sret_def)

lemma conf_sstop [conf_intros]: "conf A (sstop x)"
  by (simp add: conf_def sstop_def)

lemma conf_return [conf_intros]: "conf A (Pair (Inr x))" "conf A (Pair (Inl y))"
  by (simp_all add: conf_def)

lemma conf_sbind [conf_intros]:
  assumes "conf A k" "\<And>x. conf A (f x)"
  shows "conf A (sbind k f)"
proof (rule confI)
  fix s
  assume s: "inv s" "A \<subseteq> may (ss_log s)"
  obtain r s1 where r: "k s = (r, s1)" by (cases "k s")
  have s1: "inv s1" "A \<subseteq> may (ss_log s1)" using confD [OF assms(1) s] by (simp_all add: r)
  show "inv (snd (sbind k f s)) \<and> A \<subseteq> may (ss_log (snd (sbind k f s)))"
    using s1 confD [OF assms(2) s1] by (cases r) (simp_all add: sbind_def r)
qed

lemma conf_if [conf_intros]:
  "(x \<Longrightarrow> conf A k) \<Longrightarrow> (\<not> x \<Longrightarrow> conf A k') \<Longrightarrow> conf A (if x then k else k')"
  by simp

lemma conf_option [conf_intros]:
  "(x = None \<Longrightarrow> conf A k) \<Longrightarrow> (\<And>y. x = Some y \<Longrightarrow> conf A (f y)) \<Longrightarrow> conf A (case x of None \<Rightarrow> k | Some y \<Rightarrow> f y)"
  by (cases x) simp_all

lemma conf_sum [conf_intros]:
  "(\<And>y. x = Inl y \<Longrightarrow> conf A (g y)) \<Longrightarrow> (\<And>y. x = Inr y \<Longrightarrow> conf A (f y)) \<Longrightarrow>
     conf A (case x of Inl y \<Rightarrow> g y | Inr y \<Rightarrow> f y)"
  by (cases x) simp_all

lemma conf_let [conf_intros]: "(\<And>y. y = x \<Longrightarrow> conf A (f y)) \<Longrightarrow> conf A (let y = x in f y)"
  by simp

text \<open>A part that looks at the state before it goes on.\<close>

lemma conf_at: "(\<And>s. inv s \<Longrightarrow> A \<subseteq> may (ss_log s) \<Longrightarrow> conf A (k s)) \<Longrightarrow> conf A (\<lambda>s. k s s)"
  by (simp add: conf_def)

lemma conf_guard: "conf A k \<Longrightarrow> conf A (\<lambda>s. if P s then (r s, s) else k s)"
  by (simp add: conf_def)

lemma conf_branch: "conf A k \<Longrightarrow> conf A k' \<Longrightarrow> conf A (\<lambda>s. if P s then k s else k' s)"
  by (simp add: conf_def)

lemma conf_stay: "conf A (\<lambda>s. (r s, s))"
  by (simp add: conf_def)

lemma conf_other:
  assumes "\<And>s. lp_mem (ss_proc (snd (k s))) = lp_mem (ss_proc s) \<and>
    lp_dir_maps (ss_proc (snd (k s))) = lp_dir_maps (ss_proc s) \<and>
    ss_vm (snd (k s)) = ss_vm s \<and> ss_log (snd (k s)) = ss_log s \<and> ss_files (snd (k s)) = ss_files s \<and>
    (threads_ok b s \<longrightarrow> threads_ok b (snd (k s)))"
  shows "conf A k"
  by (rule confI) (use assms same threads in metis)

lemma bufvalid_box: "inv s \<Longrightarrow> lfi_box_bufvalid (s_box s) p n = lfi_box_bufvalid b p n"
  using bounds by (simp add: lfi_box_bufvalid_def)

lemma bufcheck_valid: "inv s \<Longrightarrow> bufcheck (s_box s) p n a \<Longrightarrow> lfi_box_bufvalid b p n"
  by (simp add: bufcheck_def bufvalid_box split: if_splits)

lemma conf_with_buf [conf_intros]:
  assumes "lfi_box_bufvalid b p n \<Longrightarrow> conf A k"
  shows "conf A (with_buf p n al eno k)"
  by (rule confI) (use confD [OF assms] bufcheck_valid in \<open>auto simp: with_buf_def\<close>)

lemma record_conf:
  assumes "inv s" "A \<subseteq> may (ss_log s)" "host_call_ok b maps A op"
  shows "inv (record_op op s)" "A \<subseteq> may (ss_log (record_op op s))"
proof -
  have "host_call_ok b maps (may (ss_log s)) op" using assms(2,3) by (auto simp: host_call_ok_def)
  then show "inv (record_op op s)" by (rule recorded [OF assms(1)])
  show "A \<subseteq> may (ss_log (record_op op s))"
    using assms(2) may_grows [of "ss_log s" op] by (auto simp: record_op_def)
qed

lemma box_load_conf [conf_intros]:
  assumes "lfi_box_bufvalid b p n"
  shows "conf A (box_load p n)"
proof (rule confI)
  fix s
  assume s: "inv s" "A \<subseteq> may (ss_log s)"
  show "inv (snd (box_load p n s)) \<and> A \<subseteq> may (ss_log (snd (box_load p n s)))"
    using record_conf [OF s, of "\<lparr>ho_kind = KLoad, ho_file = None, ho_paths = [], ho_args = [], ho_bufs = [(p, n)]\<rparr>"]
      assms by (simp add: box_load_def Let_def host_call_ok_def)
qed

lemma box_store_conf [conf_intros]:
  assumes "lfi_box_bufvalid b p (of_nat (length bs))"
  shows "conf A (box_store p bs)"
proof (rule confI)
  fix s
  assume s: "inv s" "A \<subseteq> may (ss_log s)"
  let ?op = "\<lparr>ho_kind = KStore, ho_file = None, ho_paths = [], ho_args = [], ho_bufs = [(p, of_nat (length bs))]\<rparr>"
  have r: "inv (record_op ?op s)" "A \<subseteq> may (ss_log (record_op ?op s))"
    by (rule record_conf [OF s]; use assms in \<open>simp add: host_call_ok_def\<close>)+
  show "inv (snd (box_store p bs s)) \<and> A \<subseteq> may (ss_log (snd (box_store p bs s)))"
    using r written [OF r(1)] by (auto simp: box_store_def Let_def split: option.split)
qed

text \<open>A part of a buffer.\<close>

lemma bufvalid_part:
  assumes "lfi_box_bufvalid b p n" "unat off + k \<le> unat n"
  shows "lfi_box_bufvalid b (p + off) (of_nat k)"
proof -
  have v: "unat (bx_min b) \<le> unat p" "unat p \<le> unat (bx_max b)" "unat n \<le> unat (bx_max b) - unat p"
    using assms(1) by (auto simp: lfi_box_bufvalid_def word_le_nat_alt unat_sub64)
  have mx: "unat (bx_max b) < 2 ^ 64" "unat n < 2 ^ 64" by simp_all
  have "k < 2 ^ 64" using assms(2) mx by linarith
  then have k: "unat (of_nat k :: u64) = k" by (rule unat_of_nat64)
  have off: "unat (p + off) = unat p + unat off" using v assms(2) mx by (intro unat_add64) linarith
  have "unat p + unat off \<le> unat (bx_max b)" "k \<le> unat (bx_max b) - (unat p + unat off)"
    using v assms(2) by linarith+
  then show ?thesis using v off k by (simp add: lfi_box_bufvalid_def word_le_nat_alt unat_sub64)
qed

lemma put_fields_conf:
  assumes "lfi_box_bufvalid b p n" "\<forall>(off, k, v) \<in> set fs. unat off + k \<le> unat n"
  shows "conf A (put_fields p fs)"
  using assms(2)
proof (induction fs)
  case (Cons x fs)
  obtain off k v where x: "x = (off, k, v)" by (cases x)
  have "lfi_box_bufvalid b (p + off) (of_nat (length (int_bytes k v)))"
    using bufvalid_part [OF assms(1)] Cons.prems by (simp add: x int_bytes_def)
  then show ?case using Cons by (simp add: x) (intro conf_intros)
qed (simp add: conf_sret)

lemma copyout_conf [conf_intros]: "conf A (copyout H p n)"
proof (rule confI)
  fix s
  assume s: "inv s" "A \<subseteq> may (ss_log s)"
  show "inv (snd (copyout H p n s)) \<and> A \<subseteq> may (ss_log (snd (copyout H p n s)))"
  proof (cases "\<not> bufcheck (s_box s) p n 1 \<or> \<not> sh_ok H (ss_log s)")
    case True
    then show ?thesis using s by (auto simp: copyout_def)
  next
    case False
    then have "conf A (sbind (box_load p n) (\<lambda>bs. sret (Some bs)))"
      using bufcheck_valid [OF s(1)] by (intro conf_intros) blast
    from confD [OF this s] False show ?thesis by (simp add: copyout_def)
  qed
qed

lemma copyin_conf [conf_intros]: "conf A (copyin p bs)"
proof (rule confI)
  fix s
  assume s: "inv s" "A \<subseteq> may (ss_log s)"
  show "inv (snd (copyin p bs s)) \<and> A \<subseteq> may (ss_log (snd (copyin p bs s)))"
    using s confD [OF box_store_conf] bufcheck_valid by (auto simp: copyin_def)
qed

lemma pathcopy_conf [conf_intros]: "conf A (pathcopy H p)"
proof (rule confI)
  fix s
  assume s: "inv s" "A \<subseteq> may (ss_log s)"
  show "inv (snd (pathcopy H p s)) \<and> A \<subseteq> may (ss_log (snd (pathcopy H p s)))"
  proof (cases "\<not> ptrcheck (s_mem s) p \<or> \<not> sh_ok H (ss_log s)")
    case True
    then show ?thesis using s by (auto simp: pathcopy_def Let_def)
  next
    case False
    let ?room = "bx_max (s_box s) - p"
    define mx where "mx = (if ?room > of_nat (FILENAME_MAX - 1) then of_nat (FILENAME_MAX - 1) else ?room)"
    define len where "len = strnlen_loop (ss_vm s) p (unat mx)"
    define n :: u64 where "n = of_nat (min (len + 1) (unat mx))"
    have "mx \<le> ?room" by (simp add: mx_def less_imp_le)
    then have "unat mx \<le> unat ?room" by (simp add: word_le_nat_alt)
    moreover have "unat n \<le> unat mx"
      unfolding n_def by (subst unat_of_nat64) (auto intro: le_less_trans [OF min.cobounded2])
    ultimately have "n \<le> ?room" by (simp add: word_le_nat_alt)
    then have "lfi_box_bufvalid (s_box s) p n"
      using False by (auto simp: lfi_box_bufvalid_def ptrcheck_def lfi_box_ptrvalid_def)
    then have "conf A (sbind (box_load p n) (\<lambda>bs. sret (Some (text_of (take len bs)))))"
      using s by (intro conf_intros) (simp add: bufvalid_box)
    moreover have "pathcopy H p s = sbind (box_load p n) (\<lambda>bs. sret (Some (text_of (take len bs)))) s"
      using False unfolding pathcopy_def n_def len_def mx_def Let_def by simp
    ultimately show ?thesis using confD [OF _ s] by metis
  qed
qed

lemma with_path_conf [conf_intros]:
  assumes k: "\<And>path host. resolved maps host \<Longrightarrow> conf A (k path host)"
  shows "conf A (with_path H p eno k)"
proof (rule confI)
  fix s
  assume s: "inv s" "A \<subseteq> may (ss_log s)"
  obtain r s1 where r: "pathcopy H p s = (r, s1)" by (cases "pathcopy H p s")
  have s1: "inv s1" "A \<subseteq> may (ss_log s1)" using confD [OF pathcopy_conf s] r by (metis snd_conv)+
  show "inv (snd (with_path H p eno k s)) \<and> A \<subseteq> may (ss_log (snd (with_path H p eno k s)))"
  proof (cases "\<exists>path host. r = Inr (Some path) \<and>
      path_resolve (lp_cwd (ss_proc s1)) (lp_dir_maps (ss_proc s1)) path local_buffer = Some (Some host)")
    case True
    then obtain path host where h: "r = Inr (Some path)"
      "path_resolve (lp_cwd (ss_proc s1)) (lp_dir_maps (ss_proc s1)) path local_buffer = Some (Some host)" by blast
    then have "resolved maps host" using dir_maps [OF s1(1)] by (auto simp: resolved_def)
    from confD [OF k [OF this] s1] show ?thesis
      using h r by (simp add: with_path_def pathcopyresolve_def sbind_def)
  next
    case False
    then have "snd (with_path H p eno k s) = s1"
      using r by (auto simp: with_path_def pathcopyresolve_def sbind_def sret_def split: sum.split option.split)
    then show ?thesis using s1 by simp
  qed
qed

lemma with_fd_conf [conf_intros]:
  assumes k: "\<And>f fl d. conf (A \<union> set_option f) (k f fl d)"
  shows "conf A (with_fd H fd k)"
proof (rule confI)
  fix s
  assume s: "inv s" "A \<subseteq> may (ss_log s)"
  let ?t = "mp_fdtable (s_mem s)"
  obtain kfd fl d h where a: "fdacquire ?t fd (sh_new H (ss_log s) (ss_files s)) (ss_files s) = ((kfd, fl, d), h)"
    by (metis surj_pair)
  let ?s = "s\<lparr>ss_files := h\<rparr>"
  have i: "inv ?s" "kfd \<noteq> -1 \<Longrightarrow> set_option (h kfd) \<subseteq> may (ss_log s)"
    using acquired [OF s(1) a] by (auto simp: elem_set)
  show "inv (snd (with_fd H fd k s)) \<and> A \<subseteq> may (ss_log (snd (with_fd H fd k s)))"
  proof (cases "kfd = -1")
    case True
    then show ?thesis using a i(1) s(2) by (simp add: with_fd_def Let_def)
  next
    case False
    obtain r s1 where r: "k (h kfd) fl d ?s = (r, s1)" by (cases "k (h kfd) fl d ?s")
    have "A \<union> set_option (h kfd) \<subseteq> may (ss_log ?s)" using s(2) i(2) False by simp
    from confD [OF k i(1) this, of fl d] r have "inv s1" "A \<subseteq> may (ss_log s1)" by auto
    then show ?thesis using a False r released by (simp add: with_fd_def Let_def)
  qed
qed

lemma host_ask_conf [conf_intros]:
  assumes "host_call_ok b maps A op"
  shows "conf A (host_ask H op)"
  by (rule confI) (use record_conf [OF _ _ assms] in \<open>simp add: host_ask_def\<close>)

lemma host_plain_conf [conf_intros]:
  assumes "set_option f \<subseteq> A" "\<forall>h \<in> set paths. resolved maps h"
  shows "conf A (host_plain H kind f paths args)"
  unfolding host_plain_def
  by (intro conf_intros) (use assms in \<open>auto simp: host_call_ok_def resolved_def\<close>)

lemma host_fill_conf [conf_intros]:
  assumes "set_option f \<subseteq> A" "\<forall>h \<in> set paths. resolved maps h" "lfi_box_bufvalid b p n"
  shows "conf A (host_fill H kind f paths args p n)"
proof -
  have w: "conf A (\<lambda>s. let bs = take (unat n) (hr_bytes v)
            in case vm_write (bx_ps (s_box s)) p bs (ss_vm s) of
                 None \<Rightarrow> (Inr (host_err HEFAULT), s)
               | Some m \<Rightarrow> (Inr (int (length bs)), s\<lparr>ss_vm := m\<rparr>))" for v
    by (rule confI) (auto simp: Let_def split: option.split intro: written)
  show ?thesis unfolding host_fill_def
  proof (intro conf_sbind host_ask_conf)
    show "host_call_ok b maps A \<lparr>ho_kind = kind, ho_file = f, ho_paths = paths, ho_args = args, ho_bufs = [(p, n)]\<rparr>"
      using assms by (auto simp: host_call_ok_def resolved_def)
    show "conf A (\<lambda>s. case r of Inl e \<Rightarrow> (Inr (host_err e), s) | Inr v \<Rightarrow>
        (let bs = take (unat n) (hr_bytes v)
            in case vm_write (bx_ps (s_box s)) p bs (ss_vm s) of
                 None \<Rightarrow> (Inr (host_err HEFAULT), s)
               | Some m \<Rightarrow> (Inr (int (length bs)), s\<lparr>ss_vm := m\<rparr>)))" for r
      using w by (cases r) (simp_all add: conf_def)
  qed
qed

lemma host_drain_conf [conf_intros]:
  assumes "set_option f \<subseteq> A" "lfi_box_bufvalid b p n"
  shows "conf A (host_drain H kind f args p n)"
proof (rule confI)
  fix s
  assume s: "inv s" "A \<subseteq> may (ss_log s)"
  let ?op = "\<lparr>ho_kind = kind, ho_file = f, ho_paths = [], ho_args = args, ho_bufs = [(p, n)]\<rparr>"
  have ok: "host_call_ok b maps A ?op" using assms by (auto simp: host_call_ok_def)
  have "conf A (sbind (host_ask H ?op)
      (\<lambda>r. sret (case r of Inl e \<Rightarrow> host_err e | Inr v \<Rightarrow> max 0 (min (uint n) (hr_val v)))))"
    by (intro conf_intros ok)
  from confD [OF this s] record_conf [OF s ok]
  show "inv (snd (host_drain H kind f args p n s)) \<and> A \<subseteq> may (ss_log (snd (host_drain H kind f args p n s)))"
    by (simp add: host_drain_def Let_def)
qed

end

subsection \<open>Every call keeps the contract\<close>

context call_contract
begin

lemma sys_write_conf: "conf A (sys_write H fd p n)"
  unfolding sys_write_def by (intro conf_intros) auto

lemma sys_read_conf: "conf A (sys_read H fd p n)"
  unfolding sys_read_def by (intro conf_intros) auto

lemma vec_loop_conf:
  assumes "\<And>p n. conf A (io p n)"
  shows "conf A (vec_loop io vs acc)"
proof (induction vs arbitrary: acc)
  case (Cons v vs)
  then show ?case by (cases v) (auto intro!: conf_intros assms)
qed (simp add: conf_sret)

lemma sys_vec_conf: "(\<And>p n. conf A (io p n)) \<Longrightarrow> conf A (sys_vec H io p n)"
  unfolding sys_vec_def by (intro conf_intros vec_loop_conf)

lemmas io_conf = sys_write_conf sys_read_conf sys_vec_conf

lemma fd_calls_conf:
  "conf A (sys_pread64 H fd p n off)" "conf A (sys_pwrite64 H fd p n off)" "conf A (sys_lseek H fd off wh)"
  "conf A (sys_fchmod H fd x)" "conf A (sys_fchown H fd x y)" "conf A (sys_fsync H fd)" "conf A (sys_ftruncate H fd off)"
  unfolding sys_pread64_def sys_pwrite64_def sys_lseek_def sys_fchmod_def sys_fchown_def sys_fsync_def
    sys_ftruncate_def
  by (intro conf_intros; auto)+

text \<open>A smaller buffer at the same place.\<close>

lemma bufvalid_less: "lfi_box_bufvalid b p n \<Longrightarrow> k \<le> n \<Longrightarrow> lfi_box_bufvalid b p k"
  by (auto simp: lfi_box_bufvalid_def)

lemma sys_getdents64_conf: "conf A (sys_getdents64 H fd p n)"
  unfolding sys_getdents64_def
  by (intro conf_intros) (auto elim: bufvalid_less)

lemma sys_getrandom_conf: "conf A (sys_getrandom H p n fl)"
  unfolding sys_getrandom_def by (intro conf_intros) auto

lemma path_calls_conf:
  "conf A (sys_chmod H p x)" "conf A (sys_truncate H p off)" "conf A (sys_faccessat H d p md)"
  "conf A (sys_mkdirat H d p x)" "conf A (sys_unlinkat H d p x)" "conf A (sys_renameat H d p d' q)"
  "conf A (sys_renameat2 H d p d' q fl)" "conf A (sys_readlinkat H d p q n)"
  unfolding sys_chmod_def sys_truncate_def sys_faccessat_def sys_mkdirat_def sys_unlinkat_def sys_renameat2_def
    sys_renameat_def sys_readlinkat_def
  by (intro conf_intros; auto)+

lemma host_checkdir_conf [conf_intros]: "resolved maps h \<Longrightarrow> conf A (host_checkdir H h)"
  unfolding host_checkdir_def
  by (intro conf_intros) (auto simp: stat_op_def host_call_ok_def resolved_def)

lemma close_conf: "conf A (close_call fd)"
proof (rule confI)
  fix s
  assume s: "inv s" "A \<subseteq> may (ss_log s)"
  let ?t = "mp_fdtable (s_mem s)"
  obtain r t h where c: "fdclose ?t fd (ss_files s) = (r, t, h)" by (metis surj_pair)
  have "inv (put_table t (s\<lparr>ss_files := h\<rparr>))" by (rule new_table [OF s(1) fdclose_in [OF table [OF s(1)] c]])
  then show "inv (snd (close_call fd s)) \<and> A \<subseteq> may (ss_log (snd (close_call fd s)))"
    using c s(2) by (simp add: close_call_def sys_close_def put_table_def put_mem_def Let_def)
qed

lemma dup_conf:
  assumes "\<And>ok ok2 new t h. (\<exists>old nw. f ok ok2 new t h = fddup2 ok ok2 new t old nw h) \<or> (\<exists>r. f ok ok2 new t h = Some (r, t, h))"
  shows "conf A (dup_call H f)"
proof (rule confI)
  fix s
  assume s: "inv s" "A \<subseteq> may (ss_log s)"
  let ?t = "mp_fdtable (s_mem s)"
  let ?f = "f (sh_ok H (ss_log s)) (sh_dup2 H (ss_log s)) (sh_new H (ss_log s) (ss_files s)) ?t (ss_files s)"
  show "inv (snd (dup_call H f s)) \<and> A \<subseteq> may (ss_log (snd (dup_call H f s)))"
  proof (cases ?f)
    case None
    then show ?thesis using s by (simp add: dup_call_def)
  next
    case (Some x)
    then obtain r t h where x: "?f = Some (r, t, h)" by (cases x) auto
    from assms [of "sh_ok H (ss_log s)" "sh_dup2 H (ss_log s)" "sh_new H (ss_log s) (ss_files s)" ?t "ss_files s"]
    have "table_in (may (ss_log s)) t h"
    proof (elim disjE exE)
      fix old nw
      assume "?f = fddup2 (sh_ok H (ss_log s)) (sh_dup2 H (ss_log s)) (sh_new H (ss_log s) (ss_files s)) ?t old nw (ss_files s)"
      then show ?thesis using x fddup2_in [OF table [OF s(1)]] by metis
    qed (use x table [OF s(1)] in simp)
    then have "inv (put_table t (s\<lparr>ss_files := h\<rparr>))" by (rule new_table [OF s(1)])
    then show ?thesis using x s(2) by (simp add: dup_call_def put_table_def put_mem_def)
  qed
qed

lemma dup_calls_conf:
  "conf A (dup_call H (\<lambda>ok ok2 new t. sys_dup ok ok2 new t fd))"
  "conf A (dup_call H (\<lambda>ok ok2 new t. sys_dup3 ok ok2 new t fd fd' fl))"
  by (rule dup_conf, force simp: sys_dup_def sys_dup3_def)+

lemma host_checkdir_files: "ss_files (snd (host_checkdir H h s)) = ss_files s"
  by (simp add: host_checkdir_def host_ask_def sbind_def sret_def record_op_def)

lemma open_conf:
  assumes host: "resolved maps host"
  shows "conf A (sbind (host_open H host fl md) (\<lambda>r. case r of
          Inl e \<Rightarrow> sret (host_err e)
        | Inr kfd \<Rightarrow> sbind (host_checkdir H host) (\<lambda>d s.
            let isdir = (d = 0); dir = (if isdir then Some path else None);
                (fd, t, h) = open_finish (mp_fdtable (s_mem s)) kfd dir (sint flags) (ss_files s)
            in (Inr fd, put_table t (s\<lparr>ss_files := h\<rparr>)))))" (is "conf A (sbind _ ?k)")
proof (rule confI)
  fix s
  assume s: "inv s" "A \<subseteq> may (ss_log s)"
  let ?op = "\<lparr>ho_kind = KOpen, ho_file = None, ho_paths = [host], ho_args = [uint fl, md], ho_bufs = []\<rparr>"
  have op: "host_call_ok b maps A (?op\<lparr>ho_file := f\<rparr>)" for f
    using host by (auto simp: host_call_ok_def resolved_def)
  show "inv (snd (sbind (host_open H host fl md) ?k s)) \<and>
    A \<subseteq> may (ss_log (snd (sbind (host_open H host fl md) ?k s)))"
  proof (cases "sh_call H (ss_log s) ?op")
    case (Inl e)
    then show ?thesis using record_conf [OF s op [of None]] by (simp add: host_open_def sbind_def sret_def)
  next
    case (Inr v)
    define f where "f = nat (hr_val v)"
    define s1 where "s1 = record_op (?op\<lparr>ho_file := Some f\<rparr>) s"
    let ?kfd = "sh_new H (ss_log s) (ss_files s)"
    have s1: "inv s1" "A \<subseteq> may (ss_log s1)"
      unfolding s1_def by (rule record_conf [OF s op])+
    have f: "f \<in> may (ss_log s1)" unfolding s1_def record_op_def by (simp add: may_opened)
    show ?thesis
    proof (cases "?kfd < 0")
      case True
      then show ?thesis using Inr s1 by (simp add: host_open_def sbind_def sret_def Let_def s1_def f_def)
    next
      case False
      define s2 where "s2 = s1\<lparr>ss_files := (ss_files s1)(?kfd := Some f)\<rparr>"
      have o: "host_open H host fl md s = (Inr (Inr ?kfd), s2)"
        using False Inr by (simp add: host_open_def Let_def s2_def s1_def f_def record_op_def)
      have s2: "inv s2" "insert f A \<subseteq> may (ss_log s2)"
        unfolding s2_def using new_file [OF s1(1) f] s1(2) f by simp_all
      obtain d s3 where d: "host_checkdir H host s2 = (Inr d, s3)"
        by (simp add: host_checkdir_def host_ask_def sbind_def sret_def)
      have s3: "inv s3" "insert f A \<subseteq> may (ss_log s3)"
        using confD [OF host_checkdir_conf [OF host] s2, of H] d by simp_all
      have files: "ss_files s3 ?kfd = Some f"
        using host_checkdir_files [of H host s2] d by (simp add: s2_def)
      obtain fd t h where fin: "open_finish (mp_fdtable (s_mem s3)) ?kfd (if d = 0 then Some path else None) (sint flags)
          (ss_files s3) = (fd, t, h)" by (metis surj_pair)
      have "table_in (may (ss_log s3)) t h"
        by (rule open_finish_in [OF table [OF s3(1)] _ fin]) (use files s3(2) in simp)
      then have "inv (put_table t (s3\<lparr>ss_files := h\<rparr>))" by (rule new_table [OF s3(1)])
      then show ?thesis using o d fin s3(2) by (simp add: sbind_def put_table_def put_mem_def Let_def)
    qed
  qed
qed

lemma sys_openat_conf: "conf A (sys_openat H d p fl md)"
  unfolding sys_openat_def by (intro conf_if conf_sret with_path_conf open_conf)

lemma do_chdir_conf [conf_intros]: "conf A (do_chdir H path)"
proof (rule conf_other)
  fix s :: sys_state
  have "lp_mem p = lp_mem (ss_proc s) \<and> lp_dir_maps p = lp_dir_maps (ss_proc s)"
    if "proc_chdir chk path (ss_proc s) = Some (r, p)" for chk r p
    using that by (auto simp: proc_chdir_def bind_eq_Some_conv split: if_splits prod.splits)
  then show "lp_mem (ss_proc (snd (do_chdir H path s))) = lp_mem (ss_proc s) \<and>
    lp_dir_maps (ss_proc (snd (do_chdir H path s))) = lp_dir_maps (ss_proc s) \<and>
    ss_vm (snd (do_chdir H path s)) = ss_vm s \<and> ss_log (snd (do_chdir H path s)) = ss_log s \<and>
    ss_files (snd (do_chdir H path s)) = ss_files s \<and>
    (threads_ok b s \<longrightarrow> threads_ok b (snd (do_chdir H path s)))"
    by (auto simp: do_chdir_def threads_ok_def split: option.split)
qed

lemma sys_chdir_conf: "conf A (sys_chdir H p)"
  unfolding sys_chdir_def by (intro conf_intros)

lemma sys_fchdir_conf: "conf A (sys_fchdir H fd)"
  unfolding sys_fchdir_def Let_def
  by (rule confI) (use confD [OF do_chdir_conf] in \<open>auto split: option.split\<close>)

lemma mask_length [simp]: "length (mask_loop i bits) = length bits"
  by (induction i) (simp_all add: Let_def)

lemma bytes_of_length [simp]: "length (bytes_of s) = length s"
  by (simp add: bytes_of_def)

lemma sys_getcwd_conf: "conf A (sys_getcwd p n)"
proof -
  have body: "conf A (sbind (box_store p (take (min (unat n) len) bs)) (\<lambda>_. sbind (box_store (p + of_nat (min (unat n) len) - 1) [0])
      (\<lambda>_. sret x)))" if v: "lfi_box_bufvalid b p n" and n: "n \<noteq> 0" and len: "0 < len" for len bs and x :: int
  proof -
    let ?k = "min (unat n) len"
    have "0 < unat n" using n by (simp add: unat_gt_0)
    then have k: "0 < ?k" "?k \<le> unat n" using len by simp_all
    have "length (take ?k bs) \<le> unat n" by simp
    then have 1: "lfi_box_bufvalid b p (of_nat (length (take ?k bs)))"
      using bufvalid_part [OF v, of 0 "length (take ?k bs)"] by simp
    have "unat n < 2 ^ 64" by simp
    then have "?k - 1 < 2 ^ 64" using k(2) by linarith
    then have "unat (of_nat (?k - 1) :: u64) = ?k - 1" by (rule unat_of_nat64)
    then have 2: "lfi_box_bufvalid b (p + of_nat (?k - 1)) (of_nat 1)"
      using bufvalid_part [OF v, of "of_nat (?k - 1)" 1] k by simp
    have eq: "p + of_nat ?k - 1 = p + of_nat (?k - 1)" using k(1) by (simp add: of_nat_diff)
    have 3: "lfi_box_bufvalid b (p + of_nat ?k - 1) (of_nat (length [0 :: u8]))"
      unfolding eq using 2 by simp
    show ?thesis by (rule conf_sbind [OF box_store_conf [OF 1] conf_sbind [OF box_store_conf [OF 3] conf_sret]])
  qed
  show ?thesis unfolding sys_getcwd_def Let_def
    by (intro conf_if conf_sret conf_with_buf, rule conf_at, rule body)
      (simp_all only: zero_less_Suc Suc_eq_plus1 [symmetric] not_False_eq_True)
qed

lemma stat_fields_fit:
  "\<forall>(off, k, v) \<in> set (stat_fields ar r). unat off + k \<le> unat (STAT_SIZE ar)"
  by (simp add: stat_fields_def STAT_SIZE_def)

lemma host_fstatat_conf [conf_intros]:
  assumes "set_option f \<subseteq> A" "\<forall>h \<in> set paths. resolved maps h" "lfi_box_bufvalid b p (STAT_SIZE (sh_arch H))"
  shows "conf A (host_fstatat H f paths p fl)"
  unfolding host_fstatat_def
  by (intro conf_if conf_sstop conf_sbind host_ask_conf conf_sum conf_sret put_fields_conf [OF assms(3) stat_fields_fit])
    (use assms in \<open>auto simp: host_call_ok_def resolved_def\<close>)

lemma sys_newfstatat_conf: "conf A (sys_newfstatat H d p q fl)"
  unfolding sys_newfstatat_def by (intro conf_intros) auto

lemma put_timespec_conf [conf_intros]:
  "lfi_box_bufvalid b p TIMESPEC_SIZE \<Longrightarrow> conf A (put_timespec p x y)"
  unfolding put_timespec_def by (erule put_fields_conf) (simp add: TIMESPEC_SIZE_def)

lemma sys_clock_gettime_conf: "conf A (sys_clock_gettime H cl p)"
  unfolding sys_clock_gettime_def
  by (intro conf_option conf_sret conf_with_buf conf_sbind host_ask_conf conf_sum put_timespec_conf)
    (auto simp: host_call_ok_def)

lemma sys_nanosleep_conf: "conf A (sys_nanosleep H p q)"
proof -
  have "conf A (\<lambda>s. sbind (put_timespec q (sh_junk H (ss_log s) 0) (sh_junk H (ss_log s) 1)) (\<lambda>_. sret x) s)"
    if "lfi_box_bufvalid b q TIMESPEC_SIZE" for x :: int
    by (rule conf_at) (intro conf_sbind conf_sret put_timespec_conf that)
  then show ?thesis unfolding sys_nanosleep_def
    by (intro conf_with_buf conf_sbind box_load_conf host_ask_conf conf_sum conf_sret conf_if)
      (auto simp: host_call_ok_def)
qed

lemma sys_time_conf: "conf A (sys_time H p)"
  unfolding sys_time_def by (intro conf_intros) auto

lemma put_rlimit_conf: "lfi_box_bufvalid b p 16 \<Longrightarrow> conf A (put_rlimit p v)"
  unfolding put_rlimit_def by (intro conf_intros, erule put_fields_conf) simp

lemma info_calls_conf:
  "conf A (sys_ioctl H fd req p)" "conf A (sys_prctl op p)" "conf A (sys_arch_prctl H code addr)"
  "conf A (sys_getrlimit res p)" 
  subgoal unfolding sys_ioctl_def by (intro conf_intros) (auto simp: host_call_ok_def)
  subgoal unfolding sys_prctl_def pr_set_name_def by (intro conf_intros)
  subgoal unfolding sys_arch_prctl_def by (rule conf_other) (simp add: threads_ok_def ctid_ok_def)
  subgoal unfolding sys_getrlimit_def
    by (intro conf_with_buf confI) (use confD [OF put_rlimit_conf] in auto)
  done

lemma sys_sysinfo_conf: "conf A (sys_sysinfo H p)"
proof -
  have body: "conf A (sbind (box_store p (sysinfo_bytes v)) (\<lambda>_.
      sbind (put_fields p [(8, 8, x), (16, 8, y), (24, 8, z)]) (\<lambda>_. sret 0)))"
    if v: "lfi_box_bufvalid b p SYSINFO_SIZE" for v x y z
  proof -
    have len: "length (sysinfo_bytes v) = 368" by (simp add: sysinfo_bytes_def int_bytes_def)
    have "\<forall>(off, k, v) \<in> set [(8, 8, x), (16, 8, y), (24, 8, z)]. unat (off :: u64) + k \<le> unat SYSINFO_SIZE"
      by (simp add: SYSINFO_SIZE_def)
    note put_fields_conf [OF v this]
    then show ?thesis using v len by (intro conf_intros) (simp_all add: SYSINFO_SIZE_def)
  qed
  show ?thesis unfolding sys_sysinfo_def
    by (intro conf_with_buf, rule conf_sbind [OF host_ask_conf])
      (simp add: host_call_ok_def, intro conf_sum conf_sret body)
qed

text \<open>The names of \<^verbatim>\<open>uname\<close> fit their fields.\<close>

lemma put_names_conf:
  assumes "lfi_box_bufvalid b p n" "unat off + 65 * length ns \<le> unat n" "\<forall>x \<in> set ns. length x < 65"
  shows "conf A (put_names (p + off) ns)"
  using assms(2,3)
proof (induction ns arbitrary: off)
  case (Cons x ns)
  have x: "unat off + (length x + 1) \<le> unat n" using Cons.prems by simp
  have "lfi_box_bufvalid b (p + off) (of_nat (length (bytes_of x @ [0])))"
    using bufvalid_part [OF assms(1) x] by simp
  then have 1: "conf B (box_store (p + off) (bytes_of x @ [0]))" for B by (rule box_store_conf)
  have "unat n < 18446744073709551616" by simp
  moreover have "65 \<le> 65 * length (x # ns)" by simp
  ultimately have n: "unat off + 65 < 18446744073709551616" using Cons.prems(1) by linarith
  have "unat (of_nat UTSNAME_LENGTH :: u64) = 65" by (simp add: UTSNAME_LENGTH_def)
  then have "unat (off + of_nat UTSNAME_LENGTH) = unat off + 65"
    using n by (simp add: unat_add64)
  then have "conf A (put_names (p + (off + of_nat UTSNAME_LENGTH)) ns)"
    using Cons.prems by (intro Cons.IH) auto
  then show ?case using 1 by (simp add: conf_sbind add.assoc)
qed (simp add: conf_sret)

lemma sys_uname_conf: "conf A (sys_uname H p)"
proof -
  have "length (machine_name ar) < 65" for ar by (cases ar) (simp_all add: machine_name_def)
  then have body: "conf A (put_names (p + 0) [''Linux LFI'', ''lfi-sandbox'', ''4.5.0-lfi'', ''0.0.0-unknown'', machine_name ar])"
    if v: "lfi_box_bufvalid b p (of_nat (5 * UTSNAME_LENGTH))" for ar
    by (intro put_names_conf [OF v]) (simp_all add: UTSNAME_LENGTH_def)
  show ?thesis unfolding sys_uname_def by (intro conf_with_buf conf_sbind conf_sret) (use body in simp)
qed

lemma thread_calls_conf:
  "conf A sys_gettid" "conf A (sys_sched_yield H)" "conf A (sys_set_tid_address p)" "conf A sys_ignore" "conf A sys_nosys"
  subgoal unfolding sys_gettid_def by (rule conf_other) simp
  subgoal unfolding sys_sched_yield_def by (intro conf_sbind host_ask_conf conf_sret) (simp add: host_call_ok_def)
  subgoal unfolding sys_set_tid_address_def by (intro conf_with_buf, rule conf_other) (simp add: threads_ok_def ctid_ok_def)
  by (simp_all add: sys_ignore_def sys_nosys_def conf_sret)

lemma sys_sched_getaffinity_conf: "conf A (sys_sched_getaffinity H n p)"
  unfolding sys_sched_getaffinity_def Let_def
  by (intro conf_if conf_sret conf_with_buf conf_guard conf_sbind copyin_conf)

lemma futex_call_conf: "\<forall>p \<in> set addrs. lfi_box_bufvalid b p 4 \<Longrightarrow> conf A (futex_call H args addrs)"
  unfolding futex_call_def by (intro conf_sbind host_ask_conf conf_sret) (simp add: host_call_ok_def)

lemma sys_futex_conf: "conf A (sys_futex H p op v t q)"
proof -
  have 1: "conf A (futex_wait H p op v t)" if "lfi_box_bufvalid b p 4"
    unfolding futex_wait_def host_futex_wait_def
    by (intro conf_if conf_with_buf) (auto intro!: futex_call_conf conf_sbind box_load_conf that)
  have 2: "conf A (host_futex_wake H p op v)" if "lfi_box_bufvalid b p 4"
    unfolding host_futex_wake_def by (rule futex_call_conf) (use that in simp)
  have 3: "conf A (host_futex_requeue H p op v w q)" if "lfi_box_bufvalid b p 4" "lfi_box_bufvalid b q 4" for w
    unfolding host_futex_requeue_def by (rule futex_call_conf) (use that in simp)
  show ?thesis unfolding sys_futex_def Let_def
    by (intro conf_if conf_sret conf_with_buf 1 2 3)
qed

lemma clearctid_conf: "conf A (clearctid H)"
proof (rule confI)
  fix s
  assume s: "inv s" "A \<subseteq> may (ss_log s)"
  let ?p = "th_ctidp (ss_thread s)"
  show "inv (snd (clearctid H s)) \<and> A \<subseteq> may (ss_log (snd (clearctid H s)))"
  proof (cases "?p = 0 \<or> \<not> ptrcheck (s_mem s) ?p")
    case True
    then show ?thesis using s by (auto simp: clearctid_def Let_def)
  next
    case False
    then have "lfi_box_bufvalid b ?p (of_nat (length [0, 0, 0, 0 :: u8]))"
      using threads [OF s(1)] by (simp add: threads_ok_def ctid_ok_def)
    then have "conf A (sbind (box_store ?p [0, 0, 0, 0]) (\<lambda>_.
        sbind (sys_futex H ?p LINUX_FUTEX_WAKE (ucast INT_MAX) 0 0) (\<lambda>_. sret ())))"
      by (intro conf_sbind box_store_conf sys_futex_conf conf_sret)
    from confD [OF this s] False show ?thesis by (simp add: clearctid_def Let_def)
  qed
qed

lemma lfi_ctx_exit_conf: "conf A (lfi_ctx_exit code)"
  by (rule conf_other) (simp add: lfi_ctx_exit_def)

text \<open>A change of the fields that no law mentions, before a part.\<close>

lemma conf_after:
  assumes "conf A k" "\<And>s. lp_mem (ss_proc (g s)) = lp_mem (ss_proc s) \<and>
    lp_dir_maps (ss_proc (g s)) = lp_dir_maps (ss_proc s) \<and> ss_vm (g s) = ss_vm s \<and> ss_log (g s) = ss_log s \<and>
    ss_files (g s) = ss_files s \<and> (threads_ok b s \<longrightarrow> threads_ok b (g s))"
  shows "conf A (\<lambda>s. k (g s))"
proof (rule confI)
  fix s
  assume s: "inv s" "A \<subseteq> may (ss_log s)"
  have "inv (g s)" using assms(2) same [OF s(1), of "g s"] threads [OF s(1)] by metis
  then show "inv (snd (k (g s))) \<and> A \<subseteq> may (ss_log (snd (k (g s))))"
    using confD [OF assms(1)] assms(2) s(2) by metis
qed

lemma thread_exit_conf: "conf A (thread_exit H kind code :: 'c sys)"
proof -
  define g :: "sys_state \<Rightarrow> sys_state" where "g = (\<lambda>s. if kind = LFI_EXIT_PROCESS then s\<lparr>ss_exit_code := code, ss_terminating := True\<rparr> else s)"
  let ?k = "\<lambda>s :: sys_state. if th_owner (ss_thread s) = LFI_THREAD_HOST then sbind (clearctid H) (\<lambda>_. sstop ReturnEnd) s
         else if th_paused (ss_thread s) then (Inl Fault, s)
         else if th_exited (ss_thread s) then (Inl Fault, s)
         else sbind (clearctid H) (\<lambda>_. lfi_ctx_exit code) (set_thread (th_exited_update (\<lambda>_. True)) s) :: (stop + 'c) \<times> sys_state"
  have 1: "conf A (sbind (clearctid H) (\<lambda>_. sstop ReturnEnd))"
    by (intro conf_sbind clearctid_conf conf_sstop)
  have 2: "conf A (\<lambda>s. sbind (clearctid H) (\<lambda>_. lfi_ctx_exit code) (set_thread (th_exited_update (\<lambda>_. True)) s))"
    by (rule conf_after [OF conf_sbind [OF clearctid_conf lfi_ctx_exit_conf]])
      (simp add: set_thread_def threads_ok_def ctid_ok_def)
  have "conf A ?k" by (intro conf_branch 1 2 conf_stay)
  then have "conf A (\<lambda>s. ?k (g s))" by (rule conf_after) (simp add: g_def threads_ok_def)
  moreover have "(thread_exit H kind code :: 'c sys) = (\<lambda>s. ?k (g s))"
    by (rule ext) (simp only: thread_exit_def g_def Let_def)
  ultimately show ?thesis by (simp only:)
qed

lemma exit_calls_conf:
  "conf A (sys_exit H code)" "conf A (sys_exit_group H code)" "conf A sys_lfi_pause" "conf A (sys_checkpoint H)"
  subgoal unfolding sys_exit_def by (rule thread_exit_conf)
  subgoal unfolding sys_exit_group_def by (rule thread_exit_conf)
  subgoal
  proof -
    have "conf A (\<lambda>s. lfi_ctx_exit 0 (set_thread (th_paused_update (\<lambda>_. True)) s))"
      by (rule conf_after [OF lfi_ctx_exit_conf]) (simp add: set_thread_def threads_ok_def ctid_ok_def)
    then show ?thesis unfolding sys_lfi_pause_def by (rule conf_guard)
  qed
  subgoal unfolding sys_checkpoint_def
    by (intro conf_branch conf_stay) (rule conf_at, rule thread_exit_conf)
  done

lemma thread_clone_conf: "conf A (thread_clone H ow)"
  by (rule conf_other) (simp add: thread_clone_def Let_def threads_ok_def)

lemma thread_clone_ctid: "thread_clone H ow s = (Inr (Some t), s') \<Longrightarrow> th_ctidp t = 0"
  by (auto simp: thread_clone_def Let_def split: if_splits)

lemma start_thread_conf:
  assumes "ctid_ok b t"
  shows "conf A (start_thread H t)"
  by (rule conf_other) (use assms in \<open>simp add: start_thread_def threads_ok_def ctid_ok_def\<close>)

lemma spawn_conf: "conf A (spawn H fl stack ptid ctid tls)"
proof -
  let ?f = "(fl AND NOT 0xff) AND not32 (LINUX_CLONE_DETACHED OR LINUX_CLONE_IO)"
  define set_up where "set_up = (\<lambda>t :: linux_thread.
       (let t = (if ?f AND LINUX_CLONE_SETTLS \<noteq> 0 then t\<lparr>th_tp := tls\<rparr> else t);
            t = (if ?f AND LINUX_CLONE_CHILD_CLEARTID \<noteq> 0 then t\<lparr>th_ctidp := ctid\<rparr> else t)
        in t\<lparr>th_ret := 0, th_sp := stack\<rparr>))"
  define rest where "rest = (\<lambda>t. sbind (if ?f AND LINUX_CLONE_CHILD_SETTID \<noteq> 0
                         then box_store ctid (int_bytes 4 (th_tid t)) else sret ()) (\<lambda>_.
                  sbind (start_thread H t) (\<lambda>ok.
                    if \<not> ok then sret (- LINUX_EAGAIN)
                    else sbind (if ?f AND LINUX_CLONE_PARENT_SETTID \<noteq> 0
                                then box_store ptid (int_bytes 4 (th_tid t)) else sret ())
                      (\<lambda>_. sret (th_tid t)))))"
  have rest: "conf B (rest t)" if "lfi_box_bufvalid b ctid 4" "lfi_box_bufvalid b ptid 4" "ctid_ok b t" for t B
    unfolding rest_def
    by (intro conf_sbind conf_if conf_sret box_store_conf start_thread_conf that(3))
      (use that in \<open>simp_all add: int_bytes_def\<close>)
  have fresh: "ctid_ok b (set_up t)" if "lfi_box_bufvalid b ctid 4" "ctid_ok b t" for t
    using that by (simp add: set_up_def Let_def ctid_ok_def)
  have body: "conf A (sbind (thread_clone H LFI_THREAD_RUNTIME) (\<lambda>r. case r of
             None \<Rightarrow> sret (- LINUX_EAGAIN) | Some t \<Rightarrow> rest (set_up t)))"
    if v: "lfi_box_bufvalid b ctid 4" "lfi_box_bufvalid b ptid 4"
  proof (rule confI)
    fix s
    assume s: "inv s" "A \<subseteq> may (ss_log s)"
    obtain r s1 where r: "thread_clone H LFI_THREAD_RUNTIME s = (r, s1)" by (cases "thread_clone H LFI_THREAD_RUNTIME s")
    have s1: "inv s1" "A \<subseteq> may (ss_log s1)" using confD [OF thread_clone_conf s, of H LFI_THREAD_RUNTIME] r by auto
    show "inv (snd (sbind (thread_clone H LFI_THREAD_RUNTIME) (\<lambda>r. case r of
             None \<Rightarrow> sret (- LINUX_EAGAIN) | Some t \<Rightarrow> rest (set_up t)) s)) \<and>
      A \<subseteq> may (ss_log (snd (sbind (thread_clone H LFI_THREAD_RUNTIME) (\<lambda>r. case r of
             None \<Rightarrow> sret (- LINUX_EAGAIN) | Some t \<Rightarrow> rest (set_up t)) s)))"
    proof (cases "\<exists>t. r = Inr (Some t)")
      case True
      then obtain t where t: "r = Inr (Some t)" by blast
      have "ctid_ok b t" using thread_clone_ctid r t by (simp add: ctid_ok_def)
      from confD [OF rest [OF v fresh [OF v(1) this]] s1] show ?thesis using r t by (simp add: sbind_def)
    next
      case False
      then show ?thesis using r s1 by (auto simp: sbind_def sret_def split: sum.split option.split)
    qed
  qed
  have "conf A (\<lambda>s. if \<not> ptrcheck (s_mem s) stack then (Inr (- LINUX_EFAULT), s)
        else with_buf ctid 4 4 LINUX_EFAULT (with_buf ptid 4 4 LINUX_EFAULT
          (sbind (thread_clone H LFI_THREAD_RUNTIME) (\<lambda>r. case r of
             None \<Rightarrow> sret (- LINUX_EAGAIN) | Some t \<Rightarrow> rest (set_up t)))) s)"
    by (intro conf_guard conf_with_buf body)
  then show ?thesis unfolding spawn_def Let_def rest_def set_up_def by (intro conf_if conf_sret)
qed

lemma sys_clone_conf: "conf A (sys_clone H fl stack ptid ctid tls)"
  unfolding sys_clone_def by (intro conf_if conf_sret spawn_conf)

text \<open>A memory call is a sequence of requests and gives the borrowed descriptor back.\<close>

lemma mem_call_conf:
  assumes "\<And>p h m. box_ok (mp_box p) \<Longrightarrow>
    \<exists>r p' m'. f (p, h, m) = Some (r, p', h, m') \<and> requests env False (p, m) (p', m')"
  shows "conf A (mem_call f)"
proof (rule confI)
  fix s
  assume s: "inv s" "A \<subseteq> may (ss_log s)"
  obtain r p' m' where r: "f (s_mem s, ss_files s, ss_vm s) = Some (r, p', ss_files s, m')"
    "requests env False (s_mem s, ss_vm s) (p', m')"
    using assms [OF box [OF s(1)]] by blast
  show "inv (snd (mem_call f s)) \<and> A \<subseteq> may (ss_log (snd (mem_call f s)))"
    using moved [OF s(1) r(2)] r(1) s(2) by (simp add: mem_call_def put_mem_def)
qed

lemma as_ret_conf: "conf A k \<Longrightarrow> conf A (as_ret k)"
  unfolding as_ret_def by (intro conf_sbind conf_sret)

lemma mem_calls_conf:
  assumes "\<And>log h. fresh_fd (sh_new H log h) h"
  shows "conf A (mem_call (sys_brk env a))" "conf A (mem_call (\<lambda>m. Some (sys_munmap env a n m)))"
    "conf A (mem_call (\<lambda>m. Some (sys_mprotect env a n prot m)))"
    "conf A (\<lambda>s. mem_call (sys_mmap env (sh_new H (ss_log s) (ss_files s)) a n prot fl fd off) s)"
proof -
  show "conf A (mem_call (sys_brk env a))"
    by (rule mem_call_conf) (use sys_brk_cases in blast)
  have mem: "\<exists>r p' m'. Some (f (p, h, m)) = Some (r, p', h, m') \<and> requests env False (p, m) (p', m')"
    if "box_ok (mp_box p)" "mem_call_ok c" "\<And>s. mem_do env c s = Some (snd (f s))"
    for f :: "mem_state \<Rightarrow> int \<times> mem_state" and p h m c
    using mem_do_requests [OF that(1,2), of False env h m] that(3) by (cases "f (p, h, m)") auto
  show "conf A (mem_call (\<lambda>m. Some (sys_munmap env a n m)))"
    by (rule mem_call_conf, rule mem [of _ "SysMunmap a n"]) simp_all
  show "conf A (mem_call (\<lambda>m. Some (sys_mprotect env a n prot m)))"
    by (rule mem_call_conf, rule mem [of _ "SysMprotect a n prot"]) simp_all
  show "conf A (\<lambda>s. mem_call (sys_mmap env (sh_new H (ss_log s) (ss_files s)) a n prot fl fd off) s)"
  proof (rule confI)
    fix s
    assume s: "inv s" "A \<subseteq> may (ss_log s)"
    obtain r p' m' where r: "sys_mmap env (sh_new H (ss_log s) (ss_files s)) a n prot fl fd off
        (s_mem s, ss_files s, ss_vm s) = Some (r, p', ss_files s, m')" "requests env False (s_mem s, ss_vm s) (p', m')"
      using sys_mmap_requests [OF box [OF s(1)] assms, of False] by blast
    show "inv (snd (mem_call (sys_mmap env (sh_new H (ss_log s) (ss_files s)) a n prot fl fd off) s)) \<and>
      A \<subseteq> may (ss_log (snd (mem_call (sys_mmap env (sh_new H (ss_log s) (ss_files s)) a n prot fl fd off) s)))"
      using moved [OF s(1) r(2)] r(1) s(2) by (simp add: mem_call_def put_mem_def)
  qed
qed

lemmas call_confs = io_conf fd_calls_conf sys_getdents64_conf sys_getrandom_conf path_calls_conf close_conf
  dup_calls_conf sys_openat_conf sys_chdir_conf sys_fchdir_conf sys_getcwd_conf sys_newfstatat_conf
  sys_clock_gettime_conf sys_nanosleep_conf sys_time_conf info_calls_conf sys_sysinfo_conf sys_uname_conf
  thread_calls_conf sys_sched_getaffinity_conf sys_futex_conf exit_calls_conf sys_clone_conf

lemma table_conf:
  assumes "\<And>log h. fresh_fd (sh_new H log h) h" "sh_env H = env"
  shows "\<forall>(n, k) \<in> set (sys_table H a0 a1 a2 a3 a4 a5). conf A k"
  unfolding sys_table_def
  by (simp add: as_ret_conf call_confs mem_calls_conf [OF assms(1)] assms(2) sys_readv_def sys_writev_def
      conf_sret conf_if)

lemma syshandle_conf:
  assumes "\<And>log h. fresh_fd (sh_new H log h) h" "sh_env H = env"
  shows "conf A (syshandle H ex n a0 a1 a2 a3 a4 a5)"
proof -
  let ?c = "syscall_of (sh_arch H) n \<bind> map_of (sys_table H a0 a1 a2 a3 a4 a5)"
  have "conf A k" if "?c = Some k" for k
    using that table_conf [OF assms, of a0 a1 a2 a3 a4 a5 A] by (auto simp: bind_eq_Some_conv dest!: map_of_SomeD)
  then show ?thesis unfolding syshandle_def
    by (intro conf_sbind exit_calls_conf conf_option conf_if conf_sret conf_sstop)
qed

end

subsection \<open>The state of the runtime keeps the contract\<close>

definition sys_inv :: "host_env \<Rightarrow> lfi_box \<Rightarrow> vm \<Rightarrow> string list option \<Rightarrow> nat set \<Rightarrow> sys_state \<Rightarrow> bool" where
  "sys_inv e b m maps F s \<longleftrightarrow> checked e b \<and> box_step e b m (s_box s) (ss_vm s) \<and> lp_dir_maps (ss_proc s) = maps \<and>
     trace_ok b maps F (ss_log s) \<and> table_in (F \<union> opened (ss_log s)) (mp_fdtable (s_mem s)) (ss_files s) \<and>
     threads_ok b s"

lemma sys_inv_box:
  assumes "sys_inv e b m maps F s"
  shows "box_ok b" "box_ok (s_box s)" "bx_min (s_box s) = bx_min b" "bx_max (s_box s) = bx_max b"
    "bx_ps (s_box s) = bx_ps b" "checked e (s_box s)"
proof -
  have c: "checked e b" and st: "box_step e b m (s_box s) (ss_vm s)" using assms by (auto simp: sys_inv_def)
  note s = box_step_box [OF checkedD(1) [OF c] st]
  show "box_ok b" "box_ok (s_box s)" "bx_min (s_box s) = bx_min b" "bx_max (s_box s) = bx_max b"
    "bx_ps (s_box s) = bx_ps b" "checked e (s_box s)"
    using s checkedD(1) [OF c] checked_step [OF c st] by simp_all
qed

lemma opened_Cons: "opened log \<subseteq> opened (op # log)"
  by (auto simp: opened_def)

lemma sys_inv_table:
  "sys_inv e b m maps F s \<Longrightarrow> table_in (F \<union> opened (ss_log s)) (mp_fdtable (s_mem s)) (ss_files s)"
  by (simp add: sys_inv_def)

lemma sys_inv_record:
  assumes "sys_inv e b m maps F s" "host_call_ok b maps (F \<union> opened (ss_log s)) op"
  shows "sys_inv e b m maps F (record_op op s)"
proof -
  have "F \<union> opened (ss_log s) \<subseteq> F \<union> opened (op # ss_log s)" using opened_Cons by blast
  from table_in_mono [OF sys_inv_table [OF assms(1)] this] assms show ?thesis
    by (simp add: sys_inv_def record_op_def threads_ok_def)
qed

lemma sys_inv_step:
  assumes "sys_inv e b m maps F s" "box_step e (s_box s) (ss_vm s) (mp_box p) vm" "mp_fdtable p = mp_fdtable (s_mem s)"
  shows "sys_inv e b m maps F (put_mem p (s\<lparr>ss_vm := vm\<rparr>))"
proof -
  have "box_step e b m (s_box s) (ss_vm s)" using assms(1) by (simp add: sys_inv_def)
  from box_step_trans [OF sys_inv_box(1) [OF assms(1)] this assms(2)] assms(1,3) show ?thesis
    by (simp add: sys_inv_def put_mem_def threads_ok_def)
qed

lemma sys_inv_write:
  assumes "sys_inv e b m maps F s" "vm_write (bx_ps (s_box s)) p bs (ss_vm s) = Some vm"
  shows "sys_inv e b m maps F (s\<lparr>ss_vm := vm\<rparr>)"
  using sys_inv_step [OF assms(1) vm_write_step [OF sys_inv_box(2) [OF assms(1)] assms(2)] refl]
  by (simp add: put_mem_def)

lemma sys_inv_moved:
  assumes "sys_inv e b m maps F s" "requests e False (s_mem s, ss_vm s) (q, vm)"
  shows "sys_inv e b m maps F (put_mem q (s\<lparr>ss_vm := vm\<rparr>))"
proof (rule sys_inv_step [OF assms(1) requests_step])
  show "checked e (s_box s)" by (rule sys_inv_box(6) [OF assms(1)])
  show "requests e False (s_mem s, ss_vm s) (q, vm)" by (rule assms(2))
  show "mp_fdtable q = mp_fdtable (s_mem s)" using assms(2) by (simp add: requests_def)
qed

lemma sys_inv_files:
  "sys_inv e b m maps F s \<Longrightarrow> table_in (F \<union> opened (ss_log s)) t h \<Longrightarrow>
     sys_inv e b m maps F (put_table t (s\<lparr>ss_files := h\<rparr>))"
  "sys_inv e b m maps F s \<Longrightarrow> table_in (F \<union> opened (ss_log s)) (mp_fdtable (s_mem s)) h \<Longrightarrow>
     sys_inv e b m maps F (s\<lparr>ss_files := h\<rparr>)"
  by (simp_all add: sys_inv_def put_table_def put_mem_def threads_ok_def)

interpretation sc: call_contract "sys_inv e b m maps F" b maps "\<lambda>log. F \<union> opened log" e
  for e b m maps F
proof (unfold_locales, goal_cases)
  case (1 s) then show ?case by (simp add: sys_inv_box)
next
  case (2 s) then show ?case by (rule sys_inv_box)
next
  case (3 s) then show ?case by (simp add: sys_inv_def)
next
  case (4 log op) then show ?case using opened_Cons by blast
next
  case (5 op f log) then show ?case by (auto simp: opened_def)
next
  case (6 s op) then show ?case by (rule sys_inv_record)
next
  case (7 s p bs vm) then show ?case by (rule sys_inv_write)
next
  case (8 s fd new k fl d h)
  note a = fdacquire_in [OF sys_inv_table [OF 8(1)] 8(2)]
  show ?case using sys_inv_files(2) [OF 8(1) a(1)] a(2) by blast
next
  case (9 s t k) then show ?case by (intro sys_inv_files fdrelease_in sys_inv_table)
next
  case (10 s f k) then show ?case by (intro sys_inv_files table_in_host sys_inv_table) auto
next
  case (11 s t h) then show ?case by (rule sys_inv_files)
next
  case (12 s) then show ?case by (rule sys_inv_table)
next
  case (13 s q vm) then show ?case by (rule sys_inv_moved)
next
  case (14 s s') then show ?case by (simp add: sys_inv_def)
next
  case (15 s) then show ?case by (simp add: sys_inv_def)
qed

subsection \<open>Any activity of a sandbox\<close>

text \<open>
  What the threads of a sandbox do, in any order: a system call, with any number and arguments,
  stores to writable pages of the box, and a switch to another thread of the process. A call
  that stops the thread leaves the state as it was then.
\<close>

definition switch_to :: "linux_thread \<Rightarrow> bool \<Rightarrow> sys_state \<Rightarrow> sys_state" where
  "switch_to t clone s = s\<lparr>ss_thread := t, ss_clone_ctx := clone, ss_spawned := ss_thread s # ss_spawned s\<rparr>"

inductive sandbox_step :: "sys_host \<Rightarrow> sys_state \<Rightarrow> sys_state \<Rightarrow> bool" for H where
  Call: "syshandle H ex n a0 a1 a2 a3 a4 a5 s = (r, s') \<Longrightarrow> sandbox_step H s s'"
| Store: "vm_write (bx_ps (s_box s)) p bs (ss_vm s) = Some vm \<Longrightarrow> sandbox_step H s (s\<lparr>ss_vm := vm\<rparr>)"
| Switch: "t \<in> set (ss_spawned s) \<or> ss_new_ctx s = Some t \<Longrightarrow> sandbox_step H s (switch_to t clone s)"

lemma sandbox_step_inv:
  assumes "\<And>log h. fresh_fd (sh_new H log h) h"
  shows "sandbox_step H s s' \<Longrightarrow> sys_inv (sh_env H) b m maps F s \<Longrightarrow> sys_inv (sh_env H) b m maps F s'"
proof (induction rule: sandbox_step.induct)
  case (Call ex n a0 a1 a2 a3 a4 a5 s r s')
  then show ?case
    using sc.confD [OF sc.syshandle_conf [OF assms refl] Call(2), of "{}" ex n a0 a1 a2 a3 a4 a5] by simp
next
  case (Store s p bs vm)
  then show ?case by (intro sys_inv_write)
next
  case (Switch t s clone)
  then show ?case by (auto simp: sys_inv_def switch_to_def threads_ok_def)
qed

end
