(* ===== verification/SysProps.thy ===== *)
theory SysProps
  imports SysSafe
begin

text \<open>
  Properties of the system calls: a sandbox's activity stays confined, and what some calls do
  that they should not.
\<close>

unbundle bit_operations_syntax

lemma trace_ok_op: "trace_ok b maps F log \<Longrightarrow> op \<in> set log \<Longrightarrow> host_call_ok b maps (F \<union> opened log) op"
proof (induction log)
  case (Cons x log)
  have "F \<union> opened log \<subseteq> F \<union> opened (x # log)" using opened_Cons by blast
  then have mono: "host_call_ok b maps (F \<union> opened log) op \<Longrightarrow> host_call_ok b maps (F \<union> opened (x # log)) op" for op
    by (auto simp: host_call_ok_def)
  then show ?case using Cons by auto
qed simp

definition files_of :: "fd_table \<Rightarrow> host_files \<Rightarrow> nat set" where
  "files_of t h = {f. \<exists>k \<in> set (ft_fds t). k \<noteq> -1 \<and> h k = Some f}"

lemma sandbox_steps_inv:
  assumes "\<And>log h. fresh_fd (sh_new H log h) h" "(sandbox_step H)\<^sup>*\<^sup>* s0 s" "sys_inv (sh_env H) b m maps F s0"
  shows "sys_inv (sh_env H) b m maps F s"
  using assms(2,3) by (induction rule: rtranclp_induct) (auto intro: sandbox_step_inv [OF assms(1)])

text \<open>A process without executable pages and calls so far.\<close>

definition sandbox_start :: "host_env \<Rightarrow> sys_state \<Rightarrow> bool" where
  "sandbox_start e s \<longleftrightarrow> checked e (s_box s) \<and> ss_log s = [] \<and> threads_ok (s_box s) s \<and>
     \<not> ft_passthrough (mp_fdtable (s_mem s)) \<and> length (ft_fds (mp_fdtable (s_mem s))) = LINUX_NOFILE \<and>
     (\<forall>k. box_page (s_box s) k \<longrightarrow> \<not> acc_x (vm_acc (ss_vm s) k))"

text \<open>C1: A sandbox cannot reach outside through the runtime. Whatever its threads do, in any order
  (system calls with any number and arguments, whatever the host answers and also when a call
  faults or ends a thread; stores; switches): every buffer that the runtime or the host accesses
  for it lies in the box, every path given to the host is the result of path resolution with the
  process's mappings, and every file used through a descriptor was open for the sandbox at the
  start or opened by it on such a path. The access rights of pages outside the box do not
  change, and every executable page in it is not writable and holds verified code.\<close>

theorem sandbox_confined:
  assumes "sandbox_start (sh_env H) s0" "files_stable (sh_env H)" "\<And>log h. fresh_fd (sh_new H log h) h"
    and "(sandbox_step H)\<^sup>*\<^sup>* s0 s"
  shows "(\<forall>op \<in> set (ss_log s).
      (\<forall>(p, n) \<in> set (ho_bufs op). bx_min (s_box s0) \<le> p \<and> unat p + unat n \<le> unat (bx_max (s_box s0))) \<and>
      (\<forall>h \<in> set (ho_paths op). \<exists>cwd path.
        path_resolve cwd (lp_dir_maps (ss_proc s0)) path local_buffer = Some (Some h)) \<and>
      (\<forall>f. ho_file op = Some f \<longrightarrow> f \<in> files_of (mp_fdtable (s_mem s0)) (ss_files s0) \<union> opened (ss_log s))) \<and>
    (\<forall>k. \<not> box_page (s_box s0) k \<longrightarrow> vm_acc (ss_vm s) k = vm_acc (ss_vm s0) k) \<and>
    (\<forall>k. box_page (s_box s0) k \<and> acc_x (vm_acc (ss_vm s) k) \<longrightarrow>
       \<not> acc_w (vm_acc (ss_vm s) k) \<and> page_verified (sh_env H) (bx_ps (s_box s0)) (ss_vm s) k)"
proof -
  let ?b = "s_box s0" and ?e = "sh_env H" and ?F = "files_of (mp_fdtable (s_mem s0)) (ss_files s0)"
  note st = assms(1) [unfolded sandbox_start_def]
  have b: "box_ok ?b" using st checkedD(1) by blast
  have "sys_inv ?e ?b (ss_vm s0) (lp_dir_maps (ss_proc s0)) ?F s0"
    using st box_step_refl [OF b] by (auto simp: sys_inv_def table_in_def files_of_def)
  from sandbox_steps_inv [OF assms(3,4) this]
  have i: "sys_inv ?e ?b (ss_vm s0) (lp_dir_maps (ss_proc s0)) ?F s" .
  then have box: "box_step ?e ?b (ss_vm s0) (s_box s) (ss_vm s)"
    and tr: "trace_ok ?b (lp_dir_maps (ss_proc s0)) ?F (ss_log s)" by (auto simp: sys_inv_def)
  note bs = box_step_box [OF b box]
  have buf: "bx_min ?b \<le> p \<and> unat p + unat n \<le> unat (bx_max ?b)" if "lfi_box_bufvalid ?b p n" for p n
    using that by (auto simp: lfi_box_bufvalid_def word_le_nat_alt unat_sub64)
  have ops: "(\<forall>(p, n) \<in> set (ho_bufs op). bx_min ?b \<le> p \<and> unat p + unat n \<le> unat (bx_max ?b)) \<and>
      (\<forall>h \<in> set (ho_paths op). \<exists>cwd path.
        path_resolve cwd (lp_dir_maps (ss_proc s0)) path local_buffer = Some (Some h)) \<and>
      (\<forall>f. ho_file op = Some f \<longrightarrow> f \<in> ?F \<union> opened (ss_log s))" if "op \<in> set (ss_log s)" for op
    using trace_ok_op [OF tr that] buf that by (auto simp: host_call_ok_def opened_def)
  have "x_safe ?e (bx_ps ?b) (ss_vm s0) k" if "box_page ?b k" for k using st that by (simp add: x_safe_def)
  then have "x_safe ?e (bx_ps ?b) (ss_vm s) k" if "box_page ?b k" for k using bs(7) that by blast
  then have x: "\<forall>k. box_page ?b k \<and> acc_x (vm_acc (ss_vm s) k) \<longrightarrow>
       \<not> acc_w (vm_acc (ss_vm s) k) \<and> page_verified ?e (bx_ps ?b) (ss_vm s) k"
    using assms(2) by (auto simp: x_safe_def)
  have k: "\<forall>k. \<not> box_page ?b k \<longrightarrow> vm_acc (ss_vm s) k = vm_acc (ss_vm s0) k" using bs(6) by (simp add: keeps_def)
  show ?thesis using ops k x by blast
qed

definition demo_thread :: linux_thread where
  "demo_thread = \<lparr>th_tid = 10000, th_ctidp = 0, th_stack = 0, th_stack_size = 0, th_owner = LFI_THREAD_MAIN,
     th_exited = False, th_paused = False, th_in_run = True, th_tp = 0, th_sp = 0, th_ret = 0\<rparr>"

definition demo_state :: sys_state where
  "demo_state = \<lparr>ss_proc = demo_linux, ss_terminating = False, ss_exit_code = 0, ss_thread = demo_thread,
     ss_clone_ctx = False, ss_thread_count = 1, ss_spawned = [], ss_new_ctx = None, ss_files = Map.empty,
     ss_vm = demo_vm\<lparr>vm_acc := (\<lambda>k. if k = 0x11 then read_write else no_access)\<rparr>, ss_log = []\<rparr>"

text \<open>A host where every call succeeds with 0.\<close>

definition demo_host :: "(nat \<Rightarrow> int) \<Rightarrow> sys_host" where
  "demo_host junk = \<lparr>sh_env = demo_env, sh_arch = X64,
     sh_call = (\<lambda>log op. Inr \<lparr>hr_val = 0, hr_bytes = [], hr_nums = []\<rparr>), sh_new = (\<lambda>log h. -1),
     sh_ok = (\<lambda>log. True), sh_dup2 = (\<lambda>log. True), sh_ctx = (\<lambda>log. True), sh_pthread = (\<lambda>log. True),
     sh_cpus = 1, sh_errno = (\<lambda>e. 22), sh_junk = (\<lambda>log. junk)\<rparr>"

lemma demo_proc_simps [simp]: "s_box demo_state = demo_box" "mp_fdtable (s_mem demo_state) = fd_empty_table"
  by (simp_all add: demo_state_def demo_linux_def blank_proc_def)

lemma demo_yield:
  "syshandle (demo_host j) False 24 0 0 0 0 0 0 demo_state = (Inr 0,
     record_op \<lparr>ho_kind = KYield, ho_file = None, ho_paths = [], ho_args = [], ho_bufs = []\<rparr> demo_state)"
proof -
  have "syscall_of X64 24 = Some ''sched_yield''"
    by (simp add: syscall_of_def LFI_SYS_pause_def x64_numbers_def)
  moreover have "map_of (sys_table H a0 a1 a2 a3 a4 a5) ''sched_yield'' = Some (as_ret (sys_sched_yield H))" for H a0 a1 a2 a3 a4 a5
    by (simp add: sys_table_def)
  ultimately show ?thesis
    by (simp add: syshandle_def sys_checkpoint_def sbind_def demo_host_def as_ret_def sys_sched_yield_def
        host_ask_def sret_def) (simp add: demo_state_def)
qed

theorem sandbox_confined_witness:
  "\<exists>s. (sandbox_step (demo_host (\<lambda>i. 0)))\<^sup>*\<^sup>* demo_state s \<and> ss_log s \<noteq> [] \<and>
    (\<forall>op \<in> set (ss_log s). \<forall>(p, n) \<in> set (ho_bufs op). bx_min demo_box \<le> p \<and> unat p + unat n \<le> unat (bx_max demo_box))"
proof -
  let ?H = "demo_host (\<lambda>i. 0)"
  let ?s = "record_op \<lparr>ho_kind = KYield, ho_file = None, ho_paths = [], ho_args = [], ho_bufs = []\<rparr> demo_state"
  have e: "sh_env ?H = demo_env" by (simp add: demo_host_def)
  have "can_lower demo_env" by (simp add: can_lower_def demo_env_def)
  then have start: "sandbox_start (sh_env ?H) demo_state"
    unfolding e sandbox_start_def
    using demo_box_ok by (simp add: checked_def fd_empty_table_def)
      (simp add: demo_state_def demo_thread_def threads_ok_def ctid_ok_def demo_vm_def read_write_def)
  have files: "files_stable (sh_env ?H)" by (simp add: e files_stable_def demo_env_def)
  have fresh: "fresh_fd (sh_new ?H log h) h" for log h by (simp add: demo_host_def fresh_fd_def)
  have "(sandbox_step ?H)\<^sup>*\<^sup>* demo_state ?s" using sandbox_step.Call [OF demo_yield] by blast
  moreover note sandbox_confined [OF start files fresh this]
  ultimately show ?thesis by (intro exI [of _ ?s]) (simp add: record_op_def)
qed

subsection \<open>Sleeping leaks host memory\<close>

text \<open>C40: A successful \<^verbatim>\<open>nanosleep\<close> copies 16 bytes of uninitialized host stack into the sandbox. The
  variable for the remaining time is only filled by the host when the sleep is interrupted, but
  it is copied when the sleep succeeds: whatever the two words of that stack slot hold, the
  sandbox finds them in its buffer.\<close>

theorem nanosleep_leaks_stack:
  "\<exists>s. sys_nanosleep (demo_host stack) 0x11000 0x11010 demo_state = (Inr 0, s) \<and>
    vm_bytes (ss_vm s) 0x11010 16 = int_bytes 8 (stack 0) @ int_bytes 8 (stack 1)"
proof -
  have chk: "bufcheck demo_box 0x11000 16 8" "bufcheck demo_box 0x11010 16 8"
    by (simp_all add: bufcheck_def lfi_box_bufvalid_def demo_box_def)
  have len: "length (int_bytes 8 x) = 8" for x by (simp add: int_bytes_def)
  have wrap: "\<not> unat (- 1 :: u64) < 8" by (simp add: unsigned_minus_1_eq_mask mask_eq_exp_minus_1)
  have acc: "vm_acc (ss_vm demo_state) = (\<lambda>k. if k = 0x11 then read_write else no_access)"
    by (simp add: demo_state_def)
  have past: "\<not> vm_past (ss_vm demo_state) k" for k by (simp add: demo_state_def demo_vm_def)
  have load: "pages_have acc_r 4096 (ss_vm demo_state) 0x11000 16"
    by (simp add: pages_have_def acc past pg_def read_write_def upt_rec)
  obtain m1 where m1: "vm_write 4096 0x11010 (int_bytes 8 (stack 0)) (ss_vm demo_state) = Some m1"
    by (simp add: vm_write_def pages_have_def acc past pg_def read_write_def len upt_rec)
  have acc1: "vm_acc m1 = vm_acc (ss_vm demo_state)" "vm_past m1 = vm_past (ss_vm demo_state)"
    by (rule vm_write_mem(1) [OF m1] vm_write_frame(1) [OF m1])+
  obtain m2 where m2: "vm_write 4096 0x11018 (int_bytes 8 (stack 1)) m1 = Some m2"
    by (simp add: vm_write_def pages_have_def acc acc1 past pg_def read_write_def len upt_rec)
  have "vm_bytes m2 0x11010 16 = int_bytes 8 (stack 0) @ int_bytes 8 (stack 1)"
  proof (rule nth_equalityI)
    fix i assume "i < length (vm_bytes m2 0x11010 16)"
    then have i: "i < 16" by (simp add: vm_bytes_def)
    then have "i \<in> set [0, 1, 2, 3, 4, 5, 6, 7, 8, 9, 10, 11, 12, 13, 14, 15]" by (simp, presburger)
    then show "vm_bytes m2 0x11010 16 ! i = (int_bytes 8 (stack 0) @ int_bytes 8 (stack 1)) ! i"
      unfolding vm_bytes_def set_simps insert_iff empty_iff
      by (elim disjE) (simp_all add: vm_write_at [OF m2] vm_write_at [OF m1] len nth_append wrap)
  qed (simp add: vm_bytes_def len)
  with chk load m1 m2 show ?thesis
    by (simp add: sys_nanosleep_def with_buf_def TIMESPEC_SIZE_def sbind_def sret_def box_load_def Let_def
        demo_box_ok record_op_def host_ask_def demo_host_def put_timespec_def box_store_def)
qed

end
