(* ===== verification/StackInit.thy ===== *)
theory StackInit
  imports SysCalls
begin

text \<open>
  The main thread of a process, \<^verbatim>\<open>linux/thread.c\<close>: its stack in the box with arguments,
  environment and auxiliary vector, and the end of a thread. A string is its bytes without the
  final zero; an array of strings is a function from indexes, with \<open>None\<close> for a null pointer.
\<close>

unbundle bit_operations_syntax

definition ARGV_MAX :: int where "ARGV_MAX = 1024"
definition ENVP_MAX :: nat where "ENVP_MAX = 1024"
definition ARGV_MAXLEN :: nat where "ARGV_MAXLEN = 1024"
definition ENVP_MAXLEN :: nat where "ENVP_MAXLEN = 1024"
definition STACK_RND_RANGE :: u64 where "STACK_RND_RANGE = 8192"

lemmas stack_limits = ARGV_MAX_def ENVP_MAX_def ARGV_MAXLEN_def ENVP_MAXLEN_def STACK_RND_RANGE_def

text \<open>
  What the host gives: the bytes \<^verbatim>\<open>getrandom\<close> leaves in the offset and in the buffer for
  \<^verbatim>\<open>AT_RANDOM\<close> (zero where it fails), and the hardware capabilities.
\<close>

record stack_env =
  se_offset :: u16
  se_random :: "u8 list"
  se_hwcap :: u64
  se_hwcap2 :: u64

text \<open>Counting the strings that fit: bytes used with pointers, bytes of strings, strings.\<close>

fun count_strs :: "nat \<Rightarrow> nat \<Rightarrow> nat \<Rightarrow> (nat \<Rightarrow> u8 list option) \<Rightarrow> u64 \<Rightarrow> u64 \<times> u64 \<times> nat \<Rightarrow> u64 \<times> u64 \<times> nat" where
  "count_strs 0 i maxlen strs budget (used, strs_len, n) = (used, strs_len, n)"
| "count_strs (Suc k) i maxlen strs budget (used, strs_len, n) =
     (case strs i of
        None \<Rightarrow> (used, strs_len, n)
      | Some s \<Rightarrow>
          let len = of_nat (min (length s) maxlen)
          in if used + len + 1 + 8 > budget then (used, strs_len, n)
             else count_strs k (i + 1) maxlen strs budget (used + (len + 1 + 8), strs_len + (len + 1), n + 1))"

text \<open>Copying them: bytes copied so far, pointers so far, memory.\<close>

fun copy_strs ::
  "lfi_box \<Rightarrow> nat \<Rightarrow> nat \<Rightarrow> nat \<Rightarrow> (nat \<Rightarrow> u8 list option) \<Rightarrow> u64 \<Rightarrow> u64 \<times> u64 list \<times> vm \<Rightarrow>
   (u64 \<times> u64 list \<times> vm) run" where
  "copy_strs b 0 i maxlen strs start (count, ptrs, m) = Some (count, ptrs, m)"
| "copy_strs b (Suc k) i maxlen strs start (count, ptrs, m) =
     (case strs i of
        None \<Rightarrow> None
      | Some s \<Rightarrow> do {
          let bs = take maxlen s;
          m \<leftarrow> lfi_box_copyto b (start + count) bs m;
          m \<leftarrow> lfi_box_copyto b (start + count + of_nat (length bs)) [0] m;
          copy_strs b k (i + 1) maxlen strs start (count + (of_nat (length bs) + 1), ptrs @ [start + count], m)
        })"

subsection \<open>The auxiliary vector\<close>

definition word_bytes :: "u64 \<Rightarrow> u8 list" where
  "word_bytes x = le_bytes 8 (unat x)"

definition words_bytes :: "u64 list \<Rightarrow> u8 list" where
  "words_bytes xs = concat (map word_bytes xs)"

definition auxv_list :: "elf_info \<Rightarrow> u64 \<Rightarrow> stack_env \<Rightarrow> u64 \<Rightarrow> u64 \<Rightarrow> (u64 \<times> u64) list" where
  "auxv_list li pagesize se execfn rand_start = [
     (23, 0), (7, ei_ldbase li), (3, ei_elfbase li + ei_elfphoff li), (5, ucast (ei_elfphnum li)),
     (4, ucast (ei_elfphentsize li)), (9, ei_elfentry li), (31, execfn), (6, pagesize), (16, se_hwcap se),
     (26, se_hwcap2 se), (25, rand_start), (8, 0), (11, 1000), (12, 1000), (13, 1000), (14, 1000), (32, 0),
     (33, 0), (0, 0)]"

definition auxv_words :: "(u64 \<times> u64) list \<Rightarrow> u64 list" where
  "auxv_words av = concat (map (\<lambda>(t, v). [t, v]) av)"

definition AUXV_SIZE :: u64 where "AUXV_SIZE = 19 * 16"

subsection \<open>The stack\<close>

definition stack_init ::
  "lfi_box \<Rightarrow> elf_info \<Rightarrow> stack_env \<Rightarrow> u64 \<Rightarrow> u64 \<Rightarrow> int \<Rightarrow> (nat \<Rightarrow> u8 list option) \<Rightarrow> (nat \<Rightarrow> u8 list option) \<Rightarrow>
   vm \<Rightarrow> (u64 \<times> vm) run" where
  "stack_init b li se stack stack_size argc argv envp m = do {
     let argc = min argc ARGV_MAX;
     let fixed = AUXV_SIZE + 16 + 8 + 2 * 8 + STACK_RND_RANGE + 32;
     let budget = (if stack_size > fixed then stack_size - fixed else 0);
     let (used, strs_len, nargv) = count_strs (nat argc) 0 ARGV_MAXLEN argv budget (0, 0, 0);
     let (used, strs_len, nenvp) = count_strs ENVP_MAX 0 ENVP_MAXLEN envp budget (used, strs_len, 0);
     let stack_top = stack + stack_size;
     let stack_top = (if \<not> opt_no_aslr (bx_opts b)
                      then stack_top - ucast (se_offset se) mod STACK_RND_RANGE else stack_top);
     let strs_start = truncp (stack_top - strs_len) 16;
     (count, box_argv, m) \<leftarrow> copy_strs b nargv 0 ARGV_MAXLEN argv strs_start (0, [], m);
     (count, box_envp, m) \<leftarrow> copy_strs b nenvp 0 ENVP_MAXLEN envp strs_start (count, [], m);
     let rand_start = strs_start - 16;
     m \<leftarrow> lfi_box_copyto b rand_start (take 16 (se_random se @ replicate 16 0)) m;
     let argp = box_argv @ [0];
     let envpp = box_envp @ [0];
     let auxv = auxv_words (auxv_list li (bx_ps b) se (hd argp) rand_start);
     let argp_size = 8 * of_nat (length argp);
     let envp_size = 8 * of_nat (length envpp);
     let stack_start = truncp (rand_start - 8 - argp_size - envp_size - AUXV_SIZE) 16;
     m \<leftarrow> lfi_box_copyto b stack_start (word_bytes (of_nat nargv)) m;
     m \<leftarrow> lfi_box_copyto b (stack_start + 8) (words_bytes argp) m;
     m \<leftarrow> lfi_box_copyto b (stack_start + 8 + argp_size) (words_bytes envpp) m;
     m \<leftarrow> lfi_box_copyto b (stack_start + 8 + argp_size + envp_size) (words_bytes auxv) m;
     Some (stack_start, m)
   }"

subsection \<open>Threads\<close>

text \<open>
  \<^verbatim>\<open>thread_alloc\<close> takes the next thread id. \<open>ok_thread\<close> and \<open>ok_ctx\<close>: whether the allocations of
  the thread and of its context succeed; \<open>stacksize\<close> is the engine's option.
\<close>

definition lfi_thread_new ::
  "host_env \<Rightarrow> stack_env \<Rightarrow> bool \<Rightarrow> bool \<Rightarrow> u64 \<Rightarrow> elf_info \<Rightarrow> int \<Rightarrow> (nat \<Rightarrow> u8 list option) \<Rightarrow>
   (nat \<Rightarrow> u8 list option) \<Rightarrow> int \<times> lfi_box \<times> vm \<Rightarrow> (linux_thread option \<times> int \<times> lfi_box \<times> vm) run" where
  "lfi_thread_new e se ok_thread ok_ctx stacksize li argc argv envp s = (case s of (nthreads, b, m) \<Rightarrow>
     if \<not> ok_thread then Some (None, nthreads, b, m)
     else let t = \<lparr>th_tid = BASE_TID + nthreads, th_ctidp = 0, th_stack = 0, th_stack_size = 0,
                th_owner = LFI_THREAD_MAIN, th_exited = False, th_paused = False, th_in_run = False,
                th_tp = 0, th_sp = 0, th_ret = 0\<rparr>;
              nthreads = nthreads + 1
     in if \<not> ok_ctx then Some (None, nthreads, b, m)
        else do {
          let prot = LFI_PROT_READ OR LFI_PROT_WRITE;
          let flags = LFI_MAP_PRIVATE OR LFI_MAP_ANONYMOUS;
          (stack, b, m) \<leftarrow>
            (if opt_no_aslr (bx_opts b)
             then lfi_box_mapat e (bx_max b - stacksize) stacksize prot flags (-1) 0 (b, m)
             else lfi_box_mapany e stacksize prot flags (-1) 0 (b, m));
          if stack = -1 then Some (None, nthreads, b, m)
          else do {
            (sp, m) \<leftarrow> stack_init b li se stack stacksize argc argv envp m;
            Some (Some (t\<lparr>th_stack := stack, th_stack_size := stacksize, th_sp := sp\<rparr>), nthreads, b, m)
          }
        })"

text \<open>The stack of a thread that the sandbox created is the sandbox's own.\<close>

definition lfi_thread_free :: "host_env \<Rightarrow> u64 \<Rightarrow> linux_thread \<Rightarrow> lfi_box \<times> vm \<Rightarrow> lfi_box \<times> vm" where
  "lfi_thread_free e stacksize t bm =
     (if th_stack t \<noteq> 0 then snd (lfi_box_munmap e (th_stack t) stacksize bm) else bm)"

subsection \<open>Writing to the stack\<close>

text \<open>The addresses from \<open>lo\<close> to \<open>hi\<close> lie in the box on writable pages.\<close>

definition writable :: "lfi_box \<Rightarrow> vm \<Rightarrow> nat \<Rightarrow> nat \<Rightarrow> bool" where
  "writable b m lo hi \<longleftrightarrow> unat (bx_min b) \<le> lo \<and> hi \<le> unat (bx_max b) \<and>
     (\<forall>x. lo \<le> unat x \<and> unat x < hi \<longrightarrow> acc_w (vm_acc m (pg (bx_ps b) x)) \<and> \<not> vm_past m (pg (bx_ps b) x))"

definition stored :: "vm \<Rightarrow> u64 \<Rightarrow> u8 list \<Rightarrow> bool" where
  "stored m p bs \<longleftrightarrow> (\<forall>x. unat p \<le> unat x \<and> unat x < unat p + length bs \<longrightarrow> vm_mem m x = bs ! (unat x - unat p))"

text \<open>Memory changes only between \<open>lo\<close> and \<open>hi\<close>.\<close>

definition writes_in :: "nat \<Rightarrow> nat \<Rightarrow> vm \<Rightarrow> vm \<Rightarrow> bool" where
  "writes_in lo hi m m' \<longleftrightarrow> vm_acc m' = vm_acc m \<and> vm_past m' = vm_past m \<and>
     (\<forall>x. vm_mem m' x \<noteq> vm_mem m x \<longrightarrow> lo \<le> unat x \<and> unat x < hi)"

lemma writes_in_refl [simp]: "writes_in lo hi m m" by (simp add: writes_in_def)

lemma writes_in_trans: "writes_in lo hi m m1 \<Longrightarrow> writes_in lo hi m1 m2 \<Longrightarrow> writes_in lo hi m m2"
  unfolding writes_in_def by metis

lemma writes_in_mono: "writes_in lo hi m m' \<Longrightarrow> lo' \<le> lo \<Longrightarrow> hi \<le> hi' \<Longrightarrow> writes_in lo' hi' m m'"
  unfolding writes_in_def by (meson le_trans less_le_trans)

lemma writable_writes: "writes_in lo' hi' m m' \<Longrightarrow> writable b m lo hi \<Longrightarrow> writable b m' lo hi"
  by (simp add: writable_def writes_in_def)

lemma stored_keep:
  assumes s: "stored m p bs" and w: "writes_in lo hi m m'" and d: "unat p + length bs \<le> lo \<or> hi \<le> unat p"
  shows "stored m' p bs"
  unfolding stored_def
proof (intro allI impI)
  fix x :: u64 assume x: "unat p \<le> unat x \<and> unat x < unat p + length bs"
  then have "\<not> (lo \<le> unat x \<and> unat x < hi)" using d by linarith
  then have "vm_mem m' x = vm_mem m x" using w by (auto simp: writes_in_def)
  then show "vm_mem m' x = bs ! (unat x - unat p)" using s x by (simp add: stored_def)
qed

lemma copyto_writable:
  assumes w: "writable b m lo hi" and lo: "lo \<le> unat p" and hi: "unat p + length bs \<le> hi"
  shows "\<exists>m'. lfi_box_copyto b p bs m = Some m' \<and> stored m' p bs \<and> writes_in (unat p) (unat p + length bs) m m'"
proof -
  have bnd: "unat (bx_min b) \<le> lo" "hi \<le> unat (bx_max b)"
    and acc: "\<And>x. lo \<le> unat x \<Longrightarrow> unat x < hi \<Longrightarrow> acc_w (vm_acc m (pg (bx_ps b) x)) \<and> \<not> vm_past m (pg (bx_ps b) x)"
    using w by (auto simp: writable_def)
  have mx: "unat p + length bs < 18446744073709551616" using hi bnd unat_lt64 [of "bx_max b"] by linarith
  have len: "unat (of_nat (length bs) :: u64) = length bs"
    using mx by (intro unat_of_nat64) simp
  have valid: "lfi_box_bufvalid b p (of_nat (length bs))"
    using lo hi bnd by (simp add: lfi_box_bufvalid_def word_le_nat_alt unat_sub64' len)
  have "acc_w (vm_acc m (pg (bx_ps b) (p + of_nat i))) \<and> \<not> vm_past m (pg (bx_ps b) (p + of_nat i))" if i: "i < length bs" for i
  proof -
    have n: "unat (of_nat i :: u64) = i" using i mx by (intro unat_of_nat64) simp
    have "unat (p + of_nat i) = unat p + i"
      using unat_add64 [of p "of_nat i"] n i mx by simp
    then show ?thesis using lo hi i by (intro acc) linarith+
  qed
  then have "pages_have acc_w (bx_ps b) m p (length bs)" by (simp add: pages_have_def list_all_iff)
  from vm_write_total [OF this] obtain m' where m': "vm_write (bx_ps b) p bs m = Some m'" by blast
  have at: "vm_mem m' x = (if unat (x - p) < length bs then bs ! unat (x - p) else vm_mem m x)" for x
    by (rule vm_write_at [OF m']) (use mx in simp)
  have pos: "unat (x - p) < length bs \<longleftrightarrow> unat p \<le> unat x \<and> unat x < unat p + length bs" for x :: u64
  proof (cases "unat p \<le> unat x")
    case False
    then have "unat (x - p) = 2 ^ 64 + unat x - unat p"
      by (simp add: unat_sub_if' word_le_nat_alt)
    then show ?thesis using False mx by simp
  qed (auto simp: unat_sub64')
  have "stored m' p bs" by (simp add: stored_def at pos) (simp add: unat_sub64')
  moreover have "writes_in (unat p) (unat p + length bs) m m'"
    using vm_write_mem(1) [OF m'] vm_write_frame(1) [OF m'] by (auto simp: writes_in_def at pos split: if_splits)
  ultimately show ?thesis using m' valid by (simp add: lfi_box_copyto_def)
qed

lemma unat_plus_nat:
  assumes "unat (p :: u64) + n < 18446744073709551616"
  shows "unat (p + of_nat n) = unat p + n"
proof -
  have "unat (of_nat n :: u64) = n" using assms by (intro unat_of_nat64) simp
  then show ?thesis using unat_add64 [of p "of_nat n"] assms by simp
qed

lemma stored_append:
  assumes "stored m p xs" "stored m q ys" "unat q = unat p + length xs"
  shows "stored m p (xs @ ys)"
  using assms by (auto simp: stored_def nth_append)

subsection \<open>Copied strings\<close>

definition kept_str :: "nat \<Rightarrow> (nat \<Rightarrow> u8 list option) \<Rightarrow> nat \<Rightarrow> u8 list" where
  "kept_str maxlen strs i = take maxlen (the (strs i))"

fun strs_size :: "nat \<Rightarrow> (nat \<Rightarrow> u8 list option) \<Rightarrow> nat \<Rightarrow> nat \<Rightarrow> nat" where
  "strs_size maxlen strs i 0 = 0"
| "strs_size maxlen strs i (Suc k) = length (kept_str maxlen strs i) + 1 + strs_size maxlen strs (i + 1) k"

lemma copy_strs_ok:
  assumes "writable b m lo hi" "\<forall>j < k. strs (i + j) \<noteq> None" "lo \<le> unat start + unat count"
    and "unat start + unat count + strs_size maxlen strs i k \<le> hi" "hi \<le> unat (bx_max b)"
  shows "\<exists>new m'. copy_strs b k i maxlen strs start (count, ptrs, m) =
      Some (count + of_nat (strs_size maxlen strs i k), ptrs @ new, m') \<and> length new = k \<and>
      (\<forall>j < k. unat start + unat count \<le> unat (new ! j) \<and>
         unat (new ! j) + length (kept_str maxlen strs (i + j)) + 1 \<le> unat start + unat count + strs_size maxlen strs i k \<and>
         stored m' (new ! j) (kept_str maxlen strs (i + j) @ [0])) \<and>
      writes_in (unat start + unat count) (unat start + unat count + strs_size maxlen strs i k) m m'"
  using assms
proof (induction k arbitrary: i count ptrs m)
  case (Suc k)
  let ?bs = "kept_str maxlen strs i" and ?n = "length (kept_str maxlen strs i)"
  let ?rest = "strs_size maxlen strs (i + 1) k"
  obtain s where s: "strs i = Some s" using Suc.prems(2) by force
  then have bs: "take maxlen s = ?bs" by (simp add: kept_str_def)
  have hi: "unat start + unat count + ?n + 1 + ?rest \<le> hi" using Suc.prems(4) by simp
  have top: "hi < 18446744073709551616" using Suc.prems(5) unat_lt64 [of "bx_max b"] by linarith
  have p: "unat (start + count) = unat start + unat count" using unat_add64 [of start count] hi top by simp
  have q: "unat (start + count + of_nat ?n) = unat start + unat count + ?n"
    using unat_plus_nat [of "start + count" ?n] p hi top by simp
  have c: "unat (count + of_nat (?n + 1)) = unat count + ?n + 1"
    using unat_plus_nat [of count "?n + 1"] hi top by simp
  obtain m1 where m1: "lfi_box_copyto b (start + count) ?bs m = Some m1" "stored m1 (start + count) ?bs"
    "writes_in (unat (start + count)) (unat (start + count) + ?n) m m1"
    using copyto_writable [OF Suc.prems(1), of "start + count" ?bs] Suc.prems(3) p hi by auto
  have w1: "writable b m1 lo hi" by (rule writable_writes [OF m1(3) Suc.prems(1)])
  obtain m2 where m2: "lfi_box_copyto b (start + count + of_nat ?n) [0] m1 = Some m2"
    "stored m2 (start + count + of_nat ?n) [0]"
    "writes_in (unat (start + count + of_nat ?n)) (unat (start + count + of_nat ?n) + 1) m1 m2"
    using copyto_writable [OF w1, of "start + count + of_nat ?n" "[0]"] Suc.prems(3) q hi by auto
  have w2: "writable b m2 lo hi" by (rule writable_writes [OF m2(3) w1])
  have st2: "stored m2 (start + count) (?bs @ [0])"
    by (rule stored_append [OF stored_keep [OF m1(2) m2(3)] m2(2)]) (use p q in auto)
  have sz: "unat start + unat (count + of_nat (?n + 1)) = unat start + unat count + ?n + 1" using c by simp
  have pre: "\<forall>j < k. strs (i + 1 + j) \<noteq> None" using Suc.prems(2) by auto
  have lo: "lo \<le> unat start + unat (count + of_nat (?n + 1))"
    and up: "unat start + unat (count + of_nat (?n + 1)) + ?rest \<le> hi" using Suc.prems(3) hi unfolding sz by linarith+
  obtain new m' where ih: "copy_strs b k (i + 1) maxlen strs start (count + of_nat (?n + 1), ptrs @ [start + count], m2) =
      Some (count + of_nat (?n + 1) + of_nat ?rest, (ptrs @ [start + count]) @ new, m')" "length new = k"
    "\<forall>j < k. unat start + unat count + ?n + 1 \<le> unat (new ! j) \<and>
         unat (new ! j) + length (kept_str maxlen strs (i + 1 + j)) + 1 \<le> unat start + unat count + ?n + 1 + ?rest \<and>
         stored m' (new ! j) (kept_str maxlen strs (i + 1 + j) @ [0])"
    "writes_in (unat start + unat count + ?n + 1) (unat start + unat count + ?n + 1 + ?rest) m2 m'"
    using Suc.IH [OF w2 pre lo up Suc.prems(5), of "ptrs @ [start + count]"] unfolding sz by (elim exE conjE) (rule that)
  have st: "stored m' (start + count) (?bs @ [0])"
    by (rule stored_keep [OF st2 ih(4)]) (simp add: p)
  let ?new = "(start + count) # new"
  have elems: "unat start + unat count \<le> unat (?new ! j) \<and>
      unat (?new ! j) + length (kept_str maxlen strs (i + j)) + 1 \<le> unat start + unat count + strs_size maxlen strs i (Suc k) \<and>
      stored m' (?new ! j) (kept_str maxlen strs (i + j) @ [0])" if "j < Suc k" for j
  proof (cases j)
    case 0
    then show ?thesis using p st by simp
  next
    case (Suc l)
    have "l < k" using that Suc by simp
    note l = ih(3) [rule_format, OF this]
    have "?new ! j = new ! l" "i + j = i + 1 + l" using Suc by simp_all
    then show ?thesis using l by (intro conjI) (simp_all only: strs_size.simps, linarith+)
  qed
  have wr: "writes_in (unat start + unat count) (unat start + unat count + strs_size maxlen strs i (Suc k)) m m'"
  proof -
    let ?lo = "unat start + unat count" and ?hi = "unat start + unat count + strs_size maxlen strs i (Suc k)"
    have "writes_in ?lo ?hi m m1" by (rule writes_in_mono [OF m1(3)]) (simp_all add: p)
    moreover have "writes_in ?lo ?hi m1 m2" by (rule writes_in_mono [OF m2(3)]) (simp_all add: q)
    moreover have "writes_in ?lo ?hi m2 m'" by (rule writes_in_mono [OF ih(4)]) simp_all
    ultimately show ?thesis using writes_in_trans by blast
  qed
  have "copy_strs b (Suc k) i maxlen strs start (count, ptrs, m) =
      Some (count + of_nat (strs_size maxlen strs i (Suc k)), ptrs @ ?new, m')"
    using ih(1) m1(1) m2(1) by (simp add: s bs Let_def algebra_simps)
  then show ?case using ih(2) elems wr by (intro exI [of _ ?new] exI [of _ m']) simp
qed simp

subsection \<open>Counted strings\<close>

lemma count_strs_ok:
  assumes "unat used \<le> unat budget" "unat budget + maxlen + 9 < 18446744073709551616" "unat strs_len \<le> unat used"
  shows "\<exists>j. count_strs k i maxlen strs budget (used, strs_len, n) =
      (used + of_nat (strs_size maxlen strs i j + 8 * j), strs_len + of_nat (strs_size maxlen strs i j), n + j) \<and>
      j \<le> k \<and> (\<forall>l < j. strs (i + l) \<noteq> None) \<and>
      unat used + strs_size maxlen strs i j + 8 * j \<le> unat budget \<and>
      (j = k \<or> strs (i + j) = None \<or>
       unat budget < unat used + strs_size maxlen strs i j + 8 * j + length (kept_str maxlen strs (i + j)) + 9)"
  using assms
proof (induction k arbitrary: i used strs_len n)
  case (Suc k)
  show ?case
  proof (cases "strs i")
    case None
    then show ?thesis using Suc.prems by (intro exI [of _ 0]) simp
  next
    case (Some s)
    let ?n = "length (kept_str maxlen strs i)"
    have len: "min (length s) maxlen = ?n" using Some by (simp add: kept_str_def)
    have le: "?n \<le> maxlen" by (simp add: kept_str_def)
    have u: "unat (used + of_nat (?n + 9)) = unat used + ?n + 9"
      using unat_plus_nat [of used "?n + 9"] Suc.prems(1,2) le by simp
    have l: "unat (strs_len + of_nat (?n + 1)) = unat strs_len + ?n + 1"
      using unat_plus_nat [of strs_len "?n + 1"] Suc.prems le by simp
    show ?thesis
    proof (cases "used + of_nat (?n + 9) > budget")
      case True
      then show ?thesis using Some Suc.prems u
        by (intro exI [of _ 0]) (simp add: Let_def len word_less_nat_alt algebra_simps)
    next
      case False
      then have fit: "unat used + ?n + 9 \<le> unat budget" using u by (simp add: word_less_nat_alt)
      obtain j where j: "count_strs k (i + 1) maxlen strs budget
            (used + of_nat (?n + 9), strs_len + of_nat (?n + 1), n + 1) =
          (used + of_nat (?n + 9) + of_nat (strs_size maxlen strs (i + 1) j + 8 * j),
           strs_len + of_nat (?n + 1) + of_nat (strs_size maxlen strs (i + 1) j), n + 1 + j)" "j \<le> k"
        "\<forall>l < j. strs (i + 1 + l) \<noteq> None"
        "unat used + ?n + 9 + strs_size maxlen strs (i + 1) j + 8 * j \<le> unat budget"
        "j = k \<or> strs (i + 1 + j) = None \<or> unat budget < unat used + ?n + 9 + strs_size maxlen strs (i + 1) j +
           8 * j + length (kept_str maxlen strs (i + 1 + j)) + 9"
        using Suc.IH [of "used + of_nat (?n + 9)" "strs_len + of_nat (?n + 1)" "i + 1" "n + 1"]
          Suc.prems(2,3) fit unfolding u l by auto
      have step: "count_strs (Suc k) i maxlen strs budget (used, strs_len, n) =
          count_strs k (i + 1) maxlen strs budget (used + of_nat (?n + 9), strs_len + of_nat (?n + 1), n + 1)"
        using False Some by (simp add: Let_def len algebra_simps)
      have some: "\<forall>l < Suc j. strs (i + l) \<noteq> None"
      proof (intro allI impI)
        fix l assume "l < Suc j"
        then show "strs (i + l) \<noteq> None" using j(3) Some by (cases l) auto
      qed
      show ?thesis
        using j(2,4,5) some unfolding step j(1) by (intro exI [of _ "Suc j"] conjI) (auto simp: algebra_simps)
    qed
  qed
qed (simp)

subsection \<open>The layout\<close>

lemma length_words [simp]: "length (word_bytes x) = 8" "length (words_bytes xs) = 8 * length xs"
proof -
  show w: "length (word_bytes x) = 8" for x by (simp add: word_bytes_def)
  show "length (words_bytes xs) = 8 * length xs" by (induction xs) (simp_all add: words_bytes_def w)
qed

lemma words_append: "words_bytes (xs @ ys) = words_bytes xs @ words_bytes ys" "words_bytes [x] = word_bytes x"
  by (simp_all add: words_bytes_def)

lemma length_auxv: "length (auxv_words (auxv_list li ps se execfn rnd)) = 38"
  by (simp add: auxv_words_def auxv_list_def)

lemma truncp16:
  "16 dvd unat (truncp x 16)" "unat (truncp x 16) \<le> unat x" "unat x < unat (truncp x 16) + 16"
proof -
  have e: "truncp x 16 = bm_truncp x 16" using truncp_pow2 [of 4 x] by simp
  show "16 dvd unat (truncp x 16)" "unat (truncp x 16) \<le> unat x" "unat x < unat (truncp x 16) + 16"
    using bm_truncp_bounds [of 16 x] unfolding e by simp_all
qed

definition random_bytes :: "stack_env \<Rightarrow> u8 list" where
  "random_bytes se = take 16 (se_random se @ replicate 16 0)"

text \<open>The places, from the numbers of bytes and strings counted.\<close>

lemma stack_places:
  fixes top strs_start rand_start sp :: u64 and S n k lo hi :: nat
  defines "strs_start \<equiv> truncp (top - of_nat S) 16" and "rand_start \<equiv> strs_start - 16"
    and "sp \<equiv> truncp (rand_start - 8 - of_nat (8 * n) - of_nat (8 * k) - AUXV_SIZE) 16"
  assumes top: "unat top \<le> hi" "hi \<le> unat top + 8191" and fit: "lo + 8568 + S + 8 * n + 8 * k \<le> hi + 16"
  shows "16 dvd unat sp" "lo \<le> unat sp" "unat sp + 8 + 8 * n + 8 * k + 304 \<le> unat rand_start"
    "unat rand_start + 16 = unat strs_start" "unat strs_start + S \<le> hi"
proof -
  have sm: "S < 18446744073709551616" "8 * n < 18446744073709551616" "8 * k < 18446744073709551616"
    using fit top unat_lt64 [of top] by linarith+
  have w: "unat (of_nat S :: u64) = S" "unat (of_nat (8 * n) :: u64) = 8 * n" "unat (of_nat (8 * k) :: u64) = 8 * k"
    using sm unat_of_nat64 [of S] unat_of_nat64 [of "8 * n"] unat_of_nat64 [of "8 * k"] by simp_all
  have a: "unat (top - of_nat S) = unat top - S" by (subst unat_sub64', use w(1) fit top in linarith) (simp only: w(1))
  note t1 = truncp16 [of "top - of_nat S", folded strs_start_def, unfolded a]
  show r: "unat rand_start + 16 = unat strs_start"
    unfolding rand_start_def by (subst unat_sub64') (use t1 fit top in simp_all)
  show "unat strs_start + S \<le> hi" using t1 top fit by linarith
  have b1: "unat (rand_start - 8) = unat rand_start - 8" by (subst unat_sub64') (use r t1 fit top in simp_all)
  have b2: "unat (rand_start - 8 - of_nat (8 * n)) = unat rand_start - 8 - 8 * n"
    by (subst unat_sub64') (use b1 w r t1 fit top in simp_all)
  have b3: "unat (rand_start - 8 - of_nat (8 * n) - of_nat (8 * k)) = unat rand_start - 8 - 8 * n - 8 * k"
    by (subst unat_sub64') (use b2 w r t1 fit top in simp_all)
  have b4: "unat (rand_start - 8 - of_nat (8 * n) - of_nat (8 * k) - AUXV_SIZE) = unat rand_start - 8 - 8 * n - 8 * k - 304"
    by (subst unat_sub64') (use b3 r t1 fit top in \<open>simp_all add: AUXV_SIZE_def\<close>)
  note t2 = truncp16 [of "rand_start - 8 - of_nat (8 * n) - of_nat (8 * k) - AUXV_SIZE", folded sp_def, unfolded b4]
  show "16 dvd unat sp" by (rule t2(1))
  show "lo \<le> unat sp" using t2 t1 r fit top by linarith
  show "unat sp + 8 + 8 * n + 8 * k + 304 \<le> unat rand_start" using t2 t1 r fit top by linarith
qed

text \<open>Which strings are kept: the first \<open>n\<close>, and the next one is missing or does not fit any more.\<close>

definition kept_prefix :: "nat \<Rightarrow> nat \<Rightarrow> (nat \<Rightarrow> u8 list option) \<Rightarrow> nat \<Rightarrow> nat \<Rightarrow> nat \<Rightarrow> bool" where
  "kept_prefix maxlen most strs used room n \<longleftrightarrow> n \<le> most \<and> (\<forall>i < n. strs i \<noteq> None) \<and>
     used + strs_size maxlen strs 0 n + 8 * n \<le> room \<and>
     (n = most \<or> strs n = None \<or> room < used + strs_size maxlen strs 0 n + 8 * n + length (kept_str maxlen strs n) + 9)"

text \<open>The pointers \<open>ptrs\<close> to the kept strings.\<close>

definition strings_at :: "vm \<Rightarrow> nat \<Rightarrow> nat \<Rightarrow> nat \<Rightarrow> (nat \<Rightarrow> u8 list option) \<Rightarrow> u64 list \<Rightarrow> bool" where
  "strings_at m lo hi maxlen strs ptrs \<longleftrightarrow> (\<forall>i < length ptrs. lo \<le> unat (ptrs ! i) \<and>
     unat (ptrs ! i) + length (kept_str maxlen strs i) + 1 \<le> hi \<and> stored m (ptrs ! i) (kept_str maxlen strs i @ [0]))"

lemma strings_at_keep:
  assumes "strings_at m lo hi maxlen strs ptrs" "writes_in lo' hi' m m'" "hi \<le> lo' \<or> hi' \<le> lo"
  shows "strings_at m' lo hi maxlen strs ptrs"
  unfolding strings_at_def
proof (intro allI impI)
  fix i assume "i < length ptrs"
  then have i: "lo \<le> unat (ptrs ! i)" "unat (ptrs ! i) + length (kept_str maxlen strs i) + 1 \<le> hi"
    "stored m (ptrs ! i) (kept_str maxlen strs i @ [0])" using assms(1) by (auto simp: strings_at_def)
  then have "stored m' (ptrs ! i) (kept_str maxlen strs i @ [0])"
    by (intro stored_keep [OF i(3) assms(2)]) (use i assms(3) in auto)
  then show "lo \<le> unat (ptrs ! i) \<and> unat (ptrs ! i) + length (kept_str maxlen strs i) + 1 \<le> hi \<and>
      stored m' (ptrs ! i) (kept_str maxlen strs i @ [0])" using i by simp
qed

lemma copy_strs_at:
  assumes "writable b m lo hi" "\<forall>j < k. strs j \<noteq> None" "lo \<le> unat start + unat count"
    and "unat start + unat count + strs_size maxlen strs 0 k \<le> hi" "hi \<le> unat (bx_max b)"
  shows "\<exists>new m'. copy_strs b k 0 maxlen strs start (count, [], m) =
      Some (count + of_nat (strs_size maxlen strs 0 k), new, m') \<and> length new = k \<and>
      strings_at m' (unat start + unat count) (unat start + unat count + strs_size maxlen strs 0 k) maxlen strs new \<and>
      writes_in (unat start + unat count) (unat start + unat count + strs_size maxlen strs 0 k) m m'"
  using copy_strs_ok [OF assms(1) _ assms(3,4,5), where ptrs = "[]"] assms(2) unfolding strings_at_def by auto

lemma count_kept:
  assumes "unat used \<le> unat budget" "unat budget + 8568 < 18446744073709551616" "maxlen \<le> 1024" "unat strs_len \<le> unat used"
  shows "\<exists>j. count_strs k 0 maxlen strs budget (used, strs_len, 0) =
      (used + of_nat (strs_size maxlen strs 0 j + 8 * j), strs_len + of_nat (strs_size maxlen strs 0 j), j) \<and>
      kept_prefix maxlen k strs (unat used) (unat budget) j"
proof -
  have "unat budget + maxlen + 9 < 18446744073709551616" using assms(2,3) by linarith
  from count_strs_ok [OF assms(1) this assms(4), where k = k and i = 0 and strs = strs and n = 0] show ?thesis
    unfolding kept_prefix_def add_0 by (simp only: conj_assoc)
qed

text \<open>Writing one piece after another.\<close>

lemma store_next:
  assumes w: "writable b m lo hi" and s: "stored m p xs" "writes_in (unat p) (unat p + length xs) m0 m"
    and p: "lo \<le> unat p" "unat p + length xs + length ys \<le> hi" "unat q = unat p + length xs"
  shows "\<exists>m'. lfi_box_copyto b q ys m = Some m' \<and> stored m' p (xs @ ys) \<and>
    writes_in (unat p) (unat p + length (xs @ ys)) m0 m' \<and> writable b m' lo hi"
proof -
  obtain m' where m': "lfi_box_copyto b q ys m = Some m'" "stored m' q ys"
    "writes_in (unat q) (unat q + length ys) m m'"
    using copyto_writable [OF w, of q ys] p by auto
  have "stored m' p (xs @ ys)"
    by (rule stored_append [OF stored_keep [OF s(1) m'(3)] m'(2) p(3)]) (simp add: p(3))
  moreover have "writes_in (unat p) (unat p + length (xs @ ys)) m0 m'"
    using writes_in_trans [OF writes_in_mono [OF s(2)] writes_in_mono [OF m'(3)],
        of "unat p" "unat p + length (xs @ ys)"] p(3) by simp
  ultimately show ?thesis using m'(1) writable_writes [OF m'(3) w] by blast
qed

text \<open>
  The stack of a new main thread. At the stack pointer, a multiple of 16, stand the number of
  arguments, their pointers, a null pointer, the pointers of the environment, a null pointer and
  the auxiliary vector; each pointer points into the stack to a copy of its string, cut to 1024
  bytes and ended by a zero; the random bytes stand where the vector says. Strings are left out
  only from the first one on that does not fit.
\<close>

definition stack_ready ::
  "u64 \<Rightarrow> elf_info \<Rightarrow> stack_env \<Rightarrow> u64 \<Rightarrow> u64 \<Rightarrow> int \<Rightarrow> (nat \<Rightarrow> u8 list option) \<Rightarrow> (nat \<Rightarrow> u8 list option) \<Rightarrow>
   u64 \<Rightarrow> vm \<Rightarrow> bool" where
  "stack_ready pagesize li se stack stack_size argc argv envp sp m \<longleftrightarrow> (\<exists>argp envpp rnd.
     16 dvd unat sp \<and> unat stack \<le> unat sp \<and> unat sp < unat stack + unat stack_size \<and>
     stored m sp (words_bytes (of_nat (length argp) # argp @ 0 # envpp @ 0 #
       auxv_words (auxv_list li pagesize se (hd (argp @ [0])) rnd))) \<and>
     strings_at m (unat sp) (unat stack + unat stack_size) ARGV_MAXLEN argv argp \<and>
     strings_at m (unat sp) (unat stack + unat stack_size) ENVP_MAXLEN envp envpp \<and>
     stored m rnd (random_bytes se) \<and>
     kept_prefix ARGV_MAXLEN (nat (min argc ARGV_MAX)) argv 0 (unat stack_size - 8568) (length argp) \<and>
     kept_prefix ENVP_MAXLEN ENVP_MAX envp
       (strs_size ARGV_MAXLEN argv 0 (length argp) + 8 * length argp) (unat stack_size - 8568) (length envpp))"

lemma stack_init_ok:
  assumes w: "writable b m (unat stack) (unat stack + unat stack_size)" and sz: "8568 \<le> unat stack_size"
  shows "\<exists>sp m'. stack_init b li se stack stack_size argc argv envp m = Some (sp, m') \<and>
    writes_in (unat sp) (unat stack + unat stack_size) m m' \<and> unat stack \<le> unat sp \<and>
    stack_ready (bx_ps b) li se stack stack_size argc argv envp sp m'"
proof -
  let ?hi = "unat stack + unat stack_size" and ?lo = "unat stack"
  have box: "?hi \<le> unat (bx_max b)" using w by (simp add: writable_def)
  have big: "?hi < 18446744073709551616" using box unat_lt64 [of "bx_max b"] by linarith
  define budget where "budget = (if stack_size > AUXV_SIZE + 16 + 8 + 2 * 8 + STACK_RND_RANGE + 32
    then stack_size - (AUXV_SIZE + 16 + 8 + 2 * 8 + STACK_RND_RANGE + 32) else 0)"
  have fixed: "AUXV_SIZE + 16 + 8 + 2 * 8 + STACK_RND_RANGE + 32 = 8568" by (simp add: AUXV_SIZE_def STACK_RND_RANGE_def)
  have bud: "unat budget = unat stack_size - 8568"
    using sz unfolding budget_def fixed by (auto simp: unat_sub64' word_less_nat_alt)
  have lim: "unat budget + 8568 < 18446744073709551616" "ARGV_MAXLEN \<le> 1024" "ENVP_MAXLEN \<le> 1024"
    using bud big sz by (simp_all add: stack_limits)
  obtain n where n: "count_strs (nat (min argc ARGV_MAX)) 0 ARGV_MAXLEN argv budget (0, 0, 0) =
      (of_nat (strs_size ARGV_MAXLEN argv 0 n + 8 * n), of_nat (strs_size ARGV_MAXLEN argv 0 n), n)"
    "kept_prefix ARGV_MAXLEN (nat (min argc ARGV_MAX)) argv 0 (unat stack_size - 8568) n"
    using count_kept [of 0 budget ARGV_MAXLEN 0 "nat (min argc ARGV_MAX)" argv] lim
    unfolding bud unsigned_0 add_0 by auto
  let ?A = "strs_size ARGV_MAXLEN argv 0 n"
  have A: "?A + 8 * n \<le> unat budget" "unat (of_nat (?A + 8 * n) :: u64) = ?A + 8 * n" "unat (of_nat ?A :: u64) = ?A"
  proof -
    show A: "?A + 8 * n \<le> unat budget" using n(2) bud by (simp add: kept_prefix_def)
    then have "?A + 8 * n < 18446744073709551616" "?A < 18446744073709551616"
      using unat_lt64 [of budget] by linarith+
    then show "unat (of_nat (?A + 8 * n) :: u64) = ?A + 8 * n" "unat (of_nat ?A :: u64) = ?A"
      using unat_of_nat64 [of "?A + 8 * n"] unat_of_nat64 [of ?A] by simp_all
  qed
  obtain k where k: "count_strs ENVP_MAX 0 ENVP_MAXLEN envp budget (of_nat (?A + 8 * n), of_nat ?A, 0) =
      (of_nat (?A + 8 * n) + of_nat (strs_size ENVP_MAXLEN envp 0 k + 8 * k),
       of_nat ?A + of_nat (strs_size ENVP_MAXLEN envp 0 k), k)"
    "kept_prefix ENVP_MAXLEN ENVP_MAX envp (?A + 8 * n) (unat stack_size - 8568) k"
    using count_kept [of "of_nat (?A + 8 * n)" budget ENVP_MAXLEN "of_nat ?A" ENVP_MAX envp] lim A
    unfolding A(2) bud by auto
  let ?E = "strs_size ENVP_MAXLEN envp 0 k"
  have fit: "?lo + 8568 + (?A + ?E) + 8 * (n + 1) + 8 * (k + 1) \<le> ?hi + 16"
  proof -
    have "?A + 8 * n + ?E + 8 * k \<le> unat stack_size - 8568" using k(2) by (simp add: kept_prefix_def)
    then have "?A + 8 * n + ?E + 8 * k + 8568 \<le> unat stack_size" using sz by (simp add: le_diff_conv2)
    then show ?thesis by (simp add: algebra_simps)
  qed
  define top where "top = (if \<not> opt_no_aslr (bx_opts b)
    then stack + stack_size - ucast (se_offset se) mod STACK_RND_RANGE else stack + stack_size)"
  have end_: "unat (stack + stack_size) = ?hi" using unat_add64 [of stack stack_size] big by simp
  have "unat ((ucast (se_offset se) :: u64) mod STACK_RND_RANGE) < 8192"
    by (simp add: unat_mod64 STACK_RND_RANGE_def)
  then have top: "unat top \<le> ?hi" "?hi \<le> unat top + 8191"
    using end_ sz unat_sub64' [of "ucast (se_offset se) mod STACK_RND_RANGE" "stack + stack_size"]
    unfolding top_def by auto
  define strs_start where "strs_start = truncp (top - of_nat (?A + ?E)) 16"
  define sp where "sp = truncp (strs_start - 16 - 8 - of_nat (8 * (n + 1)) - of_nat (8 * (k + 1)) - AUXV_SIZE) 16"
  note pl = stack_places [OF top fit, folded strs_start_def, folded sp_def]
  have c1: "?lo \<le> unat strs_start + unat (0 :: u64)" "unat strs_start + unat (0 :: u64) + ?A \<le> ?hi"
    and c2: "?lo \<le> unat strs_start + unat (of_nat ?A :: u64)" "unat strs_start + unat (of_nat ?A :: u64) + ?E \<le> ?hi"
    using pl A(3) by simp_all
  have nn: "\<forall>j < n. argv j \<noteq> None" "\<forall>j < k. envp j \<noteq> None" using n(2) k(2) by (simp_all add: kept_prefix_def)
  obtain argp m1 where m1: "copy_strs b n 0 ARGV_MAXLEN argv strs_start (0, [], m) = Some (of_nat ?A, argp, m1)"
    "length argp = n" "strings_at m1 (unat strs_start) (unat strs_start + ?A) ARGV_MAXLEN argv argp"
    "writes_in (unat strs_start) (unat strs_start + ?A) m m1"
    using copy_strs_at [OF w nn(1) c1 box] by auto
  note w1 = writable_writes [OF m1(4) w]
  obtain envpp m2 where m2: "copy_strs b k 0 ENVP_MAXLEN envp strs_start (of_nat ?A, [], m1) =
      Some (of_nat ?A + of_nat ?E, envpp, m2)" "length envpp = k"
    "strings_at m2 (unat strs_start + ?A) (unat strs_start + ?A + ?E) ENVP_MAXLEN envp envpp"
    "writes_in (unat strs_start + ?A) (unat strs_start + ?A + ?E) m1 m2"
    using copy_strs_at [OF w1 nn(2) c2 box] unfolding A(3) by auto
  note w2 = writable_writes [OF m2(4) w1]
  let ?rnd = "strs_start - 16"
  have lr: "length (random_bytes se) = 16" by (simp add: random_bytes_def)
  obtain m3 where m3: "lfi_box_copyto b ?rnd (random_bytes se) m2 = Some m3" "stored m3 ?rnd (random_bytes se)"
    "writes_in (unat ?rnd) (unat ?rnd + 16) m2 m3"
    using copyto_writable [OF w2, of ?rnd "random_bytes se"] pl unfolding lr by auto
  note w3 = writable_writes [OF m3(3) w2]
  let ?args = "argp @ [0]" and ?envs = "envpp @ [0]"
  let ?aux = "auxv_words (auxv_list li (bx_ps b) se (hd ?args) ?rnd)"
  have sizes: "8 * of_nat (length ?args) = (of_nat (8 * (n + 1)) :: u64)" "8 * of_nat (length ?envs) = (of_nat (8 * (k + 1)) :: u64)"
    using m1(2) m2(2) by simp_all
  have room: "unat sp + 8 + 8 * (n + 1) + 8 * (k + 1) + 304 \<le> ?hi" using pl by linarith
  have q1: "unat (sp + 8) = unat sp + 8" using unat_plus_nat [of sp 8] room big by simp
  have q2: "unat (sp + 8 + of_nat (8 * (n + 1))) = unat sp + 8 + 8 * (n + 1)"
    using unat_plus_nat [of "sp + 8" "8 * (n + 1)"] q1 room big by simp
  have q3: "unat (sp + 8 + of_nat (8 * (n + 1)) + of_nat (8 * (k + 1))) = unat sp + 8 + 8 * (n + 1) + 8 * (k + 1)"
    using unat_plus_nat [of "sp + 8 + of_nat (8 * (n + 1))" "8 * (k + 1)"] q2 room big by simp
  have la: "length (words_bytes ?args) = 8 * (n + 1)" "length (words_bytes ?envs) = 8 * (k + 1)"
    "length (words_bytes ?aux) = 304" using m1(2) m2(2) by (simp_all add: length_auxv)
  let ?w2 = "word_bytes (of_nat n) @ words_bytes ?args"
  have r2: "unat sp + length ?w2 + length (words_bytes ?envs) \<le> ?hi"
    "unat (sp + 8 + of_nat (8 * (n + 1))) = unat sp + length ?w2"
    using room q2 m1(2) m2(2) by simp_all
  have r3: "unat sp + length (?w2 @ words_bytes ?envs) + length (words_bytes ?aux) \<le> ?hi"
    "unat (sp + 8 + of_nat (8 * (n + 1)) + of_nat (8 * (k + 1))) = unat sp + length (?w2 @ words_bytes ?envs)"
    using room q3 m1(2) m2(2) by (simp_all add: length_auxv)
  obtain m4 where m4: "lfi_box_copyto b sp (word_bytes (of_nat n)) m3 = Some m4" "stored m4 sp (word_bytes (of_nat n))"
    "writes_in (unat sp) (unat sp + length (word_bytes (of_nat n))) m3 m4"
    using copyto_writable [OF w3, of sp "word_bytes (of_nat n)"] pl(2) room by auto
  note w4 = writable_writes [OF m4(3) w3]
  obtain m5 where m5: "lfi_box_copyto b (sp + 8) (words_bytes ?args) m4 = Some m5"
    "stored m5 sp (word_bytes (of_nat n) @ words_bytes ?args)"
    "writes_in (unat sp) (unat sp + length (word_bytes (of_nat n) @ words_bytes ?args)) m3 m5" "writable b m5 ?lo ?hi"
    using store_next [OF w4 m4(2,3) pl(2), of "words_bytes ?args" "sp + 8"] q1 room la by auto
  obtain m6 where m6: "lfi_box_copyto b (sp + 8 + of_nat (8 * (n + 1))) (words_bytes ?envs) m5 = Some m6"
    "stored m6 sp ((word_bytes (of_nat n) @ words_bytes ?args) @ words_bytes ?envs)"
    "writes_in (unat sp) (unat sp + length ((word_bytes (of_nat n) @ words_bytes ?args) @ words_bytes ?envs)) m3 m6"
    "writable b m6 ?lo ?hi"
    using store_next [OF m5(4,2,3) pl(2) r2] by blast
  obtain m7 where m7: "lfi_box_copyto b (sp + 8 + of_nat (8 * (n + 1)) + of_nat (8 * (k + 1))) (words_bytes ?aux) m6 = Some m7"
    "stored m7 sp (((word_bytes (of_nat n) @ words_bytes ?args) @ words_bytes ?envs) @ words_bytes ?aux)"
    "writes_in (unat sp) (unat sp + length (((word_bytes (of_nat n) @ words_bytes ?args) @ words_bytes ?envs) @ words_bytes ?aux)) m3 m7"
    using store_next [OF m6(4,2,3) pl(2) r3] by blast
  have start: "truncp (top - (of_nat ?A + of_nat ?E)) 16 = strs_start" by (simp add: strs_start_def)
  have run: "stack_init b li se stack stack_size argc argv envp m = Some (sp, m7)"
    by (simp only: stack_init_def Let_def budget_def [symmetric] top_def [symmetric] n(1) k(1) prod.case start
        m1(1) m2(1) Option.bind_lunit random_bytes_def [symmetric] m3(1) sizes sp_def [symmetric] m4(1) m5(1) m6(1) m7(1))
  have words: "((word_bytes (of_nat n) @ words_bytes ?args) @ words_bytes ?envs) @ words_bytes ?aux =
      words_bytes (of_nat (length argp) # argp @ 0 # envpp @ 0 # ?aux)"
    using m1(2) by (simp add: words_bytes_def)
  have vec: "writes_in (unat sp) (unat ?rnd) m3 m7"
    by (rule writes_in_mono [OF m7(3)]) (use pl(3) la in simp_all)
  have low: "writes_in (unat sp) (unat strs_start) m2 m7"
    using writes_in_trans [OF writes_in_mono [OF m3(3)] writes_in_mono [OF vec], of "unat sp" "unat strs_start"] pl
    by simp
  have all: "writes_in (unat sp) ?hi m m7"
  proof -
    have "writes_in (unat sp) ?hi m m1" by (rule writes_in_mono [OF m1(4)]) (use pl in simp_all)
    moreover have "writes_in (unat sp) ?hi m1 m2" by (rule writes_in_mono [OF m2(4)]) (use pl in simp_all)
    moreover have "writes_in (unat sp) ?hi m2 m7" by (rule writes_in_mono [OF low]) (use pl in simp_all)
    ultimately show ?thesis using writes_in_trans by blast
  qed
  have wide: "strings_at m7 lo hi ml ss ptrs \<Longrightarrow> unat sp \<le> lo \<Longrightarrow> hi \<le> ?hi \<Longrightarrow> strings_at m7 (unat sp) ?hi ml ss ptrs"
    for lo hi ml ss ptrs unfolding strings_at_def by (meson le_trans)
  have args: "strings_at m7 (unat sp) ?hi ARGV_MAXLEN argv argp"
  proof (rule wide)
    show "strings_at m7 (unat strs_start) (unat strs_start + ?A) ARGV_MAXLEN argv argp"
      by (rule strings_at_keep [OF strings_at_keep [OF m1(3) m2(4)] low]) (use pl in simp_all)
  qed (use pl in simp_all)
  have envs: "strings_at m7 (unat sp) ?hi ENVP_MAXLEN envp envpp"
  proof (rule wide)
    show "strings_at m7 (unat strs_start + ?A) (unat strs_start + ?A + ?E) ENVP_MAXLEN envp envpp"
      by (rule strings_at_keep [OF m2(3) low]) (use pl in simp_all)
  qed (use pl in simp_all)
  have rnd: "stored m7 ?rnd (random_bytes se)" by (rule stored_keep [OF m3(2) vec]) simp
  have vector: "stored m7 sp (words_bytes (of_nat (length argp) # argp @ 0 # envpp @ 0 # ?aux))"
    using m7(2) unfolding words .
  have below: "unat sp < ?hi" using room by linarith
  have "stack_ready (bx_ps b) li se stack stack_size argc argv envp sp m7"
    unfolding stack_ready_def
    by (rule exI [of _ argp], rule exI [of _ envpp], rule exI [of _ ?rnd])
      (use pl(1,2) below vector args envs rnd n(2) k(2) in \<open>unfold m1(2) m2(2), intro conjI\<close>)
  then show ?thesis using run all pl(2) by blast
qed

subsection \<open>A new thread\<close>

lemma le_ceil_mult:
  assumes c: "c = x div p + (if x mod p = 0 then 0 else 1)" and p: "0 < (p :: nat)"
  shows "x \<le> c * p"
proof (cases "x mod p = 0")
  case True
  then show ?thesis using c by auto
next
  case False
  have "x = x div p * p + x mod p" by simp
  also have "\<dots> \<le> x div p * p + p" using mod_less_divisor [OF p, of x] by (intro add_left_mono) simp
  also have "\<dots> = c * p" using c False by (simp add: add_mult_distrib)
  finally show ?thesis .
qed

lemma mapany_data:
  assumes c: "checked e b" and nx: "\<not> has_flag prot LFI_PROT_EXEC"
  shows "\<exists>r b' m'. lfi_box_mapany e n prot flags fd off (b, m) = Some (r, b', m') \<and> box_step e b m b' m' \<and>
    (r \<noteq> -1 \<longrightarrow> unat (bx_min b) \<le> unat r \<and> unat r + unat n \<le> unat (bx_max b) \<and>
       (\<forall>k. in_pages (bx_ps b) r n k \<longrightarrow> vm_acc m' k = host_prot prot \<and> (hf_anonymous (host_flags flags) \<longrightarrow> \<not> vm_past m' k)))"
proof -
  note d = checkedD [OF c]
  obtain r b' m' where s: "box_mapany_locked e n prot flags fd off False (b, m) = Some (r, b', m')"
    "box_effect e b m b' m'"
    using mapany_effect [OF d(1)] by blast
  obtain addr mm where a: "map_any 0 n (info prot flags fd off) (bx_mm b) = Some (addr, mm)"
    using s(1) by (auto simp: box_mapany_locked_def bind_eq_Some_conv)
  let ?v = "mapverify e b addr n prot flags fd off False m"
  have x: "x_safe e (bx_ps b) m' k" if x: "x_safe e (bx_ps b) m k" for k
  proof -
    have v: "x_safe e (bx_ps b) (snd ?v) k"
      using mapmem_x_safe [OF nx x] nx by (simp add: mapverify_def)
    have "m' = m \<or> m' = snd ?v \<or> (\<exists>cs. m' = cbunmaps e b cs (snd ?v))"
      using s(1) a by (auto simp: box_mapany_locked_def Let_def split_beta split: if_splits)
    then show ?thesis using x v cbunmaps_x_safe [OF v] by auto
  qed
  have "unat (bx_min b) \<le> unat r \<and> unat r + unat n \<le> unat (bx_max b) \<and>
      (\<forall>k. in_pages (bx_ps b) r n k \<longrightarrow> vm_acc m' k = host_prot prot \<and> (hf_anonymous (host_flags flags) \<longrightarrow> \<not> vm_past m' k))"
    if r: "r \<noteq> -1"
  proof -
    have ok: "addr \<noteq> MM_FAIL" "\<not> fst ?v < 0" "r = addr" "m' = snd ?v"
      using s(1) r a by (auto simp: box_mapany_locked_def Let_def split_beta split: if_splits)
    let ?a = "bx_mm b"
    have inv: "as_inv ?a" using d(1) by (simp add: box_ok_def)
    have n0: "n \<noteq> 0" using a ok(1) by (auto simp: map_any_def)
    from inv n0 obtain s mm' where fr: "map_any 0 n (info prot flags fd off) ?a = Some (to_addr ?a s, mm')"
      "free_run ?a s (to_page_ceil ?a n)"
      using a ok(1) by (cases rule: map_any_cases [where hint = 0 and info = "info prot flags fd off"]) auto
    have v: "as_is_valid ?a s (to_page_ceil ?a n)" "to_page_ceil ?a n \<noteq> 0"
      using fr(2) n0 inv by (auto simp: free_run_def to_page_ceil_0 as_inv_def)
    have p: "unat r = unat s * 2 ^ as_p2 ?a" using to_page_to_addr(2) [OF inv v] fr(1) a ok(3) by simp
    have le: "unat (as_base ?a) \<le> unat s" "unat s + unat (to_page_ceil ?a n) \<le> unat (as_base ?a) + unat (as_len ?a)"
      using v(1) as_is_valid_iff [OF inv] by auto
    let ?ps = "2 ^ as_p2 ?a :: nat" and ?c = "unat (to_page_ceil ?a n)"
    have "?c = unat n div ?ps + (if unat n mod ?ps = 0 then 0 else 1)"
      by (rule unat_to_page_ceil) (use inv in \<open>simp add: as_inv_def\<close>)
    then have "unat n \<le> ?c * ?ps" by (rule le_ceil_mult) simp
    moreover have "unat (as_base ?a) * ?ps \<le> unat s * ?ps"
      "(unat s + ?c) * ?ps \<le> (unat (as_base ?a) + unat (as_len ?a)) * ?ps"
      using le by (intro mult_le_mono1; simp)+
    ultimately have "unat (bx_min b) \<le> unat r \<and> unat r + unat n \<le> unat (bx_max b)"
      using d(1) p by (simp add: box_ok_def add_mult_distrib)
    moreover have "\<forall>k. in_pages (bx_ps b) r n k \<longrightarrow> vm_acc m' k = host_prot prot \<and> (hf_anonymous (host_flags flags) \<longrightarrow> \<not> vm_past m' k)"
      using mapverify_acc(1) [OF d(2) surjective_pairing ok(2)] mapverify_past [OF surjective_pairing d(2) ok(2)] ok(3,4)
      by simp
    ultimately show ?thesis by blast
  qed
  then show ?thesis using s x by (auto simp: lfi_box_mapany_def box_step_def)
qed

text \<open>A mapping of data at a chosen place.\<close>

lemma mapat_data:
  assumes c: "checked e b" and nx: "\<not> has_flag prot LFI_PROT_EXEC"
  shows "\<exists>r b' m'. lfi_box_mapat e addr n prot flags fd off (b, m) = Some (r, b', m') \<and> box_step e b m b' m' \<and>
    (r \<noteq> -1 \<longrightarrow> unat (bx_min b) \<le> unat r \<and> unat r + unat n \<le> unat (bx_max b) \<and>
       (\<forall>k. in_pages (bx_ps b) r n k \<longrightarrow> vm_acc m' k = host_prot prot \<and> (hf_anonymous (host_flags flags) \<longrightarrow> \<not> vm_past m' k)))"
proof -
  obtain r b' m' where s: "lfi_box_mapat e addr n prot flags fd off (b, m) = Some (r, b', m')" "box_step e b m b' m'"
    using mapat_data_step [OF c nx] by blast
  then show ?thesis
    using mapat_success [OF c s(1)] mapat_past [OF c s(1)] bufvalid_iff [OF box_ok_min_max [OF checkedD(1) [OF c]]] by blast
qed

lemma writable_pages:
  assumes p: "unat (bx_min b) \<le> unat p" "unat p + unat n \<le> unat (bx_max b)"
    and acc: "\<forall>k. in_pages (bx_ps b) p n k \<longrightarrow> acc_w (vm_acc m k) \<and> \<not> vm_past m k" and ps: "0 < unat (bx_ps b)"
  shows "writable b m (unat p) (unat p + unat n)"
proof -
  have "acc_w (vm_acc m (pg (bx_ps b) x)) \<and> \<not> vm_past m (pg (bx_ps b) x)" if "unat p \<le> unat x" "unat x < unat p + unat n" for x
  proof -
    have "unat p div unat (bx_ps b) \<le> unat x div unat (bx_ps b)" using that(1) by (rule div_le_mono)
    moreover have "unat x div unat (bx_ps b) < (unat p + unat n + unat (bx_ps b) - 1) div unat (bx_ps b)"
    proof -
      have "(unat x + unat (bx_ps b)) div unat (bx_ps b) \<le> (unat p + unat n + unat (bx_ps b) - 1) div unat (bx_ps b)"
        using that(2) ps by (intro div_le_mono) simp
      moreover have "(unat x + unat (bx_ps b)) div unat (bx_ps b) = unat x div unat (bx_ps b) + 1"
        by (rule div_add_self2) (use ps in simp)
      ultimately show ?thesis by linarith
    qed
    ultimately show ?thesis using acc by (simp add: in_pages_def pg_def)
  qed
  then show ?thesis using p by (simp add: writable_def)
qed

lemma writes_step:
  assumes b: "box_ok b" and w: "writable b m lo hi" and i: "writes_in lo hi m m'"
  shows "box_step e b m b m'"
proof -
  have acc: "vm_acc m' = vm_acc m" using i by (simp add: writes_in_def)
  have "x_safe e (bx_ps b) m' k" if x: "x_safe e (bx_ps b) m k" for k
  proof (cases "acc_x (vm_acc m k)")
    case True
    then have nw: "\<not> acc_w (vm_acc m k)" using x by (simp add: x_safe_def)
    have "vm_mem m' y = vm_mem m y" if "pg (bx_ps b) y = k" for y
      using i w nw that unfolding writes_in_def writable_def by metis
    then have "page_verified e (bx_ps b) m k \<Longrightarrow> page_verified e (bx_ps b) m' k"
      by (rule page_verified_mem [rotated])
    then show ?thesis using x by (auto simp: x_safe_def acc)
  qed (simp add: x_safe_def acc)
  moreover have "keeps (box_page b) m m'" by (simp add: keeps_def acc)
  ultimately show ?thesis using box_effect_refl [OF b, of e m] by (simp add: box_step_def box_effect_def)
qed

text \<open>C10: Creating the main thread of a process. Whatever the arguments, the environment, the host and
  the load information, and with the stack at a random or a fixed place, the runtime does not
  fault, access outside the box stays, and executable pages of the box stay verified. A thread
  that is created has its stack in the box, and its stack pointer at the image a program expects
  (\<open>stack_ready\<close>); this needs a stack of at least 8568 bytes.\<close>

theorem main_thread_ready:
  assumes c: "checked e b" and sz: "8568 \<le> unat stacksize"
  shows "\<exists>r n' b' m'. lfi_thread_new e se ok_thread ok_ctx stacksize li argc argv envp (nthreads, b, m) =
      Some (r, n', b', m') \<and> box_step e b m b' m' \<and>
    (\<forall>t. r = Some t \<longrightarrow> bx_min b \<le> th_stack t \<and> unat (th_stack t) + unat stacksize \<le> unat (bx_max b) \<and>
       th_stack_size t = stacksize \<and> th_tid t = BASE_TID + nthreads \<and> n' = nthreads + 1 \<and>
       stack_ready (bx_ps b) li se (th_stack t) stacksize argc argv envp (th_sp t) m')"
proof (cases "ok_thread \<and> ok_ctx")
  case False
  then show ?thesis using box_step_refl [OF checkedD(1) [OF c]] by (auto simp: lfi_thread_new_def Let_def)
next
  case True
  let ?prot = "LFI_PROT_READ OR LFI_PROT_WRITE" and ?flags = "LFI_MAP_PRIVATE OR LFI_MAP_ANONYMOUS"
  let ?map = "if opt_no_aslr (bx_opts b)
     then lfi_box_mapat e (bx_max b - stacksize) stacksize ?prot ?flags (-1) 0 (b, m)
     else lfi_box_mapany e stacksize ?prot ?flags (-1) 0 (b, m)"
  have prot: "\<not> has_flag ?prot LFI_PROT_EXEC" "acc_w (host_prot ?prot)" by (simp_all add: has_flag_def host_prot_def lfi_flags)
  have anon: "hf_anonymous (host_flags ?flags)" by (simp add: host_flags_def lfi_flags has_flag_def)
  obtain stack b1 m1 where mp: "?map = Some (stack, b1, m1)" and st: "box_step e b m b1 m1"
    and ok: "stack \<noteq> -1 \<longrightarrow> unat (bx_min b) \<le> unat stack \<and> unat stack + unat stacksize \<le> unat (bx_max b) \<and>
       (\<forall>k. in_pages (bx_ps b) stack stacksize k \<longrightarrow> vm_acc m1 k = host_prot ?prot \<and> \<not> vm_past m1 k)"
    using mapat_data [OF c prot(1), of "bx_max b - stacksize" stacksize ?flags "-1" 0 m]
      mapany_data [OF c prot(1), of stacksize ?flags "-1" 0 m] anon by (cases "opt_no_aslr (bx_opts b)") auto
  show ?thesis
  proof (cases "stack = -1")
    case True
    then show ?thesis using \<open>ok_thread \<and> ok_ctx\<close> mp st by (auto simp: lfi_thread_new_def Let_def)
  next
    case False
    note bs = box_step_box [OF checkedD(1) [OF c] st]
    have r: "unat (bx_min b) \<le> unat stack" "unat stack + unat stacksize \<le> unat (bx_max b)"
      "\<forall>k. in_pages (bx_ps b) stack stacksize k \<longrightarrow> acc_w (vm_acc m1 k) \<and> \<not> vm_past m1 k"
      using ok False prot(2) by auto
    have w: "writable b1 m1 (unat stack) (unat stack + unat stacksize)"
      using writable_pages [of b1 stack stacksize m1] r bs(2,4,5) checkedD(4) [OF c] by simp
    obtain sp m2 where si: "stack_init b1 li se stack stacksize argc argv envp m1 = Some (sp, m2)"
      "writes_in (unat sp) (unat stack + unat stacksize) m1 m2" "unat stack \<le> unat sp"
      "stack_ready (bx_ps b1) li se stack stacksize argc argv envp sp m2"
      using stack_init_ok [OF w sz] by blast
    have "box_step e b1 m1 b1 m2"
      by (rule writes_step [OF bs(1) w writes_in_mono [OF si(2)]]) (use si(3) in simp_all)
    then have step: "box_step e b m b1 m2" by (rule box_step_trans [OF checkedD(1) [OF c] st])
    show ?thesis
      using \<open>ok_thread \<and> ok_ctx\<close> mp False si(1,4) step r(1,2) bs(2)
      by (auto simp: lfi_thread_new_def Let_def word_le_nat_alt)
  qed
qed

text \<open>A box of 68 KB for a stack of 64 KB.\<close>

definition stack_box :: lfi_box where
  "stack_box = demo_box\<lparr>bx_max := 0x22000, bx_max_exec := 0x22000,
     bx_mm := (bx_mm demo_box)\<lparr>as_len := 17\<rparr>\<rparr>"

theorem main_thread_ready_witness:
  "\<exists>r n' b' m'. lfi_thread_new demo_env \<lparr>se_offset = 5, se_random = [], se_hwcap = 0, se_hwcap2 = 0\<rparr> True True
      0x10000 no_elf_info 1 (\<lambda>i. if i = 0 then Some [0x61] else None) (\<lambda>i. None) (0, stack_box, demo_vm) =
      Some (r, n', b', m') \<and> box_step demo_env stack_box demo_vm b' m'"
proof -
  have c: "checked demo_env stack_box"
    by (simp add: checked_def stack_box_def box_ok_def demo_box_def demo_opts_def as_inv_def can_lower_def demo_env_def)
  have sz: "8568 \<le> unat (0x10000 :: u64)" by simp
  show ?thesis
    using main_thread_ready [OF c sz, where ok_thread = True
        and ok_ctx = True and li = no_elf_info and argc = "1" and envp = "\<lambda>i. None" and nthreads = "0" and m = demo_vm
        and se = "\<lparr>se_offset = 5, se_random = [], se_hwcap = 0, se_hwcap2 = 0\<rparr>"
        and argv = "\<lambda>i. if i = 0 then Some [0x61] else None"]
    by (elim exE conjE, intro exI conjI)
qed

text \<open>
  The fixed part of the image is not checked against the size of the stack: with a stack of one
  page the start of the image can fall below the stack, and here below the box, where the copy
  fails its assertion.
\<close>

lemma count_strs_none: "strs i = None \<Longrightarrow> count_strs k i maxlen strs budget c = c"
  by (cases k; cases c) simp_all

lemma small_stack_faults:
  "stack_init (demo_box\<lparr>bx_opts := demo_opts\<lparr>opt_no_aslr := False\<rparr>\<rparr>) li \<lparr>se_offset = 8191, se_random = [], se_hwcap = 0, se_hwcap2 = 0\<rparr> 0x11000 0x1000 0
     argv (\<lambda>i. None) m = None"
proof -
  have "truncp (0x11000 + 0x1000 - 8191) 16 = 0x10000" by (simp add: truncp_def Let_def)
  then show ?thesis
    by (simp add: stack_init_def Let_def count_strs_none ARGV_MAX_def demo_box_def demo_opts_def STACK_RND_RANGE_def
        lfi_box_copyto_def lfi_box_bufvalid_def)
qed

end
