(* ===== verification/Ring.thy ===== *)
theory Ring
  imports Prelude
begin

text \<open>
  The intrusive list of a process's threads, \<^verbatim>\<open>linux/list.c\<close> and \<^verbatim>\<open>linux/list.h\<close>: elements in a
  ring with pointers both ways, and a pointer to the last of them. A pointer is a number, the null
  pointer \<open>None\<close>; the memory is the two fields of every element. \<open>ThreadLife\<close> uses plain lists in
  place of the ring.
\<close>

subsection \<open>The code\<close>

record ring_mem =
  nxt :: "nat \<Rightarrow> nat"
  prv :: "nat \<Rightarrow> nat"

definition set_next :: "nat \<Rightarrow> nat \<Rightarrow> ring_mem \<Rightarrow> ring_mem" where
  "set_next x y h = h\<lparr>nxt := (nxt h)(x := y)\<rparr>"

definition set_prev :: "nat \<Rightarrow> nat \<Rightarrow> ring_mem \<Rightarrow> ring_mem" where
  "set_prev x y h = h\<lparr>prv := (prv h)(x := y)\<rparr>"

definition list_init :: "nat \<Rightarrow> ring_mem \<Rightarrow> ring_mem" where
  "list_init l h = set_prev l l (set_next l l h)"

definition list_first :: "nat option \<Rightarrow> ring_mem \<Rightarrow> nat option" where
  "list_first l h = (case l of None \<Rightarrow> None | Some x \<Rightarrow> Some (nxt h x))"

definition list_next :: "nat option \<Rightarrow> nat \<Rightarrow> ring_mem \<Rightarrow> nat option" where
  "list_next l e h = (if Some e \<noteq> l then Some (nxt h e) else None)"

definition splice_after :: "nat \<Rightarrow> nat \<Rightarrow> ring_mem \<Rightarrow> ring_mem" where
  "splice_after elem succ h =
     (let tmp1 = nxt h elem;
          tmp2 = prv h succ;
          h = set_next elem succ h;
          h = set_prev succ elem h;
          h = set_next tmp2 tmp1 h
      in set_prev tmp1 tmp2 h)"

definition list_remove :: "nat \<Rightarrow> nat option \<times> ring_mem \<Rightarrow> nat option \<times> ring_mem" where
  "list_remove elem lh = (case lh of (l, h) \<Rightarrow>
     let l = (if l = Some elem then (if prv h elem = elem then None else Some (prv h elem)) else l);
         h = set_prev (nxt h elem) (prv h elem) h;
         h = set_next (prv h elem) (nxt h elem) h;
         h = set_next elem elem h;
         h = set_prev elem elem h
     in (l, h))"

definition list_make_first :: "nat option \<Rightarrow> nat option \<times> ring_mem \<Rightarrow> nat option \<times> ring_mem" where
  "list_make_first elem lh = (case (elem, lh) of
     (None, lh) \<Rightarrow> lh
   | (Some x, (None, h)) \<Rightarrow> (Some (prv h x), h)
   | (Some x, (Some l, h)) \<Rightarrow> (Some l, splice_after l x h))"

text \<open>The loop of \<^verbatim>\<open>proc_destroy\<close> and of the other users: the elements from the first on.\<close>

fun list_walk :: "nat \<Rightarrow> nat option \<Rightarrow> nat option \<Rightarrow> ring_mem \<Rightarrow> nat list option" where
  "list_walk 0 l e h = (if e = None then Some [] else None)"
| "list_walk (Suc n) l e h = (case e of None \<Rightarrow> Some []
     | Some x \<Rightarrow> map_option ((#) x) (list_walk n l (list_next l x h) h))"

subsection \<open>Rings\<close>

text \<open>From \<open>a\<close> over \<open>ys\<close> to \<open>b\<close> both ways.\<close>

fun seg :: "ring_mem \<Rightarrow> nat \<Rightarrow> nat list \<Rightarrow> nat \<Rightarrow> bool" where
  "seg h a [] b \<longleftrightarrow> nxt h a = b \<and> prv h b = a"
| "seg h a (y # ys) b \<longleftrightarrow> nxt h a = y \<and> prv h y = a \<and> seg h y ys b"

definition alone :: "ring_mem \<Rightarrow> nat \<Rightarrow> bool" where
  "alone h x \<longleftrightarrow> nxt h x = x \<and> prv h x = x"

definition ring :: "nat list \<Rightarrow> nat option \<times> ring_mem \<Rightarrow> bool" where
  "ring xs lh = (case lh of (l, h) \<Rightarrow> distinct xs \<and> (\<forall>x. x \<notin> set xs \<longrightarrow> alone h x) \<and>
     (if xs = [] then l = None else l = Some (last xs) \<and> seg h (last xs) (butlast xs) (last xs)))"

lemma seg_append: "seg h a (xs @ y # ys) b \<longleftrightarrow> seg h a xs y \<and> seg h y ys b"
  by (induction xs arbitrary: a) auto

lemma seg_next: "seg h a ys b \<Longrightarrow> nxt h a = hd (ys @ [b])"
  by (cases ys) auto

lemma seg_prev: "seg h a ys b \<Longrightarrow> prv h b = last (a # ys)"
  by (induction ys arbitrary: a) auto

lemma seg_cong:
  "seg h a ys b \<Longrightarrow> (\<And>x. x \<in> insert a (set ys) \<Longrightarrow> nxt h' x = nxt h x) \<Longrightarrow>
    (\<And>x. x \<in> insert b (set ys) \<Longrightarrow> prv h' x = prv h x) \<Longrightarrow> seg h' a ys b"
  by (induction ys arbitrary: a) auto

lemmas mem_defs = set_next_def set_prev_def

text \<open>A segment keeps its inner links when its end moves.\<close>

lemma seg_start:
  assumes "seg h a ys b" "distinct ys" "\<And>x. x \<in> set ys \<Longrightarrow> nxt h' x = nxt h x"
    "nxt h' c = hd (ys @ [b])" "prv h' (hd (ys @ [b])) = c" "\<And>x. x \<in> set (tl (ys @ [b])) \<Longrightarrow> prv h' x = prv h x"
  shows "seg h' c ys b"
  using assms by (cases ys) (auto intro: seg_cong)

lemma insert_empty: "ring [] (l, h) \<Longrightarrow> ring [x] (list_make_first (Some x) (l, h))"
  by (auto simp: ring_def list_make_first_def alone_def)

lemma insert_ring:
  assumes "ring xs (l, h)" "x \<notin> set xs"
  shows "ring (x # xs) (list_make_first (Some x) (l, h))"
proof (cases xs rule: rev_cases)
  case Nil
  then show ?thesis using assms(1) insert_empty by simp
next
  case (snoc ys e)
  then have r: "l = Some e" "distinct (ys @ [e])" "seg h e ys e" "alone h x" "\<And>z. z \<notin> set xs \<Longrightarrow> alone h z"
    using assms by (auto simp: ring_def)
  let ?h = "splice_after e x h"
  let ?f = "hd (ys @ [e])"
  have x: "x \<noteq> e" "x \<notin> set ys" "x \<noteq> ?f" using assms(2) snoc by (cases ys; auto)+
  have h: "?h = h\<lparr>nxt := (nxt h)(e := x, x := ?f), prv := (prv h)(x := e, ?f := x)\<rparr>"
    using r(4) x seg_next [OF r(3)] by (simp add: splice_after_def Let_def mem_defs alone_def)
  have "seg ?h x ys e"
    by (rule seg_start [OF r(3)]) (use r(2) x in \<open>cases ys; auto simp: h\<close>)+
  moreover have "nxt ?h e = x" "prv ?h x = e" using x by (auto simp: h)
  moreover have "alone ?h z" if "z \<notin> set xs" "z \<noteq> x" for z
  proof -
    have "?f \<in> set xs" using snoc by (cases ys) auto
    then have "z \<noteq> e" "z \<noteq> ?f" using that(1) snoc by auto
    then show ?thesis using r(5) [OF that(1)] that(2) by (simp add: alone_def h)
  qed
  ultimately show ?thesis using r snoc x by (auto simp: ring_def list_make_first_def)
qed

lemma seg_join:
  assumes "seg h a as x" "seg h x bs b" "distinct bs" "nxt h' (last (a # as)) = hd (bs @ [b])" "prv h' (hd (bs @ [b])) = last (a # as)"
    "\<And>z. z \<in> set (butlast (a # as)) \<union> set bs \<Longrightarrow> nxt h' z = nxt h z"
    "\<And>z. z \<in> set as \<union> set (tl (bs @ [b])) \<Longrightarrow> prv h' z = prv h z"
  shows "seg h' a (as @ bs) b"
  using assms
proof (induction as arbitrary: a)
  case Nil
  then show ?case using seg_start [OF Nil(2,3), of h' a] by simp
qed (auto split: if_splits)

lemma remove_absent: "ring xs lh \<Longrightarrow> x \<notin> set xs \<Longrightarrow> list_remove x lh = lh"
  by (cases lh) (auto simp: ring_def list_remove_def Let_def mem_defs alone_def fun_upd_idem split: if_splits)

lemma remove_last:
  assumes "ring (ys @ [x]) (l, h)"
  shows "ring ys (list_remove x (l, h))"
proof (cases ys rule: rev_cases)
  case Nil
  then show ?thesis using assms
    by (auto simp: ring_def list_remove_def Let_def mem_defs alone_def)
next
  case (snoc zs d)
  have r: "l = Some x" "distinct (zs @ [d, x])" "seg h x zs d" "seg h d [] x" "\<And>z. z \<notin> set (ys @ [x]) \<Longrightarrow> alone h z"
    using assms snoc by (simp_all add: ring_def seg_append butlast_append)
  let ?f = "hd (zs @ [d])"
  have f: "nxt h x = ?f" "prv h x = d" using seg_next [OF r(3)] r(4) by simp_all
  have x: "x \<noteq> d" "x \<notin> set zs" "x \<noteq> ?f" using r(2) by (cases zs; auto)+
  let ?h = "h\<lparr>nxt := (nxt h)(d := ?f, x := x), prv := (prv h)(?f := d, x := x)\<rparr>"
  have h: "list_remove x (l, h) = (Some d, ?h)"
    unfolding list_remove_def by (simp only: prod.case Let_def f r(1) mem_defs) (use x f in simp)
  have "seg ?h d zs d" by (rule seg_start [OF r(3)]) (use r(2) x in \<open>cases zs; auto\<close>)+
  moreover have "alone ?h z" if "z \<notin> set ys" for z
  proof -
    have "?f \<in> set ys" using snoc by (cases zs) auto
    then show ?thesis using that r(5) [of z] snoc x by (auto simp: alone_def)
  qed
  ultimately show ?thesis using r(2) snoc unfolding h by (simp add: ring_def)
qed

lemma remove_inner:
  assumes "ring (as @ x # bs @ [e]) (l, h)"
  shows "ring (as @ bs @ [e]) (list_remove x (l, h))"
proof -
  have r: "l = Some e" "distinct (as @ x # bs @ [e])" "seg h e as x" "seg h x bs e"
      "\<And>z. z \<notin> set (as @ x # bs @ [e]) \<Longrightarrow> alone h z"
    using assms by (auto simp: ring_def seg_append butlast_append)
  let ?f = "hd (bs @ [e])" and ?p = "last (e # as)"
  have f: "nxt h x = ?f" "prv h x = ?p" by (rule seg_next [OF r(4)], rule seg_prev [OF r(3)])
  have fin: "?f \<in> set (bs @ [e])" "?p \<in> insert e (set as)" by (cases bs; auto)+
  then have x: "x \<noteq> e" "x \<noteq> ?f" "x \<noteq> ?p" using r(2) by auto
  let ?h = "h\<lparr>nxt := (nxt h)(?p := ?f, x := x), prv := (prv h)(?f := ?p, x := x)\<rparr>"
  have h: "list_remove x (l, h) = (Some e, ?h)"
    unfolding list_remove_def by (simp only: prod.case Let_def f r(1) mem_defs) (use x f in simp)
  have p: "?p \<notin> set (butlast (e # as)) \<union> set bs" using r(2) by (cases as rule: rev_cases) (auto split: if_splits)
  have g: "?f \<notin> set as \<union> set (tl (bs @ [e]))" using r(2) by (cases bs) auto
  have x': "x \<notin> set (butlast (e # as)) \<union> set bs" "x \<notin> set as \<union> set (tl (bs @ [e]))"
    using r(2) x(1) by (cases bs; auto dest: in_set_butlastD split: if_splits)+
  have "seg ?h e (as @ bs) e"
    by (rule seg_join [OF r(3,4)]) (use r(2) x p g x' in \<open>auto simp: fun_upd_apply\<close>)
  moreover have "alone ?h z" if z: "z \<notin> set (as @ bs @ [e])" for z
  proof (cases "z = x")
    case False
    then have "alone h z" using r(5) z by auto
    moreover have "z \<noteq> ?f" "z \<noteq> ?p" using fin z by auto
    ultimately show ?thesis using False by (simp add: alone_def)
  qed (simp add: alone_def)
  ultimately show ?thesis using r(2) unfolding h by (auto simp: ring_def butlast_append)
qed

lemma remove_ring:
  assumes "ring xs lh"
  shows "ring (remove1 x xs) (list_remove x lh)"
proof (cases "x \<in> set xs")
  case True
  obtain l h where lh: "lh = (l, h)" by (cases lh)
  obtain as cs where xs: "xs = as @ x # cs" "x \<notin> set as" using split_list_first [OF True] by blast
  show ?thesis
  proof (cases cs rule: rev_cases)
    case Nil
    then show ?thesis using remove_last [of as x l h] assms xs lh by (simp add: remove1_append)
  next
    case (snoc bs e)
    then show ?thesis using remove_inner [of as x bs e l h] assms xs lh by (simp add: remove1_append)
  qed
qed (use assms remove_absent [OF assms] in \<open>simp add: remove1_idem\<close>)

lemma walk_seg:
  "seg h a ys b \<Longrightarrow> distinct ys \<Longrightarrow> b \<notin> set ys \<Longrightarrow>
    list_walk (Suc (Suc (length ys))) (Some b) (Some (nxt h a)) h = Some (ys @ [b])"
  by (induction ys arbitrary: a) (auto simp: list_next_def)

lemma walk_ring:
  assumes "ring xs (l, h)"
  shows "list_walk (Suc (length xs)) l (list_first l h) h = Some xs"
proof (cases xs rule: rev_cases)
  case (snoc ys e)
  then show ?thesis using assms walk_seg [of h e ys e] by (simp add: ring_def list_first_def)
qed (use assms in \<open>simp add: ring_def list_first_def\<close>)

subsection \<open>Refinement\<close>

datatype ring_op = Enter nat | Remove nat

fun ring_do :: "ring_op \<Rightarrow> nat option \<times> ring_mem \<Rightarrow> nat option \<times> ring_mem" where
  "ring_do (Enter x) (l, h) = list_make_first (Some x) (l, list_init x h)"
| "ring_do (Remove x) lh = list_remove x lh"

fun spec_do :: "ring_op \<Rightarrow> nat list \<Rightarrow> nat list" where
  "spec_do (Enter x) xs = x # xs"
| "spec_do (Remove x) xs = remove1 x xs"

fun enters_new :: "ring_op list \<Rightarrow> nat list \<Rightarrow> bool" where
  "enters_new [] xs = True"
| "enters_new (op # ops) xs = ((case op of Enter x \<Rightarrow> x \<notin> set xs | Remove x \<Rightarrow> True) \<and> enters_new ops (spec_do op xs))"

definition fresh_ring :: "nat option \<times> ring_mem" where
  "fresh_ring = (None, \<lparr>nxt = id, prv = id\<rparr>)"

lemma ring_do: "ring xs lh \<Longrightarrow> enters_new [op] xs \<Longrightarrow> ring (spec_do op xs) (ring_do op lh)"
proof (cases op)
  case (Enter x)
  moreover assume "ring xs lh" "enters_new [op] xs"
  moreover obtain l h where "lh = (l, h)" by (cases lh)
  ultimately show ?thesis using insert_ring [of xs l h x]
    by (auto simp: ring_def list_init_def mem_defs alone_def fun_upd_idem)
qed (simp add: remove_ring)

lemma ring_run: "ring xs lh \<Longrightarrow> enters_new ops xs \<Longrightarrow> ring (fold spec_do ops xs) (fold ring_do ops lh)"
proof (induction ops arbitrary: xs lh)
  case (Cons op ops)
  then show ?case using ring_do [OF Cons.prems(1), of op] by simp
qed simp

text \<open>C17: The thread ring refines a list. After any sequence of initialising elements that are not in
  the list and entering them, and of removing any elements, members or not, the loop over the ring ends and meets exactly the elements of the abstract list, the last
  entered first, where removing an element twice is the same as once.\<close>

theorem thread_ring_refines:
  assumes "enters_new ops []"
  shows "let (l, h) = fold ring_do ops fresh_ring; xs = fold spec_do ops [] in
    list_walk (Suc (length xs)) l (list_first l h) h = Some xs \<and>
    (\<forall>x. x \<notin> set xs \<longrightarrow> nxt h x = x \<and> prv h x = x \<and> list_remove x (l, h) = (l, h)) \<and>
    (\<forall>x. list_remove x (list_remove x (l, h)) = list_remove x (l, h))"
proof -
  obtain l h where lh: "fold ring_do ops fresh_ring = (l, h)" by (cases "fold ring_do ops fresh_ring")
  let ?xs = "fold spec_do ops []"
  have "ring [] fresh_ring" by (simp add: ring_def fresh_ring_def alone_def)
  then have r: "ring ?xs (l, h)" using ring_run [OF _ assms, of fresh_ring] lh by simp
  then have "distinct ?xs" and out: "\<And>x. x \<notin> set ?xs \<Longrightarrow> alone h x" by (simp_all add: ring_def)
  have "list_remove x (list_remove x (l, h)) = list_remove x (l, h)" for x
    by (rule remove_absent [OF remove_ring [OF r]]) (use \<open>distinct ?xs\<close> in simp)
  then show ?thesis
    using walk_ring [OF r] remove_absent [OF r] out lh by (simp add: alone_def)
qed

definition ring_sample :: "ring_op list" where
  "ring_sample = [Enter 1, Enter 2, Enter 3, Remove 1, Remove 1]"

lemma thread_ring_refines_witness:
  "let (l, h) = fold ring_do ring_sample fresh_ring
   in list_walk (Suc 2) l (list_first l h) h = Some [3, 2] \<and> nxt h 1 = 1"
proof -
  have "enters_new ring_sample []" and xs: "fold spec_do ring_sample [] = [3, 2]" by code_simp+
  note r = thread_ring_refines [OF this(1)]
  show ?thesis using r unfolding xs Let_def split_beta by (simp del: list_walk.simps add: numeral_2_eq_2)
qed

end
