(* ===== verification/ThreadLife.thy ===== *)
theory ThreadLife
  imports Prelude
begin

text \<open>
  Who frees what: the threads of processes and the processes themselves, \<^verbatim>\<open>linux/trampoline.c\<close>,
  \<^verbatim>\<open>lfi_proc_free\<close> and \<^verbatim>\<open>proc_destroy\<close> of \<^verbatim>\<open>linux/proc.c\<close>, and the host threads of
  \<^verbatim>\<open>linux/sys/sys_clone.c\<close>. Host threads attach to a process when they first call into it and
  detach when they end or on request; the runtime has threads of its own, which the sandbox
  clones; \<^verbatim>\<open>lfi_proc_free\<close> can be called while some are still there. Everything between two lock
  operations is one step, and the steps of different threads interleave in any order. A step that
  uses a process that was freed has no result. A thread with its context is a number.
\<close>

subsection \<open>State\<close>

text \<open>
  A process: the ring of runtime threads, the counters, the flag of a deferred free, the thread of
  the clone context, and whether its memory is still allocated. \<open>fp_running\<close> are the runtime
  threads whose \<^verbatim>\<open>threadspawn\<close> has not ended, \<open>fp_closed\<close> says that \<^verbatim>\<open>lfi_proc_free\<close> was called.
\<close>

record lf_proc =
  fp_threads :: "nat list"
  fp_running :: "nat list"
  fp_active :: int
  fp_attached :: int
  fp_pending :: bool
  fp_clone :: "nat option"
  fp_alive :: bool
  fp_closed :: bool

text \<open>
  Where a host thread is: outside the runtime; in \<^verbatim>\<open>lfi_linux_clone_cb\<close> while the sandbox creates
  a thread; in \<^verbatim>\<open>lfi_linux_init_clone\<close> (has the sandbox cloned?); in \<^verbatim>\<open>detach_ctx\<close> before the
  thread is freed, before the counter is decremented, and waiting for the last runtime thread;
  about to destroy a process. The last component is what \<^verbatim>\<open>thread_destructor\<close> still has to detach.
\<close>

datatype host_pc = Outside | Attaching nat | Initing nat bool | Detaching nat nat "(nat \<times> nat) list"
  | Counting nat "(nat \<times> nat) list" | Waiting nat "(nat \<times> nat) list" | Destroying nat "(nat \<times> nat) list"

text \<open>The list of \<^verbatim>\<open>AttachedCtx\<close> nodes and \<^verbatim>\<open>new_ctx\<close> are thread-local.\<close>

record lf_host =
  fh_nodes :: "(nat \<times> nat) list"
  fh_new :: "nat option"
  fh_pc :: host_pc

text \<open>All processes and host threads, the next thread number, the threads freed so far, and whether
  the host process was aborted.\<close>

record life =
  li_procs :: "lf_proc list"
  li_hosts :: "lf_host list"
  li_next :: nat
  li_freed :: "nat list"
  li_aborted :: bool

definition upd_proc :: "nat \<Rightarrow> (lf_proc \<Rightarrow> lf_proc) \<Rightarrow> life \<Rightarrow> life" where
  "upd_proc p f s = s\<lparr>li_procs := (li_procs s)[p := f (li_procs s ! p)]\<rparr>"

definition upd_host :: "nat \<Rightarrow> (lf_host \<Rightarrow> lf_host) \<Rightarrow> life \<Rightarrow> life" where
  "upd_host h f s = s\<lparr>li_hosts := (li_hosts s)[h := f (li_hosts s ! h)]\<rparr>"

abbreviation go :: "nat \<Rightarrow> host_pc \<Rightarrow> life \<Rightarrow> life" where
  "go h pc \<equiv> upd_host h (fh_pc_update (\<lambda>_. pc))"

text \<open>An access to a process; a freed one is a fault.\<close>

definition with_proc :: "nat \<Rightarrow> (lf_proc \<Rightarrow> life run) \<Rightarrow> life \<Rightarrow> life run" where
  "with_proc p f s = (if fp_alive (li_procs s ! p) then f (li_procs s ! p) else None)"

definition lfi_thread_freed :: "nat \<Rightarrow> life \<Rightarrow> life" where
  "lfi_thread_freed c s = s\<lparr>li_freed := c # li_freed s\<rparr>"

subsection \<open>Attaching\<close>

text \<open>\<^verbatim>\<open>lfi_linux_clone_cb\<close> up to the call of the sandbox's \<^verbatim>\<open>thread_create\<close>.\<close>

definition clone_cb_begin :: "nat \<Rightarrow> nat \<Rightarrow> life \<Rightarrow> life run" where
  "clone_cb_begin h p s = with_proc p (\<lambda>_.
     Some (upd_host h (\<lambda>t. t\<lparr>fh_new := None, fh_pc := Attaching p\<rparr>)
       (upd_proc p (\<lambda>q. q\<lparr>fp_attached := fp_attached q + 1\<rparr>) s))) s"

text \<open>The sandbox clones on the clone context (\<^verbatim>\<open>spawn\<close> with \<^verbatim>\<open>attach\<close>); it may do so several times.\<close>

definition clone_attach :: "nat \<Rightarrow> life \<Rightarrow> life run" where
  "clone_attach h s =
     (let c = li_next s;
          pc = (case fh_pc (li_hosts s ! h) of Initing p _ \<Rightarrow> Initing p True | pc \<Rightarrow> pc)
      in Some (upd_host h (\<lambda>t. t\<lparr>fh_new := Some c, fh_pc := pc\<rparr>) (s\<lparr>li_next := c + 1\<rparr>)))"

text \<open>\<^verbatim>\<open>attach_ctx\<close>: \<open>ok\<close> says whether the node is allocated and the cleanup registered.\<close>

definition attach_ctx :: "bool \<Rightarrow> nat \<Rightarrow> nat \<Rightarrow> lf_host \<Rightarrow> bool \<times> lf_host" where
  "attach_ctx ok p c t = (if ok then (True, t\<lparr>fh_nodes := (p, c) # fh_nodes t\<rparr>) else (False, t))"

text \<open>The rest of the callback; \<^verbatim>\<open>lfi_clone\<close> aborts when it gives no context.\<close>

definition clone_cb_end :: "bool \<Rightarrow> nat \<Rightarrow> nat \<Rightarrow> life \<Rightarrow> life run" where
  "clone_cb_end ok h p s = with_proc p (\<lambda>_.
     let fail = Some ((go h Outside (upd_proc p (\<lambda>q. q\<lparr>fp_attached := fp_attached q - 1\<rparr>) s))\<lparr>li_aborted := True\<rparr>)
     in case fh_new (li_hosts s ! h) of
          None \<Rightarrow> fail
        | Some c \<Rightarrow>
            (let (attached, t) = attach_ctx ok p c (li_hosts s ! h)
             in if \<not> attached then fail else Some (go h Outside (upd_host h (\<lambda>_. t) s)))) s"

text \<open>\<^verbatim>\<open>lfi_linux_init_clone\<close>: the sandbox's \<^verbatim>\<open>thread_create\<close> runs on the main context; then the clone
  context is whatever \<^verbatim>\<open>new_ctx\<close> host_attachments.\<close>

definition init_clone_begin :: "nat \<Rightarrow> nat \<Rightarrow> life \<Rightarrow> life run" where
  "init_clone_begin h p s = with_proc p (\<lambda>_. Some (go h (Initing p False) s)) s"

definition init_clone_end :: "nat \<Rightarrow> nat \<Rightarrow> life \<Rightarrow> life run" where
  "init_clone_end h p s = with_proc p (\<lambda>_.
     Some (go h Outside (upd_proc p (\<lambda>q. q\<lparr>fp_clone := fh_new (li_hosts s ! h)\<rparr>) s))) s"

subsection \<open>Detaching and destroying\<close>

text \<open>\<^verbatim>\<open>lfi_linux_detach_thread\<close>: the first node of the process is unlinked.\<close>

fun unlink :: "nat \<Rightarrow> (nat \<times> nat) list \<Rightarrow> (nat \<times> (nat \<times> nat) list) option" where
  "unlink p [] = None"
| "unlink p ((q, c) # ns) =
     (if q = p then Some (c, ns) else case unlink p ns of None \<Rightarrow> None | Some (d, ms) \<Rightarrow> Some (d, (q, c) # ms))"

definition lfi_linux_detach_thread :: "nat \<Rightarrow> nat \<Rightarrow> life \<Rightarrow> life run" where
  "lfi_linux_detach_thread h p s =
     (case unlink p (fh_nodes (li_hosts s ! h)) of
        None \<Rightarrow> Some s
      | Some (c, ns) \<Rightarrow> Some (upd_host h (\<lambda>t. t\<lparr>fh_nodes := ns, fh_pc := Detaching p c []\<rparr>) s))"

text \<open>\<^verbatim>\<open>thread_destructor\<close> detaches one node after the other.\<close>

definition next_node :: "(nat \<times> nat) list \<Rightarrow> host_pc" where
  "next_node ns = (case ns of [] \<Rightarrow> Outside | (p, c) # ns \<Rightarrow> Detaching p c ns)"

definition thread_destructor :: "nat \<Rightarrow> life \<Rightarrow> life run" where
  "thread_destructor h s =
     Some (upd_host h (\<lambda>t. t\<lparr>fh_nodes := [], fh_pc := next_node (fh_nodes t)\<rparr>) s)"

text \<open>\<^verbatim>\<open>detach_ctx\<close>: the sandbox tears its thread down and the thread is freed; then, under the lock of
  the process, the counter; then the wait for runtime threads, if this was the last one.\<close>

definition detach_free :: "nat \<Rightarrow> nat \<Rightarrow> nat \<Rightarrow> (nat \<times> nat) list \<Rightarrow> life \<Rightarrow> life run" where
  "detach_free h p c ns s = with_proc p (\<lambda>_. Some (go h (Counting p ns) (lfi_thread_freed c s))) s"

definition detach_count :: "nat \<Rightarrow> nat \<Rightarrow> (nat \<times> nat) list \<Rightarrow> life \<Rightarrow> life run" where
  "detach_count h p ns s = with_proc p (\<lambda>q.
     let remaining = fp_attached q - 1;
         do_destroy = (remaining = 0 \<and> fp_pending q)
     in Some (go h (if do_destroy then Waiting p ns else next_node ns)
                (upd_proc p (\<lambda>q. q\<lparr>fp_attached := remaining\<rparr>) s))) s"

definition detach_wait :: "nat \<Rightarrow> nat \<Rightarrow> (nat \<times> nat) list \<Rightarrow> life \<Rightarrow> life run" where
  "detach_wait h p ns s = with_proc p (\<lambda>q.
     Some (if fp_active q \<noteq> 0 then s else go h (Destroying p ns) s)) s"

text \<open>\<^verbatim>\<open>proc_destroy\<close>: remaining threads of the ring, the clone context, the process.\<close>

definition proc_destroy_threads :: "nat \<Rightarrow> life \<Rightarrow> life run" where
  "proc_destroy_threads p s = with_proc p (\<lambda>q.
     let s = fold lfi_thread_freed (fp_threads q) s;
         s = (case fp_clone q of None \<Rightarrow> s | Some c \<Rightarrow> lfi_thread_freed c s)
     in Some (upd_proc p (\<lambda>q. q\<lparr>fp_alive := False\<rparr>) s)) s"

definition destroy :: "nat \<Rightarrow> nat \<Rightarrow> (nat \<times> nat) list \<Rightarrow> life \<Rightarrow> life run" where
  "destroy h p ns s = proc_destroy_threads p s \<bind> (\<lambda>s. Some (go h (next_node ns) s))"

text \<open>\<^verbatim>\<open>lfi_proc_free\<close>, once it has waited for the runtime threads.\<close>

definition lfi_proc_free :: "nat \<Rightarrow> nat \<Rightarrow> life \<Rightarrow> life run" where
  "lfi_proc_free h p s = with_proc p (\<lambda>q.
     let s = upd_proc p (\<lambda>q. q\<lparr>fp_closed := True\<rparr>) s
     in if fp_active q \<noteq> 0 then None
        else if fp_attached q > 0 then Some (upd_proc p (\<lambda>q. q\<lparr>fp_pending := True\<rparr>) s)
        else Some (go h (Destroying p []) s)) s"

subsection \<open>Runtime threads\<close>

text \<open>\<^verbatim>\<open>spawn\<close> enters the thread in the ring; when \<^verbatim>\<open>pthread_create\<close> fails it is taken out and freed.\<close>

definition spawn_thread :: "bool \<Rightarrow> nat \<Rightarrow> life \<Rightarrow> life run" where
  "spawn_thread ok p s = with_proc p (\<lambda>_.
     let c = li_next s;
         s = upd_proc p (\<lambda>q. q\<lparr>fp_threads := c # fp_threads q, fp_active := fp_active q + 1\<rparr>) (s\<lparr>li_next := c + 1\<rparr>)
     in if ok then Some (upd_proc p (\<lambda>q. q\<lparr>fp_running := c # fp_running q\<rparr>) s)
        else Some (lfi_thread_freed c
               (upd_proc p (\<lambda>q. q\<lparr>fp_threads := remove1 c (fp_threads q), fp_active := fp_active q - 1\<rparr>) s))) s"

text \<open>\<^verbatim>\<open>thread_exit\<close> takes the thread out of the ring before it leaves the sandbox.\<close>

definition thread_leave :: "nat \<Rightarrow> nat \<Rightarrow> life \<Rightarrow> life run" where
  "thread_leave p c s = with_proc p (\<lambda>_.
     Some (upd_proc p (\<lambda>q. q\<lparr>fp_threads := remove1 c (fp_threads q)\<rparr>) s)) s"

text \<open>The end of \<^verbatim>\<open>threadspawn\<close>.\<close>

definition threadspawn_end :: "nat \<Rightarrow> nat \<Rightarrow> life \<Rightarrow> life run" where
  "threadspawn_end p c s = with_proc p (\<lambda>_.
     Some (upd_proc p (\<lambda>q. q\<lparr>fp_running := remove1 c (fp_running q), fp_active := fp_active q - 1\<rparr>)
       (lfi_thread_freed c (upd_proc p (\<lambda>q. q\<lparr>fp_threads := remove1 c (fp_threads q)\<rparr>) s)))) s"

subsection \<open>Steps\<close>

text \<open>
  What can happen when: the host calls in from outside only, does not use a process after
  \<^verbatim>\<open>lfi_proc_free\<close> and calls that once; the sandbox of a process runs while a runtime thread or an
  attached host thread is in it, or before it is closed (the main thread). \<open>Init\<close> ends only after
  a clone of the sandbox or on a host thread whose \<^verbatim>\<open>new_ctx\<close> is empty; what happens otherwise is
  below.
\<close>

datatype thread_op = Attach nat nat | Clone nat | Attached bool nat | Init nat nat | Inited nat | Detach nat nat
  | ThreadEnd nat | Advance nat | Free nat nat | Spawn bool nat | Leave nat nat | SpawnEnd nat nat

fun life_do :: "thread_op \<Rightarrow> life \<Rightarrow> life run" where
  "life_do (Attach h p) s = clone_cb_begin h p s"
| "life_do (Clone h) s = clone_attach h s"
| "life_do (Attached ok h) s = (case fh_pc (li_hosts s ! h) of Attaching p \<Rightarrow> clone_cb_end ok h p s | _ \<Rightarrow> Some s)"
| "life_do (Init h p) s = init_clone_begin h p s"
| "life_do (Inited h) s = (case fh_pc (li_hosts s ! h) of Initing p _ \<Rightarrow> init_clone_end h p s | _ \<Rightarrow> Some s)"
| "life_do (Detach h p) s = lfi_linux_detach_thread h p s"
| "life_do (ThreadEnd h) s = thread_destructor h s"
| "life_do (Advance h) s = (case fh_pc (li_hosts s ! h) of
     Detaching p c ns \<Rightarrow> detach_free h p c ns s
   | Counting p ns \<Rightarrow> detach_count h p ns s
   | Waiting p ns \<Rightarrow> detach_wait h p ns s
   | Destroying p ns \<Rightarrow> destroy h p ns s
   | _ \<Rightarrow> Some s)"
| "life_do (Free h p) s = lfi_proc_free h p s"
| "life_do (Spawn ok p) s = spawn_thread ok p s"
| "life_do (Leave p c) s = thread_leave p c s"
| "life_do (SpawnEnd p c) s = threadspawn_end p c s"

text \<open>How often a host thread is attached to a process, ended attachments not yet counted included.\<close>

definition times :: "'a \<Rightarrow> 'a list \<Rightarrow> nat" where
  "times x xs = count_list xs x"

fun pc_holds :: "nat \<Rightarrow> host_pc \<Rightarrow> nat" where
  "pc_holds p (Attaching q) = of_bool (q = p)"
| "pc_holds p (Detaching q c ns) = of_bool (q = p) + times p (map fst ns)"
| "pc_holds p (Counting q ns) = of_bool (q = p) + times p (map fst ns)"
| "pc_holds p (Waiting q ns) = times p (map fst ns)"
| "pc_holds p (Destroying q ns) = times p (map fst ns)"
| "pc_holds p _ = 0"

definition host_attachments :: "nat \<Rightarrow> lf_host \<Rightarrow> nat" where
  "host_attachments p t = times p (map fst (fh_nodes t)) + pc_holds p (fh_pc t)"

definition attachments :: "nat \<Rightarrow> life \<Rightarrow> nat" where
  "attachments p s = sum_list (map (host_attachments p) (li_hosts s))"

definition initing :: "nat \<Rightarrow> host_pc \<Rightarrow> bool" where
  "initing p pc = (case pc of Initing q _ \<Rightarrow> q = p | _ \<Rightarrow> False)"

fun allowed :: "thread_op \<Rightarrow> life \<Rightarrow> bool" where
  "allowed (Attach h p) s = (h < length (li_hosts s) \<and> p < length (li_procs s) \<and>
     fh_pc (li_hosts s ! h) = Outside \<and> \<not> fp_closed (li_procs s ! p))"
| "allowed (Clone h) s = (h < length (li_hosts s) \<and>
     (case fh_pc (li_hosts s ! h) of Attaching _ \<Rightarrow> True | Initing _ _ \<Rightarrow> True | _ \<Rightarrow> False))"
| "allowed (Attached ok h) s = (h < length (li_hosts s))"
| "allowed (Init h p) s = (h < length (li_hosts s) \<and> p < length (li_procs s) \<and>
     fh_pc (li_hosts s ! h) = Outside \<and> \<not> fp_closed (li_procs s ! p))"
| "allowed (Inited h) s = (h < length (li_hosts s) \<and>
     (case fh_pc (li_hosts s ! h) of Initing _ made \<Rightarrow> made \<or> fh_new (li_hosts s ! h) = None | _ \<Rightarrow> True))"
| "allowed (Detach h p) s = (h < length (li_hosts s) \<and> fh_pc (li_hosts s ! h) = Outside)"
| "allowed (ThreadEnd h) s = (h < length (li_hosts s) \<and> fh_pc (li_hosts s ! h) = Outside)"
| "allowed (Advance h) s = (h < length (li_hosts s))"
| "allowed (Free h p) s = (h < length (li_hosts s) \<and> p < length (li_procs s) \<and> fh_pc (li_hosts s ! h) = Outside \<and>
     \<not> fp_closed (li_procs s ! p) \<and> fp_active (li_procs s ! p) = 0 \<and>
     \<not> list_ex (\<lambda>t. initing p (fh_pc t)) (li_hosts s))"
| "allowed (Spawn ok p) s = (p < length (li_procs s) \<and>
     (\<not> fp_closed (li_procs s ! p) \<or> fp_running (li_procs s ! p) \<noteq> [] \<or> 0 < attachments p s))"
| "allowed (Leave p c) s = (p < length (li_procs s) \<and> c \<in> set (fp_running (li_procs s ! p)))"
| "allowed (SpawnEnd p c) s = (p < length (li_procs s) \<and> c \<in> set (fp_running (li_procs s ! p)))"

inductive thread_step :: "life \<Rightarrow> life \<Rightarrow> bool" where
  step: "\<not> li_aborted s \<Longrightarrow> allowed op s \<Longrightarrow> life_do op s = Some s' \<Longrightarrow> thread_step s s'"

text \<open>Processes just created, host threads that never entered a sandbox.\<close>

definition life_start :: "nat \<Rightarrow> nat \<Rightarrow> life" where
  "life_start np nh = \<lparr>li_procs = replicate np \<lparr>fp_threads = [], fp_running = [], fp_active = 0, fp_attached = 0,
       fp_pending = False, fp_clone = None, fp_alive = True, fp_closed = False\<rparr>,
     li_hosts = replicate nh \<lparr>fh_nodes = [], fh_new = None, fh_pc = Outside\<rparr>,
     li_next = 0, li_freed = [], li_aborted = False\<rparr>"

subsection \<open>Who owns a thread\<close>

definition proc_owns :: "nat \<Rightarrow> lf_proc \<Rightarrow> nat" where
  "proc_owns c q = (if fp_alive q then of_bool (fp_clone q = Some c) + times c (fp_running q) else 0)"

fun pc_owns :: "nat \<Rightarrow> host_pc \<Rightarrow> nat" where
  "pc_owns c (Detaching p d ns) = of_bool (d = c) + times c (map snd ns)"
| "pc_owns c (Counting p ns) = times c (map snd ns)"
| "pc_owns c (Waiting p ns) = times c (map snd ns)"
| "pc_owns c (Destroying p ns) = times c (map snd ns)"
| "pc_owns c _ = 0"

definition new_owns :: "nat \<Rightarrow> lf_host \<Rightarrow> nat" where
  "new_owns c t = (case fh_pc t of Attaching _ \<Rightarrow> of_bool (fh_new t = Some c)
     | Initing _ made \<Rightarrow> of_bool (made \<and> fh_new t = Some c) | _ \<Rightarrow> 0)"

definition host_owns :: "nat \<Rightarrow> lf_host \<Rightarrow> nat" where
  "host_owns c t = times c (map snd (fh_nodes t)) + pc_owns c (fh_pc t) + new_owns c t"

definition owned :: "nat \<Rightarrow> life \<Rightarrow> nat" where
  "owned c s = sum_list (map (proc_owns c) (li_procs s)) + sum_list (map (host_owns c) (li_hosts s)) + times c (li_freed s)"

text \<open>Host threads about to destroy a process.\<close>

definition dooms :: "nat \<Rightarrow> host_pc \<Rightarrow> nat" where
  "dooms p pc = (case pc of Waiting q _ \<Rightarrow> of_bool (q = p) | Destroying q _ \<Rightarrow> of_bool (q = p) | _ \<Rightarrow> 0)"

definition doomed :: "nat \<Rightarrow> life \<Rightarrow> nat" where
  "doomed p s = sum_list (map (\<lambda>t. dooms p (fh_pc t)) (li_hosts s))"

definition destroying :: "nat \<Rightarrow> host_pc \<Rightarrow> bool" where
  "destroying p pc = (case pc of Destroying q _ \<Rightarrow> q = p | _ \<Rightarrow> False)"

definition proc_inv :: "lf_proc \<Rightarrow> nat \<Rightarrow> nat \<Rightarrow> bool" where
  "proc_inv q a d \<longleftrightarrow> fp_active q = int (length (fp_running q)) \<and> distinct (fp_threads q) \<and> set (fp_threads q) \<subseteq> set (fp_running q) \<and>
     fp_attached q = int a \<and> d = (if fp_closed q \<and> fp_alive q \<and> a = 0 then 1 else 0) \<and>
     (fp_pending q \<longrightarrow> fp_closed q) \<and> (fp_closed q \<and> fp_alive q \<and> a \<noteq> 0 \<longrightarrow> fp_pending q) \<and>
     (\<not> fp_alive q \<longrightarrow> fp_closed q \<and> a = 0 \<and> fp_running q = [])"

definition threads_inv :: "life \<Rightarrow> bool" where
  "threads_inv s \<longleftrightarrow> (\<forall>p < length (li_procs s). proc_inv (li_procs s ! p) (attachments p s) (doomed p s)) \<and>
     (\<forall>p \<ge> length (li_procs s). attachments p s = 0 \<and> doomed p s = 0) \<and>
     (\<forall>t \<in> set (li_hosts s). \<forall>p.
        (destroying p (fh_pc t) \<longrightarrow> fp_running (li_procs s ! p) = []) \<and>
        (initing p (fh_pc t) \<longrightarrow> p < length (li_procs s) \<and> \<not> fp_closed (li_procs s ! p))) \<and>
     (\<forall>c. owned c s \<le> of_bool (c < li_next s))"

lemma sum_upd:
  "i < length xs \<Longrightarrow> sum_list (map f (xs[i := x])) + f (xs ! i) = sum_list (map f xs) + (f x :: nat)"
  by (induction xs arbitrary: i) (auto split: nat.split)

lemma sum_ge: "i < length xs \<Longrightarrow> f (xs ! i) \<le> sum_list (map f xs :: nat list)"
  by (induction xs arbitrary: i) (auto split: nat.split simp: nth_Cons' trans_le_add2)

lemma next_node [simp]:
  "pc_holds p (next_node ns) = times p (map fst ns)" "pc_owns c (next_node ns) = times c (map snd ns)"
  "dooms p (next_node ns) = 0" "\<not> destroying p (next_node ns)" "\<not> initing p (next_node ns)"
  "new_owns c (t\<lparr>fh_pc := next_node ns\<rparr>) = 0"
  by (auto simp: next_node_def times_def dooms_def destroying_def initing_def new_owns_def split: list.split)

subsection \<open>Changing one host thread and one process\<close>

definition replaced :: "'a \<Rightarrow> 'a \<Rightarrow> 'a list \<Rightarrow> 'a list \<Rightarrow> bool" where
  "replaced x y xs ys \<longleftrightarrow> (\<exists>i < length xs. xs ! i = x \<and> ys = xs[i := y]) \<or> ys = xs \<and> y = x"

lemma replaced_sum: "replaced x y xs ys \<Longrightarrow> sum_list (map f ys) + f x = sum_list (map f xs) + (f y :: nat)"
  unfolding replaced_def using sum_upd by auto

lemma replaced_set: "replaced x y xs ys \<Longrightarrow> z \<in> set ys \<Longrightarrow> z \<in> set xs \<or> z = y"
  unfolding replaced_def using set_update_subset_insert by fastforce

lemma replaced_upd: "i < length xs \<Longrightarrow> xs ! i = x \<Longrightarrow> replaced x y xs (xs[i := y])"
  by (auto simp: replaced_def)

lemma replaced_same: "replaced x x xs xs"
  by (simp add: replaced_def)

lemma destroying_dooms: "destroying p pc \<Longrightarrow> 0 < dooms p pc"
  by (auto simp: destroying_def dooms_def split: host_pc.splits)

lemma doomed_ge: "t \<in> set (li_hosts s) \<Longrightarrow> dooms p (fh_pc t) \<le> doomed p s"
  unfolding doomed_def by (rule member_le_sum_list) auto

lemma life_change:
  assumes inv: "threads_inv s" and hosts: "replaced t t' (li_hosts s) (li_hosts s')"
    and p: "p < length (li_procs s)" "li_procs s ! p = q" "li_procs s' = (li_procs s)[p := q']"
    and other: "\<And>r. r \<noteq> p \<Longrightarrow> host_attachments r t' = host_attachments r t \<and> dooms r (fh_pc t') = dooms r (fh_pc t)"
    and new: "\<And>a d. a + host_attachments p t = attachments p s + host_attachments p t' \<Longrightarrow>
      d + dooms p (fh_pc t) = doomed p s + dooms p (fh_pc t') \<Longrightarrow> proc_inv q (attachments p s) (doomed p s) \<Longrightarrow> proc_inv q' a d"
    and own: "\<And>c. of_bool (c < li_next s) + proc_owns c q' + host_owns c t' + times c (li_freed s') \<le>
      of_bool (c < li_next s') + proc_owns c q + host_owns c t + times c (li_freed s)"
    and dest: "\<And>r. destroying r (fh_pc t') \<Longrightarrow> t' = t \<or> (if r = p then fp_running q' = [] else destroying r (fh_pc t) \<and> t \<in> set (li_hosts s))"
      "fp_running q' = [] \<or> fp_running q \<noteq> [] \<or> doomed p s = 0"
    and init: "\<And>r. initing r (fh_pc t') \<Longrightarrow> t' = t \<or> t \<in> set (li_hosts s) \<and> initing r (fh_pc t) \<or> r = p \<and> \<not> fp_closed q"
      "fp_closed q' \<Longrightarrow> fp_closed q \<or> (\<forall>u \<in> insert t' (set (li_hosts s)). \<not> initing p (fh_pc u))"
  shows "threads_inv s'"
proof -
  have attachments: "attachments r s' + host_attachments r t = attachments r s + host_attachments r t'" for r unfolding attachments_def by (rule replaced_sum [OF hosts])
  have doom: "doomed r s' + dooms r (fh_pc t) = doomed r s + dooms r (fh_pc t')" for r
    unfolding doomed_def by (rule replaced_sum [OF hosts])
  have same: "attachments r s' = attachments r s" "doomed r s' = doomed r s" if "r \<noteq> p" for r
    using attachments [of r] doom [of r] other [OF that] by simp_all
  have len: "length (li_procs s') = length (li_procs s)" by (simp add: p(3))
  have procs: "proc_inv (li_procs s' ! r) (attachments r s') (doomed r s')" if r: "r < length (li_procs s')" for r
  proof (cases "r = p")
    case True
    have "proc_inv q (attachments p s) (doomed p s)" using inv p(1) unfolding threads_inv_def p(2) [symmetric] by blast
    then show ?thesis using new [OF attachments doom] True p(1) by (simp add: p(3))
  next
    case False
    then show ?thesis using inv r len same by (simp add: threads_inv_def p(3))
  qed
  have out: "attachments r s' = 0 \<and> doomed r s' = 0" if r: "r \<ge> length (li_procs s')" for r
    using inv r len same [of r] p(1) by (auto simp: threads_inv_def)
  have P: "li_procs s' ! r = (if r = p then q' else li_procs s ! r)" for r using p by (simp add: nth_list_update)
  have old: "(destroying r (fh_pc u) \<longrightarrow> fp_running (li_procs s ! r) = []) \<and>
      (initing r (fh_pc u) \<longrightarrow> r < length (li_procs s) \<and> \<not> fp_closed (li_procs s ! r))" if "u \<in> set (li_hosts s)" for u r
    using inv that by (simp add: threads_inv_def)
  have dp: "fp_running q' = []" if "u \<in> set (li_hosts s)" "destroying p (fh_pc u)" for u
    using dest(2) old [OF that(1), of p] that(2) destroying_dooms [OF that(2)] doomed_ge [OF that(1), of p] p(2) by auto
  have t': "t' \<in> set (li_hosts s) \<or> t' \<noteq> t \<and> t \<in> set (li_hosts s)" if "t' \<in> set (li_hosts s')"
    using hosts that by (auto simp: replaced_def)
  have hs: "(destroying r (fh_pc u) \<longrightarrow> fp_running (li_procs s' ! r) = []) \<and>
      (initing r (fh_pc u) \<longrightarrow> r < length (li_procs s') \<and> \<not> fp_closed (li_procs s' ! r))" if u: "u \<in> set (li_hosts s')" for u r
  proof (cases "u \<in> set (li_hosts s)")
    case True
    then show ?thesis using old [OF True, of r] dp [OF True] init(2) p(1,2) by (cases "r = p") (auto simp: P len)
  next
    case False
    then have e: "u = t'" "t \<in> set (li_hosts s)" "t' \<noteq> t" using replaced_set [OF hosts u] t' u by auto
    have 1: "fp_running (li_procs s' ! r) = []" if d: "destroying r (fh_pc u)"
      using dest(1) [of r] d e old [OF e(2), of r] by (auto simp: P split: if_splits)
    have 2: "r < length (li_procs s') \<and> \<not> fp_closed (li_procs s' ! r)" if i: "initing r (fh_pc u)"
      using init(1) [of r] init(2) i e old [OF e(2), of r] p(1,2) by (cases "r = p") (auto simp: P len)
    show ?thesis using 1 2 by blast
  qed
  have own': "owned c s' \<le> of_bool (c < li_next s')" for c
  proof -
    have "sum_list (map (proc_owns c) (li_procs s')) + proc_owns c q = sum_list (map (proc_owns c) (li_procs s)) + proc_owns c q'"
      using sum_upd [OF p(1), of "proc_owns c" q'] unfolding p(3) p(2) .
    moreover have "sum_list (map (host_owns c) (li_hosts s')) + host_owns c t = sum_list (map (host_owns c) (li_hosts s)) + host_owns c t'"
      by (rule replaced_sum [OF hosts])
    moreover have "owned c s \<le> of_bool (c < li_next s)" using inv by (simp add: threads_inv_def)
    ultimately show ?thesis using own [of c] unfolding owned_def by linarith
  qed
  show ?thesis using procs out hs own' by (simp add: threads_inv_def)
qed

text \<open>Only a host thread changes.\<close>

lemma host_change:
  assumes inv: "threads_inv s" and hosts: "replaced t t' (li_hosts s) (li_hosts s')" and procs: "li_procs s' = li_procs s"
    and same: "\<And>r. host_attachments r t' = host_attachments r t" "\<And>r. dooms r (fh_pc t') = dooms r (fh_pc t)"
    and own: "\<And>c. of_bool (c < li_next s) + host_owns c t' + times c (li_freed s') \<le>
      of_bool (c < li_next s') + host_owns c t + times c (li_freed s)"
    and pc: "\<And>r. destroying r (fh_pc t') \<longleftrightarrow> destroying r (fh_pc t)" "\<And>r. initing r (fh_pc t') \<longleftrightarrow> initing r (fh_pc t)"
  shows "threads_inv s'"
proof -
  have attachments: "attachments r s' = attachments r s" for r using replaced_sum [OF hosts, of "host_attachments r"] same(1) by (simp add: attachments_def)
  have doom: "doomed r s' = doomed r s" for r
    using replaced_sum [OF hosts, of "\<lambda>t. dooms r (fh_pc t)"] same(2) by (simp add: doomed_def)
  have "owned c s' \<le> of_bool (c < li_next s')" for c
  proof -
    have "sum_list (map (host_owns c) (li_hosts s')) + host_owns c t = sum_list (map (host_owns c) (li_hosts s)) + host_owns c t'"
      by (rule replaced_sum [OF hosts])
    moreover have "owned c s \<le> of_bool (c < li_next s)" using inv by (simp add: threads_inv_def)
    ultimately show ?thesis using own [of c] unfolding owned_def procs by linarith
  qed
  moreover have "t' \<in> set (li_hosts s) \<or> t \<in> set (li_hosts s)" if "t' \<in> set (li_hosts s')"
    using hosts that by (auto simp: replaced_def)
  ultimately show ?thesis using inv replaced_set [OF hosts] attachments doom pc
    unfolding threads_inv_def procs by metis
qed

end
