(* ===== verification/ThreadSteps.thy ===== *)
theory ThreadSteps
  imports ThreadLife
begin

text \<open>Every step of \<open>ThreadLife\<close> keeps the invariant and uses no freed process.\<close>

subsection \<open>Every step keeps the invariant\<close>

lemmas life_defs = with_proc_def upd_proc_def upd_host_def lfi_thread_freed_def Let_def

lemma times_simps [simp]: "times x [] = 0" "times x (y # xs) = of_bool (y = x) + times x xs"
  by (simp_all add: times_def)

lemma times_remove1: "c \<in> set xs \<Longrightarrow> times x (remove1 c xs) + of_bool (c = x) = times x xs"
  by (induction xs) auto

lemma unlink_times:
  "unlink p ns = Some (c, ms) \<Longrightarrow> times r (map fst ns) = of_bool (p = r) + times r (map fst ms) \<and>
     times x (map snd ns) = of_bool (c = x) + times x (map snd ms)"
  by (induction p ns arbitrary: c ms rule: unlink.induct) (auto split: if_splits option.splits)

lemma inv_proc: "threads_inv s \<Longrightarrow> p < length (li_procs s) \<Longrightarrow> proc_inv (li_procs s ! p) (attachments p s) (doomed p s)"
  by (simp add: threads_inv_def)

lemma holds_held: "h < length (li_hosts s) \<Longrightarrow> host_attachments p (li_hosts s ! h) \<le> attachments p s"
  unfolding attachments_def by (rule sum_ge)

lemma held_proc:
  assumes inv: "threads_inv s" and p: "0 < attachments p s"
  shows "p < length (li_procs s) \<and> fp_alive (li_procs s ! p)"
proof -
  have "\<forall>p \<ge> length (li_procs s). attachments p s = 0 \<and> doomed p s = 0" using inv by (simp add: threads_inv_def)
  then have l: "p < length (li_procs s)" using p by (cases "p < length (li_procs s)") simp_all
  then show ?thesis using inv_proc [OF inv l] p by (auto simp: proc_inv_def)
qed

lemma doomed_proc:
  assumes inv: "threads_inv s" and p: "0 < doomed p s"
  shows "p < length (li_procs s) \<and> fp_alive (li_procs s ! p) \<and> attachments p s = 0 \<and> fp_closed (li_procs s ! p)"
proof -
  have "\<forall>p \<ge> length (li_procs s). attachments p s = 0 \<and> doomed p s = 0" using inv by (simp add: threads_inv_def)
  then have l: "p < length (li_procs s)" using p by (cases "p < length (li_procs s)") simp_all
  let ?q = "li_procs s ! p"
  have d: "doomed p s = (if fp_closed ?q \<and> fp_alive ?q \<and> attachments p s = 0 then 1 else 0)"
    using inv_proc [OF inv l] unfolding proc_inv_def by blast
  have "fp_closed ?q \<and> fp_alive ?q \<and> attachments p s = 0"
  proof (rule ccontr)
    assume "\<not> ?thesis"
    with d have "doomed p s = 0" by (simp only: if_False)
    then show False using p by simp
  qed
  then show ?thesis using l by blast
qed

lemma host_dooms: "h < length (li_hosts s) \<Longrightarrow> dooms p (fh_pc (li_hosts s ! h)) \<le> doomed p s"
  by (rule doomed_ge) simp

lemma attach_inv:
  assumes "threads_inv s" "allowed (Attach h p) s"
  shows "\<exists>s'. life_do (Attach h p) s = Some s' \<and> threads_inv s'"
proof -
  let ?t = "li_hosts s ! h" and ?q = "li_procs s ! p"
  let ?s' = "upd_host h (\<lambda>t. t\<lparr>fh_new := None, fh_pc := Attaching p\<rparr>) (upd_proc p (\<lambda>q. q\<lparr>fp_attached := fp_attached q + 1\<rparr>) s)"
  have a: "h < length (li_hosts s)" "p < length (li_procs s)" "fh_pc ?t = Outside" "\<not> fp_closed ?q" using assms(2) by auto
  have alive: "fp_alive ?q" using inv_proc [OF assms(1) a(2)] a(4) by (auto simp: proc_inv_def)
  have "threads_inv ?s'"
    by (rule life_change [OF assms(1), where t = ?t and t' = "?t\<lparr>fh_new := None, fh_pc := Attaching p\<rparr>" and p = p and q = ?q
        and q' = "?q\<lparr>fp_attached := fp_attached ?q + 1\<rparr>"])
      (use a alive in \<open>auto simp: life_defs replaced_upd host_attachments_def host_owns_def new_owns_def proc_owns_def dooms_def
         destroying_def initing_def proc_inv_def\<close>)
  then show ?thesis using alive by (simp add: clone_cb_begin_def with_proc_def)
qed

lemmas life_simps = life_defs replaced_upd host_attachments_def host_owns_def new_owns_def proc_owns_def dooms_def
  destroying_def initing_def proc_inv_def

text \<open>As \<open>life_simps\<close>, for a next node that is not known.\<close>

lemma pc_simps:
  "dooms p (Counting r ns) = 0" "dooms p (Waiting r ns) = of_bool (r = p)" "dooms p (Destroying r ns) = of_bool (r = p)"
  "\<not> destroying p (Waiting r ns)" "\<not> initing p (Waiting r ns)" "\<not> destroying p (Counting r ns)"
  "destroying p (Destroying r ns) \<longleftrightarrow> r = p" "\<not> initing p (Destroying r ns)"
  "new_owns c (t\<lparr>fh_pc := Waiting r ns\<rparr>) = 0"
  "fh_pc t = Counting r ns \<Longrightarrow> new_owns c t = 0" "fh_pc t = Destroying r ns \<Longrightarrow> new_owns c t = 0"
  by (auto simp: dooms_def destroying_def initing_def new_owns_def)

lemmas life_next = life_defs replaced_upd host_attachments_def host_owns_def proc_owns_def pc_simps

lemma attaching_held: "h < length (li_hosts s) \<Longrightarrow> fh_pc (li_hosts s ! h) = Attaching p \<Longrightarrow> 0 < attachments p s"
  using holds_held [of h s p] by (simp add: host_attachments_def)

lemma clone_inv:
  assumes "threads_inv s" "allowed (Clone h) s"
  shows "\<exists>s'. life_do (Clone h) s = Some s' \<and> threads_inv s'"
proof -
  let ?t = "li_hosts s ! h"
  let ?pc = "case fh_pc ?t of Initing p _ \<Rightarrow> Initing p True | pc \<Rightarrow> pc"
  have h: "h < length (li_hosts s)" using assms(2) by simp
  have "threads_inv (upd_host h (\<lambda>t. t\<lparr>fh_new := Some (li_next s), fh_pc := ?pc\<rparr>) (s\<lparr>li_next := li_next s + 1\<rparr>))"
    by (rule host_change [OF assms(1), where t = ?t and t' = "?t\<lparr>fh_new := Some (li_next s), fh_pc := ?pc\<rparr>"])
      (use assms(2) in \<open>auto simp: life_simps split: host_pc.splits\<close>)
  then show ?thesis by (simp add: clone_attach_def Let_def)
qed

lemma attached_inv:
  assumes "threads_inv s" "allowed (Attached ok h) s"
  shows "\<exists>s'. life_do (Attached ok h) s = Some s' \<and> (li_aborted s' \<or> threads_inv s')"
proof (cases "\<exists>p. fh_pc (li_hosts s ! h) = Attaching p")
  case True
  then obtain p where pc: "fh_pc (li_hosts s ! h) = Attaching p" by blast
  let ?t = "li_hosts s ! h" and ?q = "li_procs s ! p"
  have h: "h < length (li_hosts s)" using assms(2) by simp
  note q = held_proc [OF assms(1) attaching_held [OF h pc]]
  show ?thesis
  proof (cases "fh_new ?t = None \<or> \<not> ok")
    case True
    then show ?thesis using pc q by (auto simp: clone_cb_end_def with_proc_def attach_ctx_def Let_def split: option.split)
  next
    case False
    then obtain c where c: "fh_new ?t = Some c" ok by auto
    let ?t' = "?t\<lparr>fh_nodes := (p, c) # fh_nodes ?t\<rparr>"
    have "threads_inv (go h Outside (upd_host h (\<lambda>_. ?t') s))"
      by (rule host_change [OF assms(1), where t = ?t and t' = "?t'\<lparr>fh_pc := Outside\<rparr>"])
        (use h pc c in \<open>auto simp: life_simps\<close>)
    then show ?thesis using pc q c by (simp add: clone_cb_end_def with_proc_def attach_ctx_def Let_def)
  qed
qed (use assms(1) in \<open>auto split: host_pc.split\<close>)

lemma init_inv:
  assumes "threads_inv s" "allowed (Init h p) s"
  shows "\<exists>s'. life_do (Init h p) s = Some s' \<and> threads_inv s'"
proof -
  let ?t = "li_hosts s ! h" and ?q = "li_procs s ! p"
  have a: "h < length (li_hosts s)" "p < length (li_procs s)" "fh_pc ?t = Outside" "\<not> fp_closed ?q" using assms(2) by auto
  have alive: "fp_alive ?q" using inv_proc [OF assms(1) a(2)] a(4) by (auto simp: proc_inv_def)
  have "threads_inv (go h (Initing p False) s)"
    by (rule life_change [OF assms(1), where t = ?t and t' = "?t\<lparr>fh_pc := Initing p False\<rparr>" and p = p and q = ?q and q' = ?q])
      (use a in \<open>auto simp: life_simps\<close>)
  then show ?thesis using alive by (simp add: init_clone_begin_def with_proc_def)
qed

lemma inited_inv:
  assumes "threads_inv s" "allowed (Inited h) s"
  shows "\<exists>s'. life_do (Inited h) s = Some s' \<and> threads_inv s'"
proof (cases "\<exists>p made. fh_pc (li_hosts s ! h) = Initing p made")
  case True
  let ?t = "li_hosts s ! h"
  obtain p made where pc: "fh_pc ?t = Initing p made" using True by blast
  let ?q = "li_procs s ! p"
  have h: "h < length (li_hosts s)" "made \<or> fh_new ?t = None" using assms(2) pc by auto
  have "?t \<in> set (li_hosts s)" using h(1) by simp
  then have q: "p < length (li_procs s)" "\<not> fp_closed ?q" using assms(1) pc by (auto simp: threads_inv_def initing_def)
  have alive: "fp_alive ?q" using inv_proc [OF assms(1) q(1)] q(2) by (auto simp: proc_inv_def)
  let ?s' = "go h Outside (upd_proc p (\<lambda>q. q\<lparr>fp_clone := fh_new ?t\<rparr>) s)"
  have "threads_inv ?s'"
    by (rule life_change [OF assms(1), where t = ?t and t' = "?t\<lparr>fh_pc := Outside\<rparr>" and p = p and q = ?q
        and q' = "?q\<lparr>fp_clone := fh_new ?t\<rparr>"])
      (use h q alive pc in \<open>auto simp: life_simps\<close>)
  then show ?thesis using alive pc by (simp add: init_clone_end_def with_proc_def)
qed (use assms(1) in \<open>auto split: host_pc.split\<close>)

lemma detach_inv:
  assumes "threads_inv s" "allowed (Detach h p) s"
  shows "\<exists>s'. life_do (Detach h p) s = Some s' \<and> threads_inv s'"
proof (cases "unlink p (fh_nodes (li_hosts s ! h))")
  case None
  then show ?thesis using assms(1) by (simp add: lfi_linux_detach_thread_def)
next
  case (Some r)
  then obtain c ns where u: "unlink p (fh_nodes (li_hosts s ! h)) = Some (c, ns)" by (cases r) auto
  let ?t = "li_hosts s ! h"
  have "threads_inv (upd_host h (\<lambda>t. t\<lparr>fh_nodes := ns, fh_pc := Detaching p c []\<rparr>) s)"
    by (rule host_change [OF assms(1), where t = ?t and t' = "?t\<lparr>fh_nodes := ns, fh_pc := Detaching p c []\<rparr>"])
      (use assms(2) unlink_times [OF u] in \<open>auto simp: life_simps\<close>)
  then show ?thesis using u by (simp add: lfi_linux_detach_thread_def)
qed

lemma end_inv:
  assumes "threads_inv s" "allowed (ThreadEnd h) s"
  shows "\<exists>s'. life_do (ThreadEnd h) s = Some s' \<and> threads_inv s'"
proof -
  let ?t = "li_hosts s ! h"
  have "threads_inv (upd_host h (\<lambda>t. t\<lparr>fh_nodes := [], fh_pc := next_node (fh_nodes t)\<rparr>) s)"
    by (rule host_change [OF assms(1), where t = ?t and t' = "?t\<lparr>fh_nodes := [], fh_pc := next_node (fh_nodes ?t)\<rparr>"])
      (use assms(2) in \<open>auto simp: life_defs replaced_upd host_attachments_def host_owns_def dooms_def destroying_def initing_def
         new_owns_def next_node_def split: list.splits\<close>)
  then show ?thesis by (simp add: thread_destructor_def)
qed

lemma advance_inv:
  assumes "threads_inv s" "allowed (Advance h) s"
  shows "\<exists>s'. life_do (Advance h) s = Some s' \<and> threads_inv s'"
proof -
  let ?t = "li_hosts s ! h"
  have h: "h < length (li_hosts s)" using assms(2) by simp
  show ?thesis
  proof (cases "fh_pc ?t")
    case (Detaching p c ns)
    then have "0 < attachments p s" using holds_held [OF h, of p] by (simp add: host_attachments_def)
    note q = held_proc [OF assms(1) this]
    have "threads_inv (go h (Counting p ns) (lfi_thread_freed c s))"
      by (rule host_change [OF assms(1), where t = ?t and t' = "?t\<lparr>fh_pc := Counting p ns\<rparr>"])
        (use h Detaching in \<open>auto simp: life_simps\<close>)
    then show ?thesis using q Detaching by (simp add: detach_free_def with_proc_def)
  next
    case (Counting p ns)
    let ?q = "li_procs s ! p"
    have attachments: "0 < attachments p s" using holds_held [OF h, of p] Counting by (simp add: host_attachments_def)
    note q = held_proc [OF assms(1) attachments]
    let ?pc = "if fp_attached ?q - 1 = 0 \<and> fp_pending ?q then Waiting p ns else next_node ns"
    let ?s' = "go h ?pc (upd_proc p (\<lambda>q. q\<lparr>fp_attached := fp_attached ?q - 1\<rparr>) s)"
    have "threads_inv ?s'"
      by (rule life_change [OF assms(1), where t = ?t and t' = "?t\<lparr>fh_pc := ?pc\<rparr>" and p = p and q = ?q
          and q' = "?q\<lparr>fp_attached := fp_attached ?q - 1\<rparr>"])
        (use h q attachments Counting in \<open>auto simp: life_next proc_inv_def\<close>)
    then show ?thesis using q Counting by (simp add: detach_count_def with_proc_def Let_def)
  next
    case (Waiting p ns)
    have "0 < doomed p s" using host_dooms [OF h, of p] Waiting by (simp add: dooms_def)
    note q = doomed_proc [OF assms(1) this]
    let ?q = "li_procs s ! p"
    have run: "fp_active ?q = 0 \<longleftrightarrow> fp_running ?q = []" using inv_proc [OF assms(1)] q by (auto simp: proc_inv_def)
    have "threads_inv (go h (Destroying p ns) s)" if "fp_running ?q = []"
      by (rule life_change [OF assms(1), where t = ?t and t' = "?t\<lparr>fh_pc := Destroying p ns\<rparr>" and p = p and q = ?q and q' = ?q])
        (use h q Waiting that in \<open>auto simp: life_simps\<close>)
    then show ?thesis using assms(1) q Waiting run by (simp add: detach_wait_def with_proc_def)
  next
    case (Destroying p ns)
    have d: "0 < doomed p s" using host_dooms [OF h, of p] Destroying by (simp add: dooms_def)
    note q = doomed_proc [OF assms(1) d]
    let ?q = "li_procs s ! p"
    have "?t \<in> set (li_hosts s)" using h by simp
    then have run: "fp_running ?q = []" using assms(1) Destroying by (auto simp: threads_inv_def destroying_def)
    then have ring: "fp_threads ?q = []" using inv_proc [OF assms(1) conjunct1 [OF q]] by (simp add: proc_inv_def)
    let ?s1 = "case fp_clone ?q of None \<Rightarrow> s | Some c \<Rightarrow> lfi_thread_freed c s"
    let ?s' = "go h (next_node ns) (upd_proc p (\<lambda>q. q\<lparr>fp_alive := False\<rparr>) ?s1)"
    have "threads_inv ?s'"
      by (rule life_change [OF assms(1), where t = ?t and t' = "?t\<lparr>fh_pc := next_node ns\<rparr>" and p = p and q = ?q
          and q' = "?q\<lparr>fp_alive := False\<rparr>"])
        (use h q run d Destroying in \<open>auto simp: life_next proc_inv_def split: option.splits\<close>)
    then show ?thesis using q Destroying
      by (cases "fp_clone ?q") (simp_all add: ring destroy_def proc_destroy_threads_def with_proc_def Let_def)
  qed (use assms(1) in auto)
qed

lemma free_inv:
  assumes "threads_inv s" "allowed (Free h p) s"
  shows "\<exists>s'. life_do (Free h p) s = Some s' \<and> threads_inv s'"
proof -
  let ?t = "li_hosts s ! h" and ?q = "li_procs s ! p"
  have a: "h < length (li_hosts s)" "p < length (li_procs s)" "fh_pc ?t = Outside" "\<not> fp_closed ?q" "fp_active ?q = 0"
    "\<And>u. u \<in> set (li_hosts s) \<Longrightarrow> \<not> initing p (fh_pc u)"
    using assms(2) by (auto simp: list_ex_iff)
  have i: "proc_inv ?q (attachments p s) (doomed p s)" by (rule inv_proc [OF assms(1) a(2)])
  then have alive: "fp_alive ?q" and run: "fp_running ?q = []" using a(4,5) by (auto simp: proc_inv_def)
  show ?thesis
  proof (cases "fp_attached ?q > 0")
    case True
    let ?q' = "?q\<lparr>fp_closed := True, fp_pending := True\<rparr>"
    let ?s' = "upd_proc p (\<lambda>q. q\<lparr>fp_pending := True\<rparr>) (upd_proc p (\<lambda>q. q\<lparr>fp_closed := True\<rparr>) s)"
    have "threads_inv ?s'"
      by (rule life_change [OF assms(1), where t = ?t and t' = ?t and p = p and q = ?q and q' = ?q'])
        (use a alive run True in \<open>auto simp: life_simps replaced_same\<close>)
    then show ?thesis using alive True a(5) by (simp add: lfi_proc_free_def with_proc_def Let_def)
  next
    case False
    let ?s' = "go h (Destroying p []) (upd_proc p (\<lambda>q. q\<lparr>fp_closed := True\<rparr>) s)"
    have "threads_inv ?s'"
      by (rule life_change [OF assms(1), where t = ?t and t' = "?t\<lparr>fh_pc := Destroying p []\<rparr>" and p = p and q = ?q
          and q' = "?q\<lparr>fp_closed := True\<rparr>"])
        (use a alive run False in \<open>auto simp: life_simps\<close>)
    then show ?thesis using alive False a(5) by (simp add: lfi_proc_free_def with_proc_def Let_def)
  qed
qed

lemma new_not_running:
  assumes "threads_inv s" "p < length (li_procs s)" "fp_alive (li_procs s ! p)"
  shows "li_next s \<notin> set (fp_running (li_procs s ! p))"
proof -
  have "proc_owns (li_next s) (li_procs s ! p) \<le> owned (li_next s) s"
    using sum_ge [OF assms(2), of "proc_owns (li_next s)"] by (simp add: owned_def)
  also have "\<dots> \<le> of_bool (li_next s < li_next s)" using assms(1) unfolding threads_inv_def by blast
  finally have "times (li_next s) (fp_running (li_procs s ! p)) = 0" using assms(3) by (simp add: proc_owns_def)
  then show ?thesis by (simp add: times_def count_list_0_iff)
qed

lemma spawn_inv:
  assumes "threads_inv s" "allowed (Spawn ok p) s"
  shows "\<exists>s'. life_do (Spawn ok p) s = Some s' \<and> threads_inv s'"
proof -
  let ?q = "li_procs s ! p" and ?c = "li_next s"
  have p: "p < length (li_procs s)" using assms(2) by simp
  have i: "proc_inv ?q (attachments p s) (doomed p s)" by (rule inv_proc [OF assms(1) p])
  have ok: "\<not> fp_closed ?q \<or> fp_running ?q \<noteq> [] \<or> 0 < attachments p s" using assms(2) by simp
  have dead: "\<not> fp_alive ?q \<longrightarrow> fp_closed ?q \<and> attachments p s = 0 \<and> fp_running ?q = []" using i unfolding proc_inv_def by (elim conjE)
  have alive: "fp_alive ?q" using dead ok by auto
  have "doomed p s = (if fp_closed ?q \<and> fp_alive ?q \<and> attachments p s = 0 then 1 else 0)" using i unfolding proc_inv_def by (elim conjE)
  then have d: "fp_running ?q \<noteq> [] \<or> doomed p s = 0" using ok by auto
  let ?in = "upd_proc p (\<lambda>q. q\<lparr>fp_threads := ?c # fp_threads q, fp_active := fp_active q + 1\<rparr>) (s\<lparr>li_next := ?c + 1\<rparr>)"
  show ?thesis
  proof (cases ok)
    case True
    have fresh: "?c \<notin> set (fp_running ?q)" by (rule new_not_running [OF assms(1) p alive])
    let ?q' = "?q\<lparr>fp_threads := ?c # fp_threads ?q, fp_active := fp_active ?q + 1, fp_running := ?c # fp_running ?q\<rparr>"
    have "threads_inv (upd_proc p (\<lambda>q. q\<lparr>fp_running := ?c # fp_running q\<rparr>) ?in)"
      by (rule life_change [OF assms(1), where t = undefined and t' = undefined and p = p and q = ?q and q' = ?q'])
        (use p alive d fresh in \<open>auto simp: life_simps replaced_same\<close>)
    then show ?thesis using alive True by (simp add: spawn_thread_def with_proc_def Let_def)
  next
    case False
    let ?out = "lfi_thread_freed ?c (upd_proc p (\<lambda>q. q\<lparr>fp_threads := remove1 ?c (fp_threads q), fp_active := fp_active q - 1\<rparr>) ?in)"
    have "threads_inv ?out"
      by (rule life_change [OF assms(1), where t = undefined and t' = undefined and p = p and q = ?q and q' = ?q])
        (use p alive d in \<open>auto simp: life_simps replaced_same\<close>)
    then show ?thesis using alive False by (simp add: spawn_thread_def with_proc_def Let_def)
  qed
qed

lemma leave_inv:
  assumes "threads_inv s" "allowed (Leave p c) s"
  shows "\<exists>s'. life_do (Leave p c) s = Some s' \<and> threads_inv s'"
proof -
  let ?q = "li_procs s ! p"
  have p: "p < length (li_procs s)" "c \<in> set (fp_running ?q)" using assms(2) by auto
  have alive: "fp_alive ?q" using inv_proc [OF assms(1) p(1)] p(2) by (auto simp: proc_inv_def)
  have "threads_inv (upd_proc p (\<lambda>q. q\<lparr>fp_threads := remove1 c (fp_threads q)\<rparr>) s)"
    by (rule life_change [OF assms(1), where t = undefined and t' = undefined and p = p and q = ?q
        and q' = "?q\<lparr>fp_threads := remove1 c (fp_threads ?q)\<rparr>"])
      (use p alive in \<open>auto simp: life_simps replaced_same dest: notin_set_remove1\<close>)
  then show ?thesis using alive by (simp add: thread_leave_def with_proc_def)
qed

lemma spawn_end_inv:
  assumes "threads_inv s" "allowed (SpawnEnd p c) s"
  shows "\<exists>s'. life_do (SpawnEnd p c) s = Some s' \<and> threads_inv s'"
proof -
  let ?q = "li_procs s ! p"
  let ?q' = "?q\<lparr>fp_threads := remove1 c (fp_threads ?q), fp_running := remove1 c (fp_running ?q), fp_active := fp_active ?q - 1\<rparr>"
  have p: "p < length (li_procs s)" "c \<in> set (fp_running ?q)" using assms(2) by auto
  have i: "proc_inv ?q (attachments p s) (doomed p s)" by (rule inv_proc [OF assms(1) p(1)])
  then have alive: "fp_alive ?q" using p(2) by (auto simp: proc_inv_def)
  have "fp_running ?q \<noteq> []" using p(2) by auto
  have ring: "distinct (fp_threads ?q)" "set (fp_threads ?q) \<subseteq> set (fp_running ?q)" using i by (auto simp: proc_inv_def)
  then have sub: "set (remove1 c (fp_threads ?q)) \<subseteq> set (remove1 c (fp_running ?q))"
    by (auto simp: set_remove1_eq) (metis in_set_remove1 subsetD)
  have len: "int (length (remove1 c (fp_running ?q))) = int (length (fp_running ?q)) - 1"
    using length_pos_if_in_set [OF p(2)] by (simp add: length_remove1 p(2) of_nat_diff del: length_greater_0_conv)
  have own: "times x (remove1 c (fp_running ?q)) + of_bool (c = x) = times x (fp_running ?q)" for x by (rule times_remove1 [OF p(2)])
  let ?s' = "upd_proc p (\<lambda>q. q\<lparr>fp_running := remove1 c (fp_running q), fp_active := fp_active q - 1\<rparr>)
      (lfi_thread_freed c (upd_proc p (\<lambda>q. q\<lparr>fp_threads := remove1 c (fp_threads q)\<rparr>) s))"
  have "proc_inv ?q' (attachments p s) (doomed p s)" using i sub len ring(1) alive by (simp add: proc_inv_def)
  then have "threads_inv ?s'"
    by (intro life_change [OF assms(1), where t = undefined and t' = undefined and p = p and q = ?q and q' = ?q'])
      (use p alive own [symmetric] \<open>fp_running ?q \<noteq> []\<close> in \<open>simp_all add: life_defs replaced_same proc_owns_def\<close>)
  then show ?thesis using alive by (simp add: threadspawn_end_def with_proc_def)
qed

subsection \<open>Reachable states\<close>

lemma do_inv:
  assumes "threads_inv s" "allowed op s"
  shows "\<exists>s'. life_do op s = Some s' \<and> (li_aborted s' \<or> threads_inv s')"
  using assms
  by (cases op) (metis attach_inv,
      metis clone_inv,
      metis attached_inv,
      metis init_inv,
      metis inited_inv,
      metis detach_inv,
      metis end_inv,
      metis advance_inv,
      metis free_inv,
      metis spawn_inv,
      metis leave_inv,
      metis spawn_end_inv)

lemma start_inv: "threads_inv (life_start np nh)"
  by (auto simp: threads_inv_def life_start_def proc_inv_def attachments_def doomed_def owned_def host_attachments_def dooms_def destroying_def
      initing_def proc_owns_def host_owns_def new_owns_def sum_list_0)

lemma reachable_inv:
  assumes "thread_step\<^sup>*\<^sup>* (life_start np nh) s"
  shows "li_aborted s \<or> threads_inv s"
  using assms
proof (induction rule: rtranclp_induct)
  case (step s s')
  then show ?case using do_inv [of s] by (fastforce elim: thread_step.cases)
qed (simp add: start_inv)

lemma times_distinct: "(\<And>c. times c xs \<le> 1) \<Longrightarrow> distinct xs"
proof (induction xs)
  case (Cons x xs)
  have "times c xs \<le> 1" for c using Cons.prems [of c] by simp
  moreover have "x \<notin> set xs" using Cons.prems [of x] by (simp add: times_def count_list_0_iff)
  ultimately show ?case using Cons.IH by simp
qed simp

lemma times_pos: "x \<in> set xs \<Longrightarrow> 0 < times x xs"
  by (induction xs) auto

lemma node_held: "t \<in> set (li_hosts s) \<Longrightarrow> (p, c) \<in> set (fh_nodes t) \<Longrightarrow> 0 < attachments p s"
proof -
  assume t: "t \<in> set (li_hosts s)" and n: "(p, c) \<in> set (fh_nodes t)"
  have "p \<in> set (map fst (fh_nodes t))" using n by force
  then have "0 < host_attachments p t" unfolding host_attachments_def using times_pos by (metis add_pos_nonneg zero_le)
  moreover have "host_attachments p t \<le> attachments p s" unfolding attachments_def by (rule member_le_sum_list) (use t in auto)
  ultimately show ?thesis by simp
qed

lemma node_owned: "t \<in> set (li_hosts s) \<Longrightarrow> (p, c) \<in> set (fh_nodes t) \<Longrightarrow> 0 < times c (li_freed s) \<Longrightarrow> 2 \<le> owned c s"
proof -
  assume t: "t \<in> set (li_hosts s)" and n: "(p, c) \<in> set (fh_nodes t)" and f: "0 < times c (li_freed s)"
  have "c \<in> set (map snd (fh_nodes t))" using n by force
  then have "0 < host_owns c t" unfolding host_owns_def using times_pos by (metis add_pos_nonneg zero_le)
  moreover have "host_owns c t \<le> sum_list (map (host_owns c) (li_hosts s))" by (rule member_le_sum_list) (use t in auto)
  ultimately show ?thesis using f unfolding owned_def by linarith
qed

text \<open>C5: Life cycle of processes and threads. In every state that any interleaving of the host threads,
  the sandboxes and the runtime threads reaches, as long as the host process is not aborted: the next step of each of
  them has a result, that is, no step uses a process that was freed and no wait or assertion of
  \<^verbatim>\<open>lfi_proc_free\<close> is violated; no thread was freed twice; a host thread's attachments are to
  processes that are alive, with threads that were not freed; a process that was freed had been
  given to \<^verbatim>\<open>lfi_proc_free\<close> and has neither attached nor runtime threads; and a process given to
  \<^verbatim>\<open>lfi_proc_free\<close> that is not freed yet either has attachments, whose last detach will find
  the deferred free pending, or there is exactly one host thread that is about to free it.\<close>

theorem threads_freed_once:
  assumes "thread_step\<^sup>*\<^sup>* (life_start np nh) s" and "\<not> li_aborted s"
  shows "(\<forall>op. allowed op s \<longrightarrow> (\<exists>s'. life_do op s = Some s')) \<and> distinct (li_freed s) \<and>
    (\<forall>t \<in> set (li_hosts s). \<forall>(p, c) \<in> set (fh_nodes t).
       p < length (li_procs s) \<and> fp_alive (li_procs s ! p) \<and> c \<notin> set (li_freed s)) \<and>
    (\<forall>p < length (li_procs s). let q = li_procs s ! p in
       (\<not> fp_alive q \<longrightarrow> fp_closed q \<and> attachments p s = 0 \<and> fp_active q = 0 \<and> fp_threads q = []) \<and>
       (fp_closed q \<and> fp_alive q \<longrightarrow> (if attachments p s = 0 then doomed p s = 1 else fp_pending q \<and> doomed p s = 0)))"
proof -
  have inv: "threads_inv s" using reachable_inv [OF assms(1)] assms(2) by blast
  then have own: "owned c s \<le> of_bool (c < li_next s)" for c by (simp add: threads_inv_def)
  have once: "times c (li_freed s) \<le> 1" for c
    using own [of c] unfolding owned_def by (cases "c < li_next s") auto
  have "distinct (li_freed s)" by (rule times_distinct [OF once])
  moreover have "p < length (li_procs s) \<and> fp_alive (li_procs s ! p) \<and> c \<notin> set (li_freed s)"
    if "t \<in> set (li_hosts s)" "(p, c) \<in> set (fh_nodes t)" for t p c
  proof -
    have "owned c s < 2" using own [of c] by (cases "c < li_next s") auto
    then have "times c (li_freed s) = 0" using node_owned [OF that] by (meson not_less neq0_conv)
    then show ?thesis using held_proc [OF inv node_held [OF that]] by (simp add: times_def count_list_0_iff)
  qed
  moreover have "let q = li_procs s ! p in
       (\<not> fp_alive q \<longrightarrow> fp_closed q \<and> attachments p s = 0 \<and> fp_active q = 0 \<and> fp_threads q = []) \<and>
       (fp_closed q \<and> fp_alive q \<longrightarrow> (if attachments p s = 0 then doomed p s = 1 else fp_pending q \<and> doomed p s = 0))"
    if "p < length (li_procs s)" for p
    using inv_proc [OF inv that] by (auto simp: proc_inv_def Let_def)
  ultimately show ?thesis using do_inv [OF inv] by blast
qed

text \<open>The witness: a thread is attached and detached again after its process was given to \<^verbatim>\<open>lfi_proc_free\<close>.\<close>

primrec run_ops :: "thread_op list \<Rightarrow> life \<Rightarrow> life run" where
  "run_ops [] s = Some s"
| "run_ops (op # ops) s = life_do op s \<bind> run_ops ops"

fun all_allowed :: "thread_op list \<Rightarrow> life \<Rightarrow> bool" where
  "all_allowed [] s = True"
| "all_allowed (op # ops) s = (\<not> li_aborted s \<and> allowed op s \<and>
     (case life_do op s of None \<Rightarrow> False | Some s' \<Rightarrow> all_allowed ops s'))"

lemma run_steps: "all_allowed ops s \<Longrightarrow> thread_step\<^sup>*\<^sup>* s (the (run_ops ops s))"
  by (induction ops s rule: all_allowed.induct)
    (auto split: option.splits intro: converse_rtranclp_into_rtranclp thread_step.step)

definition deferred_free :: "thread_op list" where
  "deferred_free = [Init 0 0, Clone 0, Inited 0, Attach 0 0, Clone 0, Attached True 0, Spawn True 0, SpawnEnd 0 2,
     Free 0 0, Detach 0 0, Advance 0, Advance 0, Advance 0, Advance 0]"

lemma deferred_free_run:
  "all_allowed deferred_free (life_start 1 1) \<and> li_freed (the (run_ops deferred_free (life_start 1 1))) = [0, 1, 2] \<and>
   \<not> li_aborted (the (run_ops deferred_free (life_start 1 1)))"
  by code_simp

lemma threads_freed_once_witness:
  "thread_step\<^sup>*\<^sup>* (life_start 1 1) (the (run_ops deferred_free (life_start 1 1))) \<and>
   distinct (li_freed (the (run_ops deferred_free (life_start 1 1))))"
proof -
  note r = run_steps [OF conjunct1 [OF deferred_free_run]]
  show ?thesis
    using r threads_freed_once [OF r] deferred_free_run by blast
qed

text \<open>
  \<^verbatim>\<open>lfi_linux_init_clone\<close> does not reset \<^verbatim>\<open>new_ctx\<close>. When the sandbox's \<^verbatim>\<open>thread_create\<close> does not
  clone (it failed), the clone context becomes the one of the process that was set up before.
\<close>

definition stale_clone :: "thread_op list" where
  "stale_clone = [Init 0 0, Clone 0, Inited 0, Init 0 1, Inited 0, Free 0 0, Advance 0, Free 0 1, Advance 0]"


end
