(* ===== verification/Context.thy ===== *)
theory Context
  imports BoxSafety ThreadState
begin

text \<open>
  Contexts, \<^verbatim>\<open>core/ctx.c\<close>, \<^verbatim>\<open>core/arch/*/regs.c\<close> and \<^verbatim>\<open>core/trampoline.c\<close>: the registers with
  which a thread runs in a sandbox, in a block of two pages outside every sandbox with a runtime-call
  table and the context registers. Builds without protection keys and \<^verbatim>\<open>SEGUE_CACHE_GS\<close>.
\<close>

subsection \<open>Registers\<close>

text \<open>
  The registers the runtime writes, under one name for all architectures: base (\<^verbatim>\<open>REG_BASE\<close>),
  address (\<^verbatim>\<open>REG_ADDR\<close>), stack pointer, link (\<^verbatim>\<open>x30\<close>, \<^verbatim>\<open>ra\<close>), context (\<^verbatim>\<open>x25\<close>, \<^verbatim>\<open>r15\<close>, \<^verbatim>\<open>s10\<close>) and the
  two floating-point control words of x86-64. \<open>rg_rest\<close> are the others.
\<close>

record lfi_regs =
  rg_host_sp :: u64
  rg_retaddr :: u64
  rg_base :: u64
  rg_addr :: u64
  rg_sp :: u64
  rg_link :: u64
  rg_ctx :: u64
  rg_fcw :: "16 word"
  rg_mxcsr :: u32
  rg_rest :: "nat \<Rightarrow> u64"

definition zero_regs :: lfi_regs where
  "zero_regs = \<lparr>rg_host_sp = 0, rg_retaddr = 0, rg_base = 0, rg_addr = 0, rg_sp = 0, rg_link = 0, rg_ctx = 0,
     rg_fcw = 0, rg_mxcsr = 0, rg_rest = (\<lambda>_. 0)\<rparr>"

definition lfi_ctx_regs_init :: "arch \<Rightarrow> lfi_box \<Rightarrow> u64 \<Rightarrow> lfi_regs \<Rightarrow> lfi_regs" where
  "lfi_ctx_regs_init ar b ctxreg r =
     (let r = r\<lparr>rg_base := bx_base b, rg_sp := bx_base b, rg_retaddr := bx_retaddr b, rg_ctx := ctxreg\<rparr>
      in case ar of
           X64 \<Rightarrow> r\<lparr>rg_fcw := 0x37f, rg_mxcsr := 0x1f80\<rparr>
         | _ \<Rightarrow> r\<lparr>rg_addr := bx_base b, rg_link := bx_base b\<rparr>)"

definition lfi_ctx_regs_relink_ctxreg :: "u64 \<Rightarrow> lfi_regs \<Rightarrow> lfi_regs" where
  "lfi_ctx_regs_relink_ctxreg ctxreg r = r\<lparr>rg_ctx := ctxreg\<rparr>"

subsection \<open>Contexts\<close>

definition CTXREG_SLOTS :: nat where "CTXREG_SLOTS = 8"
definition CTXREG_TP_OFFSET :: nat where "CTXREG_TP_OFFSET = 16"

text \<open>\<open>cx_self\<close> is the address of the structure, \<open>cx_slots\<close> the array in the context-register page.\<close>

record lfi_ctx =
  cx_self :: u64
  cx_regs :: lfi_regs
  cx_abort_callback :: bool
  cx_abort_status :: bool
  cx_ctxreg :: u64
  cx_slots :: "u64 list"
  cx_block :: u64
  cx_userdata :: u64
  cx_in_run :: bool

text \<open>
  \<open>self\<close> is what \<^verbatim>\<open>malloc\<close> returns, \<open>block\<close> where \<^verbatim>\<open>mmap\<close> places the block when it succeeds.
\<close>

definition lfi_ctx_new ::
  "host_env \<Rightarrow> arch \<Rightarrow> u64 option \<Rightarrow> u64 \<Rightarrow> u64 \<Rightarrow> lfi_box \<Rightarrow> lfi_error \<times> vm \<Rightarrow>
   (lfi_ctx \<times> sys_table) option \<times> lfi_error \<times> vm" where
  "lfi_ctx_new e ar self block userdata b s = (case s of (err, m) \<Rightarrow>
     (case self of
        None \<Rightarrow> (None, ERR_ALLOC, m)
      | Some self \<Rightarrow>
          (let ps = bx_ps b;
               (ok, m) = vm_mmap e ps block (2 * ps) read_write True 0 0 m
           in if \<not> ok then (None, ERR_ALLOC, m)
              else let (ok, sys, m) = ctx_block_init e ps block (Some self) m
                   in if \<not> ok then (None, ERR_MMAP, vm_munmap e ps block (2 * ps) m)
                      else (Some (\<lparr>cx_self = self, cx_regs = lfi_ctx_regs_init ar b (block + ps) zero_regs,
                                   cx_abort_callback = False, cx_abort_status = False, cx_ctxreg = block + ps,
                                   cx_slots = replicate CTXREG_SLOTS 0, cx_block = block, cx_userdata = userdata,
                                   cx_in_run = False\<rparr>, sys), err, m))))"

definition lfi_ctx_free :: "host_env \<Rightarrow> u64 \<Rightarrow> lfi_ctx option \<Rightarrow> vm \<Rightarrow> vm" where
  "lfi_ctx_free e ps c m = (case c of None \<Rightarrow> m | Some c \<Rightarrow> vm_munmap e ps (cx_block c) (2 * ps) m)"

definition lfi_ctx_get_tp :: "lfi_ctx \<Rightarrow> u64" where
  "lfi_ctx_get_tp c = cx_slots c ! (CTXREG_TP_OFFSET div 8)"

definition lfi_ctx_set_tp :: "u64 \<Rightarrow> lfi_ctx \<Rightarrow> lfi_ctx" where
  "lfi_ctx_set_tp tp c = c\<lparr>cx_slots := (cx_slots c)[CTXREG_TP_OFFSET div 8 := tp],
     cx_regs := (cx_regs c)\<lparr>rg_ctx := cx_ctxreg c\<rparr>\<rparr>"

definition lfi_ctx_abort_cb :: "lfi_ctx \<Rightarrow> lfi_ctx" where
  "lfi_ctx_abort_cb c = c\<lparr>cx_abort_callback := True\<rparr>"

definition lfi_ctx_abort_cb_status :: "lfi_ctx \<Rightarrow> bool" where
  "lfi_ctx_abort_cb_status c = cx_abort_status c"

text \<open>\<^verbatim>\<open>lfi_ctx_exit\<close> aborts unless the context runs under \<^verbatim>\<open>lfi_ctx_run\<close>, whose result it gives.\<close>

definition ctx_exit :: "lfi_ctx \<Rightarrow> 'code \<Rightarrow> 'code run" where
  "ctx_exit c code = (if \<not> cx_in_run c then None else Some code)"

subsection \<open>Invocations\<close>

record invoke_info =
  ii_ctx :: "u64 option"
  ii_targetfn :: u64
  ii_box :: u64

definition lfi_set_invoke_info :: "u64 option \<Rightarrow> u64 \<Rightarrow> u64 \<Rightarrow> invoke_info \<Rightarrow> invoke_info" where
  "lfi_set_invoke_info ctx targetfn box ii = ii\<lparr>ii_ctx := ctx, ii_targetfn := targetfn, ii_box := box\<rparr>"

text \<open>
  \<^verbatim>\<open>lfi_ctx_entry\<close> is assembly: \<open>entry\<close> says what the sandbox makes of the context and with which
  code it leaves; no result when it never does. The address of the context pointer is that of the context here.
\<close>

definition lfi_ctx_run ::
  "thread_env \<Rightarrow> lfi_options \<Rightarrow> (u64 \<Rightarrow> lfi_ctx \<Rightarrow> (int \<times> lfi_ctx) run) \<Rightarrow> u64 \<Rightarrow> lfi_ctx \<times> invoke_info \<times> thread \<Rightarrow>
   (int \<times> lfi_ctx \<times> invoke_info \<times> thread) run" where
  "lfi_ctx_run te opts enter entry s = (case s of (c, ii, th) \<Rightarrow> do {
     let th = lfi_init_sigaltstack te opts th;
     let ii = ii\<lparr>ii_ctx := Some (cx_self c)\<rparr>;
     (ret, c) \<leftarrow> enter entry (c\<lparr>cx_in_run := True\<rparr>);
     Some (ret, c\<lparr>cx_in_run := False\<rparr>, ii, th)
   })"

text \<open>\<^verbatim>\<open>lfi_clone\<close>, for the engine's callback; the result is the abort when there is no context.\<close>

definition lfi_clone ::
  "thread_env \<Rightarrow> lfi_options \<Rightarrow> (lfi_box \<Rightarrow> 'c option) option \<Rightarrow> lfi_box \<Rightarrow> thread \<Rightarrow> ('c \<times> thread) run" where
  "lfi_clone te opts clone_cb b th =
     (let th = lfi_init_sigaltstack te opts th
      in case clone_cb of
           None \<Rightarrow> None
         | Some cb \<Rightarrow> (case cb b of None \<Rightarrow> None | Some ctx \<Rightarrow> Some (ctx, th)))"

subsection \<open>Well-formed contexts\<close>

text \<open>The reserved registers point at the sandbox and at the context's own register page.\<close>

definition ctx_wf :: "lfi_box \<Rightarrow> lfi_ctx \<Rightarrow> bool" where
  "ctx_wf b c \<longleftrightarrow> cx_ctxreg c = cx_block c + bx_ps b \<and> length (cx_slots c) = CTXREG_SLOTS \<and>
     rg_base (cx_regs c) = bx_base b \<and> rg_ctx (cx_regs c) = cx_ctxreg c \<and> \<not> cx_in_run c"

text \<open>What a sandbox can do to a context: verified code does not write the reserved registers.\<close>

definition keeps_reserved :: "(u64 \<Rightarrow> lfi_ctx \<Rightarrow> (int \<times> lfi_ctx) run) \<Rightarrow> bool" where
  "keeps_reserved enter \<longleftrightarrow> (\<forall>entry c ret c'. enter entry c = Some (ret, c') \<longrightarrow>
     cx_self c' = cx_self c \<and> cx_block c' = cx_block c \<and> cx_ctxreg c' = cx_ctxreg c \<and> cx_userdata c' = cx_userdata c \<and>
     length (cx_slots c') = length (cx_slots c) \<and> rg_base (cx_regs c') = rg_base (cx_regs c) \<and>
     rg_ctx (cx_regs c') = rg_ctx (cx_regs c))"

text \<open>
  The calls on a context. \<open>CopyRegs\<close> is what \<^verbatim>\<open>thread_clone\<close> does: the registers of another context
  of the box, linked to this one.
\<close>

datatype ctx_op = SetTp u64 | CopyRegs lfi_regs | Enter thread_env u64 | AbortCb

fun ctx_do ::
  "lfi_options \<Rightarrow> (u64 \<Rightarrow> lfi_ctx \<Rightarrow> (int \<times> lfi_ctx) run) \<Rightarrow> ctx_op \<Rightarrow> lfi_ctx \<times> invoke_info \<times> thread \<Rightarrow>
   (lfi_ctx \<times> invoke_info \<times> thread) run" where
  "ctx_do opts enter (SetTp tp) (c, s) = Some (lfi_ctx_set_tp tp c, s)"
| "ctx_do opts enter (CopyRegs r) (c, s) = Some (c\<lparr>cx_regs := lfi_ctx_regs_relink_ctxreg (cx_ctxreg c) r\<rparr>, s)"
| "ctx_do opts enter (Enter te entry) s = map_option snd (lfi_ctx_run te opts enter entry s)"
| "ctx_do opts enter AbortCb (c, s) = Some (lfi_ctx_abort_cb c, s)"

primrec ctx_dos ::
  "lfi_options \<Rightarrow> (u64 \<Rightarrow> lfi_ctx \<Rightarrow> (int \<times> lfi_ctx) run) \<Rightarrow> ctx_op list \<Rightarrow> lfi_ctx \<times> invoke_info \<times> thread \<Rightarrow>
   (lfi_ctx \<times> invoke_info \<times> thread) run" where
  "ctx_dos opts enter [] s = Some s"
| "ctx_dos opts enter (op # ops) s = ctx_do opts enter op s \<bind> ctx_dos opts enter ops"

definition same_box :: "lfi_box \<Rightarrow> ctx_op \<Rightarrow> bool" where
  "same_box b op = (case op of CopyRegs r \<Rightarrow> rg_base r = bx_base b | _ \<Rightarrow> True)"

lemma ctx_do_wf:
  assumes "keeps_reserved enter" "same_box b op" "ctx_wf b c" "ctx_do opts enter op (c, ii, th) = Some (c', ii', th')"
  shows "ctx_wf b c' \<and> cx_block c' = cx_block c \<and> cx_userdata c' = cx_userdata c"
proof (cases op)
  case (Enter te entry)
  then obtain ret d where "enter entry (c\<lparr>cx_in_run := True\<rparr>) = Some (ret, d)" "c' = d\<lparr>cx_in_run := False\<rparr>"
    using assms(4) by (auto simp: lfi_ctx_run_def Let_def split: Option.bind_splits)
  then show ?thesis using assms(1,3) unfolding keeps_reserved_def ctx_wf_def by fastforce
qed (use assms in \<open>auto simp: ctx_wf_def lfi_ctx_set_tp_def lfi_ctx_regs_relink_ctxreg_def lfi_ctx_abort_cb_def same_box_def\<close>)

lemma ctx_dos_wf:
  "keeps_reserved enter \<Longrightarrow> list_all (same_box b) ops \<Longrightarrow> ctx_wf b c \<Longrightarrow>
    ctx_dos opts enter ops (c, ii, th) = Some (c', s') \<Longrightarrow>
    ctx_wf b c' \<and> cx_block c' = cx_block c \<and> cx_userdata c' = cx_userdata c"
proof (induction ops arbitrary: c ii th)
  case (Cons op ops)
  from Cons.prems(4) obtain d di dt where "ctx_do opts enter op (c, ii, th) = Some (d, di, dt)"
      "ctx_dos opts enter ops (d, di, dt) = Some (c', s')"
    by (auto split: Option.bind_splits)
  then show ?case using ctx_do_wf [OF Cons.prems(1) _ Cons.prems(3)] Cons.IH [OF Cons.prems(1)] Cons.prems(2) by force
qed simp

subsection \<open>The block\<close>

lemma aligned_pages:
  assumes "0 < unat ps" "page_aligned ps p" "unat n = j * unat ps"
  shows "in_pages ps p n k \<longleftrightarrow> pg ps p \<le> k \<and> k < pg ps p + j"
proof -
  have "unat p = pg ps p * unat ps" using assms(2) by (auto simp: page_aligned_def pg_def)
  then have "unat p + unat n + unat ps - 1 = (unat ps - 1) + (pg ps p + j) * unat ps"
    using assms(1,3) by (simp add: algebra_simps)
  then have "(unat p + unat n + unat ps - 1) div unat ps = (unat ps - 1) div unat ps + (pg ps p + j)"
    using assms(1) by (simp only: div_mult_self1)
  then show ?thesis using assms(1) unfolding in_pages_def by simp
qed

text \<open>The second page of a block.\<close>

lemma block_pages:
  assumes "0 < unat ps" "page_aligned ps p" "unat p + 2 * unat ps < 2 ^ 64"
  shows "in_pages ps p ps k \<longleftrightarrow> k = pg ps p" "in_pages ps (p + ps) ps k \<longleftrightarrow> k = pg ps p + 1"
    "in_pages ps p (2 * ps) k \<longleftrightarrow> k = pg ps p \<or> k = pg ps p + 1" "page_aligned ps (p + ps)" "2 * ps \<noteq> 0"
proof -
  have u: "unat (p + ps) = unat p + unat ps" using assms(1,3) by (simp add: unat_word_ariths)
  have "2 * unat ps < 18446744073709551616" using assms(3) by simp
  then have d: "unat (2 * ps) = 2 * unat ps" by (simp add: unat_word_ariths)
  have a: "page_aligned ps (p + ps)" using assms(2) by (simp add: page_aligned_def u)
  have n: "pg ps (p + ps) = pg ps p + 1" unfolding pg_def u by (rule div_add_self2) (use assms(1) in simp)
  have one: "unat ps = 1 * unat ps" by simp
  show "in_pages ps p ps k \<longleftrightarrow> k = pg ps p" unfolding aligned_pages [OF assms(1,2) one] by auto
  show "in_pages ps (p + ps) ps k \<longleftrightarrow> k = pg ps p + 1" unfolding aligned_pages [OF assms(1) a one] n by auto
  show "in_pages ps p (2 * ps) k \<longleftrightarrow> k = pg ps p \<or> k = pg ps p + 1" unfolding aligned_pages [OF assms(1,2) d] by auto
  show "page_aligned ps (p + ps)" by (rule a)
  show "2 * ps \<noteq> 0"
  proof
    assume "2 * ps = 0"
    then have "unat (2 * ps) = 0" by simp
    then show False using d assms(1) by simp
  qed
qed

lemma tick_calls: "vm_calls (vm_tick e ps m) = vm_calls m + 1"
  by (simp add: vm_tick_def Let_def)

lemma ctx_new_pages:
  assumes "0 < unat (bx_ps b)" "page_aligned (bx_ps b) block" "unat block + 2 * unat (bx_ps b) < 2 ^ 64"
    and new: "lfi_ctx_new e ar self block userdata b (err, m) = (r, err', m')"
  shows "case r of
      None \<Rightarrow> err' = (if self = None \<or> \<not> fst (vm_mmap e (bx_ps b) block (2 * bx_ps b) read_write True 0 0 m) then ERR_ALLOC else ERR_MMAP) \<and>
        (\<forall>k. k \<noteq> pg (bx_ps b) block \<and> k \<noteq> pg (bx_ps b) block + 1 \<longrightarrow> vm_acc m' k = vm_acc m k)
    | Some (c, sys) \<Rightarrow> err' = err \<and> ctx_wf b c \<and> sys_ctx sys = self \<and> cx_userdata c = userdata \<and> cx_block c = block \<and>
        (\<forall>k. vm_acc m' k = (if k = pg (bx_ps b) block then read_only
           else if k = pg (bx_ps b) block + 1 then read_write else vm_acc m k))"
proof -
  note pages = block_pages [OF assms(1-3)]
  have len: "length (replicate CTXREG_SLOTS (0 :: u64)) = CTXREG_SLOTS" by simp
  show ?thesis
  proof (cases self)
    case None
    then show ?thesis using new by (simp add: lfi_ctx_new_def)
  next
    case (Some p)
    obtain ok1 m1 where m1: "vm_mmap e (bx_ps b) block (2 * bx_ps b) read_write True 0 0 m = (ok1, m1)" by fastforce
    obtain ok2 m2 where m2: "vm_mprotect e (bx_ps b) block (bx_ps b) read_only m1 = (ok2, m2)" by fastforce
    obtain ok3 m3 where m3: "vm_mprotect e (bx_ps b) (block + bx_ps b) (bx_ps b) read_write m2 = (ok3, m3)" by fastforce
    have a1: "vm_acc m1 k = (if ok1 \<and> (k = pg (bx_ps b) block \<or> k = pg (bx_ps b) block + 1) then read_write else vm_acc m k)" for k
      using vm_mmap_acc [of e "bx_ps b" block "2 * bx_ps b" read_write True 0 0 m k] m1 pages(3) by simp
    have a2: "vm_acc m2 k = (if ok2 \<and> k = pg (bx_ps b) block then read_only else vm_acc m1 k)" for k
      using vm_mprotect_acc [of e "bx_ps b" block "bx_ps b" read_only m1 k] m2 pages(1) by simp
    have a3: "vm_acc m3 k = (if ok3 \<and> k = pg (bx_ps b) block + 1 then read_write else vm_acc m2 k)" for k
      using vm_mprotect_acc [of e "bx_ps b" "block + bx_ps b" "bx_ps b" read_write m2 k] m3 pages(2) by simp
    have un: "vm_acc (vm_munmap e (bx_ps b) block (2 * bx_ps b) h) k = vm_acc h k"
      if "k \<noteq> pg (bx_ps b) block" "k \<noteq> pg (bx_ps b) block + 1" for h k
      using that pages(3) by (simp add: vm_munmap_def Let_def)
    show ?thesis
      using new Some m1 m2 m3 a1 a2 a3 un len
      by (cases ok1; cases ok2; cases ok3; cases ar)
        (auto simp: lfi_ctx_new_def ctx_block_init_def sys_page_init_def sys_init_def ctx_wf_def lfi_ctx_regs_init_def Let_def)
  qed
qed

text \<open>C22: Life of a context. Creating one, for pages that the host gives outside of what is mapped, either fails with
  an allocation or mapping error and changes the access of no page but these two, or gives a context
  whose runtime-call page is read-only, whose register page is readable and writable, and no
  other page is changed. The context is well formed: its reserved registers are the base of its
  box and its own register page. It stays so under any sequence of setting the thread pointer,
  copying the registers of a context of the box, asking for an abort and running sandbox code that does not write the
  reserved registers; the thread pointer read is the one set; outside of such a run
  \<^verbatim>\<open>lfi_ctx_exit\<close> aborts, in one it gives the code; and \<^verbatim>\<open>lfi_ctx_free\<close> takes back exactly
  the two pages.\<close>

theorem context_well_formed:
  assumes "0 < unat (bx_ps b)" "page_aligned (bx_ps b) block" "unat block + 2 * unat (bx_ps b) < 2 ^ 64"
    and "keeps_reserved enter" "list_all (same_box b) ops"
  shows "case lfi_ctx_new e ar self block userdata b (err, m) of
      (None, err', m') \<Rightarrow> (err' = ERR_ALLOC \<or> err' = ERR_MMAP) \<and>
        (\<forall>k. k \<noteq> pg (bx_ps b) block \<and> k \<noteq> pg (bx_ps b) block + 1 \<longrightarrow> vm_acc m' k = vm_acc m k)
    | (Some (c, sys), err', m') \<Rightarrow> err' = err \<and> sys_ctx sys = self \<and>
        (\<forall>k. vm_acc m' k = (if k = pg (bx_ps b) block then read_only
           else if k = pg (bx_ps b) block + 1 then read_write else vm_acc m k)) \<and>
        (\<forall>h. he_ok e (vm_calls h + 1) HMunmap \<longrightarrow> vm_acc (lfi_ctx_free e (bx_ps b) (Some c) h) =
           (\<lambda>k. if k = pg (bx_ps b) block \<or> k = pg (bx_ps b) block + 1 then no_access else vm_acc h k)) \<and>
        (case ctx_dos opts enter ops (c, ii, th) of
           None \<Rightarrow> True
         | Some (c', _, _) \<Rightarrow> ctx_wf b c' \<and> cx_block c' = block \<and> cx_userdata c' = userdata \<and>
             lfi_ctx_get_tp (lfi_ctx_set_tp tp c') = tp \<and> ctx_exit c' code = None \<and>
             ctx_exit (c'\<lparr>cx_in_run := True\<rparr>) code = Some code)"
proof -
  obtain r err' m' where new: "lfi_ctx_new e ar self block userdata b (err, m) = (r, err', m')" by (metis prod_cases3)
  note pages = ctx_new_pages [OF assms(1-3) new]
  show ?thesis
  proof (cases r)
    case None
    then show ?thesis using new pages by simp
  next
    case (Some cs)
    then obtain c sys where cs: "r = Some (c, sys)" by (cases cs) auto
    then have c: "ctx_wf b c" "cx_block c = block" "cx_userdata c = userdata" using pages by simp_all
    have free: "vm_acc (lfi_ctx_free e (bx_ps b) (Some c) h) =
        (\<lambda>k. if k = pg (bx_ps b) block \<or> k = pg (bx_ps b) block + 1 then no_access else vm_acc h k)"
      if "he_ok e (vm_calls h + 1) HMunmap" for h
      using that c(2) block_pages(3,5) [OF assms(1-3)] by (simp add: lfi_ctx_free_def vm_munmap_def tick_calls Let_def assms(2) cong: if_cong)
    have dos: "case ctx_dos opts enter ops (c, ii, th) of
           None \<Rightarrow> True
         | Some (c', _, _) \<Rightarrow> ctx_wf b c' \<and> cx_block c' = block \<and> cx_userdata c' = userdata \<and>
             lfi_ctx_get_tp (lfi_ctx_set_tp tp c') = tp \<and> ctx_exit c' code = None \<and>
             ctx_exit (c'\<lparr>cx_in_run := True\<rparr>) code = Some code"
      using ctx_dos_wf [OF assms(4,5) c(1)] c(2,3)
      by (fastforce simp: lfi_ctx_get_tp_def lfi_ctx_set_tp_def ctx_exit_def ctx_wf_def CTXREG_SLOTS_def CTXREG_TP_OFFSET_def
          split: option.split)
    show ?thesis using new cs pages free dos by simp
  qed
qed

definition no_info :: invoke_info where
  "no_info = \<lparr>ii_ctx = None, ii_targetfn = 0, ii_box = 0\<rparr>"

lemma context_well_formed_witness:
  "\<exists>c sys m'. lfi_ctx_new demo_env X64 (Some 0x7000) 0x50000 9 demo_box (ERR_NONE, demo_vm) = (Some (c, sys), ERR_NONE, m') \<and>
     vm_acc m' 0x50 = read_only \<and> vm_acc m' 0x51 = read_write \<and>
     (case ctx_dos demo_opts (\<lambda>entry c. Some (0, c)) [SetTp 5] (c, no_info, fresh_thread None None) of
        None \<Rightarrow> False
      | Some (c', _, _) \<Rightarrow> ctx_wf demo_box c')"
proof -
  let ?new = "lfi_ctx_new demo_env X64 (Some 0x7000) 0x50000 9 demo_box (ERR_NONE, demo_vm)"
  have "fst ?new \<noteq> None"
    by (simp add: lfi_ctx_new_def ctx_block_init_def sys_page_init_def vm_mmap_def vm_mprotect_def page_aligned_def
        demo_box_ok demo_env_def Let_def)
  then obtain c sys err' m' where new: "?new = (Some (c, sys), err', m')" by (cases ?new) auto
  have pg: "pg 4096 0x50000 = 0x50" by (simp add: pg_def)
  show ?thesis
    using context_well_formed [where b = demo_box and block = "0x50000" and enter = "\<lambda>entry c. Some (0, c)" and ops = "[SetTp 5]" and e = demo_env and ar = X64
        and self = "Some 0x7000" and userdata = 9 and err = ERR_NONE and m = demo_vm and opts = demo_opts
        and ii = no_info and th = "fresh_thread None None"
        and tp = 0 and code = "()"]
    unfolding new by (simp add: keeps_reserved_def same_box_def demo_box_ok page_aligned_def pg)
qed

end
