(* ===== verification/LibCalls.thy ===== *)
theory LibCalls
  imports BoxSafety ElfSym
begin

text \<open>
  The library calls a host makes in a sandbox, the end of \<^verbatim>\<open>linux/trampoline.c\<close>. The sandbox runs
  its own allocator, which the host does not trust: \<open>invoke f args s\<close> is any answer of the sandbox
  function at address \<open>f\<close>, with the state \<open>s\<close> of the world. On these hosts sandbox addresses
  and host addresses are the same. A null pointer is \<open>None\<close>.
\<close>

type_synonym 's invocation = "u64 \<Rightarrow> u64 list \<Rightarrow> 's \<Rightarrow> u64 \<times> 's"

definition lib_bufcheck :: "lfi_box \<Rightarrow> u64 \<Rightarrow> u64 \<Rightarrow> u64 \<Rightarrow> bool" where
  "lib_bufcheck b p n align =
     (if \<not> lfi_box_bufvalid b p n then False else if p mod align \<noteq> 0 then False else True)"

definition lfi_lib_malloc :: "'s invocation \<Rightarrow> lfi_box \<Rightarrow> lib_symbols \<Rightarrow> u64 \<Rightarrow> 's \<Rightarrow> u64 option \<times> 's" where
  "lfi_lib_malloc invoke b syms n s =
     (let (p, s) = invoke (ls_malloc syms) [n] s
      in if \<not> lib_bufcheck b p n 16 then (None, s) else (Some p, s))"

definition lfi_lib_realloc :: "'s invocation \<Rightarrow> lfi_box \<Rightarrow> lib_symbols \<Rightarrow> u64 \<Rightarrow> u64 \<Rightarrow> 's \<Rightarrow> u64 option \<times> 's" where
  "lfi_lib_realloc invoke b syms old n s =
     (let (p, s) = invoke (ls_realloc syms) [old, n] s
      in if \<not> lib_bufcheck b p n 16 then (None, s) else (Some p, s))"

text \<open>\<^verbatim>\<open>__builtin_mul_overflow\<close>: whether the product of two words has more than 64 bits.\<close>

definition mul_overflow :: "u64 \<Rightarrow> u64 \<Rightarrow> bool \<times> u64" where
  "mul_overflow x y = (2 ^ 64 \<le> unat x * unat y, x * y)"

definition lfi_lib_calloc :: "'s invocation \<Rightarrow> lfi_box \<Rightarrow> lib_symbols \<Rightarrow> u64 \<Rightarrow> u64 \<Rightarrow> 's \<Rightarrow> u64 option \<times> 's" where
  "lfi_lib_calloc invoke b syms count n s =
     (let (over, all) = mul_overflow count n
      in if over then (None, s)
         else let (p, s) = invoke (ls_calloc syms) [count, n] s
              in if \<not> lib_bufcheck b p all 16 then (None, s) else (Some p, s))"

definition lfi_lib_free :: "'s invocation \<Rightarrow> lib_symbols \<Rightarrow> u64 \<Rightarrow> 's \<Rightarrow> 's" where
  "lfi_lib_free invoke syms p s = snd (invoke (ls_free syms) [p] s)"

definition lfi_lib_setjmp :: "'s invocation \<Rightarrow> lib_symbols \<Rightarrow> u64 \<Rightarrow> u64 \<Rightarrow> u64 \<Rightarrow> 's \<Rightarrow> 's" where
  "lfi_lib_setjmp invoke syms jmp_env host_env callback s = snd (invoke (ls_setjmp syms) [jmp_env, host_env, callback] s)"

text \<open>A buffer of \<open>n\<close> bytes in a box, aligned for any type.\<close>

definition good_buffer :: "lfi_box \<Rightarrow> u64 \<Rightarrow> nat \<Rightarrow> bool" where
  "good_buffer b p n \<longleftrightarrow> unat (bx_min b) \<le> unat p \<and> unat p + n \<le> unat (bx_max b) \<and> unat p mod 16 = 0"

lemma mod16: "(p :: u64) mod 16 = 0 \<longleftrightarrow> unat p mod 16 = 0"
proof -
  have "p mod 16 = 0 \<longleftrightarrow> unat (p mod 16) = 0" by (simp add: unat_eq_0)
  then show ?thesis by (simp add: unat_mod_distrib)
qed

lemma bufcheck_iff:
  assumes "box_ok b"
  shows "lib_bufcheck b p n 16 \<longleftrightarrow> good_buffer b p (unat n)"
  using bufvalid_iff [OF box_ok_min_max [OF assms], of p n] by (auto simp: lib_bufcheck_def good_buffer_def mod16)

lemma bufvalid_bytes:
  assumes b: "box_ok b" and v: "lfi_box_bufvalid b p n" and i: "i < unat n"
  shows "box_page b (pg (bx_ps b) (p + of_nat i))"
proof -
  have "unat p + unat n \<le> unat (bx_max b)" using v bufvalid_iff [OF box_ok_min_max [OF b], of p n] by simp
  moreover have "unat (bx_max b) < 18446744073709551616" using unsigned_less [of "bx_max b", where ?'a = nat] by simp
  ultimately have "unat p + i < 18446744073709551616" using i by linarith
  then have x: "unat (p + of_nat i) = unat p + i" by (simp add: unat_word_ariths unat_of_nat take_bit_nat_def)
  have ps: "unat (bx_ps b) \<noteq> 0" using b by (simp add: box_ok_def)
  have "(unat p + i) div unat (bx_ps b) + 1 \<le> (unat p + i + unat (bx_ps b)) div unat (bx_ps b)"
    unfolding div_add_self2 [OF ps] by (rule order_refl)
  also have "\<dots> \<le> (unat p + unat n + unat (bx_ps b) - 1) div unat (bx_ps b)" by (rule div_le_mono) (use i in simp)
  finally have "in_pages (bx_ps b) p n (pg (bx_ps b) (p + of_nat i))"
    by (simp add: in_pages_def pg_def x div_le_mono)
  then show ?thesis by (rule bufvalid_pages [OF b v])
qed

lemma good_buffer_bytes:
  fixes n :: u64
  assumes "box_ok b" "good_buffer b p (unat n)" "i < unat n"
  shows "box_page b (pg (bx_ps b) (p + of_nat i))"
  using assms bufvalid_iff [OF box_ok_min_max [OF assms(1)], of p n]
  by (intro bufvalid_bytes [where n = n]) (simp_all add: good_buffer_def)

definition lib_answer :: "lfi_box \<Rightarrow> u64 \<times> 's \<Rightarrow> nat \<Rightarrow> u64 option \<times> 's \<Rightarrow> bool" where
  "lib_answer b answer n result \<longleftrightarrow> snd result = snd answer \<and>
     (case fst result of
        None \<Rightarrow> \<not> good_buffer b (fst answer) n
      | Some p \<Rightarrow> p = fst answer \<and> unat p mod 16 = 0 \<and> unat p + n \<le> unat (bx_max b) \<and>
          (\<forall>i < n. box_page b (pg (bx_ps b) (p + of_nat i))))"

lemma answerI:
  assumes "box_ok b" "unat n = k" "result = (if \<not> lib_bufcheck b (fst answer) n 16 then (None, snd answer) else (Some (fst answer), snd answer))"
  shows "lib_answer b answer k result"
  using assms(3) bufcheck_iff [OF assms(1), of "fst answer" n] good_buffer_bytes [OF assms(1), of "fst answer" n]
  by (auto simp: lib_answer_def assms(2) good_buffer_def)

text \<open>C26: Pointers from the sandbox's allocator. Whatever a sandbox answers, a pointer that the host gets from
  \<^verbatim>\<open>lfi_lib_malloc\<close>, \<^verbatim>\<open>lfi_lib_realloc\<close> or \<^verbatim>\<open>lfi_lib_calloc\<close> is the sandbox's, is aligned to 16 bytes, and all
  bytes of the requested size from it on lie on pages of the sandbox, for \<^verbatim>\<open>calloc\<close> of the exact product; the
  null pointer comes only from answers that are not such buffers, and from a product of more than
  64 bits, for which the sandbox is not entered.\<close>

theorem lib_pointers_in_box:
  assumes "box_ok b"
  shows "lib_answer b (invoke (ls_malloc syms) [n] s) (unat n) (lfi_lib_malloc invoke b syms n s) \<and>
    lib_answer b (invoke (ls_realloc syms) [old, n] s) (unat n) (lfi_lib_realloc invoke b syms old n s) \<and>
    (if 2 ^ 64 \<le> unat count * unat n then lfi_lib_calloc invoke b syms count n s = (None, s)
     else lib_answer b (invoke (ls_calloc syms) [count, n] s) (unat count * unat n) (lfi_lib_calloc invoke b syms count n s))"
proof (intro conjI)
  show "lib_answer b (invoke (ls_malloc syms) [n] s) (unat n) (lfi_lib_malloc invoke b syms n s)"
    by (rule answerI [OF assms refl]) (simp add: lfi_lib_malloc_def split_beta)
  show "lib_answer b (invoke (ls_realloc syms) [old, n] s) (unat n) (lfi_lib_realloc invoke b syms old n s)"
    by (rule answerI [OF assms refl]) (simp add: lfi_lib_realloc_def split_beta)
  show "if 2 ^ 64 \<le> unat count * unat n then lfi_lib_calloc invoke b syms count n s = (None, s)
     else lib_answer b (invoke (ls_calloc syms) [count, n] s) (unat count * unat n) (lfi_lib_calloc invoke b syms count n s)"
  proof (cases "2 ^ 64 \<le> unat count * unat n")
    case False
    then have u: "unat (count * n) = unat count * unat n" by (simp add: unat_word_ariths)
    have "lib_answer b (invoke (ls_calloc syms) [count, n] s) (unat count * unat n) (lfi_lib_calloc invoke b syms count n s)"
      by (rule answerI [OF assms u])
        (use False in \<open>simp add: lfi_lib_calloc_def mul_overflow_def split_beta\<close>)
    then show ?thesis using False by simp
  qed (simp add: lfi_lib_calloc_def mul_overflow_def)
qed

text \<open>The witness: an allocator that answers the first byte of the sandbox, and a host that asks for too much.\<close>

lemma lib_pointers_in_box_witness:
  "fst (lfi_lib_malloc (\<lambda>f args s. (0x11000, s)) demo_box blank_libs 0x2000 ()) = Some 0x11000 \<and>
   lfi_lib_calloc (\<lambda>f args s. (0x11000, s)) demo_box blank_libs (2 ^ 63) 2 () = (None, ())"
proof -
  have g: "good_buffer demo_box 0x11000 (unat (0x2000 :: u64))" by (simp add: good_buffer_def demo_box_def)
  show ?thesis
    using g lib_pointers_in_box [OF demo_box_ok(1), where invoke = "\<lambda>f args s. (0x11000, s)" and syms = blank_libs
        and n = "0x2000" and s = "()" and old = 0 and count = 0]
      lib_pointers_in_box [OF demo_box_ok(1), where invoke = "\<lambda>f args s. (0x11000, s)" and syms = blank_libs
        and n = 2 and s = "()" and old = 0 and count = "2 ^ 63"]
    by (auto simp: lib_answer_def split: option.splits)
qed

end
