(* ===== verification/LinuxEngine.thy ===== *)
theory LinuxEngine
  imports Engine Dispatch
begin

text \<open>
  The engine of the Linux emulation, \<^verbatim>\<open>linux/linux.c\<close>, with the engine that libraries share, and the
  entry of system calls from the registers, \<^verbatim>\<open>linux/arch/*/sys.c\<close>.
\<close>

subsection \<open>Engines\<close>

record linux_options =
  lo_stacksize :: u64
  lo_verbose :: bool
  lo_perf :: bool
  lo_dir_maps :: "string list option"
  lo_wd :: "string option"
  lo_exit_unknown_syscalls :: bool
  lo_sys_passthrough :: bool
  lo_debug :: bool
  lo_brk_control :: bool
  lo_brk_size :: u64

record linux_engine =
  le_engine :: engine
  le_opts :: linux_options

text \<open>
  \<open>verbose\<close> and \<open>debug\<close> are the environment variables; \<open>handler\<close> is \<^verbatim>\<open>arch_syshandle\<close>, which is
  registered with the engine.
\<close>

definition lfi_linux_new ::
  "bool \<Rightarrow> string option \<Rightarrow> string option \<Rightarrow> nat \<Rightarrow> engine \<Rightarrow> linux_options \<Rightarrow> linux_engine option" where
  "lfi_linux_new ok_malloc verbose debug handler en opts =
     (if (case lo_wd opts of None \<Rightarrow> False | Some wd \<Rightarrow> \<not> cwk_path_is_absolute UNIX wd) then None
      else if \<not> ok_malloc then None
      else let opts = (if verbose = Some ''1'' then opts\<lparr>lo_verbose := True\<rparr> else opts);
               opts = (if debug = Some ''1'' then opts\<lparr>lo_debug := True\<rparr> else opts)
           in Some \<lparr>le_engine = lfi_sys_handler (Some handler) en, le_opts = opts\<rparr>)"

definition MAX_LIBRARIES :: u64 where "MAX_LIBRARIES = 4"

text \<open>The global engine, if there is one, with the address space of the host and the error state.\<close>

definition lfi_linux_lib_init ::
  "bm_env \<Rightarrow> arch \<Rightarrow> bool \<Rightarrow> bool \<Rightarrow> bool \<Rightarrow> string option \<times> string option \<Rightarrow> nat \<Rightarrow> lfi_options \<Rightarrow> linux_options \<Rightarrow>
   linux_engine option \<times> host \<times> errors \<Rightarrow> (bool \<times> linux_engine option \<times> host \<times> errors) run" where
  "lfi_linux_lib_init e ar ok_engine ok_bm ok_malloc vars handler opts linux_opts s = (case s of (lib_engine, h, er) \<Rightarrow>
     if lib_engine = None then do {
       (en, h, er) \<leftarrow> lfi_new e ar ok_engine ok_bm (fst vars) opts MAX_LIBRARIES (h, er);
       case en of
         None \<Rightarrow> Some (False, None, h, er)
       | Some en \<Rightarrow>
           (case lfi_linux_new ok_malloc (fst vars) (snd vars) handler en linux_opts of
              None \<Rightarrow> Some (False, None, h, er)
            | Some le \<Rightarrow> Some (True, Some le, h, er))
     }
     else Some (True, lib_engine, h, er))"

definition lfi_linux_lib_free :: "linux_engine option \<times> host \<Rightarrow> linux_engine option \<times> host" where
  "lfi_linux_lib_free s = (case s of
     (None, h) \<Rightarrow> (None, h)
   | (Some le, h) \<Rightarrow> (None, lfi_free (le_engine le) h))"

text \<open>Once there is a library engine, initialising again changes nothing.\<close>

lemma lib_init_again:
  "lfi_linux_lib_init e ar ok_engine ok_bm ok_malloc vars handler opts linux_opts (Some le, h, er) = Some (True, Some le, h, er)"
  by (simp add: lfi_linux_lib_init_def)

text \<open>
  When the Linux engine is refused, the engine created for it is not freed: the reservation of its
  pool stays.
\<close>

lemma lib_init_leaks:
  assumes "lfi_new e ar ok_engine ok_bm (fst vars) opts MAX_LIBRARIES (h, er) = Some (Some en, h', er')"
    and "lo_wd linux_opts = Some wd" "\<not> cwk_path_is_absolute UNIX wd"
  shows "lfi_linux_lib_init e ar ok_engine ok_bm ok_malloc vars handler opts linux_opts (None, h, er) = Some (False, None, h', er')"
  using assms by (simp add: lfi_linux_lib_init_def lfi_linux_new_def)

subsection \<open>The entry of system calls\<close>

datatype abi_reg = RAX | RDI | RSI | RDX | R10 | R8 | R9 | X nat | A nat

definition arch_syshandle :: "sys_host \<Rightarrow> bool \<Rightarrow> (abi_reg \<Rightarrow> u64) \<Rightarrow> (abi_reg \<Rightarrow> u64) sys" where
  "arch_syshandle H exit_unknown r =
     (case sh_arch H of
        X64 \<Rightarrow> sbind (syshandle H exit_unknown (r RAX) (r RDI) (r RSI) (r RDX) (r R10) (r R8) (r R9))
                 (\<lambda>v. sret (r(RAX := v)))
      | ARM64 \<Rightarrow> sbind (syshandle H exit_unknown (r (X 8)) (r (X 0)) (r (X 1)) (r (X 2)) (r (X 3)) (r (X 4)) (r (X 5)))
                 (\<lambda>v. sret (r(X 0 := v)))
      | RISCV64 \<Rightarrow> sbind (syshandle H exit_unknown (r (A 7)) (r (A 0)) (r (A 1)) (r (A 2)) (r (A 3)) (r (A 4)) (r (A 5)))
                 (\<lambda>v. sret (r(A 0 := v))))"

text \<open>Only the result register changes.\<close>

lemma arch_syshandle_regs:
  assumes "arch_syshandle H exit_unknown r s = (Inr r', s')"
  shows "\<forall>x. x \<notin> {RAX, X 0, A 0} \<longrightarrow> r' x = r x"
  using assms by (auto simp: arch_syshandle_def sbind_def sret_def split: arch.splits sum.splits prod.splits)

end
