(* ===== verification/SboxThreads.thy ===== *)
theory SboxThreads
  imports Prelude
begin

text \<open>
  Contexts of host threads in the C++ interface, \<^verbatim>\<open>sbox/lfi.cpp\<close> and \<^verbatim>\<open>sbox/include/sbox/lfi.h\<close>: each
  sandbox object has a map from thread ids to contexts, each thread a cache of the last sandbox
  it used and a list of what it is attached to. Sandboxes and threads are numbers; a pointer to
  an entry of a map is the pair of both. Using a destroyed sandbox or an erased entry is a fault.
\<close>

subsection \<open>State\<close>

record sandbox_obj =
  sx_id :: nat
  sx_alive :: bool
  sx_main_tid :: nat
  sx_main_ctx :: nat
  sx_ctxs :: "nat \<Rightarrow> nat option option"

text \<open>The thread-local variables; id 0 is "no cache".\<close>

record sandbox_tls =
  tl_last_id :: nat
  tl_last_ctxp :: "(nat \<times> nat) option"
  tl_attached :: "(nat \<times> nat) list"

text \<open>
  \<open>sb_made ! c\<close> is the sandbox and the thread for which context \<open>c\<close> was created, \<open>sb_freed\<close> are the
  contexts the runtime released.
\<close>

record sandboxes =
  sb_objs :: "sandbox_obj list"
  sb_tls :: "sandbox_tls list"
  sb_next_id :: nat
  sb_made :: "(nat \<times> nat) list"
  sb_freed :: "nat list"

definition fresh_tls :: sandbox_tls where
  "fresh_tls = \<lparr>tl_last_id = 0, tl_last_ctxp = None, tl_attached = []\<rparr>"

definition set_obj :: "nat \<Rightarrow> sandbox_obj \<Rightarrow> sandboxes \<Rightarrow> sandboxes" where
  "set_obj i x s = s\<lparr>sb_objs := (sb_objs s)[i := x]\<rparr>"

definition set_tls :: "nat \<Rightarrow> sandbox_tls \<Rightarrow> sandboxes \<Rightarrow> sandboxes" where
  "set_tls t th s = s\<lparr>sb_tls := (sb_tls s)[t := th]\<rparr>"

definition live :: "nat \<Rightarrow> sandboxes \<Rightarrow> sandbox_obj run" where
  "live i s = (if sx_alive (sb_objs s ! i) then Some (sb_objs s ! i) else None)"

text \<open>Reading an entry through a pointer; the entry may hold a null context.\<close>

definition read_entry :: "nat \<times> nat \<Rightarrow> sandboxes \<Rightarrow> nat option run" where
  "read_entry p s = do { x \<leftarrow> live (fst p) s; sx_ctxs x (snd p) }"

definition write_entry :: "nat \<times> nat \<Rightarrow> nat option \<Rightarrow> sandboxes \<Rightarrow> sandboxes run" where
  "write_entry p c s = do {
     x \<leftarrow> live (fst p) s;
     _ \<leftarrow> sx_ctxs x (snd p);
     Some (set_obj (fst p) (x\<lparr>sx_ctxs := (sx_ctxs x)(snd p \<mapsto> c)\<rparr>) s)
   }"

subsection \<open>Operations\<close>

text \<open>The sandbox of thread \<open>t\<close> with the context of its main thread.\<close>

definition create_sandbox :: "nat \<Rightarrow> sandboxes \<Rightarrow> sandboxes" where
  "create_sandbox t s =
     s\<lparr>sb_objs := sb_objs s @ [\<lparr>sx_id = sb_next_id s, sx_alive = True, sx_main_tid = t, sx_main_ctx = length (sb_made s),
         sx_ctxs = Map.empty\<rparr>],
       sb_next_id := sb_next_id s + 1, sb_made := sb_made s @ [(length (sb_objs s), t)]\<rparr>"

definition get_thread_ctx :: "nat \<Rightarrow> nat \<Rightarrow> sandboxes \<Rightarrow> ((nat \<times> nat) \<times> sandboxes) run" where
  "get_thread_ctx i t s = do {
     x \<leftarrow> live i s;
     let th = sb_tls s ! t;
     if tl_last_id th = sx_id x then do { p \<leftarrow> tl_last_ctxp th; Some (p, s) }
     else
       let inserted = (sx_ctxs x t = None);
           x = (if inserted then x\<lparr>sx_ctxs := (sx_ctxs x)(t \<mapsto>
                  (if sx_main_tid x = t then Some (sx_main_ctx x) else None))\<rparr> else x);
           th = (if inserted \<and> sx_main_tid x \<noteq> t then th\<lparr>tl_attached := tl_attached th @ [(i, t)]\<rparr> else th);
           th = th\<lparr>tl_last_id := sx_id x, tl_last_ctxp := Some (i, t)\<rparr>
       in Some ((i, t), set_tls t th (set_obj i x s))
   }"

text \<open>A call into the sandbox: without a context \<^verbatim>\<open>lfi_clone\<close> makes one for the calling thread.\<close>

definition call_ptr :: "nat \<Rightarrow> nat \<Rightarrow> sandboxes \<Rightarrow> (nat \<times> sandboxes) run" where
  "call_ptr i t s = do {
     (p, s) \<leftarrow> get_thread_ctx i t s;
     c \<leftarrow> read_entry p s;
     case c of
       Some c \<Rightarrow> Some (c, s)
     | None \<Rightarrow> do {
         let c = length (sb_made s);
         s \<leftarrow> write_entry p (Some c) (s\<lparr>sb_made := sb_made s @ [(i, t)]\<rparr>);
         Some (c, s)
       }
   }"

text \<open>\<^verbatim>\<open>stack_save\<close>, \<^verbatim>\<open>stack_push\<close>, \<^verbatim>\<open>stack_restore\<close>: the registers of the context in the entry.\<close>

definition stack_ctx :: "nat \<Rightarrow> nat \<Rightarrow> sandboxes \<Rightarrow> (nat \<times> sandboxes) run" where
  "stack_ctx i t s = do {
     (p, s) \<leftarrow> get_thread_ctx i t s;
     c \<leftarrow> read_entry p s;
     c \<leftarrow> c;
     Some (c, s)
   }"

text \<open>What the runtime frees when thread \<open>t\<close> detaches from the sandboxes in \<open>P\<close>: contexts it cloned.\<close>

definition release_ctxs :: "(nat \<Rightarrow> bool) \<Rightarrow> nat \<Rightarrow> sandboxes \<Rightarrow> sandboxes" where
  "release_ctxs P t s = s\<lparr>sb_freed :=
     filter (\<lambda>c. case sb_made s ! c of (i, u) \<Rightarrow> P i \<and> u = t \<and> c \<noteq> sx_main_ctx (sb_objs s ! i) \<and> c \<notin> set (sb_freed s))
       [0 ..< length (sb_made s)] @ sb_freed s\<rparr>"

definition cleanup_thread_exited :: "nat \<Rightarrow> nat \<Rightarrow> sandboxes \<Rightarrow> sandboxes run" where
  "cleanup_thread_exited i t s = do {
     x \<leftarrow> live i s;
     Some (set_obj i (x\<lparr>sx_ctxs := (sx_ctxs x)(t := None)\<rparr>) s)
   }"

definition detach_thread :: "nat \<Rightarrow> nat \<Rightarrow> sandboxes \<Rightarrow> sandboxes run" where
  "detach_thread i t s = do {
     x \<leftarrow> live i s;
     let s = release_ctxs (\<lambda>j. j = i) t s;
     s \<leftarrow> cleanup_thread_exited i t s;
     let th = sb_tls s ! t;
     let th = th\<lparr>tl_attached := filter (\<lambda>a. fst a \<noteq> i) (tl_attached th)\<rparr>;
     let th = (if tl_last_id th = sx_id x then th\<lparr>tl_last_id := 0, tl_last_ctxp := None\<rparr> else th);
     Some (set_tls t th s)
   }"

text \<open>The end of a thread: \<^verbatim>\<open>~ThreadCleanup\<close>, then the runtime's cleanup. Its id can be used again.\<close>

fun cleanup_attached :: "(nat \<times> nat) list \<Rightarrow> sandboxes \<Rightarrow> sandboxes run" where
  "cleanup_attached [] s = Some s"
| "cleanup_attached ((i, u) # as) s = cleanup_thread_exited i u s \<bind> cleanup_attached as"

definition end_thread :: "nat \<Rightarrow> sandboxes \<Rightarrow> sandboxes run" where
  "end_thread t s = do {
     s \<leftarrow> cleanup_attached (tl_attached (sb_tls s ! t)) s;
     Some (set_tls t fresh_tls (release_ctxs (\<lambda>j. True) t s))
   }"

text \<open>\<^verbatim>\<open>~Sandbox\<close> frees the main thread and the process.\<close>

definition destroy_sandbox :: "nat \<Rightarrow> sandboxes \<Rightarrow> sandboxes run" where
  "destroy_sandbox i s = do {
     x \<leftarrow> live i s;
     Some (set_obj i (x\<lparr>sx_alive := False\<rparr>) (s\<lparr>sb_freed := sx_main_ctx x # sb_freed s\<rparr>))
   }"

text \<open>
  \<^verbatim>\<open>create\<close> by where it ends: without an engine, without a process or its main thread, with a main thread
  whose initial run failed, or with a sandbox. The pointer frees what there is of a sandbox that failed.
\<close>

datatype create_end = NoEngine | Refused | NotRun | Created

definition sandbox_create :: "create_end \<Rightarrow> nat \<Rightarrow> sandboxes \<Rightarrow> sandboxes run" where
  "sandbox_create r t s =
     (case r of
        NoEngine \<Rightarrow> Some s
      | Refused \<Rightarrow> Some (s\<lparr>sb_next_id := sb_next_id s + 1\<rparr>)
      | NotRun \<Rightarrow> destroy_sandbox (length (sb_objs s)) (create_sandbox t s)
      | Created \<Rightarrow> Some (create_sandbox t s))"

subsection \<open>Sequences\<close>

text \<open>As documented, a thread detaches from a sandbox before that is destroyed.\<close>

datatype sbox_op = Create create_end nat | Call nat nat | GetCtx nat nat | DetachThread nat nat | EndThread nat | Destroy nat

fun sbox_do :: "sbox_op \<Rightarrow> sandboxes \<Rightarrow> sandboxes run" where
  "sbox_do (Create r t) s = sandbox_create r t s"
| "sbox_do (Call i t) s = map_option snd (call_ptr i t s)"
| "sbox_do (GetCtx i t) s = map_option snd (get_thread_ctx i t s)"
| "sbox_do (DetachThread i t) s = detach_thread i t s"
| "sbox_do (EndThread t) s = end_thread t s"
| "sbox_do (Destroy i) s = destroy_sandbox i s"

definition usable :: "nat \<Rightarrow> sandboxes \<Rightarrow> bool" where
  "usable i s \<longleftrightarrow> i < length (sb_objs s) \<and> sx_alive (sb_objs s ! i)"

fun sbox_allowed :: "sbox_op \<Rightarrow> sandboxes \<Rightarrow> bool" where
  "sbox_allowed (Create r t) s = (t < length (sb_tls s))"
| "sbox_allowed (Call i t) s = (usable i s \<and> t < length (sb_tls s))"
| "sbox_allowed (GetCtx i t) s = (usable i s \<and> t < length (sb_tls s))"
| "sbox_allowed (DetachThread i t) s = (usable i s \<and> t < length (sb_tls s))"
| "sbox_allowed (EndThread t) s = (t < length (sb_tls s))"
| "sbox_allowed (Destroy i) s = (usable i s \<and> list_all (\<lambda>th. i \<notin> fst ` set (tl_attached th)) (sb_tls s))"

inductive sbox_step :: "sandboxes \<Rightarrow> sandboxes \<Rightarrow> bool" where
  step: "sbox_allowed op s \<Longrightarrow> sbox_do op s = Some s' \<Longrightarrow> sbox_step s s'"

definition sbox_start :: "nat \<Rightarrow> sandboxes" where
  "sbox_start n = \<lparr>sb_objs = [], sb_tls = replicate n fresh_tls, sb_next_id = 1, sb_made = [], sb_freed = []\<rparr>"

subsection \<open>Invariant\<close>

definition obj_ok :: "nat \<Rightarrow> sandbox_obj \<Rightarrow> sandboxes \<Rightarrow> bool" where
  "obj_ok i x s \<longleftrightarrow> 0 < sx_id x \<and> sx_id x < sb_next_id s \<and>
     (sx_alive x \<longrightarrow>
        sx_main_ctx x < length (sb_made s) \<and> sx_main_ctx x \<notin> set (sb_freed s) \<and>
        sb_made s ! sx_main_ctx x = (i, sx_main_tid x) \<and>
        (\<forall>t c. sx_ctxs x t = Some (Some c) \<longrightarrow>
           c < length (sb_made s) \<and> sb_made s ! c = (i, t) \<and> c \<notin> set (sb_freed s)) \<and>
        (\<forall>c. sx_ctxs x (sx_main_tid x) = Some c \<longrightarrow> c = Some (sx_main_ctx x)) \<and>
        (\<forall>t. sx_ctxs x t \<noteq> None \<and> t \<noteq> sx_main_tid x \<longrightarrow> t < length (sb_tls s) \<and> (i, t) \<in> set (tl_attached (sb_tls s ! t))))"

definition tls_ok :: "nat \<Rightarrow> sandbox_tls \<Rightarrow> sandboxes \<Rightarrow> bool" where
  "tls_ok t th s \<longleftrightarrow>
     (\<forall>(i, u) \<in> set (tl_attached th). u = t \<and> i < length (sb_objs s) \<and> sx_alive (sb_objs s ! i) \<and> t \<noteq> sx_main_tid (sb_objs s ! i)) \<and>
     (\<forall>i < length (sb_objs s). sx_alive (sb_objs s ! i) \<and> tl_last_id th = sx_id (sb_objs s ! i) \<longrightarrow>
        tl_last_ctxp th = Some (i, t) \<and> sx_ctxs (sb_objs s ! i) t \<noteq> None) \<and>
     tl_last_id th < sb_next_id s"

definition sbox_inv :: "sandboxes \<Rightarrow> bool" where
  "sbox_inv s \<longleftrightarrow> distinct (map sx_id (sb_objs s)) \<and>
     (\<forall>i < length (sb_objs s). obj_ok i (sb_objs s ! i) s) \<and>
     (\<forall>t < length (sb_tls s). tls_ok t (sb_tls s ! t) s) \<and>
     (\<forall>c \<in> set (sb_freed s). c < length (sb_made s)) \<and> 0 < sb_next_id s \<and>
     (\<forall>(i, t) \<in> set (sb_made s). i < length (sb_objs s))"

lemma invD:
  assumes "sbox_inv s"
  shows "i < length (sb_objs s) \<Longrightarrow> obj_ok i (sb_objs s ! i) s" "t < length (sb_tls s) \<Longrightarrow> tls_ok t (sb_tls s ! t) s"
    "distinct (map sx_id (sb_objs s))"
  using assms by (simp_all add: sbox_inv_def)

lemma id_unique:
  "sbox_inv s \<Longrightarrow> i < length (sb_objs s) \<Longrightarrow> j < length (sb_objs s) \<Longrightarrow> sx_id (sb_objs s ! i) = sx_id (sb_objs s ! j) \<Longrightarrow> i = j"
  using invD(3) [of s] by (auto simp: distinct_conv_nth)

lemma map_update_same: "f x = f (xs ! i) \<Longrightarrow> map f (xs[i := x]) = map f xs"
  by (metis list_update_id map_update)

lemma live_usable: "usable i s \<Longrightarrow> live i s = Some (sb_objs s ! i)"
  by (simp add: usable_def live_def)

lemmas sbox_defs = set_obj_def set_tls_def

lemma get_inv:
  assumes inv: "sbox_inv s" and i: "usable i s" and t: "t < length (sb_tls s)"
  obtains s' where "get_thread_ctx i t s = Some ((i, t), s')" "sbox_inv s'" "usable i s'" "sx_ctxs (sb_objs s' ! i) t \<noteq> None"
    "length (sb_tls s') = length (sb_tls s)" "length (sb_objs s') = length (sb_objs s)" "sb_made s' = sb_made s"
    "sb_freed s' = sb_freed s"
proof (cases "tl_last_id (sb_tls s ! t) = sx_id (sb_objs s ! i)")
  case True
  then have "tl_last_ctxp (sb_tls s ! t) = Some (i, t)" "sx_ctxs (sb_objs s ! i) t \<noteq> None"
    using invD(2) [OF inv t] i by (auto simp: tls_ok_def usable_def)
  then show ?thesis using that [of s] inv i True by (simp add: get_thread_ctx_def live_usable)
next
  case False
  let ?x = "sb_objs s ! i" and ?th = "sb_tls s ! t"
  have il: "i < length (sb_objs s)" "sx_alive ?x" using i by (simp_all add: usable_def)
  note ok = invD(1) [OF inv il(1)] and tok = invD(2) [OF inv t]
  let ?in = "sx_ctxs ?x t = None"
  let ?x' = "if ?in then ?x\<lparr>sx_ctxs := (sx_ctxs ?x)(t \<mapsto> (if sx_main_tid ?x = t then Some (sx_main_ctx ?x) else None))\<rparr> else ?x"
  let ?th' = "(if ?in \<and> sx_main_tid ?x \<noteq> t then ?th\<lparr>tl_attached := tl_attached ?th @ [(i, t)]\<rparr> else ?th)
    \<lparr>tl_last_id := sx_id ?x, tl_last_ctxp := Some (i, t)\<rparr>"
  let ?s' = "set_tls t ?th' (set_obj i ?x' s)"
  have g: "get_thread_ctx i t s = Some ((i, t), ?s')"
    using False i by (simp add: get_thread_ctx_def live_usable Let_def)
  have ids: "map sx_id (sb_objs ?s') = map sx_id (sb_objs s)" by (simp add: sbox_defs map_update_same)
  have objs: "obj_ok j (sb_objs ?s' ! j) ?s'" if j: "j < length (sb_objs ?s')" for j
  proof (cases "j = i")
    case True
    then show ?thesis using ok il t by (auto simp: obj_ok_def sbox_defs nth_list_update split: if_splits)
  next
    case False
    then show ?thesis using invD(1) [OF inv, of j] j t by (auto simp: obj_ok_def sbox_defs nth_list_update)
  qed
  have tls: "tls_ok u (sb_tls ?s' ! u) ?s'" if u: "u < length (sb_tls ?s')" for u
  proof (cases "u = t")
    case True
    have uniq: "j = i" if "j < length (sb_objs s)" "sx_id ?x = sx_id (sb_objs s ! j)" for j
      using id_unique [OF inv il(1) that(1)] that(2) by simp
    have "sx_id ?x < sb_next_id s" using ok by (simp add: obj_ok_def)
    then show ?thesis using True tok il t uniq
      by (auto simp: tls_ok_def sbox_defs nth_list_update split: if_splits prod.splits)
  next
    case False
    then show ?thesis using invD(2) [OF inv, of u] u il
      by (auto simp: tls_ok_def sbox_defs nth_list_update split: if_splits prod.splits)
  qed
  have "(\<forall>c \<in> set (sb_freed ?s'). c < length (sb_made ?s')) \<and> 0 < sb_next_id ?s' \<and>
      (\<forall>(i, t) \<in> set (sb_made ?s'). i < length (sb_objs ?s'))" using inv by (simp add: sbox_inv_def sbox_defs)
  then have "sbox_inv ?s'" unfolding sbox_inv_def using ids objs tls invD(3) [OF inv] by metis
  then show ?thesis using that [OF g] il by (simp add: usable_def sbox_defs)
qed

lemma sbox_call_inv:
  assumes inv: "sbox_inv s" and i: "usable i s" and t: "t < length (sb_tls s)"
  obtains c s' where "call_ptr i t s = Some (c, s')" "sbox_inv s'" "c < length (sb_made s')" "sb_made s' ! c = (i, t)"
    "c \<notin> set (sb_freed s')"
proof (rule get_inv [OF assms])
  fix s1
  assume g: "get_thread_ctx i t s = Some ((i, t), s1)" and inv1: "sbox_inv s1" and i1: "usable i s1"
    and e: "sx_ctxs (sb_objs s1 ! i) t \<noteq> None" and len: "length (sb_tls s1) = length (sb_tls s)"
  let ?x = "sb_objs s1 ! i"
  have il: "i < length (sb_objs s1)" "sx_alive ?x" using i1 by (simp_all add: usable_def)
  note ok = invD(1) [OF inv1 il(1)]
  from e obtain cc where cc: "sx_ctxs ?x t = Some cc" by blast
  show thesis
  proof (cases cc)
    case (Some c)
    then have "call_ptr i t s = Some (c, s1)" using g cc i1 by (simp add: call_ptr_def read_entry_def live_usable)
    then show thesis using that [of c s1] inv1 ok il cc Some by (simp add: obj_ok_def)
  next
    case None
    let ?c = "length (sb_made s1)"
    let ?x' = "?x\<lparr>sx_ctxs := (sx_ctxs ?x)(t \<mapsto> Some ?c)\<rparr>"
    let ?s' = "set_obj i ?x' (s1\<lparr>sb_made := sb_made s1 @ [(i, t)]\<rparr>)"
    have r: "call_ptr i t s = Some (?c, ?s')"
      using g cc None i1 by (simp add: call_ptr_def read_entry_def write_entry_def live_def usable_def Let_def)
    have notmain: "t \<noteq> sx_main_tid ?x" using ok il cc None by (auto simp: obj_ok_def)
    have free: "c < length (sb_made s1)" if "c \<in> set (sb_freed s1)" for c using inv1 that by (simp add: sbox_inv_def)
    have ids: "map sx_id (sb_objs ?s') = map sx_id (sb_objs s1)" by (simp add: sbox_defs map_update_same)
    have objs: "obj_ok j (sb_objs ?s' ! j) ?s'" if j: "j < length (sb_objs ?s')" for j
    proof (cases "j = i")
      case True
      then show ?thesis using ok il notmain cc free [of ?c]
        by (auto simp: obj_ok_def sbox_defs nth_append intro: less_SucI split: if_splits)
    next
      case False
      then show ?thesis using invD(1) [OF inv1, of j] j by (fastforce simp: obj_ok_def sbox_defs nth_append)
    qed
    have tls: "tls_ok u (sb_tls ?s' ! u) ?s'" if u: "u < length (sb_tls ?s')" for u
      using invD(2) [OF inv1, of u] u il by (auto simp: tls_ok_def sbox_defs nth_list_update split: if_splits prod.splits)
    have "0 < sb_next_id s1" "\<forall>(i, t) \<in> set (sb_made s1). i < length (sb_objs s1)" using inv1 by (simp_all add: sbox_inv_def)
    then have "sbox_inv ?s'" unfolding sbox_inv_def using ids objs tls invD(3) [OF inv1] free il(1) by (auto simp: sbox_defs less_Suc_eq)
    then show thesis using that [OF r] free [of ?c] by (auto simp: sbox_defs)
  qed
qed

text \<open>Erasing entries of a map.\<close>

definition erased :: "(nat \<times> nat) set \<Rightarrow> nat \<Rightarrow> sandbox_obj \<Rightarrow> sandbox_obj" where
  "erased A i x = x\<lparr>sx_ctxs := (\<lambda>t. if (i, t) \<in> A then None else sx_ctxs x t)\<rparr>"

lemma erased_simps [simp]:
  "sx_id (erased A i x) = sx_id x" "sx_alive (erased A i x) = sx_alive x" "sx_main_tid (erased A i x) = sx_main_tid x"
  "sx_main_ctx (erased A i x) = sx_main_ctx x" "sx_ctxs (erased A i x) t = (if (i, t) \<in> A then None else sx_ctxs x t)"
  by (simp_all add: erased_def)

definition erases :: "(nat \<times> nat) set \<Rightarrow> sandboxes \<Rightarrow> sandboxes \<Rightarrow> bool" where
  "erases A s s' \<longleftrightarrow> sb_tls s' = sb_tls s \<and> sb_next_id s' = sb_next_id s \<and> sb_made s' = sb_made s \<and>
     sb_freed s' = sb_freed s \<and> length (sb_objs s') = length (sb_objs s) \<and>
     (\<forall>i < length (sb_objs s). sb_objs s' ! i = erased A i (sb_objs s ! i))"

lemma erased_one: "x\<lparr>sx_ctxs := (sx_ctxs x)(t := None)\<rparr> = erased {(i, t)} i x" "j \<noteq> i \<Longrightarrow> erased {(i, t)} j x = x"
  by (simp_all add: erased_def fun_upd_def)

lemma erases_one:
  assumes "usable i s"
  shows "\<exists>s'. cleanup_thread_exited i t s = Some s' \<and> erases {(i, t)} s s'"
proof -
  let ?s' = "set_obj i (erased {(i, t)} i (sb_objs s ! i)) s"
  have "cleanup_thread_exited i t s = Some ?s'"
    unfolding cleanup_thread_exited_def live_usable [OF assms] erased_one(1) [of _ t i, symmetric] by simp
  moreover have "erases {(i, t)} s ?s'" using assms by (auto simp: usable_def erases_def sbox_defs nth_list_update erased_one(2))
  ultimately show ?thesis by blast
qed

lemma erased_erased: "erased B i (erased A i x) = erased (A \<union> B) i x"
  by (cases x) (auto simp: erased_def)

lemma erases_trans: "erases A s s1 \<Longrightarrow> erases B s1 s2 \<Longrightarrow> erases (A \<union> B) s s2"
  by (simp add: erases_def erased_erased)

lemma erases_all:
  "\<forall>(i, u) \<in> set as. usable i s \<Longrightarrow> \<exists>s'. cleanup_attached as s = Some s' \<and> erases (set as) s s'"
proof (induction as arbitrary: s)
  case Nil
  then show ?case by (simp add: erases_def erased_def)
next
  case (Cons a as)
  obtain i u where a: "a = (i, u)" by (cases a)
  then obtain s1 where s1: "cleanup_thread_exited i u s = Some s1" "erases {(i, u)} s s1" using erases_one Cons.prems by force
  then have "\<forall>(j, w) \<in> set as. usable j s1" using Cons.prems by (auto simp: erases_def usable_def)
  from Cons.IH [OF this] obtain s2 where "cleanup_attached as s1 = Some s2" "erases (set as) s1 s2" by blast
  then show ?case using s1 a erases_trans [OF s1(2)] by fastforce
qed

lemma tls_okI:
  assumes "tls_ok t th s" and "sb_next_id s' = sb_next_id s" "length (sb_objs s') = length (sb_objs s)"
    and "\<And>j w. (j, w) \<in> set (tl_attached th) \<Longrightarrow> j < length (sb_objs s) \<Longrightarrow> sx_alive (sb_objs s ! j) \<Longrightarrow>
      sx_alive (sb_objs s' ! j) \<and> sx_main_tid (sb_objs s' ! j) = sx_main_tid (sb_objs s ! j)"
    and "\<And>j. j < length (sb_objs s) \<Longrightarrow> sx_alive (sb_objs s' ! j) \<Longrightarrow> sx_alive (sb_objs s ! j) \<and>
      sx_id (sb_objs s' ! j) = sx_id (sb_objs s ! j) \<and>
      (tl_last_id th = sx_id (sb_objs s ! j) \<longrightarrow> sx_ctxs (sb_objs s ! j) t \<noteq> None \<longrightarrow> sx_ctxs (sb_objs s' ! j) t \<noteq> None)"
  shows "tls_ok t th s'"
proof -
  have "u = t \<and> j < length (sb_objs s') \<and> sx_alive (sb_objs s' ! j) \<and> t \<noteq> sx_main_tid (sb_objs s' ! j)"
    if "(j, u) \<in> set (tl_attached th)" for j u
    using assms(1,3) assms(4) [OF that] that unfolding tls_ok_def by fastforce
  moreover have "tl_last_ctxp th = Some (j, t) \<and> sx_ctxs (sb_objs s' ! j) t \<noteq> None"
    if j: "j < length (sb_objs s')" "sx_alive (sb_objs s' ! j)" "tl_last_id th = sx_id (sb_objs s' ! j)" for j
  proof -
    have j': "j < length (sb_objs s)" using j(1) assms(3) by simp
    note a = assms(5) [OF j' j(2)]
    then have l: "tl_last_id th = sx_id (sb_objs s ! j)" using j(3) by simp
    then have "tl_last_ctxp th = Some (j, t)" "sx_ctxs (sb_objs s ! j) t \<noteq> None"
      using assms(1) j' a unfolding tls_ok_def by blast+
    then show ?thesis using a l by blast
  qed
  moreover have "tl_last_id th < sb_next_id s'" using assms(1,2) by (simp add: tls_ok_def)
  ultimately show ?thesis unfolding tls_ok_def by blast
qed

lemma create_inv:
  assumes inv: "sbox_inv s"
  shows "sbox_inv (create_sandbox t s)"
proof -
  let ?s' = "create_sandbox t s" and ?n = "length (sb_objs s)"
  have new: "\<forall>i < ?n. sx_id (sb_objs s ! i) < sb_next_id s" using invD(1) [OF inv] by (simp add: obj_ok_def)
  then have "distinct (map sx_id (sb_objs ?s'))"
    using invD(3) [OF inv] by (auto simp: create_sandbox_def in_set_conv_nth)
  moreover have free: "\<forall>c \<in> set (sb_freed s). c < length (sb_made s)" and pos: "0 < sb_next_id s"
      and "\<forall>(i, t) \<in> set (sb_made s). i < length (sb_objs s)"
    using inv by (simp_all add: sbox_inv_def)
  moreover have "obj_ok i (sb_objs ?s' ! i) ?s'" if "i < ?n" for i
    using invD(1) [OF inv that] that by (fastforce simp: obj_ok_def create_sandbox_def nth_append)
  moreover have "obj_ok ?n (sb_objs ?s' ! ?n) ?s'"
    using free pos by (auto simp: obj_ok_def create_sandbox_def nth_append)
  moreover have "tls_ok u (sb_tls ?s' ! u) ?s'" if u: "u < length (sb_tls s)" for u
    using invD(2) [OF inv u] by (fastforce simp: tls_ok_def create_sandbox_def nth_append less_Suc_eq)
  ultimately show ?thesis by (auto simp: sbox_inv_def create_sandbox_def less_Suc_eq)
qed

lemma destroy_inv:
  assumes inv: "sbox_inv s" and "sbox_allowed (Destroy i) s"
  shows "\<exists>s'. destroy_sandbox i s = Some s' \<and> sbox_inv s'"
proof -
  let ?x = "sb_objs s ! i"
  have i: "usable i s" "i < length (sb_objs s)" "sx_alive ?x" and none: "\<forall>th \<in> set (sb_tls s). i \<notin> fst ` set (tl_attached th)"
    using assms(2) by (auto simp: usable_def list_all_iff)
  let ?s' = "set_obj i (?x\<lparr>sx_alive := False\<rparr>) (s\<lparr>sb_freed := sx_main_ctx ?x # sb_freed s\<rparr>)"
  note ok = invD(1) [OF inv i(2)]
  have other: "c \<noteq> sx_main_ctx ?x" if "sb_made s ! c = (j, t)" "j \<noteq> i" for c j t
    using ok i that by (auto simp: obj_ok_def)
  have "distinct (map sx_id (sb_objs ?s'))" using invD(3) [OF inv] by (simp add: sbox_defs map_update_same)
  moreover have "obj_ok j (sb_objs ?s' ! j) ?s'" if j: "j < length (sb_objs s)" for j
  proof (cases "j = i")
    case False
    then have x: "sb_objs ?s' ! j = sb_objs s ! j" by (simp add: sbox_defs)
    have "sx_main_ctx (sb_objs s ! j) \<noteq> sx_main_ctx ?x" if "sx_alive (sb_objs s ! j)"
      using other [OF _ False] invD(1) [OF inv j] that by (simp add: obj_ok_def)
    moreover have "c \<noteq> sx_main_ctx ?x" if "sx_alive (sb_objs s ! j)" "sx_ctxs (sb_objs s ! j) t = Some (Some c)" for t c
      using other [OF _ False] invD(1) [OF inv j] that by (simp add: obj_ok_def)
    ultimately show ?thesis using invD(1) [OF inv j] unfolding x by (simp add: obj_ok_def sbox_defs)
  qed (use ok i in \<open>simp add: obj_ok_def sbox_defs\<close>)
  moreover have "tls_ok u (sb_tls ?s' ! u) ?s'" if u: "u < length (sb_tls s)" for u
  proof -
    have "sb_tls s ! u \<in> set (sb_tls s)" using u by simp
    then have att: "j \<noteq> i" if "(j, w) \<in> set (tl_attached (sb_tls s ! u))" for j w using none that by force
    have same: "sb_tls ?s' ! u = sb_tls s ! u" by (simp add: sbox_defs)
    show ?thesis unfolding same
      by (rule tls_okI [OF invD(2) [OF inv u]])
        (use att i(2) in \<open>auto simp: sbox_defs nth_list_update split: if_splits\<close>)
  qed
  moreover have "sx_main_ctx ?x < length (sb_made s)" using ok i by (simp add: obj_ok_def)
  ultimately have "sbox_inv ?s'" using inv by (auto simp: sbox_inv_def sbox_defs)
  then show ?thesis using i by (simp add: destroy_sandbox_def live_usable)
qed

lemma sandbox_create_inv:
  assumes inv: "sbox_inv s"
  shows "\<exists>s'. sandbox_create r t s = Some s' \<and> sbox_inv s'"
proof (cases r)
  case Refused
  have "sbox_inv (s\<lparr>sb_next_id := sb_next_id s + 1\<rparr>)"
    using inv by (auto simp: sbox_inv_def obj_ok_def tls_ok_def less_SucI)
  then show ?thesis using Refused by (simp add: sandbox_create_def)
next
  case NotRun
  let ?s' = "create_sandbox t s" and ?n = "length (sb_objs s)"
  have "?n \<notin> fst ` set (tl_attached th)" if "th \<in> set (sb_tls s)" for th
  proof -
    obtain u where "u < length (sb_tls s)" "th = sb_tls s ! u" using \<open>th \<in> set (sb_tls s)\<close> by (metis in_set_conv_nth)
    then show ?thesis using invD(2) [OF inv, of u] by (auto simp: tls_ok_def)
  qed
  then have "sbox_allowed (Destroy ?n) ?s'"
    by (auto simp: create_sandbox_def usable_def list_all_iff nth_append)
  then show ?thesis using destroy_inv [OF create_inv [OF inv]] NotRun by (simp add: sandbox_create_def)
qed (use inv create_inv in \<open>simp_all add: sandbox_create_def\<close>)

text \<open>
  A thread gives up the entries \<open>A\<close>: its own, and all that the contexts released had; its
  thread-local variables become \<open>th\<close>.
\<close>

lemma sbox_leave_inv:
  assumes inv: "sbox_inv s" and t: "t < length (sb_tls s)" and e: "erases A (release_ctxs P t s) s1"
    and A: "\<And>j u. (j, u) \<in> A \<Longrightarrow> u = t"
    and gone: "\<And>j. j < length (sb_objs s) \<Longrightarrow> sx_alive (sb_objs s ! j) \<Longrightarrow> P j \<Longrightarrow> t \<noteq> sx_main_tid (sb_objs s ! j) \<Longrightarrow>
      sx_ctxs (sb_objs s ! j) t \<noteq> None \<Longrightarrow> (j, t) \<in> A"
    and keep: "\<And>j. j < length (sb_objs s) \<Longrightarrow> sx_alive (sb_objs s ! j) \<Longrightarrow> t \<noteq> sx_main_tid (sb_objs s ! j) \<Longrightarrow>
      (j, t) \<notin> A \<Longrightarrow> (j, t) \<in> set (tl_attached (sb_tls s ! t)) \<Longrightarrow> (j, t) \<in> set (tl_attached th) \<or> sx_ctxs (sb_objs s ! j) t = None"
    and th: "set (tl_attached th) \<subseteq> set (tl_attached (sb_tls s ! t))" "tl_last_id th < sb_next_id s"
      "\<And>j. j < length (sb_objs s) \<Longrightarrow> sx_alive (sb_objs s ! j) \<Longrightarrow> tl_last_id th = sx_id (sb_objs s ! j) \<Longrightarrow>
        tl_last_id th = tl_last_id (sb_tls s ! t) \<and> tl_last_ctxp th = tl_last_ctxp (sb_tls s ! t) \<and> (j, t) \<notin> A"
  shows "sbox_inv (set_tls t th s1)"
proof -
  let ?s' = "set_tls t th s1"
  have f: "sb_tls s1 = sb_tls s" "sb_next_id s1 = sb_next_id s" "sb_made s1 = sb_made s" "length (sb_objs s1) = length (sb_objs s)"
      "\<And>i. i < length (sb_objs s) \<Longrightarrow> sb_objs s1 ! i = erased A i (sb_objs s ! i)"
    using e by (simp_all add: erases_def release_ctxs_def)
  have freed: "c \<in> set (sb_freed s1) \<longleftrightarrow> c \<in> set (sb_freed s) \<or>
      c < length (sb_made s) \<and> (\<exists>j. sb_made s ! c = (j, t) \<and> P j \<and> c \<noteq> sx_main_ctx (sb_objs s ! j))" for c
    using e by (auto simp: erases_def release_ctxs_def split: prod.splits)
  have "map sx_id (sb_objs s1) = map sx_id (sb_objs s)" by (rule nth_equalityI) (simp_all add: f)
  then have ids: "distinct (map sx_id (sb_objs ?s'))" using invD(3) [OF inv] by (simp add: sbox_defs)
  have objs: "obj_ok i (sb_objs ?s' ! i) ?s'" if i: "i < length (sb_objs s)" for i
  proof -
    note ok = invD(1) [OF inv i]
    have main: "sx_main_ctx (sb_objs s ! i) \<notin> set (sb_freed s1)" if "sx_alive (sb_objs s ! i)"
      using ok that by (auto simp: freed obj_ok_def)
    have ctx: "c \<notin> set (sb_freed s1)"
      if a: "sx_alive (sb_objs s ! i)" and c: "sx_ctxs (sb_objs s ! i) u = Some (Some c)" "(i, u) \<notin> A" for u c
    proof
      assume "c \<in> set (sb_freed s1)"
      moreover have m: "sb_made s ! c = (i, u)" "c \<notin> set (sb_freed s)" using ok a c by (simp_all add: obj_ok_def)
      ultimately have u: "u = t" "P i" "c \<noteq> sx_main_ctx (sb_objs s ! i)" by (auto simp: freed)
      then have "t \<noteq> sx_main_tid (sb_objs s ! i)" using ok a c by (auto simp: obj_ok_def)
      then show False using gone [OF i a u(2)] c u(1) by simp
    qed
    have att: "(i, u) \<in> set (tl_attached (sb_tls ?s' ! u))"
      if a: "sx_alive (sb_objs s ! i)" "sx_ctxs (sb_objs s ! i) u \<noteq> None" "(i, u) \<notin> A" "u \<noteq> sx_main_tid (sb_objs s ! i)" for u
    proof -
      have "(i, u) \<in> set (tl_attached (sb_tls s ! u))" using ok a by (simp add: obj_ok_def)
      then show ?thesis using keep [OF i a(1)] a t by (cases "u = t") (auto simp: sbox_defs f)
    qed
    show ?thesis using ok main ctx att unfolding obj_ok_def by (auto simp: sbox_defs f i split: if_splits)
  qed
  have tls: "tls_ok u (sb_tls ?s' ! u) ?s'" if u: "u < length (sb_tls s)" for u
  proof (cases "u = t")
    case False
    then have same: "sb_tls ?s' ! u = sb_tls s ! u" by (simp add: sbox_defs f)
    show ?thesis unfolding same
      by (rule tls_okI [OF invD(2) [OF inv u]]) (use A False in \<open>auto simp: sbox_defs f\<close>)
  next
    case True
    have same: "sb_tls ?s' ! t = th" using t by (simp add: sbox_defs f)
    have "tls_ok t th s"
      using invD(2) [OF inv t] th unfolding tls_ok_def by (auto 0 3)
    then show ?thesis unfolding True same
      by (rule tls_okI) (use th(3) in \<open>auto simp: sbox_defs f\<close>)
  qed
  have "c < length (sb_made s)" if "c \<in> set (sb_freed s1)" for c using inv that by (auto simp: freed sbox_inv_def)
  then show ?thesis using ids objs tls inv by (simp add: sbox_inv_def sbox_defs f)
qed

lemma release_same: "sb_tls (release_ctxs P t s) = sb_tls s" "sb_objs (release_ctxs P t s) = sb_objs s"
  by (simp_all add: release_ctxs_def)

lemma sbox_detach_inv:
  assumes inv: "sbox_inv s" and i: "usable i s" and t: "t < length (sb_tls s)"
  shows "\<exists>s'. detach_thread i t s = Some s' \<and> sbox_inv s'"
proof -
  let ?s0 = "release_ctxs (\<lambda>j. j = i) t s" and ?x = "sb_objs s ! i" and ?th = "sb_tls s ! t"
  have il: "i < length (sb_objs s)" "sx_alive ?x" using i by (simp_all add: usable_def)
  have "usable i ?s0" using i by (simp add: usable_def release_same)
  from erases_one [OF this, of t] obtain s1 where s1: "cleanup_thread_exited i t ?s0 = Some s1" "erases {(i, t)} ?s0 s1" by blast
  have tls: "sb_tls s1 = sb_tls s" using s1(2) by (simp add: erases_def release_same)
  let ?th1 = "?th\<lparr>tl_attached := filter (\<lambda>a. fst a \<noteq> i) (tl_attached ?th)\<rparr>"
  let ?th2 = "if tl_last_id ?th1 = sx_id ?x then ?th1\<lparr>tl_last_id := 0, tl_last_ctxp := None\<rparr> else ?th1"
  have r: "detach_thread i t s = Some (set_tls t ?th2 s1)"
    using i s1(1) by (simp add: detach_thread_def live_usable tls Let_def)
  have pos: "0 < sb_next_id s" "\<And>j. j < length (sb_objs s) \<Longrightarrow> sx_id (sb_objs s ! j) \<noteq> 0"
    using inv invD(1) [OF inv] by (simp_all add: sbox_inv_def obj_ok_def)
  have last: "tl_last_id ?th < sb_next_id s" using invD(2) [OF inv t] by (simp add: tls_ok_def)
  have "sbox_inv (set_tls t ?th2 s1)"
    by (rule sbox_leave_inv [OF inv t s1(2)]) (use pos(1) last il in \<open>auto simp: pos(2) split: if_splits\<close>)
  then show ?thesis using r by blast
qed

lemma release_erases:
  assumes e: "erases A s s1" and made: "\<forall>(i, u) \<in> set (sb_made s). i < length (sb_objs s)"
  shows "erases A (release_ctxs P t s) (release_ctxs P t s1)"
proof -
  have m: "sx_main_ctx (sb_objs s1 ! i) = sx_main_ctx (sb_objs s ! i)" if "sb_made s ! c = (i, u)" "c < length (sb_made s)" for c i u
  proof -
    have "(i, u) \<in> set (sb_made s)" using that nth_mem by metis
    then show ?thesis using e made by (auto simp: erases_def)
  qed
  have "(case sb_made s ! c of (i, u) \<Rightarrow> P i \<and> u = t \<and> c \<noteq> sx_main_ctx (sb_objs s1 ! i) \<and> c \<notin> set (sb_freed s)) =
      (case sb_made s ! c of (i, u) \<Rightarrow> P i \<and> u = t \<and> c \<noteq> sx_main_ctx (sb_objs s ! i) \<and> c \<notin> set (sb_freed s))"
    if "c < length (sb_made s)" for c using m [OF _ that] by (cases "sb_made s ! c") simp
  then have "filter (\<lambda>c. case sb_made s ! c of (i, u) \<Rightarrow> P i \<and> u = t \<and> c \<noteq> sx_main_ctx (sb_objs s1 ! i) \<and> c \<notin> set (sb_freed s))
      [0 ..< length (sb_made s)] =
    filter (\<lambda>c. case sb_made s ! c of (i, u) \<Rightarrow> P i \<and> u = t \<and> c \<noteq> sx_main_ctx (sb_objs s ! i) \<and> c \<notin> set (sb_freed s))
      [0 ..< length (sb_made s)]"
    by (intro filter_cong) simp_all
  then have "sb_freed (release_ctxs P t s1) = sb_freed (release_ctxs P t s)"
    using e by (simp add: erases_def release_ctxs_def)
  then show ?thesis using e by (simp add: erases_def release_ctxs_def)
qed

lemma sbox_end_inv:
  assumes inv: "sbox_inv s" and t: "t < length (sb_tls s)"
  shows "\<exists>s'. end_thread t s = Some s' \<and> sbox_inv s'"
proof -
  let ?as = "tl_attached (sb_tls s ! t)"
  have att: "\<forall>(i, u) \<in> set ?as. u = t \<and> usable i s" using invD(2) [OF inv t] by (auto simp: tls_ok_def usable_def)
  then have "\<forall>(i, u) \<in> set ?as. usable i s" by auto
  from erases_all [OF this] obtain s1 where s1: "cleanup_attached ?as s = Some s1" "erases (set ?as) s s1" by blast
  have made: "\<forall>(i, u) \<in> set (sb_made s). i < length (sb_objs s)" and pos: "0 < sb_next_id s" using inv by (simp_all add: sbox_inv_def)
  have ids: "sx_id (sb_objs s ! j) \<noteq> 0" if "j < length (sb_objs s)" for j using invD(1) [OF inv that] by (simp add: obj_ok_def)
  have own: "(j, t) \<in> set ?as"
    if "j < length (sb_objs s)" "sx_alive (sb_objs s ! j)" "t \<noteq> sx_main_tid (sb_objs s ! j)" "sx_ctxs (sb_objs s ! j) t \<noteq> None" for j
    using invD(1) [OF inv that(1)] that by (simp add: obj_ok_def)
  have "sbox_inv (set_tls t fresh_tls (release_ctxs (\<lambda>j. True) t s1))"
    by (rule sbox_leave_inv [OF inv t release_erases [OF s1(2) made]])
      (use att own pos in \<open>auto simp: fresh_tls_def ids\<close>)
  then show ?thesis using s1(1) by (simp add: end_thread_def)
qed

lemma start_sbox_inv: "sbox_inv (sbox_start n)"
  by (simp add: sbox_inv_def sbox_start_def tls_ok_def fresh_tls_def)

lemma sbox_do_inv:
  assumes "sbox_inv s" "sbox_allowed op s"
  shows "\<exists>s'. sbox_do op s = Some s' \<and> sbox_inv s'"
proof (cases op)
  case (Create r t)
  then show ?thesis using sandbox_create_inv [OF assms(1)] by simp
next
  case (Call i t)
  then have a: "usable i s" "t < length (sb_tls s)" using assms(2) by simp_all
  show ?thesis unfolding Call sbox_do.simps by (rule sbox_call_inv [OF assms(1) a]) simp
next
  case (GetCtx i t)
  then have a: "usable i s" "t < length (sb_tls s)" using assms(2) by simp_all
  show ?thesis unfolding GetCtx sbox_do.simps by (rule get_inv [OF assms(1) a]) simp
qed (use assms sbox_detach_inv sbox_end_inv destroy_inv in auto)

lemma sbox_reachable_inv: "sbox_step\<^sup>*\<^sup>* (sbox_start n) s \<Longrightarrow> sbox_inv s"
proof (induction rule: rtranclp_induct)
  case (step s s')
  from step.hyps(2) obtain op where "sbox_allowed op s" "sbox_do op s = Some s'" by cases
  then show ?case using sbox_do_inv [OF step.IH, of op] by simp
qed (simp add: start_sbox_inv)

text \<open>C6: Contexts of threads in the C++ interface. In every state that any sequence of creating and
  destroying sandboxes, calls, detaching and ends of threads reaches, where threads detach from a sandbox before it is
  destroyed and thread ids may be used again: looking up the context of a thread for a sandbox
  gives the entry of exactly this thread in the map of exactly this sandbox, also when it comes from the thread's cache, and the
  entry exists; a call runs with a context that was made for this thread and this sandbox and was
  not freed, so no two threads or sandboxes ever share one; and no operation touches a destroyed
  sandbox or an erased entry.\<close>

theorem contexts_not_shared:
  assumes "sbox_step\<^sup>*\<^sup>* (sbox_start n) s"
  shows "(\<forall>op. sbox_allowed op s \<longrightarrow> sbox_do op s \<noteq> None) \<and>
    (\<forall>i t. usable i s \<and> t < length (sb_tls s) \<longrightarrow>
       (\<exists>s'. get_thread_ctx i t s = Some ((i, t), s') \<and> read_entry (i, t) s' \<noteq> None) \<and>
       (\<exists>c s'. call_ptr i t s = Some (c, s') \<and> c < length (sb_made s') \<and> sb_made s' ! c = (i, t) \<and> c \<notin> set (sb_freed s')))"
proof -
  have inv: "sbox_inv s" by (rule sbox_reachable_inv [OF assms])
  have "\<exists>s'. get_thread_ctx i t s = Some ((i, t), s') \<and> read_entry (i, t) s' \<noteq> None"
    if "usable i s" "t < length (sb_tls s)" for i t
    by (rule get_inv [OF inv that]) (auto simp: read_entry_def live_usable)
  moreover have "\<exists>c s'. call_ptr i t s = Some (c, s') \<and> c < length (sb_made s') \<and> sb_made s' ! c = (i, t) \<and> c \<notin> set (sb_freed s')"
    if "usable i s" "t < length (sb_tls s)" for i t
    by (rule sbox_call_inv [OF inv that]) blast
  ultimately show ?thesis using sbox_do_inv [OF inv] by fastforce
qed

text \<open>
  The witness: a second thread calls into two sandboxes, detaches from one, which is destroyed, and ends.
\<close>

primrec sbox_run :: "sbox_op list \<Rightarrow> sandboxes \<Rightarrow> sandboxes run" where
  "sbox_run [] s = Some s"
| "sbox_run (op # ops) s = (if sbox_allowed op s then sbox_do op s \<bind> sbox_run ops else None)"

lemma sbox_run_steps: "sbox_run ops s = Some s' \<Longrightarrow> sbox_step\<^sup>*\<^sup>* s s'"
  by (induction ops arbitrary: s)
    (auto split: if_splits Option.bind_splits intro: converse_rtranclp_into_rtranclp sbox_step.step)

definition sbox_sample :: "sbox_op list" where
  "sbox_sample = [Create Created 0, Create Refused 1, Create Created 0, Call 0 0, Call 0 1, Call 1 1, DetachThread 0 1, Destroy 0, Call 1 1, EndThread 1, Call 1 1]"

lemma sbox_sample_run:
  "sbox_run sbox_sample (sbox_start 2) \<noteq> None \<and> sb_freed (the (sbox_run sbox_sample (sbox_start 2))) = [3, 0, 2] \<and>
   usable 1 (the (sbox_run sbox_sample (sbox_start 2))) \<and> length (sb_tls (the (sbox_run sbox_sample (sbox_start 2)))) = 2"
  by code_simp

lemma contexts_not_shared_witness:
  "\<exists>s. sbox_step\<^sup>*\<^sup>* (sbox_start 2) s \<and> sb_freed s = [3, 0, 2] \<and>
     (\<exists>c s'. call_ptr 1 1 s = Some (c, s') \<and> sb_made s' ! c = (1, 1))"
proof -
  obtain s where s: "sbox_run sbox_sample (sbox_start 2) = Some s" "sb_freed s = [3, 0, 2]" "usable 1 s" "length (sb_tls s) = 2"
    using sbox_sample_run by auto
  have "1 < length (sb_tls s)" by (simp add: s(4))
  then show ?thesis using contexts_not_shared [OF sbox_run_steps [OF s(1)]] sbox_run_steps [OF s(1)] s(2,3) by blast
qed

text \<open>
  Call contexts before the first call. A thread that has not called into a sandbox yet has a null
  context; \<^verbatim>\<open>Sandbox::context\<close> reads its stack pointer through \<^verbatim>\<open>stack_save\<close> without making one and faults, although
  a call of the same thread succeeds, and \<^verbatim>\<open>stack_save\<close> after that as well.\<close>

theorem context_before_call_faults:
  "let s = create_sandbox 0 (sbox_start 2) in
     stack_ctx 0 0 s \<noteq> None \<and> stack_ctx 0 1 s = None \<and>
     (case call_ptr 0 1 s of None \<Rightarrow> False | Some (c, s') \<Rightarrow> stack_ctx 0 1 s' \<noteq> None)"
  by (simp add: create_sandbox_def sbox_start_def stack_ctx_def call_ptr_def get_thread_ctx_def live_def read_entry_def write_entry_def
      sbox_defs fresh_tls_def Let_def numeral_2_eq_2)

end
