(* ===== verification/SboxCalls.thy ===== *)
theory SboxCalls
  imports Box Align
begin

text \<open>
  Calls of the C++ interface, \<^verbatim>\<open>sbox/include/sbox/lfi.h\<close>: how the arguments of a call reach
  registers and the sandbox's stack. The conversions of C++ types are done by the compiler; an
  argument is its 64 bits with its class.
\<close>

unbundle bit_operations_syntax

subsection \<open>Marshalling\<close>

datatype call_arg = IntArg u64 | FloatArg u64

text \<open>The argument registers and the stack pointer of a context; the two limits depend on the architecture.\<close>

record call_regs =
  cr_int :: "nat \<Rightarrow> u64"
  cr_float :: "nat \<Rightarrow> u64"
  cr_sp :: u64

definition max_int_reg_args :: "arch \<Rightarrow> nat" where
  "max_int_reg_args ar = (if ar = X64 then 6 else 8)"

definition max_float_reg_args :: nat where "max_float_reg_args = 8"

definition max_args :: nat where "max_args = 10"

definition set_int_arg :: "nat \<Rightarrow> u64 \<Rightarrow> call_regs \<Rightarrow> call_regs" where
  "set_int_arg i v r = r\<lparr>cr_int := (cr_int r)(i := v)\<rparr>"

definition set_float_arg :: "nat \<Rightarrow> u64 \<Rightarrow> call_regs \<Rightarrow> call_regs" where
  "set_float_arg i v r = r\<lparr>cr_float := (cr_float r)(i := v)\<rparr>"

text \<open>Registers, arguments for the stack, and the next registers of both classes.\<close>

type_synonym marshal = "call_regs \<times> u64 list \<times> nat \<times> nat"

fun marshal_arg :: "arch \<Rightarrow> call_arg \<Rightarrow> marshal \<Rightarrow> marshal" where
  "marshal_arg ar (FloatArg v) (r, stack, int_idx, float_idx) =
     (if float_idx < max_float_reg_args then (set_float_arg float_idx v r, stack, int_idx, float_idx + 1)
      else (r, stack @ [v], int_idx, float_idx))"
| "marshal_arg ar (IntArg v) (r, stack, int_idx, float_idx) =
     (if int_idx < max_int_reg_args ar then (set_int_arg int_idx v r, stack, int_idx + 1, float_idx)
      else (r, stack @ [v], int_idx, float_idx))"

definition marshal_args :: "arch \<Rightarrow> call_arg list \<Rightarrow> call_regs \<Rightarrow> call_regs \<times> u64 list" where
  "marshal_args ar args r = (case fold (marshal_arg ar) args (r, [], 0, 0) of (r, stack, _) \<Rightarrow> (r, stack))"

text \<open>The words go straight to memory, without a check; they are given with their addresses.\<close>

definition stage_stack_args :: "u64 list \<Rightarrow> call_regs \<Rightarrow> call_regs \<times> (u64 \<times> u64) list" where
  "stage_stack_args stack r =
     (if stack = [] then (r, [])
      else let rsp = cr_sp r;
               aligned = (rsp - 8 * of_nat (length stack)) AND NOT 0xF
           in (r\<lparr>cr_sp := aligned\<rparr>, map (\<lambda>i. (aligned + 8 * of_nat i, stack ! i)) [0 ..< length stack]))"

text \<open>
  \<^verbatim>\<open>call_ptr\<close> around the trampoline: \<open>run\<close> is what the sandbox makes of the registers. The stack pointer
  is put back to its value before the arguments were staged.
\<close>

definition call_regs_around :: "arch \<Rightarrow> (call_regs \<Rightarrow> (u64 \<times> u64) list \<Rightarrow> call_regs) \<Rightarrow> call_arg list \<Rightarrow> call_regs \<Rightarrow> call_regs" where
  "call_regs_around ar run args r =
     (let (r, stack) = marshal_args ar args r;
          saved_sp = cr_sp r;
          (r, stores) = stage_stack_args stack r;
          r = run r stores
      in r\<lparr>cr_sp := saved_sp\<rparr>)"

subsection \<open>The calling convention\<close>

text \<open>
  The reference: integer and floating-point arguments are numbered on their own; those beyond
  the registers of their class go to the stack, in the order of the call.
\<close>

definition ints_of :: "call_arg list \<Rightarrow> u64 list" where
  "ints_of args = concat (map (\<lambda>a. case a of IntArg v \<Rightarrow> [v] | FloatArg v \<Rightarrow> []) args)"

definition floats_of :: "call_arg list \<Rightarrow> u64 list" where
  "floats_of args = concat (map (\<lambda>a. case a of IntArg v \<Rightarrow> [] | FloatArg v \<Rightarrow> [v]) args)"

definition on_stack :: "arch \<Rightarrow> call_arg list \<Rightarrow> nat \<Rightarrow> bool" where
  "on_stack ar args k = (case args ! k of
     IntArg _ \<Rightarrow> max_int_reg_args ar \<le> length (ints_of (take k args))
   | FloatArg _ \<Rightarrow> max_float_reg_args \<le> length (floats_of (take k args)))"

definition bits_of :: "call_arg \<Rightarrow> u64" where
  "bits_of a = (case a of IntArg v \<Rightarrow> v | FloatArg v \<Rightarrow> v)"

definition stack_of :: "arch \<Rightarrow> call_arg list \<Rightarrow> u64 list" where
  "stack_of ar args = map (\<lambda>k. bits_of (args ! k)) (filter (on_stack ar args) [0 ..< length args])"

lemma classes_snoc [simp]:
  "ints_of (args @ [IntArg v]) = ints_of args @ [v]" "ints_of (args @ [FloatArg v]) = ints_of args"
  "floats_of (args @ [FloatArg v]) = floats_of args @ [v]" "floats_of (args @ [IntArg v]) = floats_of args"
  "ints_of [] = []" "floats_of [] = []"
  by (simp_all add: ints_of_def floats_of_def)

lemma stack_snoc:
  "stack_of ar (args @ [a]) = stack_of ar args @
     (if on_stack ar (args @ [a]) (length args) then [bits_of a] else [])"
proof -
  have "on_stack ar (args @ [a]) k = on_stack ar args k" if "k < length args" for k
    using that by (cases "args ! k") (simp_all add: on_stack_def nth_append)
  then have "filter (on_stack ar (args @ [a])) [0 ..< length args] = filter (on_stack ar args) [0 ..< length args]"
    by (intro filter_cong) simp_all
  then show ?thesis by (simp add: stack_of_def nth_append)
qed

lemma marshal_fold:
  "fold (marshal_arg ar) args (r, [], 0, 0) =
     (r\<lparr>cr_int := (\<lambda>i. if i < length (ints_of args) \<and> i < max_int_reg_args ar then ints_of args ! i else cr_int r i),
        cr_float := (\<lambda>i. if i < length (floats_of args) \<and> i < max_float_reg_args then floats_of args ! i else cr_float r i)\<rparr>,
      stack_of ar args, min (length (ints_of args)) (max_int_reg_args ar), min (length (floats_of args)) max_float_reg_args)"
proof (induction args rule: rev_induct)
  case Nil
  then show ?case by (simp add: stack_of_def)
next
  case (snoc a args)
  show ?case
    by (cases a)
      (auto simp: snoc.IH stack_snoc on_stack_def bits_of_def set_int_arg_def set_float_arg_def fun_eq_iff nth_append
        min_def not_less less_Suc_eq)
qed

lemma stage_eq:
  assumes "8 * length stack + 15 \<le> unat (cr_sp r)" "stack \<noteq> []"
  defines "q \<equiv> (unat (cr_sp r) - 8 * length stack) div 16 * 16"
  shows "stage_stack_args stack r =
      (r\<lparr>cr_sp := of_nat q\<rparr>, map (\<lambda>i. (of_nat (q + 8 * i), stack ! i)) [0 ..< length stack])"
    "q + 8 * length stack \<le> unat (cr_sp r)" "unat (cr_sp r) < q + 8 * length stack + 16"
proof -
  let ?sp = "unat (cr_sp r)" and ?n = "length stack"
  have lt: "?sp < 18446744073709551616" using unsigned_less [of "cr_sp r", where ?'a = nat] by simp
  have "8 * ?n < 18446744073709551616" using assms(1) lt by linarith
  then have "8 * ?n < 2 ^ 64" by simp
  from unat_of_nat64 [OF this] have "unat (8 * of_nat ?n :: u64) = 8 * ?n" by simp
  then have d: "unat (cr_sp r - 8 * of_nat ?n) = ?sp - 8 * ?n" using assms(1) by (simp add: unat_sub64' word_le_nat_alt)
  have a: "(cr_sp r - 8 * of_nat ?n) AND NOT 0xF = bm_truncp (cr_sp r - 8 * of_nat ?n) 16"
    using and_not_pow2 [of 4 "cr_sp r - 8 * of_nat ?n"] by (simp add: bm_truncp_def)
  have m: "?sp - 8 * ?n - (?sp - 8 * ?n) mod 16 = q" unfolding q_def by (simp add: minus_mod_eq_div_mult)
  have "unat ((cr_sp r - 8 * of_nat ?n) AND NOT 0xF) = q" unfolding a unat_bm_truncp d using m by simp
  then have al: "(cr_sp r - 8 * of_nat ?n) AND NOT 0xF = of_nat q" by (metis of_nat_unat ucast_id)
  show "stage_stack_args stack r =
      (r\<lparr>cr_sp := of_nat q\<rparr>, map (\<lambda>i. (of_nat (q + 8 * i), stack ! i)) [0 ..< length stack])"
    unfolding stage_stack_args_def Let_def al using assms(2) by simp
  show "q + 8 * ?n \<le> ?sp" unfolding m [symmetric] using assms(1) by linarith
  have "(?sp - 8 * ?n) mod 16 < 16" by simp
  then show "?sp < q + 8 * ?n + 16" unfolding m [symmetric] by linarith
qed

text \<open>C25: Arguments of a call. \<^verbatim>\<open>marshal_args_lfi\<close> and \<^verbatim>\<open>stage_stack_args\<close> place the arguments of a call as the calling convention
  says: the i-th integer argument and the i-th floating-point argument are in the i-th register of their
  class as long as there is one, other registers keep their value, and exactly the others are on the
  stack, in the order of the call, in consecutive words from an address on that is a multiple of 16, at most 15 bytes
  below the stack pointer of the caller, which has its value again after the call.\<close>

theorem call_args_placed:
  assumes "8 * length args + 15 \<le> unat (cr_sp r)"
  shows "case marshal_args ar args r of (r1, stack) \<Rightarrow> case stage_stack_args stack r1 of (r2, stores) \<Rightarrow>
    (\<forall>i. cr_int r2 i = (if i < length (ints_of args) \<and> i < max_int_reg_args ar then ints_of args ! i else cr_int r i)) \<and>
    (\<forall>i. cr_float r2 i = (if i < length (floats_of args) \<and> i < max_float_reg_args then floats_of args ! i else cr_float r i)) \<and>
    (stack_of ar args = [] \<longrightarrow> stores = [] \<and> cr_sp r2 = cr_sp r) \<and>
    (stack_of ar args \<noteq> [] \<longrightarrow> (\<exists>q. cr_sp r2 = of_nat q \<and> q mod 16 = 0 \<and>
       stores = map (\<lambda>i. (of_nat (q + 8 * i), stack_of ar args ! i)) [0 ..< length (stack_of ar args)] \<and>
       q + 8 * length (stack_of ar args) \<le> unat (cr_sp r) \<and> unat (cr_sp r) < q + 8 * length (stack_of ar args) + 16)) \<and>
    cr_sp (call_regs_around ar run args r) = cr_sp r"
proof -
  let ?r1 = "r\<lparr>cr_int := (\<lambda>i. if i < length (ints_of args) \<and> i < max_int_reg_args ar then ints_of args ! i else cr_int r i),
        cr_float := (\<lambda>i. if i < length (floats_of args) \<and> i < max_float_reg_args then floats_of args ! i else cr_float r i)\<rparr>"
  have m: "marshal_args ar args r = (?r1, stack_of ar args)" by (simp add: marshal_args_def marshal_fold)
  have sp: "cr_sp (call_regs_around ar run args r) = cr_sp r" by (simp add: call_regs_around_def m split_beta Let_def)
  have "length (filter (on_stack ar args) [0 ..< length args]) \<le> length args"
    using length_filter_le [of "on_stack ar args" "[0 ..< length args]"] by simp
  then have "8 * length (stack_of ar args) + 15 \<le> unat (cr_sp ?r1)" using assms by (simp add: stack_of_def)
  note stage = stage_eq [OF this]
  show ?thesis
  proof (cases "stack_of ar args = []")
    case True
    then show ?thesis using m sp by (simp add: stage_stack_args_def)
  next
    case False
    then show ?thesis using m sp stage [OF False] by (auto intro!: exI [where x = "(unat (cr_sp r) - 8 * length (stack_of ar args)) div 16 * 16"])
  qed
qed

text \<open>The witness: nine integer arguments and one floating-point argument on x86-64.\<close>

lemma call_args_placed_witness:
  "case marshal_args X64 (map IntArg [1, 2, 3, 4, 5, 6, 7] @ [FloatArg 9, IntArg 8])
       \<lparr>cr_int = (\<lambda>_. 0), cr_float = (\<lambda>_. 0), cr_sp = 0x1008\<rparr> of
     (r1, stack) \<Rightarrow> case stage_stack_args stack r1 of
     (r2, stores) \<Rightarrow> cr_int r2 5 = 6 \<and> cr_float r2 0 = 9"
proof -
  let ?args = "map IntArg [1, 2, 3, 4, 5, 6, 7] @ [FloatArg 9, IntArg 8]"
  let ?r = "\<lparr>cr_int = (\<lambda>_. 0), cr_float = (\<lambda>_. 0), cr_sp = 0x1008\<rparr>"
  have "8 * length ?args + 15 \<le> unat (cr_sp ?r)" by simp
  from call_args_placed [OF this, where ar = X64 and run = "\<lambda>r st. r"] show ?thesis
    by (simp add: ints_of_def floats_of_def max_int_reg_args_def max_float_reg_args_def split: prod.splits)
qed

end
