(* ===== verification/SboxMemory.thy ===== *)
theory SboxMemory
  imports BoxSteps SboxCalls LibCalls
begin

text \<open>
  Memory of the C++ interface, \<^verbatim>\<open>sbox/include/sbox/lfi.h\<close> and \<^verbatim>\<open>sbox/lfi.cpp\<close>: which pointers of the
  sandbox the host accepts, what it copies, and the objects that a call context puts on the sandbox's
  stack. An abort of the host is the same as a fault here: \<open>None\<close>. The host's own allocations (the vector or string
  that is returned) are taken to succeed.
\<close>

unbundle bit_operations_syntax

subsection \<open>Pointers and memory\<close>

text \<open>\<open>sz\<close> is the size of the element type, at compile time.\<close>

definition sbox_verify :: "lfi_box \<Rightarrow> u64 \<Rightarrow> u64 \<Rightarrow> u64 \<Rightarrow> u64 run" where
  "sbox_verify b raw count sz =
     (let (over, bytes) = mul_overflow count sz
      in if raw \<noteq> 0 \<and> (over \<or> \<not> lfi_box_bufvalid b raw bytes) then None else Some raw)"

definition sbox_alloc :: "'s invocation \<Rightarrow> lfi_box \<Rightarrow> lib_symbols \<Rightarrow> u64 \<Rightarrow> u64 \<Rightarrow> 's \<Rightarrow> u64 option \<times> 's" where
  "sbox_alloc invoke b syms count sz s =
     (let (over, bytes) = mul_overflow count sz
      in if over then (None, s) else lfi_lib_malloc invoke b syms bytes s)"

definition sbox_realloc :: "'s invocation \<Rightarrow> lfi_box \<Rightarrow> lib_symbols \<Rightarrow> u64 \<Rightarrow> u64 \<Rightarrow> u64 \<Rightarrow> 's \<Rightarrow> u64 option \<times> 's" where
  "sbox_realloc invoke b syms p count sz s =
     (let (over, bytes) = mul_overflow count sz
      in if over then (None, s) else lfi_lib_realloc invoke b syms p bytes s)"

definition check_range :: "lfi_box \<Rightarrow> u64 \<Rightarrow> u64 \<Rightarrow> unit run" where
  "check_range b p n = check (lfi_box_bufvalid b p n)"

definition sbox_copy_to :: "lfi_box \<Rightarrow> u64 \<Rightarrow> u8 list \<Rightarrow> vm \<Rightarrow> vm run" where
  "sbox_copy_to b dest bs m = do { check_range b dest (of_nat (length bs)); vm_write (bx_ps b) dest bs m }"

definition sbox_copy_from :: "lfi_box \<Rightarrow> u64 \<Rightarrow> u64 \<Rightarrow> vm \<Rightarrow> u8 list run" where
  "sbox_copy_from b src n m = do {
     check_range b src n;
     check (pages_have acc_r (bx_ps b) m src (unat n));
     Some (vm_bytes m src n)
   }"

text \<open>\<^verbatim>\<open>copy_string\<close>, for a string of the host with its final zero.\<close>

definition sbox_copy_string :: "vm invocation \<Rightarrow> lfi_box \<Rightarrow> lib_symbols \<Rightarrow> u8 list \<Rightarrow> vm \<Rightarrow> (u64 option \<times> vm) run" where
  "sbox_copy_string invoke b syms bs m =
     (case sbox_alloc invoke b syms (of_nat (length bs)) 1 m of
        (None, m) \<Rightarrow> Some (None, m)
      | (Some p, m) \<Rightarrow> do { m \<leftarrow> sbox_copy_to b p bs m; Some (Some p, m) })"

text \<open>Reading the string a second time, and the buffer, faults where the memory cannot be read.\<close>

definition sbox_read_string :: "lfi_box \<Rightarrow> vm \<Rightarrow> u64 \<Rightarrow> u64 \<Rightarrow> u8 list run" where
  "sbox_read_string b m raw n =
     (if raw = 0 then Some []
      else do {
        len \<leftarrow> lfi_box_strnlen b m raw n;
        if len = SIZE_MAX then Some []
        else do { check (pages_have acc_r (bx_ps b) m raw (unat len)); Some (vm_bytes m raw len) }
      })"

definition sbox_read_buffer :: "lfi_box \<Rightarrow> vm \<Rightarrow> u64 \<Rightarrow> u64 \<Rightarrow> u64 \<Rightarrow> u8 list run" where
  "sbox_read_buffer b m raw count sz =
     (let (over, bytes) = mul_overflow count sz
      in if raw = 0 \<or> over \<or> \<not> lfi_box_bufvalid b raw bytes then Some []
         else do { check (pages_have acc_r (bx_ps b) m raw (unat bytes)); Some (vm_bytes m raw bytes) })"

subsection \<open>More of the interface\<close>

text \<open>Symbols are looked up once.\<close>

definition sbox_lookup :: "sym_proc \<Rightarrow> u8 list \<Rightarrow> (u8 list \<rightharpoonup> u64) \<Rightarrow> (u64 \<times> (u8 list \<rightharpoonup> u64)) run" where
  "sbox_lookup p name cache =
     (case cache name of
        Some v \<Rightarrow> Some (v, cache)
      | None \<Rightarrow> do {
          v \<leftarrow> lfi_proc_sym p name;
          check (v \<noteq> 0);
          Some (v, cache(name \<mapsto> v))
        })"

text \<open>Allocations that live until the next reset.\<close>

definition idmem_alloc :: "'s invocation \<Rightarrow> lfi_box \<Rightarrow> lib_symbols \<Rightarrow> u64 \<Rightarrow> u64 \<Rightarrow> u64 list \<times> 's \<Rightarrow> u64 option \<times> u64 list \<times> 's" where
  "idmem_alloc invoke b syms count sz ps_s =
     (let (ps, s) = ps_s; (over, bytes) = mul_overflow count sz
      in if over then (None, ps, s)
         else case lfi_lib_malloc invoke b syms bytes s of
             (None, s) \<Rightarrow> (None, ps, s)
           | (Some p, s) \<Rightarrow> (Some p, ps @ [p], s))"

definition idmem_reset :: "'s invocation \<Rightarrow> lib_symbols \<Rightarrow> u64 list \<times> 's \<Rightarrow> u64 list \<times> 's" where
  "idmem_reset invoke syms ps_s = (let (ps, s) = ps_s in ([], fold (lfi_lib_free invoke syms) ps s))"

text \<open>\<^verbatim>\<open>mmap\<close> with the protection and the flags of a Linux host.\<close>

definition sbox_prot :: "u32 \<Rightarrow> u32" where
  "sbox_prot prot =
     (if has_flag prot 1 then LFI_PROT_READ else 0) OR (if has_flag prot 2 then LFI_PROT_WRITE else 0) OR
     (if has_flag prot 4 then LFI_PROT_EXEC else 0)"

definition sbox_flags :: "u32 \<Rightarrow> u32" where
  "sbox_flags flags =
     (if has_flag flags 1 then LFI_MAP_SHARED else 0) OR (if has_flag flags 2 then LFI_MAP_PRIVATE else 0) OR
     (if has_flag flags 0x10 then LFI_MAP_FIXED else 0) OR (if has_flag flags 0x20 then LFI_MAP_ANONYMOUS else 0)"

definition sbox_mmap :: "host_env \<Rightarrow> u64 \<Rightarrow> u64 \<Rightarrow> u32 \<Rightarrow> u32 \<Rightarrow> u32 \<Rightarrow> u64 \<Rightarrow> lfi_box \<times> vm \<Rightarrow> (u64 \<times> lfi_box \<times> vm) run" where
  "sbox_mmap e addr n prot flags fd off bm =
     (if has_flag flags 0x10 then lfi_box_mapat e addr n (sbox_prot prot) (sbox_flags flags) fd off bm
      else lfi_box_mapany e n (sbox_prot prot) (sbox_flags flags) fd off bm)"

definition sbox_munmap :: "host_env \<Rightarrow> u64 \<Rightarrow> u64 \<Rightarrow> lfi_box \<times> vm \<Rightarrow> int \<times> lfi_box \<times> vm" where
  "sbox_munmap e addr n bm = lfi_box_munmap e addr n bm"

subsection \<open>Checks\<close>

definition in_box_range :: "lfi_box \<Rightarrow> u64 \<Rightarrow> nat \<Rightarrow> bool" where
  "in_box_range b p n \<longleftrightarrow> unat (bx_min b) \<le> unat p \<and> unat p + n \<le> unat (bx_max b)"

lemma below_sum:
  assumes "unat (p :: u64) + n \<le> unat (sp :: u64)" "i < n"
  shows "unat (p + of_nat i) = unat p + i"
proof -
  have "unat sp < 2 ^ 64" using unsigned_less [of sp, where ?'a = nat] by simp
  then have lt: "unat p + i < 2 ^ 64" using assms by linarith
  then have "unat (of_nat i :: u64) = i" by (intro unat_of_nat64) simp
  then show ?thesis using lt by (simp add: unat_add64)
qed

lemma written_bytes:
  assumes w: "vm_write ps p bs m = Some m'" and p: "unat p + length bs \<le> unat (sp :: u64)"
  shows "vm_mem m' x = (if unat p \<le> unat x \<and> unat x < unat p + length bs then bs ! (unat x - unat p) else vm_mem m x)"
proof -
  have lt: "unat sp < 2 ^ 64" using unsigned_less [of sp, where ?'a = nat] by simp
  then have "length bs \<le> 2 ^ 64" using p by linarith
  note at = vm_write_at [OF w this]
  show ?thesis
  proof (cases "unat p \<le> unat x")
    case True
    then have "unat (x - p) = unat x - unat p" by (simp add: unat_sub64' word_le_nat_alt)
    then show ?thesis using True at [of x] by (simp add: less_diff_conv2 add.commute)
  next
    case False
    then have "unat (x - p) = 2 ^ 64 + unat x - unat p"
      by (simp add: unat_sub_if' word_le_nat_alt)
    moreover have "\<not> 2 ^ 64 + unat x - unat p < length bs" using p lt False by linarith
    ultimately show ?thesis using False at [of x] by presburger
  qed
qed

lemma in_range_iff: "box_ok b \<Longrightarrow> lfi_box_bufvalid b p n \<longleftrightarrow> in_box_range b p (unat n)"
  using bufvalid_iff [OF box_ok_min_max, of b p n] by (simp add: in_box_range_def)

text \<open>A count of elements whose product overflows is in no box.\<close>

lemma product_iff:
  assumes "box_ok b"
  shows "\<not> fst (mul_overflow count sz) \<and> lfi_box_bufvalid b p (snd (mul_overflow count sz)) \<longleftrightarrow>
    in_box_range b p (unat count * unat sz)"
    "\<not> fst (mul_overflow count sz) \<Longrightarrow> unat (snd (mul_overflow count sz)) = unat count * unat sz"
proof -
  have "unat (bx_max b) < 2 ^ 64" using unsigned_less [of "bx_max b", where ?'a = nat] by simp
  then have "2 ^ 64 \<le> unat count * unat sz \<Longrightarrow> \<not> in_box_range b p (unat count * unat sz)"
    unfolding in_box_range_def by linarith
  moreover show eq: "\<not> fst (mul_overflow count sz) \<Longrightarrow> unat (snd (mul_overflow count sz)) = unat count * unat sz"
    by (simp add: mul_overflow_def unat_word_ariths)
  ultimately show "\<not> fst (mul_overflow count sz) \<and> lfi_box_bufvalid b p (snd (mul_overflow count sz)) \<longleftrightarrow>
      in_box_range b p (unat count * unat sz)"
    using in_range_iff [OF assms, of p "snd (mul_overflow count sz)"]
    by (cases "fst (mul_overflow count sz)") (simp_all add: mul_overflow_def)
qed

lemma verify_iff:
  assumes "box_ok b"
  shows "sbox_verify b p count sz = (if p = 0 \<or> in_box_range b p (unat count * unat sz) then Some p else None)"
  using product_iff(1) [OF assms, of count sz p] by (auto simp: sbox_verify_def split_beta)

lemma read_buffer_eq:
  assumes "box_ok b"
  shows "sbox_read_buffer b m p count sz =
    (if p = 0 \<or> \<not> in_box_range b p (unat count * unat sz) then Some []
     else if pages_have acc_r (bx_ps b) m p (unat count * unat sz) then Some (vm_bytes m p (count * sz)) else None)"
  using product_iff(1) [OF assms, of count sz p] product_iff(2) [OF assms, of count sz] by (auto simp: sbox_read_buffer_def split_beta mul_overflow_def)

text \<open>What the allocator answers is in the box, for exactly the elements that were asked for.\<close>

lemma malloc_range:
  "box_ok b \<Longrightarrow> fst (lfi_lib_malloc invoke b syms n s) = Some p \<Longrightarrow> in_box_range b p (unat n)"
  "box_ok b \<Longrightarrow> fst (lfi_lib_realloc invoke b syms old n s) = Some p \<Longrightarrow> in_box_range b p (unat n)"
  using in_range_iff [of b p n]
  by (auto simp: lfi_lib_malloc_def lfi_lib_realloc_def lib_bufcheck_def split_beta split: if_splits)

lemma alloc_range:
  assumes "box_ok b"
  shows "fst (sbox_alloc invoke b syms count sz s) = Some p \<Longrightarrow> in_box_range b p (unat count * unat sz)"
    "fst (sbox_realloc invoke b syms old count sz s) = Some p \<Longrightarrow> in_box_range b p (unat count * unat sz)"
    "fst (idmem_alloc invoke b syms count sz (ps, s)) = Some p \<Longrightarrow> in_box_range b p (unat count * unat sz)"
proof -
  let ?bytes = "snd (mul_overflow count sz)"
  note n = product_iff(2) [OF assms, of count sz]
  note range = malloc_range(1) [OF assms, of invoke syms ?bytes s p] malloc_range(2) [OF assms, of invoke syms old ?bytes s p]
  show "fst (sbox_alloc invoke b syms count sz s) = Some p \<Longrightarrow> in_box_range b p (unat count * unat sz)"
    "fst (sbox_realloc invoke b syms old count sz s) = Some p \<Longrightarrow> in_box_range b p (unat count * unat sz)"
    using n range by (simp_all add: sbox_alloc_def sbox_realloc_def split_beta split: if_splits)
  show "fst (idmem_alloc invoke b syms count sz (ps, s)) = Some p \<Longrightarrow> in_box_range b p (unat count * unat sz)"
    using n range(1) by (cases "lfi_lib_malloc invoke b syms ?bytes s")
      (auto simp: idmem_alloc_def split_beta split: if_splits option.splits)
qed

lemma copy_to_bytes:
  assumes b: "box_ok b" and bs: "length bs < 2 ^ 64"
  shows "sbox_copy_to b p bs m \<noteq> None \<longleftrightarrow> in_box_range b p (length bs) \<and> pages_have acc_w (bx_ps b) m p (length bs)"
    "sbox_copy_to b p bs m = Some m' \<Longrightarrow> vm_acc m' = vm_acc m"
    "sbox_copy_to b p bs m = Some m' \<Longrightarrow>
       vm_mem m' x = (if unat p \<le> unat x \<and> unat x < unat p + length bs then bs ! (unat x - unat p) else vm_mem m x)"
proof -
  have v: "lfi_box_bufvalid b p (of_nat (length bs)) \<longleftrightarrow> in_box_range b p (length bs)"
    using in_range_iff [OF b, of p "of_nat (length bs)"] unat_of_nat64 [OF bs] by simp
  show "sbox_copy_to b p bs m \<noteq> None \<longleftrightarrow> in_box_range b p (length bs) \<and> pages_have acc_w (bx_ps b) m p (length bs)"
    by (auto simp: sbox_copy_to_def check_range_def v vm_write_def split: if_splits)
  assume "sbox_copy_to b p bs m = Some m'"
  then have w: "in_box_range b p (length bs)" "vm_write (bx_ps b) p bs m = Some m'"
    by (auto simp: sbox_copy_to_def check_range_def v split: if_splits)
  then have "unat p + length bs \<le> unat (bx_max b)" by (simp add: in_box_range_def)
  from written_bytes [OF w(2) this]
  show "vm_mem m' x = (if unat p \<le> unat x \<and> unat x < unat p + length bs then bs ! (unat x - unat p) else vm_mem m x)" .
  show "vm_acc m' = vm_acc m" using vm_write_mem(1) [OF w(2)] .
qed

lemma copy_from_eq:
  assumes "box_ok b"
  shows "sbox_copy_from b p n m =
    (if in_box_range b p (unat n) \<and> pages_have acc_r (bx_ps b) m p (unat n) then Some (vm_bytes m p n) else None)"
  using in_range_iff [OF assms] by (simp add: sbox_copy_from_def check_range_def)

text \<open>A part of what can be read can be read.\<close>

lemma pages_have_le: "pages_have A ps m p n \<Longrightarrow> k \<le> n \<Longrightarrow> pages_have A ps m p k"
  by (auto simp: pages_have_def list_all_iff)

lemma vm_bytes_string:
  assumes "length (string_at m p k) < k" "k < 2 ^ 64"
  shows "vm_bytes m p (of_nat (length (string_at m p k))) = string_at m p k"
proof -
  let ?l = "length (string_at m p k)"
  have "unat (of_nat ?l :: u64) = ?l" using assms by (intro unat_of_nat64) linarith
  then have "vm_bytes m p (of_nat ?l) = take ?l (map (\<lambda>i. vm_mem m (p + of_nat i)) [0 ..< k])"
    using assms(1) by (simp add: vm_bytes_def take_map)
  also have "\<dots> = string_at m p k" unfolding string_at_def by (rule takeWhile_eq_take [symmetric])
  finally show ?thesis .
qed

text \<open>The limit of a string: the bytes asked for, up to the end of the sandbox.\<close>

definition string_room :: "lfi_box \<Rightarrow> u64 \<Rightarrow> u64 \<Rightarrow> nat" where
  "string_room b p n = min (unat n) (unat (bx_max b) - unat p)"

lemma read_string_eq:
  fixes p n :: u64
  assumes b: "box_ok b"
  defines "room \<equiv> string_room b p n"
  shows "sbox_read_string b m p n =
    (if p = 0 \<or> \<not> in_box_range b p 1 then Some []
     else if \<not> pages_have acc_r (bx_ps b) m p (min (length (string_at m p room) + 1) room) then None
     else if length (string_at m p room) < room then Some (string_at m p room) else Some [])"
proof -
  let ?t = "string_at m p room" and ?l = "of_nat (length (string_at m p room)) :: u64"
  have pv: "lfi_box_ptrvalid b p \<longleftrightarrow> in_box_range b p 1"
    by (auto simp: lfi_box_ptrvalid_def in_box_range_def word_le_nat_alt word_less_nat_alt)
  note sl = strnlen_eq [OF box_ok_min_max [OF b], of m p n, folded string_room_def, folded room_def, unfolded pv]
  have room: "room < 2 ^ 64" unfolding room_def string_room_def by (rule le_less_trans [OF min.cobounded1], simp)
  have small: "?l \<noteq> SIZE_MAX" "unat ?l = length ?t" if "length ?t < room"
  proof -
    show u: "unat ?l = length ?t" using that room by (intro unat_of_nat64) linarith
    have "unat SIZE_MAX = 18446744073709551615" by (simp add: SIZE_MAX_def unsigned_minus_1_eq_mask mask_eq_exp_minus_1)
    then show "?l \<noteq> SIZE_MAX" using u that room by auto
  qed
  have ok: "pages_have acc_r (bx_ps b) m p (length ?t)"
    if "pages_have acc_r (bx_ps b) m p (min (length ?t + 1) room)" "length ?t < room"
    by (rule pages_have_le [OF that(1)]) (use that(2) in simp)
  show ?thesis
  proof (cases "p = 0 \<or> \<not> in_box_range b p 1 \<or> \<not> pages_have acc_r (bx_ps b) m p (min (length ?t + 1) room) \<or> \<not> length ?t < room")
    case True
    then show ?thesis by (auto simp: sbox_read_string_def sl)
  next
    case False
    then show ?thesis using small ok vm_bytes_string [of m p room] room by (simp add: sbox_read_string_def sl)
  qed
qed

lemma copy_string_spec:
  assumes b: "box_ok b" and bs: "length bs < 2 ^ 64"
  shows "case sbox_alloc invoke b syms (of_nat (length bs)) 1 m of
      (None, m1) \<Rightarrow> sbox_copy_string invoke b syms bs m = Some (None, m1)
    | (Some q, m1) \<Rightarrow> in_box_range b q (length bs) \<and>
       (if pages_have acc_w (bx_ps b) m1 q (length bs)
        then \<exists>m'. sbox_copy_string invoke b syms bs m = Some (Some q, m') \<and> (\<forall>i < length bs. vm_mem m' (q + of_nat i) = bs ! i)
        else sbox_copy_string invoke b syms bs m = None)"
proof (cases "sbox_alloc invoke b syms (of_nat (length bs)) 1 m")
  case (Pair q0 m1)
  show ?thesis
  proof (cases q0)
    case (Some q)
    have r: "in_box_range b q (length bs)"
      using alloc_range(1) [OF b, of invoke syms "of_nat (length bs)" 1 m q] Pair Some unat_of_nat64 [OF bs] by simp
    then have le: "unat q + length bs \<le> unat (bx_max b)" by (simp add: in_box_range_def)
    note to = copy_to_bytes [OF b bs, of q m1]
    show ?thesis
    proof (cases "pages_have acc_w (bx_ps b) m1 q (length bs)")
      case True
      then obtain m' where m': "sbox_copy_to b q bs m1 = Some m'" using to(1) r by blast
      then have "\<forall>i < length bs. vm_mem m' (q + of_nat i) = bs ! i" using to(3) [OF m'] below_sum [OF le] by simp
      then show ?thesis using Pair Some r True m' by (simp add: sbox_copy_string_def)
    next
      case False
      then have "sbox_copy_to b q bs m1 = None" using to(1) by blast
      then show ?thesis using Pair Some r False by (simp add: sbox_copy_string_def)
    qed
  qed (use Pair in \<open>simp add: sbox_copy_string_def\<close>)
qed

text \<open>C23: Pointers of the sandbox in the C++ interface. For a well-formed sandbox, where a range that leaves the sandbox or a product
  of more than 64 bits never passes: \<^verbatim>\<open>verify\<close> lets a pointer through exactly when it is null or all its elements lie in the
  sandbox, and aborts otherwise; \<^verbatim>\<open>read_buffer\<close> gives exactly the elements of such a buffer, and nothing for any other;
  \<^verbatim>\<open>alloc\<close>, \<^verbatim>\<open>realloc\<close> and \<^verbatim>\<open>idmem_alloc\<close> only give memory of the sandbox, whatever its allocator answers;
  \<^verbatim>\<open>copy_to\<close> succeeds exactly for a range of the sandbox that can be written, writes its bytes there and changes no other
  byte; \<^verbatim>\<open>copy_from\<close> gives exactly the bytes of a range of the sandbox that can be read, and stops the host for any other;
  \<^verbatim>\<open>read_string\<close> gives the string at a pointer into the sandbox if its zero is within the limit and the sandbox, and the empty
  string otherwise; \<^verbatim>\<open>copy_string\<close> gives null when the allocator does, and else leaves the whole string, with its zero, in
  the sandbox. Memory of the sandbox that the host cannot access stops the host in each of them (None), and nothing else does in the
  reading functions.\<close>

theorem sandbox_pointers_checked:
  assumes "box_ok b"
  shows "sbox_verify b p count sz = (if p = 0 \<or> in_box_range b p (unat count * unat sz) then Some p else None) \<and>
    sbox_read_buffer b m p count sz =
      (if p = 0 \<or> \<not> in_box_range b p (unat count * unat sz) then Some []
       else if pages_have acc_r (bx_ps b) m p (unat count * unat sz) then Some (vm_bytes m p (count * sz)) else None) \<and>
    (\<forall>q. Some q \<in> {fst (sbox_alloc invoke b syms count sz s), fst (sbox_realloc invoke b syms old count sz s),
       fst (idmem_alloc invoke b syms count sz (ps, s))} \<longrightarrow> in_box_range b q (unat count * unat sz)) \<and>
    (\<forall>bs. length bs < 2 ^ 64 \<longrightarrow>
       (sbox_copy_to b p bs m \<noteq> None \<longleftrightarrow> in_box_range b p (length bs) \<and> pages_have acc_w (bx_ps b) m p (length bs)) \<and>
       (\<forall>m'. sbox_copy_to b p bs m = Some m' \<longrightarrow> vm_acc m' = vm_acc m \<and>
          (\<forall>x. vm_mem m' x = (if unat p \<le> unat x \<and> unat x < unat p + length bs then bs ! (unat x - unat p) else vm_mem m x)))) \<and>
    (\<forall>n. sbox_copy_from b p n m =
       (if in_box_range b p (unat n) \<and> pages_have acc_r (bx_ps b) m p (unat n) then Some (vm_bytes m p n) else None)) \<and>
    (\<forall>n. sbox_read_string b m p n =
       (let room = string_room b p n; t = string_at m p room
        in if p = 0 \<or> \<not> in_box_range b p 1 then Some []
           else if \<not> pages_have acc_r (bx_ps b) m p (min (length t + 1) room) then None
           else if length t < room then Some t else Some [])) \<and>
    (\<forall>bs. length bs < 2 ^ 64 \<longrightarrow> (case sbox_alloc vinvoke b syms (of_nat (length bs)) 1 m of
         (None, m1) \<Rightarrow> sbox_copy_string vinvoke b syms bs m = Some (None, m1)
       | (Some q, m1) \<Rightarrow> in_box_range b q (length bs) \<and>
          (if pages_have acc_w (bx_ps b) m1 q (length bs)
           then \<exists>m'. sbox_copy_string vinvoke b syms bs m = Some (Some q, m') \<and>
             (\<forall>i < length bs. vm_mem m' (q + of_nat i) = bs ! i)
           else sbox_copy_string vinvoke b syms bs m = None)))"
proof (intro conjI)
  show "\<forall>q. Some q \<in> {fst (sbox_alloc invoke b syms count sz s), fst (sbox_realloc invoke b syms old count sz s),
       fst (idmem_alloc invoke b syms count sz (ps, s))} \<longrightarrow> in_box_range b q (unat count * unat sz)"
    by (intro allI impI, elim insertE emptyE) (erule alloc_range [OF assms, OF sym])+
  show "\<forall>bs. length bs < 2 ^ 64 \<longrightarrow>
       (sbox_copy_to b p bs m \<noteq> None \<longleftrightarrow> in_box_range b p (length bs) \<and> pages_have acc_w (bx_ps b) m p (length bs)) \<and>
       (\<forall>m'. sbox_copy_to b p bs m = Some m' \<longrightarrow> vm_acc m' = vm_acc m \<and>
          (\<forall>x. vm_mem m' x = (if unat p \<le> unat x \<and> unat x < unat p + length bs then bs ! (unat x - unat p) else vm_mem m x)))"
    by (intro allI impI conjI) (rule copy_to_bytes [OF assms]; assumption)+
  show "\<forall>n. sbox_read_string b m p n =
       (let room = string_room b p n; t = string_at m p room
        in if p = 0 \<or> \<not> in_box_range b p 1 then Some []
           else if \<not> pages_have acc_r (bx_ps b) m p (min (length t + 1) room) then None
           else if length t < room then Some t else Some [])"
    unfolding Let_def by (intro allI read_string_eq [OF assms])
qed (rule verify_iff [OF assms] read_buffer_eq [OF assms] | intro allI impI copy_from_eq [OF assms] copy_string_spec [OF assms])+

text \<open>The witness: arrays at the end of a small sandbox, and a count that overflows.\<close>

lemma sandbox_pointers_checked_witness:
  "sbox_verify demo_box 0x12FF0 4 4 = Some 0x12FF0 \<and> sbox_verify demo_box 0x12FF0 5 4 = None \<and>
   sbox_verify demo_box 0x12FF0 (2 ^ 62) 4 = None"
  using conjunct1 [OF sandbox_pointers_checked [OF demo_box_ok(1)], of "0x12FF0" 4 4]
    conjunct1 [OF sandbox_pointers_checked [OF demo_box_ok(1)], of "0x12FF0" 5 4]
    conjunct1 [OF sandbox_pointers_checked [OF demo_box_ok(1)], of "0x12FF0" "2 ^ 62" 4]
  by (simp add: in_box_range_def demo_box_def)

subsection \<open>Call contexts\<close>

text \<open>\<^verbatim>\<open>stack_push\<close>, for \<^verbatim>\<open>CallContext::in\<close>, \<^verbatim>\<open>out\<close> and \<^verbatim>\<open>inout\<close>: nothing is checked.\<close>

definition stack_push :: "u64 \<Rightarrow> u64 \<Rightarrow> call_regs \<Rightarrow> u64 \<times> call_regs" where
  "stack_push sz align r = (let sp = (cr_sp r - sz) AND NOT (align - 1) in (sp, r\<lparr>cr_sp := sp\<rparr>))"

text \<open>
  The stack pointer in the registers during a callback is the sandbox's own, which may be anywhere in the box. At the
  lowest address of a box the object is placed, and written by \<^verbatim>\<open>in\<close> and \<^verbatim>\<open>inout\<close>, outside of it.
\<close>

lemma stack_push_leaves_box:
  "cr_sp r = bx_min demo_box \<Longrightarrow> lfi_box_bufvalid demo_box (cr_sp r) 0 \<and>
     fst (stack_push 64 8 r) = 0x10FC0 \<and> \<not> lfi_box_bufvalid demo_box (fst (stack_push 64 8 r)) 64"
  by (simp add: stack_push_def demo_box_def lfi_box_bufvalid_def Let_def)

text \<open>
  Host objects are numbered and have their bytes; a copyback is the object, its copy in the sandbox and its size.
\<close>

type_synonym host_objs = "nat \<Rightarrow> u8 list"

record call_context =
  cc_copybacks :: "(nat \<times> u64 \<times> u64) list"
  cc_saved_sp :: u64
  cc_finalized :: bool

definition new_context :: "call_regs \<Rightarrow> call_context" where
  "new_context r = \<lparr>cc_copybacks = [], cc_saved_sp = cr_sp r, cc_finalized = False\<rparr>"

text \<open>The objects given to \<^verbatim>\<open>in\<close>, \<^verbatim>\<open>out\<close> and \<^verbatim>\<open>inout\<close>, each with its alignment.\<close>

datatype ctx_arg = PassIn nat u64 | PassOut nat u64 | PassInOut nat u64

type_synonym ctx_state = "call_context \<times> call_regs \<times> vm"

fun ctx_add :: "u64 \<Rightarrow> host_objs \<Rightarrow> ctx_arg \<Rightarrow> ctx_state \<Rightarrow> (u64 \<times> ctx_state) run" where
  "ctx_add ps host (PassOut h align) (c, r, m) =
     (let sz = of_nat (length (host h)); (p, r) = stack_push sz align r
      in Some (p, c\<lparr>cc_copybacks := cc_copybacks c @ [(h, p, sz)]\<rparr>, r, m))"
| "ctx_add ps host (PassIn h align) (c, r, m) =
     (let sz = of_nat (length (host h)); (p, r) = stack_push sz align r
      in do { m \<leftarrow> vm_write ps p (host h) m; Some (p, c, r, m) })"
| "ctx_add ps host (PassInOut h align) (c, r, m) =
     (let sz = of_nat (length (host h)); (p, r) = stack_push sz align r
      in do { m \<leftarrow> vm_write ps p (host h) m;
              Some (p, c\<lparr>cc_copybacks := cc_copybacks c @ [(h, p, sz)]\<rparr>, r, m) })"

primrec ctx_adds :: "u64 \<Rightarrow> host_objs \<Rightarrow> ctx_arg list \<Rightarrow> ctx_state \<Rightarrow> (u64 list \<times> ctx_state) run" where
  "ctx_adds ps host [] s = Some ([], s)"
| "ctx_adds ps host (a # as) s = do {
     (p, s) \<leftarrow> ctx_add ps host a s;
     (qs, s) \<leftarrow> ctx_adds ps host as s;
     Some (p # qs, s)
   }"

definition copyback :: "u64 \<Rightarrow> vm \<Rightarrow> nat \<times> u64 \<times> u64 \<Rightarrow> host_objs \<Rightarrow> host_objs run" where
  "copyback ps m cb host = (case cb of (h, p, sz) \<Rightarrow> do {
     check (pages_have acc_r ps m p (unat sz));
     Some (host(h := vm_bytes m p sz))
   })"

primrec copybacks :: "u64 \<Rightarrow> vm \<Rightarrow> (nat \<times> u64 \<times> u64) list \<Rightarrow> host_objs \<Rightarrow> host_objs run" where
  "copybacks ps m [] host = Some host"
| "copybacks ps m (cb # cbs) host = do { host \<leftarrow> copyback ps m cb host; copybacks ps m cbs host }"

definition ctx_finalize :: "u64 \<Rightarrow> vm \<Rightarrow> call_context \<times> host_objs \<Rightarrow> (call_context \<times> host_objs) run" where
  "ctx_finalize ps m ch = (case ch of (c, host) \<Rightarrow>
     if cc_finalized c then Some (c, host)
     else do { host \<leftarrow> copybacks ps m (cc_copybacks c) host; Some (c\<lparr>cc_finalized := True\<rparr>, host) })"

text \<open>\<^verbatim>\<open>~CallContext\<close>.\<close>

definition ctx_destroy :: "u64 \<Rightarrow> vm \<Rightarrow> call_context \<times> host_objs \<Rightarrow> call_regs \<Rightarrow> (host_objs \<times> call_regs) run" where
  "ctx_destroy ps m ch r = do {
     (c, host) \<leftarrow> ctx_finalize ps m ch;
     Some (host, r\<lparr>cr_sp := cc_saved_sp c\<rparr>)
   }"

lemma stack_push_bounds:
  assumes sp: "unat sz + unat align \<le> unat (cr_sp r)" and al: "align = 2 ^ k" "k < 64" and p: "stack_push sz align r = (p, r')"
  shows "r' = r\<lparr>cr_sp := p\<rparr>" "unat p mod unat align = 0" "unat p + unat sz \<le> unat (cr_sp r)"
    "unat (cr_sp r) < unat p + unat sz + unat align"
proof -
  have p': "p = bm_truncp (cr_sp r - sz) align" and r: "r' = r\<lparr>cr_sp := p\<rparr>"
    using p and_not_pow2 [OF al(2), of "cr_sp r - sz"] by (auto simp: stack_push_def Let_def bm_truncp_def al(1))
  have d: "unat (cr_sp r - sz) = unat (cr_sp r) - unat sz" using sp by (simp add: unat_sub64' word_le_nat_alt)
  have "0 < unat align" using al by (simp add: unat_gt_0)
  from bm_truncp_bounds [of align "cr_sp r - sz"] this
  have b: "unat align dvd unat p" "unat p \<le> unat (cr_sp r - sz)" "unat (cr_sp r - sz) < unat p + unat align"
    unfolding p' by (simp_all add: unat_gt_0)
  show "r' = r\<lparr>cr_sp := p\<rparr>" "unat p mod unat align = 0" using r b(1) by (simp_all add: dvd_imp_mod_0)
  show "unat p + unat sz \<le> unat (cr_sp r)" "unat (cr_sp r) < unat p + unat sz + unat align" using b(2,3) d sp by linarith+
qed

text \<open>What a list of objects needs, and where they are.\<close>

fun arg_obj :: "ctx_arg \<Rightarrow> nat" where
  "arg_obj (PassIn h _) = h" | "arg_obj (PassOut h _) = h" | "arg_obj (PassInOut h _) = h"

fun arg_align :: "ctx_arg \<Rightarrow> u64" where
  "arg_align (PassIn _ al) = al" | "arg_align (PassOut _ al) = al" | "arg_align (PassInOut _ al) = al"

fun arg_in :: "ctx_arg \<Rightarrow> bool" where
  "arg_in (PassOut _ _) = False" | "arg_in _ = True"

fun arg_out :: "ctx_arg \<Rightarrow> bool" where
  "arg_out (PassIn _ _) = False" | "arg_out _ = True"

definition arg_len :: "host_objs \<Rightarrow> ctx_arg \<Rightarrow> nat" where
  "arg_len host a = length (host (arg_obj a))"

definition ctx_room :: "host_objs \<Rightarrow> ctx_arg list \<Rightarrow> nat" where
  "ctx_room host as = sum_list (map (\<lambda>a. arg_len host a + unat (arg_align a)) as)"

definition aligns_ok :: "ctx_arg list \<Rightarrow> bool" where
  "aligns_ok as = list_all (\<lambda>a. arg_align a \<in> (\<lambda>k. 2 ^ k) ` {..< 64}) as"

text \<open>All bytes of the stack that the objects may take have a right.\<close>

definition stack_has :: "(access \<Rightarrow> bool) \<Rightarrow> u64 \<Rightarrow> vm \<Rightarrow> u64 \<Rightarrow> nat \<Rightarrow> bool" where
  "stack_has acc ps m sp room \<longleftrightarrow> (\<forall>x. unat sp \<le> unat x + room \<and> unat x < unat sp \<longrightarrow>
     acc (vm_acc m (pg ps x)) \<and> \<not> vm_past m (pg ps x))"

lemma ctx_room_simps [simp]:
  "ctx_room host [] = 0" "ctx_room host (a # as) = arg_len host a + unat (arg_align a) + ctx_room host as"
  by (simp_all add: ctx_room_def)

lemma stack_has_pages:
  assumes "stack_has acc ps m sp room" "unat sp \<le> unat p + room" "unat p + n \<le> unat sp"
  shows "pages_have acc ps m p n"
  unfolding pages_have_def list_all_iff
proof
  fix i
  assume "i \<in> set [0 ..< n]"
  then have "i < n" by simp
  then have "unat (p + of_nat i) = unat p + i" "unat p + i < unat sp" using below_sum [OF assms(3)] assms(3) by simp_all
  then show "acc (vm_acc m (pg ps (p + of_nat i))) \<and> \<not> vm_past m (pg ps (p + of_nat i))" using assms(1,2) by (simp add: stack_has_def)
qed

lemma ctx_add_spec:
  fixes r :: call_regs
  assumes room: "arg_len host a + unat (arg_align a) \<le> unat (cr_sp r)" and al: "aligns_ok [a]"
    and w: "stack_has acc_w ps m (cr_sp r) (arg_len host a + unat (arg_align a))"
  obtains p m' where
    "ctx_add ps host a (c, r, m) = Some (p, c\<lparr>cc_copybacks := cc_copybacks c @
       (if arg_out a then [(arg_obj a, p, of_nat (arg_len host a))] else [])\<rparr>, r\<lparr>cr_sp := p\<rparr>, m')"
    "unat p mod unat (arg_align a) = 0" "unat p + arg_len host a \<le> unat (cr_sp r)"
    "unat (cr_sp r) \<le> unat p + arg_len host a + unat (arg_align a)" "vm_acc m' = vm_acc m \<and> vm_past m' = vm_past m"
    "\<And>x. vm_mem m' x = (if arg_in a \<and> unat p \<le> unat x \<and> unat x < unat p + arg_len host a
       then host (arg_obj a) ! (unat x - unat p) else vm_mem m x)"
proof -
  let ?n = "arg_len host a" and ?al = "arg_align a"
  obtain k where k: "?al = 2 ^ k" "k < 64" using al by (auto simp: aligns_ok_def)
  have lt: "unat (cr_sp r) < 2 ^ 64" using unsigned_less [of "cr_sp r", where ?'a = nat] by simp
  then have "?n < 2 ^ 64" using room by linarith
  then have n: "unat (of_nat ?n :: u64) = ?n" by (rule unat_of_nat64)
  obtain p r' where push: "stack_push (of_nat ?n) ?al r = (p, r')" by (cases "stack_push (of_nat ?n) ?al r") auto
  have "unat (of_nat ?n :: u64) + unat ?al \<le> unat (cr_sp r)" using room n by simp
  note b = stack_push_bounds [OF this k push, unfolded n]
  have "pages_have acc_w ps m p ?n" by (rule stack_has_pages [OF w]) (use b(3,4) in linarith)+
  then obtain m1 where m1: "vm_write ps p (host (arg_obj a)) m = Some m1"
    using vm_write_total [of ps m p "host (arg_obj a)"] by (auto simp: arg_len_def)
  have b3: "unat p + length (host (arg_obj a)) \<le> unat (cr_sp r)" using b(3) by (simp add: arg_len_def)
  note mem = written_bytes [OF m1 b3] and acc = vm_write_mem(1) [OF m1] vm_write_frame(1) [OF m1]
  let ?m' = "if arg_in a then m1 else m"
  have "ctx_add ps host a (c, r, m) = Some (p, c\<lparr>cc_copybacks := cc_copybacks c @
       (if arg_out a then [(arg_obj a, p, of_nat ?n)] else [])\<rparr>, r\<lparr>cr_sp := p\<rparr>, ?m')"
    using push m1 b(1) by (cases a) (simp_all add: arg_len_def)
  then show ?thesis by (rule that) (use b mem acc in \<open>auto simp: arg_len_def\<close>)
qed

lemma all_less_Suc: "(\<forall>k < Suc n. P k) \<longleftrightarrow> P 0 \<and> (\<forall>k < n. P (Suc k))"
  by (auto simp: less_Suc_eq_0_disj)

lemma ctx_adds_spec:
  fixes r :: call_regs
  assumes "ctx_room host as \<le> unat (cr_sp r)" "aligns_ok as" "stack_has acc_w ps m (cr_sp r) (ctx_room host as)"
  shows "\<exists>qs c' r' m'. ctx_adds ps host as (c, r, m) = Some (qs, c', r', m') \<and> length qs = length as \<and>
    c' = c\<lparr>cc_copybacks := cc_copybacks c @
      map (\<lambda>(a, q). (arg_obj a, q, of_nat (arg_len host a))) (filter (\<lambda>(a, q). arg_out a) (zip as qs))\<rparr> \<and>
    (\<forall>k < length as. unat (qs ! k) mod unat (arg_align (as ! k)) = 0 \<and> unat (qs ! k) + arg_len host (as ! k) \<le> unat (cr_sp r) \<and>
       unat (cr_sp r) \<le> unat (qs ! k) + ctx_room host as) \<and>
    (\<forall>k j. j < k \<and> k < length as \<longrightarrow> unat (qs ! k) + arg_len host (as ! k) \<le> unat (qs ! j)) \<and>
    vm_acc m' = vm_acc m \<and> vm_past m' = vm_past m \<and>
    (\<forall>x. (\<forall>k < length as. \<not> (arg_in (as ! k) \<and> unat (qs ! k) \<le> unat x \<and> unat x < unat (qs ! k) + arg_len host (as ! k))) \<longrightarrow>
       vm_mem m' x = vm_mem m x) \<and>
    (\<forall>x. \<forall>k < length as. arg_in (as ! k) \<and> unat (qs ! k) \<le> unat x \<and> unat x < unat (qs ! k) + arg_len host (as ! k) \<longrightarrow>
       vm_mem m' x = host (arg_obj (as ! k)) ! (unat x - unat (qs ! k)))"
  using assms
proof (induction as arbitrary: c r m)
  case (Cons a as)
  have al: "aligns_ok [a]" "aligns_ok as" using Cons.prems(2) by (simp_all add: aligns_ok_def)
  have one: "arg_len host a + unat (arg_align a) \<le> unat (cr_sp r)" using Cons.prems(1) by simp
  have "stack_has acc_w ps m (cr_sp r) (arg_len host a + unat (arg_align a))"
    using Cons.prems(3) by (auto simp: stack_has_def)
  from ctx_add_spec [OF one al(1) this] obtain p m1 where a: "ctx_add ps host a (c, r, m) = Some (p, c\<lparr>cc_copybacks := cc_copybacks c @
       (if arg_out a then [(arg_obj a, p, of_nat (arg_len host a))] else [])\<rparr>, r\<lparr>cr_sp := p\<rparr>, m1)"
    and b: "unat p mod unat (arg_align a) = 0" "unat p + arg_len host a \<le> unat (cr_sp r)"
      "unat (cr_sp r) \<le> unat p + arg_len host a + unat (arg_align a)"
    and acc: "vm_acc m1 = vm_acc m \<and> vm_past m1 = vm_past m"
    and mem: "\<And>x. vm_mem m1 x = (if arg_in a \<and> unat p \<le> unat x \<and> unat x < unat p + arg_len host a
       then host (arg_obj a) ! (unat x - unat p) else vm_mem m x)" by blast
  let ?r1 = "r\<lparr>cr_sp := p\<rparr>"
  have room: "ctx_room host as \<le> unat (cr_sp ?r1)" using Cons.prems(1) b(3) by simp
  have "stack_has acc_w ps m1 (cr_sp ?r1) (ctx_room host as)"
    using Cons.prems(3) b(2,3) by (auto simp: stack_has_def acc)
  from Cons.IH [OF room al(2) this, of "c\<lparr>cc_copybacks := cc_copybacks c @
       (if arg_out a then [(arg_obj a, p, of_nat (arg_len host a))] else [])\<rparr>"]
  obtain qs c' r' m' where s: "ctx_adds ps host as (c\<lparr>cc_copybacks := cc_copybacks c @
       (if arg_out a then [(arg_obj a, p, of_nat (arg_len host a))] else [])\<rparr>, ?r1, m1) = Some (qs, c', r', m')"
    and len: "length qs = length as"
    and c': "c' = c\<lparr>cc_copybacks := (cc_copybacks c @ (if arg_out a then [(arg_obj a, p, of_nat (arg_len host a))] else [])) @
      map (\<lambda>(a, q). (arg_obj a, q, of_nat (arg_len host a))) (filter (\<lambda>(a, q). arg_out a) (zip as qs))\<rparr>"
    and q: "\<And>k. k < length as \<Longrightarrow> unat (qs ! k) mod unat (arg_align (as ! k)) = 0 \<and> unat (qs ! k) + arg_len host (as ! k) \<le> unat p \<and>
       unat p \<le> unat (qs ! k) + ctx_room host as"
    and dis: "\<And>j k. j < k \<Longrightarrow> k < length as \<Longrightarrow> unat (qs ! k) + arg_len host (as ! k) \<le> unat (qs ! j)"
    and acc': "vm_acc m' = vm_acc m1 \<and> vm_past m' = vm_past m1"
    and keep: "\<And>x. (\<forall>k < length as. \<not> (arg_in (as ! k) \<and> unat (qs ! k) \<le> unat x \<and> unat x < unat (qs ! k) + arg_len host (as ! k))) \<Longrightarrow>
       vm_mem m' x = vm_mem m1 x"
    and put: "\<And>x k. k < length as \<Longrightarrow> arg_in (as ! k) \<and> unat (qs ! k) \<le> unat x \<and> unat x < unat (qs ! k) + arg_len host (as ! k) \<Longrightarrow>
       vm_mem m' x = host (arg_obj (as ! k)) ! (unat x - unat (qs ! k))"
    by auto
  have all: "ctx_adds ps host (a # as) (c, r, m) = Some (p # qs, c', r', m')" using a s by simp
  have above: "vm_mem m' x = vm_mem m1 x" if "unat p \<le> unat x" for x
    by (rule keep) (use q that in fastforce)
  have k0: "\<forall>k < length (a # as). unat ((p # qs) ! k) mod unat (arg_align ((a # as) ! k)) = 0 \<and>
      unat ((p # qs) ! k) + arg_len host ((a # as) ! k) \<le> unat (cr_sp r) \<and> unat (cr_sp r) \<le> unat ((p # qs) ! k) + ctx_room host (a # as)"
    using b q by (fastforce simp: nth_Cons split: nat.splits)
  moreover have "\<forall>k j. j < k \<and> k < length (a # as) \<longrightarrow> unat ((p # qs) ! k) + arg_len host ((a # as) ! k) \<le> unat ((p # qs) ! j)"
    using dis q by (auto simp: nth_Cons split: nat.splits)
  moreover have "\<forall>x. (\<forall>k < length (a # as). \<not> (arg_in ((a # as) ! k) \<and> unat ((p # qs) ! k) \<le> unat x \<and>
      unat x < unat ((p # qs) ! k) + arg_len host ((a # as) ! k))) \<longrightarrow> vm_mem m' x = vm_mem m x"
    using keep mem by (auto simp: all_less_Suc)
  moreover have "\<forall>x. \<forall>k < length (a # as). arg_in ((a # as) ! k) \<and> unat ((p # qs) ! k) \<le> unat x \<and>
      unat x < unat ((p # qs) ! k) + arg_len host ((a # as) ! k) \<longrightarrow>
      vm_mem m' x = host (arg_obj ((a # as) ! k)) ! (unat x - unat ((p # qs) ! k))"
    using put above mem by (auto simp: nth_Cons split: nat.splits)
  ultimately show ?case using all len acc acc' c' by (intro exI [where x = "p # qs"]) auto
qed simp

lemma copybacks_spec:
  assumes "distinct (map fst cbs)" "\<forall>(h, p, sz) \<in> set cbs. pages_have acc_r ps m p (unat sz)"
  shows "\<exists>host'. copybacks ps m cbs host = Some host' \<and> (\<forall>(h, p, sz) \<in> set cbs. host' h = vm_bytes m p sz) \<and>
    (\<forall>h. h \<notin> fst ` set cbs \<longrightarrow> host' h = host h)"
  using assms
proof (induction cbs arbitrary: host)
  case (Cons cb cbs)
  obtain h p sz where cb: "cb = (h, p, sz)" by (cases cb) auto
  have new: "h \<notin> fst ` set cbs" using Cons.prems(1) by (simp add: cb)
  have "distinct (map fst cbs)" "\<forall>(h, p, sz) \<in> set cbs. pages_have acc_r ps m p (unat sz)" using Cons.prems by simp_all
  from Cons.IH [OF this, of "host(h := vm_bytes m p sz)"] obtain host' where
    h': "copybacks ps m cbs (host(h := vm_bytes m p sz)) = Some host'" "\<forall>(h, p, sz) \<in> set cbs. host' h = vm_bytes m p sz"
      "\<forall>h'. h' \<notin> fst ` set cbs \<longrightarrow> host' h' = (host(h := vm_bytes m p sz)) h'" by blast
  then show ?case using Cons.prems(2) new by (auto simp: cb copyback_def)
qed simp

definition objects_of :: "host_objs \<Rightarrow> ctx_arg list \<Rightarrow> u64 list \<Rightarrow> (nat \<times> u64 \<times> u64) list" where
  "objects_of host as qs =
     map (\<lambda>(a, q). (arg_obj a, q, of_nat (arg_len host a))) (filter (\<lambda>(a, q). arg_out a) (zip as qs))"

lemma objects_of_set:
  assumes "length qs = length as"
  shows "(h, q, n) \<in> set (objects_of host as qs) \<longleftrightarrow>
    (\<exists>k < length as. arg_out (as ! k) \<and> h = arg_obj (as ! k) \<and> q = qs ! k \<and> n = of_nat (arg_len host (as ! k)))"
  using assms by (auto simp: objects_of_def set_zip image_iff)

lemma objects_of_fst:
  "length qs = length as \<Longrightarrow> map fst (objects_of host as qs) = map arg_obj (filter arg_out as)"
proof (induction as arbitrary: qs)
  case (Cons a as)
  then show ?case by (cases qs) (simp_all add: objects_of_def)
qed (simp add: objects_of_def)

lemma finalize_spec:
  assumes len: "length qs = length as" and c: "cc_copybacks c = objects_of host0 as qs" "\<not> cc_finalized c"
    and d: "distinct (map arg_obj (filter arg_out as))"
    and room: "ctx_room host0 as \<le> unat sp" and r: "stack_has acc_r ps m sp (ctx_room host0 as)"
    and q: "\<forall>k < length as. unat (qs ! k) + arg_len host0 (as ! k) \<le> unat sp \<and> unat sp \<le> unat (qs ! k) + ctx_room host0 as"
  shows "\<exists>host'. ctx_finalize ps m (c, host) = Some (c\<lparr>cc_finalized := True\<rparr>, host') \<and>
    (\<forall>k < length as. arg_out (as ! k) \<longrightarrow> host' (arg_obj (as ! k)) = vm_bytes m (qs ! k) (of_nat (arg_len host0 (as ! k)))) \<and>
    (\<forall>h. h \<notin> arg_obj ` set (filter arg_out as) \<longrightarrow> host' h = host h)"
proof -
  have dist: "distinct (map fst (cc_copybacks c))" using d by (simp add: c(1) objects_of_fst [OF len])
  have lt: "unat sp < 2 ^ 64" using unsigned_less [of sp, where ?'a = nat] by simp
  have n: "unat (of_nat (arg_len host0 (as ! k)) :: u64) = arg_len host0 (as ! k)" if k: "k < length as" for k
  proof (rule unat_of_nat64)
    have "unat (qs ! k) + arg_len host0 (as ! k) \<le> unat sp" using q k by blast
    then show "arg_len host0 (as ! k) < 2 ^ 64" using lt by linarith
  qed
  have "pages_have acc_r ps m (qs ! k) (unat (of_nat (arg_len host0 (as ! k)) :: u64))" if k: "k < length as" for k
    unfolding n [OF k] by (rule stack_has_pages [OF r]) (use q k in simp_all)
  then have "\<forall>(h, p, sz) \<in> set (cc_copybacks c). pages_have acc_r ps m p (unat sz)"
    by (auto simp: c(1) objects_of_set [OF len])
  from copybacks_spec [OF dist this, of host] obtain host' where h: "copybacks ps m (cc_copybacks c) host = Some host'"
    "\<forall>(h, p, sz) \<in> set (cc_copybacks c). host' h = vm_bytes m p sz" "\<forall>h. h \<notin> fst ` set (cc_copybacks c) \<longrightarrow> host' h = host h"
    by blast
  have set: "fst ` set (cc_copybacks c) = arg_obj ` set (filter arg_out as)"
    using objects_of_fst [OF len, of host0] by (metis c(1) set_map)
  have "host' (arg_obj (as ! k)) = vm_bytes m (qs ! k) (of_nat (arg_len host0 (as ! k)))"
    if "k < length as" "arg_out (as ! k)" for k
  proof -
    have "(arg_obj (as ! k), qs ! k, of_nat (arg_len host0 (as ! k))) \<in> set (cc_copybacks c)"
      unfolding c(1) objects_of_set [OF len] using that by blast
    then show ?thesis using h(2) by blast
  qed
  then show ?thesis using h(1,3) c(2) by (simp add: ctx_finalize_def set)
qed

text \<open>C24: Objects of a call context. Where the stack has room for the objects and their alignments and is writable,
  \<^verbatim>\<open>in\<close>, \<^verbatim>\<open>out\<close> and \<^verbatim>\<open>inout\<close> place them aligned and disjoint, one below the other, under the stack pointer; the objects of
  \<^verbatim>\<open>in\<close> and \<^verbatim>\<open>inout\<close> have the bytes of the host, and no other memory changes. After the call, whatever memory
  and registers it leaves, \<^verbatim>\<open>finalize\<close> gives every distinct host object of \<^verbatim>\<open>out\<close> and \<^verbatim>\<open>inout\<close> the bytes of its copy and
  changes no other; a second time, as from the destructor, it changes nothing, and the destructor restores the stack pointer.\<close>

theorem call_context_objects:
  assumes room: "ctx_room host as \<le> unat (cr_sp r)" and al: "aligns_ok as"
    and w: "stack_has acc_w ps m (cr_sp r) (ctx_room host as)"
  shows "\<exists>qs c r' m'. ctx_adds ps host as (new_context r, r, m) = Some (qs, c, r', m') \<and> length qs = length as \<and>
    (\<forall>k < length as. unat (qs ! k) mod unat (arg_align (as ! k)) = 0 \<and> unat (qs ! k) + arg_len host (as ! k) \<le> unat (cr_sp r)) \<and>
    (\<forall>k j. j < k \<and> k < length as \<longrightarrow> unat (qs ! k) + arg_len host (as ! k) \<le> unat (qs ! j)) \<and>
    (\<forall>x. (\<forall>k < length as. \<not> (arg_in (as ! k) \<and> unat (qs ! k) \<le> unat x \<and> unat x < unat (qs ! k) + arg_len host (as ! k))) \<longrightarrow>
       vm_mem m' x = vm_mem m x) \<and>
    (\<forall>k < length as. arg_in (as ! k) \<longrightarrow> vm_bytes m' (qs ! k) (of_nat (arg_len host (as ! k))) = host (arg_obj (as ! k))) \<and>
    (\<forall>m2 r2. distinct (map arg_obj (filter arg_out as)) \<and> stack_has acc_r ps m2 (cr_sp r) (ctx_room host as) \<longrightarrow>
       (\<exists>c2 host2. ctx_finalize ps m2 (c, host) = Some (c2, host2) \<and>
          (\<forall>k < length as. arg_out (as ! k) \<longrightarrow>
             host2 (arg_obj (as ! k)) = vm_bytes m2 (qs ! k) (of_nat (arg_len host (as ! k)))) \<and>
          (\<forall>h. h \<notin> arg_obj ` set (filter arg_out as) \<longrightarrow> host2 h = host h) \<and>
          (\<forall>m3. ctx_finalize ps m3 (c2, host2) = Some (c2, host2) \<and>
             ctx_destroy ps m3 (c2, host2) r2 = Some (host2, r2\<lparr>cr_sp := cr_sp r\<rparr>))))"
proof -
  from ctx_adds_spec [OF room al w, of "new_context r"] obtain qs c r' m' where
    s: "ctx_adds ps host as (new_context r, r, m) = Some (qs, c, r', m')" and len: "length qs = length as"
    and c: "c = (new_context r)\<lparr>cc_copybacks := objects_of host as qs\<rparr>"
    and q: "\<forall>k < length as. unat (qs ! k) mod unat (arg_align (as ! k)) = 0 \<and> unat (qs ! k) + arg_len host (as ! k) \<le> unat (cr_sp r) \<and>
       unat (cr_sp r) \<le> unat (qs ! k) + ctx_room host as"
    and dis: "\<forall>k j. j < k \<and> k < length as \<longrightarrow> unat (qs ! k) + arg_len host (as ! k) \<le> unat (qs ! j)"
    and keep: "\<forall>x. (\<forall>k < length as. \<not> (arg_in (as ! k) \<and> unat (qs ! k) \<le> unat x \<and> unat x < unat (qs ! k) + arg_len host (as ! k))) \<longrightarrow>
       vm_mem m' x = vm_mem m x"
    and put: "\<forall>x. \<forall>k < length as. arg_in (as ! k) \<and> unat (qs ! k) \<le> unat x \<and> unat x < unat (qs ! k) + arg_len host (as ! k) \<longrightarrow>
       vm_mem m' x = host (arg_obj (as ! k)) ! (unat x - unat (qs ! k))"
    by (auto simp: objects_of_def new_context_def)
  have lt: "unat (cr_sp r) < 2 ^ 64" using unsigned_less [of "cr_sp r", where ?'a = nat] by simp
  have copy: "vm_bytes m' (qs ! k) (of_nat (arg_len host (as ! k))) = host (arg_obj (as ! k))"
    if k: "k < length as" "arg_in (as ! k)" for k
  proof -
    have qk: "unat (qs ! k) + arg_len host (as ! k) \<le> unat (cr_sp r)" using q k by blast
    then have "arg_len host (as ! k) < 2 ^ 64" using lt by linarith
    then have n: "unat (of_nat (arg_len host (as ! k)) :: u64) = arg_len host (as ! k)" by (rule unat_of_nat64)
    show ?thesis
    proof (rule nth_equalityI)
      show "length (vm_bytes m' (qs ! k) (of_nat (arg_len host (as ! k)))) = length (host (arg_obj (as ! k)))"
        using n by (simp add: vm_bytes_def arg_len_def)
      fix i
      assume "i < length (vm_bytes m' (qs ! k) (of_nat (arg_len host (as ! k))))"
      then have i: "i < arg_len host (as ! k)" using n by (simp add: vm_bytes_def)
      then show "vm_bytes m' (qs ! k) (of_nat (arg_len host (as ! k))) ! i = host (arg_obj (as ! k)) ! i"
        using put k below_sum [OF qk i] n by (simp add: vm_bytes_def)
    qed
  qed
  have returned: "\<exists>c2 host2. ctx_finalize ps m2 (c, host) = Some (c2, host2) \<and>
      (\<forall>k < length as. arg_out (as ! k) \<longrightarrow> host2 (arg_obj (as ! k)) = vm_bytes m2 (qs ! k) (of_nat (arg_len host (as ! k)))) \<and>
      (\<forall>h. h \<notin> arg_obj ` set (filter arg_out as) \<longrightarrow> host2 h = host h) \<and>
      (\<forall>m3. ctx_finalize ps m3 (c2, host2) = Some (c2, host2) \<and>
         ctx_destroy ps m3 (c2, host2) r2 = Some (host2, r2\<lparr>cr_sp := cr_sp r\<rparr>))"
    if d: "distinct (map arg_obj (filter arg_out as))" and rd: "stack_has acc_r ps m2 (cr_sp r) (ctx_room host as)" for m2 r2
  proof -
    have cb: "cc_copybacks c = objects_of host as qs" "\<not> cc_finalized c" "cc_saved_sp c = cr_sp r"
      by (simp_all add: c new_context_def)
    obtain host2 where h: "ctx_finalize ps m2 (c, host) = Some (c\<lparr>cc_finalized := True\<rparr>, host2)"
      "\<forall>k < length as. arg_out (as ! k) \<longrightarrow> host2 (arg_obj (as ! k)) = vm_bytes m2 (qs ! k) (of_nat (arg_len host (as ! k)))"
      "\<forall>h. h \<notin> arg_obj ` set (filter arg_out as) \<longrightarrow> host2 h = host h"
      using finalize_spec [OF len cb(1,2) d room rd, of host] q by blast
    have "ctx_finalize ps m3 (c\<lparr>cc_finalized := True\<rparr>, host2) = Some (c\<lparr>cc_finalized := True\<rparr>, host2) \<and>
        ctx_destroy ps m3 (c\<lparr>cc_finalized := True\<rparr>, host2) r2 = Some (host2, r2\<lparr>cr_sp := cr_sp r\<rparr>)" for m3
      by (simp add: ctx_finalize_def ctx_destroy_def cb(3))
    then show ?thesis using h by blast
  qed
  have "\<forall>k < length as. unat (qs ! k) mod unat (arg_align (as ! k)) = 0 \<and> unat (qs ! k) + arg_len host (as ! k) \<le> unat (cr_sp r)"
    using q by blast
  then show ?thesis
    using s len dis keep copy returned by (intro exI [where x = qs] exI [where x = c] exI [where x = r'] exI [where x = m']) blast
qed

text \<open>The witness: an object in both directions and one out, below address 0x2000 of a writable page.\<close>

definition sample_objs :: host_objs where
  "sample_objs h = (if h = 0 then [1, 2, 3, 4] else [0, 0])"

definition sample_mem :: vm where
  "sample_mem = \<lparr>vm_acc = (\<lambda>_. \<lparr>acc_r = True, acc_w = True, acc_x = False\<rparr>), vm_file = (\<lambda>_. False),
     vm_past = (\<lambda>_. False), vm_mem = (\<lambda>_. 7), vm_calls = 0, vm_fault = False\<rparr>"

lemma call_context_objects_witness:
  "\<exists>qs c r' m'. ctx_adds 0x1000 sample_objs [PassInOut 0 8, PassOut 1 2]
       (new_context \<lparr>cr_int = (\<lambda>_. 0), cr_float = (\<lambda>_. 0), cr_sp = 0x2000\<rparr>, \<lparr>cr_int = (\<lambda>_. 0), cr_float = (\<lambda>_. 0), cr_sp = 0x2000\<rparr>,
        sample_mem) = Some (qs, c, r', m') \<and>
     vm_bytes m' (qs ! 0) 4 = [1, 2, 3, 4] \<and>
     (\<exists>c2 host2. ctx_finalize 0x1000 sample_mem (c, sample_objs) = Some (c2, host2) \<and>
        host2 1 = vm_bytes sample_mem (qs ! 1) 2)"
proof -
  let ?r = "\<lparr>cr_int = (\<lambda>_. 0), cr_float = (\<lambda>_. 0), cr_sp = 0x2000\<rparr>" and ?as = "[PassInOut 0 8, PassOut 1 2]"
  have room: "ctx_room sample_objs ?as \<le> unat (cr_sp ?r)" by (simp add: arg_len_def sample_objs_def)
  have "8 \<in> (\<lambda>k. (2 :: u64) ^ k) ` {..< 64}" by (rule image_eqI [where x = 3]) simp_all
  moreover have "2 \<in> (\<lambda>k. (2 :: u64) ^ k) ` {..< 64}" by (rule image_eqI [where x = 1]) simp_all
  ultimately have al: "aligns_ok ?as" by (simp add: aligns_ok_def)
  have w: "stack_has acc_w 0x1000 sample_mem (cr_sp ?r) (ctx_room sample_objs ?as)"
    "stack_has acc_r 0x1000 sample_mem (cr_sp ?r) (ctx_room sample_objs ?as)"
    by (simp_all add: stack_has_def sample_mem_def)
  have d: "distinct (map arg_obj (filter arg_out ?as))" by simp
  from call_context_objects [OF room al w(1)] obtain qs c r' m' where
    s: "ctx_adds 0x1000 sample_objs ?as (new_context ?r, ?r, sample_mem) = Some (qs, c, r', m')"
    and copy: "\<forall>k < length ?as. arg_in (?as ! k) \<longrightarrow>
      vm_bytes m' (qs ! k) (of_nat (arg_len sample_objs (?as ! k))) = sample_objs (arg_obj (?as ! k))"
    and fin: "\<exists>c2 host2. ctx_finalize 0x1000 sample_mem (c, sample_objs) = Some (c2, host2) \<and>
      (\<forall>k < length ?as. arg_out (?as ! k) \<longrightarrow>
         host2 (arg_obj (?as ! k)) = vm_bytes sample_mem (qs ! k) (of_nat (arg_len sample_objs (?as ! k))))"
    using d w(2) by metis
  have "vm_bytes m' (qs ! 0) 4 = [1, 2, 3, 4]" using copy by (simp add: all_less_Suc arg_len_def sample_objs_def)
  moreover have "\<exists>c2 host2. ctx_finalize 0x1000 sample_mem (c, sample_objs) = Some (c2, host2) \<and>
      host2 1 = vm_bytes sample_mem (qs ! 1) 2" using fin by (auto simp: all_less_Suc arg_len_def sample_objs_def)
  ultimately show ?thesis using s by blast
qed

end
