(* ===== verification/SboxManager.thy ===== *)
theory SboxManager
  imports LinuxEngine
begin

text \<open>
  The engine of the C++ interface, \<^verbatim>\<open>LFIManager\<close> of \<^verbatim>\<open>sbox/lfi.cpp\<close>: one engine with its Linux engine for all
  sandboxes of the host process, created on demand.
\<close>

record manager =
  mg_engine :: "engine option"
  mg_linux :: "linux_engine option"

definition no_manager :: manager where
  "no_manager = \<lparr>mg_engine = None, mg_linux = None\<rparr>"

text \<open>
  The options of both engines; \<open>ps\<close> is the page size of the host. The array of directory mappings, which is empty, is a
  local variable of \<^verbatim>\<open>create\<close>; the engine keeps the pointer to it.
\<close>

definition manager_opts :: "u64 \<Rightarrow> lfi_options" where
  "manager_opts ps = \<lparr>opt_pagesize = ps, opt_boxsize = gb 4, opt_verbose = False, opt_stores_only = False,
     opt_no_verify = False, opt_allow_wx = False, opt_no_aslr = False, opt_no_init_sigaltstack = False\<rparr>"

definition manager_linux_opts :: linux_options where
  "manager_linux_opts = \<lparr>lo_stacksize = mb 2, lo_verbose = False, lo_perf = False, lo_dir_maps = Some [], lo_wd = None,
     lo_exit_unknown_syscalls = False, lo_sys_passthrough = False, lo_debug = False, lo_brk_control = False, lo_brk_size = 0\<rparr>"

text \<open>What a creation depends on: the host, its allocations and environment variables, and the system-call handler.\<close>

record manager_env =
  me_bm :: bm_env
  me_arch :: arch
  me_ok_engine :: bool
  me_ok_bm :: bool
  me_ok_linux :: bool
  me_verbose :: "string option"
  me_debug :: "string option"
  me_handler :: nat
  me_pagesize :: u64

type_synonym manager_state = "manager \<times> host \<times> errors"

definition manager_create :: "manager_env \<Rightarrow> u64 \<Rightarrow> manager_state \<Rightarrow> (bool \<times> manager_state) run" where
  "manager_create e n s = (case s of (mg, h, er) \<Rightarrow> do {
     (en, h, er) \<leftarrow> lfi_new (me_bm e) (me_arch e) (me_ok_engine e) (me_ok_bm e) (me_verbose e) (manager_opts (me_pagesize e)) n (h, er);
     case en of
       None \<Rightarrow> Some (False, mg\<lparr>mg_engine := None\<rparr>, h, er)
     | Some en \<Rightarrow>
         (case lfi_linux_new (me_ok_linux e) (me_verbose e) (me_debug e) (me_handler e) en manager_linux_opts of
            None \<Rightarrow> Some (False, mg\<lparr>mg_engine := None, mg_linux := None\<rparr>, lfi_free en h, er)
          | Some le \<Rightarrow> Some (True, mg\<lparr>mg_engine := Some en, mg_linux := Some le\<rparr>, h, er))
   })"

definition manager_init :: "manager_env \<Rightarrow> u64 \<Rightarrow> manager_state \<Rightarrow> (bool \<times> manager_state) run" where
  "manager_init e n s = (if mg_engine (fst s) \<noteq> None then Some (False, s) else manager_create e n s)"

definition manager_ensure :: "manager_env \<Rightarrow> manager_state \<Rightarrow> (bool \<times> manager_state) run" where
  "manager_ensure e s = (if mg_engine (fst s) = None then manager_create e 1 s else Some (True, s))"

definition manager_get :: "manager_env \<Rightarrow> manager_state \<Rightarrow> (linux_engine option \<times> manager_state) run" where
  "manager_get e s = do {
     (ok, s) \<leftarrow> manager_ensure e s;
     Some (if ok then mg_linux (fst s) else None, s)
   }"

definition manager_destroy :: "manager \<times> host \<Rightarrow> manager \<times> host" where
  "manager_destroy s = (case s of (mg, h) \<Rightarrow>
     let mg = (if mg_linux mg = None then mg else mg\<lparr>mg_linux := None\<rparr>)
     in (case mg_engine mg of None \<Rightarrow> (mg, h) | Some en \<Rightarrow> (mg\<lparr>mg_engine := None\<rparr>, lfi_free en h)))"

subsection \<open>Both engines or none\<close>

definition manager_ok :: "manager \<Rightarrow> bool" where
  "manager_ok mg \<longleftrightarrow> (mg_engine mg = None \<longleftrightarrow> mg_linux mg = None)"

lemma linux_new_cases:
  "lfi_linux_new ok_malloc verbose debug handler en manager_linux_opts = None \<longleftrightarrow> \<not> ok_malloc"
  by (simp add: lfi_linux_new_def manager_linux_opts_def Let_def)

text \<open>A creation that fails leaves no engine and, unlike \<^verbatim>\<open>lfi_linux_lib_init\<close>, frees the one that it made.\<close>

lemma manager_create_ok:
  assumes s: "manager_create e n (mg, h, er) = Some (ok, mg', h', er')" and none: "manager_ok mg" "mg_engine mg = None"
  shows "manager_ok mg'" "ok \<longleftrightarrow> mg_linux mg' \<noteq> None"
    "\<not> ok \<Longrightarrow> mg' = mg \<and> (\<exists>en h1. lfi_new (me_bm e) (me_arch e) (me_ok_engine e) (me_ok_bm e) (me_verbose e)
        (manager_opts (me_pagesize e)) n (h, er) = Some (en, h1, er') \<and> h' = (case en of None \<Rightarrow> h1 | Some en \<Rightarrow> lfi_free en h1))"
proof -
  obtain en h1 er1 where new: "lfi_new (me_bm e) (me_arch e) (me_ok_engine e) (me_ok_bm e) (me_verbose e)
      (manager_opts (me_pagesize e)) n (h, er) = Some (en, h1, er1)"
    using s by (auto simp: manager_create_def bind_eq_Some_conv)
  have mg: "mg = no_manager" using none by (cases mg) (simp add: manager_ok_def no_manager_def)
  have "manager_ok mg' \<and> (ok \<longleftrightarrow> mg_linux mg' \<noteq> None) \<and>
      (\<not> ok \<longrightarrow> mg' = mg \<and> er' = er1 \<and> h' = (case en of None \<Rightarrow> h1 | Some en \<Rightarrow> lfi_free en h1))"
    using s new by (auto simp: mg manager_create_def manager_ok_def no_manager_def split: option.splits)
  then show "manager_ok mg'" "ok \<longleftrightarrow> mg_linux mg' \<noteq> None"
    "\<not> ok \<Longrightarrow> mg' = mg \<and> (\<exists>en h1. lfi_new (me_bm e) (me_arch e) (me_ok_engine e) (me_ok_bm e) (me_verbose e)
        (manager_opts (me_pagesize e)) n (h, er) = Some (en, h1, er') \<and> h' = (case en of None \<Rightarrow> h1 | Some en \<Rightarrow> lfi_free en h1))"
    using new by blast+
qed

lemma manager_get_ok:
  assumes "manager_get e (mg, h, er) = Some (le, mg', h', er')" "manager_ok mg"
  shows "manager_ok mg' \<and> le = mg_linux mg'"
proof (cases "mg_engine mg")
  case None
  then obtain ok where c: "manager_create e 1 (mg, h, er) = Some (ok, mg', h', er')" "le = (if ok then mg_linux mg' else None)"
    using assms(1) by (auto simp: manager_get_def manager_ensure_def bind_eq_Some_conv)
  then show ?thesis using manager_create_ok(1,2) [OF c(1) assms(2) None] by auto
next
  case (Some en)
  then show ?thesis using assms by (auto simp: manager_get_def manager_ensure_def)
qed

lemma manager_destroy_ok:
  "fst (manager_destroy (mg, h)) = no_manager"
  by (cases mg) (auto simp: manager_destroy_def no_manager_def Let_def split: option.splits)

end
